(* ===== verification/Prelude.thy ===== *)
theory Prelude
  imports Main "HOL-Library.Word" "HOL-Library.Monad_Syntax"
begin

text \<open>
  Shared vocabulary of the development: the standard-library operations the Rust code
  uses on machine integers, slices and results, and the facts about them that the
  component theories share.

  Integers. Bit-level components (instruction words, encoded rows) use \<open>'w word\<close>.
  Components that treat \<open>u16\<close>, \<open>u32\<close>, \<open>u64\<close> and \<open>usize\<close> as quantities use \<open>nat\<close>
  together with the width of each checked or saturating operation written out, as the
  source does: \<open>checked_add 32 a b\<close> is Rust's \<open>a.checked_add(b)\<close> on \<open>u32\<close>.

  Results. A fallible function returns \<open>'e + 'a\<close>, with \<open>Inl\<close> for \<open>Err\<close>; \<open>res_bind\<close> is the
  question-mark operator and \<open>traverse\<close> is collecting an iterator of results.
\<close>

named_theorems arith_defs \<open>definitions of the checked integer operations\<close>
named_theorems res_simps \<open>elimination of the result combinators\<close>

subsection \<open>Results\<close>

definition res_bind :: "'e + 'a \<Rightarrow> ('a \<Rightarrow> 'e + 'b) \<Rightarrow> 'e + 'b" where
  "res_bind m f = (case m of Inl e \<Rightarrow> Inl e | Inr a \<Rightarrow> f a)"

definition ok_or :: "'a option \<Rightarrow> 'e \<Rightarrow> 'e + 'a" where
  "ok_or m e = (case m of None \<Rightarrow> Inl e | Some a \<Rightarrow> Inr a)"

definition guard_res :: "bool \<Rightarrow> 'e \<Rightarrow> 'e + unit" where
  "guard_res bad e = (if bad then Inl e else Inr ())"

fun traverse :: "('a \<Rightarrow> 'e + 'b) \<Rightarrow> 'a list \<Rightarrow> 'e + 'b list" where
  "traverse f [] = Inr []"
| "traverse f (x # xs) =
     (case f x of Inl e \<Rightarrow> Inl e
      | Inr y \<Rightarrow> (case traverse f xs of Inl e \<Rightarrow> Inl e | Inr ys \<Rightarrow> Inr (y # ys)))"

fun traverse_opt :: "('a \<Rightarrow> 'b option) \<Rightarrow> 'a list \<Rightarrow> 'b list option" where
  "traverse_opt f [] = Some []"
| "traverse_opt f (x # xs) =
     (case f x of None \<Rightarrow> None
      | Some y \<Rightarrow> (case traverse_opt f xs of None \<Rightarrow> None | Some ys \<Rightarrow> Some (y # ys)))"

lemma res_bind_simps [simp]:
  "res_bind (Inl e) f = Inl e"
  "res_bind (Inr a) f = f a"
  by (simp_all add: res_bind_def)

text \<open>Evaluation: do not look under the continuation before the first result is known.\<close>

lemma res_bind_weak: "m = m' \<Longrightarrow> res_bind m f = res_bind m' f"
  by simp

lemma res_bind_Inr [res_simps]: "res_bind m f = Inr b \<longleftrightarrow> (\<exists>a. m = Inr a \<and> f a = Inr b)"
  by (cases m) auto

lemma res_bind_Inl [res_simps]:
  "res_bind m f = Inl e \<longleftrightarrow> m = Inl e \<or> (\<exists>a. m = Inr a \<and> f a = Inl e)"
  by (cases m) auto

lemma ok_or_simps [simp]: "ok_or None e = Inl e" "ok_or (Some a) e = Inr a"
  by (simp_all add: ok_or_def)

lemma ok_or_Inr [res_simps]: "ok_or m e = Inr a \<longleftrightarrow> m = Some a"
  by (cases m) auto

lemma guard_res_Inr [res_simps]: "guard_res b e = Inr u \<longleftrightarrow> \<not> b"
  by (auto simp: guard_res_def)

lemma guard_res_simps [simp]: "guard_res True e = Inl e" "guard_res False e = Inr ()"
  by (simp_all add: guard_res_def)

lemma traverse_Inr: "traverse f xs = Inr ys \<longleftrightarrow> map f xs = map Inr ys"
proof (induction xs arbitrary: ys)
  case Nil then show ?case by auto
next
  case (Cons x xs)
  show ?case
  proof (cases "f x")
    case (Inl e) then show ?thesis by auto
  next
    case (Inr y)
    show ?thesis
    proof (cases "traverse f xs")
      case (Inl e)
      then have "\<nexists>zs. map f xs = map Inr zs" using Cons.IH by (metis sum.distinct(1))
      then show ?thesis using Inl Inr by (auto simp: Cons_eq_map_conv)
    next
      case (Inr zs)
      then have "map f xs = map Inr zs" using Cons.IH by blast
      then show ?thesis using Inr \<open>f x = Inr y\<close>
        by (cases ys) (auto simp: inj_map_eq_map)
    qed
  qed
qed

lemma traverse_length: "traverse f xs = Inr ys \<Longrightarrow> length ys = length xs"
  by (auto simp: traverse_Inr dest: map_eq_imp_length_eq)

lemma traverse_nth: "traverse f xs = Inr ys \<Longrightarrow> i < length xs \<Longrightarrow> f (xs ! i) = Inr (ys ! i)"
proof -
  assume t: "traverse f xs = Inr ys" and i: "i < length xs"
  have "map f xs ! i = map Inr ys ! i" using t by (simp only: traverse_Inr)
  then show ?thesis using i traverse_length [OF t] by (simp only: nth_map)
qed

lemma traverse_all: "(\<And>x. x \<in> set xs \<Longrightarrow> f x = Inr (g x)) \<Longrightarrow> traverse f xs = Inr (map g xs)"
  by (induction xs) auto

lemma traverse_opt_Some: "traverse_opt f xs = Some ys \<longleftrightarrow> map f xs = map Some ys"
proof (induction xs arbitrary: ys)
  case Nil then show ?case by auto
next
  case (Cons x xs)
  show ?case
  proof (cases "f x")
    case None then show ?thesis by auto
  next
    case (Some y)
    show ?thesis
    proof (cases "traverse_opt f xs")
      case None
      then have "\<nexists>zs. map f xs = map Some zs" using Cons.IH by (metis option.distinct(1))
      then show ?thesis using None Some by (auto simp: Cons_eq_map_conv)
    next
      case (Some zs)
      then have "map f xs = map Some zs" using Cons.IH by blast
      then show ?thesis using Some \<open>f x = Some y\<close>
        by (cases ys) (auto simp: inj_map_eq_map)
    qed
  qed
qed

lemma traverse_opt_length: "traverse_opt f xs = Some ys \<Longrightarrow> length ys = length xs"
  by (auto simp: traverse_opt_Some dest: map_eq_imp_length_eq)

lemma traverse_opt_nth:
  "traverse_opt f xs = Some ys \<Longrightarrow> i < length xs \<Longrightarrow> f (xs ! i) = Some (ys ! i)"
proof -
  assume t: "traverse_opt f xs = Some ys" and i: "i < length xs"
  have "map f xs ! i = map Some ys ! i" using t by (simp only: traverse_opt_Some)
  then show ?thesis using i traverse_opt_length [OF t] by (simp only: nth_map)
qed

text \<open>Where an operation can also panic (an index out of range, an \<open>expect\<close>), its error type is
  \<open>'e fault\<close>: \<open>Fail\<close> is a returned \<open>Err\<close>, \<open>Panic\<close> an unwinding.\<close>

datatype 'e fault = Fail 'e | Panic

definition or_panic :: "'a option \<Rightarrow> 'e fault + 'a" where
  "or_panic m = ok_or m Panic"

lemma or_panic_simps [simp]: "or_panic (Some a) = Inr a" "or_panic None = Inl Panic"
  by (simp_all add: or_panic_def)

lemma or_panic_Inr [res_simps]: "or_panic m = Inr a \<longleftrightarrow> m = Some a"
  by (simp add: or_panic_def res_simps)

subsection \<open>Machine integers as bounded naturals\<close>

definition checked_add :: "nat \<Rightarrow> nat \<Rightarrow> nat \<Rightarrow> nat option" where
  [arith_defs]: "checked_add w a b = (if a + b < 2 ^ w then Some (a + b) else None)"

definition checked_sub :: "nat \<Rightarrow> nat \<Rightarrow> nat option" where
  [arith_defs]: "checked_sub a b = (if b \<le> a then Some (a - b) else None)"

definition checked_mul :: "nat \<Rightarrow> nat \<Rightarrow> nat \<Rightarrow> nat option" where
  [arith_defs]: "checked_mul w a b = (if a * b < 2 ^ w then Some (a * b) else None)"

definition saturating_add :: "nat \<Rightarrow> nat \<Rightarrow> nat \<Rightarrow> nat" where
  [arith_defs]: "saturating_add w a b = min (a + b) (2 ^ w - 1)"

definition saturating_sub :: "nat \<Rightarrow> nat \<Rightarrow> nat" where
  [arith_defs]: "saturating_sub a b = (if b \<le> a then a - b else 0)"

definition saturating_mul :: "nat \<Rightarrow> nat \<Rightarrow> nat \<Rightarrow> nat" where
  [arith_defs]: "saturating_mul w a b = min (a * b) (2 ^ w - 1)"

definition wrapping_add :: "nat \<Rightarrow> nat \<Rightarrow> nat \<Rightarrow> nat" where
  [arith_defs]: "wrapping_add w a b = (a + b) mod 2 ^ w"

text \<open>\<open>try_from\<close> to an unsigned type of width \<open>w\<close>.\<close>

definition try_from :: "nat \<Rightarrow> nat \<Rightarrow> nat option" where
  [arith_defs]: "try_from w a = (if a < 2 ^ w then Some a else None)"

definition is_multiple_of :: "nat \<Rightarrow> nat \<Rightarrow> bool" where
  [arith_defs]: "is_multiple_of a b = (if b = 0 then a = 0 else a mod b = 0)"

definition div_ceil :: "nat \<Rightarrow> nat \<Rightarrow> nat" where
  [arith_defs]: "div_ceil a b = (if a mod b > 0 then a div b + 1 else a div b)"

definition checked_next_multiple_of :: "nat \<Rightarrow> nat \<Rightarrow> nat \<Rightarrow> nat option" where
  "checked_next_multiple_of w a b =
     (if b = 0 then None
      else (let r = a mod b in if r = 0 then Some a else checked_add w a (b - r)))"

text \<open>\<open>is_power_of_two\<close>: exactly one bit set.\<close>

fun is_power_of_two :: "nat \<Rightarrow> bool" where
  "is_power_of_two n =
     (if n = 0 then False else if n = 1 then True else even n \<and> is_power_of_two (n div 2))"

declare is_power_of_two.simps [simp del]

lemma is_multiple_of_dvd: "is_multiple_of a b \<longleftrightarrow> b dvd a"
  by (auto simp: is_multiple_of_def)

lemma is_power_of_two_pos: "is_power_of_two n \<Longrightarrow> 0 < n"
  by (subst (asm) is_power_of_two.simps) (simp split: if_splits)

lemma is_power_of_two_iff: "is_power_of_two n \<longleftrightarrow> (\<exists>k. n = 2 ^ k)"
proof
  show "is_power_of_two n \<Longrightarrow> \<exists>k. n = 2 ^ k"
  proof (induction n rule: is_power_of_two.induct)
    case (1 n)
    show ?case
    proof (cases "n = 1")
      case True then show ?thesis by (intro exI [of _ 0]) simp
    next
      case False
      from 1 False have "n \<noteq> 0" "even n" "is_power_of_two (n div 2)"
        by (subst (asm) is_power_of_two.simps, simp split: if_splits)+
      with 1 False obtain k where "n div 2 = 2 ^ k" by blast
      with \<open>even n\<close> have "n = 2 ^ Suc k" by auto
      then show ?thesis ..
    qed
  qed
  show "\<exists>k. n = 2 ^ k \<Longrightarrow> is_power_of_two n"
  proof (elim exE)
    fix k show "n = 2 ^ k \<Longrightarrow> is_power_of_two n"
      by (induction k arbitrary: n) (simp_all add: is_power_of_two.simps)
  qed
qed

lemma round_up_eq:
  assumes "0 < (b::nat)"
  shows "a + (b - a mod b) = (a div b + 1) * b"
proof -
  have "a + (b - a mod b) = a div b * b + (a mod b + (b - a mod b))"
    by (metis add.assoc div_mult_mod_eq)
  also have "a mod b + (b - a mod b) = b" using mod_less_divisor [OF assms, of a] by simp
  finally show ?thesis by simp
qed

lemma checked_next_multiple_of_Some:
  assumes "checked_next_multiple_of w a b = Some c"
  shows "a \<le> c" and "b dvd c" and "c < a + b" and "a < 2 ^ w \<Longrightarrow> c < 2 ^ w"
proof -
  have b: "b > 0" using assms by (cases b) (auto simp: checked_next_multiple_of_def)
  have c: "c = (if a mod b = 0 then a else a + (b - a mod b))"
    using assms by (auto simp: checked_next_multiple_of_def checked_add_def Let_def split: if_splits)
  have m: "a mod b < b" using b by simp
  show "a \<le> c" using c by simp
  show "c < a + b" using c m b by (auto split: if_splits)
  show "b dvd c"
  proof (cases "a mod b = 0")
    case True then show ?thesis using c by (simp add: mod_eq_0_iff_dvd)
  next
    case False
    have "a + (b - a mod b) = (a div b + 1) * b"
      by (rule round_up_eq [OF b])
    then show ?thesis using c False by simp
  qed
  show "a < 2 ^ w \<Longrightarrow> c < 2 ^ w"
    using assms by (auto simp: checked_next_multiple_of_def checked_add_def Let_def split: if_splits)
qed

text \<open>It is the least multiple: any multiple at or above \<open>a\<close> is at or above the result.\<close>

lemma checked_next_multiple_of_least:
  assumes "checked_next_multiple_of w a b = Some c" and "b dvd d" and "a \<le> d"
  shows "c \<le> d"
proof (rule ccontr)
  assume "\<not> c \<le> d"
  then have "d < c" by simp
  moreover have "b dvd c" "c < a + b" using checked_next_multiple_of_Some [OF assms(1)] by auto
  ultimately have "b dvd c - d" "0 < c - d" "c - d < b" using assms by auto
  then show False by (simp add: nat_dvd_not_less)
qed

lemma checked_next_multiple_of_None:
  assumes "checked_next_multiple_of w a b = None" and "0 < b" and "b dvd d" and "a \<le> d"
    and "a < 2 ^ w"
  shows "2 ^ w \<le> d"
proof -
  have n0: "a mod b \<noteq> 0" and ov: "2 ^ w \<le> a + (b - a mod b)"
    using assms by (auto simp: checked_next_multiple_of_def checked_add_def Let_def split: if_splits)
  have e: "a + (b - a mod b) = (a div b + 1) * b"
    by (rule round_up_eq [OF assms(2)])
  obtain q where q: "d = b * q" using assms by (elim dvdE)
  have "a div b < q"
  proof (rule ccontr)
    assume "\<not> a div b < q"
    then have "b * q \<le> b * (a div b)" by simp
    moreover have "b * (a div b) \<noteq> a" using n0
      by (metis mod_mult_self1_is_0)
    moreover have "b * (a div b) \<le> a" by simp
    ultimately show False using assms(4) q by linarith
  qed
  then have "b * (a div b + 1) \<le> b * q" by (intro mult_le_mono) auto
  then have "(a div b + 1) * b \<le> d" using q by (simp add: mult.commute)
  then show ?thesis using ov e by simp
qed

lemma div_ceil_bounds:
  assumes "0 < b"
  shows "a \<le> div_ceil a b * b" and "div_ceil a b * b < a + b"
proof -
  have e: "a div b * b + a mod b = a" and m: "a mod b < b" using assms by simp_all
  have f: "(a div b + 1) * b = a div b * b + b" by simp
  have "a \<le> div_ceil a b * b \<and> div_ceil a b * b < a + b"
  proof (cases "0 < a mod b")
    case True
    then show ?thesis using e m f by (simp only: div_ceil_def if_True) linarith
  next
    case False
    then show ?thesis using e assms by (simp only: div_ceil_def if_False) linarith
  qed
  then show "a \<le> div_ceil a b * b" "div_ceil a b * b < a + b" by auto
qed

subsection \<open>Bit fields of instruction words\<close>

named_theorems bitfield \<open>reading a field of a word assembled by disjoint fields\<close>

text \<open>The \<open>n\<close> bits of a word that start at bit \<open>lo\<close>.\<close>

definition field :: "nat \<Rightarrow> nat \<Rightarrow> 32 word \<Rightarrow> 32 word" where
  "field lo n w = take_bit n (drop_bit lo w)"

lemma take_bit_small: "unat x < 2 ^ n \<Longrightarrow> take_bit n x = (x :: 'a::len word)"
  by (rule word_unat_eq_iff [THEN iffD2]) (simp add: unsigned_take_bit_eq take_bit_nat_eq_self)

lemma small_bit: "unat (x :: 'a::len word) < 2 ^ n \<Longrightarrow> bit x i \<Longrightarrow> i < n"
  by (metis bit_take_bit_iff take_bit_small)

lemma field_or [bitfield]: "field lo n (or a b) = or (field lo n a) (field lo n b)"
  by (simp add: field_def)

lemma field_same [bitfield]:
  "unat (x :: 'a::len word) < 2 ^ n \<Longrightarrow> lo + n \<le> 32 \<Longrightarrow> field lo n (push_bit lo (ucast x)) = ucast x"
  by (rule bit_word_eqI) (auto simp: field_def bit_simps dest: small_bit)

lemma field_same0 [bitfield]:
  "unat (x :: 'a::len word) < 2 ^ n \<Longrightarrow> n \<le> 32 \<Longrightarrow> field 0 n (ucast x) = ucast x"
  using field_same [of x n 0] by simp

lemma field_other:
  "unat (x :: 'a::len word) < 2 ^ m \<Longrightarrow> lo' + m \<le> lo \<or> lo + n \<le> lo' \<Longrightarrow>
   field lo n (push_bit lo' (ucast x)) = 0"
  by (rule bit_word_eqI) (auto simp: field_def bit_simps dest: small_bit)

lemma field_other0:
  "unat (x :: 'a::len word) < 2 ^ m \<Longrightarrow> m \<le> lo \<Longrightarrow> field lo n (ucast x) = 0"
  using field_other [of x m 0 lo n] by simp

subsection \<open>Slices\<close>

text \<open>
  \<open>position\<close> is the index of the first element satisfying the predicate.
  \<open>partition_point\<close> is specified by the standard library on partitioned slices only:
  there it is the number of leading elements satisfying the predicate.
\<close>

fun position :: "('a \<Rightarrow> bool) \<Rightarrow> 'a list \<Rightarrow> nat option" where
  "position p [] = None"
| "position p (x # xs) = (if p x then Some 0 else map_option Suc (position p xs))"

fun find_map :: "('a \<Rightarrow> 'b option) \<Rightarrow> 'a list \<Rightarrow> 'b option" where
  "find_map f [] = None"
| "find_map f (x # xs) = (case f x of None \<Rightarrow> find_map f xs | Some y \<Rightarrow> Some y)"

definition slice_partition_point :: "('a \<Rightarrow> bool) \<Rightarrow> 'a list \<Rightarrow> nat" where
  "slice_partition_point p xs = length (takeWhile p xs)"

definition list_insert :: "nat \<Rightarrow> 'a \<Rightarrow> 'a list \<Rightarrow> 'a list" where
  "list_insert i x xs = take i xs @ x # drop i xs"

definition list_remove :: "nat \<Rightarrow> 'a list \<Rightarrow> 'a list" where
  "list_remove i xs = take i xs @ drop (Suc i) xs"

definition get :: "'a list \<Rightarrow> nat \<Rightarrow> 'a option" where
  "get xs i = (if i < length xs then Some (xs ! i) else None)"

lemma position_Some:
  "position p xs = Some i \<longleftrightarrow> i < length xs \<and> p (xs ! i) \<and> (\<forall>j<i. \<not> p (xs ! j))"
proof (induction xs arbitrary: i)
  case Nil then show ?case by simp
next
  case (Cons x xs)
  show ?case
  proof (cases i)
    case 0 then show ?thesis by auto
  next
    case (Suc k)
    have "(\<forall>j<i. \<not> p ((x # xs) ! j)) \<longleftrightarrow> \<not> p x \<and> (\<forall>j<k. \<not> p (xs ! j))"
      using Suc by (auto simp: less_Suc_eq_0_disj)
    then show ?thesis using Cons.IH [of k] Suc by auto
  qed
qed

lemma position_None: "position p xs = None \<longleftrightarrow> (\<forall>x\<in>set xs. \<not> p x)"
  by (induction xs) auto

lemma find_map_Some: "find_map f xs = Some y \<Longrightarrow> \<exists>x\<in>set xs. f x = Some y"
  by (induction xs) (auto split: option.splits)

lemma find_map_None: "find_map f xs = None \<longleftrightarrow> (\<forall>x\<in>set xs. f x = None)"
  by (induction xs) (auto split: option.splits)

lemma set_map_filter: "y \<in> set (List.map_filter f xs) \<longleftrightarrow> (\<exists>x\<in>set xs. f x = Some y)"
  by (induction xs) (auto simp: List.map_filter_simps split: option.splits)

lemma dedup_sorted: "sorted xs \<Longrightarrow> sorted_wrt (<) (remdups_adj (xs :: 'a::linorder list))"
proof (induction xs rule: remdups_adj.induct)
  case (3 x y xs)
  show ?case
  proof (cases "x = y")
    case True then show ?thesis using 3 by simp
  next
    case False
    then have "\<forall>z\<in>set (y # xs). x < z" using 3(3) by fastforce
    then show ?thesis using 3 False by simp
  qed
qed simp_all

lemma get_Some [simp]: "get xs i = Some x \<longleftrightarrow> i < length xs \<and> xs ! i = x"
  by (auto simp: get_def)

lemma get_None [simp]: "get xs i = None \<longleftrightarrow> length xs \<le> i"
  by (auto simp: get_def)

lemma length_list_insert [simp]: "i \<le> length xs \<Longrightarrow> length (list_insert i x xs) = Suc (length xs)"
  by (simp add: list_insert_def)

lemma set_list_insert [simp]: "set (list_insert i x xs) = insert x (set xs)"
  by (simp add: list_insert_def) (metis append_take_drop_id set_append)

lemma length_list_remove [simp]: "i < length xs \<Longrightarrow> length (list_remove i xs) = length xs - 1"
  by (simp add: list_remove_def min_def)

subsection \<open>Components driven by a sequence of operations\<close>

text \<open>
  A component with a state and fallible operations: an operation that returns an error
  leaves the state as it was. \<open>run_ops\<close> performs a sequence of calls, whatever their outcome.
\<close>

fun run_ops :: "('op \<Rightarrow> 's \<Rightarrow> 'e + 's) \<Rightarrow> 'op list \<Rightarrow> 's \<Rightarrow> 's" where
  "run_ops exec [] s = s"
| "run_ops exec (op # ops) s =
     run_ops exec ops (case exec op s of Inl e \<Rightarrow> s | Inr s' \<Rightarrow> s')"

locale invariant_system =
  fixes init :: "'s" and exec :: "'op \<Rightarrow> 's \<Rightarrow> 'e + 's"
    and well_typed :: "'op \<Rightarrow> bool" and inv :: "'s \<Rightarrow> bool"
  assumes init_inv: "inv init"
    and exec_inv: "inv s \<Longrightarrow> well_typed op \<Longrightarrow> exec op s = Inr s' \<Longrightarrow> inv s'"
begin

lemma step_inv: "inv s \<Longrightarrow> well_typed op \<Longrightarrow> inv (case exec op s of Inl e \<Rightarrow> s | Inr s' \<Rightarrow> s')"
  by (auto split: sum.split dest: exec_inv)

lemma run_inv_from: "inv s \<Longrightarrow> list_all well_typed ops \<Longrightarrow> inv (run_ops exec ops s)"
  by (induction ops arbitrary: s) (auto intro: step_inv)

lemma run_inv: "list_all well_typed ops \<Longrightarrow> inv (run_ops exec ops init)"
  using init_inv by (rule run_inv_from)

end

end
