(* ===== verification/Target.thy ===== *)
theory Target
  imports Prelude
begin

text \<open>
  Architecture facts of the IPU21 target: crate \<open>ipu-target\<close> (\<open>lib.rs\<close>, \<open>ipu21/costs.rs\<close>,
  \<open>ipu21/memory.rs\<close>, \<open>ipu21/loader_abi.rs\<close>, \<open>ipu21/runtime_layout.rs\<close> with the constants of
  \<open>include/runtime_layout.def\<close>). Addresses and sizes are \<open>u32\<close> values, modelled as \<open>nat\<close>.
  The lemmas compute the set of SRAM contention elements a word range touches.
\<close>

subsection \<open>Constants\<close>

definition WORKER_CONTEXTS :: nat where "WORKER_CONTEXTS = 6"

definition TILE_MEMORY_BASE :: nat where "TILE_MEMORY_BASE = 0x4c000"
definition TILE_MEMORY_SIZE :: nat where "TILE_MEMORY_SIZE = 624 * 1024"
definition TILE_MEMORY_ELEMENT_SIZE :: nat where "TILE_MEMORY_ELEMENT_SIZE = 0x4000"
definition SUPERVISOR_FETCH_LOOKAHEAD :: nat where "SUPERVISOR_FETCH_LOOKAHEAD = 8 * 8"
definition EXECUTABLE_MEMORY_LIMIT :: nat where "EXECUTABLE_MEMORY_LIMIT = 0x80000"
definition INTERLEAVED_MEMORY_BASE :: nat where
  "INTERLEAVED_MEMORY_BASE = EXECUTABLE_MEMORY_LIMIT"
definition INTERLEAVED_REGION_LIMIT :: nat where
  "INTERLEAVED_REGION_LIMIT = TILE_MEMORY_BASE + TILE_MEMORY_SIZE"
definition INTERLEAVED_ELEMENT_SIZE :: nat where
  "INTERLEAVED_ELEMENT_SIZE = 2 * TILE_MEMORY_ELEMENT_SIZE"

text \<open>Secondary-loader transport contract (\<open>loader_abi.rs\<close>).\<close>

definition APPLICATION_LOAD_BASE :: nat where "APPLICATION_LOAD_BASE = TILE_MEMORY_BASE + 0x10"
definition FRAME_SIZE :: nat where "FRAME_SIZE = 1024"
definition FRAME_HEADER_SIZE :: nat where "FRAME_HEADER_SIZE = 16"
definition FRAME_TRAILER_SIZE :: nat where "FRAME_TRAILER_SIZE = 16"
definition FRAME_PAYLOAD_SIZE :: nat where
  "FRAME_PAYLOAD_SIZE = FRAME_SIZE - FRAME_HEADER_SIZE - FRAME_TRAILER_SIZE"
definition SECONDARY_LOADER_MAX_FRAMES :: nat where "SECONDARY_LOADER_MAX_FRAMES = 0x283"
definition APPLICATION_LOAD_LIMIT :: nat where
  "APPLICATION_LOAD_LIMIT = APPLICATION_LOAD_BASE + SECONDARY_LOADER_MAX_FRAMES * FRAME_PAYLOAD_SIZE"

text \<open>Resident runtime placement (\<open>runtime_layout.def\<close>, \<open>runtime_layout.rs\<close>).\<close>

definition EXCHANGE_WINDOW_BASE :: nat where "EXCHANGE_WINDOW_BASE = 0x50000"
definition EXCHANGE_WINDOW_BYTES :: nat where "EXCHANGE_WINDOW_BYTES = 0x8000"
definition WORKER_STACK_HEADROOM :: nat where "WORKER_STACK_HEADROOM = 0xe0"
definition WORKER_SYNC_STRIDE :: nat where "WORKER_SYNC_STRIDE = 0x100"
definition RUNTIME_STATE_BASE :: nat where
  "RUNTIME_STATE_BASE = EXCHANGE_WINDOW_BASE + EXCHANGE_WINDOW_BYTES"
definition RUNTIME_STATE_BYTES :: nat where
  "RUNTIME_STATE_BYTES = WORKER_STACK_HEADROOM + WORKER_CONTEXTS * WORKER_SYNC_STRIDE"
definition APPLICATION_ENTRY_BYTES :: nat where "APPLICATION_ENTRY_BYTES = 8"
definition SUPPORT_START :: nat where
  "SUPPORT_START = APPLICATION_LOAD_BASE + APPLICATION_ENTRY_BYTES"
definition RUNTIME_EXECUTABLE_START :: nat where
  "RUNTIME_EXECUTABLE_START =
     the (checked_next_multiple_of 32 (RUNTIME_STATE_BASE + RUNTIME_STATE_BYTES)
            TILE_MEMORY_ELEMENT_SIZE)"

text \<open>Memory available under the runtime and loader contracts (\<open>memory.rs\<close>).\<close>

definition DATA_BASE :: nat where "DATA_BASE = RUNTIME_STATE_BASE + RUNTIME_STATE_BYTES"
definition INTERLEAVED_REGION_BYTES :: nat where
  "INTERLEAVED_REGION_BYTES = APPLICATION_LOAD_LIMIT - INTERLEAVED_MEMORY_BASE"
definition STANDARD_FIXED_BYTES :: nat where
  "STANDARD_FIXED_BYTES = INTERLEAVED_MEMORY_BASE - DATA_BASE"
definition PLANNED_DATA_BYTES :: nat where
  "PLANNED_DATA_BYTES = STANDARD_FIXED_BYTES + INTERLEAVED_REGION_BYTES"
definition DEFAULT_SUPPORT_RESERVATION_BYTES :: nat where
  "DEFAULT_SUPPORT_RESERVATION_BYTES = 3 * TILE_MEMORY_ELEMENT_SIZE"

lemmas memory_constants =
  TILE_MEMORY_BASE_def TILE_MEMORY_SIZE_def TILE_MEMORY_ELEMENT_SIZE_def
  EXECUTABLE_MEMORY_LIMIT_def INTERLEAVED_MEMORY_BASE_def INTERLEAVED_REGION_LIMIT_def
  INTERLEAVED_ELEMENT_SIZE_def APPLICATION_LOAD_BASE_def FRAME_SIZE_def FRAME_HEADER_SIZE_def
  FRAME_TRAILER_SIZE_def FRAME_PAYLOAD_SIZE_def SECONDARY_LOADER_MAX_FRAMES_def
  APPLICATION_LOAD_LIMIT_def EXCHANGE_WINDOW_BASE_def EXCHANGE_WINDOW_BYTES_def
  WORKER_STACK_HEADROOM_def WORKER_SYNC_STRIDE_def RUNTIME_STATE_BASE_def
  RUNTIME_STATE_BYTES_def APPLICATION_ENTRY_BYTES_def SUPPORT_START_def
  RUNTIME_EXECUTABLE_START_def DATA_BASE_def INTERLEAVED_REGION_BYTES_def
  STANDARD_FIXED_BYTES_def PLANNED_DATA_BYTES_def DEFAULT_SUPPORT_RESERVATION_BYTES_def
  WORKER_CONTEXTS_def

subsection \<open>The target\<close>

datatype target = Ipu21

record target_costs =
  exchange_bytes_per_cycle :: nat
  local_copy_bytes_per_cycle :: nat
  local_copy_call_cycles :: nat
  exchange_phase_cycles :: nat
  kernel_launch_cycles :: nat
  send_control_cycles :: nat
  receive_control_cycles :: nat
  receive_pointer_cycles :: nat

definition COSTS :: target_costs where
  "COSTS =
     \<lparr>exchange_bytes_per_cycle = 4, local_copy_bytes_per_cycle = 8,
      local_copy_call_cycles = 288, exchange_phase_cycles = 600,
      kernel_launch_cycles = 11, send_control_cycles = 2,
      receive_control_cycles = 2, receive_pointer_cycles = 1\<rparr>"

fun target_name :: "target \<Rightarrow> string" where
  "target_name Ipu21 = ''ipu21''"

definition target_from_str :: "string \<Rightarrow> string + target" where
  "target_from_str name =
     (if name = ''ipu21'' then Inr Ipu21 else Inl ''unsupported IPU target'')"

fun costs :: "target \<Rightarrow> target_costs" where
  "costs Ipu21 = COSTS"

text \<open>A \<open>Range<u32>\<close> is the pair of its start and its exclusive end.\<close>

type_synonym range = "nat \<times> nat"

fun tile_memory :: "target \<Rightarrow> range" where
  "tile_memory Ipu21 = (TILE_MEMORY_BASE, TILE_MEMORY_BASE + TILE_MEMORY_SIZE)"

fun standard_memory_element_bytes :: "target \<Rightarrow> nat" where
  "standard_memory_element_bytes Ipu21 = TILE_MEMORY_ELEMENT_SIZE"

fun interleaved_memory_element_bytes :: "target \<Rightarrow> nat" where
  "interleaved_memory_element_bytes Ipu21 = INTERLEAVED_ELEMENT_SIZE"

fun interleaved_data_bytes :: "target \<Rightarrow> nat" where
  "interleaved_data_bytes Ipu21 = INTERLEAVED_REGION_BYTES"

fun planned_data_bytes :: "target \<Rightarrow> nat" where
  "planned_data_bytes Ipu21 = PLANNED_DATA_BYTES"

fun support_reservation_bytes :: "target \<Rightarrow> nat" where
  "support_reservation_bytes Ipu21 = DEFAULT_SUPPORT_RESERVATION_BYTES"

fun maximum_standard_allocation :: "target \<Rightarrow> nat \<Rightarrow> nat" where
  "maximum_standard_allocation Ipu21 reserved_standard_bytes =
     (let lower = saturating_sub STANDARD_FIXED_BYTES reserved_standard_bytes
      in max lower (interleaved_data_bytes Ipu21))"

lemma target_from_str_name: "target_from_str (target_name t) = Inr t"
  by (cases t) (simp add: target_from_str_def)

lemma memory_layout_nested:
  "TILE_MEMORY_BASE < SUPPORT_START" "SUPPORT_START \<le> EXCHANGE_WINDOW_BASE"
  "DATA_BASE \<le> RUNTIME_EXECUTABLE_START" "RUNTIME_EXECUTABLE_START < INTERLEAVED_MEMORY_BASE"
  "INTERLEAVED_MEMORY_BASE < APPLICATION_LOAD_LIMIT"
  "APPLICATION_LOAD_LIMIT \<le> INTERLEAVED_REGION_LIMIT"
  by (simp_all add: memory_constants checked_next_multiple_of_def checked_add_def Let_def)

subsection \<open>Contention elements\<close>

text \<open>The element a byte address belongs to, and where it ends.\<close>

definition element_base :: "nat \<Rightarrow> nat" where
  "element_base x =
     (if INTERLEAVED_MEMORY_BASE \<le> x
      then INTERLEAVED_MEMORY_BASE
             + (x - INTERLEAVED_MEMORY_BASE) div INTERLEAVED_ELEMENT_SIZE * INTERLEAVED_ELEMENT_SIZE
      else x div TILE_MEMORY_ELEMENT_SIZE * TILE_MEMORY_ELEMENT_SIZE)"

definition element_end :: "nat \<Rightarrow> nat" where
  "element_end x =
     element_base x
       + (if INTERLEAVED_MEMORY_BASE \<le> x then INTERLEAVED_ELEMENT_SIZE else TILE_MEMORY_ELEMENT_SIZE)"

lemma element_bounds: "element_base x \<le> x" "x < element_end x"
proof -
  have "a div b * b \<le> a" "0 < b \<Longrightarrow> a < a div b * b + b" for a b :: nat
    using div_mult_mod_eq [of a b] mod_less_divisor [of b a] by linarith+
  from this [of "x - 0x80000" "0x8000"] this [of x "0x4000"]
  show "element_base x \<le> x" "x < element_end x"
    by (auto simp: element_base_def element_end_def memory_constants)
qed

lemma element_base_same:
  assumes "element_base x \<le> y" and "y < element_end x"
  shows "element_base y = element_base x"
proof (cases "0x80000 \<le> x")
  case True
  then have "0x80000 \<le> y" using assms by (simp add: element_base_def memory_constants)
  with True assms have "(y - 0x80000) div 0x8000 = (x - 0x80000) div 0x8000"
    by (intro div_nat_eqI) (auto simp: element_base_def element_end_def memory_constants)
  with True \<open>0x80000 \<le> y\<close> show ?thesis by (simp add: element_base_def memory_constants)
next
  case False
  then have q: "x div 0x4000 < 0x20" by (simp add: div_less_iff_less_mult)
  then have "x div 0x4000 * 0x4000 + 0x4000 \<le> 0x80000" by linarith
  with False assms have y: "y < 0x80000"
    by (simp add: element_base_def element_end_def memory_constants)
  have "y div 0x4000 = x div 0x4000"
    using False assms by (intro div_nat_eqI) (auto simp: element_base_def element_end_def memory_constants)
  with False y show ?thesis by (simp add: element_base_def memory_constants)
qed

lemma elements_step:
  assumes "cursor < end" and "end < 2 ^ 32"
  defines "base \<equiv> if INTERLEAVED_MEMORY_BASE \<le> cursor then INTERLEAVED_MEMORY_BASE else 0"
    and "esize \<equiv> if INTERLEAVED_MEMORY_BASE \<le> cursor then INTERLEAVED_ELEMENT_SIZE
                else TILE_MEMORY_ELEMENT_SIZE"
  shows "base + (cursor - base) div esize * esize = element_base cursor"
    and "min (saturating_add 32 base (saturating_mul 32 ((cursor - base) div esize + 1) esize)) end
           = min (element_end cursor) end"
proof -
  show e: "base + (cursor - base) div esize * esize = element_base cursor"
    by (simp add: base_def esize_def element_base_def)
  have "element_end cursor = base + ((cursor - base) div esize + 1) * esize"
    using e by (simp add: element_end_def base_def esize_def)
  then show "min (saturating_add 32 base (saturating_mul 32 ((cursor - base) div esize + 1) esize)) end
           = min (element_end cursor) end"
    using assms(2) by (simp add: saturating_add_def saturating_mul_def min_def)
qed

text \<open>
  \<open>effective_memory_elements\<close> walks from the address to the end of the word range, one
  contention element at a time. Every quantity is a \<open>u32\<close>; the conjunct \<open>end < 2 ^ 32\<close> of
  the loop condition is that type bound (the caller's saturating addition gives it), and
  makes the saturating boundary strictly larger than the cursor.
\<close>

function effective_elements_loop :: "nat \<Rightarrow> nat \<Rightarrow> nat list" where
  "effective_elements_loop cursor end =
     (if cursor < end \<and> end < 2 ^ 32 then
        (let interleaved = INTERLEAVED_MEMORY_BASE \<le> cursor;
             (base, esize) =
               (if interleaved then (INTERLEAVED_MEMORY_BASE, INTERLEAVED_ELEMENT_SIZE)
                else (0, TILE_MEMORY_ELEMENT_SIZE));
             index = (cursor - base) div esize;
             boundary = saturating_add 32 base (saturating_mul 32 (index + 1) esize)
         in (base + index * esize) # effective_elements_loop (min boundary end) end)
      else [])"
  by pat_completeness auto

termination
proof (relation "measure (\<lambda>(cursor, end). end - cursor)", goal_cases)
  case 1 show ?case by simp
next
  case (2 cursor end' inter x base esize index boundary)
  then have "min boundary end' = min (element_end cursor) end'"
    using elements_step(2) [of cursor end'] by (auto split: if_splits)
  then have "cursor < min boundary end'" using 2(1) element_bounds(2) [of cursor] by simp
  then have "end' - min boundary end' < end' - cursor" using 2(1) by linarith
  then show ?case by simp
qed

declare effective_elements_loop.simps [simp del]

definition effective_memory_elements :: "nat \<Rightarrow> nat \<Rightarrow> nat list" where
  "effective_memory_elements address words =
     effective_elements_loop address (saturating_add 32 address (saturating_mul 32 words 4))"

lemma effective_elements_loop_step:
  "cursor < end \<Longrightarrow> end < 2 ^ 32 \<Longrightarrow>
   effective_elements_loop cursor end
     = element_base cursor # effective_elements_loop (min (element_end cursor) end) end"
  using elements_step [of cursor "end"]
  by (subst effective_elements_loop.simps)
    (cases "INTERLEAVED_MEMORY_BASE \<le> cursor"; simp add: Let_def del: min_less_iff_conj)

lemma effective_elements_loop_stop: "\<not> cursor < end \<Longrightarrow> effective_elements_loop cursor end = []"
  by (subst effective_elements_loop.simps) simp

lemma effective_elements_loop_set:
  "end < 2 ^ 32 \<Longrightarrow> set (effective_elements_loop cursor end) = element_base ` {cursor..<end}"
proof (induction "end - cursor" arbitrary: cursor rule: less_induct)
  case less
  show ?case
  proof (cases "cursor < end")
    case False then show ?thesis by (simp add: effective_elements_loop_stop)
  next
    case True
    let ?next = "min (element_end cursor) end"
    have gt: "cursor < ?next" using True element_bounds by simp
    have "set (effective_elements_loop ?next end) = element_base ` {?next..<end}"
      using less gt True by (intro less.hyps) auto
    moreover have "element_base ` {cursor..<?next} = (\<lambda>_. element_base cursor) ` {cursor..<?next}"
      by (rule image_cong [OF refl], rule element_base_same)
        (use element_bounds(1) [of cursor] in auto)
    moreover have "(\<lambda>_. element_base cursor) ` {cursor..<?next} = {element_base cursor}"
      using gt by (intro image_constant [of cursor]) auto
    moreover have "{cursor..<end} = {cursor..<?next} \<union> {?next..<end}" using gt True by auto
    ultimately show ?thesis
      using True less.prems by (simp add: effective_elements_loop_step image_Un)
  qed
qed

lemma element_base_mono: "x \<le> y \<Longrightarrow> element_base x \<le> element_base y"
proof -
  assume xy: "x \<le> y"
  show ?thesis
  proof (cases "y < element_end x")
    case True
    then show ?thesis using element_base_same [of x y] element_bounds(1) [of x] xy by simp
  next
    case False
    then have "element_base x \<le> element_end x" "element_end x \<le> y" by (simp_all add: element_end_def)
    show ?thesis
    proof (rule ccontr)
      assume c: "\<not> element_base x \<le> element_base y"
      then have "x < element_end y" using xy element_bounds [of y] by simp
      moreover have "element_base y \<le> x" using c element_bounds(1) [of x] by simp
      ultimately have "element_base x = element_base y" by (rule element_base_same [rotated])
      with c show False by simp
    qed
  qed
qed

text \<open>Addresses past the end of an element lie in another one.\<close>

lemma element_base_differs:
  assumes "element_end x \<le> y"
  shows "element_base x \<noteq> element_base y"
proof
  assume eq: "element_base x = element_base y"
  have "x < y" using assms element_bounds(2) [of x] by simp
  then have "element_base y \<le> x" using element_bounds(1) [of x] eq by simp
  consider "INTERLEAVED_MEMORY_BASE \<le> x" | "x < INTERLEAVED_MEMORY_BASE" by linarith
  then show False
  proof cases
    case 1
    then have "element_end y = element_end x" using eq \<open>x < y\<close> by (simp add: element_end_def)
    then show False using assms element_bounds(2) [of y] by simp
  next
    case 2
    then have "element_base x < INTERLEAVED_MEMORY_BASE" using element_bounds(1) [of x] by simp
    then have "y < INTERLEAVED_MEMORY_BASE"
      using eq by (auto simp: element_base_def split: if_splits)
    then have "element_end y = element_end x" using eq 2 by (simp add: element_end_def)
    then show False using assms element_bounds(2) [of y] by simp
  qed
qed

lemma effective_elements_loop_sorted: "end < 2 ^ 32 \<Longrightarrow> sorted_wrt (<) (effective_elements_loop cursor end)"
proof (induction "end - cursor" arbitrary: cursor rule: less_induct)
  case less
  show ?case
  proof (cases "cursor < end")
    case False then show ?thesis by (simp add: effective_elements_loop_stop)
  next
    case True
    let ?next = "min (element_end cursor) end"
    have gt: "cursor < ?next" using True element_bounds by simp
    have "element_base cursor < element_base z" if "z \<in> {?next..<end}" for z
    proof -
      have z: "element_end cursor \<le> z" "cursor \<le> z" using that gt by auto
      have "element_base cursor \<noteq> element_base z"
        using z(1) by (rule element_base_differs)
      then show ?thesis using element_base_mono [OF z(2)] by simp
    qed
    then show ?thesis
      using less gt True effective_elements_loop_set [OF less.prems, of ?next]
      by (simp add: effective_elements_loop_step)
  qed
qed

subsection \<open>Property\<close>

text \<open>
  C7: For any 32-bit address and word count, the contention regions reported are exactly those of
  the bytes of the access (clipped at the end of the address space), each reported once, in
  increasing order.
\<close>

theorem effective_memory_elements_exact:
  "set (effective_memory_elements address words)
       = element_base ` {address..<saturating_add 32 address (saturating_mul 32 words 4)}
     \<and> sorted_wrt (<) (effective_memory_elements address words)"
proof -
  have "saturating_add 32 address (saturating_mul 32 words 4) < 2 ^ 32"
    by (simp add: saturating_add_def)
  then show ?thesis
    by (simp add: effective_memory_elements_def effective_elements_loop_set effective_elements_loop_sorted)
qed

end
