(* ===== verification/Instruction.thy ===== *)
theory Instruction
  imports Prelude
begin

unbundle bit_operations_syntax

text \<open>
  Supervisor instruction encoders of \<open>crates/ipu-target/src/ipu21/instruction.rs\<close> with the
  opcodes of \<open>include/ipu21_instruction.def\<close>. Operands keep their machine widths. The abstract
  specification is a decoder of instruction words: every word an encoder accepts decodes to
  the operands it was given, so no two instructions share an encoding.
\<close>

type_synonym u8 = "8 word"
type_synonym u16 = "16 word"
type_synonym u32 = "32 word"

datatype instruction_error = InstructionError string

subsection \<open>Opcodes\<close>

definition MAX_PROCESSOR_DELAY_CYCLES :: u32 where "MAX_PROCESSOR_DELAY_CYCLES = 0x80000"
definition DELAY_OPCODE :: u32 where "DELAY_OPCODE = 0x40a00000"
definition SANS_OPCODE :: u32 where "SANS_OPCODE = 0x40c00000"
definition SYNC_OPCODE :: u32 where "SYNC_OPCODE = 0x41800000"
definition BR_M_OPCODE :: u32 where "BR_M_OPCODE = 0x43000000"
definition CALL_M_IMMEDIATE_OPCODE :: u32 where "CALL_M_IMMEDIATE_OPCODE = 0x18000000"
definition SETZI_M_OPCODE :: u32 where "SETZI_M_OPCODE = 0x19000000"
definition PUT_SPECIAL_M_OPCODE :: u32 where "PUT_SPECIAL_M_OPCODE = 0x43008000"
definition LD32_M_IMMEDIATE_OPCODE :: u32 where "LD32_M_IMMEDIATE_OPCODE = 0x01000000"
definition ST32_M_IMMEDIATE_OPCODE :: u32 where "ST32_M_IMMEDIATE_OPCODE = 0x4f000000"
definition ADD_M_IMMEDIATE_OPCODE :: u32 where "ADD_M_IMMEDIATE_OPCODE = 0x22000000"
definition AND_M_IMMEDIATE_OPCODE :: u32 where "AND_M_IMMEDIATE_OPCODE = 0x42000000"
definition SHL_M_IMMEDIATE_OPCODE :: u32 where "SHL_M_IMMEDIATE_OPCODE = 0x4200a000"
definition BRZ_M_IMMEDIATE_OPCODE :: u32 where "BRZ_M_IMMEDIATE_OPCODE = 0x13000000"

lemmas opcode_defs =
  MAX_PROCESSOR_DELAY_CYCLES_def DELAY_OPCODE_def SANS_OPCODE_def SYNC_OPCODE_def BR_M_OPCODE_def
  CALL_M_IMMEDIATE_OPCODE_def SETZI_M_OPCODE_def PUT_SPECIAL_M_OPCODE_def
  LD32_M_IMMEDIATE_OPCODE_def ST32_M_IMMEDIATE_OPCODE_def ADD_M_IMMEDIATE_OPCODE_def
  AND_M_IMMEDIATE_OPCODE_def SHL_M_IMMEDIATE_OPCODE_def BRZ_M_IMMEDIATE_OPCODE_def

subsection \<open>Encoders\<close>

definition sans :: "u8 \<Rightarrow> u32" where
  "sans selector = SANS_OPCODE OR ucast selector"

definition sync :: "u8 \<Rightarrow> u32" where
  "sync selector = SYNC_OPCODE OR ucast selector"

definition br_m :: "u8 \<Rightarrow> u32" where
  "br_m register = BR_M_OPCODE OR push_bit 20 (ucast register)"

definition SYNC_HOST_INSTRUCTION :: u32 where "SYNC_HOST_INSTRUCTION = sync 15"
definition SYNC_ALL_INSTRUCTION :: u32 where "SYNC_ALL_INSTRUCTION = sync 7"
definition SYNC_SUPERVISOR_INSTRUCTION :: u32 where "SYNC_SUPERVISOR_INSTRUCTION = sync 3"
definition SYNC_ANS_INSTRUCTION :: u32 where "SYNC_ANS_INSTRUCTION = sync 1"
definition SYNC_RECEIVE_INSTRUCTION :: u32 where "SYNC_RECEIVE_INSTRUCTION = sync 0"
definition SANS_INACTIVE_INSTRUCTION :: u32 where "SANS_INACTIVE_INSTRUCTION = sans 0"
definition RETURN_M10_INSTRUCTION :: u32 where "RETURN_M10_INSTRUCTION = br_m 10"

definition setzi_m :: "u8 \<Rightarrow> u32 \<Rightarrow> u32" where
  "setzi_m register immediate = SETZI_M_OPCODE OR push_bit 20 (ucast register) OR immediate"

definition put_special_from_m8 :: "u8 \<Rightarrow> u32" where
  "put_special_from_m8 register = PUT_SPECIAL_M_OPCODE OR push_bit 20 8 OR ucast register"

definition encode_br_m :: "u8 \<Rightarrow> instruction_error + u32" where
  "encode_br_m register =
     (if 16 \<le> register then Inl (InstructionError ''branch register'')
      else Inr (br_m register))"

definition encode_call_m_immediate :: "u8 \<Rightarrow> u32 \<Rightarrow> instruction_error + u32" where
  "encode_call_m_immediate return_register target_address =
     (if 16 \<le> return_register \<or> target_address AND 3 \<noteq> 0 \<or> push_bit 21 1 \<le> target_address
      then Inl (InstructionError ''call operand'')
      else Inr (CALL_M_IMMEDIATE_OPCODE OR push_bit 20 (ucast return_register)
                  OR drop_bit 2 target_address))"

definition encode_setzi_m :: "u8 \<Rightarrow> u32 \<Rightarrow> instruction_error + u32" where
  "encode_setzi_m register immediate =
     (if 16 \<le> register \<or> push_bit 20 1 \<le> immediate
      then Inl (InstructionError ''setzi operand'')
      else Inr (setzi_m register immediate))"

definition encode_put_special_m :: "u8 \<Rightarrow> u8 \<Rightarrow> instruction_error + u32" where
  "encode_put_special_m special register =
     (if 16 \<le> register then Inl (InstructionError ''put source register'')
      else Inr (PUT_SPECIAL_M_OPCODE OR push_bit 20 (ucast register) OR ucast special))"

definition encode_ld32_m_immediate :: "u8 \<Rightarrow> u8 \<Rightarrow> u8 \<Rightarrow> u16 \<Rightarrow> instruction_error + u32" where
  "encode_ld32_m_immediate destination base delta word_offset =
     (if 16 \<le> destination \<or> 16 \<le> base \<or> 16 \<le> delta \<or> push_bit 12 1 \<le> word_offset
      then Inl (InstructionError ''ld32 operand'')
      else Inr (LD32_M_IMMEDIATE_OPCODE OR push_bit 20 (ucast base)
                  OR push_bit 16 (ucast destination) OR push_bit 12 (ucast delta)
                  OR ucast word_offset))"

definition encode_st32_m_immediate :: "u8 \<Rightarrow> u8 \<Rightarrow> u8 \<Rightarrow> u16 \<Rightarrow> instruction_error + u32" where
  "encode_st32_m_immediate source base delta word_offset =
     (if 16 \<le> source \<or> 16 \<le> base \<or> 16 \<le> delta \<or> push_bit 12 1 \<le> word_offset
      then Inl (InstructionError ''st32 operand'')
      else Inr (ST32_M_IMMEDIATE_OPCODE OR push_bit 20 (ucast base)
                  OR push_bit 16 (ucast source) OR push_bit 12 (ucast delta)
                  OR ucast word_offset))"

text \<open>
  The immediate is an \<open>i32\<close>, read by \<open>sint\<close>; \<open>i16::try_from\<close> checks that its value fits, and
  the cast to \<open>u16\<close> keeps its low 16 bits.
\<close>

definition encode_add_m_immediate :: "u8 \<Rightarrow> u8 \<Rightarrow> u32 \<Rightarrow> instruction_error + u32" where
  "encode_add_m_immediate destination source immediate =
     (if \<not> (- (2 ^ 15) \<le> sint immediate \<and> sint immediate < 2 ^ 15)
      then Inl (InstructionError ''add immediate operand'')
      else if 16 \<le> destination \<or> 16 \<le> source
      then Inl (InstructionError ''add register operand'')
      else Inr (ADD_M_IMMEDIATE_OPCODE OR push_bit 20 (ucast source)
                  OR push_bit 16 (ucast destination) OR ucast (ucast immediate :: u16)))"

definition encode_and_m_immediate :: "u8 \<Rightarrow> u8 \<Rightarrow> u16 \<Rightarrow> instruction_error + u32" where
  "encode_and_m_immediate destination source immediate =
     (if 16 \<le> destination \<or> 16 \<le> source \<or> push_bit 12 1 \<le> immediate
      then Inl (InstructionError ''and operand'')
      else Inr (AND_M_IMMEDIATE_OPCODE OR push_bit 20 (ucast source)
                  OR push_bit 16 (ucast destination) OR ucast immediate))"

definition encode_shl_m_immediate :: "u8 \<Rightarrow> u8 \<Rightarrow> u16 \<Rightarrow> instruction_error + u32" where
  "encode_shl_m_immediate destination source immediate =
     (if 16 \<le> destination \<or> 16 \<le> source \<or> push_bit 12 1 \<le> immediate
      then Inl (InstructionError ''shift-left operand'')
      else Inr (SHL_M_IMMEDIATE_OPCODE OR push_bit 20 (ucast source)
                  OR push_bit 16 (ucast destination) OR ucast immediate))"

definition encode_brz_m_immediate :: "u8 \<Rightarrow> u32 \<Rightarrow> instruction_error + u32" where
  "encode_brz_m_immediate register target_address =
     (if 16 \<le> register \<or> target_address AND 3 \<noteq> 0 \<or> push_bit 21 1 \<le> target_address
      then Inl (InstructionError ''brz operand'')
      else Inr (BRZ_M_IMMEDIATE_OPCODE OR push_bit 20 (ucast register)
                  OR drop_bit 2 target_address))"

definition encode_delay_immediate :: "u32 \<Rightarrow> u32" where
  "encode_delay_immediate immediate = DELAY_OPCODE OR (immediate AND (MAX_PROCESSOR_DELAY_CYCLES - 1))"

definition encode_delay_m :: "u32 \<Rightarrow> instruction_error + u32" where
  "encode_delay_m cycles =
     (if \<not> (1 \<le> cycles \<and> cycles \<le> MAX_PROCESSOR_DELAY_CYCLES)
      then Inl (InstructionError ''processor delay range'')
      else Inr (encode_delay_immediate (cycles - 1)))"

subsection \<open>Specification: a decoder of the encoded instructions\<close>

text \<open>One constructor per checked encoder, with the operands in the encoder's order.\<close>

datatype instruction =
    BrM u8
  | CallM u8 u32
  | SetziM u8 u32
  | PutSpecialM u8 u8
  | Ld32M u8 u8 u8 u16
  | St32M u8 u8 u8 u16
  | AddM u8 u8 u32
  | AndM u8 u8 u16
  | ShlM u8 u8 u16
  | BrzM u8 u32
  | DelayM u32

fun encode :: "instruction \<Rightarrow> instruction_error + u32" where
  "encode (BrM r) = encode_br_m r"
| "encode (CallM r t) = encode_call_m_immediate r t"
| "encode (SetziM r i) = encode_setzi_m r i"
| "encode (PutSpecialM sp r) = encode_put_special_m sp r"
| "encode (Ld32M d b dl off) = encode_ld32_m_immediate d b dl off"
| "encode (St32M s b dl off) = encode_st32_m_immediate s b dl off"
| "encode (AddM d s i) = encode_add_m_immediate d s i"
| "encode (AndM d s i) = encode_and_m_immediate d s i"
| "encode (ShlM d s i) = encode_shl_m_immediate d s i"
| "encode (BrzM r t) = encode_brz_m_immediate r t"
| "encode (DelayM c) = encode_delay_m c"

definition decode :: "u32 \<Rightarrow> instruction option" where
  "decode w =
     (let opcode = field 24 8 w; r20 = ucast (field 20 4 w); r16 = ucast (field 16 4 w);
          r12 = ucast (field 12 4 w); off = ucast (field 0 12 w)
      in if opcode = 0x01 then Some (Ld32M r16 r20 r12 off)
         else if opcode = 0x4f then Some (St32M r16 r20 r12 off)
         else if opcode = 0x22 then Some (AddM r16 r20 (scast (ucast (field 0 16 w) :: u16)))
         else if opcode = 0x42 then
           (if field 12 4 w = 0xa then Some (ShlM r16 r20 off) else Some (AndM r16 r20 off))
         else if opcode = 0x13 then Some (BrzM r20 (push_bit 2 (field 0 19 w)))
         else if opcode = 0x18 then Some (CallM r20 (push_bit 2 (field 0 19 w)))
         else if opcode = 0x19 then Some (SetziM r20 (field 0 20 w))
         else if opcode = 0x43 then
           (if field 8 8 w = 0x80 then Some (PutSpecialM (ucast (field 0 8 w)) r20) else Some (BrM r20))
         else if field 19 13 w = 0x814 then Some (DelayM (field 0 19 w + 1))
         else None)"

subsection \<open>Field lemmas for the operand widths\<close>

lemma field_self: "unat (x :: u32) < 2 ^ n \<Longrightarrow> n \<le> 32 \<Longrightarrow> field 0 n x = x"
  using field_same0 [of x n] by simp

lemma field_self_other: "unat (x :: u32) < 2 ^ m \<Longrightarrow> m \<le> lo \<Longrightarrow> field lo n x = 0"
  using field_other0 [of x m lo n] by simp

lemma nibble_bound: "\<not> 16 \<le> (r :: u8) \<Longrightarrow> unat r < 2 ^ 4"
  by (simp add: word_le_nat_alt)

lemma offset_bound: "\<not> push_bit 12 1 \<le> (x :: u16) \<Longrightarrow> unat x < 2 ^ 12"
  by (simp add: word_le_nat_alt)

lemma byte_bound: "unat (x :: u8) < 2 ^ 8"
  using unsigned_less [of x] by simp

lemma half_bound: "unat (x :: u16) < 2 ^ 16"
  using unsigned_less [of x] by simp

lemma ucast_back:
  "ucast (ucast (x :: u8) :: u32) = x" "ucast (ucast (y :: u16) :: u32) = y"
  by (rule bit_word_eqI, auto simp: bit_simps)+

lemma target_field:
  assumes "(t :: u32) AND 3 = 0" and "\<not> push_bit 21 1 \<le> t"
  shows "unat (drop_bit 2 t) < 2 ^ 19" and "push_bit 2 (drop_bit 2 t) = t"
proof -
  have "unat t < 2 ^ 21" using assms(2) by (simp add: word_le_nat_alt)
  moreover have "unat (drop_bit 2 t) = unat t div 2 ^ 2"
    by (simp only: unat_drop_bit_eq) (simp add: drop_bit_eq_div)
  ultimately show "unat (drop_bit 2 t) < 2 ^ 19" by (simp add: div_less_iff_less_mult)
  have "take_bit 2 t = 0" using assms(1) by (simp add: take_bit_eq_mask mask_eq_decr_exp)
  then show "push_bit 2 (drop_bit 2 t) = t"
    by (metis bits_ident add.right_neutral)
qed

lemma i16_round_trip:
  assumes "- (2 ^ 15) \<le> sint (x :: u32)" and "sint x < 2 ^ 15"
  shows "scast (ucast x :: u16) = x"
proof (rule signed_word_eqI)
  have "sint (ucast x :: u16) = signed_take_bit 15 (sint x)"
    by (simp add: signed_ucast_eq unsigned_ucast_eq signed_take_bit_take_bit sint_uint)
  also have "\<dots> = sint x" using assms by (simp add: signed_take_bit_int_eq_self)
  finally have e: "sint (ucast x :: u16) = sint x" .
  show "sint (scast (ucast x :: u16) :: u32) = sint x"
    using assms by (simp add: signed_scast_eq e signed_take_bit_int_eq_self)
qed

lemmas operand_bounds = nibble_bound offset_bound byte_bound half_bound


lemma decode_memory:
  assumes "encode i = Inr w" and "i = Ld32M d b dl off \<or> i = St32M d b dl off"
  shows "decode w = Some i"
proof -
  have c: "unat d < 2 ^ 4" "unat b < 2 ^ 4" "unat dl < 2 ^ 4" "unat off < 2 ^ 12"
    using assms by (auto simp: encode_ld32_m_immediate_def encode_st32_m_immediate_def
        word_le_nat_alt split: if_splits)
  note other = field_other [OF c(1)] field_other [OF c(2)] field_other [OF c(3)] field_other0 [OF c(4)]
  have w: "w = (case i of Ld32M _ _ _ _ \<Rightarrow> LD32_M_IMMEDIATE_OPCODE | _ \<Rightarrow> ST32_M_IMMEDIATE_OPCODE)
              OR push_bit 20 (ucast b) OR push_bit 16 (ucast d) OR push_bit 12 (ucast dl) OR ucast off"
    using assms by (auto simp: encode_ld32_m_immediate_def encode_st32_m_immediate_def split: if_splits)
  show ?thesis
    using assms(2) c by (elim disjE) (simp_all add: w opcode_defs decode_def Let_def bitfield other ucast_back
        field_def [of _ _ "numeral _"])
qed


lemma decode_arithmetic:
  assumes "encode i = Inr w" and "i = AndM d s imm \<or> i = ShlM d s imm"
  shows "decode w = Some i"
proof -
  have c: "unat d < 2 ^ 4" "unat s < 2 ^ 4" "unat imm < 2 ^ 12"
    using assms by (auto simp: encode_and_m_immediate_def encode_shl_m_immediate_def
        word_le_nat_alt split: if_splits)
  note other = field_other [OF c(1)] field_other [OF c(2)] field_other0 [OF c(3)]
  have w: "w = (case i of AndM _ _ _ \<Rightarrow> AND_M_IMMEDIATE_OPCODE | _ \<Rightarrow> SHL_M_IMMEDIATE_OPCODE)
              OR push_bit 20 (ucast s) OR push_bit 16 (ucast d) OR ucast imm"
    using assms by (auto simp: encode_and_m_immediate_def encode_shl_m_immediate_def split: if_splits)
  show ?thesis
    using assms(2) c by (elim disjE) (simp_all add: w opcode_defs decode_def Let_def bitfield other
        ucast_back field_def [of _ _ "numeral _"])
qed

lemma decode_add:
  assumes "encode (AddM d s imm) = Inr w"
  shows "decode w = Some (AddM d s imm)"
proof -
  have c: "unat d < 2 ^ 4" "unat s < 2 ^ 4" and i: "- (2 ^ 15) \<le> sint imm" "sint imm < 2 ^ 15"
    using assms by (auto simp: encode_add_m_immediate_def word_le_nat_alt split: if_splits)
  note other = field_other [OF c(1)] field_other [OF c(2)] field_other0 [OF half_bound]
  have "w = ADD_M_IMMEDIATE_OPCODE OR push_bit 20 (ucast s) OR push_bit 16 (ucast d)
              OR ucast (ucast imm :: u16)"
    using assms by (simp add: encode_add_m_immediate_def split: if_splits)
  then show ?thesis
    using c i16_round_trip [OF i]
    by (simp add: opcode_defs decode_def Let_def bitfield other field_same0 [OF half_bound]
        field_def [of _ _ "numeral _"] ucast_back)
qed

lemma decode_branch:
  assumes "encode i = Inr w" and "i = CallM r t \<or> i = BrzM r t"
  shows "decode w = Some i"
proof -
  have r: "unat r < 2 ^ 4" and t: "t AND 3 = 0" "\<not> push_bit 21 1 \<le> t"
    using assms by (auto simp: encode_call_m_immediate_def encode_brz_m_immediate_def
        word_le_nat_alt split: if_splits)
  define x where "x = drop_bit 2 t"
  have f: "unat x < 2 ^ 19" "push_bit 2 x = t" using target_field [OF t] by (simp_all only: x_def)
  note other = field_other [OF r] field_self_other [OF f(1)] field_self [OF f(1)]
  have w: "w = (case i of CallM _ _ \<Rightarrow> CALL_M_IMMEDIATE_OPCODE | _ \<Rightarrow> BRZ_M_IMMEDIATE_OPCODE)
              OR push_bit 20 (ucast r) OR x"
    using assms unfolding x_def
    by (auto simp: encode_call_m_immediate_def encode_brz_m_immediate_def split: if_splits)
  have "decode w = (case i of CallM _ _ \<Rightarrow> Some (CallM r (push_bit 2 x)) | _ \<Rightarrow> Some (BrzM r (push_bit 2 x)))"
    using assms(2) r by (elim disjE) (simp_all add: w opcode_defs decode_def Let_def bitfield other
        ucast_back field_def [of _ _ "numeral _"])
  then show ?thesis using assms(2) f(2) by auto
qed

lemma decode_setzi:
  assumes "encode (SetziM r imm) = Inr w"
  shows "decode w = Some (SetziM r imm)"
proof -
  have c: "unat r < 2 ^ 4" "unat imm < 2 ^ 20"
    using assms by (auto simp: encode_setzi_m_def word_le_nat_alt split: if_splits)
  note other = field_other [OF c(1)] field_self_other [OF c(2)] field_self [OF c(2)]
  have "w = SETZI_M_OPCODE OR push_bit 20 (ucast r) OR imm"
    using assms by (simp add: encode_setzi_m_def setzi_m_def split: if_splits)
  then show ?thesis
    using c by (simp add: opcode_defs decode_def Let_def bitfield other field_def [of _ _ "numeral _"]
        ucast_back)
qed

lemma decode_special:
  assumes "encode i = Inr w" and "i = PutSpecialM sp r \<or> i = BrM r"
  shows "decode w = Some i"
proof -
  have r: "unat r < 2 ^ 4"
    using assms by (auto simp: encode_put_special_m_def encode_br_m_def word_le_nat_alt split: if_splits)
  note other = field_other [OF r] field_other0 [OF byte_bound] field_same0 [OF byte_bound]
  have w: "w = (case i of PutSpecialM _ _ \<Rightarrow> PUT_SPECIAL_M_OPCODE OR push_bit 20 (ucast r) OR ucast sp
                | _ \<Rightarrow> BR_M_OPCODE OR push_bit 20 (ucast r))"
    using assms by (auto simp: encode_put_special_m_def encode_br_m_def br_m_def split: if_splits)
  show ?thesis
    using assms(2) r by (elim disjE) (simp_all add: w opcode_defs decode_def Let_def bitfield other
        ucast_back field_def [of _ _ "numeral _"])
qed

lemma decode_delay:
  assumes "encode (DelayM c) = Inr w"
  shows "decode w = Some (DelayM c)"
proof -
  have "1 \<le> c" "c \<le> 0x80000" and w: "w = DELAY_OPCODE OR ((c - 1) AND 0x7ffff)"
    using assms by (auto simp: encode_delay_m_def encode_delay_immediate_def opcode_defs split: if_splits)
  then have b: "unat (c - 1) < 2 ^ 19"
    by (simp add: word_le_nat_alt unat_sub_if_size)
  have "(c - 1) AND 0x7ffff = take_bit 19 (c - 1)" by (simp add: take_bit_eq_mask mask_eq_decr_exp)
  also have "\<dots> = c - 1" using b by (rule take_bit_small)
  finally have "w = DELAY_OPCODE OR (c - 1)" using w by simp
  then show ?thesis
    using field_self [OF b] field_self_other [OF b]
    by (simp add: opcode_defs decode_def Let_def bitfield field_def [of _ _ "numeral _"])
qed

lemma decode_encode_lemma: "encode i = Inr w \<Longrightarrow> decode w = Some i"
  by (cases i)
    (blast intro: decode_memory decode_arithmetic decode_add decode_branch decode_setzi
      decode_special decode_delay)+

subsection \<open>Which operands are accepted\<close>

text \<open>The operand ranges of the instruction set, as integers.\<close>

fun operands_valid :: "instruction \<Rightarrow> bool" where
  "operands_valid (BrM r) \<longleftrightarrow> unat r < 16"
| "operands_valid (CallM r t) \<longleftrightarrow> unat r < 16 \<and> 4 dvd unat t \<and> unat t < 2 ^ 21"
| "operands_valid (SetziM r i) \<longleftrightarrow> unat r < 16 \<and> unat i < 2 ^ 20"
| "operands_valid (PutSpecialM sp r) \<longleftrightarrow> unat r < 16"
| "operands_valid (Ld32M d b dl off) \<longleftrightarrow> unat d < 16 \<and> unat b < 16 \<and> unat dl < 16 \<and> unat off < 2 ^ 12"
| "operands_valid (St32M s b dl off) \<longleftrightarrow> unat s < 16 \<and> unat b < 16 \<and> unat dl < 16 \<and> unat off < 2 ^ 12"
| "operands_valid (AddM d s i) \<longleftrightarrow> unat d < 16 \<and> unat s < 16 \<and> - 32768 \<le> sint i \<and> sint i \<le> 32767"
| "operands_valid (AndM d s i) \<longleftrightarrow> unat d < 16 \<and> unat s < 16 \<and> unat i < 2 ^ 12"
| "operands_valid (ShlM d s i) \<longleftrightarrow> unat d < 16 \<and> unat s < 16 \<and> unat i < 2 ^ 12"
| "operands_valid (BrzM r t) \<longleftrightarrow> unat r < 16 \<and> 4 dvd unat t \<and> unat t < 2 ^ 21"
| "operands_valid (DelayM c) \<longleftrightarrow> 1 \<le> unat c \<and> unat c \<le> 0x80000"

lemma low_bits_zero: "(t :: u32) AND 3 = 0 \<longleftrightarrow> 4 dvd unat t"
proof -
  have "t AND 3 = take_bit 2 t" by (simp add: take_bit_eq_mask mask_eq_decr_exp)
  moreover have "take_bit 2 t = 0 \<longleftrightarrow> unat (take_bit 2 t) = 0" by (rule unat_eq_zero [symmetric])
  moreover have "unat (take_bit 2 t) = unat t mod 4"
    by (simp only: unsigned_take_bit_eq) (simp add: take_bit_eq_mod)
  ultimately show ?thesis by (simp add: dvd_eq_mod_eq_0)
qed

lemma encode_accepts: "(\<exists>w. encode i = Inr w) \<longleftrightarrow> operands_valid i"
  by (cases i)
    (auto simp: encode_br_m_def encode_call_m_immediate_def encode_setzi_m_def encode_put_special_m_def
      encode_ld32_m_immediate_def encode_st32_m_immediate_def encode_add_m_immediate_def
      encode_and_m_immediate_def encode_shl_m_immediate_def encode_brz_m_immediate_def
      encode_delay_m_def opcode_defs low_bits_zero word_le_nat_alt not_le)

subsection \<open>Properties\<close>

text \<open>
  C1: Every instruction word an encoder produces decodes to exactly the instruction and the
  operands it was produced from; so encoding is injective across all encoders.
\<close>

theorem instruction_round_trip:
  assumes "encode i = Inr w"
  shows "decode w = Some i"
  using assms by (rule decode_encode_lemma)

theorem instruction_round_trip_witness:
  "encode (Ld32M 8 11 15 1) = Inr 0x01b8f001 \<and> decode 0x01b8f001 = Some (Ld32M 8 11 15 1)"
proof -
  have e: "encode (Ld32M 8 11 15 1) = Inr 0x01b8f001"
    by (simp add: encode_ld32_m_immediate_def opcode_defs word_le_nat_alt)
  show ?thesis using e instruction_round_trip [OF e] by simp
qed

text \<open>
  C2: The encoders accept exactly the operands in the ranges of the instruction set (registers
  below 16, word-aligned branch targets below 2 MiB, the immediate widths, delays of 1 to
  2^19 cycles), and reject all others with an error.
\<close>

theorem instruction_operand_ranges:
  "(case encode i of Inr w \<Rightarrow> operands_valid i | Inl e \<Rightarrow> \<not> operands_valid i)"
proof (cases "encode i")
  case (Inl e)
  then have "\<nexists>w. encode i = Inr w" by simp
  then show ?thesis using Inl encode_accepts [of i] by simp
next
  case (Inr w)
  then show ?thesis using encode_accepts [of i] by auto
qed

end
