(* ===== verification/Fabric.thy ===== *)
theory Fabric
  imports Prelude
begin

unbundle bit_operations_syntax

text \<open>
  Physical routing, pairing and tile inventory: \<open>crates/ipu-target/src/ipu21/fabric.rs\<close> and
  \<open>crates/ipu-target/src/c600.rs\<close>. Logical and physical tile numbers are \<open>u16\<close> values, modelled as
  \<open>nat\<close>; the routing equations are computed on \<open>i32\<close>, modelled as \<open>int\<close>, and a lemma bounds them
  far inside that type. The lemmas show that the C600 inventory is a permutation whose pairs are
  neighbouring logical tiles, that pairing is an involution, and that of the two members of a
  receiving pair exactly one is early.
\<close>

datatype topology_error = TileOutOfRange nat | InvalidMapping

record topology =
  logical_to_physical_map :: "nat list"

subsection \<open>The C600 inventory\<close>

definition COMPUTE_TILES :: nat where "COMPUTE_TILES = 1472"

definition logical_to_physical :: "nat \<Rightarrow> nat" where
  "logical_to_physical logical =
     (let pair = logical div 2;
          lane = logical AND 1;
          block = pair div 23;
          row0 = pair mod 23;
          row = (if block AND 1 \<noteq> 0 then 22 - row0 else row0);
          column = (block div 2) * 4 + (block AND 1)
      in row * 64 + column + lane * 2)"

subsection \<open>Topology\<close>

text \<open>
  The constructor inserts the tiles one by one into a hash set and rejects the mapping at the
  first tile already present.
\<close>

fun has_duplicate :: "nat set \<Rightarrow> nat list \<Rightarrow> bool" where
  "has_duplicate seen [] = False"
| "has_duplicate seen (t # ts) = (if t \<in> seen then True else has_duplicate (insert t seen) ts)"

definition topology_new :: "nat list \<Rightarrow> topology_error + topology" where
  "topology_new mapping =
     (if mapping = [] \<or> has_duplicate {} mapping then Inl InvalidMapping
      else Inr \<lparr>logical_to_physical_map = mapping\<rparr>)"

definition topology_c600 :: topology where
  "topology_c600 = \<lparr>logical_to_physical_map = map logical_to_physical [0..<COMPUTE_TILES]\<rparr>"

definition tile_count :: "topology \<Rightarrow> nat" where
  "tile_count topo = length (logical_to_physical_map topo)"

definition physical :: "topology \<Rightarrow> nat \<Rightarrow> topology_error + nat" where
  "physical topo logical = ok_or (get (logical_to_physical_map topo) logical) (TileOutOfRange logical)"

text \<open>\<open>u16::try_from\<close> of the position is an \<open>expect\<close>: a position is below the tile count.\<close>

definition paired_logical :: "topology \<Rightarrow> nat \<Rightarrow> topology_error + nat" where
  "paired_logical topo logical =
     res_bind (physical topo logical) (\<lambda>p.
       let paired_physical = p XOR 2
       in ok_or (position (\<lambda>physical. physical = paired_physical) (logical_to_physical_map topo))
            (TileOutOfRange logical))"

definition paired_source_mux :: "topology \<Rightarrow> nat \<Rightarrow> topology_error + nat" where
  "paired_source_mux topo sender_logical =
     res_bind (physical topo sender_logical) (\<lambda>p. Inr (p XOR 2))"

subsection \<open>Route times\<close>

text \<open>\<open>(x >> 2) & 15\<close> and its kin, as the \<open>i32\<close> the code converts them to.\<close>

definition bits_at :: "nat \<Rightarrow> nat \<Rightarrow> nat \<Rightarrow> int" where
  "bits_at lo m x = int (drop_bit lo x AND m)"

definition route_displacement :: "nat \<Rightarrow> nat \<Rightarrow> int" where
  "route_displacement source destination =
     (let source_raw = bits_at 2 15 source;
          destination_raw = bits_at 2 15 destination;
          source_column = (if source_raw > 7 then source_raw XOR 15 else source_raw);
          destination_column = (if destination_raw > 7 then destination_raw XOR 15 else destination_raw);
          source_mux = source_column + (drop_bit 3 source_raw XOR int (source AND 1));
          base = (destination_column - source_mux) * 6;
          destination_lane = destination AND 3;
          destination_half = drop_bit 3 destination_raw
      in if destination_lane > 1
         then base + (if destination_half = int (destination AND 1) then 2 else 4)
         else base + (if destination_half = int destination_lane then 1 else 5))"

definition direction :: "nat \<Rightarrow> nat \<Rightarrow> nat" where
  "direction source destination = (if route_displacement source destination < 1 then 2 else 1)"

definition time_to_mux :: "nat \<Rightarrow> nat \<Rightarrow> int" where
  "time_to_mux source destination =
     (let source_raw = bits_at 2 15 source;
          destination_raw = bits_at 2 15 destination;
          source_low = bits_at 2 7 source;
          displacement = route_displacement source destination;
          source_edge = (if source_raw > 7 then (source_raw * 4) XOR 60 else source_raw * 4);
          destination_edge =
            (if destination_raw > 7 then (destination_raw * 4) XOR 60 else destination_raw * 4);
          local = bits_at 2 8 source OR bits_at 3 3 source;
          crossing = local - destination_raw + (drop_bit 1 source_low XOR 3);
          same_region = ((source XOR destination) AND 0x20 = 0);
          turn = (if same_region then source_low + 1 else 16 - source_low);
          group_delta = (bits_at 6 31 source - bits_at 6 31 destination) * 2
      in crossing + source_edge + turn - destination_edge + group_delta + \<bar>displacement\<bar> - 34)"

definition paired_time_to_mux :: "nat \<Rightarrow> nat \<Rightarrow> int" where
  "paired_time_to_mux source destination =
     max (time_to_mux source destination) (time_to_mux source (destination XOR 2))"

definition paired_receiver_is_early :: "topology \<Rightarrow> nat \<Rightarrow> nat \<Rightarrow> topology_error + bool" where
  "paired_receiver_is_early topo receiver_logical sender_logical =
     res_bind (physical topo receiver_logical) (\<lambda>receiver.
     res_bind (physical topo sender_logical) (\<lambda>sender.
       let local = time_to_mux sender receiver; borrowed = time_to_mux sender (receiver XOR 2)
       in Inr (local < borrowed)))"

subsection \<open>Flipping the low bits of a tile number\<close>

lemma xor_1: "(n::nat) XOR 1 = (if even n then n + 1 else n - 1)"
proof -
  have "n XOR 1 = n + of_bool (even n) - of_bool (odd n)" by (rule xor_one_eq)
  then show ?thesis by simp
qed

lemma xor_2: "(n::nat) XOR 2 = (if even (n div 2) then n + 2 else n - 2)"
proof -
  have "n XOR 2 = of_bool (odd n) + 2 * ((n div 2) XOR 1)"
    by (subst xor_rec) simp
  then show ?thesis
    unfolding xor_1 by (cases "even n"; cases "even (n div 2)") (auto elim!: evenE oddE)
qed

lemma xor_2_xor_2 [simp]: "((n::nat) XOR 2) XOR 2 = n"
  by (simp add: xor.assoc)

lemma xor_2_neq: "(n::nat) XOR 2 \<noteq> n"
proof
  assume "n XOR 2 = n"
  then have "bit (n XOR 2) 1 = bit n 1" by simp
  then show False by (simp add: bit_simps)
qed

subsection \<open>The C600 inventory is a permutation\<close>

text \<open>The physical tile as a mixed-radix number of the block, the row in it and the lane.\<close>

lemma logical_to_physical_arith:
  "logical_to_physical l =
     (let b = l div 46; r = l div 2 mod 23
      in 64 * (if odd b then 22 - r else r) + (4 * (b div 2) + b mod 2 + 2 * (l mod 2)))"
  by (simp add: logical_to_physical_def Let_def and_one_eq div_mult2_eq [symmetric] odd_iff_mod_2_eq_one)

definition physical_to_logical :: "nat \<Rightarrow> nat" where
  "physical_to_logical p =
     (let row = p div 64; c = p mod 64; block = 2 * (c div 4) + c mod 2; lane = c mod 4 div 2;
          row0 = (if odd block then 22 - row else row)
      in 2 * (23 * block + row0) + lane)"

lemma physical_digits:
  assumes "R \<le> 22" and "b < 32" and "t < 2"
  defines "p \<equiv> 64 * R + (4 * (b div 2) + b mod 2 + 2 * t)"
  shows "p div 64 = R" "2 * (p mod 64 div 4) + p mod 64 mod 2 = (b::nat)" "p mod 64 mod 4 div 2 = (t::nat)"
    and "p < 1472"
proof -
  obtain q e where b: "b = 2 * q + e" "e < 2" "q < 16"
    using assms(2) that [of "b div 2" "b mod 2"] by force
  then have p: "p = 64 * R + (4 * q + e + 2 * t)" and q: "b div 2 = q" "b mod 2 = e"
    by (simp_all add: p_def)
  have low: "4 * q + e + 2 * t < 64" using b assms(3) by simp
  then have m: "p mod 64 = 4 * q + e + 2 * t" by (simp add: p)
  show "p div 64 = R" using low by (simp add: p)
  have "(4 * q + e + 2 * t) div 4 = q" "(4 * q + e + 2 * t) mod 4 = e + 2 * t"
    using b assms(3) by presburger+
  moreover have "(4 * q + e + 2 * t) mod 2 = e" "(e + 2 * t) div 2 = t" using b by presburger+
  ultimately show "2 * (p mod 64 div 4) + p mod 64 mod 2 = b" "p mod 64 mod 4 div 2 = t"
    unfolding m using b by simp_all
  show "p < 1472" using low assms(1) by (simp add: p)
qed

lemma logical_digits: "(l::nat) = 46 * (l div 46) + 2 * (l div 2 mod 23) + l mod 2"
proof -
  have "l div 46 = l div 2 div 23" by (simp add: div_mult2_eq [symmetric])
  then have "l div 2 = 23 * (l div 46) + l div 2 mod 23" by simp
  moreover have "l = 2 * (l div 2) + l mod 2" by simp
  ultimately show ?thesis by linarith
qed

lemma physical_to_logical_inverse:
  assumes "l < 1472"
  shows "physical_to_logical (logical_to_physical l) = l" and "logical_to_physical l < 1472"
proof -
  define b where "b = l div 46"
  define r where "r = l div 2 mod 23"
  define R where "R = (if odd b then 22 - r else r)"
  have b: "b < 32" and r: "r \<le> 22" using assms by (simp_all add: b_def r_def)
  have R: "R \<le> 22" "(if odd b then 22 - R else R) = r" using r by (simp_all add: R_def)
  have p: "logical_to_physical l = 64 * R + (4 * (b div 2) + b mod 2 + 2 * (l mod 2))"
    by (simp add: logical_to_physical_arith Let_def R_def b_def r_def)
  note digits = physical_digits [OF R(1) b, of "l mod 2", folded p]
  show "logical_to_physical l < 1472" by (rule digits(4)) simp
  have "physical_to_logical (logical_to_physical l) = 2 * (23 * b + r) + l mod 2"
    unfolding physical_to_logical_def Let_def using digits(1,2,3) R(2) by (simp only: simp_thms)
  also have "\<dots> = l" using logical_digits [of l] by (simp add: b_def r_def)
  finally show "physical_to_logical (logical_to_physical l) = l" .
qed

lemma logical_to_physical_inj: "inj_on logical_to_physical {..<COMPUTE_TILES}"
  by (rule inj_on_inverseI [of _ physical_to_logical])
    (simp add: COMPUTE_TILES_def physical_to_logical_inverse)

lemma logical_to_physical_bij: "bij_betw logical_to_physical {..<COMPUTE_TILES} {..<COMPUTE_TILES}"
proof -
  have "logical_to_physical ` {..<COMPUTE_TILES} \<subseteq> {..<COMPUTE_TILES}"
    by (auto simp: COMPUTE_TILES_def physical_to_logical_inverse)
  then show ?thesis
    using logical_to_physical_inj by (simp add: bij_betw_def endo_inj_surj)
qed

text \<open>Neighbouring logical tiles differ in the lane only.\<close>

lemma logical_to_physical_lane: "logical_to_physical (l XOR 1) = logical_to_physical l XOR 2"
proof -
  define l' where "l' = l XOR 1"
  have d2: "l' div 2 = l div 2" "l' mod 2 = 1 - l mod 2"
    unfolding l'_def xor_1 by (cases "even l"; auto elim!: oddE evenE)+
  have "k div 46 = k div 2 div 23" for k :: nat by (simp add: div_mult2_eq [symmetric])
  then have d: "l' div 46 = l div 46" using d2 by simp
  define c where "c = 64 * (if odd (l div 46) then 22 - l div 2 mod 23 else l div 2 mod 23)
                       + (4 * (l div 46 div 2) + l div 46 mod 2)"
  have p: "logical_to_physical l = c + 2 * (l mod 2)"
    and p': "logical_to_physical l' = c + 2 * (1 - l mod 2)"
    by (simp_all add: logical_to_physical_arith Let_def d d2 c_def)
  have "even ((64 * X + (4 * q + y mod 2)) div 2)" for X q y :: nat by presburger
  then have "even (c div 2)" unfolding c_def .
  then have "(c + 2 * (l mod 2)) XOR 2 = c + 2 * (1 - l mod 2)"
    unfolding xor_2 by (cases "even l") (auto simp: odd_iff_mod_2_eq_one even_iff_mod_2_eq_zero)
  then show ?thesis using p p' unfolding l'_def by (simp only:)
qed

subsection \<open>Topologies\<close>

lemma has_duplicate_iff: "has_duplicate seen ts \<longleftrightarrow> \<not> (distinct ts \<and> set ts \<inter> seen = {})"
  by (induction ts arbitrary: seen) auto

lemma topology_new_iff:
  "topology_new m = Inr topo \<longleftrightarrow> m \<noteq> [] \<and> distinct m \<and> topo = \<lparr>logical_to_physical_map = m\<rparr>"
  by (auto simp: topology_new_def has_duplicate_iff)

text \<open>The invariant the constructor establishes: the mapping is injective.\<close>

definition injective :: "topology \<Rightarrow> bool" where
  "injective topo \<longleftrightarrow> distinct (logical_to_physical_map topo)"

lemma physical_Inr:
  "physical topo l = Inr p \<longleftrightarrow> l < tile_count topo \<and> logical_to_physical_map topo ! l = p"
  by (simp add: physical_def tile_count_def res_simps)

lemma position_distinct:
  assumes "distinct xs"
  shows "position (\<lambda>x. x = y) xs = Some i \<longleftrightarrow> i < length xs \<and> xs ! i = y"
proof -
  have "j < i \<Longrightarrow> i < length xs \<Longrightarrow> xs ! j \<noteq> xs ! i" for j
    using assms by (simp add: nth_eq_iff_index_eq)
  then show ?thesis by (auto simp: position_Some)
qed

lemma paired_logical_Inr:
  assumes "injective topo"
  shows "paired_logical topo l = Inr m \<longleftrightarrow>
    (\<exists>p. physical topo l = Inr p \<and> physical topo m = Inr (p XOR 2))"
  using assms position_distinct [of "logical_to_physical_map topo"]
  by (auto simp: paired_logical_def injective_def res_simps physical_Inr Let_def tile_count_def)

lemma paired_logical_symmetric:
  assumes "injective topo"
  shows "paired_logical topo l = Inr m \<longleftrightarrow> paired_logical topo m = Inr l"
  using assms by (auto simp: paired_logical_Inr)

lemma c600_injective: "injective topology_c600"
  using logical_to_physical_inj
  by (simp add: injective_def topology_c600_def distinct_map atLeast0LessThan)

lemma c600_physical: "physical topology_c600 l = Inr p \<longleftrightarrow> l < COMPUTE_TILES \<and> p = logical_to_physical l"
  by (auto simp: physical_Inr tile_count_def topology_c600_def)

lemma c600_paired_lemma:
  assumes "l < COMPUTE_TILES"
  shows "paired_logical topology_c600 l = Inr (l XOR 1)"
proof -
  have "l XOR 1 < COMPUTE_TILES"
    using assms unfolding xor_1 COMPUTE_TILES_def by (auto elim!: evenE)
  then show ?thesis
    using assms by (auto simp: paired_logical_Inr [OF c600_injective] c600_physical
        simp del: One_nat_def intro: logical_to_physical_lane [symmetric])
qed

subsection \<open>Route times of a receiving pair\<close>

text \<open>Flipping bit 1 of the destination changes its lane and nothing else the equations read.\<close>

lemma pair_bits:
  "bits_at 2 15 (d XOR 2) = bits_at 2 15 d" "bits_at 6 31 (d XOR 2) = bits_at 6 31 d"
  "(s XOR (d XOR 2)) AND 32 = (s XOR d) AND (32::nat)" "(d XOR 2) AND 1 = d AND (1::nat)"
  "(d XOR 2) AND 3 = (d AND 3) XOR (2::nat)"
proof -
  have b2: "bit (2::nat) n \<longleftrightarrow> n = 1" for n
    using bit_exp_iff [where ?'a = nat, of 1 n] by simp
  have b3: "bit (3::nat) n \<longleftrightarrow> n < 2" for n
    using bit_mask_iff [where ?'a = nat, of 2 n] by (simp add: mask_eq_exp_minus_1)
  have b1: "bit (1::nat) n \<longleftrightarrow> n = 0" for n by (simp add: bit_1_iff del: One_nat_def)
  have b32: "bit (32::nat) n \<longleftrightarrow> n = 5" for n
    using bit_exp_iff [where ?'a = nat, of 5 n] by simp
  show "bits_at 2 15 (d XOR 2) = bits_at 2 15 d" "bits_at 6 31 (d XOR 2) = bits_at 6 31 d"
    by (simp_all add: bits_at_def drop_bit_xor)
  show "(s XOR (d XOR 2)) AND 32 = (s XOR d) AND (32::nat)" "(d XOR 2) AND 1 = d AND (1::nat)"
    "(d XOR 2) AND 3 = (d AND 3) XOR (2::nat)"
    by (rule bit_eqI; simp only: bit_and_iff bit_xor_iff b1 b2 b3 b32; auto)+
qed

text \<open>No intermediate value of the equations leaves \<open>i32\<close>: all stay below 2^10.\<close>

lemma bits_at_bounds: "0 \<le> bits_at lo m x" "bits_at lo m x \<le> int m"
proof -
  have "int (drop_bit lo x) AND int m \<le> int m" by (rule AND_upper2') simp_all
  then show "0 \<le> bits_at lo m x" "bits_at lo m x \<le> int m"
    by (simp_all add: bits_at_def of_nat_and_eq)
qed

lemma route_displacement_bounds: "\<bar>route_displacement s d\<bar> \<le> 150"
proof -
  let ?e = "\<lambda>raw. if raw > 7 then raw XOR 15 else raw"
  have e: "0 \<le> ?e r \<and> ?e r \<le> 15" if "0 \<le> r" "r \<le> 15" for r :: int
    using that XOR_upper [of r 4 15] by auto
  have c: "0 \<le> drop_bit 3 r XOR int (s AND 1) \<and> drop_bit 3 r XOR int (s AND 1) \<le> 1"
    if "0 \<le> r" "r \<le> 15" for r :: int
  proof -
    have "0 \<le> drop_bit 3 r" "drop_bit 3 r < 2 ^ 1" "int (s AND 1) < 2 ^ 1"
      using that by (auto simp: drop_bit_eq_div and_one_eq)
    then show ?thesis using XOR_upper [of "drop_bit 3 r" 1 "int (s AND 1)"] by simp
  qed
  note es = e [OF bits_at_bounds(1) bits_at_bounds(2) [of 2 15 s, simplified]]
    and ed = e [OF bits_at_bounds(1) bits_at_bounds(2) [of 2 15 d, simplified]]
    and cs = c [OF bits_at_bounds(1) bits_at_bounds(2) [of 2 15 s, simplified]]
  define off where "off = (if (d AND 3) > (1::nat)
    then (if drop_bit 3 (bits_at 2 15 d) = int (d AND 1) then 2 else 4 :: int)
    else (if drop_bit 3 (bits_at 2 15 d) = int (d AND 3) then 1 else 5))"
  have off: "1 \<le> off" "off \<le> 5" by (simp_all add: off_def del: One_nat_def)
  have "route_displacement s d
      = (?e (bits_at 2 15 d) - (?e (bits_at 2 15 s) + (drop_bit 3 (bits_at 2 15 s) XOR int (s AND 1)))) * 6 + off"
    by (simp add: route_displacement_def Let_def off_def)
  moreover have "\<bar>(a - (b + c)) * 6 + x\<bar> \<le> 150"
    if "0 \<le> a \<and> a \<le> 15" "0 \<le> b \<and> b \<le> 15" "0 \<le> c \<and> c \<le> 1" "1 \<le> x" "x \<le> 5" for a b c x :: int
    using that by (simp add: abs_le_iff)
  ultimately show ?thesis using es ed cs off by (simp only:)
qed

lemma time_to_mux_bounds: "\<bar>time_to_mux s d\<bar> < 2 ^ 10"
proof -
  let ?e = "\<lambda>raw. if raw > 7 then (raw * 4) XOR 60 else raw * 4"
  have e: "0 \<le> ?e r \<and> ?e r < 64" if "0 \<le> r" "r \<le> 15" for r :: int
    using that XOR_upper [of "r * 4" 6 60] by auto
  have l: "0 \<le> bits_at 2 8 s OR bits_at 3 3 s \<and> bits_at 2 8 s OR bits_at 3 3 s < 16"
    using OR_upper [of "bits_at 2 8 s" 4 "bits_at 3 3 s"] bits_at_bounds [of 2 8 s] bits_at_bounds [of 3 3 s]
    by simp
  have "0 \<le> drop_bit 1 (bits_at 2 7 s)" "drop_bit 1 (bits_at 2 7 s) < 2 ^ 2"
    using bits_at_bounds [of 2 7 s] by (auto simp: drop_bit_eq_div)
  then have c: "0 \<le> drop_bit 1 (bits_at 2 7 s) XOR 3 \<and> drop_bit 1 (bits_at 2 7 s) XOR 3 < 4"
    using XOR_upper [of "drop_bit 1 (bits_at 2 7 s)" 2 3] by simp
  have "\<exists>x y t. time_to_mux s d = (bits_at 2 8 s OR bits_at 3 3 s) - bits_at 2 15 d
      + (drop_bit 1 (bits_at 2 7 s) XOR 3) + x + t - y + (bits_at 6 31 s - bits_at 6 31 d) * 2
      + \<bar>route_displacement s d\<bar> - 34 \<and> 0 \<le> x \<and> x < 64 \<and> 0 \<le> y \<and> y < 64 \<and> 0 \<le> t \<and> t \<le> 16"
  proof (intro exI conjI)
    show "time_to_mux s d = (bits_at 2 8 s OR bits_at 3 3 s) - bits_at 2 15 d
      + (drop_bit 1 (bits_at 2 7 s) XOR 3) + ?e (bits_at 2 15 s)
      + (if (s XOR d) AND 32 = 0 then bits_at 2 7 s + 1 else 16 - bits_at 2 7 s) - ?e (bits_at 2 15 d)
      + (bits_at 6 31 s - bits_at 6 31 d) * 2 + \<bar>route_displacement s d\<bar> - 34"
      by (simp only: time_to_mux_def Let_def)
    show "0 \<le> ?e (bits_at 2 15 s)" "?e (bits_at 2 15 s) < 64" "0 \<le> ?e (bits_at 2 15 d)" "?e (bits_at 2 15 d) < 64"
      using e [OF bits_at_bounds(1) bits_at_bounds(2) [of 2 15 s, simplified]]
        e [OF bits_at_bounds(1) bits_at_bounds(2) [of 2 15 d, simplified]] by blast+
    show "0 \<le> (if (s XOR d) AND 32 = 0 then bits_at 2 7 s + 1 else 16 - bits_at 2 7 s)"
      "(if (s XOR d) AND 32 = 0 then bits_at 2 7 s + 1 else 16 - bits_at 2 7 s) \<le> 16"
      using bits_at_bounds [of 2 7 s] by simp_all
  qed
  then obtain x y t where "time_to_mux s d = (bits_at 2 8 s OR bits_at 3 3 s) - bits_at 2 15 d
      + (drop_bit 1 (bits_at 2 7 s) XOR 3) + x + t - y + (bits_at 6 31 s - bits_at 6 31 d) * 2
      + \<bar>route_displacement s d\<bar> - 34" "0 \<le> x" "x < 64" "0 \<le> y" "y < 64" "0 \<le> t" "t \<le> 16"
    by blast
  moreover note l c bits_at_bounds [of 2 15 d] bits_at_bounds [of 6 31 s] bits_at_bounds [of 6 31 d]
    route_displacement_bounds [of s d]
  moreover have "\<bar>l - b + c + x + t - y + (p - q) * 2 + r - 34\<bar> < 1024"
    if "0 \<le> l \<and> l < 16" "0 \<le> c \<and> c < 4" "0 \<le> b" "b \<le> int 15" "0 \<le> p" "p \<le> int 31" "0 \<le> q" "q \<le> int 31"
      "0 \<le> r" "r \<le> 150" "0 \<le> x" "x < 64" "0 \<le> y" "y < 64" "0 \<le> t" "t \<le> 16"
    for l b c x t y p q r :: int
    using that by (simp add: abs_less_iff)
  ultimately have "\<bar>time_to_mux s d\<bar> < 1024" by (simp only: abs_ge_zero)
  then show ?thesis by simp
qed

lemma time_to_mux_pair:
  "time_to_mux s (d XOR 2) - \<bar>route_displacement s (d XOR 2)\<bar> = time_to_mux s d - \<bar>route_displacement s d\<bar>"
  by (simp only: time_to_mux_def Let_def pair_bits diff_add_eq add_diff_cancel_left' add_diff_cancel_right'
      diff_diff_eq)

lemma displacement_pair:
  "\<exists>k off off'. route_displacement s d = k * 6 + off \<and> route_displacement s (d XOR 2) = k * 6 + off'
     \<and> (off, off') \<in> {(1, 2), (2, 1), (5, 4), (4, 5)}"
proof -
  define k where "k =
    (let destination_raw = bits_at 2 15 d
     in if destination_raw > 7 then destination_raw XOR 15 else destination_raw)
    - (let source_raw = bits_at 2 15 s
       in (if source_raw > 7 then source_raw XOR 15 else source_raw)
            + (drop_bit 3 source_raw XOR int (s AND 1)))"
  define off where "off lane half parity =
    (if lane > (1::nat) then (if half = int parity then 2 else 4 :: int)
     else (if half = int lane then 1 else 5))" for lane half parity
  have f: "route_displacement s e = k * 6 + off (e AND 3) (drop_bit 3 (bits_at 2 15 e)) (e AND 1)"
    if "e = d \<or> e = d XOR 2" for e
    using that pair_bits [of d] by (auto simp: route_displacement_def Let_def k_def off_def)
  have lane: "d AND 3 = d mod 4" "d AND 1 = d mod 2"
    using take_bit_eq_mask [of 2 d] by (simp_all add: and_one_eq take_bit_eq_mod mask_eq_exp_minus_1)
  have p: "d mod 2 = d mod 4 mod 2" by (simp add: mod_mod_cancel)
  have "d mod 4 \<in> {0, 1, 2, 3}" by auto
  then have "(off (d AND 3) h (d AND 1), off ((d AND 3) XOR 2) h (d AND 1))
      \<in> {(1, 2), (2, 1), (5, 4), (4, 5)}" for h
    unfolding lane p by (auto simp: off_def)
  then show ?thesis using f [of d] f [of "d XOR 2"] pair_bits [of d] by metis
qed

lemma pair_times_adjacent:
  "\<bar>time_to_mux s (d XOR 2) - time_to_mux s d\<bar> = 1"
proof -
  obtain k off off' where "route_displacement s d = k * 6 + off"
      "route_displacement s (d XOR 2) = k * 6 + off'" "(off, off') \<in> {(1, 2), (2, 1), (5, 4), (4, 5)}"
    using displacement_pair by blast
  then have "\<bar>\<bar>route_displacement s (d XOR 2)\<bar> - \<bar>route_displacement s d\<bar>\<bar> = 1"
    by (auto; arith)
  then show ?thesis using time_to_mux_pair [of s d] by arith
qed

subsection \<open>Properties\<close>

text \<open>
  C3: The C600 inventory maps the 1472 logical tiles one-to-one onto the physical tiles
  0 to 1471, so the topology it builds satisfies the constructor's invariant.
\<close>

theorem c600_mapping_is_permutation:
  "bij_betw logical_to_physical {..<COMPUTE_TILES} {..<COMPUTE_TILES}
     \<and> topology_new (logical_to_physical_map topology_c600) = Inr topology_c600"
  using logical_to_physical_bij c600_injective
  by (simp add: topology_new_iff injective_def) (simp add: topology_c600_def COMPUTE_TILES_def)

text \<open>
  C4: On the C600 the logical tile sharing a tile's double-width exchange resources is its
  neighbour in the logical order (the lowest bit flipped).
\<close>

theorem c600_pairs_are_neighbours:
  assumes "l < COMPUTE_TILES"
  shows "paired_logical topology_c600 l = Inr (l XOR 1)"
  using assms by (rule c600_paired_lemma)

theorem c600_pairs_are_neighbours_witness:
  "paired_logical topology_c600 46 = Inr 47"
proof -
  have "46 < COMPUTE_TILES" by (simp add: COMPUTE_TILES_def)
  from c600_pairs_are_neighbours [OF this] show ?thesis by (simp add: xor_1 del: One_nat_def)
qed

text \<open>
  C5: In any topology the constructor accepts, pairing is symmetric: whenever a tile has a
  partner, the partner's partner is the tile itself, and the two are different tiles.
\<close>

theorem pairing_is_an_involution:
  assumes "topology_new mapping = Inr topo" and "paired_logical topo l = Inr m"
  shows "paired_logical topo m = Inr l \<and> m \<noteq> l"
proof -
  have i: "injective topo" using assms(1) by (simp add: topology_new_iff injective_def)
  have "m \<noteq> l" using assms(2) xor_2_neq by (auto simp: paired_logical_Inr [OF i])
  then show ?thesis using assms(2) paired_logical_symmetric [OF i] by blast
qed

theorem pairing_is_an_involution_witness:
  "paired_logical \<lparr>logical_to_physical_map = [5, 9, 7]\<rparr> 2 = Inr 0"
proof -
  have "topology_new [5, 9, 7] = Inr \<lparr>logical_to_physical_map = [5, 9, 7]\<rparr>"
    by (simp add: topology_new_def)
  moreover have "paired_logical \<lparr>logical_to_physical_map = [5, 9, 7]\<rparr> 0 = Inr 2"
    by (simp add: paired_logical_def physical_def get_def)
  ultimately show ?thesis using pairing_is_an_involution by blast
qed

text \<open>
  C6: Exactly one member of a double-width receiving pair is early for any sender, so exactly one
  of the two tiles owns the pair's source-selection stream.
\<close>

theorem exactly_one_receiver_is_early:
  assumes "topology_new mapping = Inr topo"
    and "paired_logical topo receiver = Inr partner" and "physical topo sender = Inr s"
  shows "\<exists>early. paired_receiver_is_early topo receiver sender = Inr early
           \<and> paired_receiver_is_early topo partner sender = Inr (\<not> early)"
proof -
  have i: "injective topo" using assms(1) by (simp add: topology_new_iff injective_def)
  obtain p where "physical topo receiver = Inr p" "physical topo partner = Inr (p XOR 2)"
    using assms(2) by (auto simp: paired_logical_Inr [OF i])
  then show ?thesis
    using assms(3) pair_times_adjacent [of s p] by (auto simp: paired_receiver_is_early_def Let_def)
qed

theorem exactly_one_receiver_is_early_witness:
  "paired_receiver_is_early topology_c600 0 46 = Inr False \<and> paired_receiver_is_early topology_c600 1 46 = Inr True
   \<or> paired_receiver_is_early topology_c600 0 46 = Inr True \<and> paired_receiver_is_early topology_c600 1 46 = Inr False"
proof -
  have n: "topology_new (logical_to_physical_map topology_c600) = Inr topology_c600"
    using c600_injective by (simp add: topology_new_iff injective_def) (simp add: topology_c600_def COMPUTE_TILES_def)
  have p: "paired_logical topology_c600 0 = Inr 1"
    using c600_paired_lemma [of 0] by (simp add: COMPUTE_TILES_def xor_1)
  have s: "physical topology_c600 46 = Inr (logical_to_physical 46)"
    by (simp add: c600_physical COMPUTE_TILES_def)
  show ?thesis using exactly_one_receiver_is_early [OF n p s] by auto
qed

end
