(* ===== verification/TileMemory.thy ===== *)
theory TileMemory
  imports Prelude Target "HOL-Library.Product_Lexorder"
begin

text \<open>
  The tile memory map of the compiler (\<open>ipu-codegen/src/memory.rs\<close>): the list of free
  address ranges of one tile's SRAM, fixed reservations, aligned first-fit allocation, and
  the two helpers on sorted range lists (complement and union).

  Addresses are \<open>u32\<close> values; every addition the code checks is checked here. Operations
  that return an error leave the map unchanged, as in the code, so their result carries
  the new map only on success. The invariant \<open>memory_ok\<close> says that the free list is the
  canonical list of maximal free ranges and that the free ranges and the reservations
  partition the tile's SRAM.
\<close>

subsection \<open>Data\<close>

record memory_allocation =
  allocation_name :: string
  allocation_range :: range
  allocation_reserved :: range

record tile_memory_map =
  free :: "range list"
  allocations :: "memory_allocation list"

record memory_request =
  request_name :: string
  request_bytes :: nat
  alignment :: nat
  bounds :: range
  end_alignment :: nat
  guard_after :: nat

datatype memory_layout_error =
    Invalid string
  | Overlap string nat nat
  | OutOfMemory string nat

subsection \<open>Operations\<close>

definition align_up :: "nat \<Rightarrow> nat \<Rightarrow> string \<Rightarrow> memory_layout_error + nat" where
  "align_up val algn name = ok_or (checked_next_multiple_of 32 val algn) (Invalid name)"

definition memory_new :: "target \<Rightarrow> tile_memory_map" where
  "memory_new tgt = \<lparr>free = [tile_memory tgt], allocations = []\<rparr>"

definition reserve :: "string \<Rightarrow> range \<Rightarrow> tile_memory_map \<Rightarrow> memory_layout_error + tile_memory_map" where
  "reserve name r m =
     (if fst r \<ge> snd r then Inl (Invalid name)
      else case position (\<lambda>f. fst f \<le> fst r \<and> snd r \<le> snd f) (free m) of
             None \<Rightarrow> Inl (Overlap name (fst r) (snd r))
           | Some index \<Rightarrow>
               (let f = free m ! index;
                    remaining = [(fst f, fst r), (snd r, snd f)]
                in Inr \<lparr>free = take index (free m) @ filter (\<lambda>(a, b). a < b) remaining
                                 @ drop (Suc index) (free m),
                        allocations = allocations m
                          @ [\<lparr>allocation_name = name, allocation_range = r, allocation_reserved = r\<rparr>]\<rparr>))"

text \<open>\<open>reserve\<close> hands out a mutable reference to the last allocation; \<open>allocate\<close> uses it to
  shorten the payload range.\<close>

definition set_last_range_end :: "nat \<Rightarrow> memory_allocation list \<Rightarrow> memory_allocation list" where
  "set_last_range_end e as =
     butlast as @ [(last as)\<lparr>allocation_range := (fst (allocation_range (last as)), e)\<rparr>]"

fun allocate_loop ::
  "range list \<Rightarrow> memory_request \<Rightarrow> tile_memory_map \<Rightarrow>
   memory_layout_error + (memory_allocation \<times> tile_memory_map)" where
  "allocate_loop [] req m = Inl (OutOfMemory (request_name req) (request_bytes req))"
| "allocate_loop (f # fs) req m =
     res_bind (align_up (max (fst f) (fst (bounds req))) (alignment req) (request_name req)) (\<lambda>start.
     case checked_add 32 start (request_bytes req) of
       None \<Rightarrow> allocate_loop fs req m
     | Some payload_end \<Rightarrow>
     (case checked_add 32 payload_end (guard_after req) of
        None \<Rightarrow> allocate_loop fs req m
      | Some guarded_end \<Rightarrow>
      res_bind (align_up guarded_end (end_alignment req) (request_name req)) (\<lambda>reserved_end.
      if reserved_end \<le> min (snd f) (snd (bounds req))
      then res_bind (reserve (request_name req) (start, reserved_end) m) (\<lambda>m'.
             let as = set_last_range_end payload_end (allocations m')
             in Inr (last as, m'\<lparr>allocations := as\<rparr>))
      else allocate_loop fs req m)))"

definition allocate ::
  "memory_request \<Rightarrow> tile_memory_map \<Rightarrow> memory_layout_error + (memory_allocation \<times> tile_memory_map)" where
  "allocate req m =
     (if request_bytes req = 0 \<or> \<not> is_power_of_two (alignment req)
         \<or> \<not> is_power_of_two (end_alignment req) \<or> fst (bounds req) \<ge> snd (bounds req)
      then Inl (Invalid (request_name req))
      else allocate_loop (free m) req m)"

definition free_ranges :: "range \<Rightarrow> tile_memory_map \<Rightarrow> (nat \<times> nat) list" where
  "free_ranges bnd m =
     List.map_filter (\<lambda>f. let start = max (fst f) (fst bnd); e = min (snd f) (snd bnd)
                     in if start < e then Some (start, e) else None) (free m)"

definition next_free :: "nat \<Rightarrow> range \<Rightarrow> nat \<Rightarrow> string \<Rightarrow> tile_memory_map \<Rightarrow> memory_layout_error + nat" where
  "next_free start bnd algn name m =
     (if \<not> is_power_of_two algn then Inl (Invalid name)
      else ok_or
        (find_map (\<lambda>(free_start, free_end).
           case align_up (max free_start start) algn name of
             Inl e \<Rightarrow> None
           | Inr address \<Rightarrow> if address < free_end then Some address else None) (free_ranges bnd m))
        (OutOfMemory name 1))"

fun uncovered_loop :: "nat \<Rightarrow> nat \<Rightarrow> (nat \<times> nat) list \<Rightarrow> (nat \<times> nat) list" where
  "uncovered_loop cursor end [] = (if cursor < end then [(cursor, end)] else [])"
| "uncovered_loop cursor end ((a, b) # rest) =
     (if a \<ge> end then (if cursor < end then [(cursor, end)] else [])
      else if b \<le> cursor then uncovered_loop cursor end rest
      else (if cursor < a then [(cursor, a)] else []) @ uncovered_loop (max cursor b) end rest)"

definition uncovered_ranges :: "nat \<Rightarrow> nat \<Rightarrow> (nat \<times> nat) list \<Rightarrow> (nat \<times> nat) list" where
  "uncovered_ranges start end occupied = uncovered_loop start end occupied"

text \<open>The loop body: extend the last merged range, or start a new one.\<close>

definition merge_step :: "(nat \<times> nat) list \<Rightarrow> nat \<times> nat \<Rightarrow> (nat \<times> nat) list" where
  "merge_step merged r =
     (case r of (start, end) \<Rightarrow>
        if merged \<noteq> [] \<and> start \<le> snd (last merged)
        then butlast merged @ [(fst (last merged), max (snd (last merged)) end)]
        else merged @ [(start, end)])"

definition merge_ranges :: "(nat \<times> nat) list \<Rightarrow> (nat \<times> nat) list" where
  "merge_ranges ranges = foldl merge_step [] (sort ranges)"

subsection \<open>Canonical range lists\<close>

text \<open>
  \<open>canonical\<close>: nonempty half-open ranges in increasing order with at least one byte between
  neighbours, the normal form of a set of addresses as a list of maximal intervals.
\<close>

definition span :: "range \<Rightarrow> nat set" where
  "span r = {fst r..<snd r}"

definition covered :: "range list \<Rightarrow> nat set" where
  "covered rs = (\<Union>r\<in>set rs. span r)"

definition canonical :: "range list \<Rightarrow> bool" where
  "canonical rs \<longleftrightarrow> (\<forall>r\<in>set rs. fst r < snd r) \<and> sorted_wrt (\<lambda>a b. snd a < fst b) rs"

lemma covered_simps [simp]:
  "covered [] = {}" "covered (r # rs) = span r \<union> covered rs" "covered (rs @ rs') = covered rs \<union> covered rs'"
  by (auto simp: covered_def)

lemma canonical_simps [simp]:
  "canonical []"
  "canonical (r # rs) \<longleftrightarrow> fst r < snd r \<and> (\<forall>q\<in>set rs. snd r < fst q) \<and> canonical rs"
  "canonical (rs @ rs') \<longleftrightarrow> canonical rs \<and> canonical rs' \<and> (\<forall>a\<in>set rs. \<forall>b\<in>set rs'. snd a < fst b)"
  by (auto simp: canonical_def sorted_wrt_append)

lemma canonical_cases:
  "canonical rs \<Longrightarrow> f \<in> set rs \<Longrightarrow> g \<in> set rs \<Longrightarrow> f = g \<or> snd f < fst g \<or> snd g < fst f"
  by (induction rs) auto

lemma canonical_nonempty: "canonical rs \<Longrightarrow> f \<in> set rs \<Longrightarrow> fst f < snd f"
  by (simp add: canonical_def)

text \<open>A run of free bytes lies inside one range: there is no seam between two ranges.\<close>

lemma canonical_contiguous:
  assumes "canonical rs" and "fst r < snd r" and "span r \<subseteq> covered rs"
  shows "\<exists>f\<in>set rs. fst f \<le> fst r \<and> snd r \<le> snd f"
proof -
  have "fst r \<in> covered rs" using assms(2,3) by (auto simp: span_def)
  then obtain f where f: "f \<in> set rs" "fst f \<le> fst r" "fst r < snd f"
    by (auto simp: covered_def span_def)
  have "snd r \<le> snd f"
  proof (rule ccontr)
    assume c: "\<not> snd r \<le> snd f"
    then have "snd f \<in> covered rs" using assms(3) f by (auto simp: span_def)
    then obtain g where g: "g \<in> set rs" "fst g \<le> snd f" "snd f < snd g"
      by (auto simp: covered_def span_def)
    then show False using canonical_cases [OF assms(1) f(1) g(1)] canonical_nonempty [OF assms(1) f(1)]
      by auto
  qed
  with f show ?thesis by blast
qed

lemma canonical_lex: "canonical rs \<Longrightarrow> sorted rs \<and> distinct rs"
  by (induction rs) (fastforce simp: less_eq_prod_def less_prod_def)+

text \<open>Two canonical lists that cover the same addresses are the same list.\<close>

lemma canonical_unique:
  assumes "canonical rs" and "canonical qs" and "covered rs = covered qs"
  shows "rs = qs"
proof -
  have sub: "r \<in> set qs" if c: "canonical rs" "canonical qs" "covered rs = covered qs" and r: "r \<in> set rs" for r rs qs
  proof -
    have ne: "fst r < snd r" using c r canonical_nonempty by blast
    have "span r \<subseteq> covered qs" using c(3) r by (auto simp: covered_def)
    then obtain g where g: "g \<in> set qs" "fst g \<le> fst r" "snd r \<le> snd g"
      using canonical_contiguous [OF c(2) ne] by blast
    have "span g \<subseteq> covered rs" using c(3) g by (auto simp: covered_def)
    then obtain f where f: "f \<in> set rs" "fst f \<le> fst g" "snd g \<le> snd f"
      using canonical_contiguous [OF c(1), of g] canonical_nonempty [OF c(2) g(1)] by blast
    have "f = r" using canonical_cases [OF c(1) f(1) r] f g ne by auto
    then have "g = r" using f g by (simp add: prod_eq_iff)
    with g show ?thesis by simp
  qed
  have "set rs = set qs" using sub [OF assms] sub [OF assms(2,1) assms(3) [symmetric]] by blast
  then show ?thesis
    using canonical_lex [OF assms(1)] canonical_lex [OF assms(2)] by (metis sorted_distinct_set_unique)
qed

subsection \<open>The invariant\<close>

definition memory_ok :: "target \<Rightarrow> tile_memory_map \<Rightarrow> bool" where
  "memory_ok tgt m \<longleftrightarrow>
     canonical (free m)
   \<and> covered (free m) \<inter> covered (map allocation_reserved (allocations m)) = {}
   \<and> covered (free m) \<union> covered (map allocation_reserved (allocations m)) = span (tile_memory tgt)
   \<and> sorted_wrt (\<lambda>a b. span a \<inter> span b = {}) (map allocation_reserved (allocations m))
   \<and> (\<forall>a\<in>set (allocations m).
        fst (allocation_range a) = fst (allocation_reserved a)
      \<and> fst (allocation_range a) < snd (allocation_range a)
      \<and> snd (allocation_range a) \<le> snd (allocation_reserved a))"

lemma memory_new_ok: "memory_ok tgt (memory_new tgt)"
  by (cases tgt) (simp add: memory_ok_def memory_new_def memory_constants)

lemma reserve_Inr:
  assumes "reserve name r m = Inr m'"
  obtains us f vs where "free m = us @ f # vs" and "fst f \<le> fst r" and "snd r \<le> snd f" and "fst r < snd r"
    and "free m' = us @ (if fst f < fst r then [(fst f, fst r)] else [])
                     @ (if snd r < snd f then [(snd r, snd f)] else []) @ vs"
    and "allocations m' = allocations m
           @ [\<lparr>allocation_name = name, allocation_range = r, allocation_reserved = r\<rparr>]"
proof -
  obtain i where i: "position (\<lambda>f. fst f \<le> fst r \<and> snd r \<le> snd f) (free m) = Some i" and "fst r < snd r"
    using assms by (auto simp: reserve_def split: if_splits option.splits)
  then have "i < length (free m)" "fst (free m ! i) \<le> fst r" "snd r \<le> snd (free m ! i)"
    by (auto simp: position_Some)
  with assms i \<open>fst r < snd r\<close> show ?thesis
    by (intro that [of "take i (free m)" "free m ! i" "drop (Suc i) (free m)"])
      (auto simp: reserve_def Let_def id_take_nth_drop [symmetric])
qed

lemma reserve_free:
  assumes "reserve name r m = Inr m'" and "canonical (free m)"
  shows "canonical (free m')" and "covered (free m') = covered (free m) - span r"
    and "span r \<subseteq> covered (free m)"
proof -
  obtain us f vs where f: "free m = us @ f # vs" "fst f \<le> fst r" "snd r \<le> snd f" "fst r < snd r"
    and m': "free m' = us @ (if fst f < fst r then [(fst f, fst r)] else [])
                     @ (if snd r < snd f then [(snd r, snd f)] else []) @ vs"
    using assms(1) by (rule reserve_Inr)
  have d: "span g \<inter> span r = {}" if "g \<in> set us \<union> set vs" for g
    using that assms(2) f by (fastforce simp: span_def)
  then have "covered us \<inter> span r = {}" "covered vs \<inter> span r = {}"
    by (auto simp: covered_def)
  then show "covered (free m') = covered (free m) - span r"
    using f m' by (auto simp: span_def set_eq_iff not_less)
  show "canonical (free m')"
    using f m' assms(2) by (auto intro: less_trans le_less_trans less_le_trans)
  show "span r \<subseteq> covered (free m)" using f by (auto simp: span_def)
qed

text \<open>A range can be reserved exactly when it is not empty and all its bytes are free.\<close>

lemma reserve_succeeds_iff:
  assumes "canonical (free m)"
  shows "(\<exists>m'. reserve name r m = Inr m') \<longleftrightarrow> fst r < snd r \<and> span r \<subseteq> covered (free m)"
proof
  assume "\<exists>m'. reserve name r m = Inr m'"
  then show "fst r < snd r \<and> span r \<subseteq> covered (free m)"
    using reserve_free(3) [OF _ assms] reserve_Inr [of name r m] by metis
next
  assume "fst r < snd r \<and> span r \<subseteq> covered (free m)"
  then obtain f where "f \<in> set (free m)" "fst f \<le> fst r" "snd r \<le> snd f" "fst r < snd r"
    using canonical_contiguous [OF assms] by blast
  then have "position (\<lambda>f. fst f \<le> fst r \<and> snd r \<le> snd f) (free m) \<noteq> None"
    by (auto simp: position_None)
  then show "\<exists>m'. reserve name r m = Inr m'"
    using \<open>fst r < snd r\<close> by (auto simp: reserve_def Let_def)
qed

lemma reserve_ok:
  assumes "memory_ok tgt m" and "reserve name r m = Inr m'"
  shows "memory_ok tgt m'"
proof -
  have c: "canonical (free m)" using assms(1) by (simp add: memory_ok_def)
  note f = reserve_free [OF assms(2) c]
  have a: "allocations m' = allocations m
           @ [\<lparr>allocation_name = name, allocation_range = r, allocation_reserved = r\<rparr>]" and r: "fst r < snd r"
    using assms(2) by (auto elim: reserve_Inr)
  have "span b \<inter> span r = {}" if "b \<in> allocation_reserved ` set (allocations m)" for b
    using that assms(1) f(3) by (fastforce simp: memory_ok_def covered_def)
  then show ?thesis
    using assms(1) f r by (auto simp: memory_ok_def a sorted_wrt_append)
qed

subsection \<open>Allocation\<close>

text \<open>
  What a request asks for, independently of the search: an aligned start \<open>s\<close> inside the
  bounds and an aligned end \<open>e\<close> of the reservation with room for the payload and the guard.
\<close>

definition fits :: "memory_request \<Rightarrow> range \<Rightarrow> nat \<Rightarrow> nat \<Rightarrow> bool" where
  "fits req f s e \<longleftrightarrow>
     fst f \<le> s \<and> e \<le> snd f \<and> fst (bounds req) \<le> s \<and> e \<le> snd (bounds req)
   \<and> alignment req dvd s \<and> end_alignment req dvd e
   \<and> s + request_bytes req + guard_after req \<le> e"

definition placement :: "memory_request \<Rightarrow> tile_memory_map \<Rightarrow> nat \<Rightarrow> nat \<Rightarrow> bool" where
  "placement req m s e \<longleftrightarrow>
     span (s, e) \<subseteq> covered (free m) \<and> fst (bounds req) \<le> s \<and> e \<le> snd (bounds req)
   \<and> alignment req dvd s \<and> end_alignment req dvd e
   \<and> s + request_bytes req + guard_after req \<le> e"

definition request_valid :: "memory_request \<Rightarrow> bool" where
  "request_valid req \<longleftrightarrow>
     request_bytes req \<noteq> 0 \<and> is_power_of_two (alignment req) \<and> is_power_of_two (end_alignment req)
   \<and> fst (bounds req) < snd (bounds req) \<and> fst (bounds req) < 2 ^ 32"

lemma placement_fits:
  assumes "canonical (free m)" and "request_bytes req \<noteq> 0"
  shows "placement req m s e \<longleftrightarrow> (\<exists>f\<in>set (free m). fits req f s e)"
proof
  assume p: "placement req m s e"
  then have "\<exists>f\<in>set (free m). fst f \<le> s \<and> e \<le> snd f"
    using canonical_contiguous [OF assms(1), of "(s, e)"] assms(2) by (auto simp: placement_def)
  then show "\<exists>f\<in>set (free m). fits req f s e" using p by (auto simp: placement_def fits_def)
next
  assume "\<exists>f\<in>set (free m). fits req f s e"
  then obtain f where f: "f \<in> set (free m)" "fits req f s e" by blast
  then have "span (s, e) \<subseteq> span f" by (auto simp: fits_def span_def)
  then have "span (s, e) \<subseteq> covered (free m)" using f(1) by (auto simp: covered_def)
  then show "placement req m s e" using f(2) by (auto simp: placement_def fits_def)
qed

lemma align_up_Inr: "align_up v a n = Inr c \<longleftrightarrow> checked_next_multiple_of 32 v a = Some c"
  by (simp add: align_up_def res_simps)

lemma align_up_Inl: "align_up v a n = Inl e \<longleftrightarrow> checked_next_multiple_of 32 v a = None \<and> e = Invalid n"
  by (cases "checked_next_multiple_of 32 v a") (auto simp: align_up_def)

definition lower :: "memory_request \<Rightarrow> range \<Rightarrow> nat" where
  "lower req f = max (fst f) (fst (bounds req))"

text \<open>Nothing fits the ranges at or above \<open>f\<close> when an alignment overflows at \<open>f\<close>.\<close>

lemma fits_start_overflow:
  assumes "request_valid req" and "checked_next_multiple_of 32 (lower req f) (alignment req) = None"
    and "fst f \<le> fst g" and "fst f < 2 ^ 32" and "snd g < 2 ^ 32"
  shows "\<not> fits req g s e"
proof
  assume "fits req g s e"
  then have s: "alignment req dvd s" "lower req f \<le> s" "s \<le> snd g"
    using assms(3) by (auto simp: fits_def lower_def)
  have "0 < alignment req" "lower req f < 2 ^ 32"
    using assms(1,4) by (auto simp: request_valid_def lower_def is_power_of_two_pos)
  then have "2 ^ 32 \<le> s" using checked_next_multiple_of_None [OF assms(2) _ s(1,2)] by blast
  then show False using s(3) assms(5) by simp
qed

lemma fits_start_least:
  assumes "checked_next_multiple_of 32 (lower req f) (alignment req) = Some start"
    and "fst f \<le> fst g" and "fits req g s e"
  shows "start \<le> s" and "start + request_bytes req + guard_after req \<le> e"
proof -
  have "alignment req dvd s" "lower req f \<le> s" using assms(2,3) by (auto simp: fits_def lower_def)
  then show "start \<le> s" by (rule checked_next_multiple_of_least [OF assms(1)])
  then show "start + request_bytes req + guard_after req \<le> e"
    using assms(3) by (auto simp: fits_def)
qed

lemma fits_end_least:
  assumes "checked_next_multiple_of 32 (lower req f) (alignment req) = Some start"
    and "checked_next_multiple_of 32 (start + request_bytes req + guard_after req) (end_alignment req) = Some re"
    and "fst f \<le> fst g" and "fits req g s e"
  shows "re \<le> e"
  using fits_start_least(2) [OF assms(1,3,4)] assms(4)
  by (intro checked_next_multiple_of_least [OF assms(2)]) (auto simp: fits_def)

lemma fits_end_overflow:
  assumes "request_valid req"
    and "checked_next_multiple_of 32 (lower req f) (alignment req) = Some start"
    and "checked_next_multiple_of 32 (start + request_bytes req + guard_after req) (end_alignment req) = None"
    and "start + request_bytes req + guard_after req < 2 ^ 32"
    and "fst f \<le> fst g" and "snd g < 2 ^ 32"
  shows "\<not> fits req g s e"
proof
  assume f: "fits req g s e"
  then have "end_alignment req dvd e" "e \<le> snd g" by (auto simp: fits_def)
  then show False
    using checked_next_multiple_of_None [OF assms(3)] fits_start_least(2) [OF assms(2,5) f] assms(1,4,6)
    by (force simp: request_valid_def is_power_of_two_pos)
qed

text \<open>
  The loop returns the placement that is lowest in the remaining ranges; it returns an
  error only when none of them has a placement.
\<close>

definition lowest :: "memory_request \<Rightarrow> range list \<Rightarrow> nat \<Rightarrow> nat \<Rightarrow> bool" where
  "lowest req fs s e \<longleftrightarrow>
     (\<exists>f\<in>set fs. fits req f s e) \<and> (\<forall>g\<in>set fs. \<forall>s' e'. fits req g s' e' \<longrightarrow> s \<le> s' \<and> e \<le> e')"

definition allocated ::
  "memory_request \<Rightarrow> nat \<Rightarrow> nat \<Rightarrow> tile_memory_map \<Rightarrow> memory_allocation \<Rightarrow> tile_memory_map \<Rightarrow> bool" where
  "allocated req s e m a m' \<longleftrightarrow>
     (\<exists>m0. reserve (request_name req) (s, e) m = Inr m0
       \<and> a = \<lparr>allocation_name = request_name req, allocation_range = (s, s + request_bytes req),
             allocation_reserved = (s, e)\<rparr>
       \<and> m' = m0\<lparr>allocations := allocations m @ [a]\<rparr>)"

lemma fits_ordered: "fits req f s e \<Longrightarrow> fits req g s' e' \<Longrightarrow> snd f < fst g \<Longrightarrow> s \<le> s' \<and> e \<le> e'"
  by (auto simp: fits_def)

lemma allocate_loop_result:
  assumes "request_valid req" and "canonical fs" and "\<forall>f\<in>set fs. snd f < 2 ^ 32"
    and "\<forall>f\<in>set fs. \<forall>s e. fst f \<le> s \<and> s < e \<and> e \<le> snd f \<longrightarrow> (\<exists>m0. reserve (request_name req) (s, e) m = Inr m0)"
  shows "case allocate_loop fs req m of
           Inl err \<Rightarrow> (\<forall>f\<in>set fs. \<forall>s e. \<not> fits req f s e)
         | Inr (a, m') \<Rightarrow> (\<exists>s e. lowest req fs s e \<and> allocated req s e m a m')"
  using assms(2-4)
proof (induction fs)
  case Nil then show ?case by simp
next
  case (Cons f fs)
  let ?rest = "case allocate_loop fs req m of
           Inl err \<Rightarrow> (\<forall>f\<in>set fs. \<forall>s e. \<not> fits req f s e)
         | Inr (a, m') \<Rightarrow> (\<exists>s e. lowest req fs s e \<and> allocated req s e m a m')"
  have IH: ?rest using Cons by simp
  have skip: "allocate_loop (f # fs) req m = allocate_loop fs req m \<Longrightarrow> (\<And>s e. \<not> fits req f s e) \<Longrightarrow> ?case"
    using IH by (auto simp: lowest_def split: sum.splits prod.splits)
  have ord: "fst f \<le> fst g \<and> snd g < 2 ^ 32" if "g \<in> set (f # fs)" for g
    using that Cons.prems by fastforce
  have f32: "fst f < 2 ^ 32" "snd f < 2 ^ 32" using Cons.prems by auto
  note ex = allocate_loop.simps(2) [of f fs req m] lower_def [of req f, symmetric]
  show ?case
  proof (cases "checked_next_multiple_of 32 (lower req f) (alignment req)")
    case None
    then have "allocate_loop (f # fs) req m = Inl (Invalid (request_name req))"
      by (simp add: ex align_up_def)
    then show ?thesis using fits_start_overflow [OF assms(1) None] ord f32 by auto
  next
    case (Some start)
    let ?g = "start + request_bytes req + guard_after req"
    have start: "align_up (lower req f) (alignment req) (request_name req) = Inr start"
      using Some by (simp add: align_up_Inr)
    show ?thesis
    proof (cases "?g < 2 ^ 32")
      case False
      have "\<not> fits req f s e" for s e
        using fits_start_least(2) [OF Some order_refl, of s e] False f32 by (auto simp: fits_def)
      moreover have "allocate_loop (f # fs) req m = allocate_loop fs req m"
        using start False by (simp add: ex checked_add_def)
      ultimately show ?thesis using skip by blast
    next
      case g: True
      show ?thesis
      proof (cases "checked_next_multiple_of 32 ?g (end_alignment req)")
        case None
        then have "allocate_loop (f # fs) req m = Inl (Invalid (request_name req))"
          using start g by (simp add: ex checked_add_def align_up_def)
        then show ?thesis using fits_end_overflow [OF assms(1) Some None g] ord by auto
      next
        case re: (Some re)
        have al: "lower req f \<le> start" "alignment req dvd start" "?g \<le> re" "end_alignment req dvd re"
          using checked_next_multiple_of_Some [OF Some] checked_next_multiple_of_Some [OF re] by auto
        show ?thesis
        proof (cases "re \<le> min (snd f) (snd (bounds req))")
          case False
          have "\<not> fits req f s e" for s e
            using fits_end_least [OF Some re order_refl, of s e] False by (auto simp: fits_def)
          moreover have "allocate_loop (f # fs) req m = allocate_loop fs req m"
            using start g re False by (auto simp add: ex checked_add_def align_up_def)
          ultimately show ?thesis using skip by blast
        next
          case True
          then have fit: "fits req f start re" using al by (auto simp: fits_def lower_def)
          have "start < re" using al assms(1) by (simp add: request_valid_def)
          then obtain m0 where m0: "reserve (request_name req) (start, re) m = Inr m0"
            using Cons.prems(3) fit by (fastforce simp: fits_def)
          let ?a = "\<lparr>allocation_name = request_name req, allocation_range = (start, start + request_bytes req),
             allocation_reserved = (start, re)\<rparr>"
          have as: "allocations m0 = allocations m @ [\<lparr>allocation_name = request_name req,
              allocation_range = (start, re), allocation_reserved = (start, re)\<rparr>]"
            using m0 by (auto elim: reserve_Inr)
          have "allocate_loop (f # fs) req m = Inr (?a, m0\<lparr>allocations := allocations m @ [?a]\<rparr>)"
            using start g re True m0
            by (simp add: ex checked_add_def align_up_def as set_last_range_end_def Let_def)
          moreover have "start \<le> s' \<and> re \<le> e'" if "g \<in> set (f # fs)" "fits req g s' e'" for g s' e'
            using fits_start_least(1) [OF Some] fits_end_least [OF Some re] ord [OF that(1)] that(2) by blast
          then have "lowest req (f # fs) start re"
            unfolding lowest_def using fit by (meson list.set_intros(1))
          ultimately show ?thesis using m0 by (force simp: allocated_def)
        qed
      qed
    qed
  qed
qed

lemma memory_ok_u32:
  assumes "memory_ok tgt m" and "f \<in> set (free m)"
  shows "snd f \<le> INTERLEAVED_REGION_LIMIT" and "snd f < 2 ^ 32"
proof -
  have "fst f < snd f" using assms canonical_nonempty by (auto simp: memory_ok_def)
  then have "snd f - 1 \<in> span f" by (auto simp: span_def)
  then have "snd f - 1 \<in> covered (free m)" using assms(2) by (auto simp: covered_def)
  then have "snd f - 1 \<in> span (tile_memory tgt)"
    using assms(1) unfolding memory_ok_def by blast
  then show "snd f \<le> INTERLEAVED_REGION_LIMIT" "snd f < 2 ^ 32"
    using \<open>fst f < snd f\<close> by (cases tgt; auto simp: span_def memory_constants)+
qed

lemma allocate_cases:
  assumes "memory_ok tgt m" and "fst (bounds req) < 2 ^ 32"
  shows "case allocate req m of
           Inl err \<Rightarrow> \<not> request_valid req \<or> (\<forall>s e. \<not> placement req m s e)
         | Inr (a, m') \<Rightarrow> request_valid req \<and>
             (\<exists>s e. lowest req (free m) s e \<and> allocated req s e m a m')"
proof (cases "request_valid req")
  case False
  then show ?thesis using assms(2) by (auto simp: request_valid_def allocate_def not_less)
next
  case True
  have c: "canonical (free m)" using assms(1) by (simp add: memory_ok_def)
  have "\<exists>m0. reserve (request_name req) (s, e) m = Inr m0"
    if "f \<in> set (free m)" "fst f \<le> s \<and> s < e \<and> e \<le> snd f" for f s e
  proof -
    have "span (s, e) \<subseteq> span f" using that by (auto simp: span_def)
    then show ?thesis using that by (subst reserve_succeeds_iff [OF c]) (auto simp: covered_def)
  qed
  then have "case allocate_loop (free m) req m of
           Inl err \<Rightarrow> (\<forall>f\<in>set (free m). \<forall>s e. \<not> fits req f s e)
         | Inr (a, m') \<Rightarrow> (\<exists>s e. lowest req (free m) s e \<and> allocated req s e m a m')"
    using memory_ok_u32(2) [OF assms(1)] by (intro allocate_loop_result [OF True c]) blast+
  then show ?thesis
    using True placement_fits [OF c] by (auto simp: allocate_def request_valid_def split: sum.splits)
qed

lemma allocated_free:
  assumes "canonical (free m)" and "allocated req s e m a m'"
  shows "canonical (free m')" and "covered (free m') = covered (free m) - {s..<e}"
    and "{s..<e} \<subseteq> covered (free m)"
proof -
  obtain m0 where m0: "reserve (request_name req) (s, e) m = Inr m0" "free m' = free m0"
    using assms(2) by (auto simp: allocated_def)
  from reserve_free [OF m0(1) assms(1)]
  show "canonical (free m')" "covered (free m') = covered (free m) - {s..<e}" "{s..<e} \<subseteq> covered (free m)"
    by (simp_all add: m0 span_def)
qed

lemma allocated_ok:
  assumes "memory_ok tgt m" and "allocated req s e m a m'"
    and "request_bytes req \<noteq> 0" and "s + request_bytes req \<le> e"
  shows "memory_ok tgt m'"
proof -
  obtain m0 where m0: "reserve (request_name req) (s, e) m = Inr m0"
    and a: "a = \<lparr>allocation_name = request_name req, allocation_range = (s, s + request_bytes req),
             allocation_reserved = (s, e)\<rparr>"
    and m': "m' = m0\<lparr>allocations := allocations m @ [a]\<rparr>"
    using assms(2) by (auto simp: allocated_def)
  have "allocations m0 = allocations m
           @ [\<lparr>allocation_name = request_name req, allocation_range = (s, e), allocation_reserved = (s, e)\<rparr>]"
    using m0 by (auto elim: reserve_Inr)
  then show ?thesis
    using reserve_ok [OF assms(1) m0] assms(3,4) by (auto simp: memory_ok_def a m')
qed

lemma allocate_ok:
  assumes "memory_ok tgt m" and "fst (bounds req) < 2 ^ 32" and "allocate req m = Inr (a, m')"
  shows "memory_ok tgt m'"
proof -
  obtain s e where "request_valid req" "lowest req (free m) s e" "allocated req s e m a m'"
    using allocate_cases [OF assms(1,2)] assms(3) by auto
  then show ?thesis
    using allocated_ok [OF assms(1)] by (auto simp: lowest_def fits_def request_valid_def)
qed

subsection \<open>Sequences of requests\<close>

datatype memory_op = Reserve string range | Allocate memory_request

fun memory_exec :: "memory_op \<Rightarrow> tile_memory_map \<Rightarrow> memory_layout_error + tile_memory_map" where
  "memory_exec (Reserve name r) m = reserve name r m"
| "memory_exec (Allocate req) m = res_bind (allocate req m) (\<lambda>(a, m'). Inr m')"

fun memory_op_u32 :: "memory_op \<Rightarrow> bool" where
  "memory_op_u32 (Reserve name r) = True"
| "memory_op_u32 (Allocate req) = (fst (bounds req) < 2 ^ 32)"

interpretation tile_memory_system:
  invariant_system "memory_new tgt" memory_exec memory_op_u32 "memory_ok tgt" for tgt
proof (unfold_locales, rule memory_new_ok)
  show "memory_ok tgt s'" if "memory_ok tgt s" "memory_op_u32 op" "memory_exec op s = Inr s'" for tgt s op s'
    using that by (cases op) (auto simp: res_simps intro: reserve_ok allocate_ok)
qed

subsection \<open>Range lists\<close>

lemma free_ranges_canonical:
  "canonical (free m) \<Longrightarrow>
   canonical (free_ranges bnd m) \<and> covered (free_ranges bnd m) = covered (free m) \<inter> span bnd
   \<and> (\<forall>r\<in>set (free_ranges bnd m). \<exists>f\<in>set (free m). fst f \<le> fst r \<and> snd r \<le> snd f)"
proof -
  define clip where "clip f = (let start = max (fst f) (fst bnd); e = min (snd f) (snd bnd)
                     in if start < e then Some (start, e) else None)" for f :: range
  have *: "canonical fs \<Longrightarrow>
      canonical (List.map_filter clip fs) \<and> covered (List.map_filter clip fs) = covered fs \<inter> span bnd
      \<and> (\<forall>r\<in>set (List.map_filter clip fs). \<exists>f\<in>set fs. fst f \<le> fst r \<and> snd r \<le> snd f)" for fs
  proof (induction fs)
    case Nil then show ?case by (simp add: map_filter_simps)
  next
    case (Cons f fs)
    then have IH: "canonical (List.map_filter clip fs)" "covered (List.map_filter clip fs) = covered fs \<inter> span bnd"
      "\<forall>r\<in>set (List.map_filter clip fs). \<exists>f\<in>set fs. fst f \<le> fst r \<and> snd r \<le> snd f" by auto
    have above: "snd f < fst r" if "r \<in> set (List.map_filter clip fs)" for r
      using IH(3) that Cons.prems by fastforce
    show ?case
    proof (cases "clip f")
      case None
      then have "span f \<inter> span bnd = {}" by (auto simp: clip_def span_def Let_def split: if_splits)
      then show ?thesis using IH None by (auto simp: map_filter_simps)
    next
      case (Some q)
      then have q: "span q = span f \<inter> span bnd" "fst q < snd q" "snd q \<le> snd f" "fst f \<le> fst q"
        by (auto simp: clip_def span_def Let_def split: if_splits)
      then have "\<forall>r\<in>set (List.map_filter clip fs). snd q < fst r" using above by fastforce
      then show ?thesis using IH Some q by (auto simp: map_filter_simps)
    qed
  qed
  have "free_ranges bnd m = List.map_filter clip (free m)"
    by (simp add: free_ranges_def clip_def [abs_def])
  then show "canonical (free m) \<Longrightarrow> ?thesis" using * by simp
qed

text \<open>The addresses \<open>next_free\<close> may return, over a list of ranges.\<close>

definition aligned_from :: "nat \<Rightarrow> nat \<Rightarrow> range list \<Rightarrow> nat set" where
  "aligned_from start algn rs = {y \<in> covered rs. start \<le> y \<and> algn dvd y}"

lemma next_free_search:
  assumes "canonical rs" and "0 < algn" and "start < 2 ^ 32" and "\<forall>r\<in>set rs. snd r < 2 ^ 32"
  shows "case find_map (\<lambda>(free_start, free_end).
           case align_up (max free_start start) algn name of
             Inl e \<Rightarrow> None
           | Inr address \<Rightarrow> if address < free_end then Some address else None) rs of
           None \<Rightarrow> aligned_from start algn rs = {}
         | Some x \<Rightarrow> x \<in> aligned_from start algn rs \<and> (\<forall>y\<in>aligned_from start algn rs. x \<le> y)"
  using assms(1,4)
proof (induction rs)
  case Nil then show ?case by (simp add: aligned_from_def)
next
  case (Cons r rs)
  let ?c = "checked_next_multiple_of 32 (max (fst r) start) algn"
  have low: "snd r \<le> y" if "y \<in> covered rs" for y
    using that Cons.prems(1) by (fastforce simp: covered_def span_def)
  show ?case
  proof (cases "\<exists>x. ?c = Some x \<and> x < snd r")
    case True
    then obtain x where x: "?c = Some x" "x < snd r" by blast
    have "max (fst r) start \<le> x" "algn dvd x" using checked_next_multiple_of_Some [OF x(1)] by auto
    then have "x \<in> aligned_from start algn (r # rs)" using x(2) by (auto simp: aligned_from_def span_def)
    moreover have "x \<le> y" if "y \<in> aligned_from start algn (r # rs)" for y
    proof (cases "y \<in> span r")
      case True
      then show ?thesis using that
        by (intro checked_next_multiple_of_least [OF x(1)]) (auto simp: aligned_from_def span_def)
    next
      case False
      then show ?thesis using that low [of y] x(2) by (auto simp: aligned_from_def)
    qed
    ultimately show ?thesis using x by (simp add: align_up_def split_beta)
  next
    case False
    have none: "y \<notin> span r" if y: "start \<le> y" "algn dvd y" for y
    proof
      assume yr: "y \<in> span r"
      show False
      proof (cases ?c)
        case None
        have "max (fst r) start < 2 ^ 32" using Cons.prems assms(3) by auto
        then have "2 ^ 32 \<le> y"
          using checked_next_multiple_of_None [OF None assms(2) y(2)] yr y(1) by (simp add: span_def)
        then show False using yr Cons.prems(2) by (auto simp: span_def)
      next
        case (Some x)
        then have "x \<le> y"
          by (rule checked_next_multiple_of_least) (use yr y in \<open>auto simp: span_def\<close>)
        then show False using False Some yr by (auto simp: span_def)
      qed
    qed
    then have eq: "aligned_from start algn (r # rs) = aligned_from start algn rs"
      by (auto simp: aligned_from_def)
    have "(case align_up (max (fst r) start) algn name of
             Inl e \<Rightarrow> None | Inr address \<Rightarrow> if address < snd r then Some address else None) = None"
      using False by (cases ?c) (auto simp: align_up_def)
    then show ?thesis unfolding eq using Cons by (simp add: split_beta)
  qed
qed

lemma uncovered_loop_complement:
  "sorted_wrt (\<lambda>p q. fst p \<le> fst q) occ \<Longrightarrow> (\<forall>p\<in>set occ. fst p < snd p) \<Longrightarrow>
   canonical (uncovered_loop cursor end occ)
   \<and> covered (uncovered_loop cursor end occ) = {cursor..<end} - covered occ
   \<and> (\<forall>r\<in>set (uncovered_loop cursor end occ). cursor \<le> fst r)"
proof (induction cursor "end" occ rule: uncovered_loop.induct)
  case (1 cursor "end") then show ?case by (auto simp: span_def)
next
  case (2 cursor "end" a b rest)
  show ?case
  proof (cases "a \<ge> end")
    case True
    then have "covered ((a, b) # rest) \<inter> {cursor..<end} = {}"
      using 2(3) by (fastforce simp: covered_def span_def)
    then show ?thesis using True by (auto simp: span_def)
  next
    case a: False
    show ?thesis
    proof (cases "b \<le> cursor")
      case True
      then have "{cursor..<end} - covered ((a, b) # rest) = {cursor..<end} - covered rest"
        by (auto simp: span_def)
      then show ?thesis using 2(1) [OF a True] 2(3,4) a True by simp
    next
      case b: False
      let ?u = "uncovered_loop (max cursor b) end rest"
      have IH: "canonical ?u" "covered ?u = {max cursor b..<end} - covered rest" "\<forall>r\<in>set ?u. max cursor b \<le> fst r"
        using 2(2) [OF a b] 2(3,4) by simp_all
      have "x \<notin> covered rest" if "x < a" for x
        using that 2(3) by (fastforce simp: covered_def span_def)
      then have "{cursor..<end} - covered ((a, b) # rest)
          = {x. cursor \<le> x \<and> x < a} \<union> ({max cursor b..<end} - covered rest)"
        using a b by (auto simp: span_def)
      moreover have "covered (if cursor < a then [(cursor, a)] else []) = {x. cursor \<le> x \<and> x < a}"
        by (auto simp: span_def)
      ultimately show ?thesis using IH a b 2(4) by (fastforce simp: covered_simps(3))
    qed
  qed
qed

text \<open>Merging keeps the accumulated list canonical while the input starts do not decrease.\<close>

lemma merge_step_canonical:
  assumes "canonical merged" and "fst r < snd r" and "\<forall>q\<in>set merged. fst q \<le> fst r"
  shows "canonical (merge_step merged r)" and "covered (merge_step merged r) = covered merged \<union> span r"
    and "\<forall>q\<in>set (merge_step merged r). fst q \<le> fst r"
proof -
  have "canonical (merge_step merged r) \<and> covered (merge_step merged r) = covered merged \<union> span r
      \<and> (\<forall>q\<in>set (merge_step merged r). fst q \<le> fst r)"
  proof (cases merged rule: rev_cases)
    case Nil then show ?thesis using assms(2) by (auto simp: merge_step_def split_beta)
  next
    case (snoc us l)
    show ?thesis
    proof (cases "fst r \<le> snd l")
      case True
      have "span (fst l, max (snd l) (snd r)) = span l \<union> span r"
        using True assms(3) snoc by (auto simp: span_def)
      moreover have "merge_step merged r = us @ [(fst l, max (snd l) (snd r))]"
        using True snoc by (simp add: merge_step_def split_beta)
      ultimately show ?thesis using assms snoc by auto
    next
      case False
      then have m: "merge_step merged r = merged @ [r]" using snoc by (simp add: merge_step_def split_beta)
      have "snd q < fst r" if "q \<in> set merged" for q
      proof (cases "q = l")
        case True then show ?thesis using False by simp
      next
        case False
        then have "snd q < fst l" "fst l < snd l" using that assms(1) snoc by auto
        then show ?thesis using \<open>\<not> fst r \<le> snd l\<close> by simp
      qed
      then show ?thesis using assms m by auto
    qed
  qed
  then show "canonical (merge_step merged r)" "covered (merge_step merged r) = covered merged \<union> span r"
    "\<forall>q\<in>set (merge_step merged r). fst q \<le> fst r" by auto
qed

lemma merge_foldl:
  "canonical merged \<Longrightarrow> sorted rs \<Longrightarrow> (\<forall>r\<in>set rs. fst r < snd r) \<Longrightarrow>
   (\<forall>q\<in>set merged. \<forall>r\<in>set rs. fst q \<le> fst r) \<Longrightarrow>
   canonical (foldl merge_step merged rs)
   \<and> covered (foldl merge_step merged rs) = covered merged \<union> covered rs"
proof (induction rs arbitrary: merged)
  case Nil then show ?case by simp
next
  case (Cons r rs)
  have pre: "fst r < snd r" "\<forall>q\<in>set merged. fst q \<le> fst r" using Cons.prems by auto
  note st = merge_step_canonical [OF Cons.prems(1) pre]
  have "fst r \<le> fst p" if "p \<in> set rs" for p
    using that Cons.prems(2) by (auto simp: less_eq_prod_def)
  then have "\<forall>q\<in>set (merge_step merged r). \<forall>p\<in>set rs. fst q \<le> fst p"
    using st(3) by (meson order_trans)
  then show ?case using Cons.IH [OF st(1)] Cons.prems st(2) by (auto simp: Un_assoc)
qed

lemma merge_ranges_union:
  "(\<forall>r\<in>set rs. fst r < snd r) \<Longrightarrow> canonical (merge_ranges rs) \<and> covered (merge_ranges rs) = covered rs"
  using merge_foldl [of "[]" "sort rs"] by (simp add: merge_ranges_def covered_def)

subsection \<open>Properties\<close>

text \<open>
  C8: After any sequence of reservations and allocations, successful or not, the free list of a
  tile is the list of its maximal free ranges, the reservations are pairwise disjoint, and free
  and reserved bytes together are exactly the tile's SRAM; every payload lies in its reservation.
\<close>

theorem tile_memory_partition:
  assumes "list_all memory_op_u32 ops"
  shows "memory_ok tgt (run_ops memory_exec ops (memory_new tgt))"
  using assms by (rule tile_memory_system.run_inv)

lemma tile_memory_partition_witness:
  "memory_ok Ipu21 (run_ops memory_exec
     [Reserve ''exchange'' (0x50000, 0x58000),
      Allocate \<lparr>request_name = ''code'', request_bytes = 100, alignment = 16,
                bounds = (0x4c000, 0x80000), end_alignment = 0x4000, guard_after = 64\<rparr>,
      Reserve ''clash'' (0x50000, 0x50010)] (memory_new Ipu21))"
  by (rule tile_memory_partition) simp

text \<open>
  C10: A fixed reservation succeeds exactly when the range is not empty and all its bytes are free,
  whatever the fragmentation; it then removes exactly those bytes from the free set.
\<close>

theorem reserve_exact:
  assumes "memory_ok tgt m"
  shows "case reserve name r m of
           Inr m' \<Rightarrow> fst r < snd r \<and> span r \<subseteq> covered (free m) \<and> covered (free m') = covered (free m) - span r
         | Inl err \<Rightarrow> err = (if snd r \<le> fst r then Invalid name else Overlap name (fst r) (snd r))
                       \<and> \<not> (fst r < snd r \<and> span r \<subseteq> covered (free m))"
proof (cases "reserve name r m")
  case (Inl err)
  then have "err = (if snd r \<le> fst r then Invalid name else Overlap name (fst r) (snd r))"
    by (auto simp: reserve_def Let_def split: if_splits option.splits)
  then show ?thesis
    using Inl reserve_succeeds_iff [of m name r] assms by (auto simp: memory_ok_def)
next
  case (Inr m')
  have "canonical (free m)" using assms by (simp add: memory_ok_def)
  then show ?thesis
    using Inr reserve_free [OF Inr] reserve_succeeds_iff [of m name r] by simp
qed

lemma reserve_exact_witness:
  "case reserve ''a'' (0x50000, 0x50010) (memory_new Ipu21) of
           Inr m' \<Rightarrow> (0x50000::nat) < 0x50010 \<and> span (0x50000, 0x50010) \<subseteq> covered (free (memory_new Ipu21))
              \<and> covered (free m') = covered (free (memory_new Ipu21)) - span (0x50000, 0x50010)
         | Inl err \<Rightarrow> False"
  using reserve_exact [OF memory_new_ok [of Ipu21], where name = "''a''" and r = "(0x50000, 0x50010)"]
  by (simp add: reserve_def memory_new_def memory_constants)

text \<open>
  C9: Aligned allocation is first fit, exact and complete: for a well-formed request it succeeds
  exactly when some aligned placement of payload, guard and end alignment lies in free bytes
  within the bounds, it then returns the lowest one, with a payload of exactly the requested
  size, and removes exactly the reserved bytes from the free set.
\<close>

theorem allocate_first_fit_exact:
  assumes "memory_ok tgt m" and "request_valid req"
  shows "case allocate req m of
           Inl err \<Rightarrow> (\<nexists>s e. placement req m s e)
         | Inr (a, m') \<Rightarrow> (\<exists>s e. placement req m s e
             \<and> allocation_range a = (s, s + request_bytes req) \<and> allocation_reserved a = (s, e)
             \<and> (\<forall>s' e'. placement req m s' e' \<longrightarrow> s \<le> s' \<and> e \<le> e')
             \<and> covered (free m') = covered (free m) - {s..<e} \<and> allocations m' = allocations m @ [a])"
proof -
  have c: "canonical (free m)" and b: "request_bytes req \<noteq> 0" and u: "fst (bounds req) < 2 ^ 32"
    using assms by (auto simp: memory_ok_def request_valid_def)
  note cases = allocate_cases [OF assms(1) u]
  show ?thesis
  proof (cases "allocate req m")
    case (Inl err) then show ?thesis using cases assms(2) by simp
  next
    case (Inr p)
    then obtain a m' s e where r: "allocate req m = Inr (a, m')" "lowest req (free m) s e" "allocated req s e m a m'"
      using cases by (cases p) auto
    have "placement req m s e" "\<forall>s' e'. placement req m s' e' \<longrightarrow> s \<le> s' \<and> e \<le> e'"
      using r(2) unfolding lowest_def placement_fits [OF c b] by blast+
    then show ?thesis using r allocated_free [OF c r(3)] by (auto simp: allocated_def)
  qed
qed

lemma allocate_first_fit_exact_witness:
  "\<exists>s e. s \<le> 0x4c000 \<and> placement \<lparr>request_name = ''code'', request_bytes = 100, alignment = 16,
     bounds = (0x4c000, 0x80000), end_alignment = 0x4000, guard_after = 64\<rparr> (memory_new Ipu21) s e"
proof -
  let ?req = "\<lparr>request_name = ''code'', request_bytes = 100, alignment = 16,
     bounds = (0x4c000, 0x80000), end_alignment = 0x4000, guard_after = 64\<rparr>"
  have p: "placement ?req (memory_new Ipu21) 0x4c000 0x50000"
    by (auto simp: placement_def memory_new_def memory_constants span_def)
  have v: "request_valid ?req" by (simp add: request_valid_def is_power_of_two.simps)
  show ?thesis
    using allocate_first_fit_exact [OF memory_new_ok [of Ipu21] v] p
    by (cases "allocate ?req (memory_new Ipu21)") auto
qed

text \<open>
  C11: \<open>next_free\<close> returns the lowest aligned address at or after the start that is free and
  within the bounds, and reports exhaustion exactly when there is none.
\<close>

theorem next_free_lowest:
  assumes "memory_ok tgt m" and "is_power_of_two algn" and "start < 2 ^ 32"
  shows "case next_free start bnd algn name m of
           Inr x \<Rightarrow> x \<in> covered (free m) \<inter> span bnd \<and> start \<le> x \<and> algn dvd x
             \<and> (\<forall>y \<in> covered (free m) \<inter> span bnd. start \<le> y \<and> algn dvd y \<longrightarrow> x \<le> y)
         | Inl err \<Rightarrow> err = OutOfMemory name 1
             \<and> (\<forall>y \<in> covered (free m) \<inter> span bnd. \<not> (start \<le> y \<and> algn dvd y))"
proof -
  have c: "canonical (free m)" using assms(1) by (simp add: memory_ok_def)
  note fr = free_ranges_canonical [OF c, of bnd]
  have "\<forall>r\<in>set (free_ranges bnd m). snd r < 2 ^ 32"
    using fr memory_ok_u32(2) [OF assms(1)] by (meson le_less_trans)
  from next_free_search [OF _ is_power_of_two_pos [OF assms(2)] assms(3) this, of name]
  show ?thesis using fr assms(2)
    by (simp add: next_free_def aligned_from_def ok_or_def Ball_def split: option.splits)
qed

lemma next_free_lowest_witness:
  "next_free 0x4c001 (0x4c000, 0x80000) 16 ''x'' (memory_new Ipu21) = Inr 0x4c010
   \<and> \<not> (\<exists>y. y \<in> covered (free (memory_new Ipu21)) \<inter> span (0x4c000, 0x80000) \<and> 0x4c001 \<le> y \<and> 16 dvd y \<and> y < 0x4c010)"
proof -
  have v: "next_free 0x4c001 (0x4c000, 0x80000) 16 ''x'' (memory_new Ipu21) = Inr 0x4c010"
    by (simp add: next_free_def free_ranges_def memory_new_def memory_constants is_power_of_two.simps
        map_filter_simps align_up_def checked_next_multiple_of_def checked_add_def Let_def)
  have "is_power_of_two 16" by (simp add: is_power_of_two.simps)
  then show ?thesis
    using next_free_lowest [OF memory_new_ok [of Ipu21], where algn = 16 and start = "0x4c001" and bnd = "(0x4c000, 0x80000)"
        and name = "''x''"] v by (auto simp: not_less [symmetric])
qed

text \<open>
  C12: Merging any list of nonempty ranges, with aliases and adjacent ranges, and complementing the
  result gives the maximal gaps of the window: exactly the addresses in no input range, in
  increasing order with no two adjacent.
\<close>

theorem uncovered_merged_ranges:
  assumes "\<forall>r\<in>set rs. fst r < snd r"
  shows "canonical (uncovered_ranges start end (merge_ranges rs))
       \<and> covered (uncovered_ranges start end (merge_ranges rs)) = {start..<end} - covered rs
       \<and> canonical (merge_ranges rs) \<and> covered (merge_ranges rs) = covered rs"
proof -
  note m = merge_ranges_union [OF assms]
  then have "sorted_wrt (\<lambda>p q. fst p \<le> fst q) (merge_ranges rs)"
    by (auto simp: canonical_def elim!: sorted_wrt_mono_rel [rotated] dest: order.strict_trans)
  then show ?thesis
    using m uncovered_loop_complement [of "merge_ranges rs" start "end"]
    by (simp add: uncovered_ranges_def canonical_def)
qed

lemma uncovered_merged_ranges_witness:
  "covered (uncovered_ranges 0 20 (merge_ranges [(8, 12), (2, 4), (4, 6)])) = {0..<20} - covered [(8, 12), (2, 4), (4, 6)]
   \<and> uncovered_ranges 0 20 (merge_ranges [(8, 12), (2, 4), (4, 6)]) = [(0, 2), (6, 8), (12, 20)]"
  using uncovered_merged_ranges [of "[(8, 12), (2, 4), (4, 6)]" 0 20]
  by (simp add: uncovered_ranges_def merge_ranges_def merge_step_def)

end
