(* ===== verification/Chunked.thy ===== *)
theory Chunked
  imports Prelude
begin

text \<open>
  \<open>Chunked\<close> (\<open>exchange/program/chunked.rs\<close>): a vector stored as chunks of 128 items, which
  the row encoder uses for timelines and encoded prefixes shared between speculative trials.

  A chunk is a list; the reference counting of \<open>Arc\<close> has no counterpart, since
  \<open>Arc::make_mut\<close> copies a shared chunk before writing, so a handle behaves as a value.
  Operations whose assertions or index accesses can panic return \<open>None\<close> for a panic.

  The refinement: \<open>items\<close> is the plain vector a chunked vector stands for, \<open>chunked_ok\<close> its
  invariant (every chunk full except possibly the last, none empty), and every operation
  computes the vector operation without panicking when its precondition holds. The locale
  \<open>sequence\<close> is the interface its clients rely on.
\<close>

definition CHUNK_ITEMS :: nat where "CHUNK_ITEMS = 128"

record 'a chunked =
  chunks :: "'a list list"
  len :: nat

definition empty_chunked :: "'a chunked" where
  "empty_chunked = \<lparr>chunks = [], len = 0\<rparr>"

subsection \<open>Operations\<close>

definition index_at :: "'a chunked \<Rightarrow> nat \<Rightarrow> 'a option" where
  "index_at c i =
     (case get (chunks c) (i div CHUNK_ITEMS) of
        None \<Rightarrow> None | Some values \<Rightarrow> get values (i mod CHUNK_ITEMS))"

text \<open>The outer option of \<open>lookup\<close> is the one the function returns.\<close>

definition lookup :: "'a chunked \<Rightarrow> nat \<Rightarrow> 'a option" where
  "lookup c i = (if i < len c then index_at c i else None)"

text \<open>\<open>last\<close> asks for \<open>len.wrapping_sub(1)\<close>, which for the empty vector is \<open>usize::MAX\<close> and
  out of range.\<close>

definition last_item :: "'a chunked \<Rightarrow> 'a option" where
  "last_item c = (if len c = 0 then None else lookup c (len c - 1))"

definition range_items :: "nat \<Rightarrow> nat \<Rightarrow> 'a chunked \<Rightarrow> 'a list option" where
  "range_items start end c =
     (if start \<le> end \<and> end \<le> len c then traverse_opt (index_at c) [start..<end] else None)"

definition slice :: "nat \<Rightarrow> nat \<Rightarrow> 'a chunked \<Rightarrow> 'a list option" where
  "slice start end c =
     (if \<not> (start \<le> end \<and> end \<le> len c) then None
      else if start = end then Some []
      else if start div CHUNK_ITEMS = (end - 1) div CHUNK_ITEMS then
        (case get (chunks c) (start div CHUNK_ITEMS) of
           None \<Rightarrow> None
         | Some values \<Rightarrow>
             (let s = start mod CHUNK_ITEMS; e = s + (end - start)
              in if e \<le> length values then Some (take (e - s) (drop s values)) else None))
      else range_items start end c)"

function partition_loop :: "('a \<Rightarrow> bool) \<Rightarrow> 'a chunked \<Rightarrow> nat \<Rightarrow> nat \<Rightarrow> nat option" where
  "partition_loop p c start end =
     (if start < end then
        (let middle = start + (end - start) div 2
         in case index_at c middle of
              None \<Rightarrow> None
            | Some x \<Rightarrow> if p x then partition_loop p c (middle + 1) end
                        else partition_loop p c start middle)
      else Some start)"
  by pat_completeness auto
termination by (relation "measure (\<lambda>(p, c, start, end). end - start)") auto

declare partition_loop.simps [simp del]

definition partition_point :: "('a \<Rightarrow> bool) \<Rightarrow> 'a chunked \<Rightarrow> nat option" where
  "partition_point p c = partition_loop p c 0 (len c)"

definition push :: "'a \<Rightarrow> 'a chunked \<Rightarrow> 'a chunked option" where
  "push x c =
     (let cs = (if is_multiple_of (len c) CHUNK_ITEMS then chunks c @ [[]] else chunks c)
      in if cs = [] then None
         else Some \<lparr>chunks = butlast cs @ [last cs @ [x]], len = len c + 1\<rparr>)"

function insert_loop :: "nat \<Rightarrow> nat \<Rightarrow> 'a \<Rightarrow> 'a list list \<Rightarrow> 'a list list option" where
  "insert_loop chunk offset x cs =
     (let cs = (if chunk = length cs then cs @ [[]] else cs)
      in case get cs chunk of
           None \<Rightarrow> None
         | Some values \<Rightarrow>
             if length values < offset then None
             else (let values = list_insert offset x values
                   in if length values \<le> CHUNK_ITEMS then Some (cs[chunk := values])
                      else insert_loop (chunk + 1) 0 (last values) (cs[chunk := butlast values])))"
  by pat_completeness auto
termination
  by (relation "measure (\<lambda>(chunk, offset, x, cs). length cs - chunk)")
    (auto simp: CHUNK_ITEMS_def list_insert_def split: if_splits)

declare insert_loop.simps [simp del]

definition insert_at :: "nat \<Rightarrow> 'a \<Rightarrow> 'a chunked \<Rightarrow> 'a chunked option" where
  "insert_at i x c =
     (if \<not> i \<le> len c then None
      else if i = len c then push x c
      else (case insert_loop (i div CHUNK_ITEMS) (i mod CHUNK_ITEMS) x (chunks c) of
              None \<Rightarrow> None
            | Some cs \<Rightarrow> Some \<lparr>chunks = cs, len = len c + 1\<rparr>))"

text \<open>The loop that moves the first item of each following chunk to the end of the one before.\<close>

fun shift_loop :: "nat list \<Rightarrow> 'a list list \<Rightarrow> 'a list list option" where
  "shift_loop [] cs = Some cs"
| "shift_loop (k # ks) cs =
     (case get cs k of
        Some (x # rest) \<Rightarrow>
          shift_loop ks ((cs[k := rest])[k - 1 := cs ! (k - 1) @ [x]])
      | _ \<Rightarrow> None)"

definition remove_at :: "nat \<Rightarrow> 'a chunked \<Rightarrow> 'a chunked option" where
  "remove_at i c =
     (if \<not> i < len c then None
      else let chunk = i div CHUNK_ITEMS
           in case get (chunks c) chunk of
                None \<Rightarrow> None
              | Some values \<Rightarrow>
                  if length values \<le> i mod CHUNK_ITEMS then None
                  else (case shift_loop [chunk + 1..<length (chunks c)]
                               ((chunks c)[chunk := list_remove (i mod CHUNK_ITEMS) values]) of
                          None \<Rightarrow> None
                        | Some cs \<Rightarrow>
                            (let l = len c - 1
                             in Some \<lparr>chunks = if is_multiple_of l CHUNK_ITEMS then butlast cs else cs,
                                      len = l\<rparr>)))"

definition to_vec :: "'a chunked \<Rightarrow> 'a list" where
  "to_vec c = concat (chunks c)"

definition truncate :: "nat \<Rightarrow> 'a chunked \<Rightarrow> 'a chunked option" where
  "truncate l c =
     (if \<not> l \<le> len c then None
      else let cs = take (div_ceil l CHUNK_ITEMS) (chunks c)
           in if is_multiple_of l CHUNK_ITEMS then Some \<lparr>chunks = cs, len = l\<rparr>
              else if cs = [] then None
              else Some \<lparr>chunks = butlast cs @ [take (l mod CHUNK_ITEMS) (last cs)], len = l\<rparr>)"

fun extend :: "'a list \<Rightarrow> 'a chunked \<Rightarrow> 'a chunked option" where
  "extend [] c = Some c"
| "extend (x # xs) c = (case push x c of None \<Rightarrow> None | Some c' \<Rightarrow> extend xs c')"

definition chunked_eq :: "'a chunked \<Rightarrow> 'a chunked \<Rightarrow> bool" where
  "chunked_eq a b \<longleftrightarrow> len a = len b \<and> concat (chunks a) = concat (chunks b)"

subsection \<open>The invariant\<close>

fun full_chunks :: "'a list list \<Rightarrow> bool" where
  "full_chunks [] = True"
| "full_chunks (c # cs) =
     (0 < length c \<and> length c \<le> CHUNK_ITEMS \<and> (cs \<noteq> [] \<longrightarrow> length c = CHUNK_ITEMS) \<and> full_chunks cs)"

definition items :: "'a chunked \<Rightarrow> 'a list" where
  "items c = concat (chunks c)"

definition chunked_ok :: "'a chunked \<Rightarrow> bool" where
  "chunked_ok c \<longleftrightarrow> full_chunks (chunks c) \<and> len c = length (items c)"

lemma chunk_items_pos [simp]: "0 < CHUNK_ITEMS" "CHUNK_ITEMS \<noteq> 0"
  by (simp_all add: CHUNK_ITEMS_def)

lemma chunked_okD: "chunked_ok c \<Longrightarrow> full_chunks (chunks c)" "chunked_ok c \<Longrightarrow> len c = length (items c)"
  by (simp_all add: chunked_ok_def)

lemma full_chunks_append:
  "ys \<noteq> [] \<Longrightarrow> full_chunks (xs @ ys) \<longleftrightarrow> (\<forall>c\<in>set xs. length c = CHUNK_ITEMS) \<and> full_chunks ys"
  by (induction xs) auto

lemma full_chunks_full: "(\<forall>c\<in>set xs. length c = CHUNK_ITEMS) \<Longrightarrow> full_chunks xs"
  by (induction xs) auto

lemma full_chunks_snoc:
  "full_chunks (xs @ [y]) \<longleftrightarrow> (\<forall>c\<in>set xs. length c = CHUNK_ITEMS) \<and> 0 < length y \<and> length y \<le> CHUNK_ITEMS"
  by (simp add: full_chunks_append)

lemma length_concat_full: "(\<forall>c\<in>set xs. length c = CHUNK_ITEMS) \<Longrightarrow> length (concat xs) = length xs * CHUNK_ITEMS"
  by (induction xs) auto

text \<open>Splitting at a chunk boundary.\<close>

lemma full_chunks_take:
  "full_chunks cs \<Longrightarrow> k * CHUNK_ITEMS \<le> length (concat cs) \<Longrightarrow>
   k \<le> length cs \<and> (\<forall>c\<in>set (take k cs). length c = CHUNK_ITEMS) \<and> concat (take k cs) = take (k * CHUNK_ITEMS) (concat cs)"
proof (induction cs arbitrary: k)
  case Nil then show ?case by simp
next
  case (Cons c cs)
  show ?case
  proof (cases k)
    case 0 then show ?thesis by simp
  next
    case (Suc j)
    have c: "length c = CHUNK_ITEMS"
    proof (cases "cs = []")
      case True
      then have "Suc j * CHUNK_ITEMS \<le> length c" using Cons.prems(2) Suc by simp
      then show ?thesis using Cons.prems(1) by (simp add: le_antisym)
    next
      case False then show ?thesis using Cons.prems(1) by simp
    qed
    then have "j * CHUNK_ITEMS \<le> length (concat cs)" using Cons.prems(2) Suc by simp
    then have IH: "j \<le> length cs" "\<forall>c\<in>set (take j cs). length c = CHUNK_ITEMS"
      "concat (take j cs) = take (j * CHUNK_ITEMS) (concat cs)"
      using Cons.IH [of j] Cons.prems(1) by auto
    show ?thesis using IH(1,2) c by (simp add: Suc IH(3))
  qed
qed

lemma full_chunks_drop: "full_chunks cs \<Longrightarrow> full_chunks (drop k cs)"
  by (induction cs arbitrary: k) (auto simp: drop_Cons split: nat.split)

lemma full_chunks_split:
  assumes "full_chunks cs" and "i < length (concat cs)"
  defines "k \<equiv> i div CHUNK_ITEMS"
  obtains pre vs post where "cs = pre @ vs # post" and "length pre = k"
    and "\<forall>c\<in>set pre. length c = CHUNK_ITEMS" and "full_chunks (vs # post)"
    and "i mod CHUNK_ITEMS < length vs" and "length (concat pre) = k * CHUNK_ITEMS"
proof -
  have ki: "k * CHUNK_ITEMS \<le> i" by (simp add: k_def)
  then have t: "k \<le> length cs" "\<forall>c\<in>set (take k cs). length c = CHUNK_ITEMS"
    "concat (take k cs) = take (k * CHUNK_ITEMS) (concat cs)"
    using full_chunks_take [OF assms(1), of k] assms(2) by auto
  have lt: "length (concat (take k cs)) = k * CHUNK_ITEMS" using length_concat_full [OF t(2)] t(1) by simp
  have d: "i - k * CHUNK_ITEMS < length (concat (drop k cs))"
    using assms(2) lt ki by (metis append_take_drop_id concat_append length_append less_diff_conv2 add.commute)
  then obtain vs post where vp: "drop k cs = vs # post" by (cases "drop k cs") auto
  have f: "full_chunks (vs # post)" using full_chunks_drop [OF assms(1), of k] vp by simp
  have m: "i mod CHUNK_ITEMS = i - k * CHUNK_ITEMS" by (simp add: k_def minus_div_mult_eq_mod)
  have "i mod CHUNK_ITEMS < length vs"
  proof (cases "post = []")
    case True then show ?thesis using d m vp by simp
  next
    case False then show ?thesis using f by (simp add: mod_less_divisor)
  qed
  moreover have "cs = take k cs @ vs # post" unfolding vp [symmetric] by (rule append_take_drop_id [symmetric])
  moreover have "length (take k cs) = k" using t(1) by simp
  ultimately show ?thesis using t(2) f lt by (intro that)
qed

subsection \<open>Reading\<close>

lemma index_at_items:
  assumes "chunked_ok c" and "i < length (items c)"
  shows "index_at c i = Some (items c ! i)"
proof -
  obtain pre vs post where s: "chunks c = pre @ vs # post" "length pre = i div CHUNK_ITEMS"
    "i mod CHUNK_ITEMS < length vs" "length (concat pre) = i div CHUNK_ITEMS * CHUNK_ITEMS"
    using full_chunks_split [OF chunked_okD(1) [OF assms(1)], of i] assms(2) unfolding items_def by metis
  have "items c ! i = concat (vs # post) ! (i - i div CHUNK_ITEMS * CHUNK_ITEMS)"
    using leD [OF div_times_less_eq_dividend [of i CHUNK_ITEMS]]
    by (simp only: items_def s(1,4) concat_append nth_append if_False)
  also have "i - i div CHUNK_ITEMS * CHUNK_ITEMS = i mod CHUNK_ITEMS" by (simp add: minus_div_mult_eq_mod)
  finally show ?thesis using s by (simp add: index_at_def get_def nth_append)
qed

lemma lookup_items: "chunked_ok c \<Longrightarrow> lookup c i = get (items c) i"
  by (simp add: lookup_def get_def index_at_items chunked_okD(2))

lemma last_item_items: "chunked_ok c \<Longrightarrow> last_item c = (if items c = [] then None else Some (last (items c)))"
  by (auto simp: last_item_def lookup_items chunked_okD(2) get_def last_conv_nth)

lemma range_items_items:
  assumes "chunked_ok c" and "start \<le> end" and "end \<le> len c"
  shows "range_items start end c = Some (take (end - start) (drop start (items c)))"
proof -
  have l: "end \<le> length (items c)" using assms by (simp add: chunked_okD(2))
  have "map (index_at c) [start..<end] = map Some (take (end - start) (drop start (items c)))"
    using assms(2) l by (intro nth_equalityI) (simp_all add: index_at_items [OF assms(1)])
  then show ?thesis using assms by (simp add: range_items_def traverse_opt_Some)
qed

lemma slice_items:
  assumes "chunked_ok c" and "start \<le> end" and "end \<le> len c"
  shows "slice start end c = Some (take (end - start) (drop start (items c)))"
proof (cases "start < end \<and> start div CHUNK_ITEMS = (end - 1) div CHUNK_ITEMS")
  case False
  then show ?thesis using range_items_items [OF assms] assms by (auto simp: slice_def)
next
  case True
  have l: "end \<le> length (items c)" using assms by (simp add: chunked_okD(2))
  have e: "end - 1 < length (concat (chunks c))" using True l by (simp only: items_def) linarith
  obtain pre vs post where s: "chunks c = pre @ vs # post" "length pre = start div CHUNK_ITEMS"
    "(end - 1) mod CHUNK_ITEMS < length vs" "length (concat pre) = start div CHUNK_ITEMS * CHUNK_ITEMS"
    using full_chunks_split [OF chunked_okD(1) [OF assms(1)] e] True by metis
  have "start = start div CHUNK_ITEMS * CHUNK_ITEMS + start mod CHUNK_ITEMS"
    "end - 1 = start div CHUNK_ITEMS * CHUNK_ITEMS + (end - 1) mod CHUNK_ITEMS"
    using div_mult_mod_eq [of start CHUNK_ITEMS] div_mult_mod_eq [of "end - 1" CHUNK_ITEMS] True by auto
  then have m: "start mod CHUNK_ITEMS + (end - start) \<le> length vs"
    "start - length (concat pre) = start mod CHUNK_ITEMS" "length (concat pre) \<le> start"
    using s(3,4) True by linarith+
  have "drop start (items c) = drop (start mod CHUNK_ITEMS) vs @ concat post"
    using s m by (simp add: items_def)
  then show ?thesis
    using True assms s m by (auto simp: slice_def get_def nth_append Let_def)
qed

lemma takeWhile_partition:
  assumes "\<forall>i j. i < j \<and> j < length xs \<and> p (xs ! j) \<longrightarrow> p (xs ! i)"
  shows "n < length xs \<Longrightarrow> p (xs ! n) \<longleftrightarrow> n < length (takeWhile p xs)"
proof
  assume n: "n < length xs" "p (xs ! n)"
  show "n < length (takeWhile p xs)"
  proof (rule ccontr)
    assume c: "\<not> n < length (takeWhile p xs)"
    let ?m = "length (takeWhile p xs)"
    have "?m < length xs" "\<not> p (xs ! ?m)" using n c nth_length_takeWhile [of p xs] by auto
    then show False using assms n c by (metis le_neq_implies_less not_less)
  qed
next
  assume "n < length (takeWhile p xs)"
  then show "p (xs ! n)" by (metis nth_mem set_takeWhileD takeWhile_nth)
qed

text \<open>The binary search finds the boundary of a partitioned sequence.\<close>

lemma partition_loop_result:
  assumes "chunked_ok c" and "\<forall>i j. i < j \<and> j < length (items c) \<and> p (items c ! j) \<longrightarrow> p (items c ! i)"
  shows "start \<le> length (takeWhile p (items c)) \<Longrightarrow> length (takeWhile p (items c)) \<le> end \<Longrightarrow> end \<le> length (items c) \<Longrightarrow>
         partition_loop p c start end = Some (length (takeWhile p (items c)))"
proof (induction "end - start" arbitrary: start "end" rule: less_induct)
  case less
  show ?case
  proof (cases "start < end")
    case False then show ?thesis using less.prems by (subst partition_loop.simps) simp
  next
    case True
    define middle where "middle = start + (end - start) div 2"
    have m: "start \<le> middle" "middle < end" using True by (auto simp: middle_def)
    then have i: "index_at c middle = Some (items c ! middle)"
      and b: "p (items c ! middle) \<longleftrightarrow> middle < length (takeWhile p (items c))"
      using less.prems(3) index_at_items [OF assms(1)] takeWhile_partition [OF assms(2)] by auto
    show ?thesis
    proof (cases "p (items c ! middle)")
      case True
      then have "partition_loop p c (middle + 1) end = Some (length (takeWhile p (items c)))"
        using less.prems b m by (intro less.hyps) auto
      then show ?thesis
        using i True \<open>start < end\<close> by (subst partition_loop.simps) (simp add: Let_def middle_def)
    next
      case False
      then have "partition_loop p c start middle = Some (length (takeWhile p (items c)))"
        using less.prems b m by (intro less.hyps) auto
      then show ?thesis
        using i False \<open>start < end\<close> by (subst partition_loop.simps) (simp add: Let_def middle_def)
    qed
  qed
qed

lemma partition_point_items:
  assumes "chunked_ok c" and "\<forall>i j. i < j \<and> j < length (items c) \<and> p (items c ! j) \<longrightarrow> p (items c ! i)"
  shows "partition_point p c = Some (length (takeWhile p (items c)))"
  using partition_loop_result [OF assms, of 0 "len c"] length_takeWhile_le [of p "items c"]
  by (simp add: partition_point_def chunked_okD(2) [OF assms(1)])

lemma to_vec_items: "to_vec c = items c"
  by (simp add: to_vec_def items_def)

subsection \<open>Writing\<close>

lemma full_chunks_multiple:
  "full_chunks cs \<Longrightarrow> CHUNK_ITEMS dvd length (concat cs) \<longleftrightarrow> (\<forall>c\<in>set cs. length c = CHUNK_ITEMS)"
proof (induction cs)
  case Nil then show ?case by simp
next
  case (Cons c cs)
  show ?case
  proof (cases "cs = []")
    case True
    then show ?thesis using Cons.prems by (auto dest: nat_dvd_not_less simp: le_less)
  next
    case False
    then have "length c = CHUNK_ITEMS" "full_chunks cs" using Cons.prems by auto
    then show ?thesis using Cons.IH by (simp add: dvd_add_right_iff)
  qed
qed

lemma full_chunks_last:
  assumes "full_chunks cs" and "\<not> CHUNK_ITEMS dvd length (concat cs)"
  obtains us l where "cs = us @ [l]" and "\<forall>c\<in>set us. length c = CHUNK_ITEMS" and "length l < CHUNK_ITEMS" and "0 < length l"
proof -
  have "cs \<noteq> []" using assms(2) by auto
  then obtain us l where c: "cs = us @ [l]" by (metis rev_exhaust)
  then have f: "\<forall>c\<in>set us. length c = CHUNK_ITEMS" "0 < length l" "length l \<le> CHUNK_ITEMS"
    using assms(1) by (auto simp: full_chunks_snoc)
  have "length l \<noteq> CHUNK_ITEMS"
    using assms(2) full_chunks_multiple [OF assms(1)] c f(1) by auto
  then show ?thesis using that [of us l] c f by simp
qed

lemma push_items:
  assumes "chunked_ok c"
  shows "\<exists>c'. push x c = Some c' \<and> chunked_ok c' \<and> items c' = items c @ [x]"
proof (cases "CHUNK_ITEMS dvd len c")
  case True
  then have "\<forall>q\<in>set (chunks c). length q = CHUNK_ITEMS"
    using assms full_chunks_multiple by (auto simp: chunked_ok_def items_def)
  then show ?thesis using True assms
    by (auto simp: push_def is_multiple_of_dvd Let_def chunked_ok_def items_def full_chunks_snoc Suc_leI)
next
  case False
  then obtain us l where "chunks c = us @ [l]" "\<forall>q\<in>set us. length q = CHUNK_ITEMS" "length l < CHUNK_ITEMS"
    using assms full_chunks_last [of "chunks c"] unfolding chunked_ok_def items_def by metis
  then show ?thesis using False assms
    by (auto simp: push_def is_multiple_of_dvd Let_def chunked_ok_def items_def full_chunks_snoc)
qed

text \<open>The insertion loop, as a function on the chunks from the insertion point on.\<close>

fun ripple :: "nat \<Rightarrow> 'a \<Rightarrow> 'a list list \<Rightarrow> 'a list list" where
  "ripple offset x [] = [[x]]"
| "ripple offset x (c # cs) =
     (let w = list_insert offset x c
      in if length w \<le> CHUNK_ITEMS then w # cs else butlast w # ripple 0 (last w) cs)"

lemma insert_loop_ripple:
  "full_chunks suf \<Longrightarrow> (case suf of [] \<Rightarrow> offset = 0 | c # cs \<Rightarrow> offset \<le> length c) \<Longrightarrow>
   insert_loop (length pre) offset x (pre @ suf) = Some (pre @ ripple offset x suf)"
proof (induction suf arbitrary: pre offset x)
  case Nil
  then show ?case
    by (subst insert_loop.simps) (simp add: get_def list_insert_def Let_def CHUNK_ITEMS_def)
next
  case (Cons c cs)
  let ?w = "list_insert offset x c"
  show ?case
  proof (cases "length ?w \<le> CHUNK_ITEMS")
    case True
    then show ?thesis using Cons.prems
      by (subst insert_loop.simps) (simp add: get_def Let_def not_less)
  next
    case False
    have "insert_loop (length (pre @ [butlast ?w])) 0 (last ?w) ((pre @ [butlast ?w]) @ cs)
        = Some ((pre @ [butlast ?w]) @ ripple 0 (last ?w) cs)"
      using Cons.prems(1) by (intro Cons.IH) (auto split: list.split)
    then show ?thesis using False Cons.prems
      by (subst insert_loop.simps) (simp add: get_def Let_def not_less del: insert_loop.simps)
  qed
qed

lemma list_insert_append: "i \<le> length ys \<Longrightarrow> list_insert (length xs + i) x (xs @ ys) = xs @ list_insert i x ys"
  by (simp add: list_insert_def)

lemma list_insert_prefix: "i \<le> length xs \<Longrightarrow> list_insert i x (xs @ ys) = list_insert i x xs @ ys"
  by (simp add: list_insert_def)

lemma ripple_full:
  "full_chunks cs \<Longrightarrow> (case cs of [] \<Rightarrow> offset = 0 | c # _ \<Rightarrow> offset \<le> length c) \<Longrightarrow>
   full_chunks (ripple offset x cs) \<and> concat (ripple offset x cs) = list_insert offset x (concat cs)
   \<and> ripple offset x cs \<noteq> []"
proof (induction cs arbitrary: offset x)
  case Nil then show ?case by (simp add: list_insert_def CHUNK_ITEMS_def)
next
  case (Cons c cs)
  let ?w = "list_insert offset x c"
  have lw: "length ?w = Suc (length c)" using Cons.prems(2) by simp
  have cc: "concat (c # cs) = c @ concat cs" "offset \<le> length c" using Cons.prems(2) by simp_all
  show ?case
  proof (cases "length ?w \<le> CHUNK_ITEMS")
    case True
    then have "cs = []" using Cons.prems(1) lw by auto
    then show ?thesis using True lw cc by (simp add: Let_def)
  next
    case False
    then have "length c = CHUNK_ITEMS" using Cons.prems(1) lw by auto
    moreover have IH: "full_chunks (ripple 0 (last ?w) cs)" "ripple 0 (last ?w) cs \<noteq> []"
      "concat (ripple 0 (last ?w) cs) = list_insert 0 (last ?w) (concat cs)"
      using Cons.IH [of 0 "last ?w"] Cons.prems(1) by (auto split: list.splits)
    moreover have "butlast ?w @ last ?w # concat cs = ?w @ concat cs"
      using lw by (metis append.assoc append_Cons append_Nil append_butlast_last_id list.size(3) nat.distinct(1))
    ultimately show ?thesis using False lw cc by (simp add: Let_def list_insert_prefix) (simp add: list_insert_def)
  qed
qed

lemma insert_at_items:
  assumes "chunked_ok c" and "i \<le> len c"
  shows "\<exists>c'. insert_at i x c = Some c' \<and> chunked_ok c' \<and> items c' = list_insert i x (items c)"
proof (cases "i = len c")
  case True
  then show ?thesis using push_items [OF assms(1), of x] chunked_okD(2) [OF assms(1)]
    by (auto simp: insert_at_def list_insert_def)
next
  case False
  let ?k = "i div CHUNK_ITEMS" and ?o = "i mod CHUNK_ITEMS"
  have "i < length (concat (chunks c))"
    using False assms by (simp add: chunked_ok_def items_def)
  from full_chunks_split [OF chunked_okD(1) [OF assms(1)] this]
  obtain pre vs post where s: "chunks c = pre @ vs # post" "length pre = ?k"
    "\<forall>c\<in>set pre. length c = CHUNK_ITEMS" "full_chunks (vs # post)" "?o < length vs"
    "length (concat pre) = ?k * CHUNK_ITEMS" by metis
  have loop: "insert_loop ?k ?o x (chunks c) = Some (pre @ ripple ?o x (vs # post))"
    using insert_loop_ripple [OF s(4), of ?o pre x] s(1,2,5) by simp
  have r: "full_chunks (ripple ?o x (vs # post))" "ripple ?o x (vs # post) \<noteq> []"
    "concat (ripple ?o x (vs # post)) = list_insert ?o x (concat (vs # post))"
    using ripple_full [OF s(4), of ?o x] s(5) by simp_all
  have i: "i = length (concat pre) + ?o" using s(6) div_mult_mod_eq [of i CHUNK_ITEMS] by simp
  have "list_insert i x (items c) = concat pre @ list_insert ?o x (concat (vs # post))"
    unfolding items_def s(1) concat_append by (subst i, rule list_insert_append) (use s(5) in simp)
  then have it: "concat (pre @ ripple ?o x (vs # post)) = list_insert i x (items c)" using r(3) by simp
  have "full_chunks (pre @ ripple ?o x (vs # post))"
    using full_chunks_append [OF r(2)] s(3) r(1) by blast
  moreover have "length (list_insert i x (items c)) = len c + 1"
    using assms chunked_okD(2) [OF assms(1)] by simp
  ultimately show ?thesis
    using False assms(2) loop it by (simp add: insert_at_def chunked_ok_def items_def)
qed

text \<open>The shifting loop of \<open>remove\<close>, on the chunks from the removal point on.\<close>

fun pull :: "'a list \<Rightarrow> 'a list list \<Rightarrow> 'a list list" where
  "pull c [] = [c]"
| "pull c (d # ds) = (c @ [hd d]) # pull (tl d) ds"

lemma shift_loop_pull:
  "\<forall>d\<in>set ds. d \<noteq> [] \<Longrightarrow>
   shift_loop [Suc (length pre)..<Suc (length pre) + length ds] (pre @ c # ds) = Some (pre @ pull c ds)"
proof (induction ds arbitrary: pre c)
  case Nil then show ?case by simp
next
  case (Cons d ds)
  let ?n = "Suc (length pre)"
  have u: "[?n..<?n + length (d # ds)] = ?n # [Suc ?n..<Suc ?n + length ds]"
    by (simp add: upt_rec)
  have d: "d = hd d # tl d" using Cons.prems by simp
  have g: "get (pre @ c # d # ds) ?n = Some (hd d # tl d)" using d by (simp add: get_def nth_append)
  have e: "((pre @ c # d # ds)[?n := tl d])[?n - 1 := (pre @ c # d # ds) ! (?n - 1) @ [hd d]]
      = (pre @ [c @ [hd d]]) @ tl d # ds"
    by (simp add: list_update_append nth_append)
  have "shift_loop [?n..<?n + length (d # ds)] (pre @ c # d # ds)
      = shift_loop [Suc ?n..<Suc ?n + length ds] ((pre @ [c @ [hd d]]) @ tl d # ds)"
    unfolding u shift_loop.simps g by (simp only: option.case list.case e)
  also have "\<dots> = Some ((pre @ [c @ [hd d]]) @ pull (tl d) ds)"
    using Cons.IH [of "pre @ [c @ [hd d]]" "tl d"] Cons.prems by simp
  finally show ?case by simp
qed

lemma pull_concat: "\<forall>d\<in>set ds. d \<noteq> [] \<Longrightarrow> concat (pull c ds) = c @ concat ds"
  by (induction c ds rule: pull.induct) auto

lemma pull_full:
  "full_chunks ds \<Longrightarrow> length c < CHUNK_ITEMS \<Longrightarrow> (ds \<noteq> [] \<longrightarrow> Suc (length c) = CHUNK_ITEMS) \<Longrightarrow>
   \<exists>us l. pull c ds = us @ [l] \<and> (\<forall>u\<in>set us. length u = CHUNK_ITEMS) \<and> length l < CHUNK_ITEMS"
proof (induction c ds rule: pull.induct)
  case (1 c)
  show ?case by (rule exI [of _ "[]"], rule exI [of _ c]) (use 1 in simp)
next
  case (2 c d ds)
  then have "0 < length d" "length d \<le> CHUNK_ITEMS" "ds \<noteq> [] \<longrightarrow> length d = CHUNK_ITEMS" "full_chunks ds"
    by auto
  moreover from this have "length (tl d) < CHUNK_ITEMS" "ds \<noteq> [] \<longrightarrow> Suc (length (tl d)) = CHUNK_ITEMS"
    by (cases d; simp)+
  ultimately obtain us l where "pull (tl d) ds = us @ [l]" "\<forall>u\<in>set us. length u = CHUNK_ITEMS" "length l < CHUNK_ITEMS"
    using 2(1) by blast
  then show ?case using 2(4) by (intro exI [of _ "(c @ [hd d]) # us"]) simp
qed

lemma length_full_snoc:
  "(\<forall>u\<in>set us. length u = CHUNK_ITEMS) \<Longrightarrow> length l < CHUNK_ITEMS \<Longrightarrow>
   CHUNK_ITEMS dvd length (concat (us @ [l])) \<longleftrightarrow> l = []"
  using length_concat_full [of us] by (auto simp: dvd_add_right_iff dest: nat_dvd_not_less)

lemma full_chunks_trim:
  assumes "\<forall>u\<in>set us. length u = CHUNK_ITEMS" and "length l < CHUNK_ITEMS"
  shows "full_chunks (if CHUNK_ITEMS dvd length (concat (us @ [l])) then us else us @ [l])"
  using assms length_full_snoc [OF assms] full_chunks_full [of us] by (auto simp: full_chunks_snoc)

lemma list_remove_append: "list_remove (length xs + i) (xs @ ys) = xs @ list_remove i ys"
  by (simp add: list_remove_def)

lemma list_remove_prefix: "i < length xs \<Longrightarrow> list_remove i (xs @ ys) = list_remove i xs @ ys"
  by (simp add: list_remove_def)

lemma remove_at_items:
  assumes "chunked_ok c" and "i < len c"
  shows "\<exists>c'. remove_at i c = Some c' \<and> chunked_ok c' \<and> items c' = list_remove i (items c)"
proof -
  let ?k = "i div CHUNK_ITEMS" and ?o = "i mod CHUNK_ITEMS"
  have il: "i < length (concat (chunks c))" using assms by (simp add: chunked_ok_def items_def)
  from full_chunks_split [OF chunked_okD(1) [OF assms(1)] this]
  obtain pre vs post where s: "chunks c = pre @ vs # post" "length pre = ?k"
    "\<forall>c\<in>set pre. length c = CHUNK_ITEMS" "full_chunks (vs # post)" "?o < length vs"
    "length (concat pre) = ?k * CHUNK_ITEMS" by metis
  let ?v = "list_remove ?o vs"
  have lv: "Suc (length ?v) = length vs" using s(5) by (auto simp: list_remove_def)
  have post: "full_chunks post" "\<forall>d\<in>set post. d \<noteq> []"
    using s(4) by (auto, induction post) auto
  have loop: "shift_loop [Suc ?k..<length (chunks c)] ((chunks c)[?k := ?v]) = Some (pre @ pull ?v post)"
    using shift_loop_pull [OF post(2), of pre ?v] s(1,2) by (simp add: list_update_append)
  obtain us l where p: "pull ?v post = us @ [l]" "\<forall>u\<in>set us. length u = CHUNK_ITEMS" "length l < CHUNK_ITEMS"
    using pull_full [OF post(1), of ?v] s(4) lv by auto
  have i: "i = length (concat pre) + ?o" using s(6) div_mult_mod_eq [of i CHUNK_ITEMS] by simp
  have "list_remove i (items c) = concat pre @ list_remove ?o (concat (vs # post))"
    unfolding items_def s(1) concat_append by (subst i, rule list_remove_append)
  also have "list_remove ?o (concat (vs # post)) = ?v @ concat post"
    using s(5) by (simp add: list_remove_prefix)
  also have "\<dots> = concat (us @ [l])" using pull_concat [OF post(2), of ?v] p(1) by simp
  finally have it: "concat ((pre @ us) @ [l]) = list_remove i (items c)" by simp
  have l1: "length (list_remove i (items c)) = len c - 1"
    using assms chunked_okD(2) [OF assms(1)] by simp
  have full: "\<forall>u\<in>set (pre @ us). length u = CHUNK_ITEMS" using s(3) p(2) by auto
  have "remove_at i c = Some \<lparr>chunks = if CHUNK_ITEMS dvd len c - 1 then pre @ us else (pre @ us) @ [l], len = len c - 1\<rparr>"
    using assms(2) s(1,2,5) loop p(1)
    by (simp add: remove_at_def get_def nth_append Let_def is_multiple_of_dvd butlast_append not_le)
  moreover have "concat (if CHUNK_ITEMS dvd len c - 1 then pre @ us else (pre @ us) @ [l]) = list_remove i (items c)"
    using it l1 length_full_snoc [OF full p(3)] by (auto split: if_split)
  moreover have "full_chunks (if CHUNK_ITEMS dvd len c - 1 then pre @ us else (pre @ us) @ [l])"
    using full_chunks_trim [OF full p(3)] unfolding it l1 .
  ultimately show ?thesis using l1 unfolding chunked_ok_def items_def by simp
qed

lemma truncate_items:
  assumes "chunked_ok c" and "l \<le> len c"
  shows "\<exists>c'. truncate l c = Some c' \<and> chunked_ok c' \<and> items c' = take l (items c)"
proof -
  let ?k = "l div CHUNK_ITEMS" and ?o = "l mod CHUNK_ITEMS"
  have f: "full_chunks (chunks c)" and n: "len c = length (concat (chunks c))"
    using assms by (simp_all add: chunked_ok_def items_def)
  have lm: "l = ?k * CHUNK_ITEMS + ?o" by simp
  have t: "?k \<le> length (chunks c)" "\<forall>c\<in>set (take ?k (chunks c)). length c = CHUNK_ITEMS"
    "concat (take ?k (chunks c)) = take (?k * CHUNK_ITEMS) (concat (chunks c))"
    using full_chunks_take [OF f, of ?k] assms(2) n div_times_less_eq_dividend [of l CHUNK_ITEMS] by auto
  show ?thesis
  proof (cases "?o = 0")
    case True
    then have k: "?k * CHUNK_ITEMS = l" using lm by simp
    have "truncate l c = Some \<lparr>chunks = take ?k (chunks c), len = l\<rparr>"
      using assms(2) True by (simp add: truncate_def is_multiple_of_def div_ceil_def Let_def)
    moreover have "concat (take ?k (chunks c)) = take l (concat (chunks c))" using t(3) by (simp only: k)
    ultimately show ?thesis
      using full_chunks_full [OF t(2)] assms(2) n by (simp add: chunked_ok_def items_def del: length_concat)
  next
    case False
    then have "?k * CHUNK_ITEMS < length (concat (chunks c))" using assms(2) n lm by linarith
    from full_chunks_split [OF f this]
    obtain pre vs post where s: "chunks c = pre @ vs # post" "length pre = ?k"
      "\<forall>c\<in>set pre. length c = CHUNK_ITEMS" "full_chunks (vs # post)"
      "length (concat pre) = ?k * CHUNK_ITEMS" by (metis chunk_items_pos(2) nonzero_mult_div_cancel_right)
    have o: "?o \<le> length vs"
    proof (cases "post = []")
      case True
      then have "l \<le> ?k * CHUNK_ITEMS + length vs" using assms(2) n s(1,5) by (simp del: length_concat)
      then show ?thesis using lm by linarith
    next
      case False
      then have "length vs = CHUNK_ITEMS" using s(4) by simp
      then show ?thesis using mod_less_divisor [of CHUNK_ITEMS l] by simp
    qed
    have "truncate l c = Some \<lparr>chunks = pre @ [take ?o vs], len = l\<rparr>"
      using assms(2) False s(1,2) by (simp add: truncate_def is_multiple_of_def div_ceil_def Let_def)
    moreover have "concat (pre @ [take ?o vs]) = take l (concat (chunks c))"
    proof -
      have "l - ?k * CHUNK_ITEMS = ?o" "l - (?k * CHUNK_ITEMS + length vs) = 0" "?k * CHUNK_ITEMS \<le> l"
        using lm o by linarith+
      then show ?thesis using s(1,5) by (simp del: length_concat)
    qed
    moreover have "full_chunks (pre @ [take ?o vs])"
      using s(3) o False mod_less_divisor [of CHUNK_ITEMS l] by (simp add: full_chunks_snoc)
    ultimately show ?thesis
      using assms(2) n by (simp add: chunked_ok_def items_def del: length_concat)
  qed
qed

lemma empty_items: "chunked_ok empty_chunked" "items empty_chunked = []"
  by (simp_all add: chunked_ok_def items_def empty_chunked_def)

subsection \<open>The sequence interface\<close>

text \<open>
  What the row encoder relies on: a value that behaves as a vector under push, truncation and
  partition point. \<open>abs\<close> reads the vector, \<open>ok\<close> is the representation invariant.
\<close>

locale sequence =
  fixes abs :: "'s \<Rightarrow> 'a list" and ok :: "'s \<Rightarrow> bool" and empty :: "'s"
    and push :: "'a \<Rightarrow> 's \<Rightarrow> 's option" and truncate :: "nat \<Rightarrow> 's \<Rightarrow> 's option"
    and partition_point :: "('a \<Rightarrow> bool) \<Rightarrow> 's \<Rightarrow> nat option"
  assumes empty: "ok empty" "abs empty = []"
    and push: "ok s \<Longrightarrow> \<exists>s'. push x s = Some s' \<and> ok s' \<and> abs s' = abs s @ [x]"
    and truncate: "ok s \<Longrightarrow> n \<le> length (abs s) \<Longrightarrow>
      \<exists>s'. truncate n s = Some s' \<and> ok s' \<and> abs s' = take n (abs s)"
    and partition: "ok s \<Longrightarrow> \<forall>i j. i < j \<and> j < length (abs s) \<and> p (abs s ! j) \<longrightarrow> p (abs s ! i) \<Longrightarrow>
      partition_point p s = Some (length (takeWhile p (abs s)))"
begin

lemma pushed: "ok s \<Longrightarrow> push x s = Some s' \<Longrightarrow> ok s' \<and> abs s' = abs s @ [x]"
  using push [of s x] by auto

lemma push_total: "ok s \<Longrightarrow> push x s \<noteq> None"
  using push [of s x] by auto

lemma partitioned:
  fixes f :: "'a \<Rightarrow> nat"
  shows "ok s \<Longrightarrow> sorted (map f (abs s)) \<Longrightarrow>
   partition_point (\<lambda>x. f x < n) s = Some (length (takeWhile (\<lambda>x. f x < n) (abs s)))"
proof (rule partition)
  assume srt: "sorted (map f (abs s))"
  have "f (abs s ! i) \<le> f (abs s ! j)" if "i < j" "j < length (abs s)" for i j
    using sorted_nth_mono [OF srt, of i j] that by simp
  then show "\<forall>i j. i < j \<and> j < length (abs s) \<and> f (abs s ! j) < n \<longrightarrow> f (abs s ! i) < n"
    using le_less_trans by blast
qed

text \<open>Cutting a sequence sorted by a key at its partition point drops exactly the items whose key
  is not below the bound.\<close>

lemma cut:
  fixes f :: "'a \<Rightarrow> nat"
  assumes "ok s" and "sorted (map f (abs s))"
  shows "\<exists>n s'. partition_point (\<lambda>x. f x < b) s = Some n \<and> truncate n s = Some s' \<and> ok s'
           \<and> abs s' = filter (\<lambda>x. f x < b) (abs s)"
proof -
  let ?p = "\<lambda>x. f x < b"
  have "takeWhile ?p xs = filter ?p xs" if "sorted (map f xs)" for xs
    using that by (induction xs) (auto intro!: sym [OF filter_False])
  then have "take (length (takeWhile ?p (abs s))) (abs s) = filter ?p (abs s)"
    using assms(2) by (metis takeWhile_eq_take)
  then show ?thesis
    using partitioned [OF assms, of b] truncate [OF assms(1) length_takeWhile_le, of ?p] by auto
qed

text \<open>Rolling back: truncating an extension to the old length restores the old contents.\<close>

lemma rollback:
  assumes "ok s'" and "abs s' = abs s @ xs"
  shows "\<exists>s''. truncate (length (abs s)) s' = Some s'' \<and> ok s'' \<and> abs s'' = abs s"
  using truncate [OF assms(1), of "length (abs s)"] assms(2) by simp

end

interpretation chunked_sequence:
  sequence items chunked_ok empty_chunked push truncate partition_point
  by unfold_locales
    (simp_all add: empty_items push_items truncate_items partition_point_items chunked_okD(2))

lemma extend_items:
  "chunked_ok c \<Longrightarrow> \<exists>c'. extend xs c = Some c' \<and> chunked_ok c' \<and> items c' = items c @ xs"
proof (induction xs arbitrary: c)
  case Nil then show ?case by simp
next
  case (Cons x xs)
  obtain c' where "push x c = Some c'" "chunked_ok c'" "items c' = items c @ [x]"
    using push_items [OF Cons.prems] by blast
  then show ?case using Cons.IH [of c'] by auto
qed

lemma chunked_eq_items: "chunked_ok a \<Longrightarrow> chunked_ok b \<Longrightarrow> chunked_eq a b \<longleftrightarrow> items a = items b"
  by (auto simp: chunked_eq_def items_def chunked_ok_def)

subsection \<open>Properties\<close>

text \<open>
  C13: The chunked vector implements the plain vector: starting from any reachable value, push,
  insert, remove and truncate never panic within their documented ranges, keep the chunk
  invariant, and change the contents exactly as the operation on a plain vector does.
\<close>

theorem chunked_refines_vector:
  assumes "chunked_ok c"
  shows "(\<exists>c'. push x c = Some c' \<and> chunked_ok c' \<and> to_vec c' = to_vec c @ [x])
       \<and> (if i \<le> length (to_vec c)
          then \<exists>c'. insert_at i x c = Some c' \<and> chunked_ok c' \<and> to_vec c' = list_insert i x (to_vec c)
          else insert_at i x c = None)
       \<and> (if i < length (to_vec c)
          then \<exists>c'. remove_at i c = Some c' \<and> chunked_ok c' \<and> to_vec c' = list_remove i (to_vec c)
          else remove_at i c = None)
       \<and> (if i \<le> length (to_vec c)
          then \<exists>c'. truncate i c = Some c' \<and> chunked_ok c' \<and> to_vec c' = take i (to_vec c)
          else truncate i c = None)"
  unfolding to_vec_items chunked_okD(2) [OF assms, symmetric]
proof (intro conjI)
  show "\<exists>c'. push x c = Some c' \<and> chunked_ok c' \<and> items c' = items c @ [x]"
    by (rule push_items [OF assms])
  show "if i \<le> len c then \<exists>c'. insert_at i x c = Some c' \<and> chunked_ok c' \<and> items c' = list_insert i x (items c)
        else insert_at i x c = None"
    using insert_at_items [OF assms] by (simp add: insert_at_def)
  show "if i < len c then \<exists>c'. remove_at i c = Some c' \<and> chunked_ok c' \<and> items c' = list_remove i (items c)
        else remove_at i c = None"
    using remove_at_items [OF assms] by (cases "i < len c") (simp_all add: remove_at_def)
  show "if i \<le> len c then \<exists>c'. truncate i c = Some c' \<and> chunked_ok c' \<and> items c' = take i (items c)
        else truncate i c = None"
    using truncate_items [OF assms] by (simp add: truncate_def)
qed

lemma chunked_refines_vector_witness:
  "chunked_ok \<lparr>chunks = [replicate 128 (0::nat), [1, 2]], len = 130\<rparr>
   \<and> (\<exists>c'. remove_at 3 \<lparr>chunks = [replicate 128 (0::nat), [1, 2]], len = 130\<rparr> = Some c'
        \<and> to_vec c' = list_remove 3 (replicate 128 0 @ [1, 2]))"
proof -
  have ok: "chunked_ok \<lparr>chunks = [replicate 128 (0::nat), [1, 2]], len = 130\<rparr>"
    by (simp add: chunked_ok_def items_def CHUNK_ITEMS_def)
  then show ?thesis
    using chunked_refines_vector [OF ok, where i = 3 and x = 0] by (auto simp: to_vec_def)
qed

text \<open>
  C14: Reading a chunked vector agrees with the plain vector: indexing, the last item and slices
  (one-chunk and cross-chunk paths) return its contents without panicking, and the binary
  search for a partitioned predicate returns the number of leading items that satisfy it.
\<close>

theorem chunked_reads_vector:
  assumes "chunked_ok c"
  shows "lookup c i = get (to_vec c) i
       \<and> last_item c = (if to_vec c = [] then None else Some (last (to_vec c)))
       \<and> (start \<le> stop \<and> stop \<le> length (to_vec c) \<longrightarrow>
            slice start stop c = Some (take (stop - start) (drop start (to_vec c))))
       \<and> ((\<forall>i j. i < j \<and> j < length (to_vec c) \<and> p (to_vec c ! j) \<longrightarrow> p (to_vec c ! i)) \<longrightarrow>
            partition_point p c = Some (length (takeWhile p (to_vec c))))"
  using lookup_items [OF assms] last_item_items [OF assms] slice_items [OF assms] partition_point_items [OF assms]
  unfolding to_vec_items chunked_okD(2) [OF assms] by blast

lemma chunked_reads_vector_witness:
  "slice 126 130 \<lparr>chunks = [replicate 128 (0::nat), [1, 2]], len = 130\<rparr> = Some [0, 0, 1, 2]
   \<and> partition_point (\<lambda>x. x < 2) \<lparr>chunks = [replicate 128 (0::nat), [1, 2]], len = 130\<rparr> = Some 129"
proof -
  let ?c = "\<lparr>chunks = [replicate 128 (0::nat), [1, 2]], len = 130\<rparr>"
  have ok: "chunked_ok ?c" by (simp add: chunked_ok_def items_def CHUNK_ITEMS_def)
  have v: "to_vec ?c = replicate 128 0 @ [1, 2]" by (simp add: to_vec_def)
  have "sorted (to_vec ?c)" unfolding v by (simp add: sorted_append)
  then have "\<forall>i j. i < j \<and> j < length (to_vec ?c) \<and> to_vec ?c ! j < 2 \<longrightarrow> to_vec ?c ! i < 2"
    by (meson le_less_trans less_imp_le sorted_nth_mono)
  moreover have "length (takeWhile (\<lambda>x. x < 2) (to_vec ?c)) = 129"
    unfolding v by (subst takeWhile_append2) simp_all
  moreover have "take (130 - 126) (drop 126 (to_vec ?c)) = [0, 0, 1, 2]"
    unfolding v by (simp add: numeral_2_eq_2)
  ultimately show ?thesis
    using chunked_reads_vector [OF ok, where start = 126 and stop = 130 and p = "\<lambda>x. x < 2"]
    by (simp add: to_vec_def)
qed

end
