(* ===== verification/EncodedRow.thy ===== *)
theory EncodedRow
  imports Prelude Instruction Chunked
begin

text \<open>
  Executable exchange rows and their relocation sites (\<open>exchange/program/row.rs\<close>) and the
  buffer in which the encoder builds them (\<open>RowBuffer\<close> of \<open>exchange/program/encoding.rs\<close>).

  A row is a list of 32-bit instruction words with the offsets of the words that hold a send
  address, a receive pointer or an outgoing-base register write. A consumer patches those
  words only. The buffer keeps four chunked vectors; truncating it to an earlier length is
  how the incremental encoder resumes from a checkpoint.
\<close>

subsection \<open>Data\<close>

datatype exchange_error =
    ValidationBudgetExceeded
  | TileError nat
  | DuplicateTile
  | Count nat
  | ReceiverSet
  | Schedule string
  | PlanOffsetRange nat nat
  | Address u32
  | HostPacket

definition SEND_ADDRESS_MASK :: u32 where "SEND_ADDRESS_MASK = 0x001ffff8"
definition PIC_RECEIVE_ADDRESS_MASK :: u32 where "PIC_RECEIVE_ADDRESS_MASK = 0x3ffff"
definition OUTGOING_BASE :: u8 where "OUTGOING_BASE = 0xa7"

text \<open>The item shift is a \<open>u8\<close> of which the writers of rows store 2 or 3; it is unbounded here.\<close>

record send_address =
  site_word_offset :: nat
  message :: nat
  byte_offset :: nat
  item_shift :: nat

record outgoing_base_write =
  base_word_offset :: nat
  register :: u8

record encoded_row =
  row_words :: "u32 list"
  row_sends :: "send_address list"
  row_receive_pointers :: "nat list"
  row_outgoing_bases :: "outgoing_base_write list"

subsection \<open>Rows\<close>

definition row_inactive :: encoded_row where
  "row_inactive = \<lparr>row_words = [RETURN_M10_INSTRUCTION], row_sends = [], row_receive_pointers = [],
                   row_outgoing_bases = []\<rparr>"

definition address_fields :: "encoded_row \<Rightarrow> (nat \<times> u32) list" where
  "address_fields row =
     map (\<lambda>site. (site_word_offset site, SEND_ADDRESS_MASK)) (row_sends row)
     @ map (\<lambda>offset. (offset, PIC_RECEIVE_ADDRESS_MASK)) (row_receive_pointers row)"

text \<open>\<open>words[offset] &= !mask\<close> for each field in turn.\<close>

fun clear_fields :: "(nat \<times> u32) list \<Rightarrow> u32 list \<Rightarrow> u32 list option" where
  "clear_fields [] ws = Some ws"
| "clear_fields ((offset, msk) # fs) ws =
     (case get ws offset of
        None \<Rightarrow> None
      | Some w \<Rightarrow> clear_fields fs (ws[offset := and w (not msk)]))"

definition normalized_words :: "encoded_row \<Rightarrow> u32 list option" where
  "normalized_words row = clear_fields (address_fields row) (row_words row)"

definition nonzero_address_word_offsets :: "encoded_row \<Rightarrow> nat list option" where
  "nonzero_address_word_offsets row =
     map_option (\<lambda>ws. map (fst \<circ> fst) (filter (\<lambda>((offset, msk), w). and w msk \<noteq> 0) (zip (address_fields row) ws)))
       (traverse_opt (\<lambda>(offset, msk). get (row_words row) offset) (address_fields row))"



fun replace_sites ::
  "u8 \<Rightarrow> u8 \<Rightarrow> u32 \<Rightarrow> outgoing_base_write list \<Rightarrow> u32 list \<Rightarrow> (outgoing_base_write list \<times> u32 list) option" where
  "replace_sites from_reg to_reg instr [] ws = Some ([], ws)"
| "replace_sites from_reg to_reg instr (site # sites) ws =
     (if register site = from_reg then
        (if base_word_offset site < length ws then
           map_option (\<lambda>(sites', ws'). (site\<lparr>register := to_reg\<rparr> # sites', ws'))
             (replace_sites from_reg to_reg instr sites (ws[base_word_offset site := instr]))
         else None)
      else map_option (\<lambda>(sites', ws'). (site # sites', ws')) (replace_sites from_reg to_reg instr sites ws))"

text \<open>\<open>From<InstructionError> for ExchangeError\<close>\<close>

fun from_instruction_error :: "instruction_error \<Rightarrow> exchange_error" where
  "from_instruction_error (InstructionError e) = Schedule e"

definition lift_instruction :: "instruction_error + 'a \<Rightarrow> exchange_error fault + 'a" where
  "lift_instruction m = (case m of Inl e \<Rightarrow> Inl (Fail (from_instruction_error e)) | Inr a \<Rightarrow> Inr a)"

definition replace_outgoing_base_register ::
  "u8 \<Rightarrow> u8 \<Rightarrow> encoded_row \<Rightarrow> exchange_error fault + encoded_row" where
  "replace_outgoing_base_register from_reg to_reg row =
     res_bind (lift_instruction (encode_put_special_m OUTGOING_BASE to_reg)) (\<lambda>instr.
     res_bind (or_panic (replace_sites from_reg to_reg instr (row_outgoing_bases row) (row_words row)))
       (\<lambda>(sites, ws). Inr (row\<lparr>row_outgoing_bases := sites, row_words := ws\<rparr>)))"

subsection \<open>The row buffer\<close>

record row_buffer =
  buf_words :: "u32 chunked"
  buf_sends :: "send_address chunked"
  buf_receive_pointers :: "nat chunked"
  buf_outgoing_bases :: "outgoing_base_write chunked"

definition buffer_default :: row_buffer where
  "buffer_default = \<lparr>buf_words = empty_chunked, buf_sends = empty_chunked,
     buf_receive_pointers = empty_chunked, buf_outgoing_bases = empty_chunked\<rparr>"

definition buffer_len :: "row_buffer \<Rightarrow> nat" where
  "buffer_len b = len (buf_words b)"

definition buffer_push :: "u32 \<Rightarrow> row_buffer \<Rightarrow> row_buffer option" where
  "buffer_push w b = map_option (\<lambda>ws. b\<lparr>buf_words := ws\<rparr>) (push w (buf_words b))"

definition buffer_extend :: "u32 list \<Rightarrow> row_buffer \<Rightarrow> row_buffer option" where
  "buffer_extend xs b = map_option (\<lambda>ws. b\<lparr>buf_words := ws\<rparr>) (Chunked.extend xs (buf_words b))"

definition word_offset :: "nat \<Rightarrow> exchange_error fault + nat" where
  "word_offset offset = ok_or (try_from 32 offset) (Fail (Schedule ''row word offset exceeds u32''))"

definition buffer_send_address ::
  "nat \<Rightarrow> nat \<Rightarrow> nat \<Rightarrow> row_buffer \<Rightarrow> exchange_error fault + row_buffer" where
  "buffer_send_address msg byte shift b =
     res_bind (word_offset (buffer_len b)) (\<lambda>offset.
     res_bind (or_panic (push \<lparr>site_word_offset = offset, message = msg, byte_offset = byte, item_shift = shift\<rparr>
                (buf_sends b))) (\<lambda>sends.
     Inr (b\<lparr>buf_sends := sends\<rparr>)))"

definition buffer_receive_pointer :: "nat \<Rightarrow> row_buffer \<Rightarrow> exchange_error fault + row_buffer" where
  "buffer_receive_pointer offset b =
     res_bind (word_offset offset) (\<lambda>offset.
     res_bind (or_panic (push offset (buf_receive_pointers b))) (\<lambda>ps.
     Inr (b\<lparr>buf_receive_pointers := ps\<rparr>)))"

definition buffer_outgoing_base :: "u8 \<Rightarrow> row_buffer \<Rightarrow> exchange_error fault + row_buffer" where
  "buffer_outgoing_base reg b =
     res_bind (word_offset (buffer_len b)) (\<lambda>offset.
     res_bind (or_panic (push \<lparr>base_word_offset = offset, register = reg\<rparr> (buf_outgoing_bases b))) (\<lambda>bs.
     Inr (b\<lparr>buf_outgoing_bases := bs\<rparr>)))"

text \<open>Truncate a vector of sites at the first one that is not below the word count.\<close>

definition truncate_sites :: "('a \<Rightarrow> nat) \<Rightarrow> nat \<Rightarrow> 'a chunked \<Rightarrow> 'a chunked option" where
  "truncate_sites offset n sites =
     Option.bind (partition_point (\<lambda>site. offset site < n) sites) (\<lambda>k. Chunked.truncate k sites)"

definition buffer_truncate :: "nat \<Rightarrow> row_buffer \<Rightarrow> row_buffer option" where
  "buffer_truncate n b =
     Option.bind (Chunked.truncate n (buf_words b)) (\<lambda>ws.
     Option.bind (truncate_sites site_word_offset n (buf_sends b)) (\<lambda>sends.
     Option.bind (truncate_sites (\<lambda>offset. offset) n (buf_receive_pointers b)) (\<lambda>ps.
     Option.bind (truncate_sites base_word_offset n (buf_outgoing_bases b)) (\<lambda>bs.
     Some \<lparr>buf_words = ws, buf_sends = sends, buf_receive_pointers = ps, buf_outgoing_bases = bs\<rparr>))))"

definition buffer_finish :: "row_buffer \<Rightarrow> encoded_row" where
  "buffer_finish b =
     \<lparr>row_words = to_vec (buf_words b), row_sends = to_vec (buf_sends b),
      row_receive_pointers = to_vec (buf_receive_pointers b),
      row_outgoing_bases = to_vec (buf_outgoing_bases b)\<rparr>"

subsection \<open>Patching a row\<close>

text \<open>The masks of all fields at one word offset.\<close>

definition field_mask :: "(nat \<times> u32) list \<Rightarrow> nat \<Rightarrow> u32" where
  "field_mask fs i = foldr (\<lambda>(offset, msk) acc. if offset = i then or msk acc else acc) fs 0"

lemma field_mask_simps [simp]:
  "field_mask [] i = 0"
  "field_mask ((offset, msk) # fs) i = (if offset = i then or msk (field_mask fs i) else field_mask fs i)"
  by (simp_all add: field_mask_def)

lemma clear_fields_Some:
  "clear_fields fs ws = Some ws' \<longleftrightarrow>
     (\<forall>(offset, msk)\<in>set fs. offset < length ws) \<and> length ws' = length ws
   \<and> (\<forall>i<length ws. ws' ! i = and (ws ! i) (not (field_mask fs i)))"
proof (induction fs arbitrary: ws)
  case Nil
  show ?case by (auto simp: list_eq_iff_nth_eq)
next
  case (Cons f fs)
  obtain offset msk where f: "f = (offset, msk)" by (cases f)
  show ?case
  proof (cases "offset < length ws")
    case True
    have "and (and w (not msk)) (not m) = and w (not (or msk m))" for w m :: u32
      by (auto simp: bit_eq_iff bit_simps)
    then have "(and (ws[offset := and (ws ! offset) (not msk)] ! i) (not (field_mask fs i)))
        = and (ws ! i) (not (field_mask (f # fs) i))" if "i < length ws" for i
      using that True f by (cases "i = offset") simp_all
    then show ?thesis using True f Cons.IH by (auto simp: get_def)
  next
    case False then show ?thesis using f by (auto simp: get_def)
  qed
qed










text \<open>A row whose sites lie inside it.\<close>

definition row_ok :: "encoded_row \<Rightarrow> bool" where
  "row_ok row \<longleftrightarrow>
     (\<forall>s\<in>set (row_sends row). site_word_offset s < length (row_words row))
   \<and> (\<forall>p\<in>set (row_receive_pointers row). p < length (row_words row))
   \<and> (\<forall>b\<in>set (row_outgoing_bases row). base_word_offset b < length (row_words row))"

lemma address_fields_bound: "row_ok row \<Longrightarrow> (i, m) \<in> set (address_fields row) \<Longrightarrow> i < length (row_words row)"
  by (auto simp: row_ok_def address_fields_def)

lemma normalized_total: "row_ok row \<Longrightarrow> \<exists>ws. normalized_words row = Some ws"
proof -
  assume ok: "row_ok row"
  let ?fs = "address_fields row"
  let ?ws = "map (\<lambda>i. and (row_words row ! i) (not (field_mask ?fs i))) [0..<length (row_words row)]"
  have "normalized_words row = Some ?ws"
    using address_fields_bound [OF ok] by (auto simp: normalized_words_def clear_fields_Some)
  then show ?thesis by blast
qed



subsection \<open>Outgoing bases\<close>

text \<open>Each recorded base write is the instruction that writes the recorded register.\<close>

definition base_writes_ok :: "encoded_row \<Rightarrow> bool" where
  "base_writes_ok row \<longleftrightarrow>
     distinct (map base_word_offset (row_outgoing_bases row))
   \<and> (\<forall>b\<in>set (row_outgoing_bases row). base_word_offset b < length (row_words row)
        \<and> encode_put_special_m OUTGOING_BASE (register b) = Inr (row_words row ! base_word_offset b))"

lemma replace_sites_result:
  assumes "encode_put_special_m OUTGOING_BASE to_reg = Inr instr"
  shows "distinct (map base_word_offset sites) \<Longrightarrow>
    (\<forall>b\<in>set sites. base_word_offset b < length ws
        \<and> encode_put_special_m OUTGOING_BASE (register b) = Inr (ws ! base_word_offset b)) \<Longrightarrow>
    \<exists>sites' ws'. replace_sites from_reg to_reg instr sites ws = Some (sites', ws')
      \<and> length ws' = length ws
      \<and> sites' = map (\<lambda>b. if register b = from_reg then b\<lparr>register := to_reg\<rparr> else b) sites
      \<and> (\<forall>i. i \<notin> base_word_offset ` {b \<in> set sites. register b = from_reg} \<longrightarrow> ws' ! i = ws ! i)
      \<and> (\<forall>b\<in>set sites'. encode_put_special_m OUTGOING_BASE (register b) = Inr (ws' ! base_word_offset b))"
proof (induction sites arbitrary: ws)
  case Nil then show ?case by simp
next
  case (Cons b sites)
  let ?ws = "if register b = from_reg then ws[base_word_offset b := instr] else ws"
  have pre: "\<forall>c\<in>set sites. base_word_offset c < length ?ws
      \<and> encode_put_special_m OUTGOING_BASE (register c) = Inr (?ws ! base_word_offset c)"
    using Cons.prems by (auto simp: nth_list_update)
  obtain sites' ws' where r: "replace_sites from_reg to_reg instr sites ?ws = Some (sites', ws')"
    "length ws' = length ?ws"
    "sites' = map (\<lambda>b. if register b = from_reg then b\<lparr>register := to_reg\<rparr> else b) sites"
    "\<forall>i. i \<notin> base_word_offset ` {b \<in> set sites. register b = from_reg} \<longrightarrow> ws' ! i = ?ws ! i"
    "\<forall>b\<in>set sites'. encode_put_special_m OUTGOING_BASE (register b) = Inr (ws' ! base_word_offset b)"
    using Cons.IH [of ?ws] Cons.prems(1) pre by auto
  have o: "base_word_offset b \<notin> base_word_offset ` set sites" "base_word_offset b < length ws"
    "encode_put_special_m OUTGOING_BASE (register b) = Inr (ws ! base_word_offset b)"
    using Cons.prems by auto
  then have keep: "ws' ! base_word_offset b = ?ws ! base_word_offset b" using r(4) by blast
  have others: "ws' ! i = ws ! i"
    if "i \<notin> base_word_offset ` {c \<in> set (b # sites). register c = from_reg}" for i
  proof -
    have "register b = from_reg \<longrightarrow> i \<noteq> base_word_offset b" using that by auto
    moreover have "ws' ! i = ?ws ! i" using r(4) that by auto
    ultimately show ?thesis by (auto simp: nth_list_update split: if_splits)
  qed
  show ?case
  proof (cases "register b = from_reg")
    case True
    then have "replace_sites from_reg to_reg instr (b # sites) ws = Some (b\<lparr>register := to_reg\<rparr> # sites', ws')"
      using r(1) o(2) by simp
    moreover have "ws' ! base_word_offset b = instr" using keep True o(2) by simp
    ultimately show ?thesis using True r(2,3,5) others assms
      by (intro exI [of _ "b\<lparr>register := to_reg\<rparr> # sites'"] exI [of _ ws'] conjI) auto
  next
    case False
    then have "replace_sites from_reg to_reg instr (b # sites) ws = Some (b # sites', ws')"
      using r(1) by simp
    then show ?thesis using False r(2,3,5) o keep others
      by (intro exI [of _ "b # sites'"] exI [of _ ws'] conjI) auto
  qed
qed

subsection \<open>Emission and truncation\<close>

definition sites_ok :: "('a \<Rightarrow> nat) \<Rightarrow> nat \<Rightarrow> 'a chunked \<Rightarrow> bool" where
  "sites_ok offset n c \<longleftrightarrow>
     chunked_ok c \<and> sorted (map offset (items c)) \<and> (\<forall>s\<in>set (items c). offset s < n)"

definition buffer_ok :: "row_buffer \<Rightarrow> bool" where
  "buffer_ok b \<longleftrightarrow>
     chunked_ok (buf_words b) \<and> sites_ok site_word_offset (buffer_len b) (buf_sends b)
   \<and> sites_ok (\<lambda>offset. offset) (buffer_len b) (buf_receive_pointers b)
   \<and> sites_ok base_word_offset (buffer_len b) (buf_outgoing_bases b)"

text \<open>
  One emission of the encoder: a plain word; a send with its address site; a control word with
  its pointer site; a base write with its site; a two-word SENDPICP with an optional send
  site and an optional pointer site on its second word.
\<close>

inductive emits :: "row_buffer \<Rightarrow> row_buffer \<Rightarrow> bool" where
  emit_word: "buffer_push w b = Some b' \<Longrightarrow> emits b b'"
| emit_send: "buffer_send_address m bo s b = Inr b1 \<Longrightarrow> buffer_push w b1 = Some b' \<Longrightarrow> emits b b'"
| emit_pointer: "buffer_receive_pointer (buffer_len b) b = Inr b1 \<Longrightarrow> buffer_push w b1 = Some b' \<Longrightarrow> emits b b'"
| emit_base: "buffer_outgoing_base r b = Inr b1 \<Longrightarrow> buffer_push w b1 = Some b' \<Longrightarrow> emits b b'"
| emit_pair: "b1 = b \<or> buffer_send_address m bo s b = Inr b1 \<Longrightarrow>
    b2 = b1 \<or> buffer_receive_pointer (buffer_len b1 + 1) b1 = Inr b2 \<Longrightarrow>
    buffer_extend [w, v] b2 = Some b' \<Longrightarrow> emits b b'"

text \<open>\<open>grown\<close>: every vector of \<open>b'\<close> extends that of \<open>b\<close>, by sites at or after the end of \<open>b\<close> only.\<close>

definition sites_grown :: "('a \<Rightarrow> nat) \<Rightarrow> nat \<Rightarrow> 'a chunked \<Rightarrow> 'a chunked \<Rightarrow> bool" where
  "sites_grown offset n c c' \<longleftrightarrow> (\<exists>xs. items c' = items c @ xs \<and> (\<forall>x\<in>set xs. n \<le> offset x))"

definition grown :: "row_buffer \<Rightarrow> row_buffer \<Rightarrow> bool" where
  "grown b b' \<longleftrightarrow>
     (\<exists>ws. items (buf_words b') = items (buf_words b) @ ws)
   \<and> sites_grown site_word_offset (buffer_len b) (buf_sends b) (buf_sends b')
   \<and> sites_grown (\<lambda>offset. offset) (buffer_len b) (buf_receive_pointers b) (buf_receive_pointers b')
   \<and> sites_grown base_word_offset (buffer_len b) (buf_outgoing_bases b) (buf_outgoing_bases b')"

lemma sites_grown_refl [simp]: "sites_grown f n c c"
  by (simp add: sites_grown_def)

lemma sites_grown_trans:
  "sites_grown f n c c' \<Longrightarrow> sites_grown f n' c' c'' \<Longrightarrow> n \<le> n' \<Longrightarrow> sites_grown f n c c''"
  by (auto simp: sites_grown_def) (metis Un_iff append.assoc le_trans set_append)

lemma grown_len: "buffer_ok b \<Longrightarrow> buffer_ok b' \<Longrightarrow> grown b b' \<Longrightarrow> buffer_len b \<le> buffer_len b'"
  by (auto simp: grown_def buffer_ok_def buffer_len_def chunked_ok_def)

lemma grown_trans:
  assumes "buffer_ok b" "buffer_ok b'" "grown b b'" "grown b' b''"
  shows "grown b b''"
  using assms(3,4) grown_len [OF assms(1-3)]
  by (auto simp: grown_def elim: sites_grown_trans)

text \<open>The facts about the buffer's operations that the proofs share.\<close>

lemma word_offset_Inr: "word_offset n = Inr k \<Longrightarrow> k = n"
  by (auto simp: word_offset_def res_simps try_from_def split: if_splits)

lemma site_pushed:
  assumes "push x c = Some c'" and "sites_ok f n c" and "f x < n'" and "n \<le> n'"
    and "\<forall>s\<in>set (items c). f s \<le> f x" and "k \<le> f x"
  shows "sites_ok f n' c'" and "sites_grown f k c c'"
proof -
  have "chunked_ok c' \<and> items c' = items c @ [x]"
    using chunked_sequence.pushed [OF _ assms(1)] assms(2) by (simp add: sites_ok_def)
  then show "sites_ok f n' c'" "sites_grown f k c c'"
    using assms by (auto simp: sites_ok_def sites_grown_def sorted_append intro: less_le_trans)
qed

lemma sites_ok_mono: "sites_ok f n c \<Longrightarrow> n \<le> n' \<Longrightarrow> sites_ok f n' c"
  by (auto simp: sites_ok_def)

lemma send_addressed:
  assumes "buffer_send_address m bo s b = Inr b1" and "sites_ok site_word_offset (buffer_len b) (buf_sends b)"
  shows "\<exists>c. b1 = b\<lparr>buf_sends := c\<rparr> \<and> sites_ok site_word_offset (buffer_len b + 1) c
           \<and> sites_grown site_word_offset (buffer_len b) (buf_sends b) c"
proof -
  let ?s = "\<lparr>site_word_offset = buffer_len b, message = m, byte_offset = bo, item_shift = s\<rparr>"
  obtain c where c: "push ?s (buf_sends b) = Some c" "b1 = b\<lparr>buf_sends := c\<rparr>"
    using assms(1) by (auto simp: buffer_send_address_def res_simps dest!: word_offset_Inr)
  have "\<forall>q\<in>set (items (buf_sends b)). site_word_offset q \<le> site_word_offset ?s"
    using assms(2) by (auto simp: sites_ok_def)
  then show ?thesis
    using c site_pushed [OF c(1) assms(2), of "buffer_len b + 1" "buffer_len b"] by auto
qed

lemma pointer_recorded:
  assumes "buffer_receive_pointer n b = Inr b1" and "sites_ok (\<lambda>offset. offset) (buffer_len b) (buf_receive_pointers b)"
    and "buffer_len b \<le> n"
  shows "\<exists>c. b1 = b\<lparr>buf_receive_pointers := c\<rparr> \<and> sites_ok (\<lambda>offset. offset) (n + 1) c
           \<and> sites_grown (\<lambda>offset. offset) (buffer_len b) (buf_receive_pointers b) c"
proof -
  obtain c where c: "push n (buf_receive_pointers b) = Some c" "b1 = b\<lparr>buf_receive_pointers := c\<rparr>"
    using assms(1) by (auto simp: buffer_receive_pointer_def res_simps dest!: word_offset_Inr)
  have "\<forall>s\<in>set (items (buf_receive_pointers b)). s \<le> n" using assms(2,3) by (auto simp: sites_ok_def)
  then show ?thesis
    using c site_pushed [OF c(1) assms(2), of "n + 1" "buffer_len b"] assms(3) by auto
qed

lemma base_recorded:
  assumes "buffer_outgoing_base r b = Inr b1" and "sites_ok base_word_offset (buffer_len b) (buf_outgoing_bases b)"
  shows "\<exists>c. b1 = b\<lparr>buf_outgoing_bases := c\<rparr> \<and> sites_ok base_word_offset (buffer_len b + 1) c
           \<and> sites_grown base_word_offset (buffer_len b) (buf_outgoing_bases b) c"
proof -
  let ?s = "\<lparr>base_word_offset = buffer_len b, register = r\<rparr>"
  obtain c where c: "push ?s (buf_outgoing_bases b) = Some c" "b1 = b\<lparr>buf_outgoing_bases := c\<rparr>"
    using assms(1) by (auto simp: buffer_outgoing_base_def res_simps dest!: word_offset_Inr)
  have "\<forall>q\<in>set (items (buf_outgoing_bases b)). base_word_offset q \<le> base_word_offset ?s"
    using assms(2) by (auto simp: sites_ok_def)
  then show ?thesis
    using c site_pushed [OF c(1) assms(2), of "buffer_len b + 1" "buffer_len b"] by auto
qed

lemma words_extended:
  assumes "buffer_extend xs b = Some b'" and "chunked_ok (buf_words b)"
  shows "\<exists>c. b' = b\<lparr>buf_words := c\<rparr> \<and> chunked_ok c \<and> items c = items (buf_words b) @ xs
           \<and> len c = buffer_len b + length xs"
  using assms extend_items [OF assms(2), of xs]
  by (auto simp: buffer_extend_def buffer_len_def chunked_ok_def)

lemma push_is_extend: "buffer_push w b = buffer_extend [w] b"
  by (simp add: buffer_push_def buffer_extend_def split: option.split)

lemma emits_grown: "emits b b' \<Longrightarrow> buffer_ok b \<Longrightarrow> buffer_ok b' \<and> grown b b'"
proof (induction rule: emits.induct)
  case (emit_word w b b')
  then show ?case using words_extended [of "[w]" b b']
    by (auto simp: push_is_extend buffer_ok_def grown_def buffer_len_def intro: sites_ok_mono)
next
  case (emit_send m bo s b b1 w b')
  obtain c where "b1 = b\<lparr>buf_sends := c\<rparr>" "sites_ok site_word_offset (buffer_len b + 1) c"
    "sites_grown site_word_offset (buffer_len b) (buf_sends b) c"
    using send_addressed [OF emit_send(1)] emit_send(3) unfolding buffer_ok_def by blast
  then show ?case using words_extended [of "[w]" b1 b'] emit_send(2,3)
    by (auto simp: push_is_extend buffer_ok_def grown_def buffer_len_def intro: sites_ok_mono)
next
  case (emit_pointer b b1 w b')
  obtain c where "b1 = b\<lparr>buf_receive_pointers := c\<rparr>" "sites_ok (\<lambda>offset. offset) (buffer_len b + 1) c"
    "sites_grown (\<lambda>offset. offset) (buffer_len b) (buf_receive_pointers b) c"
    using pointer_recorded [OF emit_pointer(1)] emit_pointer(3) unfolding buffer_ok_def by blast
  then show ?case using words_extended [of "[w]" b1 b'] emit_pointer(2,3)
    by (auto simp: push_is_extend buffer_ok_def grown_def buffer_len_def intro: sites_ok_mono)
next
  case (emit_base r b b1 w b')
  obtain c where "b1 = b\<lparr>buf_outgoing_bases := c\<rparr>" "sites_ok base_word_offset (buffer_len b + 1) c"
    "sites_grown base_word_offset (buffer_len b) (buf_outgoing_bases b) c"
    using base_recorded [OF emit_base(1)] emit_base(3) unfolding buffer_ok_def by blast
  then show ?case using words_extended [of "[w]" b1 b'] emit_base(2,3)
    by (auto simp: push_is_extend buffer_ok_def grown_def buffer_len_def intro: sites_ok_mono)
next
  case (emit_pair b1 b m bo s b2 w v b')
  have s: "\<exists>c. b1 = b\<lparr>buf_sends := c\<rparr> \<and> sites_ok site_word_offset (buffer_len b + 2) c
      \<and> sites_grown site_word_offset (buffer_len b) (buf_sends b) c"
    using emit_pair(1)
  proof (elim disjE)
    assume "b1 = b"
    then show ?thesis using emit_pair(4) sites_ok_mono
      by (intro exI [of _ "buf_sends b"]) (auto simp: buffer_ok_def intro: sites_ok_mono)
  next
    assume "buffer_send_address m bo s b = Inr b1"
    then obtain c where "b1 = b\<lparr>buf_sends := c\<rparr>" "sites_ok site_word_offset (buffer_len b + 1) c"
      "sites_grown site_word_offset (buffer_len b) (buf_sends b) c"
      using send_addressed [of m bo s b b1] emit_pair(4) unfolding buffer_ok_def by blast
    moreover from this have "sites_ok site_word_offset (buffer_len b + 2) c"
      by (elim sites_ok_mono) simp
    ultimately show ?thesis by blast
  qed
  then obtain c where c: "b1 = b\<lparr>buf_sends := c\<rparr>" "sites_ok site_word_offset (buffer_len b + 2) c"
    "sites_grown site_word_offset (buffer_len b) (buf_sends b) c" by blast
  have p: "sites_ok (\<lambda>offset. offset) (buffer_len b1) (buf_receive_pointers b1)" "buffer_len b1 = buffer_len b"
    "buf_receive_pointers b1 = buf_receive_pointers b"
    using emit_pair(4) c(1) by (simp_all add: buffer_ok_def buffer_len_def)
  have "\<exists>d. b2 = b1\<lparr>buf_receive_pointers := d\<rparr> \<and> sites_ok (\<lambda>offset. offset) (buffer_len b + 2) d
      \<and> sites_grown (\<lambda>offset. offset) (buffer_len b) (buf_receive_pointers b) d"
    using emit_pair(2)
  proof (elim disjE)
    assume "b2 = b1"
    then show ?thesis using p
      by (intro exI [of _ "buf_receive_pointers b1"]) (auto intro: sites_ok_mono)
  next
    assume "buffer_receive_pointer (buffer_len b1 + 1) b1 = Inr b2"
    then show ?thesis using pointer_recorded [of "buffer_len b1 + 1" b1 b2] p by auto
  qed
  then obtain d where d: "b2 = b1\<lparr>buf_receive_pointers := d\<rparr>" "sites_ok (\<lambda>offset. offset) (buffer_len b + 2) d"
    "sites_grown (\<lambda>offset. offset) (buffer_len b) (buf_receive_pointers b) d" by blast
  show ?case using words_extended [of "[w, v]" b2 b'] emit_pair(3,4) c d
    by (auto simp: buffer_ok_def grown_def buffer_len_def intro: sites_ok_mono)
qed

lemma emits_many_grown: "emits\<^sup>*\<^sup>* b b' \<Longrightarrow> buffer_ok b \<Longrightarrow> buffer_ok b' \<and> grown b b'"
proof (induction rule: rtranclp_induct)
  case base then show ?case by (auto simp: grown_def)
next
  case (step y z)
  then have "buffer_ok y" "grown b y" "buffer_ok z \<and> grown y z" using emits_grown by blast+
  then show ?case using grown_trans [of b y z] step.prems by blast
qed

lemma truncate_sites_restores:
  assumes "sites_ok f n c" and "sites_ok f n' c'" and "sites_grown f n c c'"
  shows "\<exists>c''. truncate_sites f n c' = Some c'' \<and> sites_ok f n c'' \<and> items c'' = items c"
proof -
  obtain k c'' where k: "partition_point (\<lambda>x. f x < n) c' = Some k" "Chunked.truncate k c' = Some c''" "chunked_ok c''"
    "items c'' = filter (\<lambda>x. f x < n) (items c')"
    using chunked_sequence.cut [of c' f n] assms(2) by (auto simp: sites_ok_def)
  obtain xs where "items c' = items c @ xs" "\<forall>x\<in>set xs. n \<le> f x"
    using assms(3) by (auto simp: sites_grown_def)
  then have "items c'' = items c"
    using k(4) assms(1) by (simp add: sites_ok_def filter_empty_conv not_less)
  then show ?thesis using k assms(1) by (auto simp: truncate_sites_def sites_ok_def)
qed

subsection \<open>Properties\<close>

text \<open>
  C15: Resuming from a checkpoint is sound: after any sequence of emissions (words, sends,
  pointers, base writes, two-word controls), truncating the buffer to the word count of an
  earlier state restores exactly that state's words and relocation sites.
\<close>

theorem truncation_restores_checkpoint:
  assumes "emits\<^sup>*\<^sup>* b b'" and "buffer_ok b"
  shows "\<exists>b''. buffer_truncate (buffer_len b) b' = Some b'' \<and> buffer_ok b''
           \<and> buffer_finish b'' = buffer_finish b"
proof -
  have g: "buffer_ok b'" "grown b b'" using emits_many_grown [OF assms] by auto
  obtain ws where ws: "items (buf_words b') = items (buf_words b) @ ws" using g(2) by (auto simp: grown_def)
  have n: "buffer_len b = length (items (buf_words b))"
    using assms(2) by (simp add: buffer_ok_def buffer_len_def chunked_ok_def)
  obtain w'' where w: "Chunked.truncate (buffer_len b) (buf_words b') = Some w''" "chunked_ok w''"
    "items w'' = items (buf_words b)"
    using chunked_sequence.rollback [of "buf_words b'" "buf_words b" ws] g(1) ws n by (auto simp: buffer_ok_def)
  then have len: "len w'' = buffer_len b" by (simp add: chunked_ok_def n)
  note r = truncate_sites_restores
  obtain s'' where s: "truncate_sites site_word_offset (buffer_len b) (buf_sends b') = Some s''"
    "sites_ok site_word_offset (buffer_len b) s''" "items s'' = items (buf_sends b)"
    using r [of site_word_offset "buffer_len b" "buf_sends b"] assms(2) g by (auto simp: buffer_ok_def grown_def)
  obtain p'' where p: "truncate_sites (\<lambda>offset. offset) (buffer_len b) (buf_receive_pointers b') = Some p''"
    "sites_ok (\<lambda>offset. offset) (buffer_len b) p''" "items p'' = items (buf_receive_pointers b)"
    using r [of "\<lambda>offset. offset" "buffer_len b" "buf_receive_pointers b"] assms(2) g
    by (auto simp: buffer_ok_def grown_def)
  obtain o'' where o: "truncate_sites base_word_offset (buffer_len b) (buf_outgoing_bases b') = Some o''"
    "sites_ok base_word_offset (buffer_len b) o''" "items o'' = items (buf_outgoing_bases b)"
    using r [of base_word_offset "buffer_len b" "buf_outgoing_bases b"] assms(2) g
    by (auto simp: buffer_ok_def grown_def)
  show ?thesis
    using w s p o len by (simp add: buffer_truncate_def buffer_ok_def buffer_len_def buffer_finish_def to_vec_items)
qed

lemma truncation_restores_checkpoint_witness:
  "\<exists>b' b''. emits buffer_default b' \<and> buffer_len b' = 1
     \<and> buffer_truncate 0 b' = Some b'' \<and> buffer_finish b'' = buffer_finish buffer_default"
proof -
  have ok: "buffer_ok buffer_default"
    by (simp add: buffer_ok_def sites_ok_def buffer_default_def empty_items)
  let ?b1 = "buffer_default\<lparr>buf_sends := \<lparr>chunks = [[\<lparr>site_word_offset = 0, message = 7, byte_offset = 0, item_shift = 2\<rparr>]],
     len = 1\<rparr>\<rparr>"
  let ?b' = "?b1\<lparr>buf_words := \<lparr>chunks = [[0x78000000]], len = 1\<rparr>\<rparr>"
  have e: "emits buffer_default ?b'"
    by (rule emit_send [of 7 0 2 buffer_default ?b1 "0x78000000"])
      (simp_all add: buffer_send_address_def word_offset_def try_from_def buffer_len_def buffer_default_def
        empty_chunked_def push_def is_multiple_of_def CHUNK_ITEMS_def buffer_push_def)
  have z: "buffer_len buffer_default = 0" by (simp add: buffer_len_def buffer_default_def empty_chunked_def)
  obtain b'' where "buffer_truncate 0 ?b' = Some b''" "buffer_finish b'' = buffer_finish buffer_default"
    using truncation_restores_checkpoint [OF r_into_rtranclp [of emits, OF e] ok] unfolding z by blast
  moreover have "buffer_len ?b' = 1" by (simp add: buffer_len_def)
  ultimately show ?thesis using e by blast
qed



text \<open>
  C17: Replacing an outgoing-base register rewrites exactly the base writes that name it: the
  recorded registers are substituted, every recorded site still holds the instruction for its
  register, all other words are unchanged, and no site names the old register any more.
\<close>

theorem replace_outgoing_base_exact:
  assumes "base_writes_ok row" and "to_reg < 16"
  shows "\<exists>row'. replace_outgoing_base_register from_reg to_reg row = Inr row' \<and> base_writes_ok row'
     \<and> map register (row_outgoing_bases row')
         = map (\<lambda>b. if register b = from_reg then to_reg else register b) (row_outgoing_bases row)
     \<and> (\<forall>i. i \<notin> base_word_offset ` {b \<in> set (row_outgoing_bases row). register b = from_reg} \<longrightarrow>
           row_words row' ! i = row_words row ! i)
     \<and> row_sends row' = row_sends row \<and> row_receive_pointers row' = row_receive_pointers row"
proof -
  obtain instr where i: "encode_put_special_m OUTGOING_BASE to_reg = Inr instr"
    using assms(2) by (simp add: encode_put_special_m_def not_le)
  obtain sites' ws' where r:
    "replace_sites from_reg to_reg instr (row_outgoing_bases row) (row_words row) = Some (sites', ws')"
    "length ws' = length (row_words row)"
    "sites' = map (\<lambda>b. if register b = from_reg then b\<lparr>register := to_reg\<rparr> else b) (row_outgoing_bases row)"
    "\<forall>i. i \<notin> base_word_offset ` {b \<in> set (row_outgoing_bases row). register b = from_reg} \<longrightarrow>
       ws' ! i = row_words row ! i"
    "\<forall>b\<in>set sites'. encode_put_special_m OUTGOING_BASE (register b) = Inr (ws' ! base_word_offset b)"
    using replace_sites_result [OF i, of "row_outgoing_bases row" "row_words row" from_reg] assms(1)
    by (auto simp: base_writes_ok_def)
  let ?row' = "row\<lparr>row_outgoing_bases := sites', row_words := ws'\<rparr>"
  have "replace_outgoing_base_register from_reg to_reg row = Inr ?row'"
    using i r(1) by (simp add: replace_outgoing_base_register_def lift_instruction_def)
  moreover have o: "map base_word_offset sites' = map base_word_offset (row_outgoing_bases row)"
    unfolding r(3) by simp
  have "distinct (map base_word_offset sites')"
    using assms(1) by (simp only: o base_writes_ok_def)
  moreover have "base_word_offset b < length ws'" if "b \<in> set sites'" for b
  proof -
    have "base_word_offset b \<in> set (map base_word_offset (row_outgoing_bases row))"
      using that by (simp only: o [symmetric] set_map imageI)
    then show ?thesis using assms(1) r(2) by (auto simp: base_writes_ok_def)
  qed
  ultimately have "replace_outgoing_base_register from_reg to_reg row = Inr ?row'" "base_writes_ok ?row'"
    using r(5) by (simp_all add: base_writes_ok_def)
  moreover have "map register sites' = map (\<lambda>b. if register b = from_reg then to_reg else register b) (row_outgoing_bases row)"
    unfolding r(3) by simp
  ultimately show ?thesis using r(4) by (intro exI [of _ ?row']) simp
qed

lemma replace_outgoing_base_exact_witness:
  "\<exists>row'. replace_outgoing_base_register 6 15 \<lparr>row_words = [0x436080a7], row_sends = [],
       row_receive_pointers = [], row_outgoing_bases = [\<lparr>base_word_offset = 0, register = 6\<rparr>]\<rparr> = Inr row'
     \<and> map register (row_outgoing_bases row') = [15]"
  using replace_outgoing_base_exact [of "\<lparr>row_words = [0x436080a7], row_sends = [],
       row_receive_pointers = [], row_outgoing_bases = [\<lparr>base_word_offset = 0, register = 6\<rparr>]\<rparr>" 15 6]
  by (auto simp: base_writes_ok_def encode_put_special_m_def PUT_SPECIAL_M_OPCODE_def OUTGOING_BASE_def)

end
