(* ===== verification/Hazards.thy ===== *)
theory Hazards
  imports Prelude
begin

text \<open>
  The interval index that the exchange scheduler asks for simultaneous send/receive hazards
  (\<open>exchange/hazards.rs\<close>): per memory element the accesses recorded so far, sorted by start,
  each with the running maximum of the ends, so that one binary search answers a query. The
  property is that the index answers every query as an exhaustive scan of the recorded
  accesses does, whatever the order of insertion and however the intervals nest.
\<close>

record interval =
  istart :: nat
  iend :: nat
  prefix_end :: nat

type_synonym memory_history = "nat \<Rightarrow> interval list option"

definition history_default :: memory_history where
  "history_default = (\<lambda>element. None)"

text \<open>The loop over \<open>intervals[index..]\<close> that rebuilds the running maximum.\<close>

fun refresh_prefix :: "nat \<Rightarrow> interval list \<Rightarrow> interval list" where
  "refresh_prefix p [] = []"
| "refresh_prefix p (i # is) =
     (let p' = max p (iend i) in i\<lparr>prefix_end := p'\<rparr> # refresh_prefix p' is)"

definition record_element :: "nat \<Rightarrow> nat \<Rightarrow> interval list \<Rightarrow> interval list" where
  "record_element start end intervals =
     (let index = slice_partition_point (\<lambda>i. istart i \<le> start) intervals;
          p = (if index = 0 then 0 else case get intervals (index - 1) of None \<Rightarrow> 0 | Some i \<Rightarrow> prefix_end i);
          intervals' = list_insert index \<lparr>istart = start, iend = end, prefix_end = 0\<rparr> intervals
      in take index intervals' @ refresh_prefix p (drop index intervals'))"

fun record_access :: "nat list \<Rightarrow> nat \<Rightarrow> nat \<Rightarrow> memory_history \<Rightarrow> memory_history" where
  "record_access [] start end h = h"
| "record_access (element # elements) start end h =
     record_access elements start end
       (h(element \<mapsto> record_element start end (case h element of None \<Rightarrow> [] | Some is \<Rightarrow> is)))"

definition element_conflict :: "memory_history \<Rightarrow> nat \<Rightarrow> nat \<Rightarrow> nat \<Rightarrow> nat option" where
  "element_conflict h start end element =
     (case h element of
        None \<Rightarrow> None
      | Some intervals \<Rightarrow>
          (let count = slice_partition_point (\<lambda>i. istart i < end) intervals
           in if count = 0 then None
              else case get intervals (count - 1) of
                     None \<Rightarrow> None
                   | Some i \<Rightarrow> if prefix_end i > start then Some (prefix_end i) else None))"

definition conflict_end :: "nat list \<Rightarrow> nat \<Rightarrow> nat \<Rightarrow> memory_history \<Rightarrow> nat option" where
  "conflict_end elements start end h =
     (case List.map_filter (element_conflict h start end) elements of
        [] \<Rightarrow> None
      | e # es \<Rightarrow> Some (fold max es e))"

subsection \<open>The index of one element\<close>

fun prefixed :: "nat \<Rightarrow> interval list \<Rightarrow> bool" where
  "prefixed p [] = True"
| "prefixed p (i # is) = (prefix_end i = max p (iend i) \<and> prefixed (prefix_end i) is)"

definition highest :: "nat \<Rightarrow> interval list \<Rightarrow> nat" where
  "highest p is = fold (\<lambda>i m. max m (iend i)) is p"

lemma highest_simps [simp]: "highest p [] = p" "highest p (i # is) = highest (max p (iend i)) is"
  by (simp_all add: highest_def)

lemma highest_append: "highest p (xs @ ys) = highest (highest p xs) ys"
  by (simp add: highest_def)

lemma highest_greater: "s < highest p is \<longleftrightarrow> s < p \<or> (\<exists>i\<in>set is. s < iend i)"
  by (induction "is" arbitrary: p) (auto simp: less_max_iff_disj)

lemma highest_attained: "highest p is = p \<or> highest p is \<in> iend ` set is"
proof (induction "is" arbitrary: p)
  case Nil then show ?case by simp
next
  case (Cons i "is")
  then show ?case using Cons.IH [of "max p (iend i)"] by (auto simp: max_def split: if_splits)
qed

lemma highest_upper: "i \<in> set is \<Longrightarrow> iend i \<le> highest p is"
  using highest_greater [of "highest p is" p "is"] by (auto simp: not_less)

lemma get_prefix_last: "us \<noteq> [] \<Longrightarrow> get (us @ vs) (length us - 1) = Some (last us)"
  by (cases us rule: rev_cases) (simp_all add: nth_append)

lemma prefixed_append: "prefixed p (xs @ ys) \<longleftrightarrow> prefixed p xs \<and> prefixed (highest p xs) ys"
proof (induction xs arbitrary: p)
  case Nil then show ?case by simp
next
  case (Cons x xs)
  show ?case
  proof (cases "prefix_end x = max p (iend x)")
    case True then show ?thesis by (simp add: Cons.IH True)
  next
    case False then show ?thesis by simp
  qed
qed

lemma prefixed_last: "prefixed p xs \<Longrightarrow> xs \<noteq> [] \<Longrightarrow> prefix_end (last xs) = highest p xs"
  by (induction xs arbitrary: p) auto

lemma prefixed_refresh: "prefixed p (refresh_prefix p is)"
  by (induction "is" arbitrary: p) (auto simp: Let_def)

lemma refresh_times: "map istart (refresh_prefix p is) = map istart is" "map iend (refresh_prefix p is) = map iend is"
  "map (\<lambda>i. (istart i, iend i)) (refresh_prefix p is) = map (\<lambda>i. (istart i, iend i)) is"
  by (induction "is" arbitrary: p) (auto simp: Let_def)

definition index_ok :: "interval list \<Rightarrow> bool" where
  "index_ok is \<longleftrightarrow> sorted (map istart is) \<and> prefixed 0 is"

definition accesses :: "interval list \<Rightarrow> (nat \<times> nat) set" where
  "accesses is = (\<lambda>i. (istart i, iend i)) ` set is"

lemma takeWhile_sorted:
  fixes f :: "'a \<Rightarrow> nat"
  shows "sorted (map f xs) \<Longrightarrow> (\<And>a b. a \<le> b \<Longrightarrow> Q b \<Longrightarrow> Q a) \<Longrightarrow> takeWhile (\<lambda>x. Q (f x)) xs = filter (\<lambda>x. Q (f x)) xs"
proof (induction xs)
  case Nil then show ?case by simp
next
  case (Cons x xs)
  show ?case
  proof (cases "Q (f x)")
    case True then show ?thesis using Cons by simp
  next
    case False
    then have "\<forall>y\<in>set xs. \<not> Q (f y)" using Cons.prems by auto
    then show ?thesis using False by simp
  qed
qed

lemma record_element_ok:
  assumes "index_ok is"
  shows "index_ok (record_element start end is)"
    and "accesses (record_element start end is) = insert (start, end) (accesses is)"
proof -
  let ?p = "\<lambda>i. istart i \<le> start"
  let ?new = "\<lparr>istart = start, iend = end, prefix_end = 0\<rparr>"
  define us where "us = takeWhile ?p is"
  define vs where "vs = dropWhile ?p is"
  have is_eq: "is = us @ vs" by (simp add: us_def vs_def)
  have srt: "sorted (map istart us)" "sorted (map istart vs)" "prefixed 0 us"
    using assms unfolding index_ok_def is_eq by (auto simp: sorted_append prefixed_append)
  have le: "istart u \<le> start" if "u \<in> set us" for u using that unfolding us_def by (auto dest: set_takeWhileD)
  have gt: "start < istart v" if "v \<in> set vs" for v
  proof -
    have "vs \<noteq> []" using that by auto
    then have "\<not> ?p (hd vs)" unfolding vs_def by (rule hd_dropWhile)
    moreover have "istart (hd vs) \<le> istart v" using srt(2) that by (cases vs) auto
    ultimately show ?thesis by simp
  qed
  have idx: "slice_partition_point ?p is = length us" by (simp add: slice_partition_point_def us_def)
  have ins: "list_insert (length us) ?new is = us @ ?new # vs" by (simp add: list_insert_def is_eq)
  have p: "(if length us = 0 then 0 else case get is (length us - 1) of None \<Rightarrow> 0 | Some i \<Rightarrow> prefix_end i) = highest 0 us"
    using prefixed_last [OF srt(3)] get_prefix_last [of us vs]
    by (cases "us = []") (simp_all add: is_eq del: get_Some)
  have r: "record_element start end is = us @ refresh_prefix (highest 0 us) (?new # vs)"
    by (simp only: record_element_def Let_def idx ins p) simp
  have "sorted (map istart (us @ ?new # vs))"
    using srt le gt by (fastforce simp: sorted_append)
  then show "index_ok (record_element start end is)"
    unfolding index_ok_def r map_append prefixed_append
    by (simp only: refresh_times map_append [symmetric] prefixed_refresh srt(3) simp_thms)
  have "accesses (record_element start end is) = set (map (\<lambda>i. (istart i, iend i)) (us @ ?new # vs))"
    unfolding r accesses_def set_map [symmetric] map_append refresh_times ..
  then show "accesses (record_element start end is) = insert (start, end) (accesses is)"
    by (auto simp: accesses_def is_eq)
qed

lemma element_conflict_exact:
  assumes "h element = Some is" and "index_ok is"
  shows "case element_conflict h s e element of
           None \<Rightarrow> \<forall>(a, b)\<in>accesses is. \<not> (a < e \<and> s < b)
         | Some m \<Rightarrow> s < m \<and> (\<exists>a<e. (a, m) \<in> accesses is) \<and> (\<forall>(a, b)\<in>accesses is. a < e \<longrightarrow> b \<le> m)"
proof -
  let ?us = "takeWhile (\<lambda>i. istart i < e) is"
  have us: "?us = filter (\<lambda>i. istart i < e) is"
    using assms(2) by (intro takeWhile_sorted [where Q = "\<lambda>a. a < e"]) (auto simp: index_ok_def)
  have mem: "i \<in> set ?us \<longleftrightarrow> i \<in> set is \<and> istart i < e" for i unfolding us by simp
  have "prefixed 0 (?us @ dropWhile (\<lambda>i. istart i < e) is)" using assms(2) by (simp add: index_ok_def)
  then have pre: "prefixed 0 ?us" by (simp only: prefixed_append)
  show ?thesis
  proof (cases "?us = []")
    case True
    then have "element_conflict h s e element = None"
      using assms(1) by (simp add: element_conflict_def slice_partition_point_def)
    moreover have "\<not> a < e" if "(a, b) \<in> accesses is" for a b
      using that mem unfolding True by (auto simp: accesses_def)
    ultimately show ?thesis by auto
  next
    case False
    have "get is (length ?us - 1) = Some (last ?us)"
      using get_prefix_last [OF False, of "dropWhile (\<lambda>i. istart i < e) is"]
      by (simp only: takeWhile_dropWhile_id)
    then have c: "element_conflict h s e element = (if s < highest 0 ?us then Some (highest 0 ?us) else None)"
      using assms(1) False prefixed_last [OF pre False]
      by (simp add: element_conflict_def slice_partition_point_def Let_def del: get_Some)
    show ?thesis
    proof (cases "s < highest 0 ?us")
      case True
      then obtain i where "i \<in> set ?us" "iend i = highest 0 ?us"
        using highest_attained [of 0 ?us] by auto
      then have "istart i < e" "(istart i, highest 0 ?us) \<in> accesses is"
        using mem by (auto simp: accesses_def intro!: image_eqI [of _ _ i])
      then have "\<exists>a<e. (a, highest 0 ?us) \<in> accesses is" by blast
      moreover have "b \<le> highest 0 ?us" if "(a, b) \<in> accesses is" "a < e" for a b
        using that mem highest_upper [of _ ?us 0] by (auto simp: accesses_def)
      ultimately show ?thesis using c True by auto
    next
      case False
      then show ?thesis using c mem highest_greater [of s 0 ?us] by (auto simp: accesses_def)
    qed
  qed
qed

subsection \<open>Histories\<close>

text \<open>\<open>represents h recs\<close>: the index holds exactly the recorded accesses, as triples of element, start
  and end.\<close>

definition represents :: "memory_history \<Rightarrow> (nat \<times> nat \<times> nat) set \<Rightarrow> bool" where
  "represents h recs \<longleftrightarrow>
     (\<forall>element. case h element of
        None \<Rightarrow> (\<forall>a b. (element, a, b) \<notin> recs)
      | Some is \<Rightarrow> index_ok is \<and> accesses is = {(a, b). (element, a, b) \<in> recs})"

lemma represents_default: "represents history_default {}"
  by (simp add: represents_def history_default_def)

lemma represents_record:
  "represents h recs \<Longrightarrow>
   represents (record_access elements s e h) (recs \<union> (\<lambda>x. (x, s, e)) ` set elements)"
proof (induction elements arbitrary: h recs)
  case Nil then show ?case by simp
next
  case (Cons x xs)
  let ?is = "case h x of None \<Rightarrow> [] | Some is \<Rightarrow> is"
  have ok: "index_ok ?is" "accesses ?is = {(a, b). (x, a, b) \<in> recs}"
    using Cons.prems by (cases "h x"; force simp: represents_def index_ok_def accesses_def dest: spec [of _ x])+
  have "represents (h(x \<mapsto> record_element s e ?is)) (insert (x, s, e) recs)"
    using Cons.prems record_element_ok [OF ok(1), of s e] ok(2)
    unfolding represents_def by (auto simp: option.case_eq_if)
  moreover have "insert (x, s, e) recs \<union> (\<lambda>x. (x, s, e)) ` set xs = recs \<union> (\<lambda>x. (x, s, e)) ` set (x # xs)"
    by auto
  ultimately show ?case
    using Cons.IH [of "h(x \<mapsto> record_element s e ?is)" "insert (x, s, e) recs"]
    by (simp only: record_access.simps)
qed

lemma fold_max_Max: "fold max es e = Max (set (e # es))" for es :: "nat list"
  by (simp only: Max.set_eq_fold)

text \<open>An exhaustive scan of the records.\<close>

definition exhaustive_conflict ::
  "nat list \<Rightarrow> nat \<Rightarrow> nat \<Rightarrow> (nat \<times> nat \<times> nat) list \<Rightarrow> nat option" where
  "exhaustive_conflict elements s e recs =
     (case map (\<lambda>(x, a, b). b) (filter (\<lambda>(x, a, b). x \<in> set elements \<and> a < e \<and> s < b) recs) of
        [] \<Rightarrow> None | b # bs \<Rightarrow> Some (fold max bs b))"


definition history_of :: "(nat list \<times> nat \<times> nat) list \<Rightarrow> memory_history" where
  "history_of recs = foldl (\<lambda>h (elements, s, e). record_access elements s e h) history_default recs"

definition triples :: "(nat list \<times> nat \<times> nat) list \<Rightarrow> (nat \<times> nat \<times> nat) list" where
  "triples recs = [(x, s, e). (elements, s, e) \<leftarrow> recs, x \<leftarrow> elements]"

lemma represents_foldl:
  "represents h rs \<Longrightarrow>
   represents (foldl (\<lambda>h (elements, s, e). record_access elements s e h) h recs) (rs \<union> set (triples recs))"
proof (induction recs arbitrary: h rs)
  case Nil then show ?case by (simp add: triples_def)
next
  case (Cons r recs)
  obtain xs s e where r: "r = (xs, s, e)" by (cases r)
  have "rs \<union> set (triples (r # recs)) = (rs \<union> (\<lambda>x. (x, s, e)) ` set xs) \<union> set (triples recs)"
    by (auto simp: triples_def r)
  then show ?case using Cons.IH [OF represents_record [OF Cons.prems, of xs s e]] by (simp add: r)
qed

lemma represents_history: "represents (history_of recs) (set (triples recs))"
  using represents_foldl [OF represents_default, of recs] by (simp add: history_of_def)

text \<open>What one element contributes to a query.\<close>

lemma element_conflict_represents:
  assumes "represents h recs"
  shows "case element_conflict h s e x of
           None \<Rightarrow> \<forall>a b. (x, a, b) \<in> recs \<longrightarrow> \<not> (a < e \<and> s < b)
         | Some m \<Rightarrow> s < m \<and> (\<exists>a<e. (x, a, m) \<in> recs) \<and> (\<forall>a b. (x, a, b) \<in> recs \<longrightarrow> a < e \<longrightarrow> b \<le> m)"
proof (cases "h x")
  case None
  then show ?thesis using assms by (auto simp: element_conflict_def represents_def dest: spec [of _ x])
next
  case (Some "is")
  then have i: "index_ok is" "accesses is = {(a, b). (x, a, b) \<in> recs}"
    using assms by (auto simp: represents_def dest: spec [of _ x])
  show ?thesis using element_conflict_exact [of h x "is" e s, OF Some i(1)] unfolding i(2) by (auto split: option.splits)
qed

lemma Max_case: "(case xs of [] \<Rightarrow> None | y # ys \<Rightarrow> Some (fold max ys y)) = (if xs = [] then None else Some (Max (set xs)))"
  for xs :: "nat list"
  by (cases xs) (simp_all only: fold_max_Max list.case if_True if_False list.distinct simp_thms)

subsection \<open>Properties\<close>

text \<open>
  C18: The interval index is exact: after recording any accesses in any order, nested and
  overlapping ones included, a query returns the latest end of the recorded accesses to the
  queried elements that overlap the queried interval, and nothing when none overlaps, as an
  exhaustive scan of the records does.
\<close>

theorem conflict_end_exhaustive:
  "conflict_end elements s e (history_of recs) = exhaustive_conflict elements s e (triples recs)"
proof -
  let ?h = "history_of recs"
  define ms where "ms = List.map_filter (element_conflict ?h s e) elements"
  define bs where "bs = map (\<lambda>(x, a, b). b) (filter (\<lambda>(x, a, b). x \<in> set elements \<and> a < e \<and> s < b) (triples recs))"
  note q = element_conflict_represents [OF represents_history [of recs], where s = s and e = e]
  have ms: "m \<in> set ms \<longleftrightarrow> (\<exists>x\<in>set elements. element_conflict ?h s e x = Some m)" for m
    by (simp add: ms_def set_map_filter)
  have bs: "b \<in> set bs \<longleftrightarrow> (\<exists>x\<in>set elements. \<exists>a<e. (x, a, b) \<in> set (triples recs) \<and> s < b)" for b
    by (force simp: bs_def)
  have sub: "m \<in> set bs" if m: "m \<in> set ms" for m
  proof -
    obtain x where x: "x \<in> set elements" "element_conflict ?h s e x = Some m" using m [unfolded ms] by blast
    have "s < m \<and> (\<exists>a<e. (x, a, m) \<in> set (triples recs))" using q [of x] unfolding x(2) by simp
    then show ?thesis using x(1) unfolding bs by blast
  qed
  have dom: "\<exists>m\<in>set ms. b \<le> m" if b: "b \<in> set bs" for b
  proof -
    obtain x a where x: "x \<in> set elements" "a < e" "(x, a, b) \<in> set (triples recs)" "s < b"
      using b [unfolded bs] by blast
    show ?thesis
    proof (cases "element_conflict ?h s e x")
      case None
      then have False using q [of x] x(2-4) unfolding None by auto
      then show ?thesis ..
    next
      case (Some m)
      then have "b \<le> m" using q [of x] x(2,3) unfolding Some by auto
      moreover have "m \<in> set ms" unfolding ms using Some x(1) by blast
      ultimately show ?thesis by blast
    qed
  qed
  have "ms = [] \<longleftrightarrow> bs = []" using sub dom by (metis list.set_intros(1) neq_Nil_conv empty_iff list.set(1))
  moreover have "Max (set ms) = Max (set bs)" if "ms \<noteq> []" "bs \<noteq> []"
  proof (rule antisym)
    show "Max (set ms) \<le> Max (set bs)" using that sub by (intro Max.subset_imp) auto
    show "Max (set bs) \<le> Max (set ms)"
      using that dom by (subst Max_le_iff) (auto simp: Max_ge_iff)
  qed
  ultimately show ?thesis
    unfolding conflict_end_def exhaustive_conflict_def Max_case ms_def [symmetric] bs_def [symmetric]
    by (cases "bs = []") simp_all
qed

end
