(* ===== verification/Transfers.thy ===== *)
theory Transfers
  imports Prelude Target Instruction Fabric EncodedRow
begin

text \<open>
  Pending transfers of an exchange phase (\<open>exchange/prepare.rs\<close>, \<open>exchange/packet.rs\<close> and
  the item widths of \<open>exchange/mod.rs\<close>): cutting matched spans into hardware messages,
  attaching the source addresses of each Repeat iteration, merging contiguous messages and
  splitting a message in two.

  A transfer copies \<open>words\<close> 32-bit words from one tile to a list of destinations. The meaning
  of a transfer is \<open>exec\<close>: it changes the memory of all tiles at once, for one Repeat
  iteration. Rewriting a list of transfers is correct when the meaning of the list, executed
  in order, does not change.

  Tiles are \<open>u16\<close>, addresses and word counts \<open>u32\<close>. The products \<open>words * 4\<close> are written
  without a bound: \<open>MAX_TRANSFER_WORDS\<close> keeps them far below 2^32 for every transfer built here.
\<close>

subsection \<open>Data\<close>

definition MAX_TRANSFER_WORDS :: nat where "MAX_TRANSFER_WORDS = 4148"

datatype exchange_item_width = Word32 | Paired64

text \<open>The parameter \<open>'st\<close> is \<open>StorageError\<close>, raised by view traversal only.\<close>

datatype 'st exchange_lowering_error =
    TopologyFailure topology_error
  | InstructionFailure instruction_error
  | ExchangeFailure exchange_error
  | StorageFailure 'st
  | UnplacedShard
  | InvalidDestination
  | UnalignedPayload
  | SizeMismatch
  | OverflowFailure
  | IncompatibleRepeatRows string
  | DiagnosticTile nat
  | InvariantFailure string

record pending_transfer =
  source :: nat
  source_shard :: nat
  source_offset :: nat
  destinations :: "(nat \<times> nat) list"
  source_addresses :: "nat list"
  source_elements :: "nat list"
  words :: nat
  width :: exchange_item_width
  reserved_source :: "nat option"

subsection \<open>Operations of one transfer\<close>

fun item_words :: "exchange_item_width \<Rightarrow> nat" where
  "item_words Word32 = 1"
| "item_words Paired64 = 2"

definition width_item_count :: "exchange_item_width \<Rightarrow> nat \<Rightarrow> 'st exchange_lowering_error + nat" where
  "width_item_count w n =
     (if n = 0 \<or> \<not> is_multiple_of n (item_words w) then Inl UnalignedPayload
      else Inr (n div item_words w))"

text \<open>Index 0 exists: every transfer is built with a nonempty list of source addresses.\<close>

definition source_address :: "pending_transfer \<Rightarrow> nat" where
  "source_address t = source_addresses t ! 0"

definition moving_source :: "pending_transfer \<Rightarrow> bool" where
  "moving_source t = list_ex (\<lambda>a. a \<noteq> source_address t) (source_addresses t)"

definition option_list :: "'a option \<Rightarrow> 'a list" where
  "option_list m = (case m of None \<Rightarrow> [] | Some x \<Rightarrow> [x])"

definition tiles :: "pending_transfer \<Rightarrow> nat list" where
  "tiles t = [source t] @ option_list (reserved_source t) @ map fst (destinations t)"

definition pressure_resources :: "bool \<Rightarrow> pending_transfer \<Rightarrow> nat list" where
  "pressure_resources directional t =
     (let stride = (if directional then 2 else 1)
      in map (\<lambda>tile. tile * stride) ([source t] @ option_list (reserved_source t))
         @ map (\<lambda>(tile, _). tile * stride + (if directional then 1 else 0)) (destinations t))"

definition item_count :: "pending_transfer \<Rightarrow> 'st exchange_lowering_error + nat" where
  "item_count t = width_item_count (width t) (words t)"

definition supports_paired_width :: "pending_transfer \<Rightarrow> bool" where
  "supports_paired_width t \<longleftrightarrow>
     words t \<ge> 2 \<and> is_multiple_of (words t) 2
   \<and> list_all (\<lambda>a. is_multiple_of a 8) (source_addresses t @ map snd (destinations t))"

text \<open>\<open>sort_unstable\<close> and \<open>dedup\<close> (which drops consecutive repetitions).\<close>

definition refresh_source_elements :: "pending_transfer \<Rightarrow> pending_transfer" where
  "refresh_source_elements t =
     t\<lparr>source_elements := remdups_adj (sort (concat
          (map (\<lambda>address. effective_memory_elements address (words t)) (source_addresses t))))\<rparr>"

definition repeat_source_address :: "pending_transfer \<Rightarrow> nat \<Rightarrow> nat" where
  "repeat_source_address t iteration =
     (case get (source_addresses t) iteration of None \<Rightarrow> source_address t | Some a \<Rightarrow> a)"

text \<open>\<open>attach_repeat_source_addresses\<close>, one transfer at a time.\<close>

definition attach_one ::
  "(nat \<Rightarrow> nat list option) \<Rightarrow> pending_transfer \<Rightarrow> 'st exchange_lowering_error + pending_transfer" where
  "attach_one repeat_inputs t =
     (case repeat_inputs (source_shard t) of
        None \<Rightarrow> Inr (refresh_source_elements t)
      | Some inputs \<Rightarrow>
          res_bind (traverse (\<lambda>address. ok_or (checked_add 32 address (source_offset t)) OverflowFailure) inputs)
            (\<lambda>addresses.
             if get addresses 0 \<noteq> Some (source_address t)
             then Inl (IncompatibleRepeatRows ''argument address differs from its first sequence member'')
             else Inr (refresh_source_elements (t\<lparr>source_addresses := addresses\<rparr>))))"

definition attach_repeat_source_addresses ::
  "(nat \<Rightarrow> nat list option) \<Rightarrow> pending_transfer list \<Rightarrow> 'st exchange_lowering_error + pending_transfer list" where
  "attach_repeat_source_addresses repeat_inputs pending = traverse (attach_one repeat_inputs) pending"

subsection \<open>Merging contiguous transfers\<close>

definition contiguous :: "pending_transfer \<Rightarrow> pending_transfer \<Rightarrow> bool" where
  "contiguous previous t \<longleftrightarrow>
     (let previous_bytes = words previous * 4 in
      source previous = source t
    \<and> width previous = width t
    \<and> source_shard previous = source_shard t
    \<and> checked_add 32 (source_offset previous) previous_bytes = Some (source_offset t)
    \<and> length (destinations previous) = length (destinations t)
    \<and> length (source_addresses previous) = length (source_addresses t)
    \<and> list_all (\<lambda>(left, right). checked_add 32 left previous_bytes = Some right)
        (zip (source_addresses previous) (source_addresses t))
    \<and> list_all (\<lambda>((left_tile, left_address), (right_tile, right_address)).
          left_tile = right_tile \<and> checked_add 32 left_address previous_bytes = Some right_address)
        (zip (destinations previous) (destinations t)))"

definition combined_words :: "pending_transfer \<Rightarrow> pending_transfer \<Rightarrow> nat option" where
  "combined_words previous t =
     (case checked_add 32 (words previous) (words t) of
        None \<Rightarrow> None
      | Some n \<Rightarrow>
          if contiguous previous t \<and> n \<le> MAX_TRANSFER_WORDS
             \<and> list_all (\<lambda>(tile, address).
                  tile \<noteq> source previous
                \<or> list_all (\<lambda>src. address + n * 4 \<le> src \<or> src + n * 4 \<le> address) (source_addresses previous))
                (destinations previous)
          then Some n else None)"

definition coalesce_step :: "pending_transfer list \<Rightarrow> pending_transfer \<Rightarrow> pending_transfer list" where
  "coalesce_step merged t =
     (if merged = [] then [t]
      else (case combined_words (last merged) t of
              Some n \<Rightarrow> butlast merged @ [refresh_source_elements ((last merged)\<lparr>words := n\<rparr>)]
            | None \<Rightarrow> merged @ [t]))"

definition coalesce_pending_transfers :: "pending_transfer list \<Rightarrow> pending_transfer list" where
  "coalesce_pending_transfers ts = foldl coalesce_step [] ts"

subsection \<open>Meaning\<close>

text \<open>Memory of all tiles: a value for each tile and byte address.\<close>

type_synonym 'v tile_memories = "nat \<Rightarrow> nat \<Rightarrow> 'v"

definition covers :: "nat \<Rightarrow> nat \<times> nat \<Rightarrow> nat \<Rightarrow> nat \<Rightarrow> bool" where
  "covers n d tile a \<longleftrightarrow> fst d = tile \<and> snd d \<le> a \<and> a < snd d + 4 * n"

definition exec :: "nat \<Rightarrow> pending_transfer \<Rightarrow> 'v tile_memories \<Rightarrow> 'v tile_memories" where
  "exec i t m = (\<lambda>tile a.
     case find (\<lambda>d. covers (words t) d tile a) (rev (destinations t)) of
       Some d \<Rightarrow> m (source t) (repeat_source_address t i + (a - snd d))
     | None \<Rightarrow> m tile a)"

definition replay :: "nat \<Rightarrow> pending_transfer list \<Rightarrow> 'v tile_memories \<Rightarrow> 'v tile_memories" where
  "replay i ts m = foldl (\<lambda>m t. exec i t m) m ts"

text \<open>The shape every prepared transfer has: source addresses for at least one iteration, no tile
  listed twice as a receiver (the phase builder refuses that), at most the maximal payload.\<close>

definition transfer_ok :: "pending_transfer \<Rightarrow> bool" where
  "transfer_ok t \<longleftrightarrow>
     source_addresses t \<noteq> [] \<and> distinct (map fst (destinations t)) \<and> 0 < words t \<and> words t \<le> MAX_TRANSFER_WORDS"

lemma find_distinct:
  assumes "distinct (map fst ds)" and "d \<in> set ds" and "covers n d tile a"
  shows "find (\<lambda>d. covers n d tile a) (rev ds) = Some d"
proof -
  have "find (\<lambda>d. covers n d tile a) (rev ds) \<noteq> None"
    using assms(2,3) by (metis find_None_iff set_rev)
  then obtain e where e: "find (\<lambda>d. covers n d tile a) (rev ds) = Some e" by blast
  then have "e \<in> set ds" "covers n e tile a" by (auto simp: find_Some_iff rev_nth)
  then have "e = d" using assms by (auto simp: covers_def distinct_map inj_on_def)
  then show ?thesis using e by simp
qed

lemma find_none: "(\<And>d. d \<in> set ds \<Longrightarrow> \<not> covers n d tile a) \<Longrightarrow> find (\<lambda>d. covers n d tile a) (rev ds) = None"
  by (auto simp: find_None_iff)

lemma exec_covered:
  "distinct (map fst (destinations t)) \<Longrightarrow> d \<in> set (destinations t) \<Longrightarrow> covers (words t) d tile a \<Longrightarrow>
   exec i t m tile a = m (source t) (repeat_source_address t i + (a - snd d))"
  by (simp add: exec_def find_distinct)

lemma exec_uncovered:
  "(\<And>d. d \<in> set (destinations t) \<Longrightarrow> \<not> covers (words t) d tile a) \<Longrightarrow> exec i t m tile a = m tile a"
  by (simp add: exec_def find_none)

lemma replay_simps [simp]:
  "replay i [] m = m" "replay i (t # ts) m = replay i ts (exec i t m)"
  "replay i (ts @ us) m = replay i us (replay i ts m)"
  by (simp_all add: replay_def)

text \<open>The cached memory elements do not influence the meaning.\<close>

lemma exec_elements [simp]: "exec i (t\<lparr>source_elements := es\<rparr>) m = exec i t m"
  by (simp add: exec_def repeat_source_address_def source_address_def cong: option.case_cong)

lemma words_update_simps [simp]:
  "source_address (t\<lparr>words := n\<rparr>) = source_address t"
  "repeat_source_address (t\<lparr>words := n\<rparr>) i = repeat_source_address t i"
  by (simp_all add: source_address_def repeat_source_address_def cong: option.case_cong)

lemma refresh_simps [simp]:
  "source (refresh_source_elements t) = source t" "words (refresh_source_elements t) = words t"
  "destinations (refresh_source_elements t) = destinations t"
  "source_addresses (refresh_source_elements t) = source_addresses t"
  "width (refresh_source_elements t) = width t" "source_offset (refresh_source_elements t) = source_offset t"
  "source_shard (refresh_source_elements t) = source_shard t"
  "exec i (refresh_source_elements t) m = exec i t m"
  by (simp_all add: refresh_source_elements_def)

lemma refresh_elements:
  "sorted_wrt (<) (source_elements (refresh_source_elements t))
   \<and> set (source_elements (refresh_source_elements t))
       = (\<Union>a\<in>set (source_addresses t). set (effective_memory_elements a (words t)))"
  by (simp add: refresh_source_elements_def dedup_sorted)

subsection \<open>Joining two halves of a transfer\<close>

text \<open>\<open>follows t u\<close>: \<open>u\<close> copies the bytes right after those of \<open>t\<close>, for every iteration and
  destination. Merging produces a transfer from such a pair, splitting produces such a pair.\<close>

definition follows :: "pending_transfer \<Rightarrow> pending_transfer \<Rightarrow> bool" where
  "follows t u \<longleftrightarrow>
     source u = source t
   \<and> source_addresses u = map (\<lambda>a. a + 4 * words t) (source_addresses t)
   \<and> destinations u = map (\<lambda>(tile, a). (tile, a + 4 * words t)) (destinations t)"

definition self_disjoint :: "pending_transfer \<Rightarrow> bool" where
  "self_disjoint t \<longleftrightarrow>
     (\<forall>(tile, a)\<in>set (destinations t). tile = source t \<longrightarrow>
        (\<forall>src\<in>set (source_addresses t). a + 4 * words t \<le> src \<or> src + 4 * words t \<le> a))"

lemma zip_shift:
  "length xs = length ys \<Longrightarrow> list_all (\<lambda>(x, y). f x = Some y) (zip xs ys) \<Longrightarrow> (\<And>x y. f x = Some y \<Longrightarrow> y = g x)
   \<Longrightarrow> ys = map g xs"
  by (induction xs ys rule: list_induct2) auto

lemma contiguous_follows: "contiguous t u \<Longrightarrow> follows t u"
proof -
  assume c: "contiguous t u"
  have "source_addresses u = map (\<lambda>a. a + 4 * words t) (source_addresses t)"
    using c by (intro zip_shift [of _ _ "\<lambda>a. checked_add 32 a (words t * 4)"])
      (auto simp: contiguous_def Let_def checked_add_def split: if_splits)
  moreover have "destinations u = map (\<lambda>(tile, a). (tile, a + 4 * words t)) (destinations t)"
  proof (rule zip_shift [of _ _ "\<lambda>(tile, a). map_option (\<lambda>b. (tile, b)) (checked_add 32 a (words t * 4))"])
    show "length (destinations t) = length (destinations u)" using c by (simp add: contiguous_def Let_def)
    have "list_all (\<lambda>((tile, a), (tile', a')). tile = tile' \<and> checked_add 32 a (words t * 4) = Some a')
        (zip (destinations t) (destinations u))"
      using c by (simp add: contiguous_def Let_def)
    then show "list_all (\<lambda>(x, y). (case x of (tile, a) \<Rightarrow> map_option (\<lambda>b. (tile, b)) (checked_add 32 a (words t * 4))) = Some y)
        (zip (destinations t) (destinations u))"
      by (rule list.pred_mono_strong) auto
  qed (auto simp: checked_add_def split: if_splits prod.splits)
  ultimately show ?thesis using c by (simp add: follows_def contiguous_def Let_def)
qed

lemma repeat_source_follows:
  assumes "follows t u" and "source_addresses t \<noteq> []"
  shows "repeat_source_address u i = repeat_source_address t i + 4 * words t"
  using assms by (auto simp: follows_def repeat_source_address_def source_address_def get_def)

lemma repeat_source_in: "source_addresses t \<noteq> [] \<Longrightarrow> repeat_source_address t i \<in> set (source_addresses t)"
  by (auto simp: repeat_source_address_def source_address_def get_def)

lemma join_exec:
  assumes "follows t u" and "source_addresses t \<noteq> []" and "distinct (map fst (destinations t))"
    and "self_disjoint (t\<lparr>words := words t + words u\<rparr>)"
  shows "exec i (t\<lparr>words := words t + words u\<rparr>) m = exec i u (exec i t m)"
proof (intro ext)
  fix tile a
  let ?tu = "t\<lparr>words := words t + words u\<rparr>"
  have du: "distinct (map fst (destinations u))"
    using assms(1,3) by (simp add: follows_def comp_def split_beta)
  have mem_u: "(tl, x) \<in> set (destinations u) \<longleftrightarrow> 4 * words t \<le> x \<and> (tl, x - 4 * words t) \<in> set (destinations t)" for tl x
    using assms(1) by (auto simp: follows_def image_iff intro: bexI [rotated])
  show "exec i ?tu m tile a = exec i u (exec i t m) tile a"
  proof (cases "\<exists>d\<in>set (destinations t). covers (words t + words u) d tile a")
    case False
    then have t: "\<not> covers (words t) d tile a" if "d \<in> set (destinations t)" for d
      using that by (auto simp: covers_def)
    have u: "\<not> covers (words u) d tile a" if "d \<in> set (destinations u)" for d
      using that False mem_u [of "fst d" "snd d"] by (fastforce simp: covers_def)
    have tu: "\<not> covers (words ?tu) d tile a" if "d \<in> set (destinations ?tu)" for d
      using False that by simp
    have "exec i ?tu m tile a = m tile a" by (rule exec_uncovered) (rule tu)
    then show ?thesis by (simp add: exec_uncovered [OF t] exec_uncovered [OF u])
  next
    case True
    then obtain x where x: "(tile, x) \<in> set (destinations t)" "x \<le> a" "a < x + 4 * (words t + words u)"
      by (auto simp: covers_def)
    have c: "exec i ?tu m tile a = m (source t) (repeat_source_address t i + (a - x))"
      using exec_covered [of ?tu "(tile, x)" tile a i m] x assms(3) by (simp add: covers_def)
    show ?thesis
    proof (cases "a < x + 4 * words t")
      case True
      have "\<not> covers (words u) d tile a" if "d \<in> set (destinations u)" for d
      proof
        assume cv: "covers (words u) d tile a"
        then have d: "d = (tile, snd d)" by (auto simp: covers_def)
        then have "(tile, snd d - 4 * words t) \<in> set (destinations t)" "4 * words t \<le> snd d"
          using that mem_u [of tile "snd d"] by auto
        then have "snd d - 4 * words t = x"
          using x(1) assms(3) by (metis eq_key_imp_eq_value)
        then have "snd d = x + 4 * words t" using \<open>4 * words t \<le> snd d\<close> by linarith
        then show False using cv True by (simp add: covers_def)
      qed
      then have "exec i u (exec i t m) tile a = exec i t m tile a" by (rule exec_uncovered)
      also have "\<dots> = m (source t) (repeat_source_address t i + (a - x))"
        using exec_covered [of t "(tile, x)" tile a i m] x True assms(3) by (simp add: covers_def)
      finally show ?thesis using c by simp
    next
      case False
      let ?s = "repeat_source_address t i + (a - x)"
      have "(tile, x + 4 * words t) \<in> set (destinations u)" using x(1) mem_u by simp
      then have "exec i u (exec i t m) tile a
          = exec i t m (source u) (repeat_source_address u i + (a - (x + 4 * words t)))"
        using exec_covered [of u "(tile, x + 4 * words t)" tile a i "exec i t m"] False x(3) du
        by (simp add: covers_def)
      also have "\<dots> = exec i t m (source t) ?s"
        using False assms(1) repeat_source_follows [OF assms(1,2)] by (simp add: follows_def)
      also have "\<dots> = m (source t) ?s"
      proof (rule exec_uncovered)
        fix d assume d: "d \<in> set (destinations t)"
        have "repeat_source_address t i \<in> set (source_addresses t)" using assms(2) by (rule repeat_source_in)
        then have "fst d = source t \<Longrightarrow> snd d + 4 * (words t + words u) \<le> repeat_source_address t i
            \<or> repeat_source_address t i + 4 * (words t + words u) \<le> snd d"
          using assms(4) d by (force simp: self_disjoint_def)
        then show "\<not> covers (words t) d (source t) ?s" using x(2,3) by (auto simp: covers_def)
      qed
      finally show ?thesis using c by simp
    qed
  qed
qed

subsection \<open>Merging\<close>

lemma combined_words_Some:
  assumes "combined_words t u = Some n"
  shows "n = words t + words u" and "n \<le> MAX_TRANSFER_WORDS" and "follows t u"
    and "self_disjoint (t\<lparr>words := words t + words u\<rparr>)" and "source_shard t = source_shard u"
proof -
  have n: "n = words t + words u" and c: "contiguous t u"
    and d: "list_all (\<lambda>(tile, address). tile \<noteq> source t
              \<or> list_all (\<lambda>src. address + n * 4 \<le> src \<or> src + n * 4 \<le> address) (source_addresses t))
                (destinations t)" and "n \<le> MAX_TRANSFER_WORDS"
    using assms by (auto simp: combined_words_def checked_add_def split: if_splits)
  then show "n = words t + words u" "n \<le> MAX_TRANSFER_WORDS" "follows t u" "source_shard t = source_shard u"
    by (auto intro: contiguous_follows simp: contiguous_def Let_def)
  show "self_disjoint (t\<lparr>words := words t + words u\<rparr>)"
    using d by (auto simp: self_disjoint_def list_all_iff n mult.commute add_mult_distrib2)
qed

lemma coalesce_step_correct:
  assumes "list_all transfer_ok merged" and "transfer_ok t"
  shows "list_all transfer_ok (coalesce_step merged t)"
    and "replay i (coalesce_step merged t) m = replay i (merged @ [t]) m"
    and "sum_list (map words (coalesce_step merged t)) = sum_list (map words merged) + words t"
proof -
  have "list_all transfer_ok (coalesce_step merged t)
      \<and> replay i (coalesce_step merged t) m = replay i (merged @ [t]) m
      \<and> sum_list (map words (coalesce_step merged t)) = sum_list (map words merged) + words t"
  proof (cases merged rule: rev_cases)
    case Nil then show ?thesis using assms by (simp add: coalesce_step_def)
  next
    case (snoc us p)
    then have p: "transfer_ok p" "list_all transfer_ok us" using assms(1) by auto
    show ?thesis
    proof (cases "combined_words p t")
      case None
      then show ?thesis using assms snoc by (simp add: coalesce_step_def)
    next
      case (Some n)
      note c = combined_words_Some [OF Some]
      have "exec i (p\<lparr>words := n\<rparr>) m' = exec i t (exec i p m')" for m' :: "'a tile_memories"
        using join_exec [OF c(3) _ _ c(4)] p(1) c(1) by (simp add: transfer_ok_def)
      moreover have "transfer_ok (refresh_source_elements (p\<lparr>words := n\<rparr>))"
        using p(1) c(1,2) assms(2) by (simp add: transfer_ok_def)
      ultimately show ?thesis using p snoc Some c(1) by (simp add: coalesce_step_def)
    qed
  qed
  then show "list_all transfer_ok (coalesce_step merged t)"
    "replay i (coalesce_step merged t) m = replay i (merged @ [t]) m"
    "sum_list (map words (coalesce_step merged t)) = sum_list (map words merged) + words t" by auto
qed

lemma coalesce_correct:
  "list_all transfer_ok merged \<Longrightarrow> list_all transfer_ok ts \<Longrightarrow>
   list_all transfer_ok (foldl coalesce_step merged ts)
   \<and> replay i (foldl coalesce_step merged ts) m = replay i (merged @ ts) m
   \<and> sum_list (map words (foldl coalesce_step merged ts)) = sum_list (map words merged) + sum_list (map words ts)"
proof (induction ts arbitrary: merged)
  case Nil then show ?case by simp
next
  case (Cons t ts)
  have "transfer_ok t" using Cons.prems(2) by simp
  note st = coalesce_step_correct [OF Cons.prems(1) this]
  have "replay i (coalesce_step merged t) m = replay i (merged @ [t]) m" by (rule st(2))
  then show ?case using st(1,3) Cons.IH [of "coalesce_step merged t"] Cons.prems(2) by simp
qed

subsection \<open>Splitting a transfer\<close>

text \<open>
  \<open>split_self_receive_conflicts\<close>: a sender that is also a receiver may not start its own
  receive on the first word it sends, and such a packet is halved until no packet conflicts.
  Whether a packet conflicts is decided on its hardware plan; the loop takes the test as the
  parameter \<open>conflict\<close> (width, source, receivers, item count, receiver index), and its
  correctness below holds for every test.
\<close>

definition advance_all :: "nat \<Rightarrow> nat list \<Rightarrow> 'st exchange_lowering_error + nat list" where
  "advance_all bytes = traverse (\<lambda>a. ok_or (checked_add 32 a bytes) OverflowFailure)"

definition split_first :: "nat \<Rightarrow> pending_transfer \<Rightarrow> pending_transfer" where
  "split_first count t = refresh_source_elements (t\<lparr>words := (count div 2) * item_words (width t)\<rparr>)"

definition split_rest :: "nat \<Rightarrow> pending_transfer \<Rightarrow> 'st exchange_lowering_error + pending_transfer" where
  "split_rest first_words t =
     res_bind (ok_or (checked_mul 32 first_words 4) OverflowFailure) (\<lambda>bytes.
     res_bind (advance_all bytes (source_addresses t)) (\<lambda>sources.
     res_bind (advance_all bytes (map snd (destinations t))) (\<lambda>targets.
     res_bind (ok_or (checked_add 32 (source_offset t) bytes) OverflowFailure) (\<lambda>offset.
     Inr (refresh_source_elements
            (t\<lparr>words := words t - first_words, source_addresses := sources,
               destinations := zip (map fst (destinations t)) targets, source_offset := offset\<rparr>))))))"

type_synonym 'st conflict_test =
  "exchange_item_width \<Rightarrow> nat \<Rightarrow> nat list \<Rightarrow> nat \<Rightarrow> nat \<Rightarrow> 'st exchange_lowering_error + bool"

text \<open>One packet: keep it (\<open>None\<close>) or replace it by two.\<close>

definition split_packet ::
  "'st conflict_test \<Rightarrow> pending_transfer \<Rightarrow>
   'st exchange_lowering_error + (pending_transfer \<times> pending_transfer) option" where
  "split_packet conflict t =
     (case position (\<lambda>(tile, _). tile = source t) (destinations t) of
        None \<Rightarrow> Inr None
      | Some receiver \<Rightarrow>
          res_bind (item_count t) (\<lambda>count.
          res_bind (conflict (width t) (source t) (map fst (destinations t)) count receiver) (\<lambda>conflicts.
          if \<not> conflicts then Inr None
          else if count = 1
          then Inl (InvariantFailure ''single-item self-receive conflicts with send initialization'')
          else (let first = split_first count t
                in res_bind (split_rest (words first) t) (\<lambda>rest. Inr (Some (first, rest)))))))"

lemma item_count_Inr:
  "item_count t = Inr count \<longleftrightarrow> 0 < words t \<and> words t = count * item_words (width t)"
  by (cases "width t") (auto simp: item_count_def width_item_count_def is_multiple_of_def)

lemma item_words_pos [simp]: "0 < item_words w" "item_words w \<noteq> 0"
  by (cases w; simp)+

lemma split_packet_Some:
  fixes conflict :: "'st conflict_test"
  assumes "split_packet conflict t = Inr (Some (first, rest))"
  shows "\<exists>n es. 0 < n \<and> n < words t \<and> first = t\<lparr>words := n, source_elements := es\<rparr>
     \<and> words rest = words t - n \<and> follows first rest \<and> source_shard rest = source_shard t
     \<and> width rest = width t \<and> source_offset rest = source_offset t + 4 * n"
proof -
  obtain count where w: "0 < words t" "words t = count * item_words (width t)" "count \<noteq> 1"
    and f: "first = split_first count t"
    and r: "split_rest (words first) t = (Inr rest :: 'st exchange_lowering_error + _)"
    using assms
    by (auto simp: split_packet_def res_simps Let_def item_count_Inr split: option.splits if_splits)
  define n where "n = (count div 2) * item_words (width t)"
  have "1 < count" using w by (cases count) auto
  then have "0 < count div 2" "count div 2 < count" by (simp_all add: div_greater_zero_iff)
  then have n: "0 < n" "n < words t" using w by (simp_all add: n_def)
  have first: "first = t\<lparr>words := n, source_elements := source_elements first\<rparr>"
    by (simp add: f split_first_def n_def refresh_source_elements_def)
  have fw: "words first = n" by (simp add: f split_first_def n_def)
  obtain sources targets where st: "advance_all (n * 4) (source_addresses t) = (Inr sources :: 'st exchange_lowering_error + _)"
    "advance_all (n * 4) (map snd (destinations t)) = (Inr targets :: 'st exchange_lowering_error + _)"
    "rest = refresh_source_elements
            (t\<lparr>words := words t - n, source_addresses := sources,
               destinations := zip (map fst (destinations t)) targets, source_offset := source_offset t + n * 4\<rparr>)"
    using r unfolding fw by (auto simp: split_rest_def res_simps checked_mul_def checked_add_def split: if_splits)
  have adv: "ys = map (\<lambda>a. a + 4 * n) xs" if "advance_all (n * 4) xs = (Inr ys :: 'st exchange_lowering_error + _)" for xs ys
  proof -
    have "map (\<lambda>a. ok_or (checked_add 32 a (n * 4)) OverflowFailure :: 'st exchange_lowering_error + nat) xs = map Inr ys"
      using that by (simp only: advance_all_def traverse_Inr)
    then show ?thesis
      by (induction xs arbitrary: ys) (auto simp: res_simps checked_add_def Cons_eq_map_conv split: if_splits)
  qed
  have "sources = map (\<lambda>a. a + 4 * n) (source_addresses t)" "targets = map (\<lambda>a. a + 4 * n) (map snd (destinations t))"
    using adv st(1,2) by blast+
  moreover have "source first = source t" "source_addresses first = source_addresses t"
    "destinations first = destinations t" by (simp_all add: f split_first_def)
  ultimately have "follows first rest"
    by (simp add: follows_def st(3) fw zip_map_map zip_same_conv_map split_beta comp_def)
  then show ?thesis using n st(3) first by (auto intro!: exI [of _ n] exI [of _ "source_elements first"])
qed

function split_loop ::
  "'st conflict_test \<Rightarrow> pending_transfer list \<Rightarrow> 'st exchange_lowering_error + pending_transfer list" where
  "split_loop conflict [] = Inr []"
| "split_loop conflict (t # work) =
     (case split_packet conflict t of
        Inl e \<Rightarrow> Inl e
      | Inr None \<Rightarrow> res_bind (split_loop conflict work) (\<lambda>result. Inr (t # result))
      | Inr (Some (first, rest)) \<Rightarrow> split_loop conflict (first # rest # work))"
  by pat_completeness auto
termination
  by (relation "measure (\<lambda>(conflict, work). \<Sum>t\<leftarrow>work. max 1 (2 * words t - 1))")
    (auto dest!: split_packet_Some)

definition split_self_receive_conflicts ::
  "'st conflict_test \<Rightarrow> pending_transfer list \<Rightarrow> 'st exchange_lowering_error + pending_transfer list" where
  "split_self_receive_conflicts conflict pending =
     (if \<not> list_ex (\<lambda>t. list_ex (\<lambda>(tile, _). tile = source t) (destinations t)) pending then Inr pending
      else split_loop conflict pending)"

text \<open>What the encoder may rely on for a packet that is kept.\<close>

definition startable :: "'st conflict_test \<Rightarrow> pending_transfer \<Rightarrow> bool" where
  "startable conflict t \<longleftrightarrow>
     (\<forall>receiver count. position (\<lambda>(tile, _). tile = source t) (destinations t) = Some receiver
        \<longrightarrow> words t = count * item_words (width t)
        \<longrightarrow> conflict (width t) (source t) (map fst (destinations t)) count receiver = Inr False)"

lemma split_packet_None: "split_packet conflict t = Inr None \<Longrightarrow> startable conflict t"
  by (auto simp: split_packet_def startable_def res_simps Let_def item_count_Inr
      split: option.splits if_splits)

definition packet_ok :: "pending_transfer \<Rightarrow> bool" where
  "packet_ok t \<longleftrightarrow> transfer_ok t \<and> self_disjoint t"

lemma split_packet_correct:
  assumes "split_packet conflict t = Inr (Some (first, rest))" and "packet_ok t"
  shows "packet_ok first" and "packet_ok rest" and "exec i t m = exec i rest (exec i first m)"
    and "words first + words rest = words t"
proof -
  obtain n es where n: "0 < n" "n < words t" "first = t\<lparr>words := n, source_elements := es\<rparr>"
    "words rest = words t - n" "follows first rest"
    using split_packet_Some [OF assms(1)] by blast
  have rest: "source rest = source t" "source_addresses rest = map (\<lambda>a. a + 4 * n) (source_addresses t)"
    "destinations rest = map (\<lambda>(tile, a). (tile, a + 4 * n)) (destinations t)"
    using n(3,5) by (simp_all add: follows_def)
  have ok: "source_addresses t \<noteq> []" "distinct (map fst (destinations t))" "words t \<le> MAX_TRANSFER_WORDS"
    "self_disjoint t"
    using assms(2) by (auto simp: packet_ok_def transfer_ok_def)
  have d: "a + 4 * words t \<le> src \<or> src + 4 * words t \<le> a"
    if "(source t, a) \<in> set (destinations t)" "src \<in> set (source_addresses t)" for a src
    using ok(4) that by (auto simp: self_disjoint_def)
  have "self_disjoint first"
    unfolding self_disjoint_def n(3) using d n(2) by (force dest: d)
  then show "packet_ok first"
    using ok n by (simp add: packet_ok_def transfer_ok_def)
  have "self_disjoint rest"
    unfolding self_disjoint_def rest n(4) using d n(2) by force
  then show "packet_ok rest"
    using ok n rest by (simp add: packet_ok_def transfer_ok_def comp_def split_beta)
  have t: "first\<lparr>words := words first + words rest\<rparr> = t\<lparr>source_elements := es\<rparr>"
    using n by simp
  show "exec i t m = exec i rest (exec i first m)"
    using join_exec [OF n(5), of i m] ok n(3) unfolding t by (simp add: self_disjoint_def)
  show "words first + words rest = words t" using n by simp
qed

lemma split_loop_correct:
  "split_loop conflict work = Inr result \<Longrightarrow> list_all packet_ok work \<Longrightarrow>
   list_all packet_ok result \<and> replay i result m = replay i work m \<and> list_all (startable conflict) result
   \<and> sum_list (map words result) = sum_list (map words work)"
proof (induction conflict work arbitrary: result m rule: split_loop.induct)
  case (1 conflict) then show ?case by simp
next
  case (2 conflict t work)
  show ?case
  proof (cases "split_packet conflict t")
    case (Inl e) then show ?thesis using 2 by simp
  next
    case r: (Inr p)
    show ?thesis
    proof (cases p)
      case None
      then obtain result' where "split_loop conflict work = Inr result'" "result = t # result'"
        using 2(3) r by (auto simp: res_simps)
      then show ?thesis using 2 r None split_packet_None [of conflict t] by simp
    next
      case (Some q)
      obtain first rest where q: "q = (first, rest)" by (cases q)
      note c = split_packet_correct [OF r [unfolded Some q]]
      have t: "packet_ok t" using 2(4) by simp
      have "split_loop conflict (first # rest # work) = Inr result" using 2(3) r Some q by simp
      then have "list_all packet_ok result \<and> replay i result m = replay i (first # rest # work) m
          \<and> list_all (startable conflict) result
          \<and> sum_list (map words result) = sum_list (map words (first # rest # work))"
        using 2(2) [OF r Some q [symmetric]] 2(4) c(1,2) [OF t] by simp
      moreover have "exec i t m = exec i rest (exec i first m)" by (rule c(3) [OF t])
      ultimately show ?thesis using c(4) [OF t] by simp
    qed
  qed
qed

subsection \<open>Cutting spans into messages\<close>

text \<open>
  The main loop of \<open>prepare_transfer\<close>. The source and every destination view traverse their
  bytes as a list of spans (offset, byte count); the loop walks them together and emits a
  message for every stretch contiguous in all of them, at most \<open>MAX_TRANSFER_WORDS\<close> long.
  The spans come from view traversal and are parameters here, as are the resolved bases.
  A receiver is its tile, base address and remaining spans.
\<close>

type_synonym spans = "(nat \<times> nat) list"
type_synonym receiver = "nat \<times> nat \<times> spans"

definition byte_len :: "spans \<Rightarrow> nat" where
  "byte_len sp = sum_list (map snd sp)"

fun limit_bytes :: "nat \<Rightarrow> receiver list \<Rightarrow> 'st exchange_lowering_error + nat" where
  "limit_bytes bytes [] = Inr bytes"
| "limit_bytes bytes ((tile, base, sp) # rs) =
     (case sp of
        [] \<Rightarrow> Inl SizeMismatch
      | (offset, b) # _ \<Rightarrow> if offset mod 4 \<noteq> 0 then Inl UnalignedPayload else limit_bytes (min bytes b) rs)"

text \<open>Advance one receiver by \<open>bytes\<close>: its destination entry and its remaining spans.\<close>

definition take_bytes :: "nat \<Rightarrow> receiver \<Rightarrow> 'st exchange_lowering_error + ((nat \<times> nat) \<times> receiver)" where
  "take_bytes bytes r =
     (case r of (tile, base, sp) \<Rightarrow>
        (case sp of
           [] \<Rightarrow> Inl SizeMismatch
         | (offset, b) # rest \<Rightarrow>
             res_bind (ok_or (checked_add 32 base offset) OverflowFailure) (\<lambda>address.
             res_bind (ok_or (checked_add 32 offset bytes) OverflowFailure) (\<lambda>offset'.
             Inr ((tile, address), (tile, base, if b - bytes = 0 then rest else (offset', b - bytes) # rest))))))"

definition pending_of :: "nat \<Rightarrow> nat \<Rightarrow> nat \<Rightarrow> nat \<Rightarrow> (nat \<times> nat) list \<Rightarrow> nat \<Rightarrow> pending_transfer" where
  "pending_of tile shard offset address entries bytes =
     \<lparr>source = tile, source_shard = shard, source_offset = offset, destinations = entries,
      source_addresses = [address], source_elements = effective_memory_elements address (bytes div 4),
      words = bytes div 4, width = Word32, reserved_source = None\<rparr>"

text \<open>The inner loop over one source span \<open>(src, slen)\<close>, from \<open>offset\<close> on.\<close>

function cut_span ::
  "nat \<times> nat \<times> nat \<Rightarrow> nat \<Rightarrow> nat \<Rightarrow> nat \<Rightarrow> receiver list \<Rightarrow>
   'st exchange_lowering_error + (pending_transfer list \<times> receiver list)" where
  "cut_span (tile, shard, base) src slen offset rs =
     (if offset < slen then
        (case limit_bytes (min (slen - offset) (MAX_TRANSFER_WORDS * 4)) rs of
           Inl e \<Rightarrow> Inl e
         | Inr bytes \<Rightarrow>
             if bytes = 0 \<or> bytes mod 4 \<noteq> 0 then Inl UnalignedPayload
             else res_bind (ok_or (checked_add 32 src offset) OverflowFailure) (\<lambda>source_offset.
                  res_bind (ok_or (checked_add 32 base source_offset) OverflowFailure) (\<lambda>address.
                  res_bind (traverse (take_bytes bytes) rs) (\<lambda>taken.
                  res_bind (cut_span (tile, shard, base) src slen (offset + bytes) (map snd taken)) (\<lambda>(ps, rs').
                  Inr (pending_of tile shard source_offset address (map fst taken) bytes # ps, rs'))))))
      else Inr ([], rs))"
  by pat_completeness auto
termination
  by (relation "measure (\<lambda>(_, src, slen, offset, rs). slen - offset)") auto

declare cut_span.simps [simp del]

fun cut_spans ::
  "nat \<times> nat \<times> nat \<Rightarrow> spans \<Rightarrow> receiver list \<Rightarrow>
   'st exchange_lowering_error + (pending_transfer list \<times> receiver list)" where
  "cut_spans sender [] rs = Inr ([], rs)"
| "cut_spans sender ((src, slen) # sp) rs =
     (if slen = 0 \<or> src mod 4 \<noteq> 0 then Inl UnalignedPayload
      else res_bind (cut_span sender src slen 0 rs) (\<lambda>(ps, rs').
           res_bind (cut_spans sender sp rs') (\<lambda>(qs, rs''). Inr (ps @ qs, rs''))))"

definition prepare_spans ::
  "nat \<times> nat \<times> nat \<Rightarrow> spans \<Rightarrow> receiver list \<Rightarrow> 'st exchange_lowering_error + pending_transfer list" where
  "prepare_spans sender source_spans rs =
     (if rs = [] then Inl SizeMismatch
      else if list_ex (\<lambda>(_, _, sp). byte_len sp \<noteq> byte_len source_spans) rs then Inl SizeMismatch
      else res_bind (cut_spans sender source_spans rs) (\<lambda>(ps, rs').
           if list_ex (\<lambda>(_, _, sp). sp \<noteq> []) rs' then Inl SizeMismatch else Inr ps))"

text \<open>The addresses a list of spans visits, byte by byte.\<close>

definition visits :: "nat \<Rightarrow> spans \<Rightarrow> nat list" where
  "visits base sp = concat (map (\<lambda>(offset, b). [base + offset..<base + offset + b]) sp)"

definition sent :: "pending_transfer list \<Rightarrow> nat list" where
  "sent ps = concat (map (\<lambda>t. [source_address t..<source_address t + 4 * words t]) ps)"

definition delivered :: "nat \<Rightarrow> pending_transfer list \<Rightarrow> nat list" where
  "delivered j ps = concat (map (\<lambda>t. [snd (destinations t ! j)..<snd (destinations t ! j) + 4 * words t]) ps)"

lemma visits_simps [simp]:
  "visits base [] = []"
  "visits base ((offset, b) # sp) = [base + offset..<base + offset + b] @ visits base sp"
  by (simp_all add: visits_def)

lemma sent_simps [simp]:
  "sent [] = []" "sent (t # ps) = [source_address t..<source_address t + 4 * words t] @ sent ps"
  "sent (ps @ qs) = sent ps @ sent qs"
  by (simp_all add: sent_def)

lemma delivered_simps [simp]:
  "delivered j [] = []"
  "delivered j (t # ps) = [snd (destinations t ! j)..<snd (destinations t ! j) + 4 * words t] @ delivered j ps"
  "delivered j (ps @ qs) = delivered j ps @ delivered j qs"
  by (simp_all add: delivered_def)

lemma limit_bytes_Inr:
  "limit_bytes bytes rs = (Inr b :: 'st exchange_lowering_error + nat) \<Longrightarrow> b \<le> bytes \<and> (\<forall>(tile, base, sp)\<in>set rs. \<exists>o' n rest. sp = (o', n) # rest \<and> b \<le> n)"
proof (induction bytes rs rule: limit_bytes.induct)
  case (1 bytes) then show ?case by simp
next
  case (2 bytes tile base sp rs)
  show ?case
  proof (cases sp)
    case Nil then show ?thesis using 2 by simp
  next
    case (Cons s rest)
    obtain o' n where s: "s = (o', n)" by (cases s)
    have o: "o' mod 4 = 0" and l: "limit_bytes (min bytes n) rs = (Inr b :: 'st exchange_lowering_error + nat)"
      using 2(2) by (auto simp: Cons s split: if_splits)
    have "b \<le> min bytes n \<and> (\<forall>(tile, base, sp)\<in>set rs. \<exists>o' n rest. sp = (o', n) # rest \<and> b \<le> n)"
      using 2(1) [OF Cons s [symmetric] _ l] o by simp
    then show ?thesis by (simp add: Cons s)
  qed
qed

lemma upt_split: "n \<le> m \<Longrightarrow> [a..<a + m] = [a..<a + n] @ [a + n..<a + m]"
  by (metis add_leD1 le_add_diff_inverse le_iff_add upt_add_eq_append add.assoc)

text \<open>\<open>stage n rs ps rs'\<close>: the messages deliver to each receiver the next bytes of its spans.\<close>

definition stage :: "receiver list \<Rightarrow> pending_transfer list \<Rightarrow> receiver list \<Rightarrow> bool" where
  "stage rs ps rs' \<longleftrightarrow>
     length rs' = length rs
   \<and> (\<forall>j<length rs. fst (rs' ! j) = fst (rs ! j) \<and> fst (snd (rs' ! j)) = fst (snd (rs ! j))
        \<and> visits (fst (snd (rs ! j))) (snd (snd (rs ! j)))
          = delivered j ps @ visits (fst (snd (rs ! j))) (snd (snd (rs' ! j))))
   \<and> (\<forall>t\<in>set ps. map fst (destinations t) = map fst rs \<and> 0 < words t \<and> words t \<le> MAX_TRANSFER_WORDS
        \<and> length (source_addresses t) = 1)"

lemma stage_refl: "stage rs [] rs"
  by (simp add: stage_def)

lemma stage_tiles: "stage rs ps rs' \<Longrightarrow> map fst rs' = map fst rs"
  by (auto simp: stage_def intro: nth_equalityI)

lemma stage_trans:
  assumes "stage rs ps rs'" and "stage rs' qs rs''"
  shows "stage rs (ps @ qs) rs''"
  using assms stage_tiles [OF assms(1)] by (auto simp: stage_def)

lemma take_bytes_Inr:
  assumes "take_bytes b r = Inr (entry, r')" and "0 < b" and "b \<le> snd (hd (snd (snd r)))"
  shows "fst r' = fst r" and "fst (snd r') = fst (snd r)" and "fst entry = fst r"
    and "visits (fst (snd r)) (snd (snd r)) = [snd entry..<snd entry + b] @ visits (fst (snd r)) (snd (snd r'))"
proof -
  obtain tile base sp where r: "r = (tile, base, sp)" by (cases r)
  obtain o' n rest where sp: "sp = (o', n) # rest" using assms(1) r
    by (cases sp) (auto simp: take_bytes_def)
  have bn: "b \<le> n" using assms(3) by (simp add: r sp)
  have e: "entry = (tile, base + o')" "r' = (tile, base, if n - b = 0 then rest else (o' + b, n - b) # rest)"
    using assms(1) by (auto simp: take_bytes_def r sp res_simps checked_add_def split: if_splits)
  show "fst r' = fst r" "fst (snd r') = fst (snd r)" "fst entry = fst r" using e r by auto
  have "[base + o'..<base + o' + n] = [base + o'..<base + o' + b] @ [base + o' + b..<base + o' + n]"
    by (rule upt_split [OF bn])
  then show "visits (fst (snd r)) (snd (snd r)) = [snd entry..<snd entry + b] @ visits (fst (snd r)) (snd (snd r'))"
    using e bn by (simp add: r sp add.assoc)
qed

lemma taken_stage:
  assumes "limit_bytes limit rs = (Inr b :: 'st exchange_lowering_error + nat)" and "0 < b" and "b mod 4 = 0"
    and "limit \<le> MAX_TRANSFER_WORDS * 4"
    and "traverse (take_bytes b) rs = (Inr taken :: 'st exchange_lowering_error + _)"
  shows "stage rs [pending_of tile shard so a (map fst taken) b] (map snd taken)"
proof -
  have lent: "length taken = length rs" using traverse_length [OF assms(5)] .
  have b4: "4 * (b div 4) = b" using assms(3) by auto
  have lim: "b \<le> limit" and head: "b \<le> snd (hd (snd (snd (rs ! j))))" if "j < length rs" for j
    using limit_bytes_Inr [OF assms(1)] nth_mem [OF that] by fastforce+
  have t: "fst (snd (taken ! j)) = fst (rs ! j)" "fst (snd (snd (taken ! j))) = fst (snd (rs ! j))"
    "fst (fst (taken ! j)) = fst (rs ! j)"
    "visits (fst (snd (rs ! j))) (snd (snd (rs ! j)))
       = [snd (fst (taken ! j))..<snd (fst (taken ! j)) + b] @ visits (fst (snd (rs ! j))) (snd (snd (snd (taken ! j))))"
    if "j < length rs" for j
    using take_bytes_Inr [of b "rs ! j" "fst (taken ! j)" "snd (taken ! j)"] traverse_nth [OF assms(5) that]
      assms(2) head [OF that] by simp_all
  have "b \<le> MAX_TRANSFER_WORDS * 4" using limit_bytes_Inr [OF assms(1)] assms(4) by simp
  then have "b div 4 \<le> MAX_TRANSFER_WORDS" by simp
  moreover have "0 < b div 4" using assms(2) b4 by linarith
  moreover have "map (fst \<circ> fst) taken = map fst rs" using t(3) lent by (intro nth_equalityI) auto
  ultimately show ?thesis using lent t b4 by (simp add: stage_def pending_of_def)
qed

lemma cut_span_stage:
  "cut_span (tile, shard, base) src slen offset rs = (Inr (ps, rs') :: 'st exchange_lowering_error + _) \<Longrightarrow> offset \<le> slen \<Longrightarrow>
   stage rs ps rs' \<and> sent ps = [base + src + offset..<base + src + slen] \<and> (\<forall>t\<in>set ps. source t = tile)"
proof (induction "slen - offset" arbitrary: offset rs ps rule: less_induct)
  case less
  show ?case
  proof (cases "offset < slen")
    case False
    then show ?thesis using less.prems by (subst (asm) cut_span.simps) (simp add: stage_refl)
  next
    case True
    obtain b where b: "limit_bytes (min (slen - offset) (MAX_TRANSFER_WORDS * 4)) rs = (Inr b :: 'st exchange_lowering_error + nat)"
      "b \<noteq> 0" "b mod 4 = 0"
      using less.prems(1) True by (subst (asm) cut_span.simps) (auto split: sum.splits if_splits)
    then obtain taken qs where r: "traverse (take_bytes b) rs = (Inr taken :: 'st exchange_lowering_error + _)"
      "cut_span (tile, shard, base) src slen (offset + b) (map snd taken) = (Inr (qs, rs') :: 'st exchange_lowering_error + _)"
      "ps = pending_of tile shard (src + offset) (base + (src + offset)) (map fst taken) b # qs"
      using less.prems(1) True
      by (subst (asm) cut_span.simps) (auto simp: res_simps checked_add_def split: if_splits)
    have bl: "b \<le> slen - offset" using limit_bytes_Inr [OF b(1)] by simp
    have IH: "stage (map snd taken) qs rs'" "sent qs = [base + src + (offset + b)..<base + src + slen]"
      "\<forall>t\<in>set qs. source t = tile"
      using less.hyps [OF _ r(2)] b(2) bl True by auto
    let ?p = "pending_of tile shard (src + offset) (base + (src + offset)) (map fst taken) b"
    have "stage rs ([?p] @ qs) rs'"
      using stage_trans [OF taken_stage [OF b(1) _ b(3) _ r(1)] IH(1)] b(2) by simp
    moreover have b4: "4 * (b div 4) = b" using b(3) by auto
    moreover have "[base + src + offset..<base + src + slen]
        = [base + src + offset..<base + src + offset + b] @ [base + src + offset + b..<base + src + slen]"
      using upt_split [of b "slen - offset" "base + src + offset"] bl True by (simp add: add.assoc)
    ultimately show ?thesis
      using IH(2,3) r(3) by (simp add: pending_of_def source_address_def add.assoc)
  qed
qed

lemma cut_spans_stage:
  "cut_spans (tile, shard, base) sp rs = (Inr (ps, rs') :: 'st exchange_lowering_error + _) \<Longrightarrow>
   stage rs ps rs' \<and> sent ps = visits base sp \<and> (\<forall>t\<in>set ps. source t = tile)"
proof (induction sp arbitrary: rs ps)
  case Nil then show ?case by (simp add: stage_refl)
next
  case (Cons s sp)
  obtain src slen where s: "s = (src, slen)" by (cases s)
  obtain qs q rs1 where q: "cut_span (tile, shard, base) src slen 0 rs = (Inr (qs, rs1) :: 'st exchange_lowering_error + _)"
    "cut_spans (tile, shard, base) sp rs1 = (Inr (q, rs') :: 'st exchange_lowering_error + _)" "ps = qs @ q"
    using Cons.prems by (auto simp: s res_simps split: if_splits)
  note c = cut_span_stage [OF q(1)] and r = Cons.IH [OF q(2)]
  then show ?case using stage_trans [of rs qs rs1 q rs'] q(3) by (auto simp: s)
qed

subsection \<open>Properties\<close>

text \<open>
  C19: Cutting a logical exchange into messages transfers exactly its bytes in traversal order: on
  success the messages, read in sequence, visit the bytes of the source view in order and
  deliver them to the bytes of every destination view in order; each message comes from the
  source tile, goes to every destination tile and carries between 1 and 4148 words.
\<close>

theorem prepared_messages_cover_the_views:
  assumes "prepare_spans (tile, shard, base) source_spans rs = Inr ps"
  shows "sent ps = visits base source_spans
       \<and> (\<forall>j<length rs. delivered j ps = visits (fst (snd (rs ! j))) (snd (snd (rs ! j))))
       \<and> (\<forall>t\<in>set ps. source t = tile \<and> map fst (destinations t) = map fst rs
            \<and> 0 < words t \<and> words t \<le> MAX_TRANSFER_WORDS \<and> length (source_addresses t) = 1)"
proof -
  obtain rs' where r: "cut_spans (tile, shard, base) source_spans rs = (Inr (ps, rs') :: 'a exchange_lowering_error + _)"
    and e: "\<not> list_ex (\<lambda>(_, _, sp). sp \<noteq> []) rs'"
    using assms by (auto simp: prepare_spans_def res_simps split: if_splits)
  note c = cut_spans_stage [OF r]
  have "snd (snd x) = []" if "x \<in> set rs'" for x
    using e that by (auto simp: list_ex_iff)
  then have "snd (snd (rs' ! j)) = []" if "j < length rs" for j
    using c that by (simp add: stage_def)
  then show ?thesis using c by (simp add: stage_def)
qed

lemma prepared_messages_cover_the_views_witness:
  "\<exists>ps. prepare_spans (0, 5, 0x50000) [(0, 8), (16, 8)] [(1, 0x60000, [(4, 12), (32, 4)])]
          = (Inr ps :: unit exchange_lowering_error + _)
     \<and> length ps = 3 \<and> sent ps = visits 0x50000 [(0, 8), (16, 8)]"
proof -
  have "case (prepare_spans (0, 5, 0x50000) [(0, 8), (16, 8)] [(1, 0x60000, [(4, 12), (32, 4)])]
          :: unit exchange_lowering_error + _) of Inr ps \<Rightarrow> length ps = 3 | Inl e \<Rightarrow> False"
    by (simp add: prepare_spans_def byte_len_def cut_span.simps MAX_TRANSFER_WORDS_def take_bytes_def
        checked_add_def cong: res_bind_weak)
  then obtain ps where "prepare_spans (0, 5, 0x50000) [(0, 8), (16, 8)] [(1, 0x60000, [(4, 12), (32, 4)])]
          = (Inr ps :: unit exchange_lowering_error + _)" "length ps = 3"
    by (auto split: sum.splits)
  then show ?thesis using prepared_messages_cover_the_views by blast
qed

text \<open>
  C20: Merging contiguous transfers does not change what a phase does: for every Repeat iteration
  the merged list, executed in order, leaves the same tile memories as the original list, sends
  as many words, and no merged message exceeds the hardware limit.
\<close>

theorem coalescing_preserves_the_copy:
  assumes "list_all transfer_ok ts"
  shows "replay i (coalesce_pending_transfers ts) m = replay i ts m
       \<and> sum_list (map words (coalesce_pending_transfers ts)) = sum_list (map words ts)
       \<and> list_all transfer_ok (coalesce_pending_transfers ts)"
  using coalesce_correct [of "[]" ts i m] assms by (simp add: coalesce_pending_transfers_def)

lemma coalescing_preserves_the_copy_witness:
  "\<exists>t u. length (coalesce_pending_transfers [t, u]) = 1
     \<and> replay 0 (coalesce_pending_transfers [t, u]) (\<lambda>tile a. tile + a) = replay 0 [t, u] (\<lambda>tile a. tile + a)"
proof -
  let ?t = "\<lparr>source = 0, source_shard = 1, source_offset = 0, destinations = [(1, 0x60000)],
             source_addresses = [0x50000], source_elements = [], words = 2, width = Word32, reserved_source = None\<rparr>"
  let ?u = "\<lparr>source = 0, source_shard = 1, source_offset = 8, destinations = [(1, 0x60008)],
             source_addresses = [0x50008], source_elements = [], words = 2, width = Word32, reserved_source = None\<rparr>"
  have "combined_words ?t ?u = Some 4"
    by (simp add: combined_words_def contiguous_def checked_add_def MAX_TRANSFER_WORDS_def)
  then have "length (coalesce_pending_transfers [?t, ?u]) = 1"
    by (simp add: coalesce_pending_transfers_def coalesce_step_def)
  moreover have "replay 0 (coalesce_pending_transfers [?t, ?u]) (\<lambda>tile a. tile + a) = replay 0 [?t, ?u] (\<lambda>tile a. tile + a)"
    by (rule coalescing_preserves_the_copy [THEN conjunct1]) (simp add: transfer_ok_def MAX_TRANSFER_WORDS_def)
  ultimately show ?thesis by blast
qed

text \<open>
  C21: Splitting self-receiving packets does not change what a phase does, whatever the hardware
  test: on success the packets, executed in order, leave the same tile memories as the original
  transfers in every iteration, send as many words, and every packet kept passes the test. The
  source and destination ranges of a packet on its own tile do not overlap (\<open>packet_ok\<close>).
\<close>

theorem splitting_preserves_the_copy:
  assumes "split_self_receive_conflicts conflict pending = Inr result" and "list_all packet_ok pending"
  shows "replay i result m = replay i pending m \<and> list_all packet_ok result
       \<and> sum_list (map words result) = sum_list (map words pending) \<and> list_all (startable conflict) result"
proof (cases "list_ex (\<lambda>t. list_ex (\<lambda>(tile, _). tile = source t) (destinations t)) pending")
  case True
  then show ?thesis
    using split_loop_correct [of conflict pending result i m] assms
    by (simp add: split_self_receive_conflicts_def)
next
  case False
  have "position (\<lambda>(tile, _). tile = source t) (destinations t) = None" if "t \<in> set pending" for t
    using False that unfolding position_None list_ex_iff by blast
  then have "list_all (startable conflict) pending" by (simp add: list_all_iff startable_def)
  then show ?thesis using False assms by (simp add: split_self_receive_conflicts_def)
qed

lemma splitting_preserves_the_copy_witness:
  "\<exists>result. split_self_receive_conflicts (\<lambda>_ _ _ count _. Inr (count > 1) :: unit exchange_lowering_error + bool)
      [\<lparr>source = 3, source_shard = 1, source_offset = 0, destinations = [(3, 0x60000)],
        source_addresses = [0x50000], source_elements = [], words = 2, width = Word32, reserved_source = None\<rparr>] = Inr result
    \<and> length result = 2 \<and> sum_list (map words result) = 2"
proof -
  let ?c = "\<lambda>_ _ _ count _. Inr (count > 1) :: unit exchange_lowering_error + bool"
  let ?p = "[\<lparr>source = 3, source_shard = 1, source_offset = 0, destinations = [(3, 0x60000)],
        source_addresses = [0x50000], source_elements = [], words = 2, width = Word32, reserved_source = None\<rparr>]"
  obtain result where r: "split_self_receive_conflicts ?c ?p = Inr result" "length result = 2"
    by (simp add: split_self_receive_conflicts_def split_packet_def item_count_def width_item_count_def is_multiple_of_def
        split_first_def split_rest_def advance_all_def checked_mul_def checked_add_def refresh_source_elements_def Let_def)
  have "list_all packet_ok ?p"
    by (simp add: packet_ok_def transfer_ok_def self_disjoint_def MAX_TRANSFER_WORDS_def)
  then have "sum_list (map words result) = 2"
    using splitting_preserves_the_copy [OF r(1), of 0 "\<lambda>_ _. ()"] by simp
  then show ?thesis using r by blast
qed

end
