(* ===== verification/Dependencies.thy ===== *)
theory Dependencies
  imports Prelude Transfers "HOL-Library.Product_Lexorder"
begin

text \<open>
  The dependency problem of one exchange phase (\<open>exchange/problem.rs\<close>): which pairs of
  transfers must keep their order because they touch the same bytes of a tile, at least one
  of them writing; and the predecessor and dependent lists every scheduling policy works on.

  The code cuts each tile's accessed addresses into elementary segments and keeps, per
  segment, the last writer and the readers since. The lemmas show that the recorded edges
  are exactly the conflicts up to transitivity, and that executing the transfers in any
  order that respects them leaves the same memory as the original order.
\<close>

subsection \<open>Data\<close>

record transfer_access =
  acc_transfer :: nat
  acc_start :: nat
  acc_end :: nat
  acc_write :: bool

record access_frontier =
  last_write :: "nat option"
  reads :: "nat list"

record scheduling_problem =
  problem_transfers :: "pending_transfer list"
  tile_count :: nat
  predecessors :: "nat list list"
  dependents :: "nat list list"
  word_pressure :: "nat list"

subsection \<open>Operations\<close>

text \<open>The vector \<open>accesses[tile]\<close>: per transfer its reads and then its writes on that tile.\<close>

definition accesses_of :: "nat \<Rightarrow> nat \<times> pending_transfer \<Rightarrow> transfer_access list" where
  "accesses_of tile = (\<lambda>(index, t).
     (let bytes = words t * 4
      in (if source t = tile
          then map (\<lambda>a. \<lparr>acc_transfer = index, acc_start = a, acc_end = a + bytes, acc_write = False\<rparr>)
                 (source_addresses t)
          else [])
         @ map (\<lambda>(_, a). \<lparr>acc_transfer = index, acc_start = a, acc_end = a + bytes, acc_write = True\<rparr>)
             (filter (\<lambda>(tl, _). tl = tile) (destinations t))))"

definition tile_accesses :: "pending_transfer list \<Rightarrow> nat \<Rightarrow> transfer_access list" where
  "tile_accesses ts tile = concat (map (accesses_of tile) (enumerate 0 ts))"

definition boundaries_of :: "transfer_access list \<Rightarrow> nat list" where
  "boundaries_of as = remdups_adj (sort (concat (map (\<lambda>a. [acc_start a, acc_end a]) as)))"

definition frontier_default :: access_frontier where
  "frontier_default = \<lparr>last_write = None, reads = []\<rparr>"

text \<open>The body of the loop over \<open>frontier[start..end]\<close>: the new state of a segment and the edges
  it adds.\<close>

definition touch :: "transfer_access \<Rightarrow> access_frontier \<Rightarrow> access_frontier \<times> (nat \<times> nat) set" where
  "touch a state =
     (let t = acc_transfer a;
          from_write = (case last_write state of
                          Some previous \<Rightarrow> if previous \<noteq> t then {(previous, t)} else {}
                        | None \<Rightarrow> {})
      in if acc_write a
         then (state\<lparr>reads := [], last_write := Some t\<rparr>,
               from_write \<union> (\<lambda>previous. (previous, t)) ` {previous \<in> set (reads state). previous \<noteq> t})
         else (if reads state \<noteq> [] \<and> last (reads state) = t then state
               else state\<lparr>reads := reads state @ [t]\<rparr>,
               from_write))"

text \<open>\<open>binary_search\<close> on strictly increasing boundaries finds the position of the value.\<close>

definition visit_access ::
  "nat list \<Rightarrow> access_frontier list \<times> (nat \<times> nat) set \<Rightarrow> transfer_access \<Rightarrow>
   (access_frontier list \<times> (nat \<times> nat) set) option" where
  "visit_access bs = (\<lambda>(frontier, dependencies) a.
     case position ((=) (acc_start a)) bs of
       None \<Rightarrow> None
     | Some s \<Rightarrow>
       (case position ((=) (acc_end a)) bs of
          None \<Rightarrow> None
        | Some e \<Rightarrow>
            if s \<le> e \<and> e \<le> length frontier
            then Some (take s frontier @ map (\<lambda>state. fst (touch a state)) (take (e - s) (drop s frontier))
                         @ drop e frontier,
                       dependencies \<union> (\<Union>state\<in>set (take (e - s) (drop s frontier)). snd (touch a state)))
            else None))"

fun visit_accesses ::
  "nat list \<Rightarrow> access_frontier list \<times> (nat \<times> nat) set \<Rightarrow> transfer_access list \<Rightarrow>
   (access_frontier list \<times> (nat \<times> nat) set) option" where
  "visit_accesses bs st [] = Some st"
| "visit_accesses bs st (a # as) =
     (case visit_access bs st a of None \<Rightarrow> None | Some st' \<Rightarrow> visit_accesses bs st' as)"

definition tile_dependencies :: "(nat \<times> nat) set \<Rightarrow> transfer_access list \<Rightarrow> (nat \<times> nat) set option" where
  "tile_dependencies dependencies as =
     (let bs = boundaries_of as
      in map_option snd
           (visit_accesses bs (replicate (length bs - 1) frontier_default, dependencies) as))"

fun dependencies_loop ::
  "pending_transfer list \<Rightarrow> nat list \<Rightarrow> (nat \<times> nat) set \<Rightarrow> (nat \<times> nat) set option" where
  "dependencies_loop ts [] dependencies = Some dependencies"
| "dependencies_loop ts (tile # tls) dependencies =
     (case tile_dependencies dependencies (tile_accesses ts tile) of
        None \<Rightarrow> None | Some d \<Rightarrow> dependencies_loop ts tls d)"

text \<open>\<open>None\<close> is a panic: a tile outside the table, or a failed \<open>expect\<close>.\<close>

definition memory_dependencies :: "pending_transfer list \<Rightarrow> nat \<Rightarrow> (nat \<times> nat) set option" where
  "memory_dependencies ts count =
     (if list_all (\<lambda>t. (source_addresses t = [] \<or> source t < count)
                     \<and> list_all (\<lambda>(tile, _). tile < count) (destinations t)) ts
      then dependencies_loop ts [0..<count] {} else None)"

definition item_count_or_words :: "pending_transfer \<Rightarrow> nat" where
  "item_count_or_words t =
     (case item_count t :: unit exchange_lowering_error + nat of Inl _ \<Rightarrow> words t | Inr n \<Rightarrow> n)"

definition push_at :: "nat \<Rightarrow> 'a \<Rightarrow> 'a list list \<Rightarrow> 'a list list" where
  "push_at i x xs = xs[i := xs ! i @ [x]]"

definition add_pressure :: "nat list \<Rightarrow> pending_transfer \<Rightarrow> nat list" where
  "add_pressure pressure t =
     foldl (\<lambda>p tile. p[tile := p ! tile + item_count_or_words t]) pressure (tiles t)"

definition problem_new :: "pending_transfer list \<Rightarrow> nat \<Rightarrow> scheduling_problem option" where
  "problem_new ts count =
     (case memory_dependencies ts count of
        None \<Rightarrow> None
      | Some dependencies \<Rightarrow>
          (let edges = sorted_list_of_set dependencies;
               empty = replicate (length ts) []
           in if list_all (\<lambda>t. list_all (\<lambda>tile. tile < count) (tiles t)) ts
              then Some \<lparr>problem_transfers = ts, tile_count = count,
                      predecessors = foldl (\<lambda>p (before, after). push_at after before p) empty edges,
                      dependents = foldl (\<lambda>d (before, after). push_at before after d) empty edges,
                      word_pressure = foldl add_pressure (replicate count 0) ts\<rparr>
              else None))"

definition indegrees :: "scheduling_problem \<Rightarrow> nat list" where
  "indegrees p = map length (predecessors p)"

subsection \<open>One segment\<close>

text \<open>The accesses that touch one segment, in order, determine its edges.\<close>

definition final_state :: "access_frontier \<Rightarrow> transfer_access list \<Rightarrow> access_frontier" where
  "final_state = foldl (\<lambda>s a. fst (touch a s))"

fun seq_edges :: "access_frontier \<Rightarrow> transfer_access list \<Rightarrow> (nat \<times> nat) set" where
  "seq_edges s [] = {}"
| "seq_edges s (a # as) = snd (touch a s) \<union> seq_edges (fst (touch a s)) as"

lemma final_state_simps [simp]:
  "final_state s [] = s" "final_state s (a # as) = final_state (fst (touch a s)) as"
  "final_state s (as @ bs) = final_state (final_state s as) bs"
  by (simp_all add: final_state_def)

lemma seq_edges_append: "seq_edges s (as @ bs) = seq_edges s as \<union> seq_edges (final_state s as) bs"
  by (induction as arbitrary: s) auto

definition reflects :: "access_frontier \<Rightarrow> transfer_access list \<Rightarrow> bool" where
  "reflects s pre \<longleftrightarrow>
     (last_write s = None \<and> (\<forall>a\<in>set pre. \<not> acc_write a) \<and> set (reads s) = acc_transfer ` set pre)
   \<or> (\<exists>us c vs. pre = us @ c # vs \<and> acc_write c \<and> last_write s = Some (acc_transfer c)
        \<and> (\<forall>b\<in>set vs. \<not> acc_write b) \<and> set (reads s) = acc_transfer ` set vs)"

lemma reflects_touch:
  assumes "reflects s pre"
  shows "reflects (fst (touch a s)) (pre @ [a])"
proof (cases "acc_write a")
  case True
  then show ?thesis
    by (auto simp: reflects_def touch_def Let_def intro: exI [of _ pre])
next
  case False
  have rd: "set (reads (fst (touch a s))) = insert (acc_transfer a) (set (reads s))"
    "last_write (fst (touch a s)) = last_write s"
    using False by (auto simp: touch_def Let_def) (metis last_in_set)
  from assms show ?thesis
    unfolding reflects_def rd
  proof (elim disjE exE conjE)
    fix us c vs
    assume "pre = us @ c # vs" "acc_write c" "last_write s = Some (acc_transfer c)" "\<forall>b\<in>set vs. \<not> acc_write b"
      "set (reads s) = acc_transfer ` set vs"
    then have "pre @ [a] = us @ c # (vs @ [a]) \<and> acc_write c \<and> last_write s = Some (acc_transfer c)
        \<and> (\<forall>b\<in>set (vs @ [a]). \<not> acc_write b) \<and> insert (acc_transfer a) (set (reads s)) = acc_transfer ` set (vs @ [a])"
      using False by simp
    then show "(last_write s = None \<and> (\<forall>a\<in>set (pre @ [a]). \<not> acc_write a)
          \<and> insert (acc_transfer a) (set (reads s)) = acc_transfer ` set (pre @ [a]))
        \<or> (\<exists>us c vs. pre @ [a] = us @ c # vs \<and> acc_write c \<and> last_write s = Some (acc_transfer c)
             \<and> (\<forall>b\<in>set vs. \<not> acc_write b) \<and> insert (acc_transfer a) (set (reads s)) = acc_transfer ` set vs)"
      by blast
  qed (use False in auto)
qed

lemma reflects_final: "reflects (final_state frontier_default as) as"
proof (induction as rule: rev_induct)
  case Nil then show ?case by (simp add: reflects_def frontier_default_def)
next
  case (snoc a as) then show ?case using reflects_touch by simp
qed

text \<open>Two accesses conflict when one of them writes and they belong to different transfers.\<close>

definition clash :: "transfer_access \<Rightarrow> transfer_access \<Rightarrow> bool" where
  "clash b a \<longleftrightarrow> (acc_write b \<or> acc_write a) \<and> acc_transfer b \<noteq> acc_transfer a"

lemma touch_edges_sound:
  assumes "reflects s pre" and "(p, q) \<in> snd (touch a s)"
  shows "\<exists>b\<in>set pre. clash b a \<and> p = acc_transfer b \<and> q = acc_transfer a"
  using assms
  by (auto simp: reflects_def touch_def Let_def clash_def image_iff split: if_splits option.splits)

lemma seq_edges_sound:
  "(p, q) \<in> seq_edges frontier_default as \<Longrightarrow>
   \<exists>us b vs a ws. as = us @ b # vs @ a # ws \<and> clash b a \<and> p = acc_transfer b \<and> q = acc_transfer a"
proof (induction as rule: rev_induct)
  case Nil then show ?case by simp
next
  case (snoc a as)
  show ?case
  proof (cases "(p, q) \<in> seq_edges frontier_default as")
    case True
    then obtain us b vs c ws where "as = us @ b # vs @ c # ws" "clash b c" "p = acc_transfer b" "q = acc_transfer c"
      using snoc.IH by blast
    then show ?thesis by (intro exI [of _ us] exI [of _ b] exI [of _ vs] exI [of _ c] exI [of _ "ws @ [a]"]) simp
  next
    case False
    then have "(p, q) \<in> snd (touch a (final_state frontier_default as))"
      using snoc.prems by (simp add: seq_edges_append)
    then obtain b where b: "b \<in> set as" "clash b a" "p = acc_transfer b" "q = acc_transfer a"
      using touch_edges_sound [OF reflects_final] by blast
    then obtain us vs where "as = us @ b # vs" by (meson split_list)
    then show ?thesis using b(2-) by (intro exI [of _ us] exI [of _ b] exI [of _ vs] exI [of _ a] exI [of _ "[]"]) simp
  qed
qed

lemma seq_edges_complete:
  "as = us @ b # vs @ a # ws \<Longrightarrow> clash b a \<Longrightarrow>
   (acc_transfer b, acc_transfer a) \<in> (seq_edges frontier_default as)\<^sup>+"
proof (induction as arbitrary: us b vs a ws rule: rev_induct)
  case Nil then show ?case by simp
next
  case (snoc x as)
  let ?D = "seq_edges frontier_default as" and ?s = "final_state frontier_default as"
  let ?D' = "seq_edges frontier_default (as @ [x])"
  have D': "?D' = ?D \<union> snd (touch x ?s)" by (simp add: seq_edges_append)
  then have mono: "e \<in> ?D\<^sup>+ \<Longrightarrow> e \<in> ?D'\<^sup>+" for e by (cases e) (auto elim: trancl_mono)
  show ?case
  proof (cases ws rule: rev_cases)
    case (snoc ws' y)
    then have "as = us @ b # vs @ a # ws'" using snoc.prems(1) by simp
    then show ?thesis using snoc.IH snoc.prems(2) mono by blast
  next
    case Nil
    then have as: "as = us @ b # vs" and x: "x = a" using snoc.prems(1) by auto
    have bin: "b \<in> set as" using as by simp
    have direct: "(acc_transfer c, acc_transfer a) \<in> ?D'"
      if "last_write ?s = Some (acc_transfer c) \<or> (acc_write a \<and> acc_transfer c \<in> set (reads ?s))"
        and "acc_transfer c \<noteq> acc_transfer a" for c
      using that unfolding D' [unfolded x] x by (auto simp: touch_def Let_def)
    have "reflects ?s as" by (rule reflects_final)
    then consider (reads) "\<forall>a\<in>set as. \<not> acc_write a" "set (reads ?s) = acc_transfer ` set as"
      | (written) us' c vs' where "as = us' @ c # vs'" "acc_write c" "last_write ?s = Some (acc_transfer c)"
        "\<forall>b\<in>set vs'. \<not> acc_write b" "set (reads ?s) = acc_transfer ` set vs'"
      unfolding reflects_def by blast
    then show ?thesis
    proof cases
      case reads
      then show ?thesis using direct [of b] bin snoc.prems(2) by (auto simp: clash_def)
    next
      case written
      consider "b \<in> set vs'" | "b = c" | "b \<in> set us'" using bin written(1) by auto
      then show ?thesis
      proof cases
        case 1
        then show ?thesis using direct [of b] written(4,5) snoc.prems(2) by (auto simp: clash_def)
      next
        case 2
        then show ?thesis using direct [of b] written(3) snoc.prems(2) by (auto simp: clash_def)
      next
        case 3
        then obtain u1 u2 where u: "us' = u1 @ b # u2" by (meson split_list)
        have bc: "acc_transfer b = acc_transfer c \<or> (acc_transfer b, acc_transfer c) \<in> ?D'\<^sup>+"
          using snoc.IH [of u1 b u2 c vs'] written(1,2) u mono by (auto simp: clash_def)
        show ?thesis
        proof (cases "acc_transfer c = acc_transfer a")
          case True then show ?thesis using bc snoc.prems(2) by (auto simp: clash_def)
        next
          case False
          then have "(acc_transfer c, acc_transfer a) \<in> ?D'" using direct [of c] written(3) by blast
          then show ?thesis using bc by (metis r_into_trancl trancl_into_trancl)
        qed
      qed
    qed
  qed
qed

subsection \<open>One tile\<close>

text \<open>Segment \<open>k\<close> lies between the boundaries \<open>k\<close> and \<open>k + 1\<close>.\<close>

definition in_segment :: "nat list \<Rightarrow> nat \<Rightarrow> transfer_access \<Rightarrow> bool" where
  "in_segment bs k a \<longleftrightarrow> acc_start a \<le> bs ! k \<and> bs ! Suc k \<le> acc_end a"

definition access_ok :: "nat list \<Rightarrow> transfer_access \<Rightarrow> bool" where
  "access_ok bs a \<longleftrightarrow> acc_start a \<in> set bs \<and> acc_end a \<in> set bs \<and> acc_start a \<le> acc_end a"

lemma position_eq:
  assumes "distinct xs" and "i < length xs"
  shows "position ((=) (xs ! i)) xs = Some i"
  using assms by (auto simp: position_Some nth_eq_iff_index_eq)

lemma sorted_nth_le_iff:
  fixes bs :: "nat list"
  assumes "sorted_wrt (<) bs" and "i < length bs" and "j < length bs"
  shows "bs ! i \<le> bs ! j \<longleftrightarrow> i \<le> j"
  using assms by (metis linorder_not_less nat_less_le sorted_wrt_nth_less)

lemma visit_access_step:
  assumes bs: "sorted_wrt (<) bs" and F: "length F = length bs - 1" and a: "access_ok bs a"
  shows "\<exists>F'. visit_access bs (F, E) a
              = Some (F', E \<union> (\<Union>k\<in>{k. k < length F \<and> in_segment bs k a}. snd (touch a (F ! k))))
          \<and> length F' = length F
          \<and> (\<forall>k<length F. F' ! k = (if in_segment bs k a then fst (touch a (F ! k)) else F ! k))"
proof -
  from a obtain s e where s: "s < length bs" "bs ! s = acc_start a" and e: "e < length bs" "bs ! e = acc_end a"
    by (auto simp: access_ok_def in_set_conv_nth)
  have le: "s \<le> e" using a s e bs sorted_nth_le_iff [OF bs s(1) e(1)] by (simp add: access_ok_def)
  have d: "distinct bs" using bs strict_sorted_iff by blast
  have ps: "position ((=) (acc_start a)) bs = Some s" using position_eq [OF d s(1)] s(2) by simp
  have pe: "position ((=) (acc_end a)) bs = Some e" using position_eq [OF d e(1)] e(2) by simp
  have seg: "in_segment bs k a \<longleftrightarrow> s \<le> k \<and> k < e" if "k < length F" for k
    using that F sorted_nth_le_iff [OF bs s(1), of k] sorted_nth_le_iff [OF bs _ e(1), of "Suc k"]
    by (simp add: in_segment_def s(2) [symmetric] e(2) [symmetric] Suc_le_eq)
  have el: "e \<le> length F" using e F by simp
  let ?F' = "take s F @ map (\<lambda>state. fst (touch a state)) (take (e - s) (drop s F)) @ drop e F"
  have len: "length ?F' = length F" using el le by simp
  have nth: "?F' ! k = (if in_segment bs k a then fst (touch a (F ! k)) else F ! k)" if "k < length F" for k
    using that el le by (simp add: seg nth_append)
  have mid: "set (take (e - s) (drop s F)) = (!) F ` {k. k < length F \<and> in_segment bs k a}"
  proof -
    have "length (take (e - s) (drop s F)) = e - s" "\<And>j. j < e - s \<Longrightarrow> take (e - s) (drop s F) ! j = F ! (s + j)"
      using el le by auto
    then have "set (take (e - s) (drop s F)) = {F ! (s + j) | j. j < e - s}"
      unfolding set_conv_nth by force
    also have "\<dots> = (!) F ` {k. k < length F \<and> s \<le> k \<and> k < e}"
    proof (intro set_eqI iffI)
      fix x assume "x \<in> {F ! (s + j) | j. j < e - s}"
      then obtain j where "j < e - s" "x = F ! (s + j)" by blast
      then show "x \<in> (!) F ` {k. k < length F \<and> s \<le> k \<and> k < e}" using el by (intro image_eqI [of _ _ "s + j"]) auto
    next
      fix x assume "x \<in> (!) F ` {k. k < length F \<and> s \<le> k \<and> k < e}"
      then obtain k where k: "x = F ! k" "s \<le> k" "k < e" by blast
      then have "x = F ! (s + (k - s)) \<and> k - s < e - s" by simp
      then show "x \<in> {F ! (s + j) | j. j < e - s}" by blast
    qed
    also have "{k. k < length F \<and> s \<le> k \<and> k < e} = {k. k < length F \<and> in_segment bs k a}" using seg by auto
    finally show ?thesis .
  qed
  have "visit_access bs (F, E) a
      = Some (?F', E \<union> (\<Union>k\<in>{k. k < length F \<and> in_segment bs k a}. snd (touch a (F ! k))))"
    using ps pe le el by (simp add: visit_access_def mid)
  then show ?thesis using len nth by blast
qed

lemma visit_accesses_segments:
  assumes "sorted_wrt (<) bs" and "length F = length bs - 1" and "list_all (access_ok bs) as"
  shows "\<exists>F'. visit_accesses bs (F, E) as
      = Some (F', E \<union> (\<Union>k\<in>{..<length F}. seq_edges (F ! k) (filter (in_segment bs k) as)))"
  using assms(2,3)
proof (induction as arbitrary: F E)
  case Nil then show ?case by simp
next
  case (Cons a as)
  from visit_access_step [OF assms(1) Cons.prems(1), of a E] Cons.prems(2) obtain F' where
    step: "visit_access bs (F, E) a
      = Some (F', E \<union> (\<Union>k\<in>{k. k < length F \<and> in_segment bs k a}. snd (touch a (F ! k))))"
    and len: "length F' = length F"
    and nth: "\<forall>k<length F. F' ! k = (if in_segment bs k a then fst (touch a (F ! k)) else F ! k)"
    by auto
  let ?E = "E \<union> (\<Union>k\<in>{k. k < length F \<and> in_segment bs k a}. snd (touch a (F ! k)))"
  from Cons.IH [of F' ?E] len Cons.prems obtain F'' where
    rest: "visit_accesses bs (F', ?E) as
      = Some (F'', ?E \<union> (\<Union>k\<in>{..<length F}. seq_edges (F' ! k) (filter (in_segment bs k) as)))"
    by auto
  have one: "seq_edges (F ! k) (filter (in_segment bs k) (a # as))
      = (if in_segment bs k a then snd (touch a (F ! k)) else {}) \<union> seq_edges (F' ! k) (filter (in_segment bs k) as)"
    if "k < length F" for k
    using nth that by simp
  have "?E \<union> (\<Union>k\<in>{..<length F}. seq_edges (F' ! k) (filter (in_segment bs k) as))
      = E \<union> (\<Union>k\<in>{..<length F}. seq_edges (F ! k) (filter (in_segment bs k) (a # as)))"
    using one by (auto split: if_splits)
  then show ?case using step rest by auto
qed

text \<open>Two accesses overlap when some byte belongs to both; then they share a segment.\<close>

definition overlapping :: "transfer_access \<Rightarrow> transfer_access \<Rightarrow> bool" where
  "overlapping a b \<longleftrightarrow> (\<exists>x. acc_start a \<le> x \<and> x < acc_end a \<and> acc_start b \<le> x \<and> x < acc_end b)"

lemma strict_boundaries: "sorted_wrt (<) (boundaries_of as)"
  unfolding boundaries_of_def by (rule dedup_sorted) simp

lemma boundaries_ok: "list_all (\<lambda>a. acc_start a \<le> acc_end a) as \<Longrightarrow> list_all (access_ok (boundaries_of as)) as"
  by (auto simp: list_all_iff access_ok_def boundaries_of_def)

lemma segment_containing:
  fixes bs :: "nat list"
  assumes "sorted_wrt (<) bs" and "u \<in> set bs" and "v \<in> set bs" and "u \<le> x" and "x < v"
  shows "\<exists>k. Suc k < length bs \<and> bs ! k \<le> x \<and> x < bs ! Suc k"
proof -
  let ?P = "\<lambda>k. k < length bs \<and> bs ! k \<le> x"
  from assms(2,4) obtain i where i: "?P i" by (auto simp: in_set_conv_nth)
  have bound: "\<And>k. ?P k \<Longrightarrow> k \<le> length bs" by simp
  define k where "k = Greatest ?P"
  have k: "?P k" and mx: "\<And>j. ?P j \<Longrightarrow> j \<le> k"
    unfolding k_def using GreatestI_nat [of ?P, OF i bound] Greatest_le_nat [of ?P _ "length bs"] bound by blast+
  from assms(3) obtain j where j: "j < length bs" "bs ! j = v" by (auto simp: in_set_conv_nth)
  have "k < j" using k j assms(5) sorted_nth_le_iff [OF assms(1), of j k] by (meson leI order_le_less_trans not_le)
  then have "Suc k < length bs" using j by simp
  moreover have "x < bs ! Suc k" using mx [of "Suc k"] \<open>Suc k < length bs\<close> by (meson Suc_n_not_le_n leI)
  ultimately show ?thesis using k by blast
qed

lemma segment_of_byte:
  assumes bs: "sorted_wrt (<) bs" and a: "access_ok bs a" and k: "Suc k < length bs"
    and x: "bs ! k \<le> x" "x < bs ! Suc k" "acc_start a \<le> x" "x < acc_end a"
  shows "in_segment bs k a"
proof -
  from a obtain s e where s: "s < length bs" "bs ! s = acc_start a" and e: "e < length bs" "bs ! e = acc_end a"
    by (auto simp: access_ok_def in_set_conv_nth)
  have "s \<le> k" using sorted_nth_le_iff [OF bs, of "Suc k" s] s k x by force
  moreover have "Suc k \<le> e" using sorted_nth_le_iff [OF bs, of e k] e k x by force
  ultimately show ?thesis
    using sorted_nth_le_iff [OF bs s(1), of k] sorted_nth_le_iff [OF bs _ e(1), of "Suc k"] s e k
    by (simp add: in_segment_def)
qed

lemma filter_split:
  "filter P xs = us @ b # ys \<Longrightarrow> \<exists>us' ys'. xs = us' @ b # ys' \<and> P b \<and> filter P ys' = ys"
proof (induction xs arbitrary: us)
  case (Cons x xs)
  show ?case
  proof (cases "P x \<and> us = []")
    case True then show ?thesis using Cons.prems by (intro exI [of _ "[]"] exI [of _ xs]) auto
  next
    case False
    then have "filter P xs = (if P x then tl us else us) @ b # ys" using Cons.prems by (cases us) auto
    from Cons.IH [OF this] obtain us' ys' where "xs = us' @ b # ys'" "P b" "filter P ys' = ys" by blast
    then show ?thesis by (intro exI [of _ "x # us'"] exI [of _ ys']) simp
  qed
qed simp

lemma filter_split_pair:
  "filter P xs = us @ b # vs @ a # ws \<Longrightarrow>
   \<exists>us' vs' ws'. xs = us' @ b # vs' @ a # ws' \<and> P b \<and> P a"
  by (drule filter_split) (metis filter_split)

lemma tile_dependencies_exact:
  assumes ok: "list_all (\<lambda>a. acc_start a \<le> acc_end a) as"
  shows "\<exists>E. tile_dependencies D as = Some (D \<union> E)
    \<and> (\<forall>p q. (p, q) \<in> E \<longrightarrow> (\<exists>us b vs a ws. as = us @ b # vs @ a # ws \<and> clash b a \<and> overlapping b a
          \<and> p = acc_transfer b \<and> q = acc_transfer a))
    \<and> (\<forall>us b vs a ws. as = us @ b # vs @ a # ws \<longrightarrow> clash b a \<longrightarrow> overlapping b a
          \<longrightarrow> (acc_transfer b, acc_transfer a) \<in> E\<^sup>+)"
proof -
  let ?bs = "boundaries_of as"
  let ?F = "replicate (length ?bs - 1) frontier_default"
  let ?seg = "\<lambda>k. seq_edges frontier_default (filter (in_segment ?bs k) as)"
  define E where "E = (\<Union>k\<in>{..<length ?bs - 1}. ?seg k)"
  note bs = strict_boundaries [of as] and oks = boundaries_ok [OF ok]
  from visit_accesses_segments [OF bs _ oks, of ?F D] obtain F' where
    "visit_accesses ?bs (?F, D) as = Some (F', D \<union> (\<Union>k\<in>{..<length ?F}. seq_edges (?F ! k) (filter (in_segment ?bs k) as)))"
    by auto
  then have "tile_dependencies D as = Some (D \<union> E)"
    by (simp add: tile_dependencies_def Let_def E_def)
  moreover have "\<exists>us b vs a ws. as = us @ b # vs @ a # ws \<and> clash b a \<and> overlapping b a
          \<and> p = acc_transfer b \<and> q = acc_transfer a" if pq: "(p, q) \<in> E" for p q
  proof -
    from pq obtain k where k: "k < length ?bs - 1" "(p, q) \<in> ?seg k" by (auto simp: E_def)
    from seq_edges_sound [OF k(2)] obtain us b vs a ws where
      f: "filter (in_segment ?bs k) as = us @ b # vs @ a # ws" "clash b a" "p = acc_transfer b" "q = acc_transfer a"
      by blast
    from filter_split_pair [OF f(1)] obtain us' vs' ws' where
      s: "as = us' @ b # vs' @ a # ws'" "in_segment ?bs k b" "in_segment ?bs k a" by blast
    have "?bs ! k < ?bs ! Suc k" using bs k(1) by (simp add: sorted_wrt_nth_less)
    then have "overlapping b a" using s(2,3) by (force simp: overlapping_def in_segment_def)
    then show ?thesis using s(1) f(2-) by blast
  qed
  moreover have "(acc_transfer b, acc_transfer a) \<in> E\<^sup>+"
    if as: "as = us @ b # vs @ a # ws" and c: "clash b a" and o: "overlapping b a" for us b vs a ws
  proof -
    have oab: "access_ok ?bs b" "access_ok ?bs a" using oks as by (simp_all add: list_all_iff)
    from o obtain x where x: "acc_start b \<le> x" "x < acc_end b" "acc_start a \<le> x" "x < acc_end a"
      by (auto simp: overlapping_def)
    with oab(1) segment_containing [OF bs, of "acc_start b" "acc_end b" x] obtain k where
      k: "Suc k < length ?bs" "?bs ! k \<le> x" "x < ?bs ! Suc k" by (auto simp: access_ok_def)
    have "in_segment ?bs k b" "in_segment ?bs k a"
      using segment_of_byte [OF bs _ k] oab x by blast+
    then have "filter (in_segment ?bs k) as
        = filter (in_segment ?bs k) us @ b # filter (in_segment ?bs k) vs @ a # filter (in_segment ?bs k) ws"
      unfolding as by simp
    from seq_edges_complete [OF this c] have "(acc_transfer b, acc_transfer a) \<in> (?seg k)\<^sup>+" .
    moreover have "?seg k \<subseteq> E" unfolding E_def using k(1) by (intro UN_upper) simp
    ultimately show ?thesis by (rule trancl_mono)
  qed
  ultimately show ?thesis by (intro exI [of _ E]) blast
qed

subsection \<open>All tiles\<close>

definition reads_byte :: "pending_transfer \<Rightarrow> nat \<Rightarrow> nat \<Rightarrow> bool" where
  "reads_byte t tile x \<longleftrightarrow> source t = tile \<and> (\<exists>a\<in>set (source_addresses t). a \<le> x \<and> x < a + 4 * words t)"

definition writes_byte :: "pending_transfer \<Rightarrow> nat \<Rightarrow> nat \<Rightarrow> bool" where
  "writes_byte t tile x \<longleftrightarrow> (\<exists>d\<in>set (destinations t). covers (words t) d tile x)"

text \<open>Two transfers conflict when they touch a common byte of some tile and one of them writes it.\<close>

definition conflicting :: "pending_transfer \<Rightarrow> pending_transfer \<Rightarrow> bool" where
  "conflicting s t \<longleftrightarrow>
     (\<exists>tile x. (writes_byte s tile x \<and> (reads_byte t tile x \<or> writes_byte t tile x))
             \<or> (reads_byte s tile x \<and> writes_byte t tile x))"

lemma accesses_of_transfer: "a \<in> set (accesses_of tile (i, t)) \<Longrightarrow> acc_transfer a = i \<and> acc_start a \<le> acc_end a"
  by (auto simp: accesses_of_def Let_def)

lemma accesses_of_write:
  "(\<exists>a\<in>set (accesses_of tile (i, t)). acc_write a \<and> acc_start a \<le> x \<and> x < acc_end a) \<longleftrightarrow> writes_byte t tile x"
  by (force simp: accesses_of_def Let_def writes_byte_def covers_def)

lemma accesses_of_read:
  "(\<exists>a\<in>set (accesses_of tile (i, t)). \<not> acc_write a \<and> acc_start a \<le> x \<and> x < acc_end a) \<longleftrightarrow> reads_byte t tile x"
  by (force simp: accesses_of_def Let_def reads_byte_def)

lemma tile_accesses_sorted:
  "sorted (map acc_transfer (tile_accesses ts tile))"
proof -
  have "sorted (map acc_transfer (concat (map (accesses_of tile) (enumerate n ts))))
      \<and> (\<forall>a\<in>set (concat (map (accesses_of tile) (enumerate n ts))). n \<le> acc_transfer a)" for n
  proof (induction ts arbitrary: n)
    case Nil then show ?case by simp
  next
    case (Cons t ts)
    have const: "a \<in> set (accesses_of tile (n, t)) \<Longrightarrow> acc_transfer a = n" for a
      using accesses_of_transfer by blast
    then have "map acc_transfer (accesses_of tile (n, t)) = replicate (length (accesses_of tile (n, t))) n"
      by (intro replicate_eqI) auto
    then have "sorted (map acc_transfer (accesses_of tile (n, t)))" by simp
    then show ?case using Cons.IH [of "Suc n"] const by (force simp: sorted_append)
  qed
  then show ?thesis by (simp add: tile_accesses_def)
qed

lemma tile_accesses_member:
  "a \<in> set (tile_accesses ts tile) \<longleftrightarrow> (\<exists>i<length ts. a \<in> set (accesses_of tile (i, ts ! i)))"
  by (force simp: tile_accesses_def in_set_enumerate_eq)

lemma sorted_map_split:
  fixes f :: "'a \<Rightarrow> nat"
  assumes "sorted (map f xs)" and "a \<in> set xs" and "b \<in> set xs" and "f a < f b"
  shows "\<exists>us vs ws. xs = us @ a # vs @ b # ws"
proof -
  from assms(2) obtain us ys where xs: "xs = us @ a # ys" by (meson split_list)
  have "b \<notin> set us" using assms(1,4) by (auto simp: xs sorted_append)
  then have "b \<in> set ys" using assms(3,4) xs by auto
  then obtain vs ws where "ys = vs @ b # ws" by (meson split_list)
  then show ?thesis using xs by blast
qed

text \<open>What one tile contributes: the edges of every conflicting pair, up to transitivity.\<close>

definition conflict_on :: "nat \<Rightarrow> pending_transfer \<Rightarrow> pending_transfer \<Rightarrow> bool" where
  "conflict_on tile s t \<longleftrightarrow>
     (\<exists>x. (writes_byte s tile x \<and> (reads_byte t tile x \<or> writes_byte t tile x))
        \<or> (reads_byte s tile x \<and> writes_byte t tile x))"

lemma conflicting_iff: "conflicting s t \<longleftrightarrow> (\<exists>tile. conflict_on tile s t)"
  by (auto simp: conflicting_def conflict_on_def)

lemma tile_dependencies_conflicts:
  "\<exists>E. tile_dependencies D (tile_accesses ts tile) = Some (D \<union> E)
    \<and> (\<forall>p q. (p, q) \<in> E \<longrightarrow> p < q \<and> q < length ts \<and> conflict_on tile (ts ! p) (ts ! q))
    \<and> (\<forall>p q. p < q \<longrightarrow> q < length ts \<longrightarrow> conflict_on tile (ts ! p) (ts ! q) \<longrightarrow> (p, q) \<in> E\<^sup>+)"
proof -
  let ?as = "tile_accesses ts tile"
  have "list_all (\<lambda>a. acc_start a \<le> acc_end a) ?as"
    using accesses_of_transfer by (auto simp: list_all_iff tile_accesses_member)
  from tile_dependencies_exact [OF this, of D] obtain E where
    E: "tile_dependencies D ?as = Some (D \<union> E)"
    and sound: "\<And>p q. (p, q) \<in> E \<Longrightarrow> \<exists>us b vs a ws. ?as = us @ b # vs @ a # ws \<and> clash b a \<and> overlapping b a
          \<and> p = acc_transfer b \<and> q = acc_transfer a"
    and complete: "\<And>us b vs a ws. ?as = us @ b # vs @ a # ws \<Longrightarrow> clash b a \<Longrightarrow> overlapping b a
          \<Longrightarrow> (acc_transfer b, acc_transfer a) \<in> E\<^sup>+"
    by blast
  have "p < q \<and> q < length ts \<and> conflict_on tile (ts ! p) (ts ! q)" if "(p, q) \<in> E" for p q
  proof -
    from sound [OF that] obtain us b vs a ws where
      s: "?as = us @ b # vs @ a # ws" "clash b a" "overlapping b a" "p = acc_transfer b" "q = acc_transfer a"
      by blast
    have "p \<le> q" using tile_accesses_sorted [of ts tile] s by (auto simp: sorted_append)
    then have lt: "p < q" using s(2,4,5) by (simp add: clash_def)
    have mem: "b \<in> set ?as" "a \<in> set ?as" using s(1) by auto
    have b: "b \<in> set (accesses_of tile (p, ts ! p))" and a: "a \<in> set (accesses_of tile (q, ts ! q))"
      and q: "q < length ts"
      using mem accesses_of_transfer s(4,5) by (auto simp: tile_accesses_member)
    from s(3) obtain x where x: "acc_start b \<le> x" "x < acc_end b" "acc_start a \<le> x" "x < acc_end a"
      by (auto simp: overlapping_def)
    have "if acc_write b then writes_byte (ts ! p) tile x else reads_byte (ts ! p) tile x"
      using accesses_of_write [of tile p "ts ! p" x] accesses_of_read [of tile p "ts ! p" x] b x by auto
    moreover have "if acc_write a then writes_byte (ts ! q) tile x else reads_byte (ts ! q) tile x"
      using accesses_of_write [of tile q "ts ! q" x] accesses_of_read [of tile q "ts ! q" x] a x by auto
    ultimately have "conflict_on tile (ts ! p) (ts ! q)"
      using s(2) unfolding clash_def conflict_on_def by (meson)
    then show ?thesis using lt q by blast
  qed
  moreover have "(p, q) \<in> E\<^sup>+" if pq: "p < q" "q < length ts" "conflict_on tile (ts ! p) (ts ! q)" for p q
  proof -
    have "\<exists>b a x. b \<in> set (accesses_of tile (p, ts ! p)) \<and> a \<in> set (accesses_of tile (q, ts ! q))
       \<and> (acc_write b \<or> acc_write a) \<and> acc_start b \<le> x \<and> x < acc_end b \<and> acc_start a \<le> x \<and> x < acc_end a"
      using pq(3) unfolding conflict_on_def accesses_of_write [of tile p "ts ! p", symmetric] accesses_of_write [of tile q "ts ! q", symmetric]
        accesses_of_read [of tile p "ts ! p", symmetric] accesses_of_read [of tile q "ts ! q", symmetric] by blast
    then obtain b a x where ba: "b \<in> set (accesses_of tile (p, ts ! p))" "a \<in> set (accesses_of tile (q, ts ! q))"
      "acc_write b \<or> acc_write a" "acc_start b \<le> x" "x < acc_end b" "acc_start a \<le> x" "x < acc_end a"
      by blast
    have tr: "acc_transfer b = p" "acc_transfer a = q" using ba(1,2) accesses_of_transfer by blast+
    have "b \<in> set ?as" "a \<in> set ?as"
      unfolding tile_accesses_member using ba(1,2) pq(1,2) less_trans by blast+
    then obtain us vs ws where "?as = us @ b # vs @ a # ws"
      using sorted_map_split [OF tile_accesses_sorted] tr pq(1) by metis
    moreover have "clash b a" "overlapping b a"
      using ba tr pq(1) by (auto simp: clash_def overlapping_def)
    ultimately show ?thesis using complete tr by metis
  qed
  ultimately show ?thesis using E by blast
qed

lemma dependencies_loop_conflicts:
  "\<exists>E. dependencies_loop ts tls D = Some (D \<union> E)
    \<and> (\<forall>p q. (p, q) \<in> E \<longrightarrow> p < q \<and> q < length ts \<and> (\<exists>tile\<in>set tls. conflict_on tile (ts ! p) (ts ! q)))
    \<and> (\<forall>p q tile. p < q \<longrightarrow> q < length ts \<longrightarrow> tile \<in> set tls \<longrightarrow> conflict_on tile (ts ! p) (ts ! q)
         \<longrightarrow> (p, q) \<in> E\<^sup>+)"
proof (induction tls arbitrary: D)
  case Nil then show ?case by (intro exI [of _ "{}"]) simp
next
  case (Cons tile tls)
  from tile_dependencies_conflicts [of D ts tile] obtain E where
    E: "tile_dependencies D (tile_accesses ts tile) = Some (D \<union> E)"
    "\<forall>p q. (p, q) \<in> E \<longrightarrow> p < q \<and> q < length ts \<and> conflict_on tile (ts ! p) (ts ! q)"
    "\<forall>p q. p < q \<longrightarrow> q < length ts \<longrightarrow> conflict_on tile (ts ! p) (ts ! q) \<longrightarrow> (p, q) \<in> E\<^sup>+"
    by (elim exE conjE)
  from Cons.IH [of "D \<union> E"] obtain E' where
    E': "dependencies_loop ts tls (D \<union> E) = Some (D \<union> E \<union> E')"
    "\<forall>p q. (p, q) \<in> E' \<longrightarrow> p < q \<and> q < length ts \<and> (\<exists>tile\<in>set tls. conflict_on tile (ts ! p) (ts ! q))"
    "\<forall>p q tile. p < q \<longrightarrow> q < length ts \<longrightarrow> tile \<in> set tls \<longrightarrow> conflict_on tile (ts ! p) (ts ! q)
         \<longrightarrow> (p, q) \<in> E'\<^sup>+"
    by (elim exE conjE)
  have "e \<in> (E \<union> E')\<^sup>+" if "e \<in> E\<^sup>+ \<or> e \<in> E'\<^sup>+" for e
    using that by (cases e) (auto elim: trancl_mono)
  then have "\<forall>p q t. p < q \<longrightarrow> q < length ts \<longrightarrow> t \<in> set (tile # tls) \<longrightarrow> conflict_on t (ts ! p) (ts ! q)
         \<longrightarrow> (p, q) \<in> (E \<union> E')\<^sup>+"
    using E(3) E'(3) by (metis set_ConsD)
  moreover have "dependencies_loop ts (tile # tls) D = Some (D \<union> (E \<union> E'))"
    using E(1) E'(1) by (simp add: Un_assoc)
  moreover have "\<forall>p q. (p, q) \<in> E \<union> E' \<longrightarrow> p < q \<and> q < length ts
      \<and> (\<exists>t\<in>set (tile # tls). conflict_on t (ts ! p) (ts ! q))"
    using E(2) E'(2) by (metis Un_iff list.set_intros)
  ultimately show ?case by blast
qed

definition tiles_in_range :: "pending_transfer list \<Rightarrow> nat \<Rightarrow> bool" where
  "tiles_in_range ts count \<longleftrightarrow>
     list_all (\<lambda>t. list_all (\<lambda>tile. tile < count) (tiles t)) ts"

lemma conflict_on_tile: "conflict_on tile s t \<Longrightarrow> tile \<in> fst ` set (destinations s) \<union> fst ` set (destinations t)"
  unfolding conflict_on_def writes_byte_def covers_def by blast

lemma memory_dependencies_exact:
  assumes "memory_dependencies ts count = Some D"
  shows "(\<forall>p q. (p, q) \<in> D \<longrightarrow> p < q \<and> q < length ts \<and> conflicting (ts ! p) (ts ! q))
    \<and> (\<forall>p q. p < q \<longrightarrow> q < length ts \<longrightarrow> conflicting (ts ! p) (ts ! q) \<longrightarrow> (p, q) \<in> D\<^sup>+)"
proof -
  from dependencies_loop_conflicts [of ts "[0..<count]" "{}"] obtain E where
    E: "dependencies_loop ts [0..<count] {} = Some E"
    "\<forall>p q. (p, q) \<in> E \<longrightarrow> p < q \<and> q < length ts \<and> (\<exists>tile\<in>set [0..<count]. conflict_on tile (ts ! p) (ts ! q))"
    "\<forall>p q tile. p < q \<longrightarrow> q < length ts \<longrightarrow> tile \<in> set [0..<count] \<longrightarrow> conflict_on tile (ts ! p) (ts ! q)
         \<longrightarrow> (p, q) \<in> E\<^sup>+"
    by auto
  from assms have range: "list_all (\<lambda>t. (source_addresses t = [] \<or> source t < count)
                     \<and> list_all (\<lambda>(tile, _). tile < count) (destinations t)) ts"
    and D: "D = E"
    using E(1) by (auto simp: memory_dependencies_def split: if_splits)
  have dest: "tile < count" if "t \<in> set ts" "tile \<in> fst ` set (destinations t)" for t tile
    using range that by (fastforce simp: list_all_iff)
  have inside: "tile < count" if "p < q" "q < length ts" "conflict_on tile (ts ! p) (ts ! q)" for p q tile
    using conflict_on_tile [OF that(3)] dest [of "ts ! p" tile] dest [of "ts ! q" tile] that(1,2) by auto
  show ?thesis
    using E(2,3) inside unfolding D conflicting_iff set_upt atLeastLessThan_iff by (meson le0)
qed

lemma memory_dependencies_total: "tiles_in_range ts count \<Longrightarrow> \<exists>D. memory_dependencies ts count = Some D"
proof -
  assume r: "tiles_in_range ts count"
  have "(source_addresses t = [] \<or> source t < count) \<and> list_all (\<lambda>(tile, _). tile < count) (destinations t)"
    if "t \<in> set ts" for t
  proof -
    have "list_all (\<lambda>tile. tile < count) (tiles t)" using r that by (auto simp: tiles_in_range_def list_all_iff)
    then show ?thesis by (force simp: tiles_def list_all_iff)
  qed
  then show ?thesis
    using dependencies_loop_conflicts [of ts "[0..<count]" "{}"] by (auto simp: memory_dependencies_def list_all_iff)
qed

subsection \<open>The problem\<close>

lemma push_at_fold:
  "foldl (\<lambda>p (a, b). push_at (f a b) (g a b) p) P es ! k
     = P ! k @ map (\<lambda>(a, b). g a b) (filter (\<lambda>(a, b). f a b = k) es)
   \<and> length (foldl (\<lambda>p (a, b). push_at (f a b) (g a b) p) P es) = length P" if "k < length P"
  using that
proof (induction es arbitrary: P)
  case (Cons e es)
  obtain a b where e: "e = (a, b)" by (cases e)
  have "k < length (push_at (f a b) (g a b) P)" using Cons.prems by (simp add: push_at_def)
  from Cons.IH [OF this] show ?case
    using Cons.prems by (auto simp: e push_at_def nth_list_update)
qed simp

text \<open>The edge relation as the policies read it.\<close>

definition edges :: "scheduling_problem \<Rightarrow> (nat \<times> nat) set" where
  "edges p = {(a, b). b < length (predecessors p) \<and> a \<in> set (predecessors p ! b)}"

definition problem_wf :: "scheduling_problem \<Rightarrow> bool" where
  "problem_wf p \<longleftrightarrow>
     (let n = length (problem_transfers p)
      in length (predecessors p) = n \<and> length (dependents p) = n
         \<and> length (word_pressure p) = tile_count p
         \<and> (\<forall>b<n. sorted_wrt (<) (predecessors p ! b) \<and> (\<forall>a\<in>set (predecessors p ! b). a < b))
         \<and> (\<forall>a<n. sorted_wrt (<) (dependents p ! a)
              \<and> (\<forall>b. b \<in> set (dependents p ! a) \<longleftrightarrow> b < n \<and> a \<in> set (predecessors p ! b))))"

lemma add_pressure_length [simp]: "length (add_pressure pr t) = length pr"
proof -
  have "length (foldl (\<lambda>p tile. p[tile := p ! tile + f tile]) pr xs) = length pr" for f :: "nat \<Rightarrow> nat" and xs
    by (induction xs arbitrary: pr) auto
  then show ?thesis by (simp add: add_pressure_def)
qed

lemma pressure_length: "length (foldl add_pressure pr ts) = length pr"
  by (induction ts arbitrary: pr) auto

lemma problem_new_edges:
  assumes "problem_new ts count = Some p"
  shows "problem_transfers p = ts \<and> problem_wf p \<and> memory_dependencies ts count = Some (edges p)"
proof -
  from assms obtain D where D: "memory_dependencies ts count = Some D"
    by (auto simp: problem_new_def split: option.splits)
  let ?es = "sorted_list_of_set D" and ?e = "replicate (length ts) []"
  from assms D have p: "p = \<lparr>problem_transfers = ts, tile_count = count,
      predecessors = foldl (\<lambda>p (before, after). push_at after before p) ?e ?es,
      dependents = foldl (\<lambda>d (before, after). push_at before after d) ?e ?es,
      word_pressure = foldl add_pressure (replicate count 0) ts\<rparr>"
    by (auto simp: problem_new_def Let_def split: if_splits)
  note dep = memory_dependencies_exact [OF D]
  have "D \<subseteq> {..<length ts} \<times> {..<length ts}" using dep by fastforce
  then have fin: "finite D" by (rule finite_subset) simp
  then have es: "set ?es = D" "sorted ?es" "distinct ?es" by simp_all
  have pred: "predecessors p ! b = map fst (filter (\<lambda>(x, y). y = b) ?es)" if "b < length ts" for b
    using push_at_fold [of b ?e "\<lambda>x y. y" "\<lambda>x y. x" ?es] that by (simp add: p fst_def)
  have depn: "dependents p ! a = map snd (filter (\<lambda>(x, y). x = a) ?es)" if "a < length ts" for a
    using push_at_fold [of a ?e "\<lambda>x y. x" "\<lambda>x y. y" ?es] that by (simp add: p snd_def)
  have "length (predecessors p) = length ts \<and> length (dependents p) = length ts"
  proof (cases "ts = []")
    case True
    then have "D = {}" using dep by auto
    then show ?thesis using True by (simp add: p)
  next
    case False
    then show ?thesis
      using push_at_fold [of 0 ?e "\<lambda>x y. y" "\<lambda>x y. x" ?es] push_at_fold [of 0 ?e "\<lambda>x y. x" "\<lambda>x y. y" ?es]
      by (simp add: p)
  qed
  note lens = this
  have sortedp: "sorted_wrt (<) (map fst (filter (\<lambda>(x, y). y = b) ?es))" for b
  proof -
    have "sorted_wrt (<) ?es" using es by (simp add: strict_sorted_iff)
    then have "sorted_wrt (<) (filter (\<lambda>(x, y). y = b) ?es)" by (rule sorted_wrt_filter)
    then show ?thesis
      unfolding sorted_wrt_map by (rule sorted_wrt_mono_rel [rotated]) (auto simp: less_prod_def)
  qed
  have sortedd: "sorted_wrt (<) (map snd (filter (\<lambda>(x, y). x = b) ?es))" for b
  proof -
    have "sorted_wrt (<) ?es" using es by (simp add: strict_sorted_iff)
    then have "sorted_wrt (<) (filter (\<lambda>(x, y). x = b) ?es)" by (rule sorted_wrt_filter)
    then show ?thesis
      unfolding sorted_wrt_map by (rule sorted_wrt_mono_rel [rotated]) (auto simp: less_prod_def)
  qed
  have memp: "a \<in> set (predecessors p ! b) \<longleftrightarrow> (a, b) \<in> D" if "b < length ts" for a b
    using pred [OF that] es(1) by force
  have memd: "b \<in> set (dependents p ! a) \<longleftrightarrow> (a, b) \<in> D" if "a < length ts" for a b
    using depn [OF that] es(1) by force
  have "edges p = D"
    using dep lens memp unfolding edges_def by auto
  moreover have ts: "problem_transfers p = ts" by (simp add: p)
  moreover have "problem_wf p"
  proof -
    have "length (word_pressure p) = tile_count p" by (simp add: p pressure_length)
    moreover have "sorted_wrt (<) (predecessors p ! b) \<and> (\<forall>a\<in>set (predecessors p ! b). a < b)"
      if "b < length ts" for b
      using pred [OF that] sortedp [of b] memp [OF that] dep by simp
    moreover have "sorted_wrt (<) (dependents p ! a)
        \<and> (\<forall>b. b \<in> set (dependents p ! a) \<longleftrightarrow> b < length ts \<and> a \<in> set (predecessors p ! b))"
      if "a < length ts" for a
      using depn [OF that] sortedd [of a] memd [OF that] memp dep by metis
    ultimately show ?thesis unfolding problem_wf_def Let_def ts using lens by blast
  qed
  ultimately show ?thesis using D by simp
qed

subsection \<open>Orders that respect the problem\<close>

text \<open>
  An order is a schedule of the problem when it lists every transfer once and no transfer
  before one it depends on.
\<close>

definition keeps_edges :: "(nat \<times> nat) set \<Rightarrow> nat list \<Rightarrow> bool" where
  "keeps_edges D order \<longleftrightarrow> sorted_wrt (\<lambda>a b. (b, a) \<notin> D) order"

definition topological :: "scheduling_problem \<Rightarrow> nat list \<Rightarrow> bool" where
  "topological p order \<longleftrightarrow>
     distinct order \<and> set order = {..<length (problem_transfers p)} \<and> keeps_edges (edges p) order"

lemma keeps_edges_trancl:
  assumes "keeps_edges D order" and "D \<subseteq> set order \<times> set order" and "\<And>a b. (a, b) \<in> D \<Longrightarrow> a < b"
  shows "keeps_edges (D\<^sup>+) order"
proof -
  have idx: "\<forall>i j. i < length order \<longrightarrow> j < length order \<longrightarrow> order ! i = a \<longrightarrow> order ! j = b \<longrightarrow> i < j"
    if "(a, b) \<in> D\<^sup>+" for a b
    using that
  proof (induction rule: trancl_induct)
    case (base b)
    show ?case
    proof (intro allI impI)
      fix i j assume ij: "i < length order" "j < length order" "order ! i = a" "order ! j = b"
      have "i \<noteq> j" using assms(3) base ij by blast
      moreover have "\<not> j < i" using assms(1) base ij by (auto simp: keeps_edges_def sorted_wrt_iff_nth_less)
      ultimately show "i < j" by simp
    qed
  next
    case (step b c)
    show ?case
    proof (intro allI impI)
      fix i j assume ij: "i < length order" "j < length order" "order ! i = a" "order ! j = c"
      have "b \<in> set order" using step(2) assms(2) by blast
      then obtain k where k: "k < length order" "order ! k = b" by (auto simp: in_set_conv_nth)
      have "i < k" using step.IH ij k by blast
      moreover have "k \<noteq> j" using assms(3) [OF step(2)] ij k by auto
      moreover have "\<not> j < k" using assms(1) step(2) ij k by (auto simp: keeps_edges_def sorted_wrt_iff_nth_less)
      ultimately show "i < j" by simp
    qed
  qed
  show ?thesis
    unfolding keeps_edges_def sorted_wrt_iff_nth_less
  proof (intro allI impI notI)
    fix i j assume ij: "i < j" "j < length order" and e: "(order ! j, order ! i) \<in> D\<^sup>+"
    from idx [OF e] ij have "j < i" by auto
    then show False using ij by simp
  qed
qed

locale commuting_actions =
  fixes ok :: "'p \<Rightarrow> bool" and size_of :: "'p \<Rightarrow> nat" and act :: "'p \<Rightarrow> nat \<Rightarrow> 's \<Rightarrow> 's"
    and edges_of :: "'p \<Rightarrow> (nat \<times> nat) set"
  assumes forward: "ok p \<Longrightarrow> (a, b) \<in> edges_of p \<Longrightarrow> a < b \<and> b < size_of p"
    and independent: "ok p \<Longrightarrow> a < b \<Longrightarrow> b < size_of p \<Longrightarrow> (a, b) \<notin> (edges_of p)\<^sup>+ \<Longrightarrow>
      act p a (act p b s) = act p b (act p a s)"
begin

definition run :: "'p \<Rightarrow> nat list \<Rightarrow> 's \<Rightarrow> 's" where
  "run p order s = foldl (\<lambda>s a. act p a s) s order"

lemma run_simps [simp]:
  "run p [] s = s" "run p (a # as) s = run p as (act p a s)"
  "run p (as @ bs) s = run p bs (run p as s)"
  by (simp_all add: run_def)

lemma closure_forward: "ok p \<Longrightarrow> (a, b) \<in> (edges_of p)\<^sup>+ \<Longrightarrow> a < b \<and> b < size_of p"
proof (rotate_tac 1, induction rule: trancl_induct)
  case (base b) then show ?case using forward by blast
next
  case (step b c) then show ?case using forward [of p b c] by auto
qed

lemma independent_pair:
  assumes "ok p" and "a < size_of p" and "b < size_of p"
    and "(a, b) \<notin> (edges_of p)\<^sup>+" and "(b, a) \<notin> (edges_of p)\<^sup>+"
  shows "act p a (act p b s) = act p b (act p a s)"
  by (cases a b rule: linorder_cases) (use assms independent in auto)

lemma move_first:
  assumes "ok p" and "y < size_of p" and "\<forall>u\<in>set us. u < size_of p \<and> (u, y) \<notin> (edges_of p)\<^sup>+ \<and> (y, u) \<notin> (edges_of p)\<^sup>+"
  shows "run p (us @ [y]) s = run p (y # us) s"
  using assms(3)
proof (induction us arbitrary: s)
  case (Cons u us)
  have "run p (u # us @ [y]) s = run p us (act p y (act p u s))" using Cons by simp
  also have "act p y (act p u s) = act p u (act p y s)"
    using independent_pair [OF assms(1,2), of u] Cons.prems by simp
  finally show ?case by simp
qed simp

lemma arrangements_agree:
  assumes "ok p" and "distinct xs" and "distinct ys" and "set xs = set ys" and "set ys \<subseteq> {..<size_of p}"
    and "keeps_edges ((edges_of p)\<^sup>+) xs" and "keeps_edges ((edges_of p)\<^sup>+) ys"
  shows "run p xs s = run p ys s"
  using assms(2-)
proof (induction ys arbitrary: xs s)
  case (Cons y ys)
  then obtain us vs where xs: "xs = us @ y # vs" by (metis list.set_intros(1) split_list)
  have "set us \<subseteq> set ys" using Cons.prems(1,3) by (auto simp: xs)
  then have "\<forall>u\<in>set us. u < size_of p \<and> (u, y) \<notin> (edges_of p)\<^sup>+ \<and> (y, u) \<notin> (edges_of p)\<^sup>+"
    using Cons.prems(4,5,6) by (auto simp: keeps_edges_def xs sorted_wrt_append)
  then have "run p xs s = run p (us @ vs) (act p y s)"
    using move_first [OF assms(1), of y us s] Cons.prems(4) by (simp add: xs)
  also have "\<dots> = run p ys (act p y s)"
  proof (rule Cons.IH)
    show "distinct (us @ vs)" "distinct ys" "set ys \<subseteq> {..<size_of p}"
      using Cons.prems(1,2,4) by (simp_all add: xs)
    have "set us \<union> set vs = set xs - {y}" using Cons.prems(1) by (auto simp: xs)
    also have "\<dots> = set ys" using Cons.prems(2,3) by auto
    finally show "set (us @ vs) = set ys" by simp
    show "keeps_edges ((edges_of p)\<^sup>+) (us @ vs)" "keeps_edges ((edges_of p)\<^sup>+) ys"
      using Cons.prems by (auto simp: xs keeps_edges_def sorted_wrt_append)
  qed
  finally show ?case by simp
next
  case Nil then show ?case by simp
qed

theorem reordering:
  assumes "ok p" and "distinct order" and "set order = {..<size_of p}" and "keeps_edges (edges_of p) order"
  shows "run p order s = run p [0..<size_of p] s"
proof (rule arrangements_agree [OF assms(1,2)])
  have "edges_of p \<subseteq> set order \<times> set order" using forward [OF assms(1)] assms(3) by fastforce
  then show "keeps_edges ((edges_of p)\<^sup>+) order"
    using keeps_edges_trancl [OF assms(4)] forward [OF assms(1)] by blast
  show "keeps_edges ((edges_of p)\<^sup>+) [0..<size_of p]"
    unfolding keeps_edges_def sorted_wrt_iff_nth_less
  proof (intro allI impI notI)
    fix i j assume ij: "i < j" "j < length [0..<size_of p]"
      and e: "([0..<size_of p] ! j, [0..<size_of p] ! i) \<in> (edges_of p)\<^sup>+"
    from closure_forward [OF assms(1) e] have "[0..<size_of p] ! j < [0..<size_of p] ! i" by blast
    then show False using ij by (simp del: upt.simps)
  qed
  show "set order = set [0..<size_of p]" unfolding assms(3) by (simp add: lessThan_atLeast0)
  show "distinct [0..<size_of p]" "set [0..<size_of p] \<subseteq> {..<size_of p}" by auto
qed

end

subsection \<open>Replaying a schedule\<close>

lemma repeat_source_mem: "source_addresses t \<noteq> [] \<Longrightarrow> repeat_source_address t i \<in> set (source_addresses t)"
  by (auto simp: repeat_source_address_def source_address_def get_def hd_conv_nth split: option.splits)

lemma exec_frame: "\<not> writes_byte t tile a \<Longrightarrow> exec i t m tile a = m tile a"
  by (rule exec_uncovered) (auto simp: writes_byte_def)

lemma exec_reads:
  assumes "transfer_ok t" and "\<And>tile a. reads_byte t tile a \<Longrightarrow> m tile a = m' tile a" and "writes_byte t tile a"
  shows "exec i t m tile a = exec i t m' tile a"
proof -
  from assms(3) obtain d where d: "d \<in> set (destinations t)" "covers (words t) d tile a" by (auto simp: writes_byte_def)
  have "distinct (map fst (destinations t))" using assms(1) by (simp add: transfer_ok_def)
  note e = exec_covered [OF this d]
  have "reads_byte t (source t) (repeat_source_address t i + (a - snd d))"
    using d(2) repeat_source_mem [of t i] assms(1) unfolding reads_byte_def covers_def transfer_ok_def
    by (intro conjI bexI [of _ "repeat_source_address t i"]) auto
  then show ?thesis using assms(2) by (simp add: e)
qed

lemma exec_commute:
  assumes "transfer_ok t" and "transfer_ok u" and "\<not> conflicting t u"
  shows "exec i t (exec i u m) = exec i u (exec i t m)"
proof (intro ext)
  fix tile a
  have n: "\<not> (writes_byte t x y \<and> writes_byte u x y)" "\<not> (writes_byte t x y \<and> reads_byte u x y)"
    "\<not> (reads_byte t x y \<and> writes_byte u x y)" for x y
    using assms(3) by (auto simp: conflicting_def)
  have t: "exec i t (exec i u m) tile a = exec i t m tile a" if "writes_byte t tile a"
    using that n by (intro exec_reads [OF assms(1)] exec_frame) blast+
  have u: "exec i u (exec i t m) tile a = exec i u m tile a" if "writes_byte u tile a"
    using that n by (intro exec_reads [OF assms(2)] exec_frame) blast+
  consider "writes_byte t tile a" | "writes_byte u tile a" | "\<not> writes_byte t tile a" "\<not> writes_byte u tile a" by blast
  then show "exec i t (exec i u m) tile a = exec i u (exec i t m) tile a"
  proof cases
    case 1 then show ?thesis using t n(1) exec_frame [of u] by metis
  next
    case 2 then show ?thesis using u n(1) exec_frame [of t] by metis
  next
    case 3 then show ?thesis by (simp add: exec_frame)
  qed
qed

definition problem_ok :: "nat \<times> scheduling_problem \<Rightarrow> bool" where
  "problem_ok = (\<lambda>(i, p). list_all transfer_ok (problem_transfers p)
     \<and> (\<exists>count. problem_new (problem_transfers p) count = Some p))"

interpretation phase: commuting_actions problem_ok "\<lambda>(i, p). length (problem_transfers p)"
  "\<lambda>(i, p) a. exec i (problem_transfers p ! a)" "\<lambda>(i, p). edges p"
proof (unfold_locales, goal_cases)
  case (1 ip a b)
  obtain i p where ip: "ip = (i, p)" by (cases ip)
  from 1(1) obtain count where new: "problem_new (problem_transfers p) count = Some p"
    by (auto simp: problem_ok_def ip)
  then have "memory_dependencies (problem_transfers p) count = Some (edges p)" using problem_new_edges by blast
  from memory_dependencies_exact [OF this] 1(2) show ?case by (simp add: ip)
next
  case (2 ip a b m)
  obtain i p where ip: "ip = (i, p)" by (cases ip)
  from 2(1) obtain count where new: "problem_new (problem_transfers p) count = Some p"
    and ok: "list_all transfer_ok (problem_transfers p)" by (auto simp: problem_ok_def ip)
  have "memory_dependencies (problem_transfers p) count = Some (edges p)" using problem_new_edges [OF new] by blast
  from memory_dependencies_exact [OF this] have "\<not> conflicting (problem_transfers p ! a) (problem_transfers p ! b)"
    using 2(2-4) by (auto simp: ip)
  moreover have "transfer_ok (problem_transfers p ! a)" "transfer_ok (problem_transfers p ! b)"
    using ok 2(2,3) by (simp_all add: ip list_all_length)
  ultimately have "exec i (problem_transfers p ! a) (exec i (problem_transfers p ! b) m)
      = exec i (problem_transfers p ! b) (exec i (problem_transfers p ! a) m)"
    by (intro exec_commute)
  then show ?case by (simp add: ip)
qed

lemma phase_run:
  "set order \<subseteq> {..<length (problem_transfers p)} \<Longrightarrow>
   phase.run (i, p) order m = replay i (map ((!) (problem_transfers p)) order) m"
  by (induction order arbitrary: m) auto

lemma topological_replay:
  assumes "list_all transfer_ok ts" and "problem_new ts count = Some p" and "topological p order"
  shows "replay i (map ((!) ts) order) m = replay i ts m"
proof -
  have ts: "problem_transfers p = ts" using problem_new_edges [OF assms(2)] by blast
  have "problem_ok (i, p)" using assms(1,2) by (auto simp: problem_ok_def ts)
  then have "phase.run (i, p) order m = phase.run (i, p) [0..<length ts] m"
    using phase.reordering [of "(i, p)" order m] assms(3) by (simp add: topological_def ts)
  moreover have "phase.run (i, p) order m = replay i (map ((!) ts) order) m"
    using assms(3) by (simp add: phase_run topological_def ts)
  moreover have "phase.run (i, p) [0..<length ts] m = replay i (map ((!) ts) [0..<length ts]) m"
    using phase_run [of "[0..<length ts]" p i m] by (simp add: ts lessThan_atLeast0)
  ultimately show ?thesis by (simp add: map_nth)
qed

lemma problem_new_total:
  "tiles_in_range ts count \<Longrightarrow> \<exists>p. problem_new ts count = Some p \<and> tile_count p = count"
  using memory_dependencies_total [of ts count]
  by (auto simp: problem_new_def Let_def tiles_in_range_def)

subsection \<open>Properties\<close>

text \<open>
  C22: For transfers on tiles of the device the dependency analysis never panics. Every edge
  it records runs from an earlier to a later transfer of the phase, and the two touch a
  common byte of some tile that at least one of them writes. Conversely every pair of
  transfers in conflict is ordered by a chain of recorded edges.
\<close>

theorem dependencies_are_the_conflicts:
  assumes "tiles_in_range ts count"
  shows "\<exists>D. memory_dependencies ts count = Some D
    \<and> (\<forall>p q. (p, q) \<in> D \<longrightarrow> p < q \<and> q < length ts \<and> conflicting (ts ! p) (ts ! q))
    \<and> (\<forall>p q. p < q \<longrightarrow> q < length ts \<longrightarrow> conflicting (ts ! p) (ts ! q) \<longrightarrow> (p, q) \<in> D\<^sup>+)"
  using memory_dependencies_total [OF assms] memory_dependencies_exact by blast

text \<open>
  C23: The scheduling problem of a phase is consistent: the predecessor and dependent lists
  are strictly increasing, hold the dependency edges in both directions and nothing else,
  every predecessor has a smaller index (so the indegrees describe an acyclic graph), and
  there is one pressure counter per tile.
\<close>

theorem scheduling_problem_well_formed:
  assumes "tiles_in_range ts count"
  shows "\<exists>p. problem_new ts count = Some p \<and> problem_transfers p = ts \<and> tile_count p = count
    \<and> problem_wf p \<and> memory_dependencies ts count = Some (edges p)
    \<and> indegrees p = map (\<lambda>b. card {a. (a, b) \<in> edges p}) [0..<length ts]"
proof -
  obtain p where p: "problem_new ts count = Some p" "tile_count p = count"
    using problem_new_total [OF assms] by blast
  note e = problem_new_edges [OF p(1)]
  have "indegrees p = map (\<lambda>b. card {a. (a, b) \<in> edges p}) [0..<length ts]"
  proof (rule nth_equalityI)
    show "length (indegrees p) = length (map (\<lambda>b. card {a. (a, b) \<in> edges p}) [0..<length ts])"
      using e by (simp add: indegrees_def problem_wf_def Let_def)
  next
    fix b assume "b < length (indegrees p)"
    then have b: "b < length ts" "b < length (predecessors p)" using e by (simp_all add: indegrees_def problem_wf_def Let_def)
    have "distinct (predecessors p ! b)" using e b by (simp add: problem_wf_def Let_def strict_sorted_iff)
    moreover have "{a. (a, b) \<in> edges p} = set (predecessors p ! b)" using b by (simp add: edges_def)
    ultimately show "indegrees p ! b = map (\<lambda>b. card {a. (a, b) \<in> edges p}) [0..<length ts] ! b"
      using b by (simp add: indegrees_def distinct_card)
  qed
  then show ?thesis using p e by blast
qed

text \<open>
  C24: Any order that lists every transfer once and keeps the recorded edges leaves the same
  memory on all tiles as the order of the phase, in every Repeat iteration.
\<close>

theorem topological_order_preserves_memory:
  assumes "list_all transfer_ok ts" and "problem_new ts count = Some p" and "topological p order"
  shows "replay i (map ((!) ts) order) m = replay i ts m"
  using assms by (rule topological_replay)

text \<open>Three transfers: the first two are independent, the third overwrites what the first reads.\<close>

definition sample_phase :: "pending_transfer list" where
  "sample_phase =
     [\<lparr>source = 0, source_shard = 0, source_offset = 0, destinations = [(1, 100)], source_addresses = [0],
       source_elements = [0], words = 2, width = Word32, reserved_source = None\<rparr>,
      \<lparr>source = 2, source_shard = 1, source_offset = 0, destinations = [(3, 100)], source_addresses = [0],
       source_elements = [0], words = 2, width = Word32, reserved_source = None\<rparr>,
      \<lparr>source = 3, source_shard = 2, source_offset = 0, destinations = [(0, 4)], source_addresses = [40],
       source_elements = [0], words = 1, width = Word32, reserved_source = None\<rparr>]"

theorem dependencies_are_the_conflicts_witness:
  "memory_dependencies sample_phase 4 = Some {(0, 2)}
   \<and> conflicting (sample_phase ! 0) (sample_phase ! 2) \<and> \<not> conflicting (sample_phase ! 0) (sample_phase ! 1)"
proof -
  have "tiles_in_range sample_phase 4" by (simp add: sample_phase_def tiles_in_range_def tiles_def option_list_def)
  note t = dependencies_are_the_conflicts [OF this]
  have D: "memory_dependencies sample_phase 4 = Some {(0, 2)}" by code_simp
  have n: "length sample_phase = 3" by (simp add: sample_phase_def)
  have "\<not> conflicting (sample_phase ! 0) (sample_phase ! 1)"
  proof
    assume "conflicting (sample_phase ! 0) (sample_phase ! 1)"
    then have "(0, 1) \<in> {(0 :: nat, 2 :: nat)}\<^sup>+" using t D n by auto
    then show False by (auto dest: tranclD2)
  qed
  then show ?thesis using t D by auto
qed

theorem scheduling_problem_well_formed_witness:
  "\<exists>p. problem_new sample_phase 4 = Some p \<and> problem_transfers p = sample_phase \<and> tile_count p = 4
    \<and> problem_wf p \<and> memory_dependencies sample_phase 4 = Some (edges p)
    \<and> indegrees p = map (\<lambda>b. card {a. (a, b) \<in> edges p}) [0..<length sample_phase]"
  by (rule scheduling_problem_well_formed) (simp add: sample_phase_def tiles_in_range_def tiles_def option_list_def)

definition sample_problem :: scheduling_problem where
  "sample_problem = \<lparr>problem_transfers = sample_phase, tile_count = 4, predecessors = [[], [], [0]],
     dependents = [[2], [], []], word_pressure = [3, 2, 2, 3]\<rparr>"

lemma sample_problem_new: "problem_new sample_phase 4 = Some sample_problem"
  by code_simp

theorem topological_order_preserves_memory_witness:
  "replay 0 (map ((!) sample_phase) [1, 0, 2]) (\<lambda>tile a. tile * 1000 + a)
     = replay 0 sample_phase (\<lambda>tile a. tile * 1000 + a)"
proof (rule topological_order_preserves_memory)
  show "list_all transfer_ok sample_phase" by (simp add: sample_phase_def transfer_ok_def MAX_TRANSFER_WORDS_def)
  show "problem_new sample_phase 4 = Some sample_problem" by (rule sample_problem_new)
  show "topological sample_problem [1, 0, 2]"
    by (auto simp: topological_def sample_problem_def sample_phase_def keeps_edges_def edges_def)
qed

end
