(* ===== verification/Streams.thy ===== *)
theory Streams
  imports Prelude Transfers Dependencies
    "HOL-Library.Product_Lexorder" "HOL-Library.Option_ord" "HOL-Library.List_Lexorder"
begin

text \<open>
  The stream order of an exchange phase (\<open>exchange/streams.rs\<close>): transfers between the
  same endpoints form a stream, streams are cut into payload waves, waves are optionally
  balanced over the endpoints with a lazily updated priority queue, and the dependency depth
  comes first in the sort key. The lemmas show that the balancing loop ends, that nothing
  panics for the transfers of a device, and that the result is a schedule of the problem.

  A \<open>BTreeMap\<close> is its association list in key order, a \<open>BinaryHeap\<close> of distinct entries the
  list of its entries with removal of the least one. Sums of \<open>u64\<close> are unbounded here.
\<close>

subsection \<open>Keys\<close>

text \<open>\<open>std::cmp::Reverse\<close>.\<close>

datatype reverse = Reverse nat

primrec unreverse :: "reverse \<Rightarrow> nat" where
  "unreverse (Reverse n) = n"

instantiation reverse :: linorder
begin

definition less_eq_reverse :: "reverse \<Rightarrow> reverse \<Rightarrow> bool" where
  "less_eq_reverse a b \<longleftrightarrow> unreverse b \<le> unreverse a"

definition less_reverse :: "reverse \<Rightarrow> reverse \<Rightarrow> bool" where
  "less_reverse a b \<longleftrightarrow> unreverse b < unreverse a"

instance
proof
  fix a b c :: reverse
  show "a \<le> b \<Longrightarrow> b \<le> a \<Longrightarrow> a = b" by (cases a; cases b) (simp add: less_eq_reverse_def)
qed (auto simp: less_eq_reverse_def less_reverse_def)

end

text \<open>\<open>entry(key).or_default().push(x)\<close> on an ordered map of vectors.\<close>

fun btree_push :: "'k::linorder \<Rightarrow> 'v \<Rightarrow> ('k \<times> 'v list) list \<Rightarrow> ('k \<times> 'v list) list" where
  "btree_push k x [] = [(k, [x])]"
| "btree_push k x ((k', xs) # m) =
     (if k < k' then (k, [x]) # (k', xs) # m
      else if k = k' then (k', xs @ [x]) # m
      else (k', xs) # btree_push k x m)"

type_synonym rank = "nat \<times> reverse \<times> nat \<times> nat"
type_synonym chunk = "nat \<times> nat list \<times> nat list \<times> nat"
type_synonym loads = "(nat \<times> nat) list"

subsection \<open>Streams\<close>

definition stream_key :: "pending_transfer \<Rightarrow> bool \<times> nat \<times> nat option \<times> nat list" where
  "stream_key t = (\<not> moving_source t, source t, reserved_source t, map fst (destinations t))"

definition streams_of :: "pending_transfer list \<Rightarrow> nat list list" where
  "streams_of ts = map snd (foldl (\<lambda>m (index, t). btree_push (stream_key t) index m) [] (enumerate 0 ts))"

definition address_key :: "pending_transfer list \<Rightarrow> nat \<Rightarrow> nat \<times> nat \<times> nat" where
  "address_key ts index = (snd (destinations (ts ! index) ! 0), source_address (ts ! index), index)"

fun rank_stream ::
  "pending_transfer list \<Rightarrow> nat \<Rightarrow> nat \<Rightarrow> nat \<Rightarrow> nat \<Rightarrow> nat \<Rightarrow> nat list \<Rightarrow> rank list \<Rightarrow> rank list" where
  "rank_stream ts wave_words amount stream slot offset [] rank = rank"
| "rank_stream ts wave_words amount stream slot offset (index # indices) rank =
     rank_stream ts wave_words amount stream (Suc slot) (offset + words (ts ! index)) indices
       (rank[index := (offset div wave_words, Reverse amount, stream, slot)])"

text \<open>The sort of a stream reads \<open>destinations[0]\<close> of its members when there are two or more;
  \<open>offset / words\<close> panics for zero words. \<open>None\<close> is a panic.\<close>

definition rank_one ::
  "pending_transfer list \<Rightarrow> nat \<Rightarrow> rank list \<Rightarrow> nat \<times> nat list \<Rightarrow> rank list option" where
  "rank_one ts wave_words rank = (\<lambda>(stream, indices).
     (if (2 \<le> length indices \<and> list_ex (\<lambda>index. destinations (ts ! index) = []) indices)
         \<or> (indices \<noteq> [] \<and> wave_words = 0)
      then None
      else (let sorted_indices = sort_key (address_key ts) indices;
                amount = sum_list (map (\<lambda>index. words (ts ! index)) sorted_indices)
            in Some (rank_stream ts wave_words amount stream 0 0 sorted_indices rank))))"

fun rank_streams ::
  "pending_transfer list \<Rightarrow> nat \<Rightarrow> (nat \<times> nat list) list \<Rightarrow> rank list \<Rightarrow> rank list option" where
  "rank_streams ts wave_words [] rank = Some rank"
| "rank_streams ts wave_words (s # ss) rank =
     (case rank_one ts wave_words rank s of None \<Rightarrow> None | Some rank' \<Rightarrow> rank_streams ts wave_words ss rank')"

definition initial_rank :: "pending_transfer list \<Rightarrow> rank list" where
  "initial_rank ts = replicate (length ts) (0, Reverse 0, 0, 0)"

subsection \<open>Balancing\<close>

definition rank_chunks :: "rank list \<Rightarrow> ((nat \<times> nat) \<times> nat list) list" where
  "rank_chunks rank =
     foldl (\<lambda>m (index, (wave, _, stream, _)). btree_push (wave, stream) index m) [] (enumerate 0 rank)"

definition add_work :: "nat \<Rightarrow> loads \<Rightarrow> nat \<Rightarrow> loads" where
  "add_work work loads endpoint = loads[endpoint := (fst (loads ! endpoint), snd (loads ! endpoint) + work)]"

text \<open>One chunk enters its wave; indexing \<open>loads\<close> panics for an endpoint off the device.\<close>

definition charge_chunk ::
  "pending_transfer list \<Rightarrow> rank list \<Rightarrow> loads \<times> (nat \<times> chunk list) list \<Rightarrow> (nat \<times> nat) \<times> nat list \<Rightarrow>
   (loads \<times> (nat \<times> chunk list) list) option" where
  "charge_chunk ts rank = (\<lambda>(loads, waves) ((wave, stream), indices).
     (let ordered = sort_key (\<lambda>index. snd (snd (snd (rank ! index)))) indices;
          endpoints = pressure_resources True (ts ! (ordered ! 0));
          work = sum_list (map (\<lambda>index. item_count_or_words (ts ! index)) ordered)
      in if list_all (\<lambda>e. e < length loads) endpoints
         then Some (foldl (add_work work) loads endpoints, btree_push wave (stream, ordered, endpoints, work) waves)
         else None))"

fun charge_chunks ::
  "pending_transfer list \<Rightarrow> rank list \<Rightarrow> ((nat \<times> nat) \<times> nat list) list \<Rightarrow>
   loads \<times> (nat \<times> chunk list) list \<Rightarrow> (loads \<times> (nat \<times> chunk list) list) option" where
  "charge_chunks ts rank [] st = Some st"
| "charge_chunks ts rank (c # cs) st =
     (case charge_chunk ts rank st c of None \<Rightarrow> None | Some st' \<Rightarrow> charge_chunks ts rank cs st')"

definition max_or_zero :: "nat list \<Rightarrow> nat" where
  "max_or_zero xs = foldr max xs 0"

definition score :: "chunk list \<Rightarrow> loads \<Rightarrow> nat \<Rightarrow> nat \<times> reverse \<times> nat" where
  "score cs loads k =
     (case cs ! k of (stream, _, endpoints, _) \<Rightarrow>
        (max_or_zero (map (\<lambda>e. fst (loads ! e)) endpoints),
         Reverse (max_or_zero (map (\<lambda>e. snd (loads ! e)) endpoints)), stream))"

definition place_chunk :: "nat \<Rightarrow> rank list \<Rightarrow> nat \<Rightarrow> rank list" where
  "place_chunk slot rank index =
     (case rank ! index of (wave, _, _, pos) \<Rightarrow> rank[index := (wave, Reverse 0, slot, pos)])"

text \<open>
  \<open>charge_chunk\<close> added the same work to the same endpoints, so the \<open>u64\<close> subtraction of the code
  does not underflow; the subtraction here is truncated.
\<close>

definition settle :: "nat \<Rightarrow> nat \<Rightarrow> loads \<Rightarrow> nat \<Rightarrow> loads" where
  "settle ready work loads endpoint = loads[endpoint := (ready + work, snd (loads ! endpoint) - work)]"

lemma length_filter_remove1:
  "e \<in> set xs \<Longrightarrow> length (filter P (remove1 e xs)) = length (filter P xs) - (if P e then 1 else 0)"
proof (induction xs)
  case (Cons x xs)
  have "e \<in> set xs \<Longrightarrow> P e \<Longrightarrow> 0 < length (filter P xs)" by (auto simp: filter_empty_conv)
  with Cons show ?case by (cases "x = e") auto
qed simp

type_synonym entry = "(nat \<times> reverse \<times> nat) \<times> nat"

function wave_loop ::
  "chunk list \<Rightarrow> entry list \<Rightarrow> loads \<Rightarrow> rank list \<Rightarrow> nat \<Rightarrow> loads \<times> rank list" where
  "wave_loop cs ready loads rank slot =
     (if ready = [] then (loads, rank)
      else (let e = Min (set ready);
                rest = remove1 e ready;
                current = score cs loads (snd e)
            in if current \<noteq> fst e then wave_loop cs (rest @ [(current, snd e)]) loads rank slot
               else (case cs ! snd e of (_, indices, endpoints, work) \<Rightarrow>
                       wave_loop cs rest (foldl (settle (fst current) work) loads endpoints)
                         (foldl (place_chunk slot) rank indices) (Suc slot))))"
  by pat_completeness auto
termination
proof (relation "measures [\<lambda>(cs, ready, loads, rank, slot). length ready,
    \<lambda>(cs, ready, loads, rank, slot). length (filter (\<lambda>(old, k). score cs loads k \<noteq> old) ready)]",
    goal_cases)
  case 1 then show ?case by simp
next
  case (2 cs ready loads rank slot e rest current)
  have e: "e \<in> set ready" using 2(1,2) Min_in [of "set ready"] by simp
  have len: "length (rest @ [(current, snd e)]) = length ready"
    using e 2(3) length_pos_if_in_set [OF e] by (simp add: length_remove1)
  let ?P = "\<lambda>(old, k). score cs loads k \<noteq> old"
  have "?P e" using 2(4,5) by (cases e) auto
  then have "length (filter ?P rest) = length (filter ?P ready) - 1" "0 < length (filter ?P ready)"
    using e 2(3) by (auto simp: length_filter_remove1 filter_empty_conv)
  moreover have "\<not> ?P (current, snd e)" using 2(4) by simp
  ultimately have "length (filter ?P (rest @ [(current, snd e)])) < length (filter ?P ready)"
    by (simp del: split_beta)
  then show ?case using len by (simp only: measures_def) simp
next
  case (3 cs ready loads rank slot e rest current)
  have "e \<in> set ready" using 3(1,2) Min_in [of "set ready"] by simp
  then show ?case using 3(3) length_pos_if_in_set [of e ready] by (simp add: length_remove1)
qed

declare wave_loop.simps [simp del]

fun waves_loop :: "(nat \<times> chunk list) list \<Rightarrow> loads \<Rightarrow> rank list \<Rightarrow> loads \<times> rank list" where
  "waves_loop [] loads rank = (loads, rank)"
| "waves_loop ((wave, cs) # waves) loads rank =
     (case wave_loop cs (map (\<lambda>k. (score cs loads k, k)) [0..<length cs]) loads rank 0 of
        (loads', rank') \<Rightarrow> waves_loop waves loads' rank')"

definition balance_stream_chunks :: "scheduling_problem \<Rightarrow> rank list \<Rightarrow> rank list option" where
  "balance_stream_chunks p rank =
     (case charge_chunks (problem_transfers p) rank (rank_chunks rank)
             (replicate (2 * tile_count p) (0, 0), []) of
        None \<Rightarrow> None
      | Some (loads, waves) \<Rightarrow> Some (snd (waves_loop waves loads rank)))"

subsection \<open>The order\<close>

definition depths :: "scheduling_problem \<Rightarrow> nat list" where
  "depths p =
     foldl (\<lambda>depth (index, before). depth[index := max_or_zero (map (\<lambda>b. depth ! b + 1) before)])
       (replicate (length (problem_transfers p)) 0) (enumerate 0 (predecessors p))"

definition order_key ::
  "scheduling_problem \<Rightarrow> nat list \<Rightarrow> rank list \<Rightarrow> nat \<Rightarrow> nat \<times> bool \<times> rank \<times> nat" where
  "order_key p depth rank index =
     (depth ! index, \<not> moving_source (problem_transfers p ! index), rank ! index, index)"

definition stream_order :: "scheduling_problem \<Rightarrow> nat \<Rightarrow> bool \<Rightarrow> nat list option" where
  "stream_order p wave_words balanced =
     (let ts = problem_transfers p
      in case rank_streams ts wave_words (enumerate 0 (streams_of ts)) (initial_rank ts) of
           None \<Rightarrow> None
         | Some rank \<Rightarrow>
             (case (if balanced then balance_stream_chunks p rank else Some rank) of
                None \<Rightarrow> None
              | Some rank' \<Rightarrow> Some (sort_key (order_key p (depths p) rank') [0..<length rank'])))"

subsection \<open>Nothing panics and no rank is lost\<close>

lemma btree_push_members:
  "(k, xs) \<in> set (btree_push k' x m) \<Longrightarrow>
   (k, xs) \<in> set m \<or> (k = k' \<and> (xs = [x] \<or> (\<exists>ys. (k, ys) \<in> set m \<and> xs = ys @ [x])))"
  by (induction k' x m rule: btree_push.induct) (auto split: if_splits)

lemma btree_fold_members:
  assumes "\<And>k xs. (k, xs) \<in> set m \<Longrightarrow> xs \<noteq> [] \<and> set xs \<subseteq> A"
    and "\<And>e. e \<in> set es \<Longrightarrow> f e \<in> A"
  shows "\<forall>(k, xs)\<in>set (foldl (\<lambda>m e. btree_push (g e) (f e) m) m es). xs \<noteq> [] \<and> set xs \<subseteq> A"
  using assms
proof (induction es arbitrary: m)
  case Nil then show ?case by auto
next
  case (Cons e es)
  have "xs \<noteq> [] \<and> set xs \<subseteq> A" if "(k, xs) \<in> set (btree_push (g e) (f e) m)" for k xs
    using btree_push_members [OF that] Cons.prems(1) Cons.prems(2) [of e] by fastforce
  then show ?case using Cons.IH [of "btree_push (g e) (f e) m"] Cons.prems(2) by simp
qed

lemma streams_of_members:
  assumes "s \<in> set (streams_of ts)"
  shows "s \<noteq> [] \<and> set s \<subseteq> {..<length ts}"
proof -
  let ?m = "foldl (\<lambda>m e. btree_push (stream_key (snd e)) (fst e) m) [] (enumerate 0 ts)"
  have "\<forall>(k, xs)\<in>set ?m. xs \<noteq> [] \<and> set xs \<subseteq> {..<length ts}"
    by (rule btree_fold_members) (auto simp: in_set_enumerate_eq)
  moreover have "s \<in> snd ` set ?m" using assms by (simp add: streams_of_def case_prod_unfold)
  ultimately show ?thesis by fastforce
qed

lemma rank_stream_length [simp]: "length (rank_stream ts n amount stream slot offset is rank) = length rank"
  by (induction ts n amount stream slot offset "is" rank rule: rank_stream.induct) auto

lemma rank_streams_total:
  assumes "wave_words > 0" and "\<forall>t\<in>set ts. destinations t \<noteq> []"
    and "\<forall>(stream, s)\<in>set ss. set s \<subseteq> {..<length ts}"
  shows "\<exists>rank'. rank_streams ts wave_words ss rank = Some rank' \<and> length rank' = length rank"
  using assms(3)
proof (induction ss arbitrary: rank)
  case Nil then show ?case by simp
next
  case (Cons s ss)
  obtain stream indices where s: "s = (stream, indices)" by (cases s)
  have "\<not> list_ex (\<lambda>index. destinations (ts ! index) = []) indices"
    using Cons.prems assms(2) by (auto simp: s list_ex_iff)
  then obtain r where "rank_one ts wave_words rank s = Some r" "length r = length rank"
    using assms(1) by (auto simp: rank_one_def s Let_def)
  then show ?case using Cons.IH [of r] Cons.prems by simp
qed

lemma rank_chunks_members:
  assumes "(key, s) \<in> set (rank_chunks rank)"
  shows "s \<noteq> [] \<and> set s \<subseteq> {..<length rank}"
proof -
  let ?m = "foldl (\<lambda>m e. btree_push (fst (snd e), fst (snd (snd (snd e)))) (fst e) m) [] (enumerate 0 rank)"
  have "\<forall>(k, xs)\<in>set ?m. xs \<noteq> [] \<and> set xs \<subseteq> {..<length rank}"
    by (rule btree_fold_members) (auto simp: in_set_enumerate_eq)
  moreover have "(key, s) \<in> set ?m" using assms by (simp add: rank_chunks_def case_prod_unfold)
  ultimately show ?thesis by fastforce
qed

lemma add_work_length [simp]: "length (foldl (add_work work) loads es) = length loads"
  by (induction es arbitrary: loads) (auto simp: add_work_def)

lemma pressure_resources_bound:
  assumes "list_all (\<lambda>tile. tile < count) (tiles t)"
  shows "list_all (\<lambda>e. e < 2 * count) (pressure_resources True t)"
proof -
  have b: "source t < count" "\<forall>x\<in>set (option_list (reserved_source t)). x < count" "\<forall>d\<in>set (destinations t). fst d < count"
    using assms by (simp_all add: tiles_def list_all_iff)
  have "Suc (fst d * 2) < 2 * count" if "d \<in> set (destinations t)" for d
  proof -
    have "fst d < count" using b(3) that by blast
    then show ?thesis by simp
  qed
  then show ?thesis using b(1,2) by (auto simp: pressure_resources_def list_all_iff Let_def case_prod_unfold)
qed

lemma charge_chunks_total:
  assumes "list_all (\<lambda>t. list_all (\<lambda>tile. tile < count) (tiles t)) ts" and "length rank = length ts"
    and "\<forall>(key, s)\<in>set cs. s \<noteq> [] \<and> set s \<subseteq> {..<length ts}" and "length loads = 2 * count"
  shows "\<exists>loads' waves'. charge_chunks ts rank cs (loads, waves) = Some (loads', waves')"
  using assms(3,4)
proof (induction cs arbitrary: loads waves)
  case Nil then show ?case by simp
next
  case (Cons c cs)
  obtain wave stream indices where c: "c = ((wave, stream), indices)" by (metis prod.collapse)
  let ?o = "sort_key (\<lambda>index. snd (snd (snd (rank ! index)))) indices"
  have "indices \<noteq> []" "set indices \<subseteq> {..<length ts}" using Cons.prems(1) by (simp_all add: c)
  then have "set ?o \<subseteq> {..<length ts}" "0 < length ?o" by simp_all
  then have "?o ! 0 < length ts" using nth_mem [of 0 ?o] by blast
  then have "list_all (\<lambda>e. e < 2 * count) (pressure_resources True (ts ! (?o ! 0)))"
    using assms(1) pressure_resources_bound by (simp add: list_all_length)
  then obtain loads1 waves1 where "charge_chunk ts rank (loads, waves) c = Some (loads1, waves1)" "length loads1 = 2 * count"
    using Cons.prems(2) by (simp add: charge_chunk_def c Let_def)
  moreover have "\<exists>loads' waves'. charge_chunks ts rank cs (loads1, waves1) = Some (loads', waves')"
    using Cons.IH [of loads1 waves1] Cons.prems(1) calculation(2) by simp
  ultimately show ?case by simp
qed

lemma place_chunk_length [simp]: "length (foldl (place_chunk slot) rank indices) = length rank"
  by (induction indices arbitrary: rank) (auto simp: place_chunk_def split: prod.splits)

lemma wave_loop_length: "length (snd (wave_loop cs ready loads rank slot)) = length rank"
proof (induction cs ready loads rank slot rule: wave_loop.induct)
  case (1 cs ready loads rank slot)
  show ?case
    using 1 by (subst wave_loop.simps) (auto simp: Let_def split: prod.splits)
qed

lemma waves_loop_length: "length (snd (waves_loop waves loads rank)) = length rank"
proof (induction waves loads rank rule: waves_loop.induct)
  case (2 wave cs waves loads rank)
  then show ?case
    using wave_loop_length [of cs "map (\<lambda>k. (score cs loads k, k)) [0..<length cs]" loads rank 0]
    by (auto split: prod.splits)
qed simp

lemma balance_total:
  assumes "list_all (\<lambda>t. list_all (\<lambda>tile. tile < tile_count p) (tiles t)) (problem_transfers p)"
    and "length rank = length (problem_transfers p)"
  shows "\<exists>rank'. balance_stream_chunks p rank = Some rank' \<and> length rank' = length rank"
proof -
  have "\<forall>(key, s)\<in>set (rank_chunks rank). s \<noteq> [] \<and> set s \<subseteq> {..<length (problem_transfers p)}"
    using rank_chunks_members [of _ _ rank] assms(2) by auto
  from charge_chunks_total [OF assms this, of "replicate (2 * tile_count p) (0, 0)" "[]"] obtain loads waves where
    "charge_chunks (problem_transfers p) rank (rank_chunks rank) (replicate (2 * tile_count p) (0, 0), []) = Some (loads, waves)"
    by auto
  then show ?thesis by (simp add: balance_stream_chunks_def waves_loop_length)
qed

subsection \<open>Dependency depth\<close>

lemma max_or_zero_upper: "x \<in> set xs \<Longrightarrow> x \<le> max_or_zero xs"
  by (induction xs) (auto simp: max_or_zero_def)

lemma max_or_zero_member: "max_or_zero xs \<in> insert 0 (set xs)"
  by (induction xs) (auto simp: max_or_zero_def max_def)

lemma depths_fold:
  assumes "length ps \<le> n" and "\<forall>j<length ps. \<forall>a\<in>set (ps ! j). a < j"
  shows "let D = foldl (\<lambda>depth (index, before). depth[index := max_or_zero (map (\<lambda>b. depth ! b + 1) before)])
                   (replicate n 0) (enumerate 0 ps)
    in length D = n \<and> (\<forall>j<length ps. D ! j = max_or_zero (map (\<lambda>b. D ! b + 1) (ps ! j)))"
  using assms
proof (induction ps rule: rev_induct)
  case Nil then show ?case by simp
next
  case (snoc q ps)
  let ?step = "\<lambda>depth (index, before). depth[index := max_or_zero (map (\<lambda>b. depth ! b + 1) before)]"
  define D where "D = foldl ?step (replicate n 0) (enumerate 0 ps)"
  have before: "\<forall>j<length ps. \<forall>a\<in>set (ps ! j). a < j"
  proof (intro allI impI ballI)
    fix j a assume "j < length ps" "a \<in> set (ps ! j)"
    then show "a < j" using snoc.prems(2) by (auto simp: nth_append dest: spec [of _ j])
  qed
  have D: "length D = n" "\<And>j. j < length ps \<Longrightarrow> D ! j = max_or_zero (map (\<lambda>b. D ! b + 1) (ps ! j))"
    using snoc.IH snoc.prems(1) before unfolding D_def Let_def by auto
  let ?E = "D[length ps := max_or_zero (map (\<lambda>b. D ! b + 1) q)]"
  have E: "foldl ?step (replicate n 0) (enumerate 0 (ps @ [q])) = ?E"
    by (simp add: enumerate_append_eq D_def)
  have q: "\<forall>a\<in>set q. a < length ps" using snoc.prems(2) by (auto dest: spec [of _ "length ps"])
  have "?E ! j = max_or_zero (map (\<lambda>b. ?E ! b + 1) ((ps @ [q]) ! j))" if j: "j < length (ps @ [q])" for j
  proof (cases "j = length ps")
    case True
    have m: "map (\<lambda>b. ?E ! b + 1) q = map (\<lambda>b. D ! b + 1) q" by (rule map_cong) (use q in auto)
    have "?E ! length ps = max_or_zero (map (\<lambda>b. D ! b + 1) q)" using D(1) snoc.prems(1) by simp
    also have "\<dots> = max_or_zero (map (\<lambda>b. ?E ! b + 1) q)" by (simp only: m)
    finally show ?thesis by (simp add: True)
  next
    case False
    then have jl: "j < length ps" using j by simp
    have m: "map (\<lambda>b. ?E ! b + 1) (ps ! j) = map (\<lambda>b. D ! b + 1) (ps ! j)"
    proof (rule map_cong [OF refl])
      fix x assume "x \<in> set (ps ! j)"
      then have "x \<noteq> length ps" using before jl by fastforce
      then show "?E ! x + 1 = D ! x + 1" by simp
    qed
    have "?E ! j = max_or_zero (map (\<lambda>b. D ! b + 1) (ps ! j))" using D(2) [OF jl] jl by simp
    also have "\<dots> = max_or_zero (map (\<lambda>b. ?E ! b + 1) (ps ! j))" by (simp only: m)
    finally show ?thesis using jl by (simp add: nth_append)
  qed
  then show ?case unfolding E Let_def using D(1) by simp
qed

lemma depths_increase:
  assumes "problem_wf p" and "(a, b) \<in> edges p"
  shows "depths p ! a < depths p ! b"
proof -
  let ?n = "length (problem_transfers p)"
  have "length (predecessors p) \<le> ?n" "\<forall>j<length (predecessors p). \<forall>a\<in>set (predecessors p ! j). a < j"
    using assms(1) by (simp_all add: problem_wf_def Let_def)
  note f = depths_fold [OF this, unfolded Let_def, folded depths_def]
  have b: "b < length (predecessors p)" "a \<in> set (predecessors p ! b)" using assms(2) by (auto simp: edges_def)
  then have "depths p ! a + 1 \<le> max_or_zero (map (\<lambda>x. depths p ! x + 1) (predecessors p ! b))"
    by (intro max_or_zero_upper) simp
  then show ?thesis using f b(1) by simp
qed

subsection \<open>The result\<close>

lemma sorted_by_depth_topological:
  assumes "problem_wf p" and n: "n = length (problem_transfers p)"
    and depth: "\<And>a b. (a, b) \<in> edges p \<Longrightarrow> d a < d b" and key: "\<And>i. fst (key i) = d i"
  shows "topological p (sort_key (key :: nat \<Rightarrow> nat \<times> 'b::linorder) [0..<n])"
proof -
  let ?o = "sort_key key [0..<n]"
  have "keeps_edges (edges p) ?o"
    unfolding keeps_edges_def sorted_wrt_iff_nth_less
  proof (intro allI impI notI)
    fix i j assume ij: "i < j" "j < length ?o" and e: "(?o ! j, ?o ! i) \<in> edges p"
    have "sorted (map key ?o)" by simp
    then have "key (?o ! i) \<le> key (?o ! j)" using ij sorted_nth_mono [of "map key ?o" i j] by simp
    then have "d (?o ! i) \<le> d (?o ! j)" using key by (auto simp: less_eq_prod_def)
    then show False using depth [OF e] by simp
  qed
  then show ?thesis by (auto simp: topological_def n)
qed

definition stream_ready :: "pending_transfer list \<Rightarrow> nat \<Rightarrow> nat \<Rightarrow> bool" where
  "stream_ready ts count wave_words \<longleftrightarrow>
     tiles_in_range ts count \<and> list_all (\<lambda>t. destinations t \<noteq> []) ts \<and> 0 < wave_words"

lemma stream_order_total:
  assumes new: "problem_new ts count = Some p" and ready: "stream_ready ts count wave_words"
  shows "\<exists>order. stream_order p wave_words balanced = Some order \<and> topological p order"
proof -
  have ts: "problem_transfers p = ts" and wf: "problem_wf p" using problem_new_edges [OF new] by auto
  have count: "tile_count p = count" using new by (auto simp: problem_new_def Let_def split: option.splits if_splits)
  have w: "0 < wave_words" and d: "\<forall>t\<in>set ts. destinations t \<noteq> []"
    and r: "list_all (\<lambda>t. list_all (\<lambda>tile. tile < tile_count p) (tiles t)) (problem_transfers p)"
    using ready by (simp_all add: stream_ready_def tiles_in_range_def list_all_iff ts count)
  have "\<forall>(stream, s)\<in>set (enumerate 0 (streams_of ts)). set s \<subseteq> {..<length ts}"
  proof (clarify)
    fix stream s x assume "(stream, s) \<in> set (enumerate 0 (streams_of ts))" "x \<in> set s"
    then have "s \<in> set (streams_of ts)" by (auto simp: in_set_enumerate_eq)
    then show "x < length ts" using streams_of_members \<open>x \<in> set s\<close> by blast
  qed
  from rank_streams_total [OF w d this, of "initial_rank ts"] obtain rank where
    rank: "rank_streams ts wave_words (enumerate 0 (streams_of ts)) (initial_rank ts) = Some rank" "length rank = length ts"
    by (auto simp: initial_rank_def)
  obtain rank' where rank': "(if balanced then balance_stream_chunks p rank else Some rank) = Some rank'"
    "length rank' = length ts"
    using balance_total [OF r, of rank] rank(2) ts by (cases balanced) auto
  have "stream_order p wave_words balanced = Some (sort_key (order_key p (depths p) rank') [0..<length ts])"
    using rank(1) rank' by (simp add: stream_order_def Let_def ts)
  moreover have "topological p (sort_key (order_key p (depths p) rank') [0..<length ts])"
    by (rule sorted_by_depth_topological [OF wf _ depths_increase [OF wf]]) (simp_all add: ts order_key_def)
  ultimately show ?thesis by blast
qed

subsection \<open>Properties\<close>

text \<open>
  C25: For a phase whose transfers name device tiles and at least one destination, the stream
  order (with or without the balancing of payload waves, which ends by itself) returns an
  order: it lists every transfer once, keeps every memory dependency and so leaves the memory
  of the original order in every Repeat iteration.
\<close>

theorem stream_order_is_a_schedule:
  assumes "problem_new ts count = Some p" and "stream_ready ts count wave_words"
    and "list_all transfer_ok ts"
  shows "\<exists>order. stream_order p wave_words balanced = Some order \<and> topological p order
    \<and> replay i (map ((!) ts) order) m = replay i ts m"
  using stream_order_total [OF assms(1,2)] topological_replay [OF assms(3,1)] by blast

theorem stream_order_is_a_schedule_witness:
  "\<exists>order. stream_order sample_problem 1 True = Some order \<and> topological sample_problem order
    \<and> replay 0 (map ((!) sample_phase) order) (\<lambda>tile a. tile * 1000 + a)
      = replay 0 sample_phase (\<lambda>tile a. tile * 1000 + a)"
proof (rule stream_order_is_a_schedule [OF sample_problem_new])
  show "stream_ready sample_phase 4 1"
    by (simp add: stream_ready_def sample_phase_def tiles_in_range_def tiles_def option_list_def)
  show "list_all transfer_ok sample_phase" by (simp add: sample_phase_def transfer_ok_def MAX_TRANSFER_WORDS_def)
qed

end
