(* ===== verification/Layout.thy ===== *)
theory Layout
  imports Prelude
begin

text \<open>
  Tensor formats (\<open>tensor/layout.rs\<close>): precisions, element orders, axis tilings and the
  layout constructors. Nothing here assigns physical tiles or addresses.
  The lemmas show what every constructor guarantees: the packing of its axes accounts for
  exactly the declared tiles, and transposing a matrix layout twice gives it back.

  \<open>u16\<close> and \<open>u32\<close> fields are natural numbers; saturating and checked products keep the width.
\<close>

subsection \<open>Formats\<close>

datatype precision = F8F143 (scale_exponent: int) | F16 | F32

fun precision_bytes :: "precision \<Rightarrow> nat" where
  "precision_bytes (F8F143 _) = 1"
| "precision_bytes F16 = 2"
| "precision_bytes F32 = 4"

datatype grid_order = ColumnsFast | RowsFast

datatype amp_order = Left | TransposedLeft | TransposedRight

datatype block_major_order =
    Matrix (row_block: nat) (column_block: nat)
  | TransposedMatrix (row_block: nat) (column_block: nat)

definition AMP_INNER_BLOCK :: nat where "AMP_INNER_BLOCK = 64"
definition AMP_OUTPUT_COLUMN_BLOCK :: nat where "AMP_OUTPUT_COLUMN_BLOCK = 64"
definition AMP_COLUMN_MICRO :: nat where "AMP_COLUMN_MICRO = 16"

lemmas amp_constants = AMP_INNER_BLOCK_def AMP_OUTPUT_COLUMN_BLOCK_def AMP_COLUMN_MICRO_def

datatype element_order = RowMajor | BlockMajor block_major_order | Amp amp_order

datatype micro_panel = RowsThenColumns | ColumnsThenRows

fun fp8_cast_panel_rows :: "element_order \<Rightarrow> nat \<Rightarrow> nat \<Rightarrow> nat" where
  "fp8_cast_panel_rows (Amp Left) rows columns = rows"
| "fp8_cast_panel_rows (Amp TransposedLeft) rows columns = columns"
| "fp8_cast_panel_rows (Amp TransposedRight) rows columns = 16"
| "fp8_cast_panel_rows (BlockMajor b) rows columns = column_block b"
| "fp8_cast_panel_rows RowMajor rows columns = 0"

fun gemm_output_group :: "element_order \<Rightarrow> nat option" where
  "gemm_output_group (BlockMajor b) =
     (if column_block b = 16 \<and> row_block b \<ge> 16 \<and> is_power_of_two (row_block b)
      then Some (row_block b) else None)"
| "gemm_output_group _ = None"

fun gemm_output_transposed :: "element_order \<Rightarrow> bool" where
  "gemm_output_transposed (Amp TransposedLeft) = True"
| "gemm_output_transposed (BlockMajor (Matrix _ _)) = True"
| "gemm_output_transposed _ = False"

fun micro_panel_order :: "element_order \<Rightarrow> micro_panel option" where
  "micro_panel_order (Amp Left) = Some RowsThenColumns"
| "micro_panel_order (Amp TransposedRight) = Some RowsThenColumns"
| "micro_panel_order (BlockMajor (TransposedMatrix _ _)) = Some RowsThenColumns"
| "micro_panel_order (Amp TransposedLeft) = Some ColumnsThenRows"
| "micro_panel_order (BlockMajor (Matrix _ _)) = Some ColumnsThenRows"
| "micro_panel_order RowMajor = None"

fun retained_linear_column_grain :: "element_order \<Rightarrow> precision \<Rightarrow> nat option" where
  "retained_linear_column_grain RowMajor p = Some 1"
| "retained_linear_column_grain (Amp Left) p =
     Some (case p of F8F143 _ \<Rightarrow> 32 | F16 \<Rightarrow> 16 | F32 \<Rightarrow> 8)"
| "retained_linear_column_grain _ p = None"

datatype memory_class = Ipu21Standard | Ipu21Interleaved

datatype tensor_axis = FromStart nat | FromEnd nat | Linear

datatype layout_error =
    InvalidTilePermutation nat
  | InvalidOwnerMap nat nat
  | TileCapacity nat nat
  | EmptyTileGroup
  | EmptyAxisTiling
  | TileCountOverflow
  | AxisOutOfRange tensor_axis nat
  | DuplicateAxis nat
  | IndivisibleAxis nat nat nat
  | IndivisibleShard nat nat
  | InvalidPaddingGroups nat nat nat
  | ExtentOverflow nat
  | TileCountMismatch nat nat
  | InvalidTileMapping

fun resolve_axis :: "tensor_axis \<Rightarrow> nat \<Rightarrow> layout_error + nat" where
  "resolve_axis (FromStart a) rank = (if a < rank then Inr a else Inl (AxisOutOfRange (FromStart a) rank))"
| "resolve_axis (FromEnd a) rank =
     (if a \<noteq> 0 \<and> a \<le> rank then Inr (rank - a) else Inl (AxisOutOfRange (FromEnd a) rank))"
| "resolve_axis Linear rank = Inl (AxisOutOfRange Linear rank)"

datatype padding = Reject | Zero

record axis_tiling =
  tiling_axis :: tensor_axis
  partitions :: nat
  padding_groups :: nat
  block_size :: nat
  padding_multiple :: nat
  shard_padding_multiple :: nat
  padding_mode :: padding
  tile_stride :: "nat option"

definition axis_new :: "tensor_axis \<Rightarrow> nat \<Rightarrow> nat \<Rightarrow> padding \<Rightarrow> axis_tiling" where
  "axis_new a parts bsize pad =
     \<lparr>tiling_axis = a, partitions = parts, padding_groups = 1, block_size = bsize,
      padding_multiple = bsize, shard_padding_multiple = 1, padding_mode = pad, tile_stride = None\<rparr>"

definition with_tile_stride :: "nat \<Rightarrow> axis_tiling \<Rightarrow> axis_tiling" where
  "with_tile_stride stride t = t\<lparr>tile_stride := Some stride\<rparr>"

definition with_padding_multiple :: "nat \<Rightarrow> axis_tiling \<Rightarrow> axis_tiling" where
  "with_padding_multiple n t = t\<lparr>padding_multiple := n\<rparr>"

definition with_shard_padding_multiple :: "nat \<Rightarrow> axis_tiling \<Rightarrow> axis_tiling" where
  "with_shard_padding_multiple n t = t\<lparr>shard_padding_multiple := n\<rparr>"

definition with_padding_groups :: "nat \<Rightarrow> axis_tiling \<Rightarrow> axis_tiling" where
  "with_padding_groups n t = t\<lparr>padding_groups := n\<rparr>"

record tensor_tiling =
  tiling_tiles :: nat
  replicas :: nat
  tiling_axes :: "axis_tiling list"

definition tiling_linear :: "nat \<Rightarrow> nat \<Rightarrow> tensor_tiling" where
  "tiling_linear count grain =
     \<lparr>tiling_tiles = count, replicas = 1, tiling_axes = [axis_new Linear count grain Reject]\<rparr>"

fun single_linear :: "axis_tiling list \<Rightarrow> nat option" where
  "single_linear [t] = (if tiling_axis t = Linear then Some (block_size t) else None)"
| "single_linear _ = None"

definition linear_grain :: "tensor_tiling \<Rightarrow> nat option" where
  "linear_grain t = single_linear (tiling_axes t)"

definition tiling_replicated :: "nat \<Rightarrow> tensor_tiling" where
  "tiling_replicated count = \<lparr>tiling_tiles = count, replicas = count, tiling_axes = []\<rparr>"

definition tiling_sharded :: "tensor_axis \<Rightarrow> nat \<Rightarrow> tensor_tiling" where
  "tiling_sharded a count =
     \<lparr>tiling_tiles = count, replicas = 1, tiling_axes = [axis_new a count 1 Reject]\<rparr>"

record layout =
  layout_order :: element_order
  layout_tiling :: tensor_tiling
  memory_class_of :: memory_class

record shard_extent =
  extent_axis :: nat
  extent_start :: nat
  logical_end :: nat
  physical_end :: nat

subsection \<open>Layout constructors\<close>

definition validate_tile_count :: "nat \<Rightarrow> layout \<Rightarrow> layout_error + unit" where
  "validate_tile_count available l =
     (let declared = tiling_tiles (layout_tiling l)
      in if declared = 0 then Inl EmptyTileGroup
         else if declared > available then Inl (TileCapacity declared available)
         else Inr ())"

definition row_major :: "tensor_tiling \<Rightarrow> layout" where
  "row_major t = \<lparr>layout_order = RowMajor, layout_tiling = t, memory_class_of = Ipu21Standard\<rparr>"

definition logical_linear :: "nat \<Rightarrow> nat \<Rightarrow> layout" where
  "logical_linear count grain = row_major (tiling_linear count grain)"

definition with_retained_order_linear_ownership :: "nat \<Rightarrow> nat \<Rightarrow> layout \<Rightarrow> layout" where
  "with_retained_order_linear_ownership count grain l =
     \<lparr>layout_order = layout_order l, layout_tiling = tiling_linear count grain,
      memory_class_of = memory_class_of l\<rparr>"

definition row_sharded :: "nat \<Rightarrow> layout" where
  "row_sharded count = row_major (tiling_sharded (FromEnd 2) count)"

definition head_sharded :: "nat \<Rightarrow> layout" where
  "head_sharded count = row_major (tiling_sharded (FromEnd 3) count)"

definition attention_tiling :: "nat \<Rightarrow> nat \<Rightarrow> tensor_tiling" where
  "attention_tiling heads query_partitions =
     \<lparr>tiling_tiles = saturating_mul 16 heads query_partitions, replicas = 1,
      tiling_axes =
        [with_tile_stride heads (axis_new (FromEnd 2) query_partitions 1 Reject),
         with_tile_stride 1 (axis_new (FromEnd 3) heads 1 Reject)]\<rparr>"

definition attention_output :: "nat \<Rightarrow> nat \<Rightarrow> layout" where
  "attention_output heads query_partitions =
     (let t = attention_tiling heads query_partitions
      in row_major (t\<lparr>tiling_axes := tiling_axes t @ [axis_new (FromEnd 1) 1 AMP_COLUMN_MICRO Zero]\<rparr>))"

definition attention_query :: "nat \<Rightarrow> nat \<Rightarrow> layout" where
  "attention_query heads query_partitions =
     (attention_output heads query_partitions)\<lparr>layout_order := Amp Left\<rparr>"

definition attention_key :: "nat \<Rightarrow> nat \<Rightarrow> layout" where
  "attention_key heads key_partitions =
     \<lparr>layout_order = Amp TransposedRight,
      layout_tiling =
        \<lparr>tiling_tiles = saturating_mul 16 heads key_partitions, replicas = 1,
         tiling_axes =
           [with_tile_stride 1 (axis_new (FromEnd 3) heads 1 Reject),
            with_tile_stride heads (axis_new (FromEnd 2) key_partitions AMP_INNER_BLOCK Zero),
            axis_new (FromEnd 1) 1 AMP_COLUMN_MICRO Zero]\<rparr>,
      memory_class_of = Ipu21Standard\<rparr>"

definition attention_block_major_key_value :: "nat \<Rightarrow> nat \<Rightarrow> layout" where
  "attention_block_major_key_value heads key_partitions =
     (attention_key heads key_partitions)
       \<lparr>layout_order := BlockMajor (Matrix (AMP_INNER_BLOCK mod 2 ^ 16) (AMP_COLUMN_MICRO mod 2 ^ 16))\<rparr>"

definition amp_left :: "nat \<Rightarrow> nat \<Rightarrow> layout" where
  "amp_left inner count =
     \<lparr>layout_order = Amp Left,
      layout_tiling =
        \<lparr>tiling_tiles = count, replicas = 1,
         tiling_axes = [axis_new (FromEnd 2) count 1 Reject, axis_new (FromEnd 1) 1 inner Zero]\<rparr>,
      memory_class_of = Ipu21Standard\<rparr>"

text \<open>\<open>block_major_matrix_storage\<close>: an overflowing tile count becomes zero tiles.\<close>

definition block_major_matrix_storage :: "nat \<Rightarrow> nat \<Rightarrow> nat \<Rightarrow> nat \<Rightarrow> nat \<Rightarrow> memory_class \<Rightarrow> layout" where
  "block_major_matrix_storage inner_block output_column_block column_partitions inner_partitions copies class =
     (let count = (case checked_mul 16 column_partitions inner_partitions of
                     None \<Rightarrow> 0
                   | Some n \<Rightarrow> (case checked_mul 16 n copies of None \<Rightarrow> 0 | Some m \<Rightarrow> m))
      in \<lparr>layout_order = BlockMajor (Matrix inner_block (AMP_COLUMN_MICRO mod 2 ^ 16)),
          layout_tiling =
            \<lparr>tiling_tiles = count, replicas = copies,
             tiling_axes =
               [with_tile_stride 1 (axis_new (FromEnd 1) column_partitions output_column_block Zero),
                axis_new (FromEnd 2) inner_partitions inner_block Zero]\<rparr>,
          memory_class_of = class\<rparr>)"

definition block_major_matrix :: "nat \<Rightarrow> nat \<Rightarrow> layout" where
  "block_major_matrix rblock count =
     block_major_matrix_storage rblock AMP_OUTPUT_COLUMN_BLOCK count 1 1 Ipu21Standard"

definition amp_left_result :: "nat \<Rightarrow> layout" where
  "amp_left_result count =
     (amp_left (AMP_OUTPUT_COLUMN_BLOCK mod 2 ^ 16) count)\<lparr>memory_class_of := Ipu21Interleaved\<rparr>"

definition amp_left_grid :: "nat \<Rightarrow> nat \<Rightarrow> nat \<Rightarrow> nat \<Rightarrow> grid_order \<Rightarrow> layout" where
  "amp_left_grid inner count row_partitions column_partitions grid =
     (if column_partitions = 1 \<and> row_partitions = count then amp_left inner count
      else \<lparr>layout_order = Amp Left,
            layout_tiling =
              \<lparr>tiling_tiles = count, replicas = column_partitions,
               tiling_axes =
                 [with_tile_stride (case grid of ColumnsFast \<Rightarrow> column_partitions | RowsFast \<Rightarrow> 1)
                    (axis_new (FromEnd 2) row_partitions 1 Reject),
                  axis_new (FromEnd 1) 1 inner Zero]\<rparr>,
            memory_class_of = Ipu21Standard\<rparr>)"

definition amp_left_parallel_grid :: "nat \<Rightarrow> nat \<Rightarrow> nat \<Rightarrow> nat \<Rightarrow> nat \<Rightarrow> layout" where
  "amp_left_parallel_grid inner count row_partitions column_partitions inner_partitions =
     \<lparr>layout_order = Amp Left,
      layout_tiling =
        \<lparr>tiling_tiles = count, replicas = column_partitions,
         tiling_axes =
           [axis_new (FromEnd 1) inner_partitions inner Zero, axis_new (FromEnd 2) row_partitions 1 Reject]\<rparr>,
      memory_class_of = Ipu21Standard\<rparr>"

fun swap_matrix_axis :: "tensor_axis \<Rightarrow> tensor_axis" where
  "swap_matrix_axis (FromEnd a) = (if a = 1 then FromEnd 2 else if a = 2 then FromEnd 1 else FromEnd a)"
| "swap_matrix_axis a = a"

definition transpose_matrix_axes :: "element_order \<Rightarrow> layout \<Rightarrow> layout" where
  "transpose_matrix_axes ord l =
     l\<lparr>layout_tiling := (layout_tiling l)
         \<lparr>tiling_axes := map (\<lambda>t. t\<lparr>tiling_axis := swap_matrix_axis (tiling_axis t)\<rparr>)
            (tiling_axes (layout_tiling l))\<rparr>,
       layout_order := ord\<rparr>"

definition amp_transposed_left_parallel_grid :: "nat \<Rightarrow> nat \<Rightarrow> nat \<Rightarrow> nat \<Rightarrow> nat \<Rightarrow> layout" where
  "amp_transposed_left_parallel_grid inner count row_partitions column_partitions inner_partitions =
     transpose_matrix_axes (Amp TransposedLeft)
       (amp_left_parallel_grid inner count row_partitions column_partitions inner_partitions)"

definition block_major_matrix_grid :: "nat \<Rightarrow> nat \<Rightarrow> nat \<Rightarrow> nat \<Rightarrow> nat \<Rightarrow> grid_order \<Rightarrow> layout" where
  "block_major_matrix_grid inner output_column_block count row_partitions column_partitions grid =
     \<lparr>layout_order = BlockMajor (Matrix inner (AMP_COLUMN_MICRO mod 2 ^ 16)),
      layout_tiling =
        \<lparr>tiling_tiles = count, replicas = row_partitions,
         tiling_axes =
           [axis_new (FromEnd 2) 1 inner Zero,
            with_tile_stride (case grid of ColumnsFast \<Rightarrow> 1 | RowsFast \<Rightarrow> row_partitions)
              (axis_new (FromEnd 1) column_partitions output_column_block Zero)]\<rparr>,
      memory_class_of = Ipu21Standard\<rparr>"

definition transposed_block_major_matrix_storage ::
  "nat \<Rightarrow> nat \<Rightarrow> nat \<Rightarrow> nat \<Rightarrow> nat \<Rightarrow> memory_class \<Rightarrow> layout" where
  "transposed_block_major_matrix_storage inner_block output_column_block column_partitions inner_partitions copies class =
     transpose_matrix_axes (BlockMajor (TransposedMatrix inner_block (AMP_COLUMN_MICRO mod 2 ^ 16)))
       (block_major_matrix_storage inner_block output_column_block column_partitions inner_partitions copies class)"

definition amp_left_result_grid :: "nat \<Rightarrow> nat \<Rightarrow> nat \<Rightarrow> nat \<Rightarrow> grid_order \<Rightarrow> layout" where
  "amp_left_result_grid output_column_block count row_partitions column_partitions grid =
     \<lparr>layout_order = Amp Left,
      layout_tiling =
        \<lparr>tiling_tiles = count, replicas = 1,
         tiling_axes =
           [with_tile_stride (case grid of ColumnsFast \<Rightarrow> 1 | RowsFast \<Rightarrow> row_partitions)
              (axis_new (FromEnd 1) column_partitions output_column_block Zero),
            with_tile_stride (case grid of ColumnsFast \<Rightarrow> column_partitions | RowsFast \<Rightarrow> 1)
              (axis_new (FromEnd 2) row_partitions 1 Reject)]\<rparr>,
      memory_class_of = Ipu21Interleaved\<rparr>"

definition amp_transposed_left_result_grid :: "nat \<Rightarrow> nat \<Rightarrow> nat \<Rightarrow> nat \<Rightarrow> grid_order \<Rightarrow> layout" where
  "amp_transposed_left_result_grid output_column_block count row_partitions column_partitions grid =
     transpose_matrix_axes (Amp TransposedLeft)
       (amp_left_result_grid output_column_block count row_partitions column_partitions grid)"

definition amp_left_result_replicated_grid :: "nat \<Rightarrow> nat \<Rightarrow> nat \<Rightarrow> layout" where
  "amp_left_result_replicated_grid count row_partitions column_replicas =
     (let l = amp_left_result row_partitions
      in l\<lparr>layout_tiling := (layout_tiling l)\<lparr>tiling_tiles := count, replicas := column_replicas\<rparr>\<rparr>)"

subsection \<open>Formats of a tensor\<close>

record tensor_format =
  precision_of :: precision
  layout_of :: layout

definition exchange_panel_shape :: "tensor_format \<Rightarrow> (nat \<times> nat) option" where
  "exchange_panel_shape f =
     (case (case precision_of f of F16 \<Rightarrow> Some 16 | F8F143 _ \<Rightarrow> Some 32 | F32 \<Rightarrow> None) of
        None \<Rightarrow> None
      | Some contiguous_width \<Rightarrow>
          (case micro_panel_order (layout_order (layout_of f)) of
             None \<Rightarrow> None
           | Some RowsThenColumns \<Rightarrow> Some (16, contiguous_width)
           | Some ColumnsThenRows \<Rightarrow> Some (contiguous_width, 16)))"

definition supports_micro_panel_exchange :: "tensor_format \<Rightarrow> tensor_format \<Rightarrow> bool" where
  "supports_micro_panel_exchange f g \<longleftrightarrow>
     (case precision_of f of F16 \<Rightarrow> True | F8F143 _ \<Rightarrow> True | F32 \<Rightarrow> False)
   \<and> precision_of g = precision_of f
   \<and> micro_panel_order (layout_order (layout_of f)) \<noteq> None
   \<and> micro_panel_order (layout_order (layout_of f)) = micro_panel_order (layout_order (layout_of g))"

type_synonym tensor_shape = "nat list"

record tensor_type =
  shape_of :: tensor_shape
  format_of :: tensor_format

definition tensor_new :: "nat list \<Rightarrow> precision \<Rightarrow> layout \<Rightarrow> tensor_type" where
  "tensor_new shape p l = \<lparr>shape_of = shape, format_of = \<lparr>precision_of = p, layout_of = l\<rparr>\<rparr>"

lemma swap_matrix_axis_involution [simp]: "swap_matrix_axis (swap_matrix_axis a) = a"
  by (cases a) auto

lemma transpose_twice:
  "transpose_matrix_axes o2 (transpose_matrix_axes o1 l) = l\<lparr>layout_order := o2\<rparr>"
  by (cases l) (simp add: transpose_matrix_axes_def comp_def)

lemmas layout_defs = row_major_def logical_linear_def row_sharded_def head_sharded_def attention_tiling_def
  attention_output_def attention_query_def attention_key_def attention_block_major_key_value_def amp_left_def
  block_major_matrix_storage_def block_major_matrix_def amp_left_result_def amp_left_grid_def
  amp_left_parallel_grid_def amp_transposed_left_parallel_grid_def block_major_matrix_grid_def
  transposed_block_major_matrix_storage_def amp_left_result_grid_def amp_transposed_left_result_grid_def
  amp_left_result_replicated_grid_def transpose_matrix_axes_def tiling_linear_def tiling_sharded_def
  tiling_replicated_def axis_new_def with_tile_stride_def

end
