(* ===== verification/Radix.thy ===== *)
theory Radix
  imports Prelude
begin

text \<open>
  Mixed-radix numbers, most significant digit first: the arithmetic behind tile coordinates
  (\<open>Resolved\<close>, \<open>Tilings\<close>) and element addresses (\<open>Storage\<close>). A pair
  \<open>(p, d)\<close> is a digit \<open>d\<close> of radix \<open>p\<close>. The lemmas give the range, the injectivity, the
  digits of a number and the order in which the coordinates of a box are numbered.
\<close>

lemma split_digit: "x < n \<Longrightarrow> (x + k * n) div n = (k::nat)" "x < n \<Longrightarrow> (x + k * n) mod n = x"
  by simp_all

fun mixed_radix :: "nat \<Rightarrow> (nat \<times> nat) list \<Rightarrow> nat" where
  "mixed_radix c [] = c"
| "mixed_radix c ((p, d) # pds) = mixed_radix (c * p + d) pds"

lemma mixed_radix_linear:
  "mixed_radix c pds = c * prod_list (map fst pds) + mixed_radix 0 pds"
proof (induction pds arbitrary: c)
  case (Cons x pds)
  obtain p d where x: "x = (p, d)" by (cases x)
  show ?case using Cons [of "c * p + d"] Cons [of d] by (simp add: x algebra_simps)
qed simp

lemma mixed_radix_bound: "\<forall>(p, d)\<in>set pds. d < p \<Longrightarrow> mixed_radix 0 pds < prod_list (map fst pds)"
proof (induction pds)
  case (Cons x pds)
  obtain p d where x: "x = (p, d)" by (cases x)
  let ?P = "prod_list (map fst pds)"
  have "mixed_radix 0 (x # pds) = d * ?P + mixed_radix 0 pds" using mixed_radix_linear [of d pds] by (simp add: x)
  also have "\<dots> < Suc d * ?P" using Cons by simp
  also have "\<dots> \<le> p * ?P" using Cons.prems by (intro mult_le_mono1) (simp add: x)
  finally show ?case by (simp add: x)
qed simp

lemma mixed_radix_inj:
  "length ds = length ps \<Longrightarrow> length es = length ps \<Longrightarrow> \<forall>k<length ps. ds ! k < ps ! k \<and> es ! k < ps ! k \<Longrightarrow>
   mixed_radix 0 (zip ps ds) = mixed_radix 0 (zip ps es) \<Longrightarrow> ds = es"
proof (induction ps arbitrary: ds es)
  case (Cons p ps)
  obtain d ds' e es' where d: "ds = d # ds'" and e: "es = e # es'" using Cons.prems(1,2) by (metis length_Suc_conv)
  let ?P = "prod_list ps"
  have len: "length ds' = length ps" "length es' = length ps" using Cons.prems(1,2) by (simp_all add: d e)
  have tails: "\<forall>k<length ps. ds' ! k < ps ! k \<and> es' ! k < ps ! k" using Cons.prems(3) by (auto simp: d e)
  have fst_zip: "map fst (zip ps ds') = ps" "map fst (zip ps es') = ps" using len by simp_all
  have "\<forall>(p, d)\<in>set (zip ps ds'). d < p" "\<forall>(p, d)\<in>set (zip ps es'). d < p"
    using tails len by (force simp: in_set_zip)+
  then have b: "mixed_radix 0 (zip ps ds') < ?P" "mixed_radix 0 (zip ps es') < ?P"
    using mixed_radix_bound [of "zip ps ds'"] mixed_radix_bound [of "zip ps es'"] len by simp_all
  have eq: "d * ?P + mixed_radix 0 (zip ps ds') = e * ?P + mixed_radix 0 (zip ps es')"
    using Cons.prems(4) mixed_radix_linear [of d "zip ps ds'"] mixed_radix_linear [of e "zip ps es'"] len
    by (simp add: d e)
  then have "(d * ?P + mixed_radix 0 (zip ps ds')) div ?P = (e * ?P + mixed_radix 0 (zip ps es')) div ?P" by simp
  then have de: "d = e" using b by simp
  then have "mixed_radix 0 (zip ps ds') = mixed_radix 0 (zip ps es')" using eq by simp
  from Cons.IH [OF len tails this] show ?case using de d e by simp
qed simp

text \<open>Coordinates in a box: one coordinate below each width.\<close>

definition in_box :: "nat list \<Rightarrow> nat list \<Rightarrow> bool" where
  "in_box ps ds = list_all2 (\<lambda>d p. d < p) ds ps"

lemma in_box_simps [simp]:
  "in_box [] ds \<longleftrightarrow> ds = []" "in_box (p # ps) (d # ds) \<longleftrightarrow> d < p \<and> in_box ps ds" "\<not> in_box (p # ps) []"
  by (auto simp: in_box_def)

lemma in_box_Cons: "in_box (p # ps) ds \<longleftrightarrow> (\<exists>d ds'. ds = d # ds' \<and> d < p \<and> in_box ps ds')"
  by (auto simp: in_box_def list_all2_Cons2)

lemma in_box_length: "in_box ps ds \<Longrightarrow> length ds = length ps"
  by (auto simp: in_box_def dest: list_all2_lengthD)

lemma in_box_nth: "in_box ps ds \<longleftrightarrow> length ds = length ps \<and> (\<forall>k<length ps. ds ! k < ps ! k)"
  by (auto simp: in_box_def list_all2_conv_all_nth)

lemma in_box_append: "length ds = length ps \<Longrightarrow> in_box (ps @ qs) (ds @ es) \<longleftrightarrow> in_box ps ds \<and> in_box qs es"
  by (auto simp: in_box_def list_all2_append dest: list_all2_lengthD)

lemma in_box_pos: "in_box ps ds \<Longrightarrow> 0 < prod_list ps"
proof (induction ps arbitrary: ds)
  case (Cons p ps) then show ?case by (auto simp: in_box_Cons)
qed simp

definition box_index :: "nat list \<Rightarrow> nat list \<Rightarrow> nat" where
  "box_index ps ds = mixed_radix 0 (zip ps ds)"

lemma box_index_Nil [simp]: "box_index [] ds = 0"
  by (simp add: box_index_def)

lemma box_index_Cons:
  assumes "length ds = length ps"
  shows "box_index (p # ps) (d # ds) = d * prod_list ps + box_index ps ds"
  using mixed_radix_linear [of d "zip ps ds"] assms by (simp add: box_index_def)

lemma box_index_append:
  "length ds = length ps \<Longrightarrow> length es = length qs \<Longrightarrow>
   box_index (ps @ qs) (ds @ es) = box_index ps ds * prod_list qs + box_index qs es"
proof (induction ds ps rule: list_induct2)
  case (Cons d ds p ps)
  then have "length (ds @ es) = length (ps @ qs)" by simp
  from box_index_Cons [OF this, of p d] show ?case
    using Cons box_index_Cons [OF \<open>length ds = length ps\<close>, of p d] by (simp add: algebra_simps)
qed simp

lemma box_index_less: "in_box ps ds \<Longrightarrow> box_index ps ds < prod_list ps"
proof -
  assume b: "in_box ps ds"
  then have "\<forall>(p, d)\<in>set (zip ps ds). d < p" by (force simp: in_box_nth in_set_zip)
  from mixed_radix_bound [OF this] show ?thesis using in_box_length [OF b] by (simp add: box_index_def)
qed

lemma box_index_inj: "in_box ps ds \<Longrightarrow> in_box ps es \<Longrightarrow> box_index ps ds = box_index ps es \<Longrightarrow> ds = es"
  using mixed_radix_inj [of ds ps es] by (simp add: box_index_def in_box_nth)

text \<open>The digits of a number.\<close>

fun radix_digits :: "nat list \<Rightarrow> nat \<Rightarrow> nat list" where
  "radix_digits [] n = []"
| "radix_digits (p # ps) n = (n div prod_list ps) mod p # radix_digits ps n"

lemma length_radix_digits [simp]: "length (radix_digits ps n) = length ps"
  by (induction ps) simp_all

lemma radix_digits_in_box: "0 < prod_list ps \<Longrightarrow> in_box ps (radix_digits ps n)"
  by (induction ps) simp_all

lemma box_index_digits: "box_index ps (radix_digits ps n) = n mod prod_list ps"
proof (induction ps)
  case (Cons p ps)
  have "box_index (p # ps) (radix_digits (p # ps) n) = (n div prod_list ps) mod p * prod_list ps + n mod prod_list ps"
    using Cons by (simp add: box_index_Cons)
  also have "\<dots> = n mod (prod_list ps * p)" by (subst mod_mult2_eq) simp
  finally show ?case by (simp add: mult.commute)
qed simp

lemma radix_digits_index: "in_box ps ds \<Longrightarrow> radix_digits ps (box_index ps ds) = ds"
proof -
  assume b: "in_box ps ds"
  then have "box_index ps (radix_digits ps (box_index ps ds)) = box_index ps ds"
    using box_index_less by (simp add: box_index_digits)
  then show ?thesis using box_index_inj [OF radix_digits_in_box b] in_box_pos [OF b] by blast
qed

text \<open>The coordinates of a box in row-major order.\<close>

definition box_list :: "nat list \<Rightarrow> nat list list" where
  "box_list ps = product_lists (map (\<lambda>p. [0..<p]) ps)"

lemma box_list_simps [simp]:
  "box_list [] = [[]]" "box_list (p # ps) = concat (map (\<lambda>d. map ((#) d) (box_list ps)) [0..<p])"
  by (simp_all add: box_list_def)

lemma set_box_list: "set (box_list ps) = {ds. in_box ps ds}"
proof (induction ps)
  case (Cons p ps) then show ?case by (auto simp: in_box_Cons)
qed simp

lemma box_list_index: "map (box_index ps) (box_list ps) = [0..<prod_list ps]"
proof (induction ps)
  case (Cons p ps)
  let ?P = "prod_list ps"
  have "map (box_index (p # ps)) (map ((#) d) (box_list ps)) = [d * ?P..<Suc d * ?P]" for d
  proof -
    have "map (box_index (p # ps)) (map ((#) d) (box_list ps)) = map (\<lambda>ds. d * ?P + box_index ps ds) (box_list ps)"
      by (auto simp: set_box_list box_index_Cons dest: in_box_length)
    also have "\<dots> = map (\<lambda>i. i + d * ?P) (map (box_index ps) (box_list ps))" by simp
    also have "\<dots> = [d * ?P..<Suc d * ?P]" by (simp only: Cons.IH map_add_upt) simp
    finally show ?thesis .
  qed
  then have "map (box_index (p # ps)) (box_list (p # ps)) = concat (map (\<lambda>d. [d * ?P..<Suc d * ?P]) [0..<p])"
    by (simp only: box_list_simps map_concat map_map comp_def)
  also have "\<dots> = [0..<p * ?P]"
  proof (induction p)
    case (Suc p)
    have "[0..<Suc p * ?P] = [0..<p * ?P] @ [p * ?P..<Suc p * ?P]"
      using upt_add_eq_append [of 0 "p * ?P" "?P"] by (simp add: add.commute)
    then show ?case using Suc by simp
  qed simp
  finally show ?case by simp
qed simp

end
