(* ===== verification/Resolved.thy ===== *)
theory Resolved
  imports Radix Layout "HOL-Library.Product_Lexorder" "HOL-Library.FuncSet" "HOL-Library.Multiset"
begin

text \<open>
  Resolved ownership geometry (\<open>tensor/resolved.rs\<close>): the padded shape of a layout, the
  partition of each tiled axis into shards, the strides that map a tile to its coordinate on
  each axis, and the expansion of flat (linear) ownership into row fragments.

  The lemmas show that the shards of an axis cover it exactly once, that every tile
  coordinate is held by exactly as many tiles as the layout declares replicas (whether the
  fast check or the exhaustive count accepted the mapping), and hence that every element of a
  tensor has exactly that many owners; and that the fragments of a linear layout list the
  elements of the tensor once, in row-major order.

  A division by zero is the result \<open>Panic\<close>, an error of the code \<open>Fail\<close>. Products of
  \<open>u64\<close> element counts are unbounded here.
\<close>

subsection \<open>Data\<close>

record resolved_axis =
  axis_partitions :: "shard_extent list"
  axis_stride :: nat

record resolved_layout =
  padded_shape_of :: tensor_shape
  resolved_shape :: tensor_shape
  resolved_tiles :: nat
  resolved_replicas :: nat
  resolved_grain :: "nat option"
  resolved_axes :: "resolved_axis list"

type_synonym 'a layout_result = "layout_error fault + 'a"

definition layout_fail :: "layout_error \<Rightarrow> 'a layout_result" where
  "layout_fail e = Inl (Fail e)"

definition lift_layout :: "layout_error + 'a \<Rightarrow> 'a layout_result" where
  "lift_layout r = (case r of Inl e \<Rightarrow> Inl (Fail e) | Inr a \<Rightarrow> Inr a)"

definition checked_div :: "nat \<Rightarrow> nat \<Rightarrow> nat layout_result" where
  "checked_div a b = (if b = 0 then Inl Panic else Inr (a div b))"

definition elements :: "tensor_shape \<Rightarrow> nat" where
  "elements shape = prod_list shape"

subsection \<open>One axis\<close>

definition extent_size :: "shard_extent \<Rightarrow> nat" where
  "extent_size part = physical_end part - extent_start part"

definition extent_sizes :: "resolved_axis \<Rightarrow> nat list" where
  "extent_sizes a = map extent_size (axis_partitions a)"

definition complete_panels_except_tail :: "nat \<Rightarrow> resolved_axis \<Rightarrow> bool" where
  "complete_panels_except_tail grain a =
     list_all (\<lambda>e. is_multiple_of e grain) (take (length (axis_partitions a) - 1) (extent_sizes a))"

definition extents_are_multiple_of :: "nat \<Rightarrow> resolved_axis \<Rightarrow> bool" where
  "extents_are_multiple_of grain a = list_all (\<lambda>e. is_multiple_of e grain) (extent_sizes a)"

definition same_partitioning :: "resolved_axis \<Rightarrow> resolved_axis \<Rightarrow> bool" where
  "same_partitioning a b \<longleftrightarrow>
     axis_partitions a = axis_partitions b
   \<and> (length (axis_partitions a) \<le> 1 \<or> axis_stride a = axis_stride b)"

definition extent :: "resolved_axis \<Rightarrow> nat \<Rightarrow> shard_extent" where
  "extent a tile = axis_partitions a ! ((tile div axis_stride a) mod length (axis_partitions a))"

definition maximum_extent :: "resolved_axis \<Rightarrow> nat" where
  "maximum_extent a = foldr max (extent_sizes a) 0"

definition minimum_extent :: "resolved_axis \<Rightarrow> nat" where
  "minimum_extent a = (case extent_sizes a of [] \<Rightarrow> 0 | e # es \<Rightarrow> foldr min es e)"

text \<open>The bounds of a shard of \<open>shard_blocks\<close> blocks starting at block \<open>start_blocks\<close> of its grp.\<close>

definition place_shard :: "axis_tiling \<Rightarrow> nat \<Rightarrow> nat \<Rightarrow> nat \<Rightarrow> nat \<Rightarrow> (nat \<times> nat \<times> nat) layout_result" where
  "place_shard t grp logical_group_extent start_blocks shard_blocks =
     res_bind (ok_or (checked_mul 32 start_blocks (block_size t)) (Fail (ExtentOverflow 0))) (\<lambda>start_in_group.
     res_bind (ok_or (checked_mul 32 shard_blocks (block_size t)) (Fail (ExtentOverflow 0))) (\<lambda>allocated.
     if shard_padding_multiple t = 0 then Inl Panic
     else if allocated mod shard_padding_multiple t \<noteq> 0 \<and> padding_mode t = Reject
     then layout_fail (IndivisibleShard allocated (shard_padding_multiple t))
     else
     res_bind (ok_or (checked_next_multiple_of 32 allocated (shard_padding_multiple t)) (Fail (ExtentOverflow 0)))
       (\<lambda>physical_width.
     res_bind (ok_or (checked_mul 32 grp logical_group_extent) (Fail (ExtentOverflow 0))) (\<lambda>group_logical_base.
     res_bind (ok_or (checked_add 32 group_logical_base start_in_group) (Fail (ExtentOverflow 0))) (\<lambda>start.
     res_bind (ok_or (checked_add 32 start_in_group allocated) (Fail (ExtentOverflow 0))) (\<lambda>end_in_group.
     res_bind (ok_or (checked_add 32 group_logical_base (max (min end_in_group logical_group_extent) start_in_group))
                 (Fail (ExtentOverflow 0))) (\<lambda>logical_stop.
     res_bind (ok_or (checked_add 32 start physical_width) (Fail (ExtentOverflow 0))) (\<lambda>physical_stop.
     Inr (start, logical_stop, physical_stop)))))))))"

definition shard_bounds :: "axis_tiling \<Rightarrow> nat \<Rightarrow> nat \<Rightarrow> nat \<Rightarrow> (nat \<times> nat \<times> nat) layout_result" where
  "shard_bounds t padded_extent logical_extent coordinate =
     (let parts = partitions t; groups = padding_groups t
      in if groups = 0 \<or> coordinate \<ge> parts \<or> \<not> is_multiple_of parts groups
            \<or> \<not> is_multiple_of padded_extent groups \<or> \<not> is_multiple_of logical_extent groups
         then layout_fail (InvalidPaddingGroups groups parts logical_extent)
         else
     (let partitions_per_group = parts div groups;
          grp = coordinate div partitions_per_group;
          coordinate_in_group = coordinate mod partitions_per_group;
          padded_group_extent = padded_extent div groups;
          logical_group_extent = logical_extent div groups
      in if \<not> is_multiple_of padded_group_extent (block_size t)
         then layout_fail (IndivisibleAxis 0 padded_group_extent (block_size t))
         else
     res_bind (checked_div padded_group_extent (block_size t)) (\<lambda>blocks.
     let short_size = blocks div partitions_per_group;
         long_shards = blocks mod partitions_per_group
     in place_shard t grp logical_group_extent
          (coordinate_in_group * short_size + min coordinate_in_group long_shards)
          (short_size + (if coordinate_in_group < long_shards then 1 else 0)))))"

subsection \<open>Strides and the tile mapping\<close>

fun axis_strides_loop :: "nat \<Rightarrow> axis_tiling list \<Rightarrow> layout_error + nat list" where
  "axis_strides_loop packed_stride [] = Inr []"
| "axis_strides_loop packed_stride (t # ts) =
     (let stride = (case tile_stride t of None \<Rightarrow> packed_stride | Some s \<Rightarrow> s)
      in res_bind (ok_or (checked_mul 32 packed_stride (partitions t)) TileCountOverflow) (\<lambda>packed.
         if stride = 0 then Inl EmptyAxisTiling
         else res_bind (axis_strides_loop packed ts) (\<lambda>strides. Inr (stride # strides))))"

definition axis_strides :: "tensor_tiling \<Rightarrow> layout_error + nat list" where
  "axis_strides t = axis_strides_loop (replicas t) (tiling_axes t)"

fun regular_loop :: "nat \<Rightarrow> (nat \<times> nat) list \<Rightarrow> bool" where
  "regular_loop expected_stride [] = True"
| "regular_loop expected_stride ((stride, parts) # digits) =
     (if stride \<noteq> expected_stride then False
      else case checked_mul 32 expected_stride parts of
             None \<Rightarrow> False
           | Some next_stride \<Rightarrow> regular_loop next_stride digits)"

definition has_regular_tile_mapping :: "tensor_tiling \<Rightarrow> nat list \<Rightarrow> bool" where
  "has_regular_tile_mapping tiling strides =
     (let digits = sort (map (\<lambda>(t, stride). (stride, partitions t))
                     (filter (\<lambda>(t, _). partitions t > 1) (zip (tiling_axes tiling) strides)))
      in case digits of
           [] \<Rightarrow> True
         | (base, _) # _ \<Rightarrow>
             if base = 0 \<or> \<not> is_multiple_of (replicas tiling) base then False else regular_loop base digits)"

text \<open>The coordinate index of a tile: one mixed-radix digit per tiled axis.\<close>

fun coordinate_loop :: "nat \<Rightarrow> nat \<Rightarrow> (axis_tiling \<times> nat) list \<Rightarrow> nat option" where
  "coordinate_loop tile coordinate [] = Some coordinate"
| "coordinate_loop tile coordinate ((t, stride) # axes) =
     (case checked_mul 64 coordinate (partitions t) of
        None \<Rightarrow> None
      | Some c \<Rightarrow>
          (case checked_add 64 c ((tile div stride) mod partitions t) of
             None \<Rightarrow> None
           | Some c' \<Rightarrow> coordinate_loop tile c' axes))"

fun count_copies :: "(axis_tiling \<times> nat) list \<Rightarrow> nat list \<Rightarrow> nat list \<Rightarrow> nat list layout_result" where
  "count_copies axes [] copies = Inr copies"
| "count_copies axes (tile # tls) copies =
     res_bind (ok_or (coordinate_loop tile 0 axes) (Fail TileCountOverflow)) (\<lambda>coordinate.
     if coordinate \<ge> length copies then Inl Panic
     else res_bind (ok_or (checked_add 16 (copies ! coordinate) 1) (Fail TileCountOverflow)) (\<lambda>n.
          count_copies axes tls (copies[coordinate := n])))"

subsection \<open>The padded shape\<close>

text \<open>One tiled axis: the new dimensions, the used axes and the tiles implied so far.\<close>

definition pad_axis ::
  "nat \<times> nat list \<times> nat list \<Rightarrow> axis_tiling \<Rightarrow> (nat \<times> nat list \<times> nat list) layout_result" where
  "pad_axis = (\<lambda>(used_tiles, dimensions, used_axes) t.
     if partitions t = 0 \<or> padding_groups t = 0 \<or> block_size t = 0 \<or> padding_multiple t = 0
        \<or> shard_padding_multiple t = 0
     then layout_fail EmptyAxisTiling
     else
     res_bind (ok_or (checked_mul 32 used_tiles (partitions t)) (Fail TileCountOverflow)) (\<lambda>used_tiles'.
     res_bind (lift_layout (resolve_axis (tiling_axis t) (length dimensions))) (\<lambda>a.
     if a \<in> set used_axes then layout_fail (DuplicateAxis a)
     else
     (let ext = dimensions ! a
      in if \<not> is_multiple_of (partitions t) (padding_groups t) \<or> \<not> is_multiple_of ext (padding_groups t)
         then layout_fail (InvalidPaddingGroups (padding_groups t) (partitions t) ext)
         else
     (let group_extent = ext div padding_groups t
      in res_bind
           (if group_extent mod padding_multiple t \<noteq> 0
            then (case padding_mode t of
                    Reject \<Rightarrow> layout_fail (IndivisibleAxis a group_extent (padding_multiple t))
                  | Zero \<Rightarrow>
                      res_bind (ok_or (checked_next_multiple_of 32 group_extent (padding_multiple t)) (Fail (ExtentOverflow a)))
                        (\<lambda>padded_group_extent.
                      res_bind (ok_or (checked_mul 32 padded_group_extent (padding_groups t)) (Fail (ExtentOverflow a)))
                        (\<lambda>d. Inr (dimensions[a := d]))))
            else Inr dimensions) (\<lambda>dimensions'.
         let padded_group_extent = dimensions' ! a div padding_groups t
         in if \<not> is_multiple_of padded_group_extent (block_size t)
            then layout_fail (IndivisibleAxis a padded_group_extent (block_size t))
            else Inr (used_tiles', dimensions', used_axes @ [a])))))))"

fun pad_axes ::
  "nat \<times> nat list \<times> nat list \<Rightarrow> axis_tiling list \<Rightarrow> (nat \<times> nat list \<times> nat list) layout_result" where
  "pad_axes st [] = Inr st"
| "pad_axes st (t # ts) = res_bind (pad_axis st t) (\<lambda>st'. pad_axes st' ts)"

definition padded_shape :: "layout \<Rightarrow> tensor_shape \<Rightarrow> tensor_shape layout_result" where
  "padded_shape l shape =
     (let tiling = layout_tiling l
      in if tiling_tiles tiling = 0 \<or> replicas tiling = 0 then layout_fail EmptyTileGroup
         else
     (case linear_grain tiling of
        Some grain \<Rightarrow>
          if shape = [] \<or> grain = 0 \<or> div_ceil (elements shape) grain < tiling_tiles tiling
             \<or> (padding_mode (tiling_axes tiling ! 0) = Reject \<and> \<not> is_multiple_of (elements shape) grain)
          then layout_fail EmptyAxisTiling
          else Inr shape
      | None \<Rightarrow>
          res_bind (pad_axes (replicas tiling, shape, []) (tiling_axes tiling)) (\<lambda>(used_tiles, dimensions, _).
          if used_tiles \<noteq> tiling_tiles tiling
          then layout_fail (TileCountMismatch (tiling_tiles tiling) used_tiles)
          else
          res_bind (lift_layout (axis_strides tiling)) (\<lambda>strides.
          if has_regular_tile_mapping tiling strides then Inr dimensions
          else
          res_bind (count_copies (zip (tiling_axes tiling) strides) [0..<tiling_tiles tiling]
                      (replicate (tiling_tiles tiling div replicas tiling) 0)) (\<lambda>copies.
          if list_ex (\<lambda>n. n \<noteq> replicas tiling) copies then layout_fail InvalidTileMapping
          else Inr dimensions)))))"

subsection \<open>Resolution\<close>

definition resolve_one ::
  "layout \<Rightarrow> tensor_shape \<Rightarrow> nat list \<Rightarrow> nat \<times> nat \<Rightarrow> resolved_axis layout_result" where
  "resolve_one l shape strides = (\<lambda>(a, physical_stop).
     res_bind (ok_or (try_from 16 a) (Fail (ExtentOverflow a))) (\<lambda>axis_id.
     case find (\<lambda>(t, _). resolve_axis (tiling_axis t) (length shape) = Inr a)
            (zip (tiling_axes (layout_tiling l)) strides) of
       Some (t, stride) \<Rightarrow>
         res_bind (traverse (\<lambda>coordinate.
             res_bind (shard_bounds t physical_stop (shape ! a) coordinate) (\<lambda>(s, e, pe).
             Inr \<lparr>extent_axis = axis_id, extent_start = s, logical_end = e, physical_end = pe\<rparr>))
             [0..<partitions t])
           (\<lambda>parts. Inr \<lparr>axis_partitions = parts, axis_stride = stride\<rparr>)
     | None \<Rightarrow>
         Inr \<lparr>axis_partitions = [\<lparr>extent_axis = axis_id, extent_start = 0, logical_end = shape ! a,
                                   physical_end = physical_stop\<rparr>],
              axis_stride = 1\<rparr>))"

definition resolve :: "layout \<Rightarrow> tensor_shape \<Rightarrow> resolved_layout layout_result" where
  "resolve l shape =
     res_bind (padded_shape l shape) (\<lambda>padded.
     let grain = linear_grain (layout_tiling l)
     in res_bind
          (case grain of
             Some _ \<Rightarrow> Inr []
           | None \<Rightarrow>
               res_bind (lift_layout (axis_strides (layout_tiling l))) (\<lambda>strides.
               traverse (resolve_one l shape strides) (enumerate 0 padded))) (\<lambda>axes.
        Inr \<lparr>padded_shape_of = padded, resolved_shape = shape,
             resolved_tiles = tiling_tiles (layout_tiling l), resolved_replicas = replicas (layout_tiling l),
             resolved_grain = grain, resolved_axes = axes\<rparr>))"

definition axes_of :: "resolved_layout \<Rightarrow> resolved_axis list option" where
  "axes_of r = (if resolved_grain r = None then Some (resolved_axes r) else None)"

definition has_empty_shards :: "resolved_layout \<Rightarrow> bool" where
  "has_empty_shards r =
     list_ex (\<lambda>a. list_ex (\<lambda>part. extent_start part = logical_end part) (axis_partitions a)) (resolved_axes r)"

definition physical_elements :: "resolved_layout \<Rightarrow> nat" where
  "physical_elements r =
     (case resolved_grain r of
        Some grain \<Rightarrow> div_ceil (elements (resolved_shape r)) grain * grain
      | None \<Rightarrow> foldl (saturating_mul 64) (resolved_replicas r)
                  (map (\<lambda>a. sum_list (extent_sizes a)) (resolved_axes r)))"

definition maximum_tile_elements :: "resolved_layout \<Rightarrow> nat" where
  "maximum_tile_elements r =
     (case resolved_grain r of
        Some grain \<Rightarrow>
          saturating_mul 64 (div_ceil (div_ceil (elements (resolved_shape r)) grain) (resolved_tiles r)) grain
      | None \<Rightarrow> foldl (saturating_mul 64) 1 (map maximum_extent (resolved_axes r)))"

definition tile_elements :: "resolved_layout \<Rightarrow> nat \<Rightarrow> nat" where
  "tile_elements r tile =
     (if tile \<ge> resolved_tiles r then 0
      else case resolved_grain r of
             Some grain \<Rightarrow>
               (let grains = div_ceil (elements (resolved_shape r)) grain;
                    count = resolved_tiles r
                in (grains div count + (if tile < grains mod count then 1 else 0)) * grain)
           | None \<Rightarrow> prod_list (map (\<lambda>a. extent_size (extent a tile)) (resolved_axes r)))"

subsection \<open>Shards\<close>

text \<open>The leading axes of a row, from the innermost outwards.\<close>

fun region_loop :: "tensor_shape \<Rightarrow> nat list \<Rightarrow> nat \<Rightarrow> shard_extent list layout_result" where
  "region_loop shape [] linear_row = Inr []"
| "region_loop shape (a # as) linear_row =
     (let ext = shape ! a
      in if ext = 0 then Inl Panic
         else
      res_bind (ok_or (try_from 32 (linear_row mod ext)) (Fail (ExtentOverflow (length shape)))) (\<lambda>coordinate.
      res_bind (ok_or (try_from 16 a) (Fail (ExtentOverflow (length shape)))) (\<lambda>axis_id.
      res_bind (region_loop shape as (linear_row div ext)) (\<lambda>rest.
      Inr (\<lparr>extent_axis = axis_id, extent_start = coordinate, logical_end = coordinate + 1,
            physical_end = coordinate + 1\<rparr> # rest)))))"

definition row_fragment ::
  "tensor_shape \<Rightarrow> nat \<Rightarrow> nat \<Rightarrow> nat \<Rightarrow> nat \<Rightarrow> nat \<Rightarrow> nat \<Rightarrow> nat \<Rightarrow> shard_extent list layout_result" where
  "row_fragment shape width start stop physical_stop first_row last_row row =
     (let rank = length shape;
          column_start = (if row = first_row then start mod width else 0);
          column_end = (if row + 1 = last_row \<and> \<not> is_multiple_of stop width then stop mod width else width);
          tail = (if row + 1 = last_row then physical_stop - stop else 0)
      in res_bind (region_loop shape (rev [0..<rank - 1]) row) (\<lambda>region.
         res_bind (ok_or (try_from 16 (rank - 1)) (Fail (ExtentOverflow rank))) (\<lambda>axis_id.
         res_bind (ok_or (try_from 32 column_start) (Fail (ExtentOverflow rank))) (\<lambda>s.
         res_bind (ok_or (try_from 32 column_end) (Fail (ExtentOverflow rank))) (\<lambda>e.
         res_bind (ok_or (try_from 32 (column_end + tail)) (Fail (ExtentOverflow rank))) (\<lambda>pe.
         Inr (rev region @ [\<lparr>extent_axis = axis_id, extent_start = s, logical_end = e, physical_end = pe\<rparr>])))))))"

fun linear_shards ::
  "resolved_layout \<Rightarrow> nat \<Rightarrow> nat list \<Rightarrow> nat \<Rightarrow> (nat \<times> shard_extent list) list layout_result" where
  "linear_shards r width [] cursor = Inr []"
| "linear_shards r width (tile # tls) cursor =
     (let start = cursor;
          physical_stop = start + tile_elements r tile;
          stop = min physical_stop (elements (resolved_shape r))
      in if width = 0 then Inl Panic
         else
      (let first_row = start div width; last_row = div_ceil stop width
       in res_bind (traverse (\<lambda>row.
              res_bind (row_fragment (resolved_shape r) width start stop physical_stop first_row last_row row)
                (\<lambda>region. Inr (tile, region)))
              [first_row..<last_row]) (\<lambda>fragments.
          res_bind (linear_shards r width tls physical_stop) (\<lambda>rest. Inr (fragments @ rest)))))"

definition resolved_shards :: "resolved_layout \<Rightarrow> (nat \<times> shard_extent list) list layout_result" where
  "resolved_shards r =
     (if resolved_grain r \<noteq> None
      then (if resolved_shape r = [] then layout_fail EmptyAxisTiling
            else linear_shards r (last (resolved_shape r)) [0..<resolved_tiles r] 0)
      else Inr (map (\<lambda>tile. (tile, map (\<lambda>a. extent a tile) (resolved_axes r))) [0..<resolved_tiles r]))"

definition shard_extents :: "layout \<Rightarrow> tensor_shape \<Rightarrow> (nat \<times> shard_extent list) list layout_result" where
  "shard_extents l shape = res_bind (resolve l shape) resolved_shards"

subsection \<open>The shards of an axis\<close>

definition block_start :: "nat \<Rightarrow> nat \<Rightarrow> nat \<Rightarrow> nat" where
  "block_start blocks parts k = k * (blocks div parts) + min k (blocks mod parts)"

lemma block_start_Suc:
  "block_start blocks parts (Suc k)
     = block_start blocks parts k + (blocks div parts + (if k < blocks mod parts then 1 else 0))"
  by (auto simp: block_start_def min_def)

lemma block_start_0 [simp]: "block_start blocks parts 0 = 0"
  by (simp add: block_start_def)

lemma block_start_end: "0 < parts \<Longrightarrow> block_start blocks parts parts = blocks"
proof -
  assume "0 < parts"
  then have "min parts (blocks mod parts) = blocks mod parts" by (simp add: min_absorb2 less_imp_le)
  then show ?thesis by (simp add: block_start_def)
qed

lemma block_start_mono: "k \<le> m \<Longrightarrow> block_start blocks parts k \<le> block_start blocks parts m"
  by (rule lift_Suc_mono_le) (simp_all add: block_start_Suc)

lemma place_shard_Inr:
  assumes "place_shard t g L sb k = Inr (s, e, pe)"
  shows "s = g * L + sb * block_size t
    \<and> e = g * L + max (min (sb * block_size t + k * block_size t) L) (sb * block_size t)
    \<and> shard_padding_multiple t dvd pe - s \<and> k * block_size t \<le> pe - s \<and> s \<le> e \<and> e \<le> pe \<and> pe < 2 ^ 32"
proof -
  from assms obtain w where w: "checked_next_multiple_of 32 (k * block_size t) (shard_padding_multiple t) = Some w"
    and s: "s = g * L + sb * block_size t"
    and e: "e = g * L + max (min (sb * block_size t + k * block_size t) L) (sb * block_size t)"
    and pe: "pe = s + w" "pe < 2 ^ 32"
    by (simp add: place_shard_def res_simps checked_add_def checked_mul_def layout_fail_def split: if_splits)
  have "shard_padding_multiple t dvd w" "k * block_size t \<le> w" using checked_next_multiple_of_Some [OF w] by auto
  then show ?thesis using s e pe by (simp add: max_def min_def)
qed

lemma shard_bounds_Inr:
  assumes "shard_bounds t padded logical c = Inr (s, e, pe)"
  defines "n \<equiv> partitions t div padding_groups t" and "L \<equiv> logical div padding_groups t"
    and "B \<equiv> (padded div padding_groups t) div block_size t"
  shows "padding_groups t > 0 \<and> c < partitions t \<and> partitions t = n * padding_groups t \<and> 0 < n \<and> 0 < block_size t
    \<and> logical = L * padding_groups t \<and> padded = B * block_size t * padding_groups t
    \<and> s = (c div n) * L + block_start B n (c mod n) * block_size t
    \<and> e = (c div n) * L + max (min (block_start B n (Suc (c mod n)) * block_size t) L)
            (block_start B n (c mod n) * block_size t)
    \<and> shard_padding_multiple t dvd pe - s
    \<and> (block_start B n (Suc (c mod n)) - block_start B n (c mod n)) * block_size t \<le> pe - s \<and> s \<le> e \<and> e \<le> pe
    \<and> pe < 2 ^ 32"
proof -
  define G where "G = padding_groups t"
  have G: "0 < G" "c < partitions t" "G dvd partitions t" "G dvd padded" "G dvd logical"
    using assms(1) by (auto simp: shard_bounds_def Let_def layout_fail_def is_multiple_of_dvd G_def split: if_splits)
  have pn: "partitions t = n * G" "logical = L * G" "padded = padded div G * G"
    using G by (simp_all add: n_def L_def G_def)
  have n: "0 < n" using G(2) pn(1) by (cases n) auto
  have bd: "block_size t dvd padded div G" "block_size t \<noteq> 0"
    using assms(1) by (auto simp: shard_bounds_def Let_def layout_fail_def is_multiple_of_dvd checked_div_def G_def split: if_splits)
  then have B: "padded div G = B * block_size t" by (simp add: B_def G_def)
  define sb where "sb = block_start B n (c mod n)"
  define k where "k = B div n + (if c mod n < B mod n then 1 else 0)"
  have sS: "block_start B n (Suc (c mod n)) = sb + k" by (simp add: sb_def k_def block_start_Suc)
  have "place_shard t (c div n) L sb k = Inr (s, e, pe)"
    using assms(1) bd
    by (simp add: shard_bounds_def Let_def layout_fail_def checked_div_def sb_def k_def block_start_def
        n_def L_def B_def G_def split: if_splits)
  from place_shard_Inr [OF this] show ?thesis
    using G(1,2) pn n bd(2) B unfolding sS sb_def [symmetric] G_def [symmetric]
    by - (elim conjE, simp add: add_mult_distrib)
qed

lemma interval_of:
  fixes f :: "nat \<Rightarrow> nat"
  assumes "\<And>k m. k \<le> m \<Longrightarrow> f k \<le> f m" and "f 0 \<le> y" and "y < f n"
  shows "\<exists>!k. k < n \<and> f k \<le> y \<and> y < f (Suc k)"
proof (rule ex_ex1I)
  show "\<exists>k. k < n \<and> f k \<le> y \<and> y < f (Suc k)"
    using assms(3)
  proof (induction n)
    case 0 then show ?case using assms(2) by simp
  next
    case (Suc n)
    show ?case
    proof (cases "y < f n")
      case True then show ?thesis using Suc.IH less_SucI by blast
    next
      case False then show ?thesis using Suc.prems by (intro exI [of _ n]) simp
    qed
  qed
next
  fix k m assume k: "k < n \<and> f k \<le> y \<and> y < f (Suc k)" and m: "m < n \<and> f m \<le> y \<and> y < f (Suc m)"
  have "\<not> Suc k \<le> m" "\<not> Suc m \<le> k" using assms(1) k m by (metis leD le_trans)+
  then show "k = m" by simp
qed

definition in_shard :: "axis_tiling \<Rightarrow> nat \<Rightarrow> nat \<Rightarrow> nat \<Rightarrow> nat \<Rightarrow> bool" where
  "in_shard t padded logical c x \<longleftrightarrow>
     (\<exists>s e pe. shard_bounds t padded logical c = Inr (s, e, pe) \<and> s \<le> x \<and> x < e)"

lemma axis_shards_cover:
  assumes all: "\<And>c. c < partitions t \<Longrightarrow> \<exists>s e pe. shard_bounds t padded logical c = Inr (s, e, pe)"
    and "logical \<le> padded" and x: "x < logical" and "0 < partitions t"
  shows "\<exists>!c. c < partitions t \<and> in_shard t padded logical c x"
proof -
  define G n L B where "G = padding_groups t" and "n = partitions t div padding_groups t"
    and "L = logical div padding_groups t" and "B = (padded div padding_groups t) div block_size t"
  obtain s0 e0 p0 where "shard_bounds t padded logical 0 = Inr (s0, e0, p0)" using all assms(4) by blast
  from shard_bounds_Inr [OF this] have G: "G > 0" "partitions t = n * G" "0 < n" "0 < block_size t"
    "logical = L * G" "padded = B * block_size t * G"
    by (simp_all add: G_def n_def L_def B_def)
  have L: "0 < L" using x G(5) by (cases L) auto
  have LB: "L \<le> B * block_size t" using assms(2) G(1,5,6) by (simp add: mult.assoc [symmetric])
  define y where "y = x mod L"
  define g where "g = x div L"
  have y: "y < L" and xg: "x = g * L + y" using L by (simp_all add: y_def g_def)
  have gG: "g < G" using x G(5) L unfolding g_def by (simp add: less_mult_imp_div_less mult.commute)
  let ?f = "\<lambda>k. block_start B n k * block_size t"
  have member: "in_shard t padded logical c x \<longleftrightarrow> c div n = g \<and> ?f (c mod n) \<le> y \<and> y < ?f (Suc (c mod n))"
    if c: "c < partitions t" for c
  proof -
    obtain s e pe where b: "shard_bounds t padded logical c = Inr (s, e, pe)" using all [OF c] by blast
    from shard_bounds_Inr [OF b] have
      s: "s = (c div n) * L + ?f (c mod n)" and
      e: "e = (c div n) * L + max (min (?f (Suc (c mod n))) L) (?f (c mod n))"
      by (simp_all add: n_def L_def B_def)
    have "s \<le> x \<and> x < e \<longleftrightarrow> c div n * L + ?f (c mod n) \<le> x \<and> x < c div n * L + min (?f (Suc (c mod n))) L"
      unfolding s e by (auto simp: max_def)
    also have "\<dots> \<longleftrightarrow> c div n = g \<and> ?f (c mod n) \<le> y \<and> y < ?f (Suc (c mod n))"
    proof
      assume a: "c div n * L + ?f (c mod n) \<le> x \<and> x < c div n * L + min (?f (Suc (c mod n))) L"
      then have "x = c div n * L + (x - c div n * L)" "x - c div n * L < L" by auto
      then have "x div L = c div n" "x mod L = x - c div n * L"
        by (metis L add.commute add_cancel_left_left div_less div_mult_self1 less_not_refl2, metis mod_less mod_mult_self3)
      then show "c div n = g \<and> ?f (c mod n) \<le> y \<and> y < ?f (Suc (c mod n))" using a by (auto simp: g_def y_def)
    next
      assume "c div n = g \<and> ?f (c mod n) \<le> y \<and> y < ?f (Suc (c mod n))"
      then show "c div n * L + ?f (c mod n) \<le> x \<and> x < c div n * L + min (?f (Suc (c mod n))) L"
        using y xg by auto
    qed
    finally show ?thesis using b by (auto simp: in_shard_def)
  qed
  have mono: "?f k \<le> ?f m" if "k \<le> m" for k m using block_start_mono [OF that] by simp
  have "y < ?f n" using y LB block_start_end [OF G(3)] by simp
  then obtain k where k: "k < n \<and> ?f k \<le> y \<and> y < ?f (Suc k)"
    and uniq: "\<forall>m. m < n \<and> ?f m \<le> y \<and> y < ?f (Suc m) \<longrightarrow> m = k"
    using interval_of [of ?f y n, OF mono] by (auto elim!: ex1E)
  show ?thesis
  proof (rule ex1I [of _ "g * n + k"])
    have "g * n + k < partitions t"
    proof -
      have "g * n + k < Suc g * n" using k by simp
      also have "\<dots> \<le> G * n" using gG by (intro mult_le_mono1) simp
      finally show ?thesis using G(2) by (simp add: mult.commute)
    qed
    then show "g * n + k < partitions t \<and> in_shard t padded logical (g * n + k) x"
      using member k by simp
  next
    fix c assume c: "c < partitions t \<and> in_shard t padded logical c x"
    then have cg: "c div n = g" "?f (c mod n) \<le> y" "y < ?f (Suc (c mod n))" using member by blast+
    moreover have "c mod n < n" using G(3) by simp
    ultimately have "c mod n = k" using uniq by blast
    with cg(1) show "c = g * n + k" by (metis div_mult_mod_eq)
  qed
qed

subsection \<open>The tile mapping\<close>

text \<open>Counting the tiles below \<open>m * w\<close> by block and offset.\<close>

lemma card_blocks:
  assumes "0 < (w :: nat)"
  shows "card {t. t < m * w \<and> R (t div w) \<and> S (t mod w)} = card {q. q < m \<and> R q} * card {r. r < w \<and> S r}"
proof -
  have "bij_betw (\<lambda>(q, r). q * w + r) ({q. q < m \<and> R q} \<times> {r. r < w \<and> S r})
      {t. t < m * w \<and> R (t div w) \<and> S (t mod w)}"
  proof (rule bij_betwI [where g = "\<lambda>t. (t div w, t mod w)"])
    show "(\<lambda>(q, r). q * w + r) \<in> {q. q < m \<and> R q} \<times> {r. r < w \<and> S r}
        \<rightarrow> {t. t < m * w \<and> R (t div w) \<and> S (t mod w)}"
    proof (clarsimp)
      fix q r assume "q < m" "r < w"
      then have "q * w + r < Suc q * w" "Suc q * w \<le> m * w" by (simp, intro mult_le_mono1, simp)
      then show "q * w + r < m * w" by linarith
    qed
    show "(\<lambda>t. (t div w, t mod w)) \<in> {t. t < m * w \<and> R (t div w) \<and> S (t mod w)}
        \<rightarrow> {q. q < m \<and> R q} \<times> {r. r < w \<and> S r}"
      using assms by (auto simp: less_mult_imp_div_less)
  qed (use assms in auto)
  from bij_betw_same_card [OF this] show ?thesis by (simp add: card_cartesian_product)
qed

definition digits_match :: "(nat \<times> nat \<times> nat) list \<Rightarrow> nat \<Rightarrow> bool" where
  "digits_match trs tile \<longleftrightarrow> (\<forall>(stride, parts, d)\<in>set trs. (tile div stride) mod parts = d)"

definition digit_product :: "(nat \<times> nat \<times> nat) list \<Rightarrow> nat" where
  "digit_product trs = prod_list (map (\<lambda>(stride, parts, d). parts) trs)"

lemma regular_count:
  assumes "regular_loop b (map (\<lambda>(stride, parts, d). (stride, parts)) trs)" and "0 < b"
    and "\<forall>(stride, parts, d)\<in>set trs. d < parts" and "b * digit_product trs dvd M"
  shows "card {t. t < M \<and> digits_match trs t} = M div digit_product trs
    \<and> (\<exists>R. \<forall>t. digits_match trs t \<longleftrightarrow> R (t div b))"
  using assms
proof (induction trs arbitrary: b)
  case Nil
  then show ?case by (auto simp: digits_match_def digit_product_def intro: exI [of _ "\<lambda>q. True"])
next
  case (Cons x trs)
  obtain stride p d where x: "x = (stride, p, d)" by (cases x)
  let ?P = "digit_product trs"
  have s: "stride = b" and rest: "regular_loop (b * p) (map (\<lambda>(stride, parts, d). (stride, parts)) trs)"
    using Cons.prems(1) by (auto simp: x checked_mul_def split: if_splits)
  have d: "d < p" using Cons.prems(3) by (simp add: x)
  then have p: "0 < p" by simp
  have dv: "b * p * ?P dvd M" using Cons.prems(4) by (simp add: digit_product_def x mult.assoc)
  have "0 < b * p" using p Cons.prems(2) by simp
  from Cons.IH [OF rest this _ dv] Cons.prems(3) obtain R where
    count: "card {t. t < M \<and> digits_match trs t} = M div ?P" and R: "\<And>t. digits_match trs t \<longleftrightarrow> R (t div (b * p))"
    by auto
  obtain m where M: "M = m * (b * p)" using dv by (metis dvd_def dvd_mult_left mult.commute)
  have match: "digits_match (x # trs) t \<longleftrightarrow> R (t div (b * p)) \<and> (t mod (b * p)) div b = d" for t
    using R by (auto simp: digits_match_def x s mod_mult2_eq Cons.prems(2))
  have "{r. r < b * p \<and> r div b = d} = {d * b..<d * b + b}"
  proof (intro set_eqI iffI)
    fix r assume "r \<in> {r. r < b * p \<and> r div b = d}"
    then have "r = d * b + r mod b" "r mod b < b" using Cons.prems(2) by (auto simp: div_mult_mod_eq)
    then show "r \<in> {d * b..<d * b + b}" unfolding atLeastLessThan_iff by linarith
  next
    fix r assume "r \<in> {d * b..<d * b + b}"
    then have r: "d * b \<le> r" "r < Suc d * b" by auto
    then have "r div b = d" by (intro div_nat_eqI) (auto simp: mult.commute)
    moreover have "r < b * p" using r d by (metis Suc_leI less_le_trans mult.commute mult_le_mono1)
    ultimately show "r \<in> {r. r < b * p \<and> r div b = d}" by simp
  qed
  then have low: "card {r. r < b * p \<and> r div b = d} = b" by simp
  have "card {t. t < M \<and> digits_match (x # trs) t} = card {q. q < m \<and> R q} * b"
    using card_blocks [OF \<open>0 < b * p\<close>, of m R "\<lambda>r. r div b = d"] by (simp add: match M low conj_assoc)
  moreover have "M div ?P = card {q. q < m \<and> R q} * (b * p)"
    using card_blocks [OF \<open>0 < b * p\<close>, of m R "\<lambda>r. True"] count by (simp add: R M)
  ultimately have "card {t. t < M \<and> digits_match (x # trs) t} = M div ?P div p"
    using p by simp
  also have "\<dots> = M div digit_product (x # trs)" by (simp add: digit_product_def x) (metis div_mult2_eq mult.commute)
  finally have "card {t. t < M \<and> digits_match (x # trs) t} = M div digit_product (x # trs)" .
  moreover have "digits_match (x # trs) t \<longleftrightarrow> (\<lambda>q. R (q div p) \<and> q mod p = d) (t div b)" for t
    using R by (auto simp: digits_match_def x s div_mult2_eq)
  ultimately show ?case by (intro conjI exI [of _ "\<lambda>q. R (q div p) \<and> q mod p = d"]) auto
qed

text \<open>The digits of the tiled axes, one triple per axis.\<close>

definition axis_digits :: "(axis_tiling \<times> nat) list \<Rightarrow> nat list \<Rightarrow> (nat \<times> nat \<times> nat) list" where
  "axis_digits axes ds = map (\<lambda>((t, stride), d). (stride, partitions t, d)) (zip axes ds)"

lemma regular_mapping_count:
  assumes reg: "has_regular_tile_mapping tiling strides" and len: "length strides = length (tiling_axes tiling)"
    and ds: "length ds = length strides" and bound: "\<forall>k<length ds. ds ! k < partitions (tiling_axes tiling ! k)"
    and M: "M = replicas tiling * prod_list (map partitions (tiling_axes tiling))"
  shows "card {t. t < M \<and> digits_match (axis_digits (zip (tiling_axes tiling) strides) ds) t} = replicas tiling"
proof -
  let ?trs = "axis_digits (zip (tiling_axes tiling) strides) ds"
  let ?f = "\<lambda>(stride, parts, d). (stride, parts)"
  let ?big = "filter (\<lambda>(stride, parts, d). parts > 1) ?trs"
  define trs where "trs = sort_key ?f ?big"
  have nth: "?trs ! k = (strides ! k, partitions (tiling_axes tiling ! k), ds ! k)" if "k < length ds" for k
    using that len ds by (simp add: axis_digits_def)
  have lt: "length ?trs = length ds" using len ds by (simp add: axis_digits_def)
  have good: "\<forall>(stride, parts, d)\<in>set ?trs. d < parts"
  proof -
    have "snd (snd x) < fst (snd x)" if "x \<in> set ?trs" for x
      using that bound nth lt by (auto simp: in_set_conv_nth)
    then show ?thesis by (simp add: case_prod_unfold)
  qed
  have match: "digits_match ?trs t \<longleftrightarrow> digits_match trs t" for t
  proof -
    have "(t div stride) mod parts = d" if "(stride, parts, d) \<in> set ?trs" "\<not> parts > 1" for stride parts d
    proof -
      have "d < parts" using good that(1) by auto
      then have "parts = 1" "d = 0" using that(2) by simp_all
      then show ?thesis by simp
    qed
    then show ?thesis by (fastforce simp: digits_match_def trs_def)
  qed
  have prod: "prod_list (map partitions (tiling_axes tiling)) = digit_product trs"
  proof -
    have "map partitions (tiling_axes tiling) = map (\<lambda>(stride, parts, d). parts) ?trs"
      using len ds nth lt by (intro nth_equalityI) (simp_all add: case_prod_unfold)
    moreover have "prod_list (map (\<lambda>(stride, parts, d). parts) xs)
        = prod_list (map (\<lambda>(stride, parts, d). parts) (filter (\<lambda>(stride, parts, d). parts > 1) xs))"
      if "\<forall>(stride, parts, d)\<in>set xs. d < parts" for xs :: "(nat \<times> nat \<times> nat) list"
      using that
    proof (induction xs)
      case (Cons x xs)
      obtain s p d where "x = (s, p, d)" by (cases x)
      moreover have "p = 1" if "\<not> p > 1" using that Cons.prems calculation by auto
      ultimately show ?case using Cons by auto
    qed simp
    moreover have "prod_list (map (\<lambda>(stride, parts, d). parts) (sort_key ?f xs)) = prod_list (map (\<lambda>(stride, parts, d). parts) xs)"
      for xs :: "(nat \<times> nat \<times> nat) list"
      by (simp only: prod_mset_prod_list [symmetric] mset_map mset_sort)
    ultimately show ?thesis using good unfolding digit_product_def trs_def by metis
  qed
  have digits: "sort (map (\<lambda>(t, stride). (stride, partitions t))
      (filter (\<lambda>(t, _). partitions t > 1) (zip (tiling_axes tiling) strides))) = map ?f trs"
  proof -
    have "map ?f ?big = map (\<lambda>(t, stride). (stride, partitions t))
      (filter (\<lambda>(t, _). partitions t > 1) (zip (tiling_axes tiling) strides))"
      using len ds
    proof -
      have "map ?f (filter (\<lambda>(stride, parts, d). parts > 1) (axis_digits axes ds))
          = map (\<lambda>(t, stride). (stride, partitions t)) (filter (\<lambda>(t, _). partitions t > 1) axes)"
        if "length axes = length ds" for axes ds
        using that by (induction axes ds rule: list_induct2) (auto simp: axis_digits_def)
      then show ?thesis using len ds by simp
    qed
    moreover have "sort (map ?f ?big) = map ?f (sort_key ?f ?big)" by (rule properties_for_sort) simp_all
    ultimately show ?thesis unfolding trs_def by (simp only:)
  qed
  show ?thesis
  proof (cases trs)
    case Nil
    then have "digit_product trs = 1" by (simp add: digit_product_def)
    moreover have "digits_match ?trs t" for t by (simp only: match) (simp add: Nil digits_match_def)
    ultimately show ?thesis using M prod by simp
  next
    case (Cons x xs)
    obtain base p d where x: "x = (base, p, d)" by (cases x)
    have r: "base \<noteq> 0" "base dvd replicas tiling" "regular_loop base (map ?f trs)"
      using reg unfolding has_regular_tile_mapping_def digits by (auto simp: Cons x is_multiple_of_dvd simp del: regular_loop.simps split: if_splits)
    have g: "\<forall>(stride, parts, d)\<in>set trs. d < parts" using good by (auto simp: trs_def)
    have "base * digit_product trs dvd M" using r(2) by (simp add: M prod mult_dvd_mono)
    from regular_count [OF r(3) _ g this] r(1) have "card {t. t < M \<and> digits_match trs t} = M div digit_product trs" by simp
    moreover have "0 < digit_product trs"
    proof -
      have "\<forall>x\<in>set trs. 0 < fst (snd x)" using g by fastforce
      then show ?thesis by (induction trs) (auto simp: digit_product_def case_prod_unfold)
    qed
    ultimately show ?thesis by (simp add: match M prod)
  qed
qed

text \<open>The exhaustive count: every tile adds one copy to the index of its coordinate.\<close>

lemma coordinate_loop_Some:
  "coordinate_loop tile c axes = Some c' \<Longrightarrow>
   c' = mixed_radix c (map (\<lambda>(t, stride). (partitions t, (tile div stride) mod partitions t)) axes)"
  by (induction tile c axes rule: coordinate_loop.induct) (auto simp: arith_defs split: if_splits)

lemma count_copies_Inr:
  "count_copies axes tls copies = Inr copies' \<Longrightarrow>
   length copies' = length copies
   \<and> (\<forall>tile\<in>set tls. \<exists>c<length copies. coordinate_loop tile 0 axes = Some c)
   \<and> (\<forall>c<length copies. copies' ! c = copies ! c + length (filter (\<lambda>tile. coordinate_loop tile 0 axes = Some c) tls))"
proof (induction axes tls copies rule: count_copies.induct)
  case (1 axes copies) then show ?case by simp
next
  case (2 axes tile tls copies)
  from "2.prems" obtain c where c: "coordinate_loop tile 0 axes = Some c" "c < length copies"
    and rest: "count_copies axes tls (copies[c := copies ! c + 1]) = Inr copies'"
    by (auto simp: res_simps arith_defs split: if_splits)
  have "checked_add 16 (copies ! c) 1 = Some (copies ! c + 1)"
    using "2.prems" c by (auto simp: res_simps arith_defs split: if_splits)
  then have "length copies' = length copies
      \<and> (\<forall>tile\<in>set tls. \<exists>c<length copies. coordinate_loop tile 0 axes = Some c)
      \<and> (\<forall>k<length copies. copies' ! k
           = copies[c := copies ! c + 1] ! k + length (filter (\<lambda>tile. coordinate_loop tile 0 axes = Some k) tls))"
    using "2.IH" [of c "copies ! c + 1"] c rest by (simp del: One_nat_def)
  then show ?case using c by (auto simp: nth_list_update)
qed

definition tile_digits :: "(axis_tiling \<times> nat) list \<Rightarrow> nat \<Rightarrow> nat list" where
  "tile_digits axes tile = map (\<lambda>(t, stride). (tile div stride) mod partitions t) axes"

lemma digits_match_iff:
  "length ds = length axes \<Longrightarrow> digits_match (axis_digits axes ds) tile \<longleftrightarrow> tile_digits axes tile = ds"
proof (induction ds axes rule: list_induct2)
  case Nil then show ?case by (simp add: digits_match_def axis_digits_def tile_digits_def)
next
  case (Cons d ds x axes)
  obtain t stride where x: "x = (t, stride)" by (cases x)
  have "digits_match (axis_digits (x # axes) (d # ds)) tile
      \<longleftrightarrow> (tile div stride) mod partitions t = d \<and> digits_match (axis_digits axes ds) tile"
    by (simp add: digits_match_def axis_digits_def x)
  then show ?case using Cons.IH by (simp add: tile_digits_def x)
qed

lemma exhaustive_mapping_count:
  assumes count: "count_copies axes [0..<M] (replicate (M div R) 0) = Inr copies"
    and all: "\<forall>n\<in>set copies. n = R" and M: "M = R * prod_list (map (\<lambda>(t, stride). partitions t) axes)" and R: "0 < R"
    and len: "length ds = length axes" and bound: "\<forall>k<length ds. ds ! k < partitions (fst (axes ! k))"
  shows "card {t. t < M \<and> tile_digits axes t = ds} = R"
proof -
  let ?ps = "map (\<lambda>(t, stride). partitions t) axes"
  let ?idx = "mixed_radix 0 (zip ?ps ds)"
  note cc = count_copies_Inr [OF count]
  have psnth: "?ps ! k = partitions (fst (axes ! k))" if "k < length axes" for k
    using that by (simp add: case_prod_unfold)
  have "\<forall>(p, d)\<in>set (zip ?ps ds). d < p"
    using bound len psnth by (force simp: in_set_zip)
  from mixed_radix_bound [OF this] have idx: "?idx < M div R" using len M R by simp
  have pairs: "map (\<lambda>(t, stride). (partitions t, (tile div stride) mod partitions t)) axes = zip ?ps (tile_digits axes tile)" for tile
    by (simp add: tile_digits_def zip_map_map zip_same_conv_map case_prod_unfold)
  have pos: "0 < partitions (fst (axes ! k))" if "k < length axes" for k
    using bound len that by (metis gr_zeroI not_less_zero)
  have dbound: "\<forall>k<length ?ps. tile_digits axes tile ! k < ?ps ! k \<and> ds ! k < ?ps ! k" for tile
  proof (intro allI impI)
    fix k assume "k < length ?ps"
    then have k: "k < length axes" by simp
    then show "tile_digits axes tile ! k < ?ps ! k \<and> ds ! k < ?ps ! k"
      using pos [OF k] bound len by (simp add: tile_digits_def psnth case_prod_unfold)
  qed
  have iff: "coordinate_loop tile 0 axes = Some ?idx \<longleftrightarrow> tile_digits axes tile = ds" if t: "tile < M" for tile
  proof -
    have "tile \<in> set [0..<M]" using t by simp
    then obtain c where c: "coordinate_loop tile 0 axes = Some c" using cc by blast
    have cm: "c = mixed_radix 0 (zip ?ps (tile_digits axes tile))" using coordinate_loop_Some [OF c] pairs by simp
    have "tile_digits axes tile = ds" if "c = ?idx"
      by (rule mixed_radix_inj [of _ ?ps]) (use that cm len dbound in \<open>simp_all add: tile_digits_def\<close>)
    then show ?thesis using c cm by auto
  qed
  have lc: "length copies = M div R" using cc by simp
  have "copies ! ?idx = length (filter (\<lambda>tile. coordinate_loop tile 0 axes = Some ?idx) [0..<M])"
    using cc idx by simp
  moreover have "copies ! ?idx \<in> set copies" using idx lc by simp
  ultimately have "R = length (filter (\<lambda>tile. coordinate_loop tile 0 axes = Some ?idx) [0..<M])" using all by simp
  also have "\<dots> = card (set (filter (\<lambda>tile. coordinate_loop tile 0 axes = Some ?idx) [0..<M]))"
    by (rule distinct_card [symmetric]) simp
  also have "set (filter (\<lambda>tile. coordinate_loop tile 0 axes = Some ?idx) [0..<M]) = {t. t < M \<and> tile_digits axes t = ds}"
    using iff by auto
  finally show ?thesis by simp
qed

subsection \<open>Padding\<close>

lemma pad_axis_Inr:
  assumes "pad_axis (u, dims, used) t = Inr (u', dims', used')"
  shows "\<exists>a. resolve_axis (tiling_axis t) (length dims) = Inr a \<and> a \<notin> set used \<and> used' = used @ [a]
    \<and> u' = u * partitions t \<and> 0 < partitions t \<and> length dims' = length dims
    \<and> (\<forall>x<length dims. dims ! x \<le> dims' ! x)"
proof -
  obtain a where a: "resolve_axis (tiling_axis t) (length dims) = Inr a"
    using assms by (auto simp: pad_axis_def res_simps lift_layout_def layout_fail_def split: sum.splits if_splits)
  let ?g = "padding_groups t"
  have basic: "a \<notin> set used" "used' = used @ [a]" "u' = u * partitions t" "0 < partitions t" "?g dvd dims ! a"
    using assms a
    by (auto simp: pad_axis_def res_simps lift_layout_def layout_fail_def checked_mul_def Let_def is_multiple_of_dvd
        split: if_splits)
  have step: "dims' = dims \<or> (\<exists>w d. checked_next_multiple_of 32 (dims ! a div ?g) (padding_multiple t) = Some w
      \<and> checked_mul 32 w ?g = Some d \<and> dims' = dims[a := d])"
    using assms a
    by (auto simp: pad_axis_def res_simps lift_layout_def layout_fail_def Let_def split: if_splits padding.splits)
  have "dims ! x \<le> dims' ! x" if x: "x < length dims" for x
    using step
  proof (elim disjE exE conjE)
    fix w d assume w: "checked_next_multiple_of 32 (dims ! a div ?g) (padding_multiple t) = Some w"
      and d: "checked_mul 32 w ?g = Some d" and dd: "dims' = dims[a := d]"
    have "dims ! a div ?g \<le> w" using checked_next_multiple_of_Some [OF w] by simp
    then have "dims ! a div ?g * ?g \<le> w * ?g" by (rule mult_le_mono1)
    then have "dims ! a \<le> d" using d basic(5) by (simp add: checked_mul_def split: if_splits)
    then show ?thesis using x by (cases "x = a") (simp_all add: dd)
  qed simp
  moreover have "length dims' = length dims" using step by auto
  ultimately show ?thesis using a basic by blast
qed

lemma pad_axes_Inr:
  "pad_axes (u, dims, used) ts = Inr (u', dims', used') \<Longrightarrow> distinct used \<Longrightarrow>
   \<exists>new. used' = used @ new \<and> distinct used' \<and> length new = length ts
     \<and> (\<forall>k<length ts. resolve_axis (tiling_axis (ts ! k)) (length dims) = Inr (new ! k) \<and> 0 < partitions (ts ! k))
     \<and> u' = u * prod_list (map partitions ts) \<and> length dims' = length dims
     \<and> (\<forall>x<length dims. dims ! x \<le> dims' ! x)"
proof (induction ts arbitrary: u dims used)
  case Nil then show ?case by simp
next
  case (Cons t ts)
  then obtain st1 where "pad_axis (u, dims, used) t = Inr st1" "pad_axes st1 ts = Inr (u', dims', used')"
    by (auto simp: res_simps)
  moreover obtain u1 dims1 used1 where "st1 = (u1, dims1, used1)" by (cases st1)
  ultimately have p: "pad_axis (u, dims, used) t = Inr (u1, dims1, used1)"
    and rest: "pad_axes (u1, dims1, used1) ts = Inr (u', dims', used')" by simp_all
  from pad_axis_Inr [OF p] obtain a where a: "resolve_axis (tiling_axis t) (length dims) = Inr a" "a \<notin> set used"
    "used1 = used @ [a]" "u1 = u * partitions t" "0 < partitions t" "length dims1 = length dims"
    "\<forall>x<length dims. dims ! x \<le> dims1 ! x" by blast
  have "distinct used1" using a Cons.prems(2) by simp
  from Cons.IH [OF rest this] obtain new where n: "used' = used1 @ new" "distinct used'" "length new = length ts"
    "\<forall>k<length ts. resolve_axis (tiling_axis (ts ! k)) (length dims1) = Inr (new ! k) \<and> 0 < partitions (ts ! k)"
    "u' = u1 * prod_list (map partitions ts)" "length dims' = length dims1" "\<forall>x<length dims1. dims1 ! x \<le> dims' ! x"
    by blast
  have "\<forall>k<length (t # ts). resolve_axis (tiling_axis ((t # ts) ! k)) (length dims) = Inr ((a # new) ! k)
      \<and> 0 < partitions ((t # ts) ! k)"
    using a(1,5,6) n(4) by (auto simp: less_Suc_eq_0_disj)
  moreover have "\<forall>x<length dims. dims ! x \<le> dims' ! x" using a(6,7) n(7) by (metis le_trans)
  ultimately show ?case using a n by (intro exI [of _ "a # new"]) (simp add: mult.assoc)
qed

subsection \<open>Ownership\<close>

lemma axis_strides_length: "axis_strides_loop p ts = Inr strides \<Longrightarrow> length strides = length ts"
  by (induction p ts arbitrary: strides rule: axis_strides_loop.induct) (auto simp: res_simps Let_def split: if_splits)

lemma padded_shape_Inr:
  assumes padded: "padded_shape l shape = Inr padded" and grain: "linear_grain (layout_tiling l) = None"
  defines "axes \<equiv> tiling_axes (layout_tiling l)" and "R \<equiv> replicas (layout_tiling l)"
    and "M \<equiv> tiling_tiles (layout_tiling l)"
  shows "\<exists>strides used. axis_strides (layout_tiling l) = Inr strides \<and> length strides = length axes \<and> 0 < R
    \<and> length padded = length shape \<and> (\<forall>a<length shape. shape ! a \<le> padded ! a)
    \<and> distinct used \<and> length used = length axes
    \<and> (\<forall>k<length axes. resolve_axis (tiling_axis (axes ! k)) (length shape) = Inr (used ! k) \<and> 0 < partitions (axes ! k))
    \<and> (\<forall>ds. length ds = length axes \<longrightarrow> (\<forall>k<length axes. ds ! k < partitions (axes ! k)) \<longrightarrow>
         card {t. t < M \<and> tile_digits (zip axes strides) t = ds} = R)"
proof -
  have R: "0 < R" using padded by (auto simp: padded_shape_def Let_def layout_fail_def R_def split: if_splits)
  from padded grain obtain u used where pa: "pad_axes (R, shape, []) axes = Inr (u, padded, used)" and u: "u = M"
    by (auto simp: padded_shape_def Let_def layout_fail_def res_simps axes_def R_def M_def split: if_splits)
  from pad_axes_Inr [OF pa] have new: "distinct used" "length used = length axes" "M = R * prod_list (map partitions axes)"
    "length padded = length shape" "\<forall>a<length shape. shape ! a \<le> padded ! a"
    "\<forall>k<length axes. resolve_axis (tiling_axis (axes ! k)) (length shape) = Inr (used ! k) \<and> 0 < partitions (axes ! k)"
    using u by auto
  from padded grain pa u obtain strides where st: "axis_strides (layout_tiling l) = Inr strides"
    and ok: "has_regular_tile_mapping (layout_tiling l) strides \<or>
      (\<exists>copies. count_copies (zip axes strides) [0..<M] (replicate (M div R) 0) = Inr copies \<and> (\<forall>n\<in>set copies. n = R))"
    by (auto simp: padded_shape_def Let_def layout_fail_def res_simps lift_layout_def axes_def R_def M_def list_ex_iff
        split: if_splits sum.splits)
  have len: "length strides = length axes" using axis_strides_length st by (simp add: axis_strides_def axes_def)
  have "card {t. t < M \<and> tile_digits (zip axes strides) t = ds} = R"
    if ds: "length ds = length axes" "\<forall>k<length axes. ds ! k < partitions (axes ! k)" for ds
    using ok
  proof
    assume "has_regular_tile_mapping (layout_tiling l) strides"
    from regular_mapping_count [OF this] len ds new(3) show ?thesis
      by (simp add: digits_match_iff axes_def R_def)
  next
    assume "\<exists>copies. count_copies (zip axes strides) [0..<M] (replicate (M div R) 0) = Inr copies \<and> (\<forall>n\<in>set copies. n = R)"
    then obtain copies where c: "count_copies (zip axes strides) [0..<M] (replicate (M div R) 0) = Inr copies"
      "\<forall>n\<in>set copies. n = R" by blast
    have "map (\<lambda>(t, stride). partitions t) (zip axes strides) = map partitions axes"
      using len by (intro nth_equalityI) simp_all
    then have "M = R * prod_list (map (\<lambda>(t, stride). partitions t) (zip axes strides))" using new(3) by simp
    from exhaustive_mapping_count [OF c this R] len ds show ?thesis by simp
  qed
  then show ?thesis using st len R new by blast
qed

lemma resolve_one_cases:
  assumes one: "resolve_one l shape strides (a, pe) = Inr ra" and len: "length strides = length (tiling_axes (layout_tiling l))"
  defines "axes \<equiv> tiling_axes (layout_tiling l)"
  obtains (tiled) k where "k < length axes" "resolve_axis (tiling_axis (axes ! k)) (length shape) = Inr a"
      "axis_stride ra = strides ! k" "length (axis_partitions ra) = partitions (axes ! k)"
      "\<And>c. c < partitions (axes ! k) \<Longrightarrow> \<exists>p. shard_bounds (axes ! k) pe (shape ! a) c
          = Inr (extent_start (axis_partitions ra ! c), logical_end (axis_partitions ra ! c), p)"
  | (whole) "\<forall>k<length axes. resolve_axis (tiling_axis (axes ! k)) (length shape) \<noteq> Inr a"
      "length (axis_partitions ra) = 1" "extent_start (axis_partitions ra ! 0) = 0"
      "logical_end (axis_partitions ra ! 0) = shape ! a"
proof (cases "find (\<lambda>(t, _). resolve_axis (tiling_axis t) (length shape) = Inr a) (zip axes strides)")
  case None
  have "\<forall>k<length axes. resolve_axis (tiling_axis (axes ! k)) (length shape) \<noteq> Inr a"
  proof (intro allI impI)
    fix k assume "k < length axes"
    then have "(axes ! k, strides ! k) \<in> set (zip axes strides)" using len by (auto simp: set_zip axes_def)
    then show "resolve_axis (tiling_axis (axes ! k)) (length shape) \<noteq> Inr a" using None by (auto simp: find_None_iff)
  qed
  moreover have "ra = \<lparr>axis_partitions = [\<lparr>extent_axis = a, extent_start = 0, logical_end = shape ! a,
                                   physical_end = pe\<rparr>], axis_stride = 1\<rparr>"
    using one None by (auto simp: resolve_one_def axes_def res_simps try_from_def split: if_splits)
  ultimately show thesis by (intro whole) simp_all
next
  case (Some x)
  obtain t stride where x: "x = (t, stride)" by (cases x)
  from Some obtain k where k: "k < length (zip axes strides)" "zip axes strides ! k = (t, stride)"
    "resolve_axis (tiling_axis t) (length shape) = Inr a"
    by (auto simp: find_Some_iff x)
  then have kk: "k < length axes" "axes ! k = t" "strides ! k = stride" using len by (auto simp: axes_def)
  let ?f = "\<lambda>coordinate. res_bind (shard_bounds t pe (shape ! a) coordinate) (\<lambda>(s, e, pe).
      Inr \<lparr>extent_axis = a, extent_start = s, logical_end = e, physical_end = pe\<rparr>)"
  from one Some obtain parts where tr: "traverse ?f [0..<partitions t] = Inr parts"
    and ra: "ra = \<lparr>axis_partitions = parts, axis_stride = stride\<rparr>"
    by (auto simp: resolve_one_def axes_def x res_simps try_from_def split: if_splits)
  have bounds: "\<exists>p. shard_bounds t pe (shape ! a) c = Inr (extent_start (parts ! c), logical_end (parts ! c), p)"
    if c: "c < partitions t" for c
  proof -
    have "?f c = Inr (parts ! c)" using traverse_nth [OF tr, of c] c by simp
    then obtain s e q where q: "shard_bounds t pe (shape ! a) c = Inr (s, e, q)"
      "parts ! c = \<lparr>extent_axis = a, extent_start = s, logical_end = e, physical_end = q\<rparr>"
      by (auto simp: res_simps)
    then show ?thesis by simp
  qed
  have "length parts = partitions t" using traverse_length [OF tr] by simp
  then show thesis using kk k(3) bounds by (intro tiled [of k]) (simp_all add: ra)
qed

lemma resolve_Inr:
  assumes "resolve l shape = Inr r" and "resolved_grain r = None"
  obtains padded strides where "padded_shape l shape = Inr padded" "linear_grain (layout_tiling l) = None"
    "axis_strides (layout_tiling l) = Inr strides"
    "traverse (resolve_one l shape strides) (enumerate 0 padded) = Inr (resolved_axes r)"
    "resolved_tiles r = tiling_tiles (layout_tiling l)" "resolved_replicas r = replicas (layout_tiling l)"
    "resolved_shape r = shape"
proof -
  from assms have g: "linear_grain (layout_tiling l) = None" by (auto simp: resolve_def Let_def res_simps)
  with assms show thesis
    by (auto simp: resolve_def Let_def res_simps lift_layout_def split: sum.splits intro: that)
qed

definition owns :: "resolved_layout \<Rightarrow> nat list \<Rightarrow> nat \<Rightarrow> bool" where
  "owns r v tile \<longleftrightarrow> tile < resolved_tiles r
     \<and> (\<forall>a<length (resolved_shape r). extent_start (extent (resolved_axes r ! a) tile) \<le> v ! a
          \<and> v ! a < logical_end (extent (resolved_axes r ! a) tile))"

lemma owners_count:
  assumes res: "resolve l shape = Inr r" and grain: "resolved_grain r = None"
    and v: "\<forall>a<length shape. v ! a < shape ! a"
  shows "card {tile. owns r v tile} = resolved_replicas r"
proof -
  from resolve_Inr [OF res grain] obtain padded strides where p: "padded_shape l shape = Inr padded"
    "linear_grain (layout_tiling l) = None" "axis_strides (layout_tiling l) = Inr strides"
    and tr: "traverse (resolve_one l shape strides) (enumerate 0 padded) = Inr (resolved_axes r)"
    and r: "resolved_tiles r = tiling_tiles (layout_tiling l)" "resolved_replicas r = replicas (layout_tiling l)"
      "resolved_shape r = shape" by blast
  define axes M where "axes = tiling_axes (layout_tiling l)" and "M = tiling_tiles (layout_tiling l)"
  from padded_shape_Inr [OF p(1,2), folded axes_def M_def] p(3) obtain used where
    len: "length strides = length axes" "length padded = length shape" "distinct used" "length used = length axes"
    and le: "\<forall>a<length shape. shape ! a \<le> padded ! a"
    and used: "\<forall>k<length axes. resolve_axis (tiling_axis (axes ! k)) (length shape) = Inr (used ! k) \<and> 0 < partitions (axes ! k)"
    and count: "\<And>ds. length ds = length axes \<Longrightarrow> (\<forall>k<length axes. ds ! k < partitions (axes ! k)) \<Longrightarrow>
         card {t. t < M \<and> tile_digits (zip axes strides) t = ds} = replicas (layout_tiling l)"
    by auto
  have one: "resolve_one l shape strides (a, padded ! a) = Inr (resolved_axes r ! a)" if "a < length shape" for a
    using traverse_nth [OF tr, of a] that len by (simp add: nth_enumerate_eq)
  have in_rank: "used ! k < length shape" if "k < length axes" for k
  proof -
    have "resolve_axis (tiling_axis (axes ! k)) (length shape) = Inr (used ! k)" using used that by blast
    then show ?thesis by (cases "tiling_axis (axes ! k)") (auto split: if_splits)
  qed
  have tiled: "axis_stride (resolved_axes r ! (used ! k)) = strides ! k
      \<and> length (axis_partitions (resolved_axes r ! (used ! k))) = partitions (axes ! k)
      \<and> (\<forall>c<partitions (axes ! k). \<exists>q. shard_bounds (axes ! k) (padded ! (used ! k)) (shape ! (used ! k)) c
          = Inr (extent_start (axis_partitions (resolved_axes r ! (used ! k)) ! c),
                 logical_end (axis_partitions (resolved_axes r ! (used ! k)) ! c), q))"
    if k: "k < length axes" for k
    using one [OF in_rank [OF k]] len(1) [unfolded axes_def]
  proof (cases rule: resolve_one_cases)
    case (tiled j)
    have "used ! j = used ! k" using used tiled(1,2) by (simp add: axes_def)
    then have "j = k" using len(3,4) k tiled(1) by (simp add: nth_eq_iff_index_eq axes_def)
    then show ?thesis using tiled(3-5) by (simp add: axes_def)
  next
    case whole
    from whole(1) have "resolve_axis (tiling_axis (axes ! k)) (length shape) \<noteq> Inr (used ! k)"
      using k unfolding axes_def by blast
    then show ?thesis using used k by blast
  qed
  let ?in = "\<lambda>k c. in_shard (axes ! k) (padded ! (used ! k)) (shape ! (used ! k)) c (v ! (used ! k))"
  have "\<exists>c. c < partitions (axes ! k) \<and> ?in k c \<and> (\<forall>c'<partitions (axes ! k). ?in k c' \<longrightarrow> c' = c)" if k: "k < length axes" for k
  proof -
    have "\<exists>!c. c < partitions (axes ! k) \<and> ?in k c"
    proof (rule axis_shards_cover)
      show "\<exists>s e pe. shard_bounds (axes ! k) (padded ! (used ! k)) (shape ! (used ! k)) c = Inr (s, e, pe)"
        if "c < partitions (axes ! k)" for c using tiled [OF k] that by blast
      show "shape ! (used ! k) \<le> padded ! (used ! k)" "v ! (used ! k) < shape ! (used ! k)"
        using le v in_rank [OF k] by blast+
      show "0 < partitions (axes ! k)" using used k by blast
    qed
    then show ?thesis by blast
  qed
  then obtain f where f: "\<And>k. k < length axes \<Longrightarrow> f k < partitions (axes ! k) \<and> ?in k (f k)
      \<and> (\<forall>c'<partitions (axes ! k). ?in k c' \<longrightarrow> c' = f k)" by metis
  define ds where "ds = map f [0..<length axes]"
  have pick: "?in k c \<longleftrightarrow> extent_start (axis_partitions (resolved_axes r ! (used ! k)) ! c) \<le> v ! (used ! k)
      \<and> v ! (used ! k) < logical_end (axis_partitions (resolved_axes r ! (used ! k)) ! c)"
    if k: "k < length axes" and c: "c < partitions (axes ! k)" for k c
  proof -
    obtain q where "shard_bounds (axes ! k) (padded ! (used ! k)) (shape ! (used ! k)) c
          = Inr (extent_start (axis_partitions (resolved_axes r ! (used ! k)) ! c),
                 logical_end (axis_partitions (resolved_axes r ! (used ! k)) ! c), q)"
      using tiled [OF k] c by blast
    then show ?thesis by (simp add: in_shard_def)
  qed
  have ext: "extent (resolved_axes r ! (used ! k)) tile
      = axis_partitions (resolved_axes r ! (used ! k)) ! ((tile div strides ! k) mod partitions (axes ! k))"
    if "k < length axes" for k tile using tiled [OF that] by (simp add: extent_def)
  have digit: "tile_digits (zip axes strides) tile ! k = (tile div strides ! k) mod partitions (axes ! k)"
    if "k < length axes" for k tile using that len(1) by (simp add: tile_digits_def)
  have "owns r v tile \<longleftrightarrow> tile < M \<and> tile_digits (zip axes strides) tile = ds" for tile
  proof
    assume o: "owns r v tile"
    have "tile_digits (zip axes strides) tile ! k = ds ! k" if k: "k < length axes" for k
    proof -
      let ?c = "(tile div strides ! k) mod partitions (axes ! k)"
      have c: "?c < partitions (axes ! k)" using used k by simp
      have "extent_start (extent (resolved_axes r ! (used ! k)) tile) \<le> v ! (used ! k)
          \<and> v ! (used ! k) < logical_end (extent (resolved_axes r ! (used ! k)) tile)"
        using o in_rank [OF k] unfolding owns_def r by blast
      then have "?in k ?c" unfolding pick [OF k c] ext [OF k] .
      then show ?thesis using f [OF k] c k by (simp add: digit ds_def)
    qed
    then have "tile_digits (zip axes strides) tile = ds"
      using len(1) by (intro nth_equalityI) (simp_all add: tile_digits_def ds_def)
    then show "tile < M \<and> tile_digits (zip axes strides) tile = ds" using o by (simp add: owns_def r M_def)
  next
    assume d: "tile < M \<and> tile_digits (zip axes strides) tile = ds"
    have "extent_start (extent (resolved_axes r ! a) tile) \<le> v ! a \<and> v ! a < logical_end (extent (resolved_axes r ! a) tile)"
      if a: "a < length shape" for a
      using one [OF a] len(1) [unfolded axes_def]
    proof (cases rule: resolve_one_cases)
      case (tiled k)
      then have k: "k < length axes" and ak: "a = used ! k" using used by (auto simp: axes_def)
      have "(tile div strides ! k) mod partitions (axes ! k) = f k" using d digit [OF k, of tile] k by (simp add: ds_def)
      then show ?thesis using f [OF k] pick [OF k, of "f k"] by (simp add: ak ext [OF k])
    next
      case whole
      then show ?thesis using v a by (simp add: extent_def)
    qed
    then show "owns r v tile" using d by (simp add: owns_def r M_def)
  qed
  moreover have "card {t. t < M \<and> tile_digits (zip axes strides) t = ds} = replicas (layout_tiling l)"
    by (rule count) (use f in \<open>simp_all add: ds_def\<close>)
  ultimately show ?thesis by (simp add: r)
qed

subsection \<open>Linear ownership\<close>

text \<open>The flat (row-major) index of the first element of a region, and the elements of a region
  that is one row fragment.\<close>

definition flat_start :: "tensor_shape \<Rightarrow> shard_extent list \<Rightarrow> nat" where
  "flat_start shape region = mixed_radix 0 (zip shape (map extent_start region))"

definition fragment_elements :: "tensor_shape \<Rightarrow> shard_extent list \<Rightarrow> nat list" where
  "fragment_elements shape region =
     [flat_start shape region..<flat_start shape region + (logical_end (last region) - extent_start (last region))]"

definition row_region :: "tensor_shape \<Rightarrow> shard_extent list \<Rightarrow> bool" where
  "row_region shape region \<longleftrightarrow>
     length region = length shape \<and> map extent_axis region = [0..<length shape]
   \<and> (\<forall>e\<in>set (butlast region). logical_end e = extent_start e + 1 \<and> physical_end e = extent_start e + 1)"

lemma mixed_radix_snoc: "mixed_radix c (pds @ [(p, d)]) = mixed_radix c pds * p + d"
  by (induction c pds rule: mixed_radix.induct) auto

lemma region_loop_Inr:
  assumes "n \<le> length shape" and "\<forall>d\<in>set shape. 0 < d \<and> d < 2 ^ 32" and "length shape \<le> 2 ^ 16"
  shows "\<exists>region. region_loop shape (rev [0..<n]) row = Inr region \<and> length region = n
    \<and> map extent_axis (rev region) = [0..<n]
    \<and> (\<forall>e\<in>set region. logical_end e = extent_start e + 1 \<and> physical_end e = extent_start e + 1)
    \<and> mixed_radix 0 (zip (take n shape) (map extent_start (rev region))) = row mod prod_list (take n shape)"
  using assms(1)
proof (induction n arbitrary: row)
  case 0 then show ?case by simp
next
  case (Suc n)
  have n: "n < length shape" using Suc.prems by simp
  let ?p = "shape ! n"
  have p: "0 < ?p" "?p < 2 ^ 32" using assms(2) n by simp_all
  from Suc.IH [of "row div ?p"] n obtain region where
    reg: "region_loop shape (rev [0..<n]) (row div ?p) = Inr region" "length region = n"
    "map extent_axis (rev region) = [0..<n]"
    "\<forall>e\<in>set region. logical_end e = extent_start e + 1 \<and> physical_end e = extent_start e + 1"
    "mixed_radix 0 (zip (take n shape) (map extent_start (rev region))) = (row div ?p) mod prod_list (take n shape)"
    by auto
  let ?e = "\<lparr>extent_axis = n, extent_start = row mod ?p, logical_end = row mod ?p + 1, physical_end = row mod ?p + 1\<rparr>"
  have "row mod ?p < 2 ^ 32" using p by (meson less_trans mod_less_divisor)
  moreover have "n < 2 ^ 16" using n assms(3) by simp
  ultimately have loop: "region_loop shape (rev [0..<Suc n]) row = Inr (?e # region)"
    using p reg(1) by (simp add: try_from_def Let_def)
  have tk: "take (Suc n) shape = take n shape @ [?p]" using n by (simp add: take_Suc_conv_app_nth)
  have "zip (take (Suc n) shape) (map extent_start (rev (?e # region)))
      = zip (take n shape) (map extent_start (rev region)) @ [(?p, row mod ?p)]"
    using n reg(2) by (simp add: tk)
  then have "mixed_radix 0 (zip (take (Suc n) shape) (map extent_start (rev (?e # region))))
      = ((row div ?p) mod prod_list (take n shape)) * ?p + row mod ?p"
    by (simp only: mixed_radix_snoc reg(5))
  also have "\<dots> = row mod prod_list (take (Suc n) shape)"
    by (simp add: tk mod_mult2_eq [of row ?p "prod_list (take n shape)"] mult.commute)
  finally have flat: "mixed_radix 0 (zip (take (Suc n) shape) (map extent_start (rev (?e # region))))
      = row mod prod_list (take (Suc n) shape)" .
  show ?case
  proof (intro exI [of _ "?e # region"] conjI)
    show "region_loop shape (rev [0..<Suc n]) row = Inr (?e # region)" by (rule loop)
    show "mixed_radix 0 (zip (take (Suc n) shape) (map extent_start (rev (?e # region))))
      = row mod prod_list (take (Suc n) shape)" by (rule flat)
  qed (use reg in auto)
qed

lemma rows_concat:
  fixes w :: nat
  assumes "0 < w" and "start < stop"
  defines "lo \<equiv> \<lambda>row. if row = start div w then start mod w else 0"
    and "hi \<equiv> \<lambda>row. if row + 1 = div_ceil stop w \<and> \<not> is_multiple_of stop w then stop mod w else w"
  shows "concat (map (\<lambda>row. [row * w + lo row..<row * w + hi row]) [start div w..<div_ceil stop w]) = [start..<stop]"
proof -
  let ?a = "start div w" and ?b = "div_ceil stop w"
  have b: "(?b - 1) * w < stop" "stop \<le> ?b * w" "0 < ?b"
  proof -
    note d = div_ceil_bounds [OF assms(1), of stop]
    show "stop \<le> ?b * w" using d by (simp add: mult.commute)
    show "0 < ?b" using assms(2) d by (cases ?b) auto
    have s: "stop = stop div w * w + stop mod w" by simp
    show "(?b - 1) * w < stop"
    proof (cases "stop mod w = 0")
      case True
      then have "?b = stop div w" "stop = stop div w * w" using s by (simp_all add: div_ceil_def)
      moreover have "(stop div w - 1) * w < stop div w * w"
        using assms calculation(2) by (cases "stop div w") auto
      ultimately show ?thesis by simp
    next
      case False
      then have "(?b - 1) * w = stop div w * w" by (simp add: div_ceil_def)
      then show ?thesis using s False by linarith
    qed
  qed
  have lo: "row * w + lo row = max start (row * w)" if "?a \<le> row" for row
  proof (cases "row = ?a")
    case True
    have "?a * w \<le> start" by (rule div_times_less_eq_dividend)
    then have "max start (?a * w) = start" by (rule max_absorb1)
    then show ?thesis using True by (simp add: lo_def)
  next
    case False
    then have "Suc ?a * w \<le> row * w" using that by (intro mult_le_mono1) simp
    moreover have "start < Suc ?a * w" using assms(1) by (simp add: dividend_less_div_times)
    ultimately show ?thesis using False by (simp add: lo_def)
  qed
  have hi: "row * w + hi row = min stop (Suc row * w)" if "row < ?b" for row
  proof (cases "row + 1 = ?b")
    case True
    show ?thesis
    proof (cases "is_multiple_of stop w")
      case True2: True
      then have "?b * w = stop" using assms(1) by (auto simp: is_multiple_of_def div_ceil_def)
      moreover have "row * w + w = (row + 1) * w" by simp
      ultimately have "row * w + w = stop" using True by (simp only:)
      then show ?thesis using True2 by (simp add: hi_def)
    next
      case False
      then have "?b = stop div w + 1" using assms(1) by (auto simp: is_multiple_of_def div_ceil_def split: if_splits)
      then have "row = stop div w" using True by simp
      moreover have "stop \<le> Suc row * w" using b(2) True by simp
      moreover have "hi row = stop mod w" using False True by (simp add: hi_def)
      ultimately show ?thesis by (simp add: min_def)
    qed
  next
    case False
    then have "Suc row \<le> ?b - 1" using that by simp
    then have "Suc row * w \<le> (?b - 1) * w" by (rule mult_le_mono1)
    then show ?thesis using b(1) False by (simp add: hi_def)
  qed
  have ab: "?a < ?b"
  proof (rule ccontr)
    assume "\<not> ?a < ?b"
    then have "?b * w \<le> ?a * w" by (intro mult_le_mono1) simp
    also have "\<dots> \<le> start" by simp
    finally show False using b(2) assms(2) by simp
  qed
  have "concat (map (\<lambda>row. [row * w + lo row..<row * w + hi row]) [?a..<m]) = [start..<min stop (m * w)]"
    if "Suc ?a \<le> m" "m \<le> ?b" for m
    using that
  proof (induction m rule: dec_induct)
    case base
    then have "?a < ?b" by simp
    moreover have "?a * w + lo ?a = start"
      using lo [of ?a] by (simp add: max_absorb1 [OF div_times_less_eq_dividend])
    ultimately show ?case using hi [of ?a] by simp
  next
    case (step m)
    have m: "?a \<le> m" "m < ?b" using step by simp_all
    have "m * w \<le> (?b - 1) * w" using m(2) by (intro mult_le_mono1) simp
    then have mw: "m * w < stop" using b(1) by (rule le_less_trans)
    then have "min stop (m * w) = m * w" by simp
    moreover have "start < m * w"
    proof -
      have "start < Suc ?a * w" using assms(1) by (simp add: dividend_less_div_times)
      also have "\<dots> \<le> m * w" using step(1) by (rule mult_le_mono1)
      finally show ?thesis .
    qed
    moreover have "m * w \<le> min stop (Suc m * w)" using mw by simp
    ultimately have join: "[start..<m * w] @ [m * w..<min stop (Suc m * w)] = [start..<min stop (Suc m * w)]"
      using upt_add_eq_append [of start "m * w" "min stop (Suc m * w) - m * w"] by simp
    have "concat (map (\<lambda>row. [row * w + lo row..<row * w + hi row]) [?a..<Suc m])
        = concat (map (\<lambda>row. [row * w + lo row..<row * w + hi row]) [?a..<m]) @ [m * w + lo m..<m * w + hi m]"
      using m(1) by simp
    also have "\<dots> = [start..<m * w] @ [m * w..<min stop (Suc m * w)]"
      using step.IH step.prems lo [OF m(1)] hi [OF m(2)] mw \<open>start < m * w\<close> by simp
    finally show ?case using join by (simp only:)
  qed
  from this [of ?b] ab show ?thesis using b(2) by simp
qed

definition region_elements :: "shard_extent list \<Rightarrow> nat" where
  "region_elements region = prod_list (map extent_size region)"

definition shape_ok :: "tensor_shape \<Rightarrow> nat \<Rightarrow> bool" where
  "shape_ok shape grain \<longleftrightarrow> shape \<noteq> [] \<and> length shape \<le> 2 ^ 16 \<and> (\<forall>d\<in>set shape. 0 < d \<and> d < 2 ^ 32)
     \<and> last shape + grain \<le> 2 ^ 32"

lemma div_ceil_least: "0 < b \<Longrightarrow> a \<le> c * b \<Longrightarrow> div_ceil a b \<le> c"
proof (rule ccontr)
  assume b: "0 < b" and a: "a \<le> c * b" and "\<not> div_ceil a b \<le> c"
  then have "Suc c * b \<le> div_ceil a b * b" by (intro mult_le_mono1) simp
  then show False using div_ceil_bounds(2) [OF b, of a] a by simp
qed

lemma prod_list_single: "\<forall>e\<in>set xs. f e = (1 :: nat) \<Longrightarrow> prod_list (map f xs) = 1"
  by (induction xs) auto

lemma row_fragment_Inr:
  assumes ok: "shape_ok shape grain" and w: "w = last shape" and lt: "start < stop"
    and row: "start div w \<le> row" "row < div_ceil stop w" and rows: "row < prod_list (butlast shape)"
    and tail: "physical_stop - stop < grain"
  defines "lo \<equiv> (if row = start div w then start mod w else 0)"
    and "hi \<equiv> (if row + 1 = div_ceil stop w \<and> \<not> is_multiple_of stop w then stop mod w else w)"
  shows "\<exists>region. row_fragment shape w start stop physical_stop (start div w) (div_ceil stop w) row = Inr region
    \<and> row_region shape region \<and> fragment_elements shape region = [row * w + lo..<row * w + hi]
    \<and> region_elements region = hi - lo + (if row + 1 = div_ceil stop w then physical_stop - stop else 0)"
proof -
  have sh: "shape \<noteq> []" "length shape \<le> 2 ^ 16" "\<forall>d\<in>set shape. 0 < d \<and> d < 2 ^ 32" "w + grain \<le> 2 ^ 32"
    using ok w by (simp_all add: shape_ok_def)
  have wp: "0 < w" "w < 2 ^ 32" using sh w by (simp_all add: shape_ok_def)
  let ?n = "length shape - 1"
  have bl: "butlast shape = take ?n shape" by (simp add: butlast_conv_take)
  from region_loop_Inr [of ?n shape row] sh obtain region where
    reg: "region_loop shape (rev [0..<?n]) row = Inr region" "length region = ?n"
    "map extent_axis (rev region) = [0..<?n]"
    "\<forall>e\<in>set region. logical_end e = extent_start e + 1 \<and> physical_end e = extent_start e + 1"
    "mixed_radix 0 (zip (take ?n shape) (map extent_start (rev region))) = row mod prod_list (take ?n shape)"
    by auto
  let ?tail = "if row + 1 = div_ceil stop w then physical_stop - stop else 0"
  have lw: "lo < w" using wp by (simp add: lo_def)
  have hw: "hi \<le> w" using wp by (simp add: hi_def less_imp_le)
  have lh: "lo \<le> hi"
  proof (cases "row + 1 = div_ceil stop w \<and> \<not> is_multiple_of stop w \<and> row = start div w")
    case True
    then have "row = stop div w" using wp by (auto simp: is_multiple_of_def div_ceil_def split: if_splits)
    then have q: "start div w = stop div w" using True by simp
    define q where "q = stop div w"
    have "start = q * w + start mod w" unfolding q_def q [symmetric] by simp
    moreover have "stop = q * w + stop mod w" unfolding q_def by simp
    ultimately have "start mod w < stop mod w" using lt by linarith
    then show ?thesis using True by (simp add: lo_def hi_def)
  next
    case False
    then show ?thesis using lw by (auto simp: lo_def hi_def)
  qed
  let ?e = "\<lparr>extent_axis = ?n, extent_start = lo, logical_end = hi, physical_end = hi + ?tail\<rparr>"
  have "?n < 2 ^ 16" "lo < 2 ^ 32" "hi < 2 ^ 32" "hi + ?tail < 2 ^ 32"
    using sh wp lw hw tail by auto
  then have frag: "row_fragment shape w start stop physical_stop (start div w) (div_ceil stop w) row = Inr (rev region @ [?e])"
    unfolding row_fragment_def Let_def reg(1) lo_def [symmetric] hi_def [symmetric]
    by (simp add: try_from_def)
  have "row_region shape (rev region @ [?e])"
    using reg(2-4) sh(1) by (cases "length shape") (auto simp: row_region_def)
  moreover have "flat_start shape (rev region @ [?e]) = row * w + lo"
  proof -
    have "zip shape (map extent_start (rev region @ [?e])) = zip (take ?n shape) (map extent_start (rev region)) @ [(w, lo)]"
    proof -
      have "shape = take ?n shape @ [w]" using append_butlast_last_id [OF sh(1)] by (simp only: bl w)
      then have "zip shape (map extent_start (rev region @ [?e]))
          = zip (take ?n shape @ [w]) (map extent_start (rev region) @ [lo])" by simp
      then show ?thesis using reg(2) by simp
    qed
    moreover have "row mod prod_list (take ?n shape) = row" using rows by (simp add: bl)
    ultimately show ?thesis using reg(5) by (simp only: flat_start_def mixed_radix_snoc)
  qed
  then have "fragment_elements shape (rev region @ [?e]) = [row * w + lo..<row * w + hi]"
    using lh by (simp add: fragment_elements_def)
  moreover have "region_elements (rev region @ [?e]) = hi - lo + ?tail"
  proof -
    have "prod_list (map extent_size region) = 1" by (rule prod_list_single) (use reg(4) in \<open>simp add: extent_size_def\<close>)
    moreover have "prod_list (rev (map extent_size region)) = prod_list (map extent_size region)"
      by (induction region) auto
    ultimately show ?thesis using lh by (simp add: region_elements_def extent_size_def rev_map)
  qed
  ultimately show ?thesis using frag by blast
qed

text \<open>All fragments of one tile.\<close>

lemma tile_fragments_Inr:
  assumes ok: "shape_ok shape grain" and w: "w = last shape" and lt: "start < stop" and "stop \<le> elements shape"
    and tail: "physical_stop - stop < grain" "stop \<le> physical_stop"
  shows "\<exists>frs. traverse (\<lambda>row. res_bind (row_fragment shape w start stop physical_stop (start div w) (div_ceil stop w) row)
        (\<lambda>region. Inr (tile, region))) [start div w..<div_ceil stop w] = Inr frs
    \<and> (\<forall>f\<in>set frs. fst f = tile \<and> row_region shape (snd f))
    \<and> concat (map (fragment_elements shape \<circ> snd) frs) = [start..<stop]
    \<and> sum_list (map (region_elements \<circ> snd) frs) = physical_stop - start"
proof -
  let ?rows = "[start div w..<div_ceil stop w]"
  define lo hi where "lo = (\<lambda>row. if row = start div w then start mod w else 0)"
    and "hi = (\<lambda>row. if row + 1 = div_ceil stop w \<and> \<not> is_multiple_of stop w then stop mod w else w)"
  have wp: "0 < w" "shape \<noteq> []" using ok w by (simp_all add: shape_ok_def)
  have E: "elements shape = prod_list (butlast shape) * w"
    using wp(2) w by (metis append_butlast_last_id elements_def mult.right_neutral prod_list.Cons prod_list.Nil prod_list.append)
  have "row < prod_list (butlast shape)" if "row \<in> set ?rows" for row
  proof -
    have "div_ceil stop w \<le> prod_list (butlast shape)"
      using div_ceil_least [OF wp(1)] assms(4) E by simp
    then show ?thesis using that by simp
  qed
  then have "\<forall>row\<in>set ?rows. \<exists>region. row_fragment shape w start stop physical_stop (start div w) (div_ceil stop w) row = Inr region
    \<and> row_region shape region \<and> fragment_elements shape region = [row * w + lo row..<row * w + hi row]
    \<and> region_elements region = hi row - lo row + (if row + 1 = div_ceil stop w then physical_stop - stop else 0)"
    using row_fragment_Inr [OF ok w lt _ _ _ tail(1)] by (simp add: lo_def hi_def)
  then obtain g where g: "\<And>row. row \<in> set ?rows \<Longrightarrow>
      row_fragment shape w start stop physical_stop (start div w) (div_ceil stop w) row = Inr (g row)
    \<and> row_region shape (g row) \<and> fragment_elements shape (g row) = [row * w + lo row..<row * w + hi row]
    \<and> region_elements (g row) = hi row - lo row + (if row + 1 = div_ceil stop w then physical_stop - stop else 0)"
    by metis
  let ?frs = "map (\<lambda>row. (tile, g row)) ?rows"
  have "traverse (\<lambda>row. res_bind (row_fragment shape w start stop physical_stop (start div w) (div_ceil stop w) row)
        (\<lambda>region. Inr (tile, region))) ?rows = Inr ?frs"
    by (rule traverse_all) (use g in simp)
  moreover have flat: "concat (map (fragment_elements shape \<circ> snd) ?frs) = [start..<stop]"
  proof -
    have m: "map (fragment_elements shape \<circ> snd) ?frs = map (\<lambda>row. [row * w + lo row..<row * w + hi row]) ?rows"
      using g by simp
    show ?thesis unfolding m using rows_concat [OF wp(1) lt] unfolding lo_def hi_def .
  qed
  moreover have "sum_list (map (region_elements \<circ> snd) ?frs) = physical_stop - start"
  proof -
    have ab: "start div w < div_ceil stop w"
    proof (rule ccontr)
      assume "\<not> start div w < div_ceil stop w"
      then have "?rows = []" by simp
      then have "[start..<stop] = []" using flat by (simp only: list.map concat.simps)
      then show False using lt by simp
    qed
    have sizes: "sum_list (map (\<lambda>row. hi row - lo row) ?rows) = stop - start"
    proof -
      have "length (concat (map (\<lambda>row. [row * w + lo row..<row * w + hi row]) ?rows)) = stop - start"
        using rows_concat [OF wp(1) lt] by (simp add: lo_def hi_def)
      then show ?thesis by (simp add: length_concat comp_def)
    qed
    have last_only: "sum_list (map (\<lambda>row. if row + 1 = div_ceil stop w then physical_stop - stop else 0) ?rows) = physical_stop - stop"
    proof -
      obtain m where m: "div_ceil stop w = Suc m" "start div w \<le> m" using ab by (cases "div_ceil stop w") auto
      have "sum_list (map (\<lambda>row. if row + 1 = Suc m then physical_stop - stop else 0) [start div w..<m]) = 0"
        by (simp add: sum_list_eq_0_iff)
      then show ?thesis using m by simp
    qed
    have "sum_list (map (region_elements \<circ> snd) ?frs)
        = sum_list (map (\<lambda>row. (hi row - lo row) + (if row + 1 = div_ceil stop w then physical_stop - stop else 0)) ?rows)"
      using g by (intro arg_cong [where f = sum_list]) simp
    also have "\<dots> = (stop - start) + (physical_stop - stop)" by (simp only: sum_list_addf sizes last_only)
    finally show ?thesis using lt tail(2) by simp
  qed
  ultimately show ?thesis using g by (intro exI [of _ ?frs]) auto
qed

lemma tile_elements_linear:
  assumes "resolved_grain r = Some grain" and "tile < resolved_tiles r"
  defines "g \<equiv> div_ceil (elements (resolved_shape r)) grain"
  shows "block_start g (resolved_tiles r) tile * grain + tile_elements r tile
    = block_start g (resolved_tiles r) (Suc tile) * grain"
  using assms by (simp add: tile_elements_def Let_def block_start_Suc algebra_simps)

lemma linear_shards_Inr:
  assumes grain: "resolved_grain r = Some grain" and ok: "shape_ok (resolved_shape r) grain" and "0 < grain"
    and many: "resolved_tiles r \<le> div_ceil (elements (resolved_shape r)) grain"
    and t: "t \<le> resolved_tiles r" and pos: "0 < resolved_tiles r"
  defines "g \<equiv> div_ceil (elements (resolved_shape r)) grain" and "E \<equiv> elements (resolved_shape r)"
  shows "\<exists>frs. linear_shards r (last (resolved_shape r)) [t..<resolved_tiles r] (block_start g (resolved_tiles r) t * grain) = Inr frs
    \<and> (\<forall>f\<in>set frs. t \<le> fst f \<and> row_region (resolved_shape r) (snd f)) \<and> sorted (map fst frs)
    \<and> concat (map (fragment_elements (resolved_shape r) \<circ> snd) frs) = [block_start g (resolved_tiles r) t * grain..<E]
    \<and> (\<forall>tile<resolved_tiles r. t \<le> tile \<longrightarrow>
         sum_list (map (region_elements \<circ> snd) (filter (\<lambda>f. fst f = tile) frs)) = tile_elements r tile)"
  using t
proof (induction "resolved_tiles r - t" arbitrary: t)
  case 0
  then have tn: "t = resolved_tiles r" by simp
  have "E \<le> block_start g (resolved_tiles r) t * grain"
    using block_start_end [OF pos, of g] div_ceil_bounds(1) [OF assms(3), of E] by (simp add: tn g_def E_def)
  then show ?case by (intro exI [of _ "[]"]) (simp add: tn)
next
  case (Suc d)
  let ?n = "resolved_tiles r" and ?w = "last (resolved_shape r)"
  have tn: "t < ?n" using Suc.hyps(2) by simp
  define start physical_stop stop where "start = block_start g ?n t * grain"
    and "physical_stop = block_start g ?n (Suc t) * grain" and "stop = min physical_stop E"
  have pe: "start + tile_elements r t = physical_stop"
    using tile_elements_linear [OF grain tn] by (simp add: start_def physical_stop_def g_def)
  have one: "0 < g div ?n" using many tn by (simp add: g_def div_greater_zero_iff)
  have sg: "Suc (block_start g ?n t) \<le> block_start g ?n (Suc t)" using one by (simp add: block_start_Suc)
  have gg: "block_start g ?n (Suc t) \<le> g"
    using block_start_mono [of "Suc t" ?n g ?n] block_start_end [of ?n g] tn by simp
  have gE: "g * grain < E + grain" "E \<le> g * grain" using div_ceil_bounds [OF assms(3), of E] by (simp_all add: g_def E_def)
  have "Suc (block_start g ?n t) * grain \<le> g * grain" using sg gg by (intro mult_le_mono1) simp
  then have sE: "start < E" using gE by (simp add: start_def)
  have sp: "start < physical_stop" using sg assms(3) by (simp add: start_def physical_stop_def)
  have "physical_stop \<le> g * grain" using gg by (simp add: physical_stop_def)
  then have tail: "physical_stop - stop < grain" using gE assms(3) by (auto simp: stop_def min_def)
  have "start < stop" "stop \<le> elements (resolved_shape r)" "stop \<le> physical_stop"
    using sE sp by (simp_all add: stop_def E_def)
  from tile_fragments_Inr [OF ok refl this(1,2) tail this(3), of t] obtain frs where
    frs: "traverse (\<lambda>row. res_bind (row_fragment (resolved_shape r) ?w start stop physical_stop (start div ?w) (div_ceil stop ?w) row)
        (\<lambda>region. Inr (t, region))) [start div ?w..<div_ceil stop ?w] = Inr frs"
    "\<forall>f\<in>set frs. fst f = t \<and> row_region (resolved_shape r) (snd f)"
    "concat (map (fragment_elements (resolved_shape r) \<circ> snd) frs) = [start..<stop]"
    "sum_list (map (region_elements \<circ> snd) frs) = physical_stop - start" by blast
  have "d = ?n - Suc t" "Suc t \<le> ?n" using Suc.hyps(2) tn by simp_all
  from Suc.hyps(1) [OF this] obtain rest where
    rest: "linear_shards r ?w [Suc t..<?n] physical_stop = Inr rest"
    "\<forall>f\<in>set rest. Suc t \<le> fst f \<and> row_region (resolved_shape r) (snd f)" "sorted (map fst rest)"
    "concat (map (fragment_elements (resolved_shape r) \<circ> snd) rest) = [physical_stop..<E]"
    "\<forall>tile<?n. Suc t \<le> tile \<longrightarrow>
         sum_list (map (region_elements \<circ> snd) (filter (\<lambda>f. fst f = tile) rest)) = tile_elements r tile"
    by (auto simp: physical_stop_def)
  have w: "?w \<noteq> 0" using ok by (auto simp: shape_ok_def)
  have "linear_shards r ?w (t # [Suc t..<?n]) start = Inr (frs @ rest)"
    using frs(1) rest(1) w by (simp add: Let_def pe stop_def E_def)
  then have all: "linear_shards r ?w [t..<?n] (block_start g ?n t * grain) = Inr (frs @ rest)"
    using tn by (simp add: upt_conv_Cons start_def)
  have flat: "concat (map (fragment_elements (resolved_shape r) \<circ> snd) (frs @ rest)) = [start..<E]"
  proof (cases "physical_stop \<le> E")
    case True
    then have "stop = physical_stop" by (simp add: stop_def)
    then show ?thesis
      using frs(3) rest(4) sp True upt_add_eq_append [of start physical_stop "E - physical_stop"] by simp
  next
    case False
    then show ?thesis using frs(3) rest(4) by (simp add: stop_def)
  qed
  have srt: "sorted (map fst (frs @ rest))"
  proof -
    have "map fst frs = replicate (length frs) t" using frs(2) by (intro replicate_eqI) auto
    then have "sorted (map fst frs)" by simp
    then show ?thesis using rest(2,3) frs(2) by (fastforce simp: sorted_append)
  qed
  have sums: "sum_list (map (region_elements \<circ> snd) (filter (\<lambda>f. fst f = tile) (frs @ rest))) = tile_elements r tile"
    if "tile < ?n" "t \<le> tile" for tile
  proof (cases "tile = t")
    case True
    have "filter (\<lambda>f. fst f = tile) frs = frs" using frs(2) True by (intro filter_True) auto
    moreover have "filter (\<lambda>f. fst f = tile) rest = []" using rest(2) True by (intro filter_False) auto
    ultimately show ?thesis using frs(4) pe True by simp
  next
    case False
    have "filter (\<lambda>f. fst f = tile) frs = []" using frs(2) False by (intro filter_False) auto
    then show ?thesis using rest(5) that False by simp
  qed
  have "\<forall>f\<in>set (frs @ rest). t \<le> fst f \<and> row_region (resolved_shape r) (snd f)" using frs(2) rest(2) by auto
  then show ?case using all srt flat sums unfolding start_def by blast
qed

subsection \<open>Properties\<close>

text \<open>
  C26: Every element of a tensor has exactly the declared number of owners: for a rectangular
  layout that resolves (one that is not flat: \<open>resolved_grain r = None\<close>), whatever its partitions, padding groups, block sizes and tile strides
  and whichever check accepted its tile mapping, the number of tiles whose shard holds a given
  coordinate is the number of replicas.
\<close>

theorem every_element_has_its_replicas:
  assumes "resolve l shape = Inr r" and "resolved_grain r = None"
    and "\<forall>a<length shape. v ! a < shape ! a"
  shows "card {tile. owns r v tile} = replicas (layout_tiling l)"
proof -
  have "resolved_replicas r = replicas (layout_tiling l)"
    using assms(1) by (auto simp: resolve_def Let_def res_simps split: option.splits)
  then show ?thesis using owners_count [OF assms] by simp
qed

text \<open>
  C27: The shards of an axis partition it: when every coordinate of a tiling has bounds, each
  index below the logical extent lies in the logical range of exactly one of them.
\<close>

theorem axis_shards_partition:
  assumes "\<And>c. c < partitions t \<Longrightarrow> \<exists>s e pe. shard_bounds t padded logical c = Inr (s, e, pe)"
    and "logical \<le> padded" and "x < logical" and "0 < partitions t"
  shows "\<exists>!c. c < partitions t \<and> in_shard t padded logical c x"
  using assms by (rule axis_shards_cover)

text \<open>
  C28: Flat ownership of a resolved linear layout: expanding it succeeds, every fragment is part
  of one row, the fragments in order list every element of the tensor exactly once in row-major
  order, and the fragments of a tile allocate exactly the tile's elements, padding included.
\<close>

theorem linear_fragments_enumerate:
  assumes "resolve l shape = Inr r" and "resolved_grain r = Some grain" and "shape_ok shape grain"
  shows "\<exists>frs. resolved_shards r = Inr frs \<and> list_all (\<lambda>f. row_region shape (snd f)) frs
    \<and> sorted (map fst frs) \<and> concat (map (fragment_elements shape \<circ> snd) frs) = [0..<elements shape]
    \<and> (\<forall>tile<resolved_tiles r. sum_list (map (region_elements \<circ> snd) (filter (\<lambda>f. fst f = tile) frs)) = tile_elements r tile)"
proof -
  have r: "resolved_shape r = shape" "resolved_tiles r = tiling_tiles (layout_tiling l)"
    "linear_grain (layout_tiling l) = Some grain"
    using assms(1,2) by (auto simp: resolve_def Let_def res_simps split: option.splits)
  obtain padded where "padded_shape l shape = Inr padded" using assms(1) by (auto simp: resolve_def res_simps)
  then have g: "0 < grain" "resolved_tiles r \<le> div_ceil (elements shape) grain" "0 < resolved_tiles r"
    using r by (auto simp: padded_shape_def Let_def layout_fail_def split: if_splits)
  have ne: "shape \<noteq> []" using assms(3) by (simp add: shape_ok_def)
  from linear_shards_Inr [OF assms(2), of 0] assms(3) g r obtain frs where
    "linear_shards r (last shape) [0..<resolved_tiles r] 0 = Inr frs"
    "\<forall>f\<in>set frs. row_region shape (snd f)" "sorted (map fst frs)"
    "concat (map (fragment_elements shape \<circ> snd) frs) = [0..<elements shape]"
    "\<forall>tile<resolved_tiles r. sum_list (map (region_elements \<circ> snd) (filter (\<lambda>f. fst f = tile) frs)) = tile_elements r tile"
    by auto
  then show ?thesis using assms(2) ne by (simp add: resolved_shards_def r list_all_iff)
qed

text \<open>A left operand on a 2 by 2 grid, a flat layout with a padded tail, and one padded axis.\<close>

definition sample_grid :: layout where
  "sample_grid = amp_left_grid 16 4 2 2 ColumnsFast"

definition sample_linear :: layout where
  "sample_linear = (let l = logical_linear 3 4
     in l\<lparr>layout_tiling := (layout_tiling l)\<lparr>tiling_axes := [axis_new Linear 3 4 Zero]\<rparr>\<rparr>)"

definition sample_axis :: axis_tiling where
  "sample_axis = with_padding_multiple 12 (axis_new (FromEnd 1) 3 4 Zero)"

lemmas bounds_eval = checked_next_multiple_of_def shard_bounds_def place_shard_def checked_div_def arith_defs layout_fail_def Let_def

lemma sample_axis_bounds:
  "shard_bounds sample_axis 12 10 0 = Inr (0, 4, 4)" "shard_bounds sample_axis 12 10 1 = Inr (4, 8, 8)"
  "shard_bounds sample_axis 12 10 2 = Inr (8, 10, 12)"
  by (simp_all add: bounds_eval sample_axis_def with_padding_multiple_def axis_new_def ok_or_def cong: res_bind_weak)

lemmas resolve_eval = checked_next_multiple_of_def padded_shape_def layout_defs pad_axis_def layout_fail_def arith_defs lift_layout_def
  axis_strides_def has_regular_tile_mapping_def linear_grain_def elements_def Let_def ok_or_def

lemma sample_grid_strides: "axis_strides (layout_tiling sample_grid) = Inr [2, 4]"
  by (simp add: sample_grid_def resolve_eval cong: res_bind_weak)

lemma sample_grid_padded: "padded_shape sample_grid [4, 10] = Inr [4, 16]"
  by (simp add: sample_grid_def resolve_eval cong: res_bind_weak option.case_cong)

lemma sample_linear_padded: "padded_shape sample_linear [2, 5] = Inr [2,5]"
  by (simp add: sample_linear_def resolve_eval cong: res_bind_weak)

lemma sample_grid_axes: 
  "\<exists>r. resolve_one sample_grid [4, 10] [2, 4] (0, 4) = Inr r"
  "\<exists>r. resolve_one sample_grid [4, 10] [2, 4] (1, 16) = Inr r"
  by (simp_all add: resolve_one_def sample_grid_def layout_defs ok_or_def try_from_def bounds_eval upt_rec cong: res_bind_weak)

lemma sample_grid_resolves: "\<exists>r. resolve sample_grid [4, 10] = Inr r \<and> resolved_grain r = None"
proof -
  have "linear_grain (layout_tiling sample_grid) = None" by (simp add: sample_grid_def layout_defs linear_grain_def)
  with sample_grid_axes show ?thesis
    by (auto simp: resolve_def sample_grid_padded sample_grid_strides lift_layout_def)
qed

theorem every_element_has_its_replicas_witness:
  "\<exists>r. resolve sample_grid [4, 10] = Inr r \<and> card {tile. owns r [3, 9] tile} = 2"
proof -
  obtain r where r: "resolve sample_grid [4, 10] = Inr r" "resolved_grain r = None" using sample_grid_resolves by blast
  have "card {tile. owns r [3, 9] tile} = replicas (layout_tiling sample_grid)"
    by (rule every_element_has_its_replicas [OF r]) (simp add: less_Suc_eq numeral_2_eq_2)
  then show ?thesis using r(1) by (simp add: sample_grid_def amp_left_grid_def)
qed

theorem axis_shards_partition_witness:
  "\<exists>!c. c < 3 \<and> in_shard sample_axis 12 10 c 9"
proof -
  have n: "partitions sample_axis = 3" by (simp add: sample_axis_def with_padding_multiple_def axis_new_def)
  have "\<exists>s e pe. shard_bounds sample_axis 12 10 c = Inr (s, e, pe)" if "c < partitions sample_axis" for c
  proof -
    from that n consider "c = 0" | "c = 1" | "c = 2" by linarith
    then show ?thesis using sample_axis_bounds by cases auto
  qed
  from axis_shards_partition [OF this, of 9] show ?thesis by (simp add: n)
qed

lemma sample_linear_resolves: "\<exists>r. resolve sample_linear [2, 5] = Inr r \<and> resolved_grain r = Some 4"
  by (simp add: resolve_def sample_linear_padded) (simp add: sample_linear_def layout_defs linear_grain_def)

theorem linear_fragments_enumerate_witness:
  "\<exists>r frs. resolve sample_linear [2, 5] = Inr r \<and> resolved_shards r = Inr frs
    \<and> concat (map (fragment_elements [2, 5] \<circ> snd) frs) = [0..<10]"
proof -
  obtain r where r: "resolve sample_linear [2, 5] = Inr r" "resolved_grain r = Some 4"
    using sample_linear_resolves by blast
  have "shape_ok [2, 5] 4" by (simp add: shape_ok_def)
  from linear_fragments_enumerate [OF r this] show ?thesis using r(1) by (auto simp: elements_def)
qed

end
