(* ===== verification/Tilings.thy ===== *)
theory Tilings
  imports Resolved "HOL-Library.Sublist"
begin

text \<open>
  Tilings whose declared tiles, replicas and strides agree (\<open>tensor/layout.rs\<close>,
  \<open>tensor/resolved.rs\<close>). A tiling is \<open>balanced\<close> when every coordinate of its axes is held by
  exactly as many of the declared tiles as there are replicas; this says nothing of the checks
  the code makes. The lemmas show that a balanced tiling passes those checks on every shape
  (the exhaustive count accepts what the fast check does not recognise), that axes which are
  some of the digits of a mixed-radix tile number are balanced, whatever the order of the
  digits and with the left-out digits as the replicas, and that the grid constructors of the
  layouts are balanced.
\<close>

subsection \<open>Balanced tilings\<close>

definition balanced :: "tensor_tiling \<Rightarrow> bool" where
  "balanced t \<longleftrightarrow>
     0 < replicas t \<and> replicas t * prod_list (map partitions (tiling_axes t)) = tiling_tiles t
   \<and> (\<exists>strides. axis_strides t = Inr strides
        \<and> (\<forall>ds. in_box (map partitions (tiling_axes t)) ds \<longrightarrow>
              card {tile. tile < tiling_tiles t \<and> tile_digits (zip (tiling_axes t) strides) tile = ds} = replicas t))"

text \<open>The errors and panics of the tile mapping, as opposed to those of padding an axis.\<close>

definition mapping_error :: "layout_error fault \<Rightarrow> bool" where
  "mapping_error e \<longleftrightarrow>
     e = Panic \<or> e = Fail InvalidTileMapping \<or> e = Fail TileCountOverflow \<or> (\<exists>d i. e = Fail (TileCountMismatch d i))"

lemma pad_axis_no_mapping_error:
  assumes "pad_axis (u, dims, used) t = Inl e" and "u * partitions t < 2 ^ 32"
  shows "\<not> mapping_error e"
proof (cases "tiling_axis t")
  case (FromStart a)
  with assms show ?thesis
    by (auto simp: pad_axis_def res_simps lift_layout_def layout_fail_def mapping_error_def Let_def ok_or_def checked_mul_def [of 32 u]
        split: if_splits option.splits padding.splits)
next
  case (FromEnd a)
  with assms show ?thesis
    by (auto simp: pad_axis_def res_simps lift_layout_def layout_fail_def mapping_error_def Let_def ok_or_def checked_mul_def [of 32 u]
        split: if_splits option.splits padding.splits)
next
  case Linear
  with assms show ?thesis
    by (auto simp: pad_axis_def res_simps lift_layout_def layout_fail_def mapping_error_def Let_def ok_or_def checked_mul_def [of 32 u]
        split: if_splits option.splits padding.splits)
qed

lemma pad_axes_no_mapping_error:
  "pad_axes (u, dims, used) ts = Inl e \<Longrightarrow> u * prod_list (map partitions ts) < 2 ^ 32 \<Longrightarrow> 0 < prod_list (map partitions ts) \<Longrightarrow>
   \<not> mapping_error e"
proof (induction ts arbitrary: u dims used)
  case (Cons t ts)
  have p: "0 < prod_list (map partitions ts)" using Cons.prems(3) by simp
  then have "u * partitions t \<le> u * prod_list (map partitions (t # ts))" by simp
  then have small: "u * partitions t < 2 ^ 32" using Cons.prems(2) by linarith
  from Cons.prems(1) consider "pad_axis (u, dims, used) t = Inl e"
    | st where "pad_axis (u, dims, used) t = Inr st" "pad_axes st ts = Inl e" by (auto simp: res_simps)
  then show ?case
  proof cases
    case 1 then show ?thesis by (rule pad_axis_no_mapping_error [OF _ small])
  next
    case 2
    obtain u1 dims1 used1 where st: "st = (u1, dims1, used1)" by (cases st)
    have "u1 = u * partitions t" using pad_axis_Inr 2(1) st by blast
    then show ?thesis using Cons.IH [of u1 dims1 used1] 2(2) Cons.prems(2) p st by (simp add: mult.assoc)
  qed
qed simp

subsection \<open>The exhaustive count accepts a balanced tiling\<close>

lemma coordinate_loop_bounded:
  "(c + 1) * prod_list (map (\<lambda>(t, stride). partitions t) axes) \<le> 2 ^ 64 \<Longrightarrow>
   0 < prod_list (map (\<lambda>(t, stride). partitions t) axes) \<Longrightarrow> \<exists>c'. coordinate_loop tile c axes = Some c'"
proof (induction axes arbitrary: c)
  case (Cons x axes)
  obtain t stride where x: "x = (t, stride)" by (cases x)
  let ?P = "prod_list (map (\<lambda>(t, stride). partitions t) axes)" and ?d = "(tile div stride) mod partitions t"
  have pos: "0 < partitions t" "0 < ?P" using Cons.prems(2) by (simp_all add: x)
  have d: "?d < partitions t" using pos(1) by simp
  have "(c * partitions t + ?d + 1) * ?P \<le> (c + 1) * partitions t * ?P"
    using d by (intro mult_le_mono1) simp
  moreover have "(c + 1) * partitions t * ?P \<le> 2 ^ 64"
    using Cons.prems(1) unfolding x by (simp only: list.map prod_list.Cons prod.case mult.assoc)
  ultimately have step: "(c * partitions t + ?d + 1) * ?P \<le> 2 ^ 64" by (rule le_trans)
  have "(c * partitions t + ?d + 1) * 1 \<le> (c * partitions t + ?d + 1) * ?P" by (rule mult_le_mono2) (use pos(2) in simp)
  from le_trans [OF this step] have "c * partitions t + ?d < 2 ^ 64" by simp
  then show ?case using Cons.IH [OF step pos(2)] by (simp add: x checked_mul_def checked_add_def)
qed simp

lemma count_copies_complete:
  assumes "\<And>tile. tile \<in> set tls \<Longrightarrow> \<exists>c<length copies. coordinate_loop tile 0 axes = Some c"
    and "\<And>c. c < length copies \<Longrightarrow> copies ! c + length (filter (\<lambda>tile. coordinate_loop tile 0 axes = Some c) tls) < 2 ^ 16"
  shows "\<exists>copies'. count_copies axes tls copies = Inr copies'"
  using assms
proof (induction tls arbitrary: copies)
  case (Cons tile tls)
  obtain c where c: "c < length copies" "coordinate_loop tile 0 axes = Some c" using Cons.prems(1) [of tile] by auto
  have "copies ! c + 1 < 2 ^ 16" using Cons.prems(2) [OF c(1)] c(2) by simp
  moreover have "\<exists>copies'. count_copies axes tls (copies[c := copies ! c + 1]) = Inr copies'"
  proof (rule Cons.IH)
    show "\<exists>k<length (copies[c := copies ! c + 1]). coordinate_loop t 0 axes = Some k" if "t \<in> set tls" for t
      using Cons.prems(1) [of t] that by simp
    show "copies[c := copies ! c + 1] ! k + length (filter (\<lambda>tile. coordinate_loop tile 0 axes = Some k) tls) < 2 ^ 16"
      if "k < length (copies[c := copies ! c + 1])" for k
      using Cons.prems(2) [of k] that c by (cases "k = c") (simp_all add: nth_list_update)
  qed
  ultimately show ?case using c by (simp add: checked_add_def)
qed simp

lemma balanced_count:
  assumes t: "balanced t" and strides: "axis_strides t = Inr strides" and small: "tiling_tiles t < 2 ^ 16" and pos: "0 < tiling_tiles t"
  shows "\<exists>copies. count_copies (zip (tiling_axes t) strides) [0..<tiling_tiles t] (replicate (tiling_tiles t div replicas t) 0) = Inr copies
    \<and> (\<forall>n\<in>set copies. n = replicas t)"
proof -
  let ?axes = "zip (tiling_axes t) strides" and ?ps = "map partitions (tiling_axes t)" and ?M = "tiling_tiles t" and ?R = "replicas t"
  have len: "length strides = length (tiling_axes t)" using axis_strides_length strides by (simp add: axis_strides_def)
  have R: "0 < ?R" "?R * prod_list ?ps = ?M" and
    bal: "\<And>ds. in_box ?ps ds \<Longrightarrow> card {tile. tile < ?M \<and> tile_digits ?axes tile = ds} = ?R"
    using t strides by (auto simp: balanced_def)
  have P: "0 < prod_list ?ps" "?M div ?R = prod_list ?ps" "?R \<le> ?M" "prod_list ?ps \<le> ?M"
    using R pos by (auto simp: R(2) [symmetric])
  have parts: "map (\<lambda>(t, stride). partitions t) ?axes = ?ps" using len by (intro nth_equalityI) simp_all
  have pairs: "map (\<lambda>(t, stride). (partitions t, (tile div stride) mod partitions t)) ?axes = zip ?ps (tile_digits ?axes tile)" for tile
    using len by (intro nth_equalityI) (simp_all add: tile_digits_def)
  have box: "in_box ?ps (tile_digits ?axes tile)" for tile
  proof -
    have "0 < ?ps ! k" if "k < length ?ps" for k
      using P(1) nth_mem [OF that] by (metis gr_zeroI prod_list_zero_iff)
    then show ?thesis using len by (simp add: in_box_nth tile_digits_def)
  qed
  have loop: "coordinate_loop tile 0 ?axes = Some (box_index ?ps (tile_digits ?axes tile))" for tile
  proof -
    have "(0 + 1) * prod_list (map (\<lambda>(t, stride). partitions t) ?axes) \<le> 2 ^ 64" using P(4) small by (simp add: parts)
    from coordinate_loop_bounded [OF this] P(1) obtain c where c: "coordinate_loop tile 0 ?axes = Some c" by (auto simp: parts)
    show ?thesis using coordinate_loop_Some [OF c] c by (simp add: pairs box_index_def)
  qed
  have number: "length (filter (\<lambda>tile. coordinate_loop tile 0 ?axes = Some c) [0..<?M]) = ?R" if c: "c < prod_list ?ps" for c
  proof -
    let ?ds = "radix_digits ?ps c"
    have ds: "in_box ?ps ?ds" "box_index ?ps ?ds = c" using c radix_digits_in_box [of ?ps c] by (simp_all add: box_index_digits)
    have "length (filter (\<lambda>tile. coordinate_loop tile 0 ?axes = Some c) [0..<?M])
        = card (set (filter (\<lambda>tile. coordinate_loop tile 0 ?axes = Some c) [0..<?M]))"
      by (rule distinct_card [symmetric]) simp
    also have "set (filter (\<lambda>tile. coordinate_loop tile 0 ?axes = Some c) [0..<?M]) = {tile. tile < ?M \<and> tile_digits ?axes tile = ?ds}"
      using box_index_inj [OF box ds(1)] ds(2) by (auto simp: loop)
    finally show ?thesis using bal [OF ds(1)] by simp
  qed
  have "\<exists>copies. count_copies ?axes [0..<?M] (replicate (?M div ?R) 0) = Inr copies"
  proof (rule count_copies_complete)
    show "\<exists>c<length (replicate (?M div ?R) (0::nat)). coordinate_loop tile 0 ?axes = Some c" for tile
      using box_index_less [OF box] by (simp add: loop P(2))
    show "replicate (?M div ?R) 0 ! c + length (filter (\<lambda>tile. coordinate_loop tile 0 ?axes = Some c) [0..<?M]) < 2 ^ 16"
      if "c < length (replicate (?M div ?R) (0::nat))" for c
      using number [of c] that P(2,3) small by simp
  qed
  then obtain copies where copies: "count_copies ?axes [0..<?M] (replicate (?M div ?R) 0) = Inr copies" by blast
  have "\<forall>n\<in>set copies. n = ?R"
    using count_copies_Inr [OF copies] number P(2) by (auto simp: in_set_conv_nth)
  then show ?thesis using copies by blast
qed

lemma balanced_accepted:
  assumes t: "balanced (layout_tiling l)" and small: "tiling_tiles (layout_tiling l) < 2 ^ 16" and err: "padded_shape l shape = Inl e"
  shows "\<not> mapping_error e"
proof
  assume m: "mapping_error e"
  let ?t = "layout_tiling l"
  obtain strides where st: "axis_strides ?t = Inr strides" and R: "0 < replicas ?t"
    "replicas ?t * prod_list (map partitions (tiling_axes ?t)) = tiling_tiles ?t"
    using t by (auto simp: balanced_def)
  have pos: "0 < tiling_tiles ?t"
  proof (rule ccontr)
    assume "\<not> 0 < tiling_tiles ?t"
    then have "e = Fail EmptyTileGroup" using err by (simp add: padded_shape_def Let_def layout_fail_def)
    then show False using m by (simp add: mapping_error_def)
  qed
  have g: "linear_grain ?t = None"
  proof (rule ccontr)
    assume "linear_grain ?t \<noteq> None"
    then have "e = Fail EmptyAxisTiling" using err pos R(1) by (auto simp: padded_shape_def Let_def layout_fail_def split: if_splits)
    then show False using m by (simp add: mapping_error_def)
  qed
  have P: "0 < prod_list (map partitions (tiling_axes ?t))" using pos R(2) by (metis gr_zeroI mult_0_right less_irrefl)
  show False
  proof (cases "pad_axes (replicas ?t, shape, []) (tiling_axes ?t)")
    case (Inl e')
    then have "\<not> mapping_error e'" using pad_axes_no_mapping_error R(2) P small by simp
    then show False using err m g Inl pos R(1) by (simp add: padded_shape_def Let_def)
  next
    case (Inr r)
    obtain u dims used where r: "r = (u, dims, used)" by (cases r)
    have "u = tiling_tiles ?t" using pad_axes_Inr [OF Inr [unfolded r]] R(2) by simp
    moreover from balanced_count [OF t st small pos] obtain copies where
      "count_copies (zip (tiling_axes ?t) strides) [0..<tiling_tiles ?t] (replicate (tiling_tiles ?t div replicas ?t) 0) = Inr copies"
      "\<not> list_ex (\<lambda>n. n \<noteq> replicas ?t) copies"
      by (auto simp: list_ex_iff)
    ultimately show False using err g pos R(1) by (simp add: padded_shape_def Let_def r lift_layout_def st Inr split: if_splits)
  qed
qed

subsection \<open>Some of the digits of a mixed-radix number\<close>

text \<open>
  Strides and radices in ascending order, with gaps: each stride is a multiple of the span of
  the digits below it, and the span of all of them divides \<open>M\<close>.
\<close>

fun chain :: "nat \<Rightarrow> (nat \<times> nat) list \<Rightarrow> nat \<Rightarrow> bool" where
  "chain b [] M \<longleftrightarrow> b dvd M"
| "chain b ((s, p) # ds) M \<longleftrightarrow> b dvd s \<and> chain (s * p) ds M"

lemma chain_dvd: "chain b ds M \<Longrightarrow> b dvd M"
  by (induction b ds M rule: chain.induct) (auto intro: dvd_trans dvd_mult2)

lemma chain_weaken: "chain b ds M \<Longrightarrow> c dvd b \<Longrightarrow> chain c ds M"
  by (cases ds) (auto intro: dvd_trans)

lemma chain_extend: "chain b ds M \<Longrightarrow> M dvd N \<Longrightarrow> chain b ds N"
  by (induction b ds M rule: chain.induct) (auto intro: dvd_trans)

lemma chain_subseq: "subseq xs ys \<Longrightarrow> chain b ys M \<Longrightarrow> chain b xs M"
proof (induction xs ys arbitrary: b rule: list_emb.induct)
  case (list_emb_Nil ys) then show ?case using chain_dvd by simp
next
  case (list_emb_Cons xs ys y)
  obtain s p where y: "y = (s, p)" by (cases y)
  from list_emb_Cons.prems have "b dvd s * p" "chain (s * p) ys M" by (auto simp: y)
  then show ?case using list_emb_Cons.IH chain_weaken by blast
next
  case (list_emb_Cons2 x y xs ys)
  then show ?case by (cases y) auto
qed

lemma chain_append: "chain b xs c \<Longrightarrow> chain c ys M \<Longrightarrow> chain b (xs @ ys) M"
  by (induction b xs c rule: chain.induct) (auto intro: chain_weaken)

lemma chain_count:
  assumes "chain b (map (\<lambda>(s, p, d). (s, p)) trs) M" and "0 < b" and "0 < M" and "\<forall>(s, p, d)\<in>set trs. d < p"
  shows "card {t. t < M \<and> Q (t mod b) \<and> digits_match trs t} * (digit_product trs * b) = card {x. x < b \<and> Q x} * M"
  using assms
proof (induction trs arbitrary: b Q)
  case Nil
  then obtain m where "M = m * b" by (auto elim: dvdE simp: mult.commute)
  then show ?case using card_blocks [OF Nil(2), of m "\<lambda>_. True" Q] by (simp add: digits_match_def digit_product_def)
next
  case (Cons x trs)
  obtain s p d where x: "x = (s, p, d)" by (cases x)
  from Cons.prems(1) obtain g where s: "s = b * g" and rest: "chain (s * p) (map (\<lambda>(s, p, d). (s, p)) trs) M"
    by (auto simp: x elim: dvdE)
  have "s * p dvd M" by (rule chain_dvd [OF rest])
  then have pos: "0 < s * p" using Cons.prems(3) by (metis dvd_0_left_iff gr0I less_irrefl)
  then have sp: "0 < s" "0 < p" "0 < g" by (simp_all add: s)
  have d: "d < p" using Cons.prems(4) by (simp add: x)
  let ?Q = "\<lambda>x. Q (x mod b) \<and> x div s = d"
  have low: "(t mod (s * p)) mod b = t mod b" for t
    by (rule mod_mod_cancel) (simp add: s)
  have "(t mod (s * p)) div s = (t div s) mod p" for t
    using sp(1) by (simp add: mod_mult2_eq)
  then have match: "Q (t mod b) \<and> digits_match (x # trs) t \<longleftrightarrow> ?Q (t mod (s * p)) \<and> digits_match trs t" for t
    by (auto simp: digits_match_def x low)
  have "card {r. r < s * p \<and> ?Q r} = card {q. q < p \<and> q = d} * card {r. r < s \<and> Q (r mod b)}"
    using card_blocks [OF sp(1), of p "\<lambda>q. q = d" "\<lambda>r. Q (r mod b)"] mod_mod_cancel [of b s]
    by (simp add: s mult.commute [of p] conj_commute cong: conj_cong)
  also have "{q. q < p \<and> q = d} = {d}" using d by auto
  also have "card {r. r < s \<and> Q (r mod b)} = g * card {r. r < b \<and> Q r}"
    using card_blocks [OF Cons.prems(2), of g "\<lambda>_. True" Q] by (simp add: s mult.commute)
  finally have q: "card {r. r < s * p \<and> ?Q r} = g * card {r. r < b \<and> Q r}" by simp
  have "\<forall>(s, p, d)\<in>set trs. d < p" using Cons.prems(4) by simp
  from Cons.IH [OF rest pos Cons.prems(3) this, of ?Q]
  have "g * (card {t. t < M \<and> Q (t mod b) \<and> digits_match (x # trs) t} * (digit_product (x # trs) * b))
      = g * (card {r. r < b \<and> Q r} * M)"
    unfolding q match by (simp add: digit_product_def x s mult_ac)
  then show ?case using sp(3) by simp
qed

lemma mset_map_lift: "mset (map f xs) = mset ys \<Longrightarrow> \<exists>xs'. mset xs' = mset xs \<and> map f xs' = ys"
proof (induction ys arbitrary: xs)
  case Nil then show ?case by simp
next
  case (Cons y ys)
  have "set (map f xs) = set (y # ys)" by (rule mset_eq_setD [OF Cons.prems])
  then have "y \<in> f ` set xs" by simp
  then obtain x where x: "x \<in> set xs" "f x = y" by auto
  obtain us vs where xs: "xs = us @ x # vs" using x(1) by (meson split_list)
  have "add_mset y (mset (map f (us @ vs))) = add_mset y (mset ys)"
    using Cons.prems unfolding xs map_append list.map x(2) mset_append mset.simps by (simp only: union_mset_add_mset_right)
  then have "mset (map f (us @ vs)) = mset ys" by (simp only: add_mset_add_mset_same_iff)
  from Cons.IH [OF this] obtain xs' where xs': "mset xs' = mset (us @ vs)" "map f xs' = ys" by blast
  have "mset (x # xs') = mset xs" using xs'(1) by (simp add: xs)
  moreover have "map f (x # xs') = y # ys" using xs'(2) x(2) by simp
  ultimately show ?case by (intro exI [of _ "x # xs'"] conjI)
qed

text \<open>Only the axes with several partitions matter.\<close>

lemma big_digits:
  assumes "\<forall>(s, p, d)\<in>set trs. d < p"
  shows "digits_match (filter (\<lambda>(s, p, d). 1 < p) trs) t \<longleftrightarrow> digits_match trs t"
    and "digit_product (filter (\<lambda>(s, p, d). 1 < p) trs) = digit_product trs"
proof -
  show "digits_match (filter (\<lambda>(s, p, d). 1 < p) trs) t \<longleftrightarrow> digits_match trs t"
    using assms
  proof (induction trs)
    case (Cons x trs)
    obtain s p d where x: "x = (s, p, d)" by (cases x)
    have "p = 1" "d = 0" if "\<not> 1 < p" using that Cons.prems by (auto simp: x)
    then have "(t div s) mod p = d" if "\<not> 1 < p" using that by simp
    then show ?case using Cons by (cases "1 < p") (auto simp: digits_match_def x)
  qed simp
  show "digit_product (filter (\<lambda>(s, p, d). 1 < p) trs) = digit_product trs"
    using assms
  proof (induction trs)
    case (Cons x trs)
    obtain s p d where x: "x = (s, p, d)" by (cases x)
    have "p = 1" if "\<not> 1 < p" using that Cons.prems by (simp add: x)
    then show ?case using Cons by (auto simp: digit_product_def x)
  qed simp
qed

lemma big_axis_digits:
  "length ds = length axes \<Longrightarrow>
   map (\<lambda>(s, p, d). (s, p)) (filter (\<lambda>(s, p, d). 1 < p) (axis_digits axes ds))
   = filter (\<lambda>(s, p). 1 < p) (map (\<lambda>(t, s). (s, partitions t)) axes)"
  by (induction ds axes rule: list_induct2) (auto simp: axis_digits_def)

lemma chain_balanced:
  assumes R: "0 < replicas t" "replicas t * prod_list (map partitions (tiling_axes t)) = tiling_tiles t" and pos: "0 < tiling_tiles t"
    and strides: "axis_strides t = Inr strides"
    and ps: "mset (filter (\<lambda>(s, p). 1 < p) (map (\<lambda>(t, s). (s, partitions t)) (zip (tiling_axes t) strides))) = mset ps"
    and chain: "chain 1 ps (tiling_tiles t)"
  shows "balanced t"
proof -
  let ?axes = "zip (tiling_axes t) strides" and ?ps = "map partitions (tiling_axes t)" and ?M = "tiling_tiles t"
  let ?f = "\<lambda>(s, p, d). (s, p)" and ?b = "\<lambda>(s, p, d). 1 < p"
  have len: "length strides = length (tiling_axes t)" using axis_strides_length strides by (simp add: axis_strides_def)
  have "card {tile. tile < ?M \<and> tile_digits ?axes tile = ds} = replicas t" if ds: "in_box ?ps ds" for ds
  proof -
    let ?trs = "axis_digits ?axes ds"
    have l: "length ds = length ?axes" using ds len by (simp add: in_box_nth)
    have good: "\<forall>(s, p, d)\<in>set ?trs. d < p"
      using ds len by (fastforce simp: axis_digits_def in_box_nth in_set_conv_nth)
    have prod: "digit_product ?trs = prod_list ?ps"
    proof -
      have "map (\<lambda>(s, p, d). p) ?trs = ?ps" using l len by (intro nth_equalityI) (simp_all add: axis_digits_def)
      then show ?thesis by (simp add: digit_product_def)
    qed
    obtain trs where trs: "mset trs = mset (filter ?b ?trs)" "map ?f trs = ps"
      using mset_map_lift [of ?f "filter ?b ?trs" ps] ps unfolding big_axis_digits [OF l] by blast
    have same: "set trs = set (filter ?b ?trs)" using trs(1) by (rule mset_eq_setD)
    have "digit_product trs = digit_product (filter ?b ?trs)"
      unfolding digit_product_def prod_mset_prod_list [symmetric] mset_map trs(1) ..
    then have prod': "digit_product trs = prod_list ?ps" using big_digits(2) [OF good] prod by simp
    have match: "digits_match trs tile \<longleftrightarrow> tile_digits ?axes tile = ds" for tile
      using big_digits(1) [OF good] same digits_match_iff [OF l] by (simp add: digits_match_def)
    have "\<forall>(s, p, d)\<in>set trs. d < p" using good same by auto
    with chain_count [of 1 trs ?M "\<lambda>_. True"] chain trs(2) pos
    have "card {tile. tile < ?M \<and> digits_match trs tile} * prod_list ?ps = ?M" by (simp add: prod')
    moreover have "0 < prod_list ?ps" using R(2) pos by (metis gr_zeroI mult_0_right less_irrefl)
    ultimately show ?thesis unfolding match using R(2) by (metis less_numeral_extra(3) mult_cancel2)
  qed
  then show ?thesis using R strides unfolding balanced_def by blast
qed

lemma explicit_strides:
  "\<forall>t\<in>set ts. 0 < partitions t \<and> (\<exists>s>0. tile_stride t = Some s) \<Longrightarrow> p * prod_list (map partitions ts) < 2 ^ 32 \<Longrightarrow>
   axis_strides_loop p ts = Inr (map (\<lambda>t. the (tile_stride t)) ts)"
proof (induction ts arbitrary: p)
  case (Cons t ts)
  have "0 < prod_list (map partitions ts)" using Cons.prems(1) by (induction ts) auto
  then have "p * partitions t * 1 \<le> p * partitions t * prod_list (map partitions ts)" by (intro mult_le_mono2) simp
  then have "p * partitions t \<le> p * prod_list (map partitions (t # ts))" by (simp add: mult.assoc)
  from le_less_trans [OF this Cons.prems(2)] have "checked_mul 32 p (partitions t) = Some (p * partitions t)"
    by (simp add: checked_mul_def)
  then show ?case using Cons.IH [of "p * partitions t"] Cons.prems by (auto simp: mult.assoc)
qed simp

lemma explicit_balanced:
  assumes "0 < replicas t" and "replicas t * prod_list (map partitions (tiling_axes t)) = tiling_tiles t" and "tiling_tiles t < 2 ^ 32"
    and ax: "\<forall>x\<in>set (tiling_axes t). 0 < partitions x \<and> (\<exists>s>0. tile_stride x = Some s)"
    and "mset (filter (\<lambda>(s, p). 1 < p) (map (\<lambda>x. (the (tile_stride x), partitions x)) (tiling_axes t))) = mset ps"
    and "chain 1 ps (tiling_tiles t)"
  shows "balanced t"
proof (rule chain_balanced)
  show "axis_strides t = Inr (map (\<lambda>t. the (tile_stride t)) (tiling_axes t))"
    unfolding axis_strides_def by (rule explicit_strides) (use assms in auto)
  have z: "map (\<lambda>(t, s). (s, partitions t)) (zip ts (map (\<lambda>t. the (tile_stride t)) ts))
      = map (\<lambda>x. (the (tile_stride x), partitions x)) ts" for ts
    by (induction ts) auto
  show "mset (filter (\<lambda>(s, p). 1 < p) (map (\<lambda>(t, s). (s, partitions t))
      (zip (tiling_axes t) (map (\<lambda>t. the (tile_stride t)) (tiling_axes t))))) = mset ps"
    unfolding z by (rule assms(5))
  have "0 < prod_list (map partitions ts)" if "\<forall>x\<in>set ts. 0 < partitions x" for ts using that by (induction ts) auto
  then have "0 < prod_list (map partitions (tiling_axes t))" using ax by blast
  then show "0 < tiling_tiles t" using assms(1,2) by (metis nat_0_less_mult_iff)
qed (use assms in auto)

subsection \<open>The fast check\<close>

text \<open>A tiling whose declared tiles are the ones its axes imply and whose strides pass the fast check.\<close>

definition well_mapped :: "tensor_tiling \<Rightarrow> bool" where
  "well_mapped t \<longleftrightarrow>
     0 < replicas t \<and> replicas t * prod_list (map partitions (tiling_axes t)) = tiling_tiles t
   \<and> (case axis_strides t of Inl _ \<Rightarrow> False | Inr strides \<Rightarrow> has_regular_tile_mapping t strides)"

lemma well_mapped_balanced:
  assumes "well_mapped t"
  shows "balanced t"
proof -
  obtain strides where st: "axis_strides t = Inr strides" "has_regular_tile_mapping t strides"
    and R: "0 < replicas t" "replicas t * prod_list (map partitions (tiling_axes t)) = tiling_tiles t"
    using assms by (auto simp: well_mapped_def split: sum.splits)
  have len: "length strides = length (tiling_axes t)" using axis_strides_length st(1) by (simp add: axis_strides_def)
  have "card {tile. tile < tiling_tiles t \<and> tile_digits (zip (tiling_axes t) strides) tile = ds} = replicas t"
    if ds: "in_box (map partitions (tiling_axes t)) ds" for ds
  proof -
    have "length ds = length (zip (tiling_axes t) strides)" using ds len by (simp add: in_box_nth)
    then show ?thesis
      using regular_mapping_count [OF st(2) len, of ds "tiling_tiles t"] ds len R(2) by (simp add: digits_match_iff in_box_nth)
  qed
  then show ?thesis using R st(1) unfolding balanced_def by blast
qed

lemma two_axes_mapped:
  assumes "0 < R" and "0 < p" and "0 < q" and "R * p * q = n" and "n < 2 ^ 16"
    and "partitions t = p" and "partitions u = q"
    and "(case tile_stride t of None \<Rightarrow> R | Some s \<Rightarrow> s) = a" and "(case tile_stride u of None \<Rightarrow> R * p | Some s \<Rightarrow> s) = b"
    and strides: "0 < a" "0 < b"
      "(p = 1 \<or> a dvd R) \<and> (p > 1 \<longrightarrow> q > 1 \<longrightarrow> b = a * p) \<and> (p = 1 \<longrightarrow> q = 1 \<or> b dvd R)
       \<or> (q = 1 \<or> b dvd R) \<and> (p > 1 \<longrightarrow> q > 1 \<longrightarrow> a = b * q) \<and> (q = 1 \<longrightarrow> p = 1 \<or> a dvd R)"
  shows "well_mapped \<lparr>tiling_tiles = n, replicas = R, tiling_axes = [t, u]\<rparr>"
proof -
  have "R * p \<le> R * p * q" using assms(3) by simp
  then have m: "checked_mul 32 R p = Some (R * p)" "checked_mul 32 (R * p) q = Some (R * p * q)"
    using assms(4,5) by (auto simp: checked_mul_def)
  have ax: "axis_strides \<lparr>tiling_tiles = n, replicas = R, tiling_axes = [t, u]\<rparr> = Inr [a, b]"
    using m assms(6-11) by (simp add: axis_strides_def Let_def)
  have pq: "R * q \<le> n" "R * p \<le> n" "n < 2 ^ 32" using assms(2-5) by auto
  have scaled: "c * x < 2 ^ 32" if "c dvd R" "R * x \<le> n" for c x
  proof -
    have "c * x \<le> R * x" using that(1) assms(1) by (intro mult_le_mono1 dvd_imp_le)
    then show ?thesis using that(2) pq(3) by linarith
  qed
  have bound: "a * p < 2 ^ 32" "a * p * q < 2 ^ 32" if "a dvd R"
    using scaled [OF that, of p] scaled [OF that, of "p * q"] pq(2) assms(4) by (simp_all add: mult_ac)
  have bound2: "b * q < 2 ^ 32" "b * q * p < 2 ^ 32" if "b dvd R"
    using scaled [OF that, of q] scaled [OF that, of "p * q"] pq(1) assms(4) by (simp_all add: mult_ac)
  have "has_regular_tile_mapping \<lparr>tiling_tiles = n, replicas = R, tiling_axes = [t, u]\<rparr> [a, b]"
  proof (cases "p > 1"; cases "q > 1")
    assume "p > 1" "q > 1"
    then have "(a dvd R \<and> b = a * p) \<or> (b dvd R \<and> a = b * q)" using strides(3) by auto
    then show ?thesis
    proof
      assume c: "a dvd R \<and> b = a * p"
      have "a < b" using c \<open>p > 1\<close> strides(1) by simp
      then show ?thesis using c \<open>p > 1\<close> \<open>q > 1\<close> strides bound assms(6,7)
        by (simp add: has_regular_tile_mapping_def Let_def is_multiple_of_dvd checked_mul_def)
    next
      assume c: "b dvd R \<and> a = b * q"
      have "b < a" using c \<open>q > 1\<close> strides(2) by simp
      then show ?thesis using c \<open>p > 1\<close> \<open>q > 1\<close> strides bound2 assms(6,7)
        by (simp add: has_regular_tile_mapping_def Let_def is_multiple_of_dvd checked_mul_def)
    qed
  next
    assume "p > 1" "\<not> q > 1"
    then show ?thesis using strides bound assms(3,6,7)
      by (auto simp: has_regular_tile_mapping_def Let_def is_multiple_of_dvd checked_mul_def)
  next
    assume "\<not> p > 1" "q > 1"
    then show ?thesis using strides bound2 assms(2,6,7)
      by (auto simp: has_regular_tile_mapping_def Let_def is_multiple_of_dvd checked_mul_def)
  next
    assume "\<not> p > 1" "\<not> q > 1"
    then show ?thesis using assms(6,7) by (simp add: has_regular_tile_mapping_def Let_def)
  qed
  then show ?thesis using ax assms(1,4,6,7) by (simp add: well_mapped_def mult_ac)
qed

lemma axis_strides_snoc:
  assumes "axis_strides_loop p ts = Inr ss" and "partitions x = 1" and "tile_stride x = None"
    and "0 < p * prod_list (map partitions ts)" and "p * prod_list (map partitions ts) < 2 ^ 32"
  shows "axis_strides_loop p (ts @ [x]) = Inr (ss @ [p * prod_list (map partitions ts)])"
  using assms
proof (induction p ts arbitrary: ss rule: axis_strides_loop.induct)
  case (1 p) then show ?case by (simp add: Let_def checked_mul_def)
next
  case (2 p t ts)
  from "2.prems"(1) obtain ss' where "checked_mul 32 p (partitions t) = Some (p * partitions t)"
    "(case tile_stride t of None \<Rightarrow> p | Some s \<Rightarrow> s) \<noteq> 0" "axis_strides_loop (p * partitions t) ts = Inr ss'"
    "ss = (case tile_stride t of None \<Rightarrow> p | Some s \<Rightarrow> s) # ss'"
    by (auto simp: Let_def res_simps checked_mul_def split: if_splits)
  then show ?case using "2.IH" "2.prems"(2-) by (simp add: Let_def mult.assoc)
qed

lemma well_mapped_snoc:
  assumes "well_mapped t" and "tiling_tiles t < 2 ^ 16" and "0 < tiling_tiles t" and "partitions x = 1" and "tile_stride x = None"
  shows "well_mapped (t\<lparr>tiling_axes := tiling_axes t @ [x]\<rparr>)"
proof -
  obtain ss where ss: "axis_strides_loop (replicas t) (tiling_axes t) = Inr ss" "has_regular_tile_mapping t ss"
    using assms(1) by (auto simp: well_mapped_def axis_strides_def split: sum.splits)
  have n: "replicas t * prod_list (map partitions (tiling_axes t)) = tiling_tiles t" using assms(1) by (simp add: well_mapped_def)
  then have strides: "axis_strides_loop (replicas t) (tiling_axes t @ [x]) = Inr (ss @ [tiling_tiles t])"
    using axis_strides_snoc [OF ss(1) assms(4,5)] assms(2,3) by simp
  have "has_regular_tile_mapping (t\<lparr>tiling_axes := tiling_axes t @ [x]\<rparr>) (ss @ [tiling_tiles t])"
    using ss(2) axis_strides_length [OF ss(1)] assms(4) by (simp add: has_regular_tile_mapping_def Let_def cong: list.case_cong)
  then show ?thesis using assms(1,4) strides by (simp add: well_mapped_def axis_strides_def)
qed

lemma well_mapped_transpose:
  assumes "well_mapped (layout_tiling l)"
  shows "well_mapped (layout_tiling (transpose_matrix_axes ord l))"
proof -
  let ?f = "\<lambda>t. t\<lparr>tiling_axis := swap_matrix_axis (tiling_axis t)\<rparr>"
  have strides: "axis_strides_loop p (map ?f ts) = axis_strides_loop p ts" for p ts
    by (induction ts arbitrary: p) (auto simp: Let_def ok_or_def split: option.split)
  have digits: "map (\<lambda>(t, stride). (stride, partitions t)) (filter (\<lambda>(t, _). partitions t > 1) (zip (map ?f ts) ss))
      = map (\<lambda>(t, stride). (stride, partitions t)) (filter (\<lambda>(t, _). partitions t > 1) (zip ts ss))" for ts ss
    by (induction ts ss rule: list_induct2') auto
  have "has_regular_tile_mapping (u\<lparr>tiling_axes := map ?f (tiling_axes u)\<rparr>) ss = has_regular_tile_mapping u ss"
    for u :: tensor_tiling and ss
  proof -
    have "tiling_axes (u\<lparr>tiling_axes := map ?f (tiling_axes u)\<rparr>) = map ?f (tiling_axes u)"
      "replicas (u\<lparr>tiling_axes := map ?f (tiling_axes u)\<rparr>) = replicas u" by simp_all
    then show ?thesis unfolding has_regular_tile_mapping_def by (simp only: digits)
  qed
  moreover have "map partitions (map ?f ts) = map partitions ts" for ts by simp
  ultimately show ?thesis
    using assms by (simp add: well_mapped_def axis_strides_def strides transpose_matrix_axes_def comp_def split: sum.splits)
qed

text \<open>The constructors of \<open>tensor/layout.rs\<close> on a grid of \<open>rows\<close> by \<open>columns\<close> by \<open>inner\<close> partitions.\<close>

definition grid_layouts :: "nat \<Rightarrow> nat \<Rightarrow> nat \<Rightarrow> nat \<Rightarrow> nat \<Rightarrow> grid_order \<Rightarrow> layout list" where
  "grid_layouts rows columns inner block cblock grid =
     [attention_output rows columns, attention_query rows columns, attention_key rows columns,
      attention_block_major_key_value rows columns, amp_left block rows,
      amp_left_grid block (rows * columns) rows columns grid,
      amp_left_parallel_grid block (rows * columns * inner) rows columns inner,
      amp_transposed_left_parallel_grid block (rows * columns * inner) rows columns inner,
      block_major_matrix_grid block cblock (rows * columns) rows columns grid,
      amp_left_result_grid cblock (rows * columns) rows columns grid,
      amp_transposed_left_result_grid cblock (rows * columns) rows columns grid,
      amp_left_result_replicated_grid (rows * columns) rows columns]"

lemma attention_tiling_mapped:
  assumes "0 < h" and "0 < q" and "h * q < 2 ^ 16"
  shows "well_mapped (attention_tiling h q)"
  unfolding attention_tiling_def
  by (rule two_axes_mapped [where R = 1 and p = q and q = h and a = h and b = 1])
    (use assms in \<open>simp_all add: layout_defs saturating_mul_def min_def mult.commute\<close>)

lemma grid_layouts_mapped:
  assumes pos: "0 < r" "0 < c" "0 < i" and small: "r * c * i < 2 ^ 16"
  shows "list_all (\<lambda>l. well_mapped (layout_tiling l)) (grid_layouts r c i block cb grid)"
proof -
  have "r * c \<le> r * c * i" "r \<le> r * c" using pos by simp_all
  then have rc: "r * c < 2 ^ 16" "r < 2 ^ 16" using small by linarith+
  have att: "well_mapped (attention_tiling r c)" by (rule attention_tiling_mapped) (use pos rc in auto)
  have sat: "saturating_mul 16 r c = r * c" using rc by (simp add: saturating_mul_def)
  have tt: "tiling_tiles (attention_tiling r c) = r * c" by (simp add: attention_tiling_def sat)
  have out: "well_mapped (layout_tiling (attention_output r c))"
    unfolding attention_output_def row_major_def Let_def layout.simps
    by (rule well_mapped_snoc [OF att]) (use tt rc pos in \<open>simp_all add: axis_new_def\<close>)
  have key: "well_mapped (layout_tiling (attention_key r c))"
  proof -
    have "well_mapped \<lparr>tiling_tiles = r * c, replicas = 1,
         tiling_axes = [with_tile_stride 1 (axis_new (FromEnd 3) r 1 Reject),
            with_tile_stride r (axis_new (FromEnd 2) c AMP_INNER_BLOCK Zero)]\<rparr>"
      by (rule two_axes_mapped [where R = 1 and p = r and q = c and a = 1 and b = r])
        (use pos rc in \<open>simp_all add: axis_new_def with_tile_stride_def\<close>)
    from well_mapped_snoc [OF this, of "axis_new (FromEnd 1) 1 AMP_COLUMN_MICRO Zero"] show ?thesis
      using rc pos by (simp add: attention_key_def sat axis_new_def with_tile_stride_def)
  qed
  have left: "well_mapped (layout_tiling (amp_left block n))" if "0 < n" "n < 2 ^ 16" for n
    unfolding amp_left_def layout.simps
    by (rule two_axes_mapped [where R = 1 and p = n and q = 1 and a = 1 and b = n])
      (use that in \<open>simp_all add: axis_new_def\<close>)
  have lgrid: "well_mapped (layout_tiling (amp_left_grid block (r * c) r c grid))"
  proof (cases "c = 1")
    case True then show ?thesis using left [of r] pos rc by (simp add: amp_left_grid_def)
  next
    case False
    have "well_mapped \<lparr>tiling_tiles = r * c, replicas = c,
         tiling_axes = [with_tile_stride (case grid of ColumnsFast \<Rightarrow> c | RowsFast \<Rightarrow> 1) (axis_new (FromEnd 2) r 1 Reject),
            axis_new (FromEnd 1) 1 block Zero]\<rparr>"
      by (rule two_axes_mapped [where R = c and p = r and q = 1 and a = "case grid of ColumnsFast \<Rightarrow> c | RowsFast \<Rightarrow> 1" and b = "c * r"])
        (use pos rc in \<open>simp_all add: axis_new_def with_tile_stride_def mult.commute split: grid_order.split\<close>)
    then show ?thesis using False by (simp add: amp_left_grid_def)
  qed
  have par: "well_mapped (layout_tiling (amp_left_parallel_grid block (r * c * i) r c i))"
    unfolding amp_left_parallel_grid_def layout.simps
    by (rule two_axes_mapped [where R = c and p = i and q = r and a = c and b = "c * i"])
      (use pos small in \<open>simp_all add: axis_new_def mult_ac\<close>)
  have bm: "well_mapped (layout_tiling (block_major_matrix_grid block cb (r * c) r c grid))"
    unfolding block_major_matrix_grid_def layout.simps
    by (rule two_axes_mapped [where R = r and p = 1 and q = c and a = r and b = "case grid of ColumnsFast \<Rightarrow> 1 | RowsFast \<Rightarrow> r"])
      (use pos rc in \<open>simp_all add: axis_new_def with_tile_stride_def split: grid_order.split\<close>)
  have res: "well_mapped (layout_tiling (amp_left_result_grid cb (r * c) r c grid))"
    unfolding amp_left_result_grid_def layout.simps
    by (rule two_axes_mapped [where R = 1 and p = c and q = r and a = "case grid of ColumnsFast \<Rightarrow> 1 | RowsFast \<Rightarrow> r"
          and b = "case grid of ColumnsFast \<Rightarrow> c | RowsFast \<Rightarrow> 1"])
      (use pos rc in \<open>simp_all add: axis_new_def with_tile_stride_def mult.commute split: grid_order.split\<close>)
  have rep: "well_mapped (layout_tiling (amp_left_result_replicated_grid (r * c) r c))"
    unfolding amp_left_result_replicated_grid_def amp_left_result_def amp_left_def Let_def
    by (simp, rule two_axes_mapped [where R = c and p = r and q = 1 and a = c and b = "c * r"])
      (use pos rc in \<open>simp_all add: axis_new_def mult.commute\<close>)
  have "layout_tiling (attention_query r c) = layout_tiling (attention_output r c)"
    "layout_tiling (attention_block_major_key_value r c) = layout_tiling (attention_key r c)"
    by (simp_all add: attention_query_def attention_block_major_key_value_def)
  then show ?thesis
    using out key left [of r] pos(1) rc(2) lgrid par bm res rep well_mapped_transpose
    by (simp add: grid_layouts_def amp_transposed_left_parallel_grid_def amp_transposed_left_result_grid_def)
qed

end
