(* ===== verification/Planner.thy ===== *)
theory Planner
  imports Tilings Target
begin

text \<open>
  The layouts the planner proposes (\<open>planner/candidates.rs\<close>, \<open>planner/parameters.rs\<close>,
  \<open>planner/gemm.rs\<close>, \<open>planner/construction.rs\<close>): storage of boundary values, resident formats of
  parameters, the operand, result and reduction layouts of every GEMM assignment, the layout
  its partial products are unpacked in, and the one-tile layout a packed operand is assembled in. Costs, the search over alternatives and the
  construction of mid graphs are not modelled; the first consumer of a parameter is an argument.

  The lemmas show that each of these layouts assigns every coordinate to as many tiles as it
  declares replicas, uses at most the configured tiles, and is accepted by the tile mapping checks.

  \<open>u16\<close> products of partition counts are unbounded here: they divide a tile count, which the
  lemmas on \<open>tiling_tiles\<close> show to be at most the configured one. A slice index out of range, an
  arithmetic overflow and a failed \<open>unwrap\<close> are \<open>Panic\<close>; products of \<open>u64\<close> element counts are unbounded.
\<close>

subsection \<open>Configuration and errors\<close>

datatype planning_error = Unimplemented string

type_synonym 'a planning_result = "planning_error fault + 'a"

record pipeline_config =
  config_target :: target
  config_tiles :: nat
  standard_memory_reservation_bytes :: nat
  tile_memory_budget_bytes :: nat

record gemm_options =
  transpose_left :: bool
  transpose_right :: bool

definition div_ceil_res :: "nat \<Rightarrow> nat \<Rightarrow> 'e fault + nat" where
  "div_ceil_res a b = (if b = 0 then Inl Panic else Inr (div_ceil a b))"

text \<open>The extent \<open>n\<close> places before the end of a shape.\<close>

definition from_end :: "nat list \<Rightarrow> nat \<Rightarrow> 'e fault + nat" where
  "from_end shape n = (if 0 < n \<and> n \<le> length shape then Inr (shape ! (length shape - n)) else Inl Panic)"

subsection \<open>Storage of boundary values\<close>

text \<open>\<open>logical_linear\<close> with its tail padded instead of rejected.\<close>

definition padded_linear :: "nat \<Rightarrow> nat \<Rightarrow> layout" where
  "padded_linear owners grain =
     (let l = logical_linear owners grain; t = layout_tiling l
      in l\<lparr>layout_tiling := t\<lparr>tiling_axes := (tiling_axes t)[0 := (tiling_axes t ! 0)\<lparr>padding_mode := Zero\<rparr>]\<rparr>\<rparr>)"

definition default_layout :: "tensor_shape \<Rightarrow> nat \<Rightarrow> nat \<Rightarrow> layout planning_result" where
  "default_layout shape tiles grain =
     res_bind (div_ceil_res (elements shape) grain) (\<lambda>blocks.
     res_bind (div_ceil_res blocks tiles) (\<lambda>width.
     let owners = max (div_ceil blocks (max width 1)) 1 mod 2 ^ 16
     in Inr (if length shape > 1 \<and> list_all (\<lambda>n. n = 1) (take (length shape - 2) shape) \<and> grain = last shape
             then row_sharded owners
             else padded_linear owners grain)))"

text \<open>The set of layouts, as the list of its members.\<close>

definition default_layouts :: "tensor_shape \<Rightarrow> precision \<Rightarrow> nat \<Rightarrow> layout list planning_result" where
  "default_layouts shape p tiles =
     (let grain = 8 div precision_bytes p
      in if length shape > 1 \<and> \<not> is_multiple_of (last shape * precision_bytes p) 4 then Inr [row_sharded 1]
         else traverse (default_layout shape tiles)
                (if length shape > 1 \<and> is_multiple_of (last shape) grain \<and> last shape \<noteq> grain
                 then sort [grain, last shape] else [grain]))"

subsection \<open>GEMM grids\<close>

fun width_loop :: "nat \<Rightarrow> nat list \<Rightarrow> nat \<Rightarrow> nat list" where
  "width_loop ext [] previous = []"
| "width_loop ext (n # ns) previous =
     (let width = div_ceil ext n
      in if width \<noteq> previous then n # width_loop ext ns width else width_loop ext ns previous)"

definition partition_counts :: "nat \<Rightarrow> nat \<Rightarrow> nat list" where
  "partition_counts ext tiles = width_loop ext [1..<Suc (min ext tiles)] 0"

definition grids :: "nat \<Rightarrow> nat \<Rightarrow> nat \<Rightarrow> nat \<Rightarrow> (nat \<times> nat \<times> nat) list" where
  "grids m n k tiles =
     concat (map (\<lambda>rows.
       concat (map (\<lambda>columns.
         map (\<lambda>inner. (rows, columns, inner)) (partition_counts k (tiles div rows div columns)))
       (partition_counts n (tiles div rows))))
     (partition_counts m tiles))"

definition operand_layout :: "bool \<Rightarrow> bool \<Rightarrow> nat \<Rightarrow> nat \<Rightarrow> nat \<Rightarrow> nat \<Rightarrow> nat \<Rightarrow> nat \<Rightarrow> layout" where
  "operand_layout left transposed tiles outer inner copies k n =
     (let outer_axis = (if left \<noteq> transposed then 2 else 1);
          inner_axis = (if left \<noteq> transposed then 1 else 2)
      in \<lparr>layout_order =
            (if left then Amp (if transposed then TransposedLeft else Left)
             else if transposed then BlockMajor (TransposedMatrix (k mod 2 ^ 16) 16)
             else BlockMajor (Matrix (k mod 2 ^ 16) 16)),
          layout_tiling =
            \<lparr>tiling_tiles = tiles, replicas = copies,
             tiling_axes =
               [with_tile_stride (if left then inner * copies else 1)
                  (axis_new (FromEnd outer_axis) outer (if left then 1 else n) Zero),
                with_tile_stride (if left then copies else outer)
                  (axis_new (FromEnd inner_axis) inner k Zero)]\<rparr>,
          memory_class_of = (if left then Ipu21Standard else Ipu21Interleaved)\<rparr>)"

subsection \<open>Resident formats of parameters\<close>

definition resolve_unwrap :: "layout \<Rightarrow> tensor_shape \<Rightarrow> resolved_layout planning_result" where
  "resolve_unwrap l shape = (case resolve l shape of Inl _ \<Rightarrow> Inl Panic | Inr r \<Rightarrow> Inr r)"

fun parameter_loop ::
  "tensor_shape \<Rightarrow> bool \<Rightarrow> bool \<Rightarrow> nat \<Rightarrow> nat \<Rightarrow> nat list \<Rightarrow> (nat \<times> layout) option \<Rightarrow> (nat \<times> layout) option planning_result" where
  "parameter_loop shape left transposed inner tiles [] best = Inr best"
| "parameter_loop shape left transposed inner tiles (p # ps) best =
     (let q = min (div_ceil (shape ! inner) 16) (tiles div p);
          l = (operand_layout left transposed (p * q) p q 1 16 16)\<lparr>memory_class_of := Ipu21Standard\<rparr>
      in res_bind (resolve_unwrap l shape) (\<lambda>r.
         let score = maximum_tile_elements r
         in parameter_loop shape left transposed inner tiles ps
              (case best of
                 None \<Rightarrow> Some (score, l)
               | Some (old, _) \<Rightarrow> if score < old then Some (score, l) else best)))"

definition parameter_format :: "tensor_shape \<Rightarrow> bool \<Rightarrow> bool \<Rightarrow> pipeline_config \<Rightarrow> tensor_format planning_result" where
  "parameter_format shape left transposed config =
     (if length shape < 2 then Inl Panic
      else
      (let rank = length shape;
           inner = rank - (if left \<noteq> transposed then 1 else 2);
           outer = (if inner = rank - 1 then rank - 2 else rank - 1)
       in res_bind (parameter_loop shape left transposed inner (config_tiles config)
              (partition_counts (div_ceil (shape ! outer) (if left then 1 else 16)) (config_tiles config)) None) (\<lambda>best.
          case best of
            None \<Rightarrow> Inl Panic
          | Some (_, l) \<Rightarrow> Inr \<lparr>precision_of = F16, layout_of = l\<rparr>)))"

definition compact_format :: "tensor_shape \<Rightarrow> pipeline_config \<Rightarrow> tensor_format" where
  "compact_format shape config =
     (let bytes = saturating_mul 64 (elements shape) (precision_bytes F16);
          limit = saturating_sub (min (tile_memory_budget_bytes config) (planned_data_bytes (config_target config)))
                    (standard_memory_reservation_bytes config);
          required = div_ceil bytes (max limit 1);
          owners = min (max (max (div_ceil bytes 256) required) 1) (config_tiles config)
      in \<lparr>precision_of = F16, layout_of = padded_linear (owners mod 2 ^ 16) 4\<rparr>)"

text \<open>The kind of the first operation that reads a parameter, as far as \<open>default_format\<close> asks.\<close>

datatype consumer =
    NoConsumer
  | ElementwiseConsumer
  | GemmConsumer (reads_left: bool) (gemm_options_of: gemm_options)
  | OtherConsumer

definition row_format :: "tensor_shape \<Rightarrow> pipeline_config \<Rightarrow> tensor_format" where
  "row_format shape config =
     (let f = compact_format shape config
      in if length shape \<ge> 2
         then f\<lparr>layout_of := row_sharded (min (shape ! (length shape - 2)) (config_tiles config) mod 2 ^ 16)\<rparr>
         else f)"

fun default_format :: "consumer \<Rightarrow> tensor_shape \<Rightarrow> pipeline_config \<Rightarrow> tensor_format planning_result" where
  "default_format (GemmConsumer left opts) shape config =
     parameter_format shape left (if left then transpose_left opts else transpose_right opts) config"
| "default_format OtherConsumer shape config = Inl (Fail (Unimplemented ''parameter format for this consumer''))"
| "default_format NoConsumer shape config = Inr (row_format shape config)"
| "default_format ElementwiseConsumer shape config = Inr (row_format shape config)"

text \<open>The layout in which a packed operand is assembled on one tile before it is distributed.\<close>

definition assembled :: "layout \<Rightarrow> layout" where
  "assembled l =
     (let t = layout_tiling l
      in l\<lparr>layout_tiling := t\<lparr>tiling_tiles := 1, replicas := 1,
             tiling_axes := map (\<lambda>a. a\<lparr>partitions := 1, tile_stride := Some 1\<rparr>) (tiling_axes t)\<rparr>\<rparr>)"

subsection \<open>GEMM assignments\<close>

record gemm_choice =
  choice_left :: tensor_type
  choice_right :: tensor_type
  choice_result :: tensor_type
  choice_reduction :: "layout option"
  choice_swapped :: bool
  choice_inner_block :: nat
  choice_columns :: nat

definition gemm_precision :: "precision \<Rightarrow> precision \<Rightarrow> precision option" where
  "gemm_precision a b =
     (if a = F16 \<and> b \<noteq> F32 then Some b
      else if b = F16 \<and> a \<noteq> F32 then Some a
      else if (case a of F8F143 _ \<Rightarrow> True | _ \<Rightarrow> False) \<and> a = b then Some a
      else None)"

text \<open>Batch axes: whole groups of matrices where one matrix of a source ends inside a word.\<close>

definition source_grain :: "nat \<Rightarrow> nat \<Rightarrow> tensor_type \<Rightarrow> nat \<Rightarrow> nat planning_result" where
  "source_grain rank axis s batch_grain =
     (let shape = shape_of s
      in if axis + length shape < rank then Inr batch_grain
         else
      (let a = axis + length shape - rank
       in if shape ! a = 1 then Inr batch_grain
          else res_bind (or_panic (foldl (\<lambda>acc n. Option.bind acc (\<lambda>x. checked_mul 64 x n)) (Some 1) (drop (Suc a) shape))) (\<lambda>cells.
               res_bind (or_panic (checked_mul 64 cells (precision_bytes (precision_of (format_of s))))) (\<lambda>plane.
               Inr (max batch_grain (if is_multiple_of plane 4 then 1 else if is_multiple_of plane 2 then 2 else 4))))))"

definition split_batch ::
  "nat \<Rightarrow> nat \<Rightarrow> nat \<Rightarrow> nat \<Rightarrow> nat \<Rightarrow> (nat \<times> axis_tiling list) list \<Rightarrow> (nat \<times> axis_tiling list) list" where
  "split_batch rank tile_count axis batch_grain blocks batches =
     concat (map (\<lambda>(used, axes).
       map (\<lambda>parts.
         (used * parts,
          axes @ [axis_new (FromEnd ((rank - axis) mod 2 ^ 16)) parts (if parts = 1 then 1 else batch_grain) Reject]))
         (partition_counts blocks (tile_count div used))) batches)"

fun batch_loop ::
  "tensor_type \<Rightarrow> tensor_type \<Rightarrow> tensor_shape \<Rightarrow> nat \<Rightarrow> nat list \<Rightarrow> (nat \<times> axis_tiling list) list \<Rightarrow>
   (nat \<times> axis_tiling list) list planning_result" where
  "batch_loop a b shape tile_count [] batches = Inr batches"
| "batch_loop a b shape tile_count (axis # axes) batches =
     res_bind (source_grain (length shape) axis a 1) (\<lambda>g.
     res_bind (source_grain (length shape) axis b g) (\<lambda>batch_grain.
     let blocks = (if is_multiple_of (shape ! axis) batch_grain then shape ! axis div batch_grain else 1)
     in batch_loop a b shape tile_count axes (split_batch (length shape) tile_count axis batch_grain blocks batches)))"

text \<open>The tile strides of rows, columns and inner partitions in one order of the three digits.\<close>

definition axis_orders :: "nat list list" where
  "axis_orders = [[1, 2, 0], [1, 0, 2], [0, 2, 1], [0, 1, 2], [2, 0, 1], [2, 1, 0]]"

definition order_step :: "nat list \<Rightarrow> nat list \<times> nat \<Rightarrow> nat \<Rightarrow> nat list \<times> nat" where
  "order_step parts = (\<lambda>(strides, stride) axis.
     (strides[axis := if parts ! axis = 1 then 1 else stride], stride * parts ! axis))"

definition order_strides :: "nat list \<Rightarrow> nat list \<Rightarrow> nat list" where
  "order_strides parts order = fst (foldl (order_step parts) ([0, 0, 0], 1) order)"

definition stride_choices :: "nat list \<Rightarrow> nat list list" where
  "stride_choices parts =
     foldl (\<lambda>orders order. let strides = order_strides parts order
       in if strides \<in> set orders then orders else orders @ [strides]) [] axis_orders"

text \<open>A batch axis splits the tensors it is an axis of and replicates the others.\<close>

definition splits_axis :: "tensor_shape \<Rightarrow> axis_tiling \<Rightarrow> bool" where
  "splits_axis shape axis =
     (case resolve_axis (tiling_axis axis) (length shape) of Inl _ \<Rightarrow> False | Inr a \<Rightarrow> shape ! a \<noteq> 1)"

fun add_batches :: "tensor_shape \<Rightarrow> axis_tiling list \<Rightarrow> nat \<Rightarrow> tensor_tiling \<Rightarrow> tensor_tiling" where
  "add_batches shape [] stride t = t"
| "add_batches shape (a # axes) stride t =
     (let axis = with_tile_stride stride a
      in add_batches shape axes (stride * partitions axis)
           (if splits_axis shape axis then t\<lparr>tiling_axes := tiling_axes t @ [axis]\<rparr>
            else t\<lparr>replicas := replicas t * partitions axis\<rparr>))"

text \<open>Operand 0 is the left, 1 the right and 2 the result of the kernel.\<close>

definition set_strides :: "nat \<Rightarrow> nat \<Rightarrow> nat list \<Rightarrow> tensor_tiling \<Rightarrow> tensor_tiling" where
  "set_strides operand row_grain strides t =
     (let axes = tiling_axes t;
          first = (if operand \<noteq> 1 then (axes ! 0)\<lparr>block_size := row_grain, padding_multiple := row_grain\<rparr> else axes ! 0)
      in t\<lparr>tiling_axes := axes[0 := with_tile_stride (strides ! (if operand = 1 then 1 else 0)) first,
                               1 := with_tile_stride (strides ! (if operand = 2 then 1 else 2)) (axes ! 1)]\<rparr>)"

definition place_operand ::
  "nat \<Rightarrow> nat \<Rightarrow> nat list \<Rightarrow> nat \<Rightarrow> axis_tiling list \<Rightarrow> nat \<Rightarrow> tensor_shape \<Rightarrow> layout \<Rightarrow> layout" where
  "place_operand operand row_grain strides cells batch_axes tiles shape l =
     l\<lparr>layout_tiling := (add_batches shape batch_axes cells (set_strides operand row_grain strides (layout_tiling l)))
         \<lparr>tiling_tiles := tiles\<rparr>\<rparr>"

text \<open>The layout the partial products are reduced into, on a grid of \<open>rp\<close> by \<open>cp\<close>.\<close>

fun packed_strides :: "nat \<Rightarrow> axis_tiling list \<Rightarrow> axis_tiling list" where
  "packed_strides stride [] = []"
| "packed_strides stride (a # axes) = with_tile_stride stride a # packed_strides (stride * partitions a) axes"

definition reduced_axis :: "nat \<Rightarrow> nat \<Rightarrow> axis_tiling \<Rightarrow> axis_tiling" where
  "reduced_axis parts stride a =
     (let b = a\<lparr>partitions := parts\<rparr>;
          c = (if tiling_axis b = FromEnd 1 then b\<lparr>block_size := 8, padding_multiple := 8, shard_padding_multiple := 8\<rparr> else b)
      in with_tile_stride stride c)"

definition reduction_layout :: "layout \<Rightarrow> nat list \<Rightarrow> nat \<Rightarrow> nat \<Rightarrow> nat \<Rightarrow> layout" where
  "reduction_layout l strides groups rp cp =
     (let t = layout_tiling l; axes = tiling_axes t; row_fast = strides ! 0 < strides ! 1
      in \<lparr>layout_order = RowMajor,
          layout_tiling =
            t\<lparr>tiling_tiles := rp * cp * groups,
              tiling_axes :=
                reduced_axis rp (if row_fast then 1 else cp) (axes ! 0)
                # reduced_axis cp (if row_fast then rp else 1) ((axes ! 1)\<lparr>block_size := 1, padding_multiple := 1\<rparr>)
                # packed_strides (rp * cp) (drop 2 axes)\<rparr>,
          memory_class_of = Ipu21Standard\<rparr>)"

fun reduction_loop ::
  "layout \<Rightarrow> nat list \<Rightarrow> nat \<Rightarrow> tensor_shape \<Rightarrow> nat \<Rightarrow> nat \<Rightarrow> (nat \<times> nat) list \<Rightarrow> layout option list planning_result" where
  "reduction_loop l strides groups shape m n [] = Inr []"
| "reduction_loop l strides groups shape m n ((rp, cp) # gs) =
     (if rp > m \<or> cp > n then reduction_loop l strides groups shape m n gs
      else
      (let reduced = reduction_layout l strides groups rp cp
       in case resolve reduced shape of
            Inl Panic \<Rightarrow> Inl Panic
          | Inl (Fail _) \<Rightarrow> reduction_loop l strides groups shape m n gs
          | Inr r \<Rightarrow>
              res_bind (reduction_loop l strides groups shape m n gs) (\<lambda>rest.
              Inr (if has_empty_shards r then rest else Some reduced # rest))))"

definition reductions ::
  "layout \<Rightarrow> nat list \<Rightarrow> nat \<Rightarrow> tensor_shape \<Rightarrow> nat \<Rightarrow> nat \<Rightarrow> nat \<times> nat \<times> nat \<Rightarrow> layout option list planning_result" where
  "reductions l strides groups shape m n = (\<lambda>(rows, columns, inner).
     if inner > 1
     then reduction_loop l strides groups shape m n [(rows, columns), (rows * inner, columns), (rows, columns * inner)]
     else Inr [None])"

text \<open>Partial products: an axis of the inner partitions in front.\<close>

definition add_inner :: "nat list \<Rightarrow> nat \<Rightarrow> tensor_type \<Rightarrow> tensor_type" where
  "add_inner strides inner ty =
     (if inner > 1
      then let f = format_of ty; l = layout_of f; t = layout_tiling l
           in ty\<lparr>shape_of := inner # shape_of ty,
                 format_of := f\<lparr>layout_of := l\<lparr>layout_tiling := t\<lparr>tiling_axes := tiling_axes t
                   @ [with_tile_stride (strides ! 2) (axis_new (FromStart 0) inner 1 Reject)]\<rparr>\<rparr>\<rparr>\<rparr>
      else ty)"

text \<open>What the assignments of one grid share: kernel operand order, extents and block widths.\<close>

record gemm_case =
  case_left :: tensor_shape
  case_right :: tensor_shape
  case_shape :: tensor_shape
  case_precision :: precision
  case_grain :: nat
  case_swapped :: bool
  case_transposed_left :: bool
  case_transposed_right :: bool
  case_m :: nat
  case_n :: nat
  case_k :: nat

definition case_row_grain :: "gemm_case \<Rightarrow> nat" where
  "case_row_grain g = (if case_swapped g then 2 else 1)"

definition stride_choice ::
  "gemm_case \<Rightarrow> nat \<Rightarrow> axis_tiling list \<Rightarrow> nat \<times> nat \<times> nat \<Rightarrow> nat \<Rightarrow> nat \<Rightarrow> nat list \<Rightarrow> gemm_choice list planning_result" where
  "stride_choice g groups batch_axes = (\<lambda>(rows, columns, inner) kw nw strides.
     let cells = rows * columns * inner;
         tiles = cells * groups;
         place = (\<lambda>operand shape l. place_operand operand (case_row_grain g) strides cells batch_axes tiles shape l);
         left = tensor_new (case_left g) (case_precision g)
                  (place 0 (case_left g) (operand_layout True (case_transposed_left g) cells rows inner columns kw nw));
         right = (\<lambda>class. tensor_new (case_right g) (case_precision g)
                  ((place 1 (case_right g) (operand_layout False (case_transposed_right g) cells columns inner rows kw nw))
                     \<lparr>memory_class_of := class\<rparr>));
         product = operand_layout True (case_swapped g) tiles rows columns 1 nw nw;
         result = place 2 (case_shape g)
                    (if kw > case_grain g then product\<lparr>memory_class_of := Ipu21Interleaved\<rparr> else product)
     in res_bind (reductions result strides groups (case_shape g) (case_m g) (case_n g) (rows, columns, inner)) (\<lambda>reds.
        Inr (concat (map (\<lambda>class. map (\<lambda>red.
          \<lparr>choice_left = left, choice_right = right class,
           choice_result = add_inner strides inner (tensor_new (case_shape g) F16 result),
           choice_reduction = red, choice_swapped = case_swapped g, choice_inner_block = kw, choice_columns = nw\<rparr>) reds)
          [Ipu21Interleaved, Ipu21Standard]))))"

definition grid_choice ::
  "gemm_case \<Rightarrow> nat \<Rightarrow> axis_tiling list \<Rightarrow> nat \<times> nat \<times> nat \<Rightarrow> gemm_choice list planning_result" where
  "grid_choice g groups batch_axes = (\<lambda>(rows, columns, inner).
     res_bind (or_panic (checked_mul 32 (div_ceil (div_ceil (case_k g) (case_grain g)) inner) (case_grain g))) (\<lambda>kw.
     res_bind (or_panic (checked_mul 32 (div_ceil (div_ceil (case_n g) 16) columns) 16)) (\<lambda>nw.
     if kw > 2 ^ 16 - 1 then Inr []
     else map_sum id concat (traverse (stride_choice g groups batch_axes (rows, columns, inner) kw nw)
            (stride_choices [rows, columns, inner])))))"

definition case_choices :: "gemm_case \<Rightarrow> nat \<Rightarrow> (nat \<times> axis_tiling list) list \<Rightarrow> gemm_choice list planning_result" where
  "case_choices g tile_count batches =
     map_sum id concat (traverse (\<lambda>(groups, batch_axes).
       map_sum id concat (traverse (grid_choice g groups batch_axes)
         (grids (div_ceil (case_m g) (case_row_grain g)) (div_ceil (case_n g) 16) (div_ceil (case_k g) (case_grain g))
            (tile_count div groups)))) batches)"

definition choices ::
  "tensor_type \<Rightarrow> tensor_type \<Rightarrow> tensor_shape \<Rightarrow> gemm_options \<Rightarrow> nat \<Rightarrow> gemm_choice list planning_result" where
  "choices a b shape opts tile_count =
     (case gemm_precision (precision_of (format_of a)) (precision_of (format_of b)) of
        None \<Rightarrow> Inl (Fail (Unimplemented ''FP32 GEMM or independent FP8 operand scales''))
      | Some p \<Rightarrow>
          res_bind (from_end (shape_of a) (if transpose_left opts then 2 else 1)) (\<lambda>k.
          if length shape < 2 then Inl Panic
          else
          res_bind (batch_loop a b shape tile_count [0..<length shape - 2] [(1, [])]) (\<lambda>batches.
          let common = (\<lambda>swapped.
            \<lparr>case_left = shape_of (if swapped then b else a), case_right = shape_of (if swapped then a else b),
             case_shape = shape, case_precision = p, case_grain = (if p = F16 then 16 else 32), case_swapped = swapped,
             case_transposed_left = (if swapped then \<not> transpose_right opts else transpose_left opts),
             case_transposed_right = (if swapped then \<not> transpose_left opts else transpose_right opts),
             case_m = shape ! (length shape - (if swapped then 1 else 2)),
             case_n = shape ! (length shape - (if swapped then 2 else 1)), case_k = k\<rparr>)
          in map_sum id concat (traverse (\<lambda>swapped. case_choices (common swapped) tile_count batches) [False, True]))))"

text \<open>Where the partial products are unpacked before they are distributed to the reduction.\<close>

definition prepared :: "layout \<Rightarrow> layout" where
  "prepared l =
     (let t = layout_tiling l
      in l\<lparr>layout_order := RowMajor, memory_class_of := Ipu21Standard,
          layout_tiling := t\<lparr>tiling_axes :=
            map (\<lambda>a. if tiling_axis a = FromEnd 1 then a\<lparr>shard_padding_multiple := 8\<rparr> else a) (tiling_axes t)\<rparr>\<rparr>)"

definition choice_layouts :: "gemm_choice \<Rightarrow> layout list" where
  "choice_layouts c =
     [layout_of (format_of (choice_left c)), layout_of (format_of (choice_right c)), layout_of (format_of (choice_result c))]
     @ (case choice_reduction c of
         None \<Rightarrow> [] | Some l \<Rightarrow> [l, prepared (layout_of (format_of (choice_result c)))])"

subsection \<open>Partition counts\<close>

lemma width_loop_subset: "set (width_loop ext ns previous) \<subseteq> set ns"
  by (induction ext ns previous rule: width_loop.induct) (auto simp: Let_def)

lemma partition_counts_bounds: "p \<in> set (partition_counts ext tiles) \<Longrightarrow> 0 < p \<and> p \<le> tiles"
  using width_loop_subset [of ext "[1..<Suc (min ext tiles)]" 0] by (fastforce simp: partition_counts_def)

lemma grids_bounds:
  assumes "(rows, columns, inner) \<in> set (grids m n k tiles)"
  shows "0 < rows" "0 < columns" "0 < inner" "rows * columns * inner \<le> tiles"
proof -
  have g: "rows \<in> set (partition_counts m tiles)" "columns \<in> set (partition_counts n (tiles div rows))"
    "inner \<in> set (partition_counts k (tiles div rows div columns))"
    using assms by (auto simp: grids_def)
  show "0 < rows" "0 < columns" "0 < inner" using g partition_counts_bounds by blast+
  have "inner \<le> tiles div (rows * columns)" using partition_counts_bounds [OF g(3)] by (simp add: div_mult2_eq)
  then have "rows * columns * inner \<le> rows * columns * (tiles div (rows * columns))" by (rule mult_le_mono2)
  also have "\<dots> \<le> tiles" by simp
  finally show "rows * columns * inner \<le> tiles" .
qed

definition batch_ok :: "nat \<Rightarrow> nat \<times> axis_tiling list \<Rightarrow> bool" where
  "batch_ok tile_count b \<longleftrightarrow>
     fst b = prod_list (map partitions (snd b)) \<and> (\<forall>a\<in>set (snd b). 0 < partitions a) \<and> (fst b \<le> tile_count \<or> fst b = 1)"

lemma prod_parts_pos: "\<forall>a\<in>set axes. 0 < partitions a \<Longrightarrow> 0 < prod_list (map partitions axes)"
  by (induction axes) auto

lemma batch_ok_pos: "batch_ok tile_count b \<Longrightarrow> 0 < fst b"
  using prod_parts_pos by (auto simp: batch_ok_def)

lemma split_batch_ok:
  assumes "\<forall>b\<in>set batches. batch_ok tile_count b" and "b \<in> set (split_batch rank tile_count axis g blocks batches)"
  shows "batch_ok tile_count b"
proof -
  obtain used axes parts where b: "(used, axes) \<in> set batches" "parts \<in> set (partition_counts blocks (tile_count div used))"
    "b = (used * parts, axes @ [axis_new (FromEnd ((rank - axis) mod 2 ^ 16)) parts (if parts = 1 then 1 else g) Reject])"
    using assms(2) by (auto simp: split_batch_def)
  have p: "0 < parts" "parts \<le> tile_count div used" using partition_counts_bounds [OF b(2)] by simp_all
  have ok: "batch_ok tile_count (used, axes)" using assms(1) b(1) by blast
  have "used * parts \<le> used * (tile_count div used)" using p(2) by (rule mult_le_mono2)
  also have "\<dots> \<le> tile_count" by simp
  finally show ?thesis using ok p(1) by (auto simp: batch_ok_def b(3) axis_new_def)
qed

lemma batch_loop_ok:
  "batch_loop a b shape tile_count axes batches = Inr batches' \<Longrightarrow> \<forall>x\<in>set batches. batch_ok tile_count x \<Longrightarrow>
   \<forall>x\<in>set batches'. batch_ok tile_count x"
proof (induction axes arbitrary: batches)
  case (Cons axis axes)
  from Cons.prems(1) obtain g blocks where
    "batch_loop a b shape tile_count axes (split_batch (length shape) tile_count axis g blocks batches) = Inr batches'"
    by (auto simp: res_simps Let_def)
  moreover have "\<forall>x\<in>set (split_batch (length shape) tile_count axis g blocks batches). batch_ok tile_count x"
    using split_batch_ok [OF Cons.prems(2)] by blast
  ultimately show ?case by (rule Cons.IH)
qed simp

subsection \<open>Digits of the tile number\<close>

abbreviation stride_digit :: "axis_tiling \<Rightarrow> nat \<times> nat" where
  "stride_digit x \<equiv> (the (tile_stride x), partitions x)"

definition explicit_axis :: "axis_tiling \<Rightarrow> bool" where
  "explicit_axis x \<longleftrightarrow> 0 < partitions x \<and> (\<exists>s>0. tile_stride x = Some s)"

abbreviation several :: "nat \<times> nat \<Rightarrow> bool" where
  "several \<equiv> \<lambda>(s, p). 1 < p"

lemma subseq_mset: "subseq xs ys \<Longrightarrow> mset xs \<subseteq># mset ys"
  by (induction xs ys rule: list_emb.induct) (auto intro: subset_mset.order_trans)

lemma submset_subseq: "mset xs \<subseteq># mset ys \<Longrightarrow> \<exists>ps. subseq ps ys \<and> mset ps = mset xs"
proof (induction ys arbitrary: xs)
  case Nil then show ?case by simp
next
  case (Cons y ys)
  show ?case
  proof (cases "y \<in> set xs")
    case True
    then obtain us vs where xs: "xs = us @ y # vs" by (meson split_list)
    have "mset (us @ vs) \<subseteq># mset ys" using Cons.prems by (simp add: xs)
    from Cons.IH [OF this] obtain ps where "subseq ps ys" "mset ps = mset (us @ vs)" by blast
    then show ?thesis by (intro exI [of _ "y # ps"]) (simp add: xs)
  next
    case False
    have "mset xs \<subseteq># mset ys"
    proof (rule mset_subset_eqI)
      fix z
      have "count (mset xs) z \<le> count (mset (y # ys)) z" by (rule mset_subset_eq_count [OF Cons.prems])
      then show "count (mset xs) z \<le> count (mset ys) z" using False by (cases "z = y") (auto simp: count_eq_zero_iff [THEN iffD2])
    qed
    from Cons.IH [OF this] show ?thesis by (meson list_emb_Cons)
  qed
qed

text \<open>Axes that are digits of the tile number, the other digits being replicas.\<close>

lemma digits_balanced:
  assumes "0 < replicas t" and "replicas t * prod_list (map partitions (tiling_axes t)) = tiling_tiles t" and "tiling_tiles t < 2 ^ 16"
    and "\<forall>x\<in>set (tiling_axes t). explicit_axis x"
    and "mset (filter several (map stride_digit (tiling_axes t))) \<subseteq># mset ds" and "chain 1 ds (tiling_tiles t)"
  shows "balanced t"
proof -
  from submset_subseq [OF assms(5)] obtain ps where ps: "subseq ps ds" "mset ps = mset (filter several (map stride_digit (tiling_axes t)))"
    by blast
  show ?thesis
    by (rule explicit_balanced [OF assms(1,2) _ assms(4) [unfolded explicit_axis_def] ps(2) [symmetric]]) (use chain_subseq [OF ps(1) assms(6)] assms(3) in simp_all)
qed

fun batch_digits :: "nat \<Rightarrow> axis_tiling list \<Rightarrow> (nat \<times> nat) list" where
  "batch_digits stride [] = []"
| "batch_digits stride (a # axes) = (stride, partitions a) # batch_digits (stride * partitions a) axes"

lemma chain_batch: "chain stride (batch_digits stride axes) (stride * prod_list (map partitions axes))"
  by (induction axes arbitrary: stride) (simp_all, metis mult.assoc)

lemma add_batches_digits:
  assumes "0 < stride" and "\<forall>a\<in>set axes. 0 < partitions a"
  shows "\<exists>new. tiling_axes (add_batches shape axes stride t) = tiling_axes t @ new
    \<and> replicas (add_batches shape axes stride t) * prod_list (map partitions new) = replicas t * prod_list (map partitions axes)
    \<and> (0 < replicas t \<longrightarrow> 0 < replicas (add_batches shape axes stride t))
    \<and> (\<forall>x\<in>set new. explicit_axis x) \<and> subseq (map stride_digit new) (batch_digits stride axes)"
  using assms
proof (induction axes arbitrary: stride t)
  case (Cons a axes)
  let ?axis = "with_tile_stride stride a"
  obtain u where u: "u = (if splits_axis shape ?axis then t\<lparr>tiling_axes := tiling_axes t @ [?axis]\<rparr>
      else t\<lparr>replicas := replicas t * partitions a\<rparr>)" by blast
  have pa: "0 < partitions a" "partitions ?axis = partitions a" "tile_stride ?axis = Some stride"
    using Cons.prems(2) by (simp_all add: with_tile_stride_def)
  have step: "add_batches shape (a # axes) stride t = add_batches shape axes (stride * partitions a) u"
    by (simp add: Let_def pa(2) u)
  let ?r = "add_batches shape axes (stride * partitions a) u"
  have "0 < stride * partitions a" "\<forall>a\<in>set axes. 0 < partitions a" using Cons.prems pa(1) by simp_all
  from Cons.IH [OF this, of u] obtain new where new: "tiling_axes ?r = tiling_axes u @ new"
    "replicas ?r * prod_list (map partitions new) = replicas u * prod_list (map partitions axes)"
    "0 < replicas u \<longrightarrow> 0 < replicas ?r"
    "\<forall>x\<in>set new. explicit_axis x" "subseq (map stride_digit new) (batch_digits (stride * partitions a) axes)"
    by (elim exE conjE) (rule that)
  show ?case
  proof (cases "splits_axis shape ?axis")
    case True
    then have "tiling_axes u = tiling_axes t @ [?axis]" "replicas u = replicas t" by (simp_all add: u)
    then show ?thesis unfolding step using new pa Cons.prems(1) by (intro exI [of _ "?axis # new"]) (auto simp: mult_ac explicit_axis_def [of ?axis])
  next
    case False
    then have "tiling_axes u = tiling_axes t" "replicas u = replicas t * partitions a" by (simp_all add: u)
    then show ?thesis unfolding step using new pa(1) by (intro exI [of _ new]) (auto simp: mult_ac)
  qed
qed simp

subsection \<open>The strides of a grid\<close>

lemma stride_choices_order:
  assumes "strides \<in> set (stride_choices parts)"
  shows "\<exists>order\<in>set axis_orders. strides = order_strides parts order"
proof -
  let ?f = "\<lambda>orders order. let s = order_strides parts order in if s \<in> set orders then orders else orders @ [s]"
  have "set (foldl ?f acc orders) \<subseteq> set acc \<union> order_strides parts ` set orders" for acc orders
  proof (induction orders arbitrary: acc)
    case (Cons order orders)
    have "set (?f acc order) \<subseteq> set acc \<union> {order_strides parts order}" by (auto simp: Let_def)
    then show ?case using Cons.IH [of "?f acc order"] by auto
  qed simp
  then show ?thesis using assms unfolding stride_choices_def by fastforce
qed

text \<open>The three digits of the grid are a chain, in the order they were laid out.\<close>

lemma three_digits_chain:
  assumes "0 < (a::nat)" "0 < b" "0 < c"
  shows "chain 1 (filter several [(1, a), (a, b), (a * b, c)]) (a * b * c)"
  by (rule chain_subseq [OF subseq_filter_left]) simp

lemma grid_digits:
  assumes "0 < r" "0 < c" "0 < i" and "strides \<in> set (stride_choices [r, c, i])"
  shows "\<exists>ds. mset ds = mset (filter several [(strides ! 0, r), (strides ! 1, c), (strides ! 2, i)])
    \<and> chain 1 ds (r * c * i) \<and> 0 < strides ! 0 \<and> 0 < strides ! 1 \<and> 0 < strides ! 2"
proof -
  have e: "order_strides [r, c, i] [1, 2, 0] = [if r = 1 then 1 else c * i, 1, if i = 1 then 1 else c]"
    "order_strides [r, c, i] [1, 0, 2] = [if r = 1 then 1 else c, 1, if i = 1 then 1 else c * r]"
    "order_strides [r, c, i] [0, 2, 1] = [1, if c = 1 then 1 else r * i, if i = 1 then 1 else r]"
    "order_strides [r, c, i] [0, 1, 2] = [1, if c = 1 then 1 else r, if i = 1 then 1 else r * c]"
    "order_strides [r, c, i] [2, 0, 1] = [if r = 1 then 1 else i, if c = 1 then 1 else i * r, 1]"
    "order_strides [r, c, i] [2, 1, 0] = [if r = 1 then 1 else i * c, if c = 1 then 1 else i, 1]"
    by (simp_all add: order_strides_def order_step_def numeral_2_eq_2)
  have "strides = order_strides [r, c, i] [1, 2, 0] \<or> strides = order_strides [r, c, i] [1, 0, 2]
      \<or> strides = order_strides [r, c, i] [0, 2, 1] \<or> strides = order_strides [r, c, i] [0, 1, 2]
      \<or> strides = order_strides [r, c, i] [2, 0, 1] \<or> strides = order_strides [r, c, i] [2, 1, 0]"
    using stride_choices_order [OF assms(4)] unfolding axis_orders_def by simp
  then show ?thesis
    unfolding e
  proof (elim disjE)
    assume s: "strides = [if r = 1 then 1 else c * i, 1, if i = 1 then 1 else c]"
    show ?thesis
      using three_digits_chain [OF assms(2,3,1)] assms(1-3)
      by (intro exI [of _ "filter several [(1, c), (c, i), (c * i, r)]"]) (auto simp: s numeral_2_eq_2 mult_ac)
  next
    assume s: "strides = [if r = 1 then 1 else c, 1, if i = 1 then 1 else c * r]"
    show ?thesis
      using three_digits_chain [OF assms(2,1,3)] assms(1-3)
      by (intro exI [of _ "filter several [(1, c), (c, r), (c * r, i)]"]) (auto simp: s numeral_2_eq_2 mult_ac)
  next
    assume s: "strides = [1, if c = 1 then 1 else r * i, if i = 1 then 1 else r]"
    show ?thesis
      using three_digits_chain [OF assms(1,3,2)] assms(1-3)
      by (intro exI [of _ "filter several [(1, r), (r, i), (r * i, c)]"]) (auto simp: s numeral_2_eq_2 mult_ac)
  next
    assume s: "strides = [1, if c = 1 then 1 else r, if i = 1 then 1 else r * c]"
    show ?thesis
      using three_digits_chain [OF assms(1,2,3)] assms(1-3)
      by (intro exI [of _ "filter several [(1, r), (r, c), (r * c, i)]"]) (auto simp: s numeral_2_eq_2 mult_ac)
  next
    assume s: "strides = [if r = 1 then 1 else i, if c = 1 then 1 else i * r, 1]"
    show ?thesis
      using three_digits_chain [OF assms(3,1,2)] assms(1-3)
      by (intro exI [of _ "filter several [(1, i), (i, r), (i * r, c)]"]) (auto simp: s numeral_2_eq_2 mult_ac)
  next
    assume s: "strides = [if r = 1 then 1 else i * c, if c = 1 then 1 else i, 1]"
    show ?thesis
      using three_digits_chain [OF assms(3,2,1)] assms(1-3)
      by (intro exI [of _ "filter several [(1, i), (i, c), (i * c, r)]"]) (auto simp: s numeral_2_eq_2 mult_ac)
  qed
qed

text \<open>A tensor of the grid: two of its digits, some of the batch axes and possibly the inner axis.\<close>

lemma grid_tensor_balanced:
  assumes pos: "0 < r" "0 < c" "0 < i" and strides: "strides \<in> set (stride_choices [r, c, i])"
    and batch: "\<forall>a\<in>set axes. 0 < partitions a" and tiles: "tiling_tiles t = r * c * i * prod_list (map partitions axes)"
    and small: "tiling_tiles t < 2 ^ 16"
    and t: "tiling_axes t = main @ new @ extra" "\<forall>x\<in>set (main @ new @ extra). explicit_axis x"
    and sub: "subseq (map stride_digit new) (batch_digits (r * c * i) axes)"
    and digits: "mset (map stride_digit (main @ extra)) \<subseteq># mset [(strides ! 0, r), (strides ! 1, c), (strides ! 2, i)]"
    and copies: "0 < replicas t" "replicas t * prod_list (map partitions (tiling_axes t)) = tiling_tiles t"
  shows "balanced t"
proof -
  from grid_digits [OF pos strides] obtain ds where
    ds: "mset ds = mset (filter several [(strides ! 0, r), (strides ! 1, c), (strides ! 2, i)])" "chain 1 ds (r * c * i)" by blast
  let ?b = "batch_digits (r * c * i) axes"
  have chain: "chain 1 (ds @ ?b) (tiling_tiles t)" unfolding tiles by (rule chain_append [OF ds(2) chain_batch])
  let ?F = "\<lambda>xs. mset (filter several (map stride_digit xs))"
  have new: "?F new \<subseteq># mset ?b"
    unfolding mset_filter by (rule subset_mset.order_trans [OF multiset_filter_subset subseq_mset [OF sub]])
  have main: "?F (main @ extra) \<subseteq># mset ds"
    unfolding ds(1) mset_filter by (rule multiset_filter_mono [OF digits])
  have "?F (tiling_axes t) = ?F (main @ extra) + ?F new" by (simp add: t(1))
  then have "?F (tiling_axes t) \<subseteq># mset (ds @ ?b)"
    using subset_mset.add_mono [OF main new] by (simp only: mset_append)
  from digits_balanced [OF copies small _ this chain] show ?thesis using t by simp
qed

subsection \<open>The tensors of an assignment\<close>

lemma operand_layout_tiling:
  "\<exists>x y. tiling_axes (layout_tiling (operand_layout left transposed tiles outer inner copies k n)) = [x, y]
    \<and> partitions x = outer \<and> partitions y = inner"
  "replicas (layout_tiling (operand_layout left transposed tiles outer inner copies k n)) = copies"
  "tiling_tiles (layout_tiling (operand_layout left transposed tiles outer inner copies k n)) = tiles"
  by (simp_all add: operand_layout_def Let_def axis_new_def with_tile_stride_def)

lemma place_operand_axes:
  assumes l: "tiling_axes (layout_tiling l) = [x, y]" and cells: "0 < cells" and batch: "\<forall>a\<in>set axes. 0 < partitions a"
    and parts: "0 < partitions x" "0 < partitions y" and copies: "0 < replicas (layout_tiling l)"
    and strides: "0 < strides ! (if operand = 1 then 1 else 0)" "0 < strides ! (if operand = 2 then 1 else 2)"
  shows "\<exists>x' y' new. tiling_axes (layout_tiling (place_operand operand row_grain strides cells axes tiles shape l)) = [x', y'] @ new
    \<and> stride_digit x' = (strides ! (if operand = 1 then 1 else 0), partitions x)
    \<and> stride_digit y' = (strides ! (if operand = 2 then 1 else 2), partitions y)
    \<and> (\<forall>z\<in>set ([x', y'] @ new). explicit_axis z)
    \<and> subseq (map stride_digit new) (batch_digits cells axes)
    \<and> 0 < replicas (layout_tiling (place_operand operand row_grain strides cells axes tiles shape l))
    \<and> replicas (layout_tiling (place_operand operand row_grain strides cells axes tiles shape l)) * prod_list (map partitions new)
      = replicas (layout_tiling l) * prod_list (map partitions axes)"
proof -
  obtain u where u: "u = set_strides operand row_grain strides (layout_tiling l)" by blast
  obtain x' y' where a: "tiling_axes u = [x', y']" "partitions x' = partitions x" "partitions y' = partitions y"
    "tile_stride x' = Some (strides ! (if operand = 1 then 1 else 0))" "tile_stride y' = Some (strides ! (if operand = 2 then 1 else 2))"
    by (simp add: u set_strides_def Let_def l with_tile_stride_def)
  have R: "replicas u = replicas (layout_tiling l)" by (simp add: u set_strides_def Let_def)
  have p: "tiling_axes (layout_tiling (place_operand operand row_grain strides cells axes tiles shape l)) = tiling_axes (add_batches shape axes cells u)"
    "replicas (layout_tiling (place_operand operand row_grain strides cells axes tiles shape l)) = replicas (add_batches shape axes cells u)"
    by (simp_all add: place_operand_def u)
  from add_batches_digits [OF cells batch, of shape u] obtain new where new:
    "tiling_axes (add_batches shape axes cells u) = [x', y'] @ new"
    "replicas (add_batches shape axes cells u) * prod_list (map partitions new) = replicas (layout_tiling l) * prod_list (map partitions axes)"
    "0 < replicas (add_batches shape axes cells u)" "\<forall>x\<in>set new. explicit_axis x" "subseq (map stride_digit new) (batch_digits cells axes)"
    using copies by (auto simp: a(1) R)
  have "stride_digit x' = (strides ! (if operand = 1 then 1 else 0), partitions x)"
    "stride_digit y' = (strides ! (if operand = 2 then 1 else 2), partitions y)"
    by (simp_all add: a)
  moreover have "\<forall>z\<in>set ([x', y'] @ new). explicit_axis z" using new(4) strides parts by (simp add: explicit_axis_def a)
  ultimately show ?thesis unfolding p using new by blast
qed

lemma packed_strides_digits:
  assumes "\<forall>a\<in>set axes. 0 < partitions a" and "0 < stride"
  shows "map partitions (packed_strides stride axes) = map partitions axes"
    and "map stride_digit (packed_strides stride axes) = batch_digits stride axes"
    and "\<forall>x\<in>set (packed_strides stride axes). explicit_axis x"
proof -
  show "map partitions (packed_strides stride axes) = map partitions axes"
    by (induction axes arbitrary: stride) (simp_all add: with_tile_stride_def)
  show "map stride_digit (packed_strides stride axes) = batch_digits stride axes"
    by (induction axes arbitrary: stride) (simp_all add: with_tile_stride_def)
  show "\<forall>x\<in>set (packed_strides stride axes). explicit_axis x"
    using assms
  proof (induction axes arbitrary: stride)
    case (Cons a axes)
    have "explicit_axis (with_tile_stride stride a)" using Cons.prems by (simp add: explicit_axis_def with_tile_stride_def)
    moreover have "\<forall>x\<in>set (packed_strides (stride * partitions a) axes). explicit_axis x"
      by (rule Cons.IH) (use Cons.prems in simp_all)
    ultimately show ?case by simp
  qed simp
qed

text \<open>A reduction keeps the batch axes of the result and packs them behind its own grid.\<close>

lemma reduction_balanced:
  assumes pos: "0 < rp" "0 < cp" "0 < groups" and l: "tiling_axes (layout_tiling l) = [x, y] @ new"
    and copies: "0 < replicas (layout_tiling l)" "replicas (layout_tiling l) * prod_list (map partitions new) = groups"
    and new: "\<forall>a\<in>set new. explicit_axis a" and small: "rp * cp * groups < 2 ^ 16"
  shows "balanced (layout_tiling (reduction_layout l strides groups rp cp))"
    and "tiling_tiles (layout_tiling (reduction_layout l strides groups rp cp)) = rp * cp * groups"
proof -
  let ?t = "layout_tiling (reduction_layout l strides groups rp cp)"
  have parts: "\<forall>a\<in>set new. 0 < partitions a" using new by (simp add: explicit_axis_def)
  obtain a b where ab: "tiling_axes ?t = [a, b] @ packed_strides (rp * cp) new"
    "partitions a = rp" "partitions b = cp" "tile_stride a = Some (if strides ! 0 < strides ! 1 then 1 else cp)"
    "tile_stride b = Some (if strides ! 0 < strides ! 1 then rp else 1)"
    by (simp add: reduction_layout_def Let_def l reduced_axis_def with_tile_stride_def)
  have R: "replicas ?t = replicas (layout_tiling l)" by (simp add: reduction_layout_def Let_def)
  show tiles: "tiling_tiles ?t = rp * cp * groups" by (simp add: reduction_layout_def Let_def)
  have rc: "0 < rp * cp" using pos by simp
  note packed = packed_strides_digits [OF parts rc]
  let ?main = "if strides ! 0 < strides ! 1 then [(1, rp), (rp, cp)] else [(1, cp), (cp, rp)]"
  show "balanced ?t"
  proof (rule digits_balanced)
    show "0 < replicas ?t" using copies(1) R by simp
    show "replicas ?t * prod_list (map partitions (tiling_axes ?t)) = tiling_tiles ?t"
      using copies(2) R packed(1) by (simp add: ab tiles mult.assoc mult.left_commute)
    show "tiling_tiles ?t < 2 ^ 16" using small by (simp add: tiles)
    show "\<forall>z\<in>set (tiling_axes ?t). explicit_axis z" using packed(3) pos by (simp add: ab explicit_axis_def)
    have "mset (map stride_digit (tiling_axes ?t)) = mset (?main @ batch_digits (rp * cp) new)"
      by (simp add: ab packed)
    then show "mset (filter several (map stride_digit (tiling_axes ?t))) \<subseteq># mset (?main @ batch_digits (rp * cp) new)"
      by (metis mset_filter multiset_filter_subset)
    have "chain 1 ?main (rp * cp)" by (simp add: mult.commute)
    moreover have "chain (rp * cp) (batch_digits (rp * cp) new) (rp * cp * groups)"
    proof -
      have "chain (rp * cp) (batch_digits (rp * cp) new) (rp * cp * prod_list (map partitions new))" by (rule chain_batch)
      then show ?thesis using copies(2) chain_extend by (metis dvd_triv_right mult_dvd_mono dvd_refl)
    qed
    ultimately show "chain 1 (?main @ batch_digits (rp * cp) new) (tiling_tiles ?t)" unfolding tiles by (rule chain_append)
  qed
qed

lemma reduction_loop_mem:
  "reduction_loop l strides groups shape m n gs = Inr reds \<Longrightarrow> red \<in> set reds \<Longrightarrow>
   \<exists>(rp, cp)\<in>set gs. red = Some (reduction_layout l strides groups rp cp)"
proof (induction l strides groups shape m n gs arbitrary: reds rule: reduction_loop.induct)
  case (2 l strides groups shape m n rp cp gs)
  show ?case
  proof (cases "red = Some (reduction_layout l strides groups rp cp)")
    case False
    then obtain rest where "reduction_loop l strides groups shape m n gs = Inr rest" "red \<in> set rest"
      using "2.prems" by (auto simp: Let_def res_simps split: if_splits sum.splits fault.splits)
    moreover have "reduction_loop l strides groups shape m n gs = Inr rest \<Longrightarrow> red \<in> set rest \<Longrightarrow>
        \<exists>(rp, cp)\<in>set gs. red = Some (reduction_layout l strides groups rp cp)" for rest
      using "2.IH" "2.prems"
      by (cases "rp > m \<or> cp > n"; cases "resolve (reduction_layout l strides groups rp cp) shape")
        (auto split: fault.splits)
    ultimately have "\<exists>(rp, cp)\<in>set gs. red = Some (reduction_layout l strides groups rp cp)" by blast
    then show ?thesis by auto
  qed auto
qed simp

lemma reductions_mem:
  assumes "reductions l strides groups shape m n (rows, columns, inner) = Inr reds" and "red \<in> set reds"
  shows "red = None \<or> (\<exists>(rp, cp)\<in>{(rows, columns), (rows * inner, columns), (rows, columns * inner)}.
    red = Some (reduction_layout l strides groups rp cp))"
proof (cases "inner > 1")
  case True
  then have "reduction_loop l strides groups shape m n [(rows, columns), (rows * inner, columns), (rows, columns * inner)] = Inr reds"
    using assms(1) by (simp add: reductions_def)
  from reduction_loop_mem [OF this assms(2)] show ?thesis by simp
next
  case False
  then show ?thesis using assms by (auto simp: reductions_def)
qed

text \<open>Every layout of one assignment is balanced and uses at most the tiles of the grid and its batches.\<close>

definition well_tiled :: "nat \<Rightarrow> layout \<Rightarrow> bool" where
  "well_tiled tiles l \<longleftrightarrow> balanced (layout_tiling l) \<and> tiling_tiles (layout_tiling l) \<le> tiles"

lemma operand_tiled:
  assumes pos: "0 < r" "0 < c" "0 < i" and strides: "strides \<in> set (stride_choices [r, c, i])"
    and batch: "\<forall>a\<in>set axes. 0 < partitions a" and tiles: "tiles = r * c * i * prod_list (map partitions axes)" "tiles < 2 ^ 16"
    and l: "tiling_axes (layout_tiling l) = [x, y]"
    and roles: "operand = 0 \<and> partitions x = r \<and> partitions y = i \<and> replicas (layout_tiling l) = c
      \<or> operand = 1 \<and> partitions x = c \<and> partitions y = i \<and> replicas (layout_tiling l) = r"
  shows "well_tiled tiles (place_operand operand row_grain strides (r * c * i) axes tiles shape l)"
proof -
  let ?t = "layout_tiling (place_operand operand row_grain strides (r * c * i) axes tiles shape l)"
  from grid_digits [OF pos strides] have s: "0 < strides ! 0" "0 < strides ! 1" "0 < strides ! 2" by blast+
  have cells: "0 < r * c * i" using pos by simp
  have p: "0 < partitions x" "0 < partitions y" "0 < replicas (layout_tiling l)" using roles pos by auto
  have "0 < strides ! (if operand = 1 then 1 else 0)" "0 < strides ! (if operand = 2 then 1 else 2)" using s by simp_all
  from place_operand_axes [OF l cells batch p this, of row_grain tiles shape] obtain x' y' new where
    a: "tiling_axes ?t = [x', y'] @ new" "stride_digit x' = (strides ! (if operand = 1 then 1 else 0), partitions x)"
    "stride_digit y' = (strides ! (if operand = 2 then 1 else 2), partitions y)" "\<forall>z\<in>set ([x', y'] @ new). explicit_axis z"
    "subseq (map stride_digit new) (batch_digits (r * c * i) axes)" "0 < replicas ?t"
    "replicas ?t * prod_list (map partitions new) = replicas (layout_tiling l) * prod_list (map partitions axes)" by blast
  have tt: "tiling_tiles ?t = tiles" by (simp add: place_operand_def)
  have "balanced ?t"
  proof (rule grid_tensor_balanced [OF pos strides batch _ _ _ _ a(5), of ?t "[x', y']" "[]"])
    show "tiling_tiles ?t = r * c * i * prod_list (map partitions axes)" "tiling_tiles ?t < 2 ^ 16" using tt tiles by simp_all
    show "tiling_axes ?t = [x', y'] @ new @ []" "\<forall>z\<in>set ([x', y'] @ new @ []). explicit_axis z" using a(1,4) by simp_all
    show "mset (map stride_digit ([x', y'] @ [])) \<subseteq># mset [(strides ! 0, r), (strides ! 1, c), (strides ! 2, i)]"
      using roles a(2,3) by auto
    show "0 < replicas ?t" by (rule a(6))
    have "replicas ?t * prod_list (map partitions (tiling_axes ?t)) = partitions x' * partitions y' * (replicas ?t * prod_list (map partitions new))"
      by (simp add: a(1))
    also have "\<dots> = tiles" unfolding a(7) using roles a(2,3) tiles(1) by (auto simp: mult_ac)
    finally show "replicas ?t * prod_list (map partitions (tiling_axes ?t)) = tiling_tiles ?t" using tt by simp
  qed
  then show ?thesis using tt by (simp add: well_tiled_def)
qed

lemma result_tiled:
  assumes pos: "0 < r" "0 < c" "0 < i" and strides: "strides \<in> set (stride_choices [r, c, i])"
    and batch: "\<forall>a\<in>set axes. 0 < partitions a" and groups_def: "groups = prod_list (map partitions axes)"
    and tiles: "tiles = r * c * i * groups" "tiles < 2 ^ 16"
    and l: "tiling_axes (layout_tiling l) = [x, y]" "partitions x = r" "partitions y = c" "replicas (layout_tiling l) = 1"
    and result: "result = place_operand 2 row_grain strides (r * c * i) axes tiles shape l"
  shows "well_tiled tiles (layout_of (format_of (add_inner strides i (tensor_new shape p result))))"
    and "red \<in> set reds \<Longrightarrow> reductions result strides groups shape m n (r, c, i) = Inr reds \<Longrightarrow>
      red = Some reduced \<Longrightarrow> well_tiled tiles reduced"
proof -
  let ?t = "layout_tiling result"
  from grid_digits [OF pos strides] have s: "0 < strides ! 0" "0 < strides ! 1" "0 < strides ! 2" by blast+
  have cells: "0 < r * c * i" using pos by simp
  have p: "0 < partitions x" "0 < partitions y" "0 < replicas (layout_tiling l)" using l pos by auto
  have "0 < strides ! (if (2::nat) = 1 then 1 else 0)" "0 < strides ! (if (2::nat) = 2 then 1 else 2)" using s by simp_all
  from place_operand_axes [OF l(1) cells batch p this, of row_grain tiles shape, folded result] obtain x' y' new where
    a: "tiling_axes ?t = [x', y'] @ new" "stride_digit x' = (strides ! (if (2::nat) = 1 then 1 else 0), partitions x)"
    "stride_digit y' = (strides ! (if (2::nat) = 2 then 1 else 2), partitions y)" "\<forall>z\<in>set ([x', y'] @ new). explicit_axis z"
    "subseq (map stride_digit new) (batch_digits (r * c * i) axes)" "0 < replicas ?t"
    "replicas ?t * prod_list (map partitions new) = replicas (layout_tiling l) * prod_list (map partitions axes)" by blast
  have d: "stride_digit x' = (strides ! 0, r)" "stride_digit y' = (strides ! 1, c)" using a(2,3) l(2,3) by simp_all
  have groups: "replicas ?t * prod_list (map partitions new) = groups" using a(7) l(4) groups_def by simp
  have tt: "tiling_tiles ?t = tiles" by (simp add: result place_operand_def)
  obtain inner where inner: "inner = with_tile_stride (strides ! 2) (axis_new (FromStart 0) i 1 Reject)" by blast
  have i: "stride_digit inner = (strides ! 2, i)" "explicit_axis inner" "partitions inner = i"
    using s(3) pos(3) by (simp_all add: inner with_tile_stride_def axis_new_def explicit_axis_def)
  obtain u where u: "u = layout_tiling (layout_of (format_of (add_inner strides i (tensor_new shape p result))))" by blast
  define extra where "extra = (if i > 1 then [inner] else [])"
  have ua: "tiling_axes u = [x', y'] @ new @ extra" "replicas u = replicas ?t" "tiling_tiles u = tiles"
    using a(1) tt by (simp_all add: u add_inner_def tensor_new_def Let_def extra_def inner)
  have product: "prod_list (map partitions extra) = i" using pos(3) by (simp add: extra_def i(3))
  have "balanced u"
  proof (rule grid_tensor_balanced [OF pos strides batch _ _ _ _ a(5), of u "[x', y']" extra])
    show "tiling_tiles u = r * c * i * prod_list (map partitions axes)" "tiling_tiles u < 2 ^ 16" using ua(3) tiles groups_def by simp_all
    show "tiling_axes u = [x', y'] @ new @ extra" by (rule ua(1))
    show "\<forall>z\<in>set ([x', y'] @ new @ extra). explicit_axis z" using a(4) i(2) by (auto simp: extra_def)
    show "mset (map stride_digit ([x', y'] @ extra)) \<subseteq># mset [(strides ! 0, r), (strides ! 1, c), (strides ! 2, i)]"
      using d i(1) by (simp add: extra_def)
    show "0 < replicas u" using a(6) ua(2) by simp
    have "replicas u * prod_list (map partitions (tiling_axes u))
        = r * c * prod_list (map partitions extra) * (replicas ?t * prod_list (map partitions new))"
      using d by (simp add: ua)
    also have "\<dots> = tiling_tiles u" unfolding groups product ua(3) tiles(1) by simp
    finally show "replicas u * prod_list (map partitions (tiling_axes u)) = tiling_tiles u" .
  qed
  then show "well_tiled tiles (layout_of (format_of (add_inner strides i (tensor_new shape p result))))"
    using ua(3) by (simp add: well_tiled_def u)
  assume red: "red \<in> set reds" "reductions result strides groups shape m n (r, c, i) = Inr reds" "red = Some reduced"
  from reductions_mem [OF red(2,1)] red(3) obtain rp cp where
    rc: "(rp, cp) = (r, c) \<or> (rp, cp) = (r * i, c) \<or> (rp, cp) = (r, c * i)" "reduced = reduction_layout result strides groups rp cp" by auto
  have g: "0 < groups" using prod_parts_pos [OF batch] groups_def by simp
  have rp: "0 < rp" "0 < cp" using rc(1) pos by auto
  have le: "rp * cp * groups \<le> tiles" unfolding tiles(1) by (rule mult_le_mono1) (use rc(1) pos in \<open>auto simp: mult_ac\<close>)
  then have small: "rp * cp * groups < 2 ^ 16" using tiles(2) by simp
  have "\<forall>z\<in>set new. explicit_axis z" using a(4) by simp
  from reduction_balanced [OF rp g a(1,6) groups this small] le show "well_tiled tiles reduced"
    by (simp add: well_tiled_def rc(2))
qed

lemma prepared_tiled:
  assumes "well_tiled tiles l"
  shows "well_tiled tiles (prepared l)"
proof -
  let ?f = "\<lambda>a. if tiling_axis a = FromEnd 1 then a\<lparr>shard_padding_multiple := 8\<rparr> else a"
  let ?t = "layout_tiling l" and ?u = "layout_tiling (prepared l)"
  have u: "tiling_axes ?u = map ?f (tiling_axes ?t)" "replicas ?u = replicas ?t" "tiling_tiles ?u = tiling_tiles ?t"
    by (simp_all add: prepared_def Let_def)
  have f: "partitions (?f a) = partitions a" "tile_stride (?f a) = tile_stride a" for a by simp_all
  have "axis_strides_loop n (map ?f axes) = axis_strides_loop n axes" for n axes
    by (induction axes arbitrary: n) (simp_all only: list.map axis_strides_loop.simps f)
  then have strides: "axis_strides ?u = axis_strides ?t" by (simp add: axis_strides_def u)
  have digits: "tile_digits (zip (map ?f axes) strides) tile = tile_digits (zip axes strides) tile" for axes strides tile
    by (simp add: tile_digits_def zip_map1 case_prod_unfold comp_def f del: if_split)
  have parts: "map partitions (map ?f axes) = map partitions axes" for axes by (simp only: list.map_comp comp_def f)
  show ?thesis using assms unfolding well_tiled_def balanced_def strides unfolding u parts digits .
qed

lemma stride_choice_tiled:
  assumes ch: "stride_choice g groups axes (r, c, i) kw nw strides = Inr cs" "ch \<in> set cs" "l \<in> set (choice_layouts ch)"
    and pos: "0 < r" "0 < c" "0 < i" and strides: "strides \<in> set (stride_choices [r, c, i])"
    and batch: "\<forall>a\<in>set axes. 0 < partitions a" and groups: "groups = prod_list (map partitions axes)"
    and small: "r * c * i * groups < 2 ^ 16"
  shows "well_tiled (r * c * i * groups) l"
proof -
  let ?cells = "r * c * i" and ?tiles = "r * c * i * groups"
  let ?lleft = "operand_layout True (case_transposed_left g) ?cells r i c kw nw"
  let ?lright = "operand_layout False (case_transposed_right g) ?cells c i r kw nw"
  let ?product = "operand_layout True (case_swapped g) ?tiles r c 1 nw nw"
  let ?lres = "if kw > case_grain g then ?product\<lparr>memory_class_of := Ipu21Interleaved\<rparr> else ?product"
  let ?left = "place_operand 0 (case_row_grain g) strides ?cells axes ?tiles (case_left g) ?lleft"
  let ?right = "place_operand 1 (case_row_grain g) strides ?cells axes ?tiles (case_right g) ?lright"
  let ?res = "place_operand 2 (case_row_grain g) strides ?cells axes ?tiles (case_shape g) ?lres"
  from ch(1,2) obtain reds red cls where
    reds: "reductions ?res strides groups (case_shape g) (case_m g) (case_n g) (r, c, i) = Inr reds" "red \<in> set reds"
    and che: "ch = \<lparr>choice_left = tensor_new (case_left g) (case_precision g) ?left,
        choice_right = tensor_new (case_right g) (case_precision g) (?right\<lparr>memory_class_of := cls\<rparr>),
        choice_result = add_inner strides i (tensor_new (case_shape g) F16 ?res), choice_reduction = red,
        choice_swapped = case_swapped g, choice_inner_block = kw, choice_columns = nw\<rparr>"
    by (auto simp: stride_choice_def Let_def res_simps simp del: One_nat_def)
  have t: "?tiles = r * c * i * prod_list (map partitions axes)" by (simp add: groups)
  obtain lx ly where lleft: "tiling_axes (layout_tiling ?lleft) = [lx, ly]" "partitions lx = r" "partitions ly = i"
    using operand_layout_tiling(1) by blast
  have left: "well_tiled ?tiles ?left"
    by (rule operand_tiled [OF pos strides batch t small lleft(1)]) (use lleft operand_layout_tiling(2) in simp)
  obtain rx ry where lright: "tiling_axes (layout_tiling ?lright) = [rx, ry]" "partitions rx = c" "partitions ry = i"
    using operand_layout_tiling(1) by blast
  have right: "well_tiled ?tiles ?right"
    by (rule operand_tiled [OF pos strides batch t small lright(1)]) (use lright operand_layout_tiling(2) in simp)
  have same: "layout_tiling ?lres = layout_tiling ?product" by simp
  obtain px py where lres: "tiling_axes (layout_tiling ?lres) = [px, py]" "partitions px = r" "partitions py = c"
    unfolding same using operand_layout_tiling(1) by blast
  have one: "replicas (layout_tiling ?lres) = 1" unfolding same by (rule operand_layout_tiling(2))
  note res = result_tiled [OF pos strides batch groups refl small lres one refl]
  have "well_tiled ?tiles (?right\<lparr>memory_class_of := cls\<rparr>)" using right by (simp add: well_tiled_def)
  moreover have "well_tiled ?tiles reduced" if "red = Some reduced" for reduced
    by (rule res(2) [OF reds(2,1) that])
  ultimately show ?thesis using ch(3) left res(1) [of "case_shape g" F16] prepared_tiled
    by (auto simp: choice_layouts_def che tensor_new_def split: option.splits)
qed

lemma concat_traverse_mem:
  "map_sum id concat (traverse f xs) = Inr ys \<Longrightarrow> y \<in> set ys \<Longrightarrow> \<exists>x\<in>set xs. \<exists>zs. f x = Inr zs \<and> y \<in> set zs"
proof -
  assume ys: "map_sum id concat (traverse f xs) = Inr ys" and y: "y \<in> set ys"
  then obtain yss where t: "traverse f xs = Inr yss" "ys = concat yss" by (cases "traverse f xs") auto
  then obtain zs where zs: "zs \<in> set yss" "y \<in> set zs" using y by auto
  then obtain k where "k < length yss" "yss ! k = zs" by (auto simp: in_set_conv_nth)
  then show ?thesis using traverse_nth [OF t(1), of k] traverse_length [OF t(1)] zs(2) by (metis nth_mem)
qed

lemma well_tiled_mono: "well_tiled n l \<Longrightarrow> n \<le> m \<Longrightarrow> well_tiled m l"
  by (simp add: well_tiled_def)

lemma case_choices_tiled:
  assumes "case_choices g tile_count batches = Inr cs" and "ch \<in> set cs" and "l \<in> set (choice_layouts ch)"
    and "\<forall>b\<in>set batches. batch_ok tile_count b" and "tile_count < 2 ^ 16"
  shows "well_tiled tile_count l"
proof -
  from concat_traverse_mem [OF assms(1) [unfolded case_choices_def] assms(2)] obtain groups axes zs where
    b: "(groups, axes) \<in> set batches" and
    zs: "map_sum id concat (traverse (grid_choice g groups axes)
         (grids (div_ceil (case_m g) (case_row_grain g)) (div_ceil (case_n g) 16) (div_ceil (case_k g) (case_grain g))
            (tile_count div groups))) = Inr zs" "ch \<in> set zs" by auto
  from concat_traverse_mem [OF zs] obtain r c i us where
    rci: "(r, c, i) \<in> set (grids (div_ceil (case_m g) (case_row_grain g)) (div_ceil (case_n g) 16) (div_ceil (case_k g) (case_grain g))
            (tile_count div groups))"
    and us: "grid_choice g groups axes (r, c, i) = Inr us" "ch \<in> set us" by auto
  note pos = grids_bounds [OF rci]
  have ok: "batch_ok tile_count (groups, axes)" using assms(4) b by blast
  have parts: "\<forall>a\<in>set axes. 0 < partitions a" "groups = prod_list (map partitions axes)" using ok by (simp_all add: batch_ok_def)
  have le: "r * c * i * groups \<le> tile_count"
    using mult_le_mono1 [OF pos(4), of groups] div_times_less_eq_dividend [of tile_count groups] by linarith
  then have small: "r * c * i * groups < 2 ^ 16" using assms(5) by simp
  from us obtain kw nw where kn: "map_sum id concat (traverse (stride_choice g groups axes (r, c, i) kw nw) (stride_choices [r, c, i])) = Inr us"
    by (auto simp: grid_choice_def res_simps split: if_splits)
  from concat_traverse_mem [OF this us(2)] obtain strides vs where
    v: "strides \<in> set (stride_choices [r, c, i])" "stride_choice g groups axes (r, c, i) kw nw strides = Inr vs" "ch \<in> set vs" by blast
  from stride_choice_tiled [OF v(2,3) assms(3) pos(1-3) v(1) parts small] show ?thesis by (rule well_tiled_mono [OF _ le])
qed

lemma choices_tiled:
  assumes "choices a b shape opts tile_count = Inr cs" and "ch \<in> set cs" and "l \<in> set (choice_layouts ch)" and "tile_count < 2 ^ 16"
  shows "well_tiled tile_count l"
proof -
  from assms(1) obtain batches common where
    batches: "batch_loop a b shape tile_count [0..<length shape - 2] [(1, [])] = Inr batches"
    and cs: "map_sum id concat (traverse (\<lambda>swapped. case_choices (common swapped) tile_count batches) [False, True]) = Inr cs"
    unfolding choices_def Let_def by (auto simp: res_simps simp del: traverse.simps split: option.splits if_splits)
  have ok: "\<forall>x\<in>set batches. batch_ok tile_count x" by (rule batch_loop_ok [OF batches]) (simp add: batch_ok_def)
  from concat_traverse_mem [OF cs assms(2)] obtain swapped zs where
    "case_choices (common swapped) tile_count batches = Inr zs" "ch \<in> set zs" by blast
  from case_choices_tiled [OF this assms(3) ok assms(4)] show ?thesis .
qed

subsection \<open>The other layouts\<close>

lemma div_ceil_le: "a \<le> t * b \<Longrightarrow> 0 < b \<Longrightarrow> div_ceil a b \<le> t"
proof -
  assume le: "a \<le> t * b" and b: "0 < b"
  show ?thesis
  proof (cases "a mod b > 0")
    case True
    have "a div b < t"
    proof (rule ccontr)
      assume "\<not> a div b < t"
      then have "t * b \<le> a div b * b" by (intro mult_le_mono1) simp
      moreover have "a div b * b < a" using True by (metis div_mult_mod_eq less_add_same_cancel1)
      ultimately show False using le by linarith
    qed
    then show ?thesis using True by (simp add: div_ceil_def)
  next
    case False
    then show ?thesis using le b by (simp add: div_ceil_def) (metis div_le_mono div_mult_self_is_m)
  qed
qed

lemma div_ceil_mult: "0 < b \<Longrightarrow> a \<le> div_ceil a b * b"
proof -
  assume b: "0 < b"
  have a: "a = a div b * b + a mod b" by simp
  show ?thesis
  proof (cases "a mod b > 0")
    case True
    then have "div_ceil a b * b = a div b * b + b" by (simp add: div_ceil_def)
    then show ?thesis using a mod_less_divisor [OF b, of a] by linarith
  next
    case False
    then show ?thesis using a by (simp add: div_ceil_def)
  qed
qed

lemma single_axis_tiled:
  assumes "layout_tiling l = \<lparr>tiling_tiles = n, replicas = 1, tiling_axes = [x]\<rparr>" and "partitions x = n" and "tile_stride x = None"
    and "n \<le> tiles" and "tiles < 2 ^ 16"
  shows "well_tiled tiles l"
proof -
  have "n < 2 ^ 16" using assms(4,5) by simp
  then have "axis_strides (layout_tiling l) = Inr [1]" by (simp add: assms(1-3) axis_strides_def Let_def checked_mul_def)
  then have "well_mapped (layout_tiling l)"
    using \<open>n < 2 ^ 16\<close> assms(2) by (simp add: assms(1) well_mapped_def has_regular_tile_mapping_def Let_def is_multiple_of_dvd checked_mul_def)
  then show ?thesis using well_mapped_balanced assms(1,4) by (simp add: well_tiled_def)
qed

lemma row_sharded_tiled: "n \<le> tiles \<Longrightarrow> tiles < 2 ^ 16 \<Longrightarrow> well_tiled tiles (row_sharded n)"
  by (rule single_axis_tiled [of _ n "axis_new (FromEnd 2) n 1 Reject"])
    (simp_all add: row_sharded_def row_major_def tiling_sharded_def axis_new_def)

lemma padded_linear_tiled: "n \<le> tiles \<Longrightarrow> tiles < 2 ^ 16 \<Longrightarrow> well_tiled tiles (padded_linear n grain)"
  by (rule single_axis_tiled [of _ n "(axis_new Linear n grain Reject)\<lparr>padding_mode := Zero\<rparr>"])
    (simp_all add: padded_linear_def logical_linear_def row_major_def tiling_linear_def axis_new_def Let_def)

lemma default_layout_tiled:
  assumes "default_layout shape tiles grain = Inr l" and "tiles < 2 ^ 16"
  shows "well_tiled tiles l"
proof -
  from assms(1) obtain blocks owners where t: "0 < tiles"
    and owners: "owners = max (div_ceil blocks (max (div_ceil blocks tiles) 1)) 1 mod 2 ^ 16"
    and l: "l = row_sharded owners \<or> l = padded_linear owners grain"
    by (auto simp: default_layout_def res_simps div_ceil_res_def Let_def split: if_splits)
  have "blocks \<le> tiles * max (div_ceil blocks tiles) 1"
    using le_trans [OF div_ceil_mult [OF t, of blocks]] by (simp add: mult.commute)
  then have "div_ceil blocks (max (div_ceil blocks tiles) 1) \<le> tiles" by (rule div_ceil_le) simp
  then have "max (div_ceil blocks (max (div_ceil blocks tiles) 1)) 1 \<le> tiles" using t by simp
  then have "owners \<le> tiles" unfolding owners using mod_less_eq_dividend le_trans by blast
  then show ?thesis using l row_sharded_tiled padded_linear_tiled assms(2) by blast
qed

lemma default_layouts_tiled:
  assumes "default_layouts shape p tiles = Inr ls" and "l \<in> set ls" and "0 < tiles" and "tiles < 2 ^ 16"
  shows "well_tiled tiles l"
proof -
  from assms(1,2) consider "l = row_sharded 1" | grains where "traverse (default_layout shape tiles) grains = Inr ls"
    by (auto simp: default_layouts_def Let_def split: if_splits)
  then show ?thesis
  proof cases
    case 1 then show ?thesis using row_sharded_tiled [of 1 tiles] assms(3,4) by simp
  next
    case 2
    then obtain k where "k < length grains" "ls ! k = l" using assms(2) traverse_length by (metis in_set_conv_nth)
    then show ?thesis using default_layout_tiled traverse_nth [OF 2] assms(4) by blast
  qed
qed

lemma operand_layout_tiled:
  assumes "0 < p" "0 < q" "p * q \<le> tiles" "tiles < 2 ^ 16"
  shows "well_tiled tiles ((operand_layout left transposed (p * q) p q 1 k n)\<lparr>memory_class_of := cls\<rparr>)"
proof -
  obtain x y where t: "layout_tiling (operand_layout left transposed (p * q) p q 1 k n) = \<lparr>tiling_tiles = p * q, replicas = 1, tiling_axes = [x, y]\<rparr>"
    "partitions x = p" "partitions y = q" "tile_stride x = Some (if left then q else 1)" "tile_stride y = Some (if left then 1 else p)"
    by (simp add: operand_layout_def Let_def axis_new_def with_tile_stride_def)
  have "well_mapped \<lparr>tiling_tiles = p * q, replicas = 1, tiling_axes = [x, y]\<rparr>"
    by (rule two_axes_mapped [where R = 1 and p = p and q = q and a = "if left then q else 1" and b = "if left then 1 else p"])
      (use assms t in auto)
  then show ?thesis using well_mapped_balanced assms(3) by (simp add: well_tiled_def t(1) del: One_nat_def)
qed

lemma resolve_pos: "resolve l shape = Inr r \<Longrightarrow> 0 < tiling_tiles (layout_tiling l)"
  by (rule ccontr) (simp add: resolve_def padded_shape_def layout_fail_def)

lemma parameter_loop_tiled:
  "parameter_loop shape left transposed inner tiles ps best = Inr best' \<Longrightarrow> \<forall>p\<in>set ps. 0 < p \<Longrightarrow> tiles < 2 ^ 16 \<Longrightarrow>
   (\<forall>score l. best = Some (score, l) \<longrightarrow> well_tiled tiles l) \<Longrightarrow> best' = Some (score, l) \<Longrightarrow> well_tiled tiles l"
proof (induction ps arbitrary: best)
  case Nil then show ?case by simp
next
  case (Cons p ps)
  let ?q = "min (div_ceil (shape ! inner) 16) (tiles div p)"
  let ?l = "(operand_layout left transposed (p * ?q) p ?q 1 16 16)\<lparr>memory_class_of := Ipu21Standard\<rparr>"
  from Cons.prems(1) obtain r next_best where r: "resolve ?l shape = Inr r"
    and next_best: "next_best = best \<or> (\<exists>s. next_best = Some (s, ?l))"
    and rest: "parameter_loop shape left transposed inner tiles ps next_best = Inr best'"
    by (auto simp: Let_def res_simps resolve_unwrap_def split: sum.splits option.splits prod.splits if_splits)
  have "0 < p * ?q" using resolve_pos [OF r] by (simp add: operand_layout_def Let_def)
  moreover have "p * ?q \<le> tiles"
    using mult_le_mono2 [of ?q "tiles div p" p] times_div_less_eq_dividend [of p tiles] by linarith
  ultimately have "well_tiled tiles ?l" using operand_layout_tiled [of p ?q] Cons.prems(3) by simp
  then have "\<forall>score l. next_best = Some (score, l) \<longrightarrow> well_tiled tiles l" using next_best Cons.prems(4) by auto
  from Cons.IH [OF rest _ Cons.prems(3) this Cons.prems(5)] Cons.prems(2) show ?case by simp
qed

lemma parameter_format_tiled:
  assumes "parameter_format shape left transposed config = Inr f" and "config_tiles config < 2 ^ 16"
  shows "well_tiled (config_tiles config) (layout_of f)"
proof -
  from assms(1) obtain inner outer score l where
    best: "parameter_loop shape left transposed inner (config_tiles config)
      (partition_counts (div_ceil (shape ! outer) (if left then 1 else 16)) (config_tiles config)) None = Inr (Some (score, l))"
    and f: "layout_of f = l"
    by (auto simp: parameter_format_def Let_def res_simps simp del: parameter_loop.simps split: if_splits option.splits)
  show ?thesis unfolding f
    by (rule parameter_loop_tiled [OF best _ assms(2)]) (use partition_counts_bounds in auto)
qed

lemma compact_format_tiled:
  assumes "config_tiles config < 2 ^ 16"
  shows "well_tiled (config_tiles config) (layout_of (compact_format shape config))"
  unfolding compact_format_def Let_def tensor_format.simps
  by (rule padded_linear_tiled [OF _ assms]) (rule le_trans [OF mod_less_eq_dividend], simp)

lemma row_format_tiled:
  assumes "config_tiles config < 2 ^ 16"
  shows "well_tiled (config_tiles config) (layout_of (row_format shape config))"
proof (cases "length shape \<ge> 2")
  case True
  have "min (shape ! (length shape - 2)) (config_tiles config) mod 2 ^ 16 \<le> config_tiles config"
    by (rule le_trans [OF mod_less_eq_dividend]) simp
  from row_sharded_tiled [OF this assms] True show ?thesis by (simp add: row_format_def Let_def)
next
  case False
  then show ?thesis using compact_format_tiled [OF assms] by (simp add: row_format_def Let_def)
qed

lemma default_format_tiled:
  assumes "default_format reader shape config = Inr f" and "config_tiles config < 2 ^ 16"
  shows "well_tiled (config_tiles config) (layout_of f)"
  using assms row_format_tiled parameter_format_tiled by (cases reader) auto

lemma assembled_tiled:
  assumes "1 \<le> tiles"
  shows "well_tiled tiles (assembled l)"
proof -
  let ?axes = "map (\<lambda>a. a\<lparr>partitions := 1, tile_stride := Some 1\<rparr>) (tiling_axes (layout_tiling l))"
  have t: "tiling_axes (layout_tiling (assembled l)) = ?axes" "replicas (layout_tiling (assembled l)) = 1"
    "tiling_tiles (layout_tiling (assembled l)) = 1"
    by (simp_all add: assembled_def Let_def)
  have "prod_list (map partitions (map (\<lambda>a. a\<lparr>partitions := 1, tile_stride := Some 1\<rparr>) as)) = 1" for as :: "axis_tiling list"
    by (induction as) simp_all
  note one = this [of "tiling_axes (layout_tiling l)"]
  have "balanced (layout_tiling (assembled l))"
    by (rule digits_balanced [of _ "[]"]) (use one in \<open>auto simp: t explicit_axis_def filter_empty_conv comp_def\<close>)
  then show ?thesis using assms by (simp add: well_tiled_def t)
qed

lemma grid_layouts_tiled:
  assumes pos: "0 < r" "0 < c" "0 < i" and small: "r * c * i \<le> tiles" "tiles < 2 ^ 16"
    and l: "l \<in> set (grid_layouts r c i block cb grid)"
  shows "well_tiled tiles l"
proof -
  have lt: "r * c * i < 2 ^ 16" using small by simp
  have "balanced (layout_tiling l)" using grid_layouts_mapped [OF pos lt] l well_mapped_balanced by (simp add: list_all_iff)
  moreover have "r * c \<le> r * c * i" "r \<le> r * c" using pos by simp_all
  then have le: "r * c \<le> tiles" "r \<le> tiles" using small by linarith+
  then have sat: "saturating_mul 16 r c = r * c" using small by (simp add: saturating_mul_def)
  have "tiling_tiles (layout_tiling l) \<le> tiles"
    using l le small sat by (auto simp: grid_layouts_def layout_defs Let_def split: if_splits)
  ultimately show ?thesis by (simp add: well_tiled_def)
qed

subsection \<open>The layouts of a plan\<close>

text \<open>
  A layout the planner proposes: for a boundary value or a parameter, for an operand, the result,
  the unpacked products or the reduction of a GEMM assignment, or to assemble one of these on one tile; and a layout
  of the grid constructors on as many tiles.
\<close>

inductive proposed_layout :: "pipeline_config \<Rightarrow> layout \<Rightarrow> bool" for config where
  boundary: "default_layouts shape p (config_tiles config) = Inr ls \<Longrightarrow> l \<in> set ls \<Longrightarrow> proposed_layout config l"
| resident: "default_format reader shape config = Inr f \<Longrightarrow> proposed_layout config (layout_of f)"
| compact: "proposed_layout config (layout_of (compact_format shape config))"
| gemm: "choices a b shape opts (config_tiles config) = Inr cs \<Longrightarrow> ch \<in> set cs \<Longrightarrow> l \<in> set (choice_layouts ch) \<Longrightarrow>
    proposed_layout config l"
| assembly: "proposed_layout config l \<Longrightarrow> 1 < tiling_tiles (layout_tiling l) \<Longrightarrow> proposed_layout config (assembled l)"
| constructed: "0 < rows \<Longrightarrow> 0 < columns \<Longrightarrow> 0 < inner \<Longrightarrow> rows * columns * inner \<le> config_tiles config \<Longrightarrow>
    l \<in> set (grid_layouts rows columns inner block cblock grid) \<Longrightarrow> proposed_layout config l"

lemma proposed_layout_tiled:
  assumes "proposed_layout config l" and "0 < config_tiles config" and "config_tiles config < 2 ^ 16"
  shows "well_tiled (config_tiles config) l"
  using assms
proof induction
  case (boundary shape p ls l) then show ?case by (rule default_layouts_tiled)
next
  case (resident reader shape f) then show ?case using default_format_tiled by blast
next
  case (compact shape) then show ?case using compact_format_tiled by blast
next
  case (gemm a b shape opts cs ch l) then show ?case using choices_tiled by blast
next
  case (assembly l) then show ?case by (intro assembled_tiled) simp
next
  case (constructed rows columns inner l block cblock grid) then show ?case using grid_layouts_tiled by blast
qed

subsection \<open>Properties\<close>

text \<open>
  C29: Every layout the planner proposes maps its tiles consistently, as does every layout of
  the grid constructors: whether it stores a boundary value or a parameter, belongs to an
  operand, the result, the unpacked products or the reduction of any enumerated GEMM assignment (every grid, batch
  split, order of the tile digits and operand swap), or assembles one of these on one tile, it
  declares at most the configured tiles, every coordinate of its axes is held by exactly as many
  tiles as there are replicas, and resolving it on any shape reports no tile count mismatch,
  no invalid tile mapping, no tile count overflow and does not panic in those checks.
\<close>

theorem proposed_layouts_map_their_tiles:
  assumes "proposed_layout config l" and "0 < config_tiles config" and "config_tiles config < 2 ^ 16"
  shows "balanced (layout_tiling l) \<and> tiling_tiles (layout_tiling l) \<le> config_tiles config
    \<and> \<not> (\<exists>e. padded_shape l shape = Inl e \<and> mapping_error e)"
proof -
  have "well_tiled (config_tiles config) l" by (rule proposed_layout_tiled [OF assms])
  then show ?thesis using balanced_accepted [of l shape] assms(3) by (auto simp: well_tiled_def)
qed

text \<open>A 4 by 16 times 16 by 32 product on two tiles: a result split over its columns.\<close>

definition sample_operand :: "tensor_shape \<Rightarrow> tensor_type" where
  "sample_operand shape = tensor_new shape F16 (row_sharded 1)"

definition sample_config :: pipeline_config where
  "sample_config = \<lparr>config_target = Ipu21, config_tiles = 2, standard_memory_reservation_bytes = 0, tile_memory_budget_bytes = 0x90000\<rparr>"

lemma sample_upto: "[1..<3] = [1, 2]" "[1..<2] = [1::nat]"
  by (simp_all add: upt_rec numeral_2_eq_2 numeral_3_eq_3)

lemma sample_counts:
  "partition_counts 4 2 = [1, 2]" "partition_counts 16 2 = [1, 2]" "partition_counts 2 2 = [1, 2]" "partition_counts 2 1 = [1]"
  "partition_counts 1 2 = [1]" "partition_counts 1 1 = [1]"
  by (simp_all add: partition_counts_def sample_upto div_ceil_def Let_def del: upt_Suc One_nat_def)

lemma sample_grids: "grids 4 2 1 2 = [(1, 1, 1), (1, 2, 1), (2, 1, 1)]" "grids 16 1 1 2 = [(1, 1, 1), (2, 1, 1)]"
  by (simp_all add: grids_def sample_counts del: One_nat_def)

lemma sample_strides: "stride_choices [1, 1, 1] = [[1, 1, 1]]" "stride_choices [1, 2, 1] = [[1, 1, 1]]" "stride_choices [2, 1, 1] = [[1, 1, 1]]"
  by (simp_all add: stride_choices_def axis_orders_def order_strides_def order_step_def Let_def numeral_2_eq_2)

lemma stride_choice_whole:
  "\<exists>cs. stride_choice g groups axes (r, c, 1) kw nw strides = Inr cs \<and> cs \<noteq> []
    \<and> (\<forall>ch\<in>set cs. tiling_tiles (layout_tiling (layout_of (format_of (choice_result ch)))) = r * c * groups)"
  by (simp add: stride_choice_def reductions_def Let_def add_inner_def tensor_new_def place_operand_def)

lemma sample_grid_choice:
  assumes "(r, c) \<in> {(1, 1), (1, 2), (2, 1)}" and "case_k g = 16" "case_grain g = 16" "case_n g \<in> {4, 32}"
  shows "\<exists>cs. grid_choice g 1 [] (r, c, 1) = Inr cs \<and> cs \<noteq> []
    \<and> (\<forall>ch\<in>set cs. tiling_tiles (layout_tiling (layout_of (format_of (choice_result ch)))) = r * c)"
proof -
  have kw: "checked_mul 32 (div_ceil (div_ceil (case_k g) (case_grain g)) 1) (case_grain g) = Some 16"
    by (simp add: assms(2,3) div_ceil_def checked_mul_def)
  obtain nw where nw: "checked_mul 32 (div_ceil (div_ceil (case_n g) 16) c) 16 = Some nw"
    using assms(1,4) by (auto simp: div_ceil_def checked_mul_def)
  have strides: "stride_choices [r, c, 1] = [[1, 1, 1]]" using assms(1) sample_strides by auto
  obtain cs where "stride_choice g 1 [] (r, c, 1) 16 nw [1, 1, 1] = Inr cs" "cs \<noteq> []"
    "\<forall>ch\<in>set cs. tiling_tiles (layout_tiling (layout_of (format_of (choice_result ch)))) = r * c * 1"
    using stride_choice_whole by blast
  then show ?thesis by (simp add: grid_choice_def kw nw strides del: One_nat_def)
qed

lemma sample_choices:
  "\<exists>cs ch. choices (sample_operand [4, 16]) (sample_operand [16, 32]) [4, 32] \<lparr>transpose_left = False, transpose_right = False\<rparr> 2 = Inr cs
    \<and> ch \<in> set cs \<and> tiling_tiles (layout_tiling (layout_of (format_of (choice_result ch)))) = 2"
proof -
  let ?a = "sample_operand [4, 16]" and ?b = "sample_operand [16, 32]" and ?shape = "[4, 32] :: nat list"
    and ?opts = "\<lparr>transpose_left = False, transpose_right = False\<rparr>"
  obtain common where common: "common = (\<lambda>swapped.
      \<lparr>case_left = shape_of (if swapped then ?b else ?a), case_right = shape_of (if swapped then ?a else ?b),
       case_shape = ?shape, case_precision = F16, case_grain = (if F16 = F16 then 16 else 32), case_swapped = swapped,
       case_transposed_left = (if swapped then \<not> transpose_right ?opts else transpose_left ?opts),
       case_transposed_right = (if swapped then \<not> transpose_left ?opts else transpose_right ?opts),
       case_m = ?shape ! (length ?shape - (if swapped then 1 else 2)),
       case_n = ?shape ! (length ?shape - (if swapped then 2 else 1)), case_k = 16\<rparr>)" by blast
  have parts: "gemm_precision (precision_of (format_of ?a)) (precision_of (format_of ?b)) = Some F16"
    "from_end (shape_of ?a) (if transpose_left ?opts then 2 else 1) = Inr 16" "\<not> length ?shape < 2"
    "batch_loop ?a ?b ?shape 2 [0..<length ?shape - 2] [(1, [])] = Inr [(1, [])]"
    by (simp_all add: sample_operand_def tensor_new_def gemm_precision_def from_end_def)
  have choices: "choices ?a ?b ?shape ?opts 2
      = map_sum id concat (traverse (\<lambda>swapped. case_choices (common swapped) 2 [(1, [])]) [False, True])"
    unfolding choices_def parts(1,2,4) option.case res_bind_simps Let_def common if_not_P [OF parts(3)] ..
  have fields: "case_m (common False) = 4" "case_n (common False) = 32" "case_m (common True) = 32" "case_n (common True) = 4"
    "case_k (common swapped) = 16" "case_grain (common swapped) = 16" "case_swapped (common swapped) = swapped" for swapped
    by (simp_all add: common)
  have n: "case_n (common swapped) \<in> {4, 32}" for swapped by (cases swapped) (simp_all add: fields)
  have g: "\<exists>cs. grid_choice (common swapped) 1 [] (r, c, 1) = Inr cs \<and> cs \<noteq> []
      \<and> (\<forall>ch\<in>set cs. tiling_tiles (layout_tiling (layout_of (format_of (choice_result ch)))) = r * c)"
    if "(r, c) \<in> {(1, 1), (1, 2), (2, 1)}" for swapped r c
    by (rule sample_grid_choice [OF that _ _ n]) (simp_all add: fields)
  obtain a1 a2 a3 b1 b2 where
    a: "grid_choice (common False) 1 [] (1, 1, 1) = Inr a1" "grid_choice (common False) 1 [] (1, 2, 1) = Inr a2"
      "grid_choice (common False) 1 [] (2, 1, 1) = Inr a3" "a2 \<noteq> []"
      "\<forall>ch\<in>set a2. tiling_tiles (layout_tiling (layout_of (format_of (choice_result ch)))) = 1 * 2"
    and b: "grid_choice (common True) 1 [] (1, 1, 1) = Inr b1" "grid_choice (common True) 1 [] (2, 1, 1) = Inr b2"
    using g [of 1 1 False] g [of 1 2 False] g [of 2 1 False] g [of 1 1 True] g [of 2 1 True] by blast
  have "case_choices (common False) 2 [(1, [])] = Inr (a1 @ a2 @ a3)"
    using a by (simp add: case_choices_def fields case_row_grain_def div_ceil_def sample_grids del: One_nat_def)
  moreover have "case_choices (common True) 2 [(1, [])] = Inr (b1 @ b2)"
    using b by (simp add: case_choices_def fields case_row_grain_def div_ceil_def sample_grids del: One_nat_def)
  ultimately have "map_sum id concat (traverse (\<lambda>swapped. case_choices (common swapped) 2 [(1, [])]) [False, True])
      = Inr ((a1 @ a2 @ a3) @ (b1 @ b2))" by simp
  moreover have "hd a2 \<in> set ((a1 @ a2 @ a3) @ (b1 @ b2))" "hd a2 \<in> set a2" using a(4) by simp_all
  ultimately show ?thesis using a(5) unfolding choices by fastforce
qed

theorem proposed_layouts_map_their_tiles_witness:
  "\<exists>cs ch. choices (sample_operand [4, 16]) (sample_operand [16, 32]) [4, 32] \<lparr>transpose_left = False, transpose_right = False\<rparr> 2 = Inr cs
    \<and> ch \<in> set cs \<and> tiling_tiles (layout_tiling (layout_of (format_of (choice_result ch)))) = 2
    \<and> balanced (layout_tiling (layout_of (format_of (choice_result ch))))
    \<and> \<not> (\<exists>e. padded_shape (layout_of (format_of (choice_result ch))) [4, 32] = Inl e \<and> mapping_error e)"
proof -
  obtain cs ch where ch: "choices (sample_operand [4, 16]) (sample_operand [16, 32]) [4, 32]
      \<lparr>transpose_left = False, transpose_right = False\<rparr> 2 = Inr cs" "ch \<in> set cs"
    "tiling_tiles (layout_tiling (layout_of (format_of (choice_result ch)))) = 2" using sample_choices by blast
  have c: "config_tiles sample_config = 2" by (simp add: sample_config_def)
  have "proposed_layout sample_config (layout_of (format_of (choice_result ch)))"
    by (rule gemm [OF _ ch(2), of _ _ _ _ sample_config]) (use ch(1) in \<open>simp_all add: c choice_layouts_def\<close>)
  from proposed_layouts_map_their_tiles [OF this, of "[4, 32]"] show ?thesis using ch by (auto simp: c)
qed

end
