(* ===== verification/Storage.thy ===== *)
theory Storage
  imports Radix Layout
begin

text \<open>
  Element storage of a shard (\<open>storage/mod.rs\<close> and the digits of \<open>storage/traversal.rs\<close>):
  where each element of a rectangular shard lies in its allocation, for row-major, AMP and
  block-major orders.

  Two descriptions exist in the code: the index functions (\<open>physical_index\<close> and its
  inverses, on whole matrices) and the digits that byte traversals are built from. The
  lemmas show that both describe the same address, that this is a bijection between the
  coordinates of the shard and the element positions of its allocation, and that the
  coordinate functions invert it.

  Integers are naturals with the width of each checked operation; an unchecked \<open>u32\<close>
  operation that leaves its range is the result \<open>Panic\<close>, like an index out of range.
\<close>

subsection \<open>Data\<close>

datatype storage_error =
    WrongShard
  | InvalidView
  | MatrixRank
  | AmpBlock amp_order
  | BlockMajorBlock block_major_order
  | StorageOverflow

type_synonym 'a storage_result = "storage_error fault + 'a"

record tensor_storage =
  storage_format :: tensor_format
  storage_extents :: "shard_extent list"

record view_geometry =
  geometry_precision :: precision
  geometry_order :: element_order
  geometry_extents :: "(shard_extent \<times> shard_extent) list"

definition storage_fail :: "storage_error \<Rightarrow> 'a storage_result" where
  "storage_fail e = Inl (Fail e)"

definition storage_order :: "tensor_storage \<Rightarrow> element_order" where
  "storage_order s = layout_order (layout_of (storage_format s))"

definition storage_precision :: "tensor_storage \<Rightarrow> precision" where
  "storage_precision s = precision_of (storage_format s)"

fun amp_micro_dimension :: "precision \<Rightarrow> nat" where
  "amp_micro_dimension (F8F143 _) = 32"
| "amp_micro_dimension F16 = 16"
| "amp_micro_dimension F32 = 8"

definition extent_width :: "shard_extent \<Rightarrow> nat storage_result" where
  "extent_width e = or_panic (checked_sub (physical_end e) (extent_start e))"

definition shard_widths :: "tensor_storage \<Rightarrow> nat list storage_result" where
  "shard_widths s = traverse extent_width (storage_extents s)"

subsection \<open>Views\<close>

definition bad_view_extent :: "shard_extent \<Rightarrow> shard_extent \<Rightarrow> bool" where
  "bad_view_extent view shard \<longleftrightarrow>
     extent_start shard > logical_end shard
   \<or> logical_end shard > physical_end shard
   \<or> extent_axis view \<noteq> extent_axis shard
   \<or> extent_start view < extent_start shard
   \<or> extent_start view > logical_end view
   \<or> logical_end view > physical_end view
   \<or> physical_end view > physical_end shard"

definition validate_view :: "tensor_storage \<Rightarrow> shard_extent list \<Rightarrow> unit storage_result" where
  "validate_view s view =
     (if length view \<noteq> length (storage_extents s)
         \<or> list_ex (\<lambda>(v, e). bad_view_extent v e) (zip view (storage_extents s))
      then storage_fail InvalidView else Inr ())"

definition relative_extent :: "nat \<Rightarrow> shard_extent \<Rightarrow> shard_extent" where
  "relative_extent origin e =
     e\<lparr>extent_start := extent_start e - origin, logical_end := logical_end e - origin,
       physical_end := physical_end e - origin\<rparr>"

text \<open>After \<open>validate_view\<close> no subtraction goes below zero.\<close>

definition view_geometry_new :: "tensor_storage \<Rightarrow> shard_extent list \<Rightarrow> view_geometry storage_result" where
  "view_geometry_new s view =
     res_bind (validate_view s view) (\<lambda>_.
     Inr \<lparr>geometry_precision = storage_precision s, geometry_order = storage_order s,
          geometry_extents = map (\<lambda>(allocation, v).
            (relative_extent (extent_start allocation) allocation, relative_extent (extent_start allocation) v))
            (zip (storage_extents s) view)\<rparr>)"

fun element_product :: "nat \<Rightarrow> shard_extent list \<Rightarrow> nat storage_result" where
  "element_product n [] = Inr n"
| "element_product n (e # es) =
     res_bind (extent_width e) (\<lambda>w.
     res_bind (ok_or (checked_mul 64 n w) (Fail StorageOverflow)) (\<lambda>m. element_product m es))"

definition storage_bytes :: "tensor_storage \<Rightarrow> nat storage_result" where
  "storage_bytes s =
     res_bind (element_product 1 (storage_extents s)) (\<lambda>n.
     res_bind (ok_or (checked_mul 64 n (precision_bytes (storage_precision s))) (Fail StorageOverflow)) (\<lambda>bytes.
     ok_or (try_from 32 bytes) (Fail StorageOverflow)))"

subsection \<open>Element index of a coordinate\<close>

fun encode_loop :: "nat \<Rightarrow> (nat \<times> nat) list \<Rightarrow> nat storage_result" where
  "encode_loop linear [] = Inr linear"
| "encode_loop linear ((width, coordinate) # rest) =
     (if coordinate \<ge> width then storage_fail InvalidView
      else res_bind (ok_or (checked_mul 64 linear width) (Fail StorageOverflow)) (\<lambda>scaled.
           res_bind (ok_or (checked_add 64 scaled coordinate) (Fail StorageOverflow)) (\<lambda>next.
           encode_loop next rest)))"

definition encode_row_major :: "nat list \<Rightarrow> nat list \<Rightarrow> nat storage_result" where
  "encode_row_major widths coordinates = encode_loop 0 (zip widths coordinates)"

text \<open>\<open>amp_matrix_index\<close> with role \<open>Left\<close>; the transposed role swaps the operands.\<close>

definition amp_left_index :: "precision \<Rightarrow> nat \<Rightarrow> nat \<Rightarrow> nat \<Rightarrow> nat \<Rightarrow> nat storage_result" where
  "amp_left_index p rows columns row column =
     (if row \<ge> rows \<or> column \<ge> columns then storage_fail InvalidView
      else
     (let inner = amp_micro_dimension p
      in if \<not> is_multiple_of columns inner then storage_fail (AmpBlock Left)
         else
     res_bind (ok_or (checked_mul 32 (column div inner) rows) (Fail StorageOverflow)) (\<lambda>panel.
     res_bind (ok_or (checked_mul 32 panel inner) (Fail StorageOverflow)) (\<lambda>base.
     res_bind (or_panic (checked_mul 32 row inner)) (\<lambda>within_row.
     res_bind (or_panic (checked_add 32 within_row (column mod inner))) (\<lambda>within.
     ok_or (checked_add 32 base within) (Fail StorageOverflow)))))))"

definition right_matrix_index :: "precision \<Rightarrow> nat \<Rightarrow> nat \<Rightarrow> nat \<Rightarrow> nat \<Rightarrow> nat storage_result" where
  "right_matrix_index p rows columns row column =
     (let inner = amp_micro_dimension p
      in if row \<ge> rows \<or> column \<ge> columns \<or> \<not> is_multiple_of rows inner
            \<or> \<not> is_multiple_of columns AMP_COLUMN_MICRO
         then storage_fail InvalidView
         else
     res_bind (ok_or (checked_mul 32 (column div AMP_COLUMN_MICRO) (rows div inner)) (Fail StorageOverflow)) (\<lambda>base.
     res_bind (ok_or (checked_add 32 base (row div inner)) (Fail StorageOverflow)) (\<lambda>panel.
     res_bind (ok_or (checked_mul 32 panel (inner * AMP_COLUMN_MICRO)) (Fail StorageOverflow)) (\<lambda>start.
     ok_or (checked_add 32 start (column mod AMP_COLUMN_MICRO * inner + row mod inner)) (Fail StorageOverflow)))))"

fun amp_matrix_index :: "amp_order \<Rightarrow> precision \<Rightarrow> nat \<Rightarrow> nat \<Rightarrow> nat \<Rightarrow> nat \<Rightarrow> nat storage_result" where
  "amp_matrix_index Left p rows columns row column = amp_left_index p rows columns row column"
| "amp_matrix_index TransposedRight p rows columns row column =
     (if row \<ge> rows \<or> column \<ge> columns then storage_fail InvalidView
      else right_matrix_index p columns rows column row)"
| "amp_matrix_index TransposedLeft p rows columns row column =
     (if row \<ge> rows \<or> column \<ge> columns then storage_fail InvalidView
      else amp_left_index p columns rows column row)"

definition block_index :: "nat \<Rightarrow> nat \<Rightarrow> precision \<Rightarrow> nat \<Rightarrow> nat \<Rightarrow> nat \<Rightarrow> nat \<Rightarrow> nat storage_result" where
  "block_index rblock cblock p rows columns row column =
     (let row_micro = amp_micro_dimension p
      in if row \<ge> rows \<or> column \<ge> columns \<or> rblock = 0 \<or> cblock = 0 \<or> \<not> is_multiple_of rows rblock
            \<or> \<not> is_multiple_of columns cblock \<or> \<not> is_multiple_of rblock row_micro
         then storage_fail (BlockMajorBlock (Matrix rblock cblock))
         else
     (let row_groups = rblock div row_micro
      in res_bind (ok_or (checked_mul 32 (row div rblock) (columns div cblock)) (Fail StorageOverflow)) (\<lambda>block.
         res_bind (ok_or (checked_mul 32 block row_groups) (Fail StorageOverflow)) (\<lambda>base.
         res_bind (or_panic (checked_mul 32 (column div cblock) row_groups)) (\<lambda>column_group.
         res_bind (or_panic (checked_add 32 column_group (row mod rblock div row_micro))) (\<lambda>grp.
         res_bind (ok_or (checked_add 32 base grp) (Fail StorageOverflow)) (\<lambda>panel.
         res_bind (or_panic (checked_mul 32 row_micro cblock)) (\<lambda>panel_elements.
         res_bind (ok_or (checked_mul 32 panel panel_elements) (Fail StorageOverflow)) (\<lambda>start.
         res_bind (or_panic (checked_mul 32 (column mod cblock) row_micro)) (\<lambda>lane.
         res_bind (or_panic (checked_add 32 lane (row mod row_micro))) (\<lambda>within.
         ok_or (checked_add 32 start within) (Fail StorageOverflow))))))))))))"

fun block_major_matrix_index ::
  "block_major_order \<Rightarrow> precision \<Rightarrow> nat \<Rightarrow> nat \<Rightarrow> nat \<Rightarrow> nat \<Rightarrow> nat storage_result" where
  "block_major_matrix_index (Matrix rblock cblock) p rows columns row column =
     block_index rblock cblock p rows columns row column"
| "block_major_matrix_index (TransposedMatrix rblock cblock) p rows columns row column =
     block_index rblock cblock p columns rows column row"

definition prefix_of :: "'a list \<Rightarrow> nat \<Rightarrow> 'a list option" where
  "prefix_of xs n = (if n \<le> length xs then Some (take n xs) else None)"

text \<open>The matrix operands of \<open>physical_index\<close>: rows, columns, outer index, row, column.\<close>

definition matrix_operands :: "nat list \<Rightarrow> nat list \<Rightarrow> (nat \<times> nat \<times> nat \<times> nat \<times> nat) storage_result" where
  "matrix_operands widths coordinates =
     (let rank = length widths
      in if rank < 2 then storage_fail MatrixRank
         else
     res_bind (or_panic (prefix_of coordinates (rank - 2))) (\<lambda>outer_coordinates.
     res_bind (encode_row_major (take (rank - 2) widths) outer_coordinates) (\<lambda>outer.
     res_bind (or_panic (get coordinates (rank - 2))) (\<lambda>row.
     res_bind (or_panic (get coordinates (rank - 1))) (\<lambda>column.
     Inr (widths ! (rank - 2), widths ! (rank - 1), outer, row, column))))))"

definition place_matrix :: "nat \<Rightarrow> nat \<Rightarrow> nat \<Rightarrow> nat storage_result" where
  "place_matrix outer matrix_elements within =
     res_bind (ok_or (checked_mul 64 outer matrix_elements) (Fail StorageOverflow)) (\<lambda>base.
     ok_or (checked_add 64 base within) (Fail StorageOverflow))"

fun flatten_rows :: "nat \<Rightarrow> nat list \<Rightarrow> nat storage_result" where
  "flatten_rows rows [] = Inr rows"
| "flatten_rows rows (ext # exts) =
     res_bind (ok_or (checked_mul 32 rows ext) (Fail StorageOverflow)) (\<lambda>r. flatten_rows r exts)"

definition physical_index :: "tensor_storage \<Rightarrow> nat list \<Rightarrow> nat list \<Rightarrow> nat storage_result" where
  "physical_index s widths coordinates =
     (case storage_order s of
        RowMajor \<Rightarrow> encode_row_major widths coordinates
      | BlockMajor ord \<Rightarrow>
          res_bind (matrix_operands widths coordinates) (\<lambda>(rows, columns, outer, row, column).
          res_bind (block_major_matrix_index ord (storage_precision s) rows columns row column) (\<lambda>within.
          place_matrix outer (rows * columns) within))
      | Amp role \<Rightarrow>
          res_bind (matrix_operands widths coordinates) (\<lambda>(rows, columns, outer, row, column).
          (case role of
             TransposedRight \<Rightarrow>
               res_bind (right_matrix_index (storage_precision s) columns rows column row) (\<lambda>within.
               place_matrix outer (rows * columns) within)
           | Left \<Rightarrow>
               res_bind (flatten_rows rows (take (length widths - 2) widths)) (\<lambda>flat_rows.
               res_bind (ok_or (try_from 32 outer) (Fail StorageOverflow)) (\<lambda>outer32.
               res_bind (ok_or (checked_mul 32 outer32 rows) (Fail StorageOverflow)) (\<lambda>row_base.
               res_bind (ok_or (checked_add 32 row_base row) (Fail StorageOverflow)) (\<lambda>flat_row.
               amp_matrix_index Left (storage_precision s) flat_rows columns flat_row column))))
           | TransposedLeft \<Rightarrow>
               res_bind (amp_matrix_index TransposedLeft (storage_precision s) rows columns row column) (\<lambda>within.
               place_matrix outer (rows * columns) within))))"

subsection \<open>Coordinates of an element index\<close>

text \<open>\<open>decode_row_major\<close> from the innermost axis outwards; a zero width is a division by zero.\<close>

fun decode_loop :: "nat list \<Rightarrow> nat \<Rightarrow> nat list option" where
  "decode_loop [] linear = Some []"
| "decode_loop (width # widths) linear =
     (if width = 0 then None
      else map_option ((#) (linear mod width)) (decode_loop widths (linear div width)))"

definition decode_row_major :: "nat list \<Rightarrow> nat \<Rightarrow> nat list storage_result" where
  "decode_row_major widths linear = or_panic (map_option rev (decode_loop (rev widths) linear))"

text \<open>The sums and products below are at most \<open>linear\<close> or within the matrix.\<close>

definition amp_left_coordinates :: "precision \<Rightarrow> nat \<Rightarrow> nat \<Rightarrow> nat \<Rightarrow> (nat \<times> nat) storage_result" where
  "amp_left_coordinates p rows columns linear =
     (let inner = amp_micro_dimension p
      in if \<not> is_multiple_of columns inner then storage_fail (AmpBlock Left)
         else
     res_bind (ok_or (checked_mul 32 rows inner) (Fail StorageOverflow)) (\<lambda>panel_elements.
     if panel_elements = 0 then Inl Panic
     else
     (let panel = linear div panel_elements;
          offset = linear mod panel_elements
      in Inr (offset div inner, panel * inner + offset mod inner))))"

definition right_matrix_coordinates :: "precision \<Rightarrow> nat \<Rightarrow> nat \<Rightarrow> nat \<Rightarrow> (nat \<times> nat) storage_result" where
  "right_matrix_coordinates p rows columns linear =
     (let inner = amp_micro_dimension p
      in if \<not> is_multiple_of rows inner \<or> \<not> is_multiple_of columns AMP_COLUMN_MICRO
         then storage_fail InvalidView
         else
     (let panel_elements = inner * AMP_COLUMN_MICRO;
          panel = linear div panel_elements;
          offset = linear mod panel_elements;
          inner_groups = rows div inner
      in if inner_groups = 0 then Inl Panic
         else Inr (panel mod inner_groups * inner + offset mod inner,
                   panel div inner_groups * AMP_COLUMN_MICRO + offset div inner)))"

definition swap_pair :: "'a \<times> 'b \<Rightarrow> 'b \<times> 'a" where
  "swap_pair p = (snd p, fst p)"

definition map_result :: "('a \<Rightarrow> 'b) \<Rightarrow> 'e + 'a \<Rightarrow> 'e + 'b" where
  "map_result f r = (case r of Inl e \<Rightarrow> Inl e | Inr a \<Rightarrow> Inr (f a))"

fun amp_matrix_coordinates :: "amp_order \<Rightarrow> precision \<Rightarrow> nat \<Rightarrow> nat \<Rightarrow> nat \<Rightarrow> (nat \<times> nat) storage_result" where
  "amp_matrix_coordinates Left p rows columns linear = amp_left_coordinates p rows columns linear"
| "amp_matrix_coordinates TransposedRight p rows columns linear =
     map_result swap_pair (right_matrix_coordinates p columns rows linear)"
| "amp_matrix_coordinates TransposedLeft p rows columns linear =
     map_result swap_pair (amp_left_coordinates p columns rows linear)"

definition block_coordinates :: "nat \<Rightarrow> nat \<Rightarrow> precision \<Rightarrow> nat \<Rightarrow> nat \<Rightarrow> nat \<Rightarrow> (nat \<times> nat) storage_result" where
  "block_coordinates rblock cblock p rows columns linear =
     (let row_micro = amp_micro_dimension p
      in if rblock = 0 \<or> cblock = 0 \<or> \<not> is_multiple_of rows rblock \<or> \<not> is_multiple_of columns cblock
            \<or> \<not> is_multiple_of rblock row_micro
         then storage_fail (BlockMajorBlock (Matrix rblock cblock))
         else
     res_bind (or_panic (checked_mul 32 row_micro cblock)) (\<lambda>panel_elements.
     let panel = linear div panel_elements;
         offset = linear mod panel_elements;
         row_groups = rblock div row_micro;
         column_groups = columns div cblock
     in res_bind (or_panic (checked_mul 32 column_groups row_groups)) (\<lambda>panels_per_row_block.
        if panels_per_row_block = 0 then Inl Panic
        else
       (let row_block_index = panel div panels_per_row_block;
            within_block = panel mod panels_per_row_block;
            column_group = within_block div row_groups;
            row_group = within_block mod row_groups
        in Inr (row_block_index * rblock + row_group * row_micro + offset mod row_micro,
                column_group * cblock + offset div row_micro)))))"

fun block_major_matrix_coordinates ::
  "block_major_order \<Rightarrow> precision \<Rightarrow> nat \<Rightarrow> nat \<Rightarrow> nat \<Rightarrow> (nat \<times> nat) storage_result" where
  "block_major_matrix_coordinates (Matrix rblock cblock) p rows columns linear =
     block_coordinates rblock cblock p rows columns linear"
| "block_major_matrix_coordinates (TransposedMatrix rblock cblock) p rows columns linear =
     map_result swap_pair (block_coordinates rblock cblock p columns rows linear)"

text \<open>One matrix after another: the outer coordinates and those within the matrix.\<close>

definition matrix_coordinates ::
  "nat list \<Rightarrow> nat \<Rightarrow> (nat \<Rightarrow> nat \<Rightarrow> nat \<Rightarrow> (nat \<times> nat) storage_result) \<Rightarrow> nat list storage_result" where
  "matrix_coordinates widths physical within =
     (let rank = length widths;
          rows = widths ! (rank - 2);
          columns = widths ! (rank - 1);
          matrix_elements = rows * columns
      in if matrix_elements = 0 then Inl Panic
         else
     res_bind (decode_row_major (take (rank - 2) widths) (physical div matrix_elements)) (\<lambda>outer.
     res_bind (ok_or (try_from 32 (physical mod matrix_elements)) (Fail StorageOverflow)) (\<lambda>linear.
     res_bind (within rows columns linear) (\<lambda>(row, column).
     Inr (outer @ [row, column])))))"

definition physical_coordinates :: "tensor_storage \<Rightarrow> nat list \<Rightarrow> nat \<Rightarrow> nat list storage_result" where
  "physical_coordinates s widths physical =
     (let rank = length widths
      in case storage_order s of
        RowMajor \<Rightarrow> decode_row_major widths physical
      | BlockMajor ord \<Rightarrow>
          if rank < 2 then storage_fail MatrixRank
          else matrix_coordinates widths physical (block_major_matrix_coordinates ord (storage_precision s))
      | Amp role \<Rightarrow>
          if rank < 2 then storage_fail MatrixRank
          else if role = Left
          then
         (let rows = widths ! (rank - 2);
              columns = widths ! (rank - 1)
          in res_bind (flatten_rows rows (take (rank - 2) widths)) (\<lambda>outer_rows.
             res_bind (ok_or (try_from 32 physical) (Fail StorageOverflow)) (\<lambda>linear.
             res_bind (amp_matrix_coordinates role (storage_precision s) outer_rows columns linear) (\<lambda>(flat_row, column).
             if rows = 0 then Inl Panic
             else
             res_bind (decode_row_major (take (rank - 2) widths) (flat_row div rows)) (\<lambda>outer.
             Inr (outer @ [flat_row mod rows, column]))))))
          else matrix_coordinates widths physical (amp_matrix_coordinates role (storage_precision s)))"

subsection \<open>Digits\<close>

record digit =
  digit_axis :: nat
  divisor :: nat
  digit_count :: nat
  digit_stride :: nat

fun transposed_order :: "element_order \<Rightarrow> bool" where
  "transposed_order (Amp TransposedLeft) = True"
| "transposed_order (Amp TransposedRight) = True"
| "transposed_order (BlockMajor (TransposedMatrix _ _)) = True"
| "transposed_order _ = False"

text \<open>The pushes of \<open>digits\<close>: axis, divisor and count, outermost first.\<close>

definition plain_digits :: "nat list \<Rightarrow> (nat \<times> nat \<times> nat) list" where
  "plain_digits widths = map (\<lambda>(a, width). (a, 1, width)) (enumerate 0 widths)"

definition block_sizes :: "block_major_order \<Rightarrow> nat \<times> nat" where
  "block_sizes ord = (row_block ord, column_block ord)"

definition order_digits :: "element_order \<Rightarrow> precision \<Rightarrow> nat list \<Rightarrow> (nat \<times> nat \<times> nat) list storage_result" where
  "order_digits ord p widths =
     (if ord = RowMajor then Inr (plain_digits widths)
      else
     (let rank = length widths
      in if rank < 2 then storage_fail MatrixRank
         else
     (let (r, c) = (if transposed_order ord then (rank - 1, rank - 2) else (rank - 2, rank - 1));
          rows = widths ! r;
          cols = widths ! c;
          micro = amp_micro_dimension p;
          outer = plain_digits (take (rank - 2) widths)
      in case ord of
           RowMajor \<Rightarrow> Inl Panic
         | Amp TransposedRight \<Rightarrow>
             if \<not> is_multiple_of rows micro \<or> \<not> is_multiple_of cols AMP_COLUMN_MICRO
             then storage_fail InvalidView
             else Inr (outer @ [(c, AMP_COLUMN_MICRO, cols div AMP_COLUMN_MICRO), (r, micro, rows div micro),
                                (c, 1, AMP_COLUMN_MICRO), (r, 1, micro)])
         | Amp role \<Rightarrow>
             if \<not> is_multiple_of cols micro then storage_fail (AmpBlock role)
             else if role = Left
             then Inr ([(c, micro, cols div micro)] @ outer @ [(r, 1, rows), (c, 1, micro)])
             else Inr (outer @ [(c, micro, cols div micro), (r, 1, rows), (c, 1, micro)])
         | BlockMajor b \<Rightarrow>
            (let (rb, cb) = block_sizes b
             in if rb = 0 \<or> cb = 0 \<or> \<not> is_multiple_of rows rb \<or> \<not> is_multiple_of cols cb \<or> \<not> is_multiple_of rb micro
                then storage_fail (BlockMajorBlock b)
                else Inr (outer @ [(r, rb, rows div rb), (c, cb, cols div cb), (r, micro, rb div micro),
                                   (c, 1, cb), (r, 1, micro)])))))"

text \<open>Strides from the innermost digit outwards.\<close>

fun assign_strides :: "(nat \<times> nat \<times> nat) list \<Rightarrow> nat \<Rightarrow> (digit list \<times> nat) storage_result" where
  "assign_strides [] element = Inr ([], element)"
| "assign_strides ((a, d, n) # rest) element =
     res_bind (assign_strides rest element) (\<lambda>(ds, stride).
     res_bind (ok_or (checked_mul 32 stride n) (Fail StorageOverflow)) (\<lambda>next.
     Inr (\<lparr>digit_axis = a, divisor = d, digit_count = n, digit_stride = stride\<rparr> # ds, next)))"

definition digits :: "tensor_storage \<Rightarrow> digit list storage_result" where
  "digits s =
     res_bind (shard_widths s) (\<lambda>widths.
     res_bind (order_digits (storage_order s) (storage_precision s) widths) (\<lambda>dims.
     res_bind (assign_strides dims (precision_bytes (storage_precision s))) (\<lambda>(ds, _). Inr ds)))"

subsection \<open>The index is the number of the digits\<close>

definition dims_counts :: "(nat \<times> nat \<times> nat) list \<Rightarrow> nat list" where
  "dims_counts dims = map (\<lambda>(a, d, n). n) dims"

definition dims_digits :: "nat list \<Rightarrow> (nat \<times> nat \<times> nat) list \<Rightarrow> nat list" where
  "dims_digits coords dims = map (\<lambda>(a, d, n). (coords ! a div d) mod n) dims"

lemma dims_append [simp]:
  "dims_counts (xs @ ys) = dims_counts xs @ dims_counts ys"
  "dims_digits coords (xs @ ys) = dims_digits coords xs @ dims_digits coords ys"
  by (simp_all add: dims_counts_def dims_digits_def)

lemma dims_simps [simp]:
  "dims_counts [] = []" "dims_counts ((a, d, n) # dims) = n # dims_counts dims"
  "dims_digits coords [] = []" "dims_digits coords ((a, d, n) # dims) = (coords ! a div d) mod n # dims_digits coords dims"
  by (simp_all add: dims_counts_def dims_digits_def)

lemma length_dims [simp]: "length (dims_counts dims) = length dims" "length (dims_digits coords dims) = length dims"
  by (simp_all add: dims_counts_def dims_digits_def)

lemma plain_counts [simp]: "dims_counts (plain_digits ws) = ws"
  by (simp add: dims_counts_def plain_digits_def comp_def case_prod_unfold map_snd_enumerate)

lemma length_plain [simp]: "length (plain_digits ws) = length ws"
  by (simp add: plain_digits_def)

lemma plain_digits_digits [simp]: "in_box ws os \<Longrightarrow> dims_digits (os @ xs) (plain_digits ws) = os"
  by (rule nth_equalityI) (auto simp: dims_digits_def plain_digits_def in_box_nth nth_append nth_enumerate_eq)

lemma plain_digits_digits0 [simp]: "in_box ws os \<Longrightarrow> dims_digits os (plain_digits ws) = os"
  using plain_digits_digits [of ws os "[]"] by simp

lemma micro_pos [simp]: "0 < amp_micro_dimension p"
  by (cases p) simp_all

lemma is_multiple_elim: "0 < b \<Longrightarrow> is_multiple_of a b \<Longrightarrow> a div b * b = a"
  by (simp add: is_multiple_of_dvd)

lemma less_div_of_dvd: "0 < b \<Longrightarrow> is_multiple_of a b \<Longrightarrow> x < a \<Longrightarrow> x div b < (a::nat) div b"
  by (simp add: is_multiple_of_dvd less_mult_imp_div_less)

lemma encode_loop_Inr:
  "in_box ps ds \<Longrightarrow> (Suc n) * prod_list ps \<le> 2 ^ 64 \<Longrightarrow> encode_loop n (zip ps ds) = Inr (mixed_radix n (zip ps ds))"
proof (induction ps arbitrary: ds n)
  case (Cons p ps)
  then obtain d ds' where d: "ds = d # ds'" "d < p" "in_box ps ds'" by (auto simp: in_box_Cons)
  let ?P = "prod_list ps"
  have P: "0 < ?P" using d(3) by (rule in_box_pos)
  have "Suc (n * p + d) \<le> Suc n * p" using d(2) by simp
  then have le: "Suc (n * p + d) * ?P \<le> 2 ^ 64"
  proof -
    have "Suc (n * p + d) * ?P \<le> Suc n * p * ?P" using \<open>Suc (n * p + d) \<le> Suc n * p\<close> by (rule mult_le_mono1)
    also have "\<dots> = Suc n * prod_list (p # ps)" by (simp only: prod_list.Cons mult.assoc)
    finally show ?thesis using Cons.prems(2) by linarith
  qed
  have "Suc (n * p + d) * 1 \<le> Suc (n * p + d) * ?P" using P by (intro mult_le_mono2) simp
  then have "n * p + d < 2 ^ 64" using le by (metis Suc_le_eq le_trans mult_1_right)
  then show ?case using Cons.IH [OF d(3) le] d by (simp add: checked_mul_def checked_add_def)
qed simp

lemma encode_row_major_Inr:
  "in_box ps ds \<Longrightarrow> prod_list ps \<le> 2 ^ 64 \<Longrightarrow> encode_row_major ps ds = Inr (box_index ps ds)"
  using encode_loop_Inr [of ps ds 0] by (simp add: encode_row_major_def box_index_def)

lemma amp_left_index_Inr:
  assumes "row < rows" and "column < columns" and "is_multiple_of columns m" and "m = amp_micro_dimension p"
    and "rows * columns < 2 ^ 32"
  shows "amp_left_index p rows columns row column
    = Inr (box_index [columns div m, rows, m] [column div m, row, column mod m])"
proof -
  have m: "0 < m" using assms(4) by simp
  let ?i = "box_index [columns div m, rows, m] [column div m, row, column mod m]"
  have i: "?i = column div m * rows * m + (row * m + column mod m)" by (simp add: box_index_Cons algebra_simps)
  have "in_box [columns div m, rows, m] [column div m, row, column mod m]"
    using assms less_div_of_dvd m by simp
  from box_index_less [OF this] have "?i < rows * (columns div m * m)" by (simp add: algebra_simps)
  then have "?i < rows * columns" using is_multiple_elim [OF m assms(3)] by simp
  then have b: "column div m * rows * m + (row * m + column mod m) < 2 ^ 32" using assms(5) i by simp
  have "column div m * rows \<le> column div m * rows * m" using m by simp
  then have "column div m * rows < 2 ^ 32" "column div m * rows * m < 2 ^ 32" "row * m < 2 ^ 32" "row * m + column mod m < 2 ^ 32"
    using b by linarith+
  then show ?thesis using assms(1-4) b
    unfolding i by (simp add: amp_left_index_def Let_def checked_mul_def checked_add_def)
qed

lemma right_matrix_index_Inr:
  assumes "row < rows" and "column < columns" and "is_multiple_of rows m" and "is_multiple_of columns AMP_COLUMN_MICRO"
    and "m = amp_micro_dimension p" and "rows * columns < 2 ^ 32"
  shows "right_matrix_index p rows columns row column
    = Inr (box_index [columns div AMP_COLUMN_MICRO, rows div m, AMP_COLUMN_MICRO, m]
        [column div AMP_COLUMN_MICRO, row div m, column mod AMP_COLUMN_MICRO, row mod m])"
proof -
  let ?k = AMP_COLUMN_MICRO
  have m: "0 < m" "0 < ?k" using assms(5) by (simp_all add: AMP_COLUMN_MICRO_def)
  let ?i = "box_index [columns div ?k, rows div m, ?k, m] [column div ?k, row div m, column mod ?k, row mod m]"
  have i: "?i = (column div ?k * (rows div m) + row div m) * (m * ?k) + (column mod ?k * m + row mod m)"
    by (simp add: box_index_Cons algebra_simps)
  have "in_box [columns div ?k, rows div m, ?k, m] [column div ?k, row div m, column mod ?k, row mod m]"
    using assms less_div_of_dvd m by simp
  from box_index_less [OF this] have "?i < (columns div ?k * ?k) * (rows div m * m)" by (simp add: algebra_simps)
  then have "?i < rows * columns" using is_multiple_elim m assms(3,4) by (simp add: mult.commute)
  then have b: "(column div ?k * (rows div m) + row div m) * (m * ?k) + (column mod ?k * m + row mod m) < 2 ^ 32"
    using assms(6) i by simp
  have "column div ?k * (rows div m) + row div m \<le> (column div ?k * (rows div m) + row div m) * (m * ?k)" using m by simp
  then have "column div ?k * (rows div m) + row div m < 2 ^ 32" "column div ?k * (rows div m) < 2 ^ 32"
    "(column div ?k * (rows div m) + row div m) * (m * ?k) < 2 ^ 32"
    using b by linarith+
  then show ?thesis using assms(1-5) b
    unfolding i by (simp add: right_matrix_index_def Let_def checked_mul_def checked_add_def)
qed

lemma mod_block: "0 < m \<Longrightarrow> is_multiple_of rb m \<Longrightarrow> (x mod rb) div m = (x div m) mod (rb div m)"
proof -
  assume m: "0 < m" "is_multiple_of rb m"
  define k where "k = rb div m"
  have "rb = m * k" using is_multiple_elim [OF m] by (simp add: k_def mult.commute)
  then have "x mod rb = m * (x div m mod k) + x mod m" by (simp add: mod_mult2_eq)
  then show ?thesis using m(1) by (simp add: k_def [symmetric])
qed

lemma block_panel_le:
  assumes "row < rows" and "column < columns" and "0 < rb" and "0 < cb" and "is_multiple_of rows rb"
    and "is_multiple_of columns cb" and "is_multiple_of rb m" and "m = amp_micro_dimension p"
  shows "m * cb \<le> rows * columns"
proof -
  have "cb \<le> columns" using assms(2,4,6) by (auto simp: is_multiple_of_dvd intro: dvd_imp_le)
  moreover have "m \<le> rb" using assms(3,7) by (auto simp: is_multiple_of_dvd intro: dvd_imp_le)
  moreover have "rb \<le> rows" using assms(1,3,5) by (auto simp: is_multiple_of_dvd intro: dvd_imp_le)
  ultimately show ?thesis by (metis le_trans mult_le_mono)
qed

lemma block_index_Inr:
  assumes "row < rows" and "column < columns" and "0 < rb" and "0 < cb" and "is_multiple_of rows rb"
    and "is_multiple_of columns cb" and "is_multiple_of rb m" and "m = amp_micro_dimension p" and "rows * columns < 2 ^ 32"
  shows "block_index rb cb p rows columns row column
    = Inr (box_index [rows div rb, columns div cb, rb div m, cb, m]
        [row div rb, column div cb, (row div m) mod (rb div m), column mod cb, row mod m])"
proof -
  have m: "0 < m" using assms(8) by simp
  let ?g = "rb div m" let ?c = "columns div cb"
  have gm: "?g * m = rb" by (rule is_multiple_elim [OF m assms(7)])
  have g: "0 < ?g" using gm assms(3) by (cases "?g") auto
  let ?ds = "[row div rb, column div cb, (row div m) mod ?g, column mod cb, row mod m]"
  let ?ps = "[rows div rb, ?c, ?g, cb, m]"
  have mb: "row mod rb div m = (row div m) mod ?g" by (rule mod_block [OF m assms(7)])
  let ?panel = "row div rb * ?c * ?g + (column div cb * ?g + (row div m) mod ?g)"
  have i: "box_index ?ps ?ds = ?panel * (m * cb) + (column mod cb * m + row mod m)"
    by (simp add: box_index_Cons algebra_simps)
  have "in_box ?ps ?ds" using assms less_div_of_dvd g m by simp
  from box_index_less [OF this] have "box_index ?ps ?ds < (rows div rb * (?g * m)) * (?c * cb)" by (simp add: algebra_simps)
  then have "box_index ?ps ?ds < rows * columns" using gm is_multiple_elim assms(3-6) by simp
  then have b: "?panel * (m * cb) + (column mod cb * m + row mod m) < 2 ^ 32" using assms(9) i by simp
  define start where "start = ?panel * (m * cb)"
  have b': "start + (column mod cb * m + row mod m) < 2 ^ 32" using b by (simp only: start_def)
  have p: "?panel \<le> start"
  proof -
    have "?panel * 1 \<le> start" unfolding start_def using m assms(4) by (intro mult_le_mono2) simp
    then show ?thesis by (simp only: mult_1_right)
  qed
  have q: "row div rb * ?c \<le> row div rb * ?c * ?g"
  proof -
    have "row div rb * ?c * 1 \<le> row div rb * ?c * ?g" using g by (intro mult_le_mono2) simp
    then show ?thesis by (simp only: mult_1_right)
  qed
  have "m * cb \<le> rows * columns" by (rule block_panel_le [OF assms(1-8)])
  with b' p q have "row div rb * ?c < 2 ^ 32" "row div rb * ?c * ?g < 2 ^ 32" "column div cb * ?g < 2 ^ 32"
    "column div cb * ?g + (row div m) mod ?g < 2 ^ 32" "?panel < 2 ^ 32" "start < 2 ^ 32"
    "column mod cb * m < 2 ^ 32" "column mod cb * m + row mod m < 2 ^ 32" "m * cb < 2 ^ 32"
    using assms(9) by linarith+
  then show ?thesis using assms(1-7) b
    unfolding i start_def by (simp add: block_index_def Let_def checked_mul_def checked_add_def mb assms(8) [symmetric])
qed

lemma matrix_operands_Inr:
  assumes "in_box outs os" and "prod_list outs \<le> 2 ^ 64"
  shows "matrix_operands (outs @ [R, C]) (os @ [row, column]) = Inr (R, C, box_index outs os, row, column)"
  using encode_row_major_Inr [OF assms] in_box_length [OF assms(1)]
  by (simp add: matrix_operands_def Let_def prefix_of_def get_def nth_append del: get_Some get_None)

lemma place_matrix_Inr:
  assumes "outer < n" and "within < e" and "n * e \<le> 2 ^ 64"
  shows "place_matrix outer e within = Inr (outer * e + within)"
proof -
  have "Suc outer * e \<le> n * e" using assms(1) by (intro mult_le_mono1) simp
  then have "outer * e + within < 2 ^ 64" using assms(2,3) by simp
  then show ?thesis by (simp add: place_matrix_def checked_mul_def checked_add_def)
qed

lemma flatten_rows_Inr:
  "0 < prod_list outs \<Longrightarrow> R * prod_list outs < 2 ^ 32 \<Longrightarrow> flatten_rows R outs = Inr (R * prod_list outs)"
proof (induction outs arbitrary: R)
  case (Cons e outs)
  have "R * e * 1 \<le> R * e * prod_list outs" using Cons.prems(1) by (intro mult_le_mono2) simp
  moreover have "R * e * prod_list outs < 2 ^ 32" using Cons.prems(2) by (simp only: prod_list.Cons mult.assoc)
  ultimately have "R * e < 2 ^ 32" by (simp only: mult_1_right le_less_trans)
  then show ?case using Cons.IH [of "R * e"] Cons.prems by (simp add: checked_mul_def mult.assoc)
qed simp

lemma split_matrix_box:
  assumes "in_box ws cs" and "2 \<le> length ws"
  obtains outs R C os row column where "ws = outs @ [R, C]" and "cs = os @ [row, column]" and "in_box outs os"
    and "row < R" and "column < C"
proof -
  have len: "length cs = length ws" using assms(1) by (rule in_box_length)
  have two: "\<exists>a b. drop (length xs - 2) xs = [a, b]" if "2 \<le> length xs" for xs :: "nat list"
  proof -
    have "length (drop (length xs - 2) xs) = Suc (Suc 0)" using that by simp
    then show ?thesis unfolding length_Suc_conv by auto
  qed
  obtain R C where w: "drop (length ws - 2) ws = [R, C]" using two [OF assms(2)] by blast
  obtain row column where c: "drop (length ws - 2) cs = [row, column]" using two [of cs] assms(2) len by auto
  let ?outs = "take (length ws - 2) ws" and ?os = "take (length ws - 2) cs"
  have e: "ws = ?outs @ [R, C]" "cs = ?os @ [row, column]" using w c append_take_drop_id by metis+
  then have "in_box (?outs @ [R, C]) (?os @ [row, column])" using assms(1) by metis
  then have "in_box ?outs ?os \<and> row < R \<and> column < C" using len by (simp add: in_box_append)
  then show ?thesis using that [OF e] by blast
qed

lemma left_dims:
  assumes "row < R" and "column < C" and "is_multiple_of C m" and "0 < m" and "in_box outs os"
  shows "in_box (C div m # outs @ [R, m]) (column div m mod (C div m) # os @ [row mod R, column mod m])"
    and "prod_list (C div m # outs @ [R, m]) = R * prod_list outs * C"
    and "box_index (C div m # outs @ [R, m]) (column div m mod (C div m) # os @ [row mod R, column mod m])
      = box_index [C div m, R * prod_list outs, m] [column div m, box_index outs os * R + row, column mod m]"
proof -
  have c: "C div m * m = C" by (rule is_multiple_elim [OF assms(4,3)])
  have q: "column div m < C div m" by (rule less_div_of_dvd [OF assms(4,3,2)])
  have len: "length os = length outs" using assms(5) by (rule in_box_length)
  show "in_box (C div m # outs @ [R, m]) (column div m mod (C div m) # os @ [row mod R, column mod m])"
    using assms q len by (simp add: in_box_append)
  show "prod_list (C div m # outs @ [R, m]) = R * prod_list outs * C"
  proof -
    have "prod_list (C div m # outs @ [R, m]) = R * prod_list outs * (C div m * m)" by (simp add: mult_ac)
    then show ?thesis by (simp only: c)
  qed
  show "box_index (C div m # outs @ [R, m]) (column div m mod (C div m) # os @ [row mod R, column mod m])
      = box_index [C div m, R * prod_list outs, m] [column div m, box_index outs os * R + row, column mod m]"
    using q assms(1) len by (simp add: box_index_Cons box_index_append algebra_simps)
qed

text \<open>One matrix after another.\<close>

lemma outer_dims:
  assumes "in_box outs os" and "prod_list counts = E" and "in_box counts ds" and "within = box_index counts ds"
    and "prod_list outs * E < 2 ^ 32"
  shows "place_matrix (box_index outs os) E within = Inr (box_index (outs @ counts) (os @ ds))"
    and "in_box (outs @ counts) (os @ ds)" and "prod_list (outs @ counts) = prod_list outs * E"
proof -
  have len: "length os = length outs" "length ds = length counts" using assms(1,3) in_box_length by auto
  show "place_matrix (box_index outs os) E within = Inr (box_index (outs @ counts) (os @ ds))"
    using place_matrix_Inr [OF box_index_less [OF assms(1)], of within E] box_index_less [OF assms(3)] assms(2,4,5) len
    by (simp add: box_index_append)
  show "in_box (outs @ counts) (os @ ds)" "prod_list (outs @ counts) = prod_list outs * E"
    using assms len by (simp_all add: in_box_append)
qed

text \<open>The digits of a matrix order at a coordinate.\<close>

lemma matrix_nth [simp]:
  "(outs @ [R, C]) ! length outs = R" "(outs @ [R, C]) ! Suc (length outs) = C"
  by (simp_all add: nth_append)

lemma matrix_nth_coordinate [simp]:
  "in_box outs os \<Longrightarrow> (os @ [row, column]) ! length outs = row"
  "in_box outs os \<Longrightarrow> (os @ [row, column]) ! Suc (length outs) = column"
  by (simp_all add: nth_append in_box_length)

definition index_by_digits :: "tensor_storage \<Rightarrow> nat list \<Rightarrow> nat list \<Rightarrow> (nat \<times> nat \<times> nat) list \<Rightarrow> bool" where
  "index_by_digits s ws cs dims \<longleftrightarrow>
     physical_index s ws cs = Inr (box_index (dims_counts dims) (dims_digits cs dims))
   \<and> in_box (dims_counts dims) (dims_digits cs dims)
   \<and> prod_list (dims_counts dims) = prod_list ws"

lemma prod_matrix: "prod_list (outs @ [R, C]) = prod_list outs * (R * (C::nat))"
  by simp

definition matrix_case :: "nat list \<Rightarrow> nat list \<Rightarrow> nat \<Rightarrow> nat \<Rightarrow> nat \<Rightarrow> nat \<Rightarrow> bool" where
  "matrix_case outs os R C row column \<longleftrightarrow>
     in_box outs os \<and> row < R \<and> column < C \<and> prod_list outs * (R * C) < 2 ^ 32"

lemma matrix_caseD:
  assumes "matrix_case outs os R C row column"
  shows "in_box outs os" "row < R" "column < C" "prod_list outs * (R * C) < 2 ^ 32" "prod_list outs \<le> 2 ^ 64"
    "R * C < 2 ^ 32" "R * prod_list outs < 2 ^ 32" "matrix_operands (outs @ [R, C]) (os @ [row, column]) = Inr (R, C, box_index outs os, row, column)"
proof -
  show b: "in_box outs os" "row < R" "column < C" "prod_list outs * (R * C) < 2 ^ 32"
    using assms by (simp_all add: matrix_case_def)
  have less: "x < 2 ^ 32" if "x * k \<le> prod_list outs * (R * C)" "0 < k" for x k :: nat
  proof -
    have "x * 1 \<le> x * k" using that(2) by (intro mult_le_mono2) simp
    then show ?thesis using that(1) b(4) by (simp only: mult_1_right)
  qed
  have "prod_list outs < 2 ^ 32" using b by (intro less [of _ "R * C"]) auto
  then show "prod_list outs \<le> 2 ^ 64" by simp
  show "R * C < 2 ^ 32" using in_box_pos [OF b(1)] by (intro less [of _ "prod_list outs"]) (simp_all add: mult_ac)
  show "R * prod_list outs < 2 ^ 32" using b by (intro less [of _ C]) (simp_all add: mult_ac)
  from \<open>prod_list outs \<le> 2 ^ 64\<close> show "matrix_operands (outs @ [R, C]) (os @ [row, column]) = Inr (R, C, box_index outs os, row, column)"
    using matrix_operands_Inr [OF b(1)] by blast
qed

lemma index_by_digits_row_major:
  assumes "storage_order s = RowMajor" and "in_box ws cs" and "prod_list ws < 2 ^ 32"
  shows "index_by_digits s ws cs (plain_digits ws)"
  using assms encode_row_major_Inr [of ws cs] by (simp add: index_by_digits_def physical_index_def)

lemma index_by_digits_left:
  assumes "matrix_case outs os R C row column" and ord: "storage_order s = Amp Left"
    and dims: "order_digits (storage_order s) (storage_precision s) (outs @ [R, C]) = Inr dims"
  shows "index_by_digits s (outs @ [R, C]) (os @ [row, column]) dims"
proof -
  note m = matrix_caseD [OF assms(1)]
  let ?m = "amp_micro_dimension (storage_precision s)"
  have g: "is_multiple_of C ?m" and dims: "dims = (Suc (length outs), ?m, C div ?m) # plain_digits outs @ [(length outs, 1, R), (Suc (length outs), 1, ?m)]"
    using dims ord by (auto simp: order_digits_def Let_def storage_fail_def split: if_splits)
  note l = left_dims [OF m(2,3) g micro_pos m(1)]
  have r: "box_index outs os * R + row < R * prod_list outs"
  proof -
    have "Suc (box_index outs os) * R \<le> prod_list outs * R" using box_index_less [OF m(1)] by (intro mult_le_mono1) simp
    then show ?thesis using m(2) by (simp add: mult.commute)
  qed
  have i: "amp_left_index (storage_precision s) (R * prod_list outs) C (box_index outs os * R + row) column
      = Inr (box_index [C div ?m, R * prod_list outs, ?m] [column div ?m, box_index outs os * R + row, column mod ?m])"
    using m(4) by (intro amp_left_index_Inr r m(3) g refl) (simp add: mult_ac)
  have b: "box_index outs os < 2 ^ 32 \<and> box_index outs os * R < 2 ^ 32 \<and> box_index outs os * R + row < 2 ^ 32"
  proof -
    have "box_index outs os * 1 \<le> box_index outs os * R" using m(2) by (intro mult_le_mono2) simp
    then show ?thesis using r m(7) by linarith
  qed
  have "physical_index s (outs @ [R, C]) (os @ [row, column])
      = Inr (box_index (C div ?m # outs @ [R, ?m]) (column div ?m mod (C div ?m) # os @ [row mod R, column mod ?m]))"
    unfolding l(3) i [symmetric] using b flatten_rows_Inr [OF in_box_pos [OF m(1)] m(7)]
    by (simp add: physical_index_def ord m(8) try_from_def checked_mul_def checked_add_def)
  then show ?thesis using l(1,2) m(1) by (simp add: index_by_digits_def dims mult_ac)
qed

lemma index_by_digits_outer:
  assumes "matrix_case outs os R C row column" and dims: "dims = plain_digits outs @ inner"
    and counts: "prod_list (dims_counts inner) = R * C" "in_box (dims_counts inner) (dims_digits (os @ [row, column]) inner)"
    and idx: "physical_index s (outs @ [R, C]) (os @ [row, column])
      = place_matrix (box_index outs os) (R * C) (box_index (dims_counts inner) (dims_digits (os @ [row, column]) inner))"
  shows "index_by_digits s (outs @ [R, C]) (os @ [row, column]) dims"
proof -
  note m = matrix_caseD [OF assms(1)]
  note o = outer_dims [OF m(1) counts(1,2) refl m(4)]
  have "dims_counts dims = outs @ dims_counts inner" "dims_digits (os @ [row, column]) dims = os @ dims_digits (os @ [row, column]) inner"
    using m(1) by (simp_all add: dims)
  then show ?thesis using o idx by (simp add: index_by_digits_def)
qed

lemma index_by_digits_transposed_left:
  assumes "matrix_case outs os R C row column" and ord: "storage_order s = Amp TransposedLeft"
    and dims: "order_digits (storage_order s) (storage_precision s) (outs @ [R, C]) = Inr dims"
  shows "index_by_digits s (outs @ [R, C]) (os @ [row, column]) dims"
proof -
  note m = matrix_caseD [OF assms(1)]
  let ?m = "amp_micro_dimension (storage_precision s)"
  let ?inner = "[(length outs, ?m, R div ?m), (Suc (length outs), 1, C), (length outs, 1, ?m)]"
  have g: "is_multiple_of R ?m" and dims: "dims = plain_digits outs @ ?inner"
    using dims ord by (auto simp: order_digits_def Let_def storage_fail_def split: if_splits)
  have i: "amp_left_index (storage_precision s) C R column row
      = Inr (box_index [R div ?m, C, ?m] [row div ?m, column, row mod ?m])"
    using m(6) by (intro amp_left_index_Inr m(2,3) g refl) (simp add: mult_ac)
  have q: "row div ?m < R div ?m" by (rule less_div_of_dvd [OF micro_pos g m(2)])
  have p: "C * (R div ?m * ?m) = R * C" using is_multiple_elim [OF micro_pos g] by simp
  show ?thesis
  proof (rule index_by_digits_outer [OF assms(1) dims])
    show "prod_list (dims_counts ?inner) = R * C" using p by (simp add: mult_ac)
    show "in_box (dims_counts ?inner) (dims_digits (os @ [row, column]) ?inner)" using m(1,2,3) q by simp
    show "physical_index s (outs @ [R, C]) (os @ [row, column])
      = place_matrix (box_index outs os) (R * C) (box_index (dims_counts ?inner) (dims_digits (os @ [row, column]) ?inner))"
      using m(1,2,3) q by (simp add: physical_index_def ord m(8) i)
  qed
qed

lemma index_by_digits_right:
  assumes "matrix_case outs os R C row column" and ord: "storage_order s = Amp TransposedRight"
    and dims: "order_digits (storage_order s) (storage_precision s) (outs @ [R, C]) = Inr dims"
  shows "index_by_digits s (outs @ [R, C]) (os @ [row, column]) dims"
proof -
  note m = matrix_caseD [OF assms(1)]
  let ?m = "amp_micro_dimension (storage_precision s)" and ?k = AMP_COLUMN_MICRO
  let ?r = "Suc (length outs)" and ?c = "length outs"
  let ?inner = "[(?c, ?k, R div ?k), (?r, ?m, C div ?m), (?c, 1, ?k), (?r, 1, ?m)]"
  have g: "is_multiple_of C ?m" "is_multiple_of R ?k" and dims: "dims = plain_digits outs @ ?inner"
    using dims ord by (auto simp: order_digits_def Let_def storage_fail_def split: if_splits)
  have k: "0 < ?k" by (simp add: AMP_COLUMN_MICRO_def)
  have i: "right_matrix_index (storage_precision s) C R column row
      = Inr (box_index [R div ?k, C div ?m, ?k, ?m] [row div ?k, column div ?m, row mod ?k, column mod ?m])"
    using m(6) by (intro right_matrix_index_Inr m(2,3) g refl) (simp add: mult_ac)
  have q: "row div ?k < R div ?k" "column div ?m < C div ?m"
    by (rule less_div_of_dvd [OF k g(2) m(2)], rule less_div_of_dvd [OF micro_pos g(1) m(3)])
  have p: "(C div ?m * ?m) * (R div ?k * ?k) = R * C"
    using is_multiple_elim [OF micro_pos g(1)] is_multiple_elim [OF k g(2)] by simp
  show ?thesis
  proof (rule index_by_digits_outer [OF assms(1) dims])
    show "prod_list (dims_counts ?inner) = R * C" using p by (simp add: mult_ac)
    show "in_box (dims_counts ?inner) (dims_digits (os @ [row, column]) ?inner)" using m(1,2,3) q k by simp
    show "physical_index s (outs @ [R, C]) (os @ [row, column])
      = place_matrix (box_index outs os) (R * C) (box_index (dims_counts ?inner) (dims_digits (os @ [row, column]) ?inner))"
      using m(1,2,3) q by (simp add: physical_index_def ord m(8) i)
  qed
qed

lemma index_by_digits_block:
  assumes "matrix_case outs os R C row column" and ord: "storage_order s = BlockMajor b"
    and dims: "order_digits (storage_order s) (storage_precision s) (outs @ [R, C]) = Inr dims"
  shows "index_by_digits s (outs @ [R, C]) (os @ [row, column]) dims"
proof -
  note m = matrix_caseD [OF assms(1)]
  let ?m = "amp_micro_dimension (storage_precision s)"
  let ?rb = "row_block b" and ?cb = "column_block b"
  define t where "t = transposed_order (BlockMajor b)"
  define r c X Y x y where "r = (if t then Suc (length outs) else length outs)"
    and "c = (if t then length outs else Suc (length outs))"
    and "X = (if t then C else R)" and "Y = (if t then R else C)"
    and "x = (if t then column else row)" and "y = (if t then row else column)"
  let ?inner = "[(r, ?rb, X div ?rb), (c, ?cb, Y div ?cb), (r, ?m, ?rb div ?m), (c, 1, ?cb), (r, 1, ?m)]"
  have g: "0 < ?rb" "0 < ?cb" "is_multiple_of X ?rb" "is_multiple_of Y ?cb" "is_multiple_of ?rb ?m"
    and dims: "dims = plain_digits outs @ ?inner"
    using dims ord
    by (auto simp: order_digits_def block_sizes_def Let_def storage_fail_def r_def c_def X_def Y_def t_def split: if_splits)
  have xy: "x < X" "y < Y" "X * Y < 2 ^ 32" "X * Y = R * C"
    using m(2,3,6) by (simp_all add: x_def X_def y_def Y_def mult.commute)
  have at: "(os @ [row, column]) ! r = x" "(os @ [row, column]) ! c = y"
    using m(1) by (simp_all add: r_def c_def x_def y_def)
  have gm: "?rb div ?m * ?m = ?rb" by (rule is_multiple_elim [OF micro_pos g(5)])
  then have gp: "0 < ?rb div ?m" using g(1) by (cases "?rb div ?m") auto
  have i: "block_index ?rb ?cb (storage_precision s) X Y x y
      = Inr (box_index [X div ?rb, Y div ?cb, ?rb div ?m, ?cb, ?m] [x div ?rb, y div ?cb, x div ?m mod (?rb div ?m), y mod ?cb, x mod ?m])"
    by (intro block_index_Inr xy g refl)
  have q: "x div ?rb < X div ?rb" "y div ?cb < Y div ?cb"
    by (rule less_div_of_dvd [OF g(1,3) xy(1)], rule less_div_of_dvd [OF g(2,4) xy(2)])
  have p: "(X div ?rb * (?rb div ?m * ?m)) * (Y div ?cb * ?cb) = R * C"
    using gm is_multiple_elim [OF g(1,3)] is_multiple_elim [OF g(2,4)] xy(4) by simp
  have pi: "block_major_matrix_index b (storage_precision s) R C row column = block_index ?rb ?cb (storage_precision s) X Y x y"
    by (cases b) (simp_all add: t_def X_def Y_def x_def y_def)
  show ?thesis
  proof (rule index_by_digits_outer [OF assms(1) dims])
    show "prod_list (dims_counts ?inner) = R * C" using p by (simp add: mult_ac)
    show "in_box (dims_counts ?inner) (dims_digits (os @ [row, column]) ?inner)" using q g gp by (simp add: at)
    show "physical_index s (outs @ [R, C]) (os @ [row, column])
      = place_matrix (box_index outs os) (R * C) (box_index (dims_counts ?inner) (dims_digits (os @ [row, column]) ?inner))"
      using q g by (simp add: physical_index_def ord m(8) pi i at)
  qed
qed

lemma physical_index_digits:
  assumes "order_digits (storage_order s) (storage_precision s) ws = Inr dims" and "in_box ws cs" and "prod_list ws < 2 ^ 32"
  shows "index_by_digits s ws cs dims"
proof (cases "storage_order s = RowMajor")
  case True
  then show ?thesis using assms by (auto simp: order_digits_def intro: index_by_digits_row_major)
next
  case False
  then have "\<not> length ws < 2" using assms(1) by (intro notI) (simp add: order_digits_def storage_fail_def)
  then have "2 \<le> length ws" by simp
  from split_matrix_box [OF assms(2) this] obtain outs R C os row column
    where w: "ws = outs @ [R, C]" "cs = os @ [row, column]" "in_box outs os" "row < R" "column < C" .
  then have "matrix_case outs os R C row column" using assms(3) by (simp add: matrix_case_def)
  note cases = index_by_digits_left [OF this] index_by_digits_transposed_left [OF this]
    index_by_digits_right [OF this] index_by_digits_block [OF this]
  show ?thesis
  proof (cases "storage_order s")
    case (Amp role) then show ?thesis using cases assms(1) w by (cases role) auto
  next
    case (BlockMajor b) then show ?thesis using cases assms(1) w by auto
  qed (use False in simp)
qed

text \<open>The address of a coordinate: every digit times its stride.\<close>

definition digit_value :: "nat list \<Rightarrow> digit \<Rightarrow> nat" where
  "digit_value cs d = (cs ! digit_axis d div divisor d) mod digit_count d"

definition digit_address :: "digit list \<Rightarrow> nat list \<Rightarrow> nat" where
  "digit_address ds cs = sum_list (map (\<lambda>d. digit_stride d * digit_value cs d) ds)"

definition digit_dim :: "digit \<Rightarrow> nat \<times> nat \<times> nat" where
  "digit_dim d = (digit_axis d, divisor d, digit_count d)"

lemma assign_strides_Inr:
  "assign_strides dims e = Inr (ds, whole) \<Longrightarrow>
   map digit_dim ds = dims \<and> whole = prod_list (dims_counts dims) * e
   \<and> digit_address ds cs = box_index (dims_counts dims) (dims_digits cs dims) * e"
proof (induction dims e arbitrary: ds whole rule: assign_strides.induct)
  case (2 a d n rest element)
  from "2.prems" obtain ds' stride where r: "assign_strides rest element = Inr (ds', stride)"
    "ds = \<lparr>digit_axis = a, divisor = d, digit_count = n, digit_stride = stride\<rparr> # ds'" "whole = stride * n"
    by (auto simp: res_simps arith_defs split: if_splits)
  from "2.IH" [OF r(1)] show ?case
    by (simp add: r(2,3) digit_dim_def digit_address_def digit_value_def box_index_Cons algebra_simps)
qed (simp add: digit_address_def)

lemma digits_Inr:
  assumes "digits s = Inr ds"
  shows "\<exists>ws dims whole. shard_widths s = Inr ws \<and> order_digits (storage_order s) (storage_precision s) ws = Inr dims
    \<and> assign_strides dims (precision_bytes (storage_precision s)) = Inr (ds, whole)"
  using assms by (fastforce simp: digits_def res_simps split: prod.splits)

lemma shard_widths_Inr: "shard_widths s = Inr ws \<longleftrightarrow> map extent_width (storage_extents s) = map Inr ws"
  by (simp add: shard_widths_def traverse_Inr)

lemma element_product_Inr:
  "element_product n es = Inr m \<Longrightarrow> \<exists>ws. map extent_width es = map Inr ws \<and> m = n * prod_list ws"
proof (induction n es arbitrary: m rule: element_product.induct)
  case (2 n e es)
  from "2.prems" obtain w where w: "extent_width e = Inr w" "element_product (n * w) es = Inr m"
    by (auto simp: res_simps arith_defs split: if_splits)
  have "checked_mul 64 n w = Some (n * w)" using "2.prems" w(1) by (auto simp: res_simps arith_defs split: if_splits)
  with "2.IH" w obtain ws where "map extent_width es = map Inr ws" "m = n * w * prod_list ws" by auto
  then show ?case using w(1) by (intro exI [of _ "w # ws"]) simp
qed simp

lemma storage_bytes_Inr:
  assumes "storage_bytes s = Inr n" and "shard_widths s = Inr ws"
  shows "n = prod_list ws * precision_bytes (storage_precision s)" and "n < 2 ^ 32"
proof -
  obtain m where m: "element_product 1 (storage_extents s) = Inr m"
    "n = m * precision_bytes (storage_precision s)" "n < 2 ^ 32"
    using assms(1) by (auto simp: storage_bytes_def res_simps arith_defs split: if_splits)
  from element_product_Inr [OF m(1)] obtain ws' where
    "map extent_width (storage_extents s) = map Inr ws'" "m = prod_list ws'" by auto
  then have "map (Inr :: nat \<Rightarrow> nat storage_result) ws' = map Inr ws" using assms(2) by (simp only: shard_widths_Inr)
  then have "ws' = ws" by (simp add: inj_map_eq_map)
  then show "n = prod_list ws * precision_bytes (storage_precision s)" "n < 2 ^ 32" using m \<open>m = prod_list ws'\<close> by simp_all
qed

lemma precision_bytes_pos [simp]: "0 < precision_bytes p"
  by (cases p) simp_all

text \<open>The facts about a shard whose digits exist and whose size fits the allocation.\<close>

lemma shard_digits:
  assumes "digits s = Inr ds" and "storage_bytes s = Inr n" and "shard_widths s = Inr ws"
  obtains dims where "order_digits (storage_order s) (storage_precision s) ws = Inr dims" and "map digit_dim ds = dims"
    and "prod_list ws < 2 ^ 32"
    and "\<And>cs. in_box ws cs \<Longrightarrow> index_by_digits s ws cs dims
      \<and> digit_address ds cs = box_index (dims_counts dims) (dims_digits cs dims) * precision_bytes (storage_precision s)"
proof -
  from digits_Inr [OF assms(1)] assms(3) obtain dims whole where
    d: "order_digits (storage_order s) (storage_precision s) ws = Inr dims"
      "assign_strides dims (precision_bytes (storage_precision s)) = Inr (ds, whole)" by auto
  note b = storage_bytes_Inr [OF assms(2,3)]
  have "prod_list ws * 1 \<le> prod_list ws * precision_bytes (storage_precision s)" by (intro mult_le_mono2) (simp add: Suc_leI)
  then have small: "prod_list ws < 2 ^ 32" using b by (simp only: mult_1_right)
  show ?thesis
    using that [OF d(1) _ small] physical_index_digits [OF d(1) _ small] assign_strides_Inr [OF d(2)] by blast
qed

subsection \<open>The coordinate functions invert the index\<close>

lemma radix_digits_snoc: "radix_digits (ps @ [p]) n = radix_digits ps (n div p) @ [n mod p]"
  by (induction ps) (simp_all add: div_mult2_eq [symmetric] mult.commute)

lemma decode_loop_rev: "0 < prod_list ws \<Longrightarrow> decode_loop (rev ws) n = Some (rev (radix_digits ws n))"
  by (induction ws arbitrary: n rule: rev_induct) (simp_all add: radix_digits_snoc)

lemma decode_row_major_Inr: "0 < prod_list ws \<Longrightarrow> decode_row_major ws n = Inr (radix_digits ws n)"
  by (simp add: decode_row_major_def decode_loop_rev)

lemma decode_box_index: "in_box ws cs \<Longrightarrow> decode_row_major ws (box_index ws cs) = Inr cs"
  by (simp add: decode_row_major_Inr in_box_pos radix_digits_index)

lemma amp_left_coordinates_Inr:
  assumes "row < rows" and "column < columns" and "is_multiple_of columns m" and "m = amp_micro_dimension p"
    and "rows * columns < 2 ^ 32"
  shows "amp_left_coordinates p rows columns (box_index [columns div m, rows, m] [column div m, row, column mod m]) = Inr (row, column)"
proof -
  have m: "0 < m" using assms(4) by simp
  let ?i = "box_index [columns div m, rows, m] [column div m, row, column mod m]"
  have i: "?i = (row * m + column mod m) + column div m * (rows * m)" by (simp add: box_index_Cons algebra_simps)
  have "m \<le> columns" using assms(2,3) by (auto simp: is_multiple_of_dvd intro: dvd_imp_le)
  then have "rows * m \<le> rows * columns" by (rule mult_le_mono2)
  then have small: "rows * m < 2 ^ 32" using assms(5) by linarith
  have "Suc row * m \<le> rows * m" using assms(1) by (intro mult_le_mono1) simp
  then have "row * m + column mod m < rows * m" using mod_less_divisor [OF m, of column] by (simp only: mult_Suc)
  then have "?i div (rows * m) = column div m" "?i mod (rows * m) = row * m + column mod m" unfolding i by (simp_all only: split_digit)
  then show ?thesis using assms(1,3) m small
    unfolding amp_left_coordinates_def assms(4) [symmetric]
    by (simp add: Let_def checked_mul_def)
qed

lemma right_matrix_coordinates_Inr:
  assumes "row < rows" and "column < columns" and "is_multiple_of rows m" and "is_multiple_of columns AMP_COLUMN_MICRO"
    and "m = amp_micro_dimension p"
  shows "right_matrix_coordinates p rows columns
      (box_index [columns div AMP_COLUMN_MICRO, rows div m, AMP_COLUMN_MICRO, m]
        [column div AMP_COLUMN_MICRO, row div m, column mod AMP_COLUMN_MICRO, row mod m]) = Inr (row, column)"
proof -
  let ?k = AMP_COLUMN_MICRO
  have m: "0 < m" "0 < ?k" using assms(5) by (simp_all add: AMP_COLUMN_MICRO_def)
  let ?i = "box_index [columns div ?k, rows div m, ?k, m] [column div ?k, row div m, column mod ?k, row mod m]"
  have i: "?i = (column mod ?k * m + row mod m) + (column div ?k * (rows div m) + row div m) * (m * ?k)"
    by (simp add: box_index_Cons algebra_simps)
  have g: "row div m < rows div m" by (rule less_div_of_dvd [OF m(1) assms(3,1)])
  have "Suc (column mod ?k) * m \<le> ?k * m" using mod_less_divisor [OF m(2), of column] by (intro mult_le_mono1) simp
  then have "column mod ?k * m + row mod m < m * ?k"
    using mod_less_divisor [OF m(1), of row] by (simp only: mult_Suc mult.commute [of m ?k])
  then have "?i div (m * ?k) = column div ?k * (rows div m) + row div m" "?i mod (m * ?k) = column mod ?k * m + row mod m"
    unfolding i by (simp_all only: split_digit)
  then show ?thesis using assms(3,4) m g
    unfolding right_matrix_coordinates_def assms(5) [symmetric]
    by (simp add: Let_def)
qed

lemma block_coordinates_Inr:
  assumes "row < rows" and "column < columns" and "0 < rb" and "0 < cb" and "is_multiple_of rows rb"
    and "is_multiple_of columns cb" and "is_multiple_of rb m" and "m = amp_micro_dimension p" and "rows * columns < 2 ^ 32"
  shows "block_coordinates rb cb p rows columns
      (box_index [rows div rb, columns div cb, rb div m, cb, m]
        [row div rb, column div cb, (row div m) mod (rb div m), column mod cb, row mod m]) = Inr (row, column)"
proof -
  have m: "0 < m" using assms(8) by simp
  let ?g = "rb div m" let ?c = "columns div cb"
  have gm: "?g * m = rb" by (rule is_multiple_elim [OF m assms(7)])
  have g: "0 < ?g" using gm assms(3) by (cases "?g") auto
  have q: "column div cb < ?c" by (rule less_div_of_dvd [OF assms(4,6,2)])
  let ?within = "column div cb * ?g + (row div m) mod ?g"
  let ?panel = "?within + row div rb * (?c * ?g)"
  let ?i = "box_index [rows div rb, ?c, ?g, cb, m] [row div rb, column div cb, (row div m) mod ?g, column mod cb, row mod m]"
  have i: "?i = (column mod cb * m + row mod m) + ?panel * (m * cb)" by (simp add: box_index_Cons algebra_simps)
  have "Suc (column mod cb) * m \<le> cb * m" using mod_less_divisor [OF assms(4), of column] by (intro mult_le_mono1) simp
  then have "column mod cb * m + row mod m < m * cb"
    using mod_less_divisor [OF m, of row] by (simp only: mult_Suc mult.commute [of m cb])
  then have off: "?i div (m * cb) = ?panel" "?i mod (m * cb) = column mod cb * m + row mod m"
    unfolding i by (simp_all only: split_digit)
  have "Suc (column div cb) * ?g \<le> ?c * ?g" using q by (intro mult_le_mono1) simp
  then have "?within < ?c * ?g" using mod_less_divisor [OF g, of "row div m"] by (simp only: mult_Suc)
  then have panel: "?panel div (?c * ?g) = row div rb" "?panel mod (?c * ?g) = ?within" by (simp_all only: split_digit)
  have within: "?within div ?g = column div cb" "?within mod ?g = (row div m) mod ?g" using g by simp_all
  define panel_number within_block off where "panel_number = ?panel" and "within_block = ?within"
    and "off = column mod cb * m + row mod m"
  have offm: "off mod m = row mod m" "off div m = column mod cb" using m by (simp_all add: off_def)
  note eqs = off [folded panel_number_def off_def] panel [folded panel_number_def within_block_def]
    within [folded within_block_def] offm
  have "row mod rb = (row div m) mod ?g * m + row mod m"
    using mod_mult2_eq [of row m ?g] gm by (simp add: mult.commute)
  then have row: "row div rb * rb + (row div m) mod ?g * m + row mod m = row"
    using div_mult_mod_eq [of row rb] by simp
  have "?c \<le> columns" "?g \<le> rb" "rb \<le> rows"
    using assms(1,3,5) by (auto simp: is_multiple_of_dvd intro: dvd_imp_le)
  then have "?c \<le> columns" "?g \<le> rows" by linarith+
  then have "?c * ?g \<le> columns * rows" by (rule mult_le_mono)
  then have small: "?c * ?g < 2 ^ 32" using assms(9) by (simp only: mult.commute)
  have "m * cb \<le> rows * columns" by (rule block_panel_le [OF assms(1-8)])
  then have small2: "m * cb < 2 ^ 32" using assms(9) by linarith
  have pos: "0 < ?c * ?g" using q g by simp
  have guard: "\<not> (rb = 0 \<or> cb = 0 \<or> \<not> is_multiple_of rows rb \<or> \<not> is_multiple_of columns cb \<or> \<not> is_multiple_of rb m)"
    using assms by simp
  show ?thesis
    unfolding block_coordinates_def assms(8) [symmetric] Let_def if_not_P [OF guard]
    using small small2 pos
    by (simp add: checked_mul_def eqs row)
qed

definition coordinates_of_index :: "tensor_storage \<Rightarrow> nat list \<Rightarrow> nat list \<Rightarrow> bool" where
  "coordinates_of_index s ws cs \<longleftrightarrow> (\<exists>i. physical_index s ws cs = Inr i \<and> physical_coordinates s ws i = Inr cs)"

lemma matrix_coordinates_Inr:
  assumes "matrix_case outs os R C row column" and "w < R * C" and "within R C w = Inr (row, column)"
  shows "matrix_coordinates (outs @ [R, C]) (box_index outs os * (R * C) + w) within = Inr (os @ [row, column])"
proof -
  note m = matrix_caseD [OF assms(1)]
  have d: "(box_index outs os * (R * C) + w) div (R * C) = box_index outs os"
    "(box_index outs os * (R * C) + w) mod (R * C) = w"
    using split_digit [OF assms(2), of "box_index outs os"] by (simp_all only: add.commute)
  have "w < 2 ^ 32" using assms(2) m(6) by linarith
  then show ?thesis using assms(2,3) decode_box_index [OF m(1)] d m(2,3)
    by (auto simp: matrix_coordinates_def Let_def try_from_def)
qed

lemma coordinates_outer:
  assumes "matrix_case outs os R C row column" and "2 \<le> length (outs @ [R, C])"
    and coords: "\<And>i. physical_coordinates s (outs @ [R, C]) i = matrix_coordinates (outs @ [R, C]) i within"
    and idx: "physical_index s (outs @ [R, C]) (os @ [row, column]) = place_matrix (box_index outs os) (R * C) w"
    and w: "w < R * C" "within R C w = Inr (row, column)"
  shows "coordinates_of_index s (outs @ [R, C]) (os @ [row, column])"
proof -
  note m = matrix_caseD [OF assms(1)]
  have "place_matrix (box_index outs os) (R * C) w = Inr (box_index outs os * (R * C) + w)"
    using box_index_less [OF m(1)] w(1) m(4) by (intro place_matrix_Inr [of _ "prod_list outs"]) simp_all
  then show ?thesis using matrix_coordinates_Inr [where within = within, OF assms(1) w] idx coords
    by (simp add: coordinates_of_index_def)
qed

lemma coordinates_left:
  assumes "matrix_case outs os R C row column" and ord: "storage_order s = Amp Left"
    and g: "is_multiple_of C (amp_micro_dimension (storage_precision s))"
  shows "coordinates_of_index s (outs @ [R, C]) (os @ [row, column])"
proof -
  note m = matrix_caseD [OF assms(1)]
  let ?m = "amp_micro_dimension (storage_precision s)"
  let ?r = "box_index outs os * R + row" and ?rows = "R * prod_list outs"
  let ?i = "box_index [C div ?m, ?rows, ?m] [column div ?m, ?r, column mod ?m]"
  have r: "?r < ?rows"
  proof -
    have "Suc (box_index outs os) * R \<le> prod_list outs * R" using box_index_less [OF m(1)] by (intro mult_le_mono1) simp
    then show ?thesis using m(2) by (simp add: mult.commute)
  qed
  have small: "?rows * C < 2 ^ 32" using m(4) by (simp add: mult_ac)
  have fits: "box_index outs os < 2 ^ 32" "box_index outs os * R < 2 ^ 32" "?r < 2 ^ 32"
  proof -
    have "box_index outs os * 1 \<le> box_index outs os * R" using m(2) by (intro mult_le_mono2) simp
    then show "box_index outs os < 2 ^ 32" "box_index outs os * R < 2 ^ 32" "?r < 2 ^ 32" using r m(7) by linarith+
  qed
  have idx: "physical_index s (outs @ [R, C]) (os @ [row, column]) = Inr ?i"
    using fits flatten_rows_Inr [OF in_box_pos [OF m(1)] m(7)] amp_left_index_Inr [OF r m(3) g refl small]
    by (simp add: physical_index_def ord m(8) try_from_def checked_mul_def checked_add_def)
  have "in_box [C div ?m, ?rows, ?m] [column div ?m, ?r, column mod ?m]"
    using r less_div_of_dvd [OF micro_pos g m(3)] by simp
  from box_index_less [OF this] have "?i < ?rows * (C div ?m * ?m)" by (simp add: mult_ac)
  then have i: "?i < 2 ^ 32" using small is_multiple_elim [OF micro_pos g] by simp
  have "?r div R = box_index outs os" "?r mod R = row" using split_digit [OF m(2), of "box_index outs os"] by (simp_all only: add.commute)
  then have "physical_coordinates s (outs @ [R, C]) ?i = Inr (os @ [row, column])"
    using i m(2) flatten_rows_Inr [OF in_box_pos [OF m(1)] m(7)] amp_left_coordinates_Inr [OF r m(3) g refl small]
      decode_box_index [OF m(1)]
    by (simp add: physical_coordinates_def ord Let_def try_from_def)
  then show ?thesis using idx by (simp add: coordinates_of_index_def)
qed

lemma coordinates_transposed_left:
  assumes "matrix_case outs os R C row column" and ord: "storage_order s = Amp TransposedLeft"
    and g: "is_multiple_of R (amp_micro_dimension (storage_precision s))"
  shows "coordinates_of_index s (outs @ [R, C]) (os @ [row, column])"
proof -
  note m = matrix_caseD [OF assms(1)]
  let ?m = "amp_micro_dimension (storage_precision s)"
  let ?w = "box_index [R div ?m, C, ?m] [row div ?m, column, row mod ?m]"
  have small: "C * R < 2 ^ 32" using m(6) by (simp add: mult.commute)
  note i = amp_left_index_Inr [OF m(3,2) g refl small] and c = amp_left_coordinates_Inr [OF m(3,2) g refl small]
  have "in_box [R div ?m, C, ?m] [row div ?m, column, row mod ?m]" using m(3) less_div_of_dvd [OF micro_pos g m(2)] by simp
  from box_index_less [OF this] have "?w < C * (R div ?m * ?m)" by (simp add: mult_ac)
  then have "?w < R * C" using is_multiple_elim [OF micro_pos g] by (simp add: mult.commute)
  then show ?thesis
    using m(2,3) i c
    by (intro coordinates_outer [OF assms(1), of s "amp_matrix_coordinates TransposedLeft (storage_precision s)" ?w])
      (simp_all add: physical_coordinates_def physical_index_def ord m(8) map_result_def swap_pair_def Let_def)
qed

lemma coordinates_right:
  assumes "matrix_case outs os R C row column" and ord: "storage_order s = Amp TransposedRight"
    and g: "is_multiple_of C (amp_micro_dimension (storage_precision s))" "is_multiple_of R AMP_COLUMN_MICRO"
  shows "coordinates_of_index s (outs @ [R, C]) (os @ [row, column])"
proof -
  note m = matrix_caseD [OF assms(1)]
  let ?m = "amp_micro_dimension (storage_precision s)" and ?k = AMP_COLUMN_MICRO
  let ?w = "box_index [R div ?k, C div ?m, ?k, ?m] [row div ?k, column div ?m, row mod ?k, column mod ?m]"
  have k: "0 < ?k" by (simp add: AMP_COLUMN_MICRO_def)
  have small: "C * R < 2 ^ 32" using m(6) by (simp add: mult.commute)
  note i = right_matrix_index_Inr [OF m(3,2) g refl small] and c = right_matrix_coordinates_Inr [OF m(3,2) g refl]
  have "in_box [R div ?k, C div ?m, ?k, ?m] [row div ?k, column div ?m, row mod ?k, column mod ?m]"
    using k less_div_of_dvd [OF micro_pos g(1) m(3)] less_div_of_dvd [OF k g(2) m(2)] by simp
  from box_index_less [OF this] have "?w < (R div ?k * ?k) * (C div ?m * ?m)" by (simp add: mult_ac)
  then have "?w < R * C" using is_multiple_elim [OF micro_pos g(1)] is_multiple_elim [OF k g(2)] by simp
  then show ?thesis
    using m(2,3) i c
    by (intro coordinates_outer [OF assms(1), of s "amp_matrix_coordinates TransposedRight (storage_precision s)" ?w])
      (simp_all add: physical_coordinates_def physical_index_def ord m(8) map_result_def swap_pair_def Let_def)
qed

lemma coordinates_block:
  assumes "matrix_case outs os R C row column" and ord: "storage_order s = BlockMajor b"
    and g: "0 < row_block b" "0 < column_block b" "is_multiple_of (if transposed_order (BlockMajor b) then C else R) (row_block b)"
      "is_multiple_of (if transposed_order (BlockMajor b) then R else C) (column_block b)"
      "is_multiple_of (row_block b) (amp_micro_dimension (storage_precision s))"
  shows "coordinates_of_index s (outs @ [R, C]) (os @ [row, column])"
proof -
  note m = matrix_caseD [OF assms(1)]
  let ?m = "amp_micro_dimension (storage_precision s)"
  let ?rb = "row_block b" and ?cb = "column_block b"
  define t where "t = transposed_order (BlockMajor b)"
  define X Y x y where "X = (if t then C else R)" and "Y = (if t then R else C)"
    and "x = (if t then column else row)" and "y = (if t then row else column)"
  have xy: "x < X" "y < Y" "X * Y < 2 ^ 32" "X * Y = R * C"
    using m(2,3,6) by (simp_all add: x_def X_def y_def Y_def mult.commute)
  have h: "is_multiple_of X ?rb" "is_multiple_of Y ?cb" using g by (simp_all add: X_def Y_def t_def)
  let ?w = "box_index [X div ?rb, Y div ?cb, ?rb div ?m, ?cb, ?m] [x div ?rb, y div ?cb, x div ?m mod (?rb div ?m), y mod ?cb, x mod ?m]"
  note i = block_index_Inr [OF xy(1,2) g(1,2) h g(5) refl xy(3)]
    and c = block_coordinates_Inr [OF xy(1,2) g(1,2) h g(5) refl xy(3)]
  have gm: "?rb div ?m * ?m = ?rb" by (rule is_multiple_elim [OF micro_pos g(5)])
  then have gp: "0 < ?rb div ?m" using g(1) by (cases "?rb div ?m") auto
  have "in_box [X div ?rb, Y div ?cb, ?rb div ?m, ?cb, ?m] [x div ?rb, y div ?cb, x div ?m mod (?rb div ?m), y mod ?cb, x mod ?m]"
    using gp g(2) less_div_of_dvd [OF g(1) h(1) xy(1)] less_div_of_dvd [OF g(2) h(2) xy(2)] by simp
  from box_index_less [OF this] have "?w < (X div ?rb * (?rb div ?m * ?m)) * (Y div ?cb * ?cb)" by (simp add: mult_ac)
  then have w: "?w < R * C" using gm is_multiple_elim [OF g(1) h(1)] is_multiple_elim [OF g(2) h(2)] xy(4) by simp
  have pi: "block_major_matrix_index b (storage_precision s) R C row column = Inr ?w"
    using i by (cases b) (simp_all add: t_def X_def Y_def x_def y_def)
  have pc: "block_major_matrix_coordinates b (storage_precision s) R C ?w = Inr (row, column)"
    using c by (cases b) (simp_all add: t_def X_def Y_def x_def y_def map_result_def swap_pair_def)
  show ?thesis
    using w pc
    by (intro coordinates_outer [OF assms(1), of s "block_major_matrix_coordinates b (storage_precision s)" ?w])
      (simp_all add: physical_coordinates_def physical_index_def ord m(8) pi Let_def)
qed

lemma physical_coordinates_index:
  assumes "order_digits (storage_order s) (storage_precision s) ws = Inr dims" and "in_box ws cs" and "prod_list ws < 2 ^ 32"
  shows "coordinates_of_index s ws cs"
proof (cases "storage_order s = RowMajor")
  case True
  then show ?thesis using encode_row_major_Inr [OF assms(2)] decode_box_index [OF assms(2)] assms(3)
    by (simp add: coordinates_of_index_def physical_index_def physical_coordinates_def)
next
  case False
  then have "\<not> length ws < 2" using assms(1) by (intro notI) (simp add: order_digits_def storage_fail_def)
  then have "2 \<le> length ws" by simp
  from split_matrix_box [OF assms(2) this] obtain outs R C os row column
    where w: "ws = outs @ [R, C]" "cs = os @ [row, column]" "in_box outs os" "row < R" "column < C" .
  then have m: "matrix_case outs os R C row column" using assms(3) by (simp add: matrix_case_def)
  note cases = coordinates_left [OF m] coordinates_transposed_left [OF m] coordinates_right [OF m]
  have od: "order_digits (storage_order s) (storage_precision s) (outs @ [R, C]) = Inr dims" using assms(1) w by simp
  show ?thesis
  proof (cases "storage_order s")
    case (Amp role)
    show ?thesis
    proof (cases role)
      case Left
      then have "is_multiple_of C (amp_micro_dimension (storage_precision s))"
        using od Amp by (auto simp: order_digits_def storage_fail_def Let_def split: if_splits)
      then show ?thesis using cases(1) Amp Left w by simp
    next
      case TransposedLeft
      then have "is_multiple_of R (amp_micro_dimension (storage_precision s))"
        using od Amp by (auto simp: order_digits_def storage_fail_def Let_def split: if_splits)
      then show ?thesis using cases(2) Amp TransposedLeft w by simp
    next
      case TransposedRight
      then have "is_multiple_of C (amp_micro_dimension (storage_precision s))" "is_multiple_of R AMP_COLUMN_MICRO"
        using od Amp by (auto simp: order_digits_def storage_fail_def Let_def split: if_splits)
      then show ?thesis using cases(3) Amp TransposedRight w by simp
    qed
  next
    case (BlockMajor b)
    have "0 < row_block b" "0 < column_block b" "is_multiple_of (if transposed_order (BlockMajor b) then C else R) (row_block b)"
      "is_multiple_of (if transposed_order (BlockMajor b) then R else C) (column_block b)"
      "is_multiple_of (row_block b) (amp_micro_dimension (storage_precision s))"
      using od BlockMajor by (auto simp: order_digits_def block_sizes_def storage_fail_def Let_def split: if_splits)
    from coordinates_block [OF m BlockMajor this] show ?thesis using w by simp
  qed (use False in simp)
qed

subsection \<open>Properties\<close>

lemma card_box: "card {cs. in_box ws cs} = prod_list ws" and finite_box: "finite {cs. in_box ws cs}"
proof -
  have d: "distinct (box_list ws)" using box_list_index [of ws] by (metis distinct_map distinct_upt)
  have "length (box_list ws) = prod_list ws" using box_list_index [of ws] by (metis length_map length_upt minus_nat.diff_0)
  then show "card {cs. in_box ws cs} = prod_list ws" using distinct_card [OF d] by (simp add: set_box_list)
  show "finite {cs. in_box ws cs}" using finite_set [of "box_list ws"] by (simp add: set_box_list)
qed

lemma index_bijection:
  assumes "shard_widths s = Inr ws" and "storage_bytes s = Inr bytes" and "digits s = Inr ds"
  shows "(in_box ws cs \<longrightarrow>
      (\<exists>i<prod_list ws. physical_index s ws cs = Inr i \<and> physical_coordinates s ws i = Inr cs))
    \<and> (i < prod_list ws \<longrightarrow>
      (\<exists>cs. in_box ws cs \<and> physical_coordinates s ws i = Inr cs \<and> physical_index s ws cs = Inr i))"
proof -
  obtain dims where dims: "order_digits (storage_order s) (storage_precision s) ws = Inr dims" and small: "prod_list ws < 2 ^ 32"
    and ix: "\<And>cs. in_box ws cs \<Longrightarrow> index_by_digits s ws cs dims"
    using shard_digits [OF assms(3,2,1)] by metis
  let ?f = "\<lambda>cs. box_index (dims_counts dims) (dims_digits cs dims)"
  have f: "physical_index s ws cs = Inr (?f cs) \<and> ?f cs < prod_list ws \<and> physical_coordinates s ws (?f cs) = Inr cs"
    if "in_box ws cs" for cs
    using ix [OF that] physical_coordinates_index [OF dims that small] box_index_less [of "dims_counts dims" "dims_digits cs dims"]
    by (auto simp: index_by_digits_def coordinates_of_index_def)
  then have "inj_on ?f {cs. in_box ws cs}" by (auto intro!: inj_onI) (metis sum.inject(2))
  then have "card (?f ` {cs. in_box ws cs}) = prod_list ws" by (simp add: card_image card_box)
  moreover have "?f ` {cs. in_box ws cs} \<subseteq> {..<prod_list ws}" using f by auto
  ultimately have "?f ` {cs. in_box ws cs} = {..<prod_list ws}" by (metis card_lessThan card_subset_eq finite_lessThan)
  then have "\<exists>cs. in_box ws cs \<and> ?f cs = i" if "i < prod_list ws" using that by (metis (no_types, lifting) imageE lessThan_iff mem_Collect_eq)
  then show ?thesis using f by metis
qed

lemma digits_address:
  assumes "shard_widths s = Inr ws" and "storage_bytes s = Inr bytes" and "digits s = Inr ds" and "in_box ws cs"
  shows "\<exists>i. physical_index s ws cs = Inr i \<and> digit_address ds cs = i * precision_bytes (storage_precision s)
    \<and> digit_address ds cs + precision_bytes (storage_precision s) \<le> bytes"
proof -
  obtain dims where ix: "index_by_digits s ws cs dims"
    and a: "digit_address ds cs = box_index (dims_counts dims) (dims_digits cs dims) * precision_bytes (storage_precision s)"
    using shard_digits [OF assms(3,2,1)] assms(4) by metis
  then have "box_index (dims_counts dims) (dims_digits cs dims) < prod_list ws"
    using box_index_less [of "dims_counts dims" "dims_digits cs dims"] by (simp add: index_by_digits_def)
  then have "Suc (box_index (dims_counts dims) (dims_digits cs dims)) * precision_bytes (storage_precision s)
      \<le> prod_list ws * precision_bytes (storage_precision s)" by (intro mult_le_mono1) simp
  then show ?thesis using ix a storage_bytes_Inr [OF assms(2,1)] by (simp add: index_by_digits_def add.commute)
qed

text \<open>
  C30: The element index of a shard is a bijection and its coordinate function is the inverse:
  for every storage order whose blocks fit the shard and every shard that fits the 32-bit
  allocation size, each coordinate has an index below the number of elements and the
  coordinate function returns it; and each index below that number has a coordinate, whose
  index it is. No coordinate or index in range fails or panics.
\<close>

theorem storage_index_round_trip:
  assumes "shard_widths s = Inr ws" and "storage_bytes s = Inr bytes" and "digits s = Inr ds"
  shows "(in_box ws cs \<longrightarrow>
      (\<exists>i<prod_list ws. physical_index s ws cs = Inr i \<and> physical_coordinates s ws i = Inr cs))
    \<and> (i < prod_list ws \<longrightarrow>
      (\<exists>cs. in_box ws cs \<and> physical_coordinates s ws i = Inr cs \<and> physical_index s ws cs = Inr i))"
  using assms by (rule index_bijection)

text \<open>
  C31: The digits that byte traversals are built from give the address of the index functions:
  for every storage order, the sum of the digits of a coordinate times their strides is the
  element index times the element size, and the whole element lies inside the allocation.
\<close>

theorem digits_address_the_element:
  assumes "shard_widths s = Inr ws" and "storage_bytes s = Inr bytes" and "digits s = Inr ds" and "in_box ws cs"
  shows "\<exists>i. physical_index s ws cs = Inr i \<and> digit_address ds cs = i * precision_bytes (storage_precision s)
    \<and> digit_address ds cs + precision_bytes (storage_precision s) \<le> bytes"
  using assms by (rule digits_address)

text \<open>A block-major shard of two 32 by 32 half-precision matrices.\<close>

definition sample_shard :: tensor_storage where
  "sample_shard = \<lparr>storage_format = \<lparr>precision_of = F16,
       layout_of = \<lparr>layout_order = BlockMajor (Matrix 32 16), layout_tiling = tiling_replicated 1, memory_class_of = Ipu21Standard\<rparr>\<rparr>,
     storage_extents = map (\<lambda>(a, n). \<lparr>extent_axis = a, extent_start = 0, logical_end = n, physical_end = n\<rparr>)
       [(0, 2), (1, 32), (2, 32)]\<rparr>"

lemma sample_shard_facts:
  "shard_widths sample_shard = Inr [2, 32, 32]" "storage_bytes sample_shard = Inr 4096"
  "\<exists>ds. digits sample_shard = Inr ds"
  by (simp_all add: sample_shard_def shard_widths_def extent_width_def storage_bytes_def digits_def order_digits_def
      storage_order_def storage_precision_def plain_digits_def block_sizes_def arith_defs)

theorem storage_index_round_trip_witness:
  "(\<exists>i<2048. physical_index sample_shard [2, 32, 32] [1, 20, 17] = Inr i
      \<and> physical_coordinates sample_shard [2, 32, 32] i = Inr [1, 20, 17])
   \<and> (\<exists>cs. physical_coordinates sample_shard [2, 32, 32] 100 = Inr cs \<and> physical_index sample_shard [2, 32, 32] cs = Inr 100)"
proof -
  obtain ds where ds: "digits sample_shard = Inr ds" using sample_shard_facts by blast
  from storage_index_round_trip [OF sample_shard_facts(1,2) ds, of "[1, 20, 17]" 100] show ?thesis by auto
qed

theorem digits_address_the_element_witness:
  "\<exists>ds i. digits sample_shard = Inr ds \<and> physical_index sample_shard [2, 32, 32] [1, 20, 17] = Inr i
    \<and> digit_address ds [1, 20, 17] = i * 2"
proof -
  obtain ds where ds: "digits sample_shard = Inr ds" using sample_shard_facts by blast
  from digits_address_the_element [OF sample_shard_facts(1,2) ds, of "[1, 20, 17]"] ds show ?thesis
    by (auto simp: sample_shard_def storage_precision_def)
qed

end
