(* ===== verification/Traversal.thy ===== *)
theory Traversal
  imports Storage "HOL-Library.Product_Lexorder" "HOL-Library.Multiset"
begin

text \<open>
  Byte traversals of tensor views (\<open>storage/traversal.rs\<close>): trees of contiguous runs,
  affine repeats and short sequences, the iterators that flatten them, and the traversals of a
  rectangular view in logical and in physical order.

  A span is a pair of an allocation-relative offset and a byte reps. \<open>node_spans\<close> is the list
  of runs a tree stands for; the lemmas show that the explicit stack of \<open>TreeIter\<close> yields
  exactly that list, that \<open>SpanIter\<close> merges the lists of the parts by offset and joins
  adjacent runs, and which bytes each traversal visits, in which order.

  Offsets are natural numbers: the source computes them in \<open>u32\<close> after \<open>storage_bytes\<close> has
  accepted the allocation, and the theorems place every visited byte inside it.
\<close>

subsection \<open>Trees\<close>

datatype node = Node (node_offset: nat) (node_kind: kind)
  and kind = Run nat | Repeat nat nat node | Sequence "node list"

definition node_shift :: "nat \<Rightarrow> node \<Rightarrow> node" where
  "node_shift offset n = Node (node_offset n + offset) (node_kind n)"

definition node_repeat :: "node \<Rightarrow> nat \<Rightarrow> nat \<Rightarrow> node" where
  "node_repeat n reps stride =
     (if reps = 1 then n
      else case node_kind n of
             Run bytes \<Rightarrow>
               if bytes = stride then Node (node_offset n) (Run (bytes * reps)) else Node 0 (Repeat reps stride n)
           | _ \<Rightarrow> Node 0 (Repeat reps stride n))"

definition node_sequence :: "node list \<Rightarrow> node" where
  "node_sequence parts = (case parts of [part] \<Rightarrow> part | _ \<Rightarrow> Node 0 (Sequence parts))"

record traversal =
  traversal_parts :: "node list"

subsection \<open>Iteration\<close>

type_synonym tree_stack = "(node \<times> nat \<times> nat) list"

text \<open>The work a stack entry stands for; the index selects the next child.\<close>

fun node_steps :: "node \<Rightarrow> nat" and kind_steps :: "kind \<Rightarrow> nat" where
  "node_steps (Node off k) = kind_steps k"
| "kind_steps (Run bytes) = 1"
| "kind_steps (Repeat reps stride body) = max 1 reps * Suc (node_steps body)"
| "kind_steps (Sequence parts) = Suc (sum_list (map (\<lambda>p. Suc (node_steps p)) parts))"

fun entry_steps :: "node \<times> nat \<times> nat \<Rightarrow> nat" where
  "entry_steps (Node off (Run bytes), base, index) = 1"
| "entry_steps (Node off (Repeat reps stride body), base, index) = max 1 (reps - index) * Suc (node_steps body)"
| "entry_steps (Node off (Sequence parts), base, index) = Suc (sum_list (map (\<lambda>p. Suc (node_steps p)) (drop index parts)))"

lemma entry_steps_0 [simp]: "entry_steps (n, base, 0) = node_steps n"
  by (cases n rule: node.exhaust, rename_tac off k, case_tac k) auto

definition stack_steps :: "tree_stack \<Rightarrow> nat" where
  "stack_steps stack = sum_list (map entry_steps stack)"

lemma entry_repeat:
  "node_steps body + (if Suc index < reps then entry_steps (Node off (Repeat reps stride body), base, Suc index) else 0)
   < entry_steps (Node off (Repeat reps stride body), base, index)"
proof (cases "Suc index < reps")
  case True
  then have "reps - index = Suc (reps - Suc index)" "1 \<le> reps - Suc index" by simp_all
  then have "max 1 (reps - index) * Suc (node_steps body)
      = max 1 (reps - Suc index) * Suc (node_steps body) + Suc (node_steps body)"
    by (simp only: max_def if_True if_False not_one_le_zero mult_Suc) simp
  then show ?thesis using True by simp
next
  case False
  have "1 * Suc (node_steps body) \<le> max 1 (reps - index) * Suc (node_steps body)" by (intro mult_le_mono1) simp
  then show ?thesis using False by simp
qed

lemma entry_sequence:
  "index < length parts \<Longrightarrow>
   node_steps (parts ! index) + (if Suc index < length parts then entry_steps (Node off (Sequence parts), base, Suc index) else 0)
   < entry_steps (Node off (Sequence parts), base, index)"
  by (simp add: Cons_nth_drop_Suc [symmetric])

lemma entry_pos: "0 < entry_steps e"
proof (cases e rule: entry_steps.cases)
  case (2 off reps stride body base index)
  have "0 < max 1 (reps - index)" by simp
  then show ?thesis unfolding 2 entry_steps.simps by (intro mult_pos_pos) simp_all
qed simp_all

text \<open>\<open>TreeIter::next\<close>; the head of the list is the top of the stack.\<close>

function tree_next :: "tree_stack \<Rightarrow> ((nat \<times> nat) \<times> tree_stack) option" where
  "tree_next [] = None"
| "tree_next ((Node off (Run bytes), base, index) # stack) = Some ((base + off, bytes), stack)"
| "tree_next ((Node off (Repeat reps stride body), base, index) # stack) =
     tree_next ((body, base + off + index * stride, 0) #
       (if index + 1 < reps then (Node off (Repeat reps stride body), base, index + 1) # stack else stack))"
| "tree_next ((Node off (Sequence parts), base, index) # stack) =
     (if index < length parts
      then tree_next ((parts ! index, base + off, 0) #
        (if index + 1 < length parts then (Node off (Sequence parts), base, index + 1) # stack else stack))
      else tree_next stack)"
  by pat_completeness auto
termination
proof (relation "measure stack_steps", goal_cases)
  case 1 show ?case by simp
next
  case (2 off reps stride body base index stack)
  show ?case using entry_repeat [of body index reps off stride base]
    by (cases "Suc index < reps") (simp_all add: stack_steps_def del: entry_steps.simps)
next
  case (3 off parts base index stack)
  then show ?case using entry_sequence [of index parts off base]
    by (cases "Suc index < length parts") (simp_all add: stack_steps_def del: entry_steps.simps)
next
  case (4 off parts base index stack)
  then show ?case by (simp add: stack_steps_def)
qed

lemma tree_next_steps: "tree_next stack = Some (s, stack') \<Longrightarrow> stack_steps stack' < stack_steps stack"
proof (induction stack rule: tree_next.induct)
  case (2 off bytes base index stack)
  then show ?case by (simp add: stack_steps_def)
next
  case (3 off reps stride body base index stack)
  then show ?case using entry_repeat [of body index reps off stride base]
    by (simp add: stack_steps_def del: entry_steps.simps split: if_splits)
next
  case (4 off parts base index stack)
  show ?case
  proof (cases "index < length parts")
    case True
    then show ?thesis using 4 entry_sequence [of index parts off base]
      by (simp add: stack_steps_def del: entry_steps.simps split: if_splits)
  next
    case False
    then show ?thesis using 4 by (simp add: stack_steps_def)
  qed
qed simp

text \<open>\<open>BinaryHeap::pop\<close> on reversed keys: the least element.\<close>

definition heap_pop :: "'a::linorder list \<Rightarrow> ('a \<times> 'a list) option" where
  "heap_pop xs = (if xs = [] then None else Some (Min (set xs), remove1 (Min (set xs)) xs))"

record span_iter =
  iter_trees :: "tree_stack list"
  iter_ready :: "(nat \<times> nat \<times> nat) list"
  iter_pending :: "(nat \<times> nat) option"

text \<open>The initial entries: one per part that has a run.\<close>

fun start_trees :: "nat \<Rightarrow> node list \<Rightarrow> tree_stack list \<times> (nat \<times> nat \<times> nat) list" where
  "start_trees i [] = ([], [])"
| "start_trees i (part # parts) =
     (let (trees, ready) = start_trees (Suc i) parts
      in case tree_next [(part, 0, 0)] of
           None \<Rightarrow> ([] # trees, ready)
         | Some ((offset, bytes), stack) \<Rightarrow> (stack # trees, (offset, bytes, i) # ready))"

definition span_start :: "traversal \<Rightarrow> span_iter" where
  "span_start t = (case start_trees 0 (traversal_parts t) of (trees, ready) \<Rightarrow>
     \<lparr>iter_trees = trees, iter_ready = ready, iter_pending = None\<rparr>)"

text \<open>Refill the heap from the tree the popped span came from; heap entries always name a tree.\<close>

definition refill :: "tree_stack list \<Rightarrow> (nat \<times> nat \<times> nat) list \<Rightarrow> nat \<Rightarrow> tree_stack list \<times> (nat \<times> nat \<times> nat) list" where
  "refill trees ready i =
     (if i < length trees
      then case tree_next (trees ! i) of
             None \<Rightarrow> (trees[i := []], ready)
           | Some ((offset, bytes), stack) \<Rightarrow> (trees[i := stack], (offset, bytes, i) # ready)
      else (trees, ready))"

definition iter_work :: "span_iter \<Rightarrow> nat" where
  "iter_work it = length (iter_ready it) + sum_list (map stack_steps (iter_trees it))"

lemma sum_list_update_le: "(y::nat) \<le> f (xs ! i) \<Longrightarrow> i < length xs \<Longrightarrow> f z = y \<Longrightarrow> sum_list (map f (xs[i := z])) + f (xs ! i) = sum_list (map f xs) + y"
proof (induction xs arbitrary: i)
  case (Cons x xs) then show ?case by (cases i) auto
qed simp

lemma refill_work:
  "refill trees ready i = (trees', ready') \<Longrightarrow>
   length ready' + sum_list (map stack_steps trees') \<le> length ready + sum_list (map stack_steps trees)"
proof (cases "i < length trees")
  case True
  assume r: "refill trees ready i = (trees', ready')"
  show ?thesis
  proof (cases "tree_next (trees ! i)")
    case None
    then show ?thesis using r True sum_list_update_le [of 0 stack_steps trees i "[]"]
      by (auto simp: refill_def stack_steps_def)
  next
    case (Some x)
    then obtain o' b st where x: "tree_next (trees ! i) = Some ((o', b), st)" by (metis surj_pair)
    have "stack_steps st < stack_steps (trees ! i)" using tree_next_steps [OF x] .
    then show ?thesis using r x True sum_list_update_le [of "stack_steps st" stack_steps trees i st]
      by (auto simp: refill_def)
  qed
next
  case False
  assume "refill trees ready i = (trees', ready')"
  then show ?thesis using False by (simp add: refill_def)
qed

lemma heap_pop_Some: "heap_pop xs = Some (m, ys) \<Longrightarrow> m \<in> set xs \<and> (\<forall>x\<in>set xs. m \<le> x) \<and> ys = remove1 m xs \<and> length xs = Suc (length ys)"
  by (auto simp: heap_pop_def length_remove1 split: if_splits)

lemma heap_pop_None [simp]: "heap_pop xs = None \<longleftrightarrow> xs = []" "heap_pop [] = None"
  by (simp_all add: heap_pop_def)

text \<open>\<open>SpanIter::next\<close>: join runs while they are adjacent, then hand over the pending one.\<close>

function span_next :: "span_iter \<Rightarrow> (nat \<times> nat) option \<times> span_iter" where
  "span_next it =
     (case heap_pop (iter_ready it) of
        None \<Rightarrow> (iter_pending it, it\<lparr>iter_pending := None\<rparr>)
      | Some ((offset, bytes, i), ready) \<Rightarrow>
         (let (trees, ready') = refill (iter_trees it) ready i
          in case iter_pending it of
               Some (start, width) \<Rightarrow>
                 if start + width = offset
                 then span_next \<lparr>iter_trees = trees, iter_ready = ready', iter_pending = Some (start, width + bytes)\<rparr>
                 else (Some (start, width), \<lparr>iter_trees = trees, iter_ready = ready', iter_pending = Some (offset, bytes)\<rparr>)
             | None \<Rightarrow> span_next \<lparr>iter_trees = trees, iter_ready = ready', iter_pending = Some (offset, bytes)\<rparr>))"
  by pat_completeness auto

termination
proof (relation "measure iter_work", goal_cases)
  case 1 show ?case by simp
next
  case (2 it x entry ready offset y bytes i z trees ready')
  then show ?case using refill_work [of "iter_trees it" ready i trees ready'] heap_pop_Some [of "iter_ready it" entry ready]
    by (simp add: iter_work_def)
next
  case (3 it x entry ready offset y bytes i z trees ready')
  then show ?case using refill_work [of "iter_trees it" ready i trees ready'] heap_pop_Some [of "iter_ready it" entry ready]
    by (simp add: iter_work_def)
qed

declare span_next.simps [simp del] entry_steps.simps [simp del]

text \<open>All the spans of a traversal, in the order the iterator yields them.\<close>

lemma span_next_empty: "iter_ready it = [] \<Longrightarrow> span_next it = (iter_pending it, it\<lparr>iter_pending := None\<rparr>)"
  by (subst span_next.simps) (simp add: heap_pop_def)

lemma span_next_pop:
  assumes "heap_pop (iter_ready it) = Some ((offset, bytes, i), ready)" and "refill (iter_trees it) ready i = (trees, ready')"
  shows "span_next it =
    (case iter_pending it of
       Some (start, width) \<Rightarrow>
         if start + width = offset
         then span_next \<lparr>iter_trees = trees, iter_ready = ready', iter_pending = Some (start, width + bytes)\<rparr>
         else (Some (start, width), \<lparr>iter_trees = trees, iter_ready = ready', iter_pending = Some (offset, bytes)\<rparr>)
     | None \<Rightarrow> span_next \<lparr>iter_trees = trees, iter_ready = ready', iter_pending = Some (offset, bytes)\<rparr>)"
  by (subst span_next.simps) (simp add: assms)

lemma span_next_work:
  "span_next it = (Some s, it') \<Longrightarrow>
   2 * iter_work it' + (if iter_pending it' = None then 0 else 1) < 2 * iter_work it + (if iter_pending it = None then 0 else 1)"
proof (induction it rule: span_next.induct)
  case (1 it)
  show ?case
  proof (cases "heap_pop (iter_ready it)")
    case None
    then show ?thesis using "1.prems" by (auto simp: span_next_empty iter_work_def)
  next
    case (Some x)
    obtain offset bytes i ready where x: "x = ((offset, bytes, i), ready)" by (metis surj_pair)
    obtain trees ready' where r: "refill (iter_trees it) ready i = (trees, ready')" by (metis surj_pair)
    let ?it = "\<lambda>p. \<lparr>iter_trees = trees, iter_ready = ready', iter_pending = Some p\<rparr>"
    have less: "iter_work (?it p) < iter_work it" for p
      using refill_work [OF r] heap_pop_Some [OF Some [unfolded x]] by (simp add: iter_work_def)
    show ?thesis
    proof (cases "iter_pending it")
      case None
      then have "span_next (?it (offset, bytes)) = (Some s, it')"
        using "1.prems" span_next_pop [OF Some [unfolded x] r] None by simp
      from "1.IH"(1) [OF Some x [symmetric] refl refl refl r [symmetric] None this] show ?thesis using less [of "(offset, bytes)"] None by simp
    next
      case p: (Some p)
      obtain start width where p': "p = (start, width)" by (metis surj_pair)
      show ?thesis
      proof (cases "start + width = offset")
        case True
        then have "span_next (?it (start, width + bytes)) = (Some s, it')"
          using "1.prems" span_next_pop [OF Some [unfolded x] r] p p' by simp
        from "1.IH"(2) [OF Some x [symmetric] refl refl refl r [symmetric] p p' [symmetric] True this] show ?thesis
          using less [of "(start, width + bytes)"] p by simp
      next
        case False
        then have "it' = ?it (offset, bytes)"
          using "1.prems" span_next_pop [OF Some [unfolded x] r] p p' by simp
        then show ?thesis using less [of "(offset, bytes)"] p by simp
      qed
    qed
  qed
qed

function span_list :: "span_iter \<Rightarrow> (nat \<times> nat) list" where
  "span_list it = (case span_next it of (None, _) \<Rightarrow> [] | (Some s, it') \<Rightarrow> s # span_list it')"
  by pat_completeness auto
termination
  by (relation "measure (\<lambda>it. 2 * iter_work it + (if iter_pending it = None then 0 else 1))")
    (auto dest: span_next_work [OF sym])

declare span_list.simps [simp del]

definition traversal_spans :: "traversal \<Rightarrow> (nat \<times> nat) list" where
  "traversal_spans t = span_list (span_start t)"

subsection \<open>Traversals of a view\<close>

fun axis_tree :: "digit list \<Rightarrow> nat \<Rightarrow> nat \<Rightarrow> node \<Rightarrow> node" where
  "axis_tree [] start stop suffix = suffix"
| "axis_tree (d # rest) start stop suffix =
     (let div_by = divisor d;
          first = start div div_by;
          final = (stop - 1) div div_by
      in if first = final
         then node_shift (first * digit_stride d)
                (axis_tree rest (start mod div_by) ((stop - 1) mod div_by + 1) suffix)
         else
        (let full_start = div_ceil start div_by;
             full_end = stop div div_by;
             head_part = (if \<not> is_multiple_of start div_by
               then [node_shift (first * digit_stride d) (axis_tree rest (start mod div_by) div_by suffix)] else []);
             full_part = (if full_start < full_end
               then [node_shift (full_start * digit_stride d)
                       (node_repeat (axis_tree rest 0 div_by suffix) (full_end - full_start) (digit_stride d))] else []);
             tail_part = (if \<not> is_multiple_of stop div_by
               then [node_shift (full_end * digit_stride d) (axis_tree rest 0 (stop mod div_by) suffix)] else [])
         in node_sequence (head_part @ full_part @ tail_part)))"

text \<open>
  \<open>axis_boxes\<close>: the boxes visited and the buffer of bounds afterwards, which the caller
  reuses. A box is a start and a reps for every digit of the shard.
\<close>

type_synonym bounds = "(nat \<times> nat) list"

fun axis_boxes :: "(nat \<times> digit) list \<Rightarrow> nat \<Rightarrow> nat \<Rightarrow> bounds \<Rightarrow> bounds list \<times> bounds" where
  "axis_boxes [] start stop bounds = ([bounds], bounds)"
| "axis_boxes ((index, d) # rest) start stop bounds =
     (let div_by = divisor d;
          first = start div div_by;
          final = (stop - 1) div div_by
      in if first = final
         then axis_boxes rest (start mod div_by) ((stop - 1) mod div_by + 1) (bounds[index := (first, 1)])
         else
        (let (head_boxes, bounds1) =
               (if \<not> is_multiple_of start div_by
                then axis_boxes rest (start mod div_by) div_by (bounds[index := (first, 1)]) else ([], bounds));
             (tail_boxes, bounds2) =
               (if \<not> is_multiple_of stop div_by
                then axis_boxes rest 0 (stop mod div_by) (bounds1[index := (stop div div_by, 1)]) else ([], bounds1));
             lo = div_ceil start div_by;
             hi = stop div div_by
         in if lo < hi
            then (let full = foldl (\<lambda>b (i, e). b[i := (0, digit_count e)]) (bounds2[index := (lo, hi - lo)]) rest
                  in (head_boxes @ tail_boxes @ [full], full))
            else (head_boxes @ tail_boxes, bounds2)))"

definition run_node :: "nat \<Rightarrow> node" where
  "run_node bytes = Node 0 (Run bytes)"

definition traversal_contiguous :: "nat \<times> nat \<Rightarrow> traversal" where
  "traversal_contiguous s = \<lparr>traversal_parts = [Node (fst s) (Run (snd s))]\<rparr>"

text \<open>The digits of one axis with their positions, largest divisor first (a stable sort).\<close>

definition axis_digits_of :: "digit list \<Rightarrow> nat \<Rightarrow> (nat \<times> digit) list" where
  "axis_digits_of ds axis = sort_key (\<lambda>(_, d). - int (divisor d)) (filter (\<lambda>(_, d). digit_axis d = axis) (enumerate 0 ds))"

text \<open>The range of a view on one axis, relative to the shard.\<close>

definition view_range :: "shard_extent \<Rightarrow> shard_extent \<Rightarrow> nat \<times> nat" where
  "view_range v e = (extent_start v - extent_start e, physical_end v - extent_start e)"

definition view_ranges :: "tensor_storage \<Rightarrow> shard_extent list \<Rightarrow> (nat \<times> nat) list" where
  "view_ranges s view = map (\<lambda>(v, e). view_range v e) (zip view (storage_extents s))"

text \<open>The semantic tree: the last axis innermost.\<close>

definition logical_tree :: "digit list \<Rightarrow> (nat \<times> nat) list \<Rightarrow> node \<Rightarrow> node" where
  "logical_tree ds ranges leaf =
     foldr (\<lambda>(axis, (start, stop)) tree. axis_tree (map snd (axis_digits_of ds axis)) start stop tree)
       (enumerate 0 ranges) leaf"

fun box_loop :: "(nat \<times> digit) list \<Rightarrow> nat \<Rightarrow> nat \<Rightarrow> bounds list \<Rightarrow> bounds list" where
  "box_loop axis start stop [] = []"
| "box_loop axis start stop (b # boxes) = fst (axis_boxes axis start stop b) @ box_loop axis start stop boxes"

definition view_boxes :: "digit list \<Rightarrow> (nat \<times> nat) list \<Rightarrow> bounds list" where
  "view_boxes ds ranges =
     foldl (\<lambda>boxes (axis, (start, stop)). box_loop (axis_digits_of ds axis) start stop boxes)
       [replicate (length ds) (0, 1)] (enumerate 0 ranges)"

definition box_node :: "digit list \<Rightarrow> node \<Rightarrow> bounds \<Rightarrow> node" where
  "box_node ds leaf bounds =
     foldl (\<lambda>n (d, (start, reps)). node_shift (start * digit_stride d) (node_repeat n reps (digit_stride d)))
       leaf (rev (zip ds bounds))"

definition byte_traversal :: "tensor_storage \<Rightarrow> shard_extent list \<Rightarrow> bool \<Rightarrow> traversal storage_result" where
  "byte_traversal s view physical =
     res_bind (validate_view s view) (\<lambda>_.
     if physical \<and> list_all (\<lambda>(a, b). extent_start a = extent_start b \<and> physical_end a = physical_end b)
                     (zip view (storage_extents s))
     then res_bind (storage_bytes s) (\<lambda>bytes. Inr (traversal_contiguous (0, bytes)))
     else if list_ex (\<lambda>e. extent_start e = physical_end e) view
     then Inr \<lparr>traversal_parts = []\<rparr>
     else
     res_bind (storage_bytes s) (\<lambda>_.
     res_bind (digits s) (\<lambda>ds.
     let leaf = run_node (precision_bytes (storage_precision s));
         ranges = view_ranges s view
     in Inr \<lparr>traversal_parts =
              (if physical then map (box_node ds leaf) (view_boxes ds ranges)
               else [logical_tree ds ranges leaf])\<rparr>)))"

subsection \<open>What a tree stands for\<close>

fun node_spans :: "node \<Rightarrow> nat \<Rightarrow> (nat \<times> nat) list" and kind_spans :: "kind \<Rightarrow> nat \<Rightarrow> (nat \<times> nat) list" where
  "node_spans (Node off k) base = kind_spans k (base + off)"
| "kind_spans (Run bytes) base = [(base, bytes)]"
| "kind_spans (Repeat reps stride body) base = concat (map (\<lambda>i. node_spans body (base + i * stride)) [0..<max 1 reps])"
| "kind_spans (Sequence parts) base = concat (map (\<lambda>p. node_spans p base) parts)"

fun entry_spans :: "node \<times> nat \<times> nat \<Rightarrow> (nat \<times> nat) list" where
  "entry_spans (Node off (Run bytes), base, index) = [(base + off, bytes)]"
| "entry_spans (Node off (Repeat reps stride body), base, index) =
     concat (map (\<lambda>i. node_spans body (base + off + i * stride)) [index..<max (Suc index) reps])"
| "entry_spans (Node off (Sequence parts), base, index) = concat (map (\<lambda>p. node_spans p (base + off)) (drop index parts))"

lemma entry_spans_0 [simp]: "entry_spans (n, base, 0) = node_spans n base"
proof (cases n)
  case (Node off k) then show ?thesis by (cases k) simp_all
qed

definition stack_spans :: "tree_stack \<Rightarrow> (nat \<times> nat) list" where
  "stack_spans stack = concat (map entry_spans stack)"

lemma stack_spans_simps [simp]: "stack_spans [] = []" "stack_spans (e # stack) = entry_spans e @ stack_spans stack"
  by (simp_all add: stack_spans_def)

text \<open>The iterator yields the spans of the tree.\<close>

lemma tree_next_spans:
  "stack_spans stack = (case tree_next stack of None \<Rightarrow> [] | Some (s, stack') \<Rightarrow> s # stack_spans stack')"
proof (induction stack rule: tree_next.induct)
  case (3 off reps stride body base index stack)
  have "[index..<max (Suc index) reps] = index # (if Suc index < reps then [Suc index..<max (Suc (Suc index)) reps] else [])"
    by (auto simp: upt_conv_Cons max_def)
  then have "entry_spans (Node off (Repeat reps stride body), base, index) = node_spans body (base + off + index * stride)
      @ (if Suc index < reps then entry_spans (Node off (Repeat reps stride body), base, Suc index) else [])"
    by simp
  then show ?case using 3 by (cases "Suc index < reps") (simp_all del: entry_spans.simps)
next
  case (4 off parts base index stack)
  show ?case
  proof (cases "index < length parts")
    case True
    then have "entry_spans (Node off (Sequence parts), base, index) = node_spans (parts ! index) (base + off)
        @ (if Suc index < length parts then entry_spans (Node off (Sequence parts), base, Suc index) else [])"
      by (simp add: Cons_nth_drop_Suc [symmetric])
    then show ?thesis using 4 True by (cases "Suc index < length parts") (simp_all del: entry_spans.simps)
  next
    case False
    then show ?thesis using 4 by simp
  qed
qed simp_all

lemma tree_next_None: "tree_next stack = None \<Longrightarrow> stack_spans stack = []"
  and tree_next_Some: "tree_next stack = Some (s, stack') \<Longrightarrow> stack_spans stack = s # stack_spans stack'"
  using tree_next_spans [of stack] by simp_all

subsection \<open>Merging the parts\<close>

text \<open>Joining adjacent spans, with the span under construction.\<close>

fun join_spans :: "(nat \<times> nat) option \<Rightarrow> (nat \<times> nat) list \<Rightarrow> (nat \<times> nat) list" where
  "join_spans None [] = []"
| "join_spans (Some p) [] = [p]"
| "join_spans None (s # ss) = join_spans (Some s) ss"
| "join_spans (Some (start, width)) ((offset, bytes) # ss) =
     (if start + width = offset then join_spans (Some (start, width + bytes)) ss
      else (start, width) # join_spans (Some (offset, bytes)) ss)"

lemma iter_work_pop:
  assumes "heap_pop (iter_ready it) = Some ((offset, bytes, i), ready)" and "refill (iter_trees it) ready i = (trees, ready')"
  shows "iter_work \<lparr>iter_trees = trees, iter_ready = ready', iter_pending = p\<rparr> < iter_work it"
  using refill_work [OF assms(2)] heap_pop_Some [OF assms(1)] by (simp add: iter_work_def)

text \<open>The spans in the order the heap releases them.\<close>

function released :: "span_iter \<Rightarrow> (nat \<times> nat) list" where
  "released it =
     (case heap_pop (iter_ready it) of
        None \<Rightarrow> []
      | Some ((offset, bytes, i), ready) \<Rightarrow>
         (case refill (iter_trees it) ready i of (trees, ready') \<Rightarrow>
            (offset, bytes) # released \<lparr>iter_trees = trees, iter_ready = ready', iter_pending = None\<rparr>))"
  by pat_completeness auto

termination
proof (relation "measure iter_work", goal_cases)
  case (2 it x entry ready offset y bytes i trees ready')
  then show ?case using iter_work_pop [of it offset bytes i ready trees ready'] by simp
qed simp

declare released.simps [simp del]

lemma released_empty: "iter_ready it = [] \<Longrightarrow> released it = []"
  by (subst released.simps) (simp add: heap_pop_def)

lemma released_pop:
  assumes "heap_pop (iter_ready it) = Some ((offset, bytes, i), ready)" and "refill (iter_trees it) ready i = (trees, ready')"
  shows "released it = (offset, bytes) # released \<lparr>iter_trees = trees, iter_ready = ready', iter_pending = p\<rparr>"
proof -
  have "released \<lparr>iter_trees = trees, iter_ready = ready', iter_pending = None\<rparr>
      = released \<lparr>iter_trees = trees, iter_ready = ready', iter_pending = p\<rparr>"
    by (subst (1 2) released.simps) (cases "heap_pop ready'"; auto split: prod.split)
  then show ?thesis by (subst released.simps) (simp add: assms)
qed

lemma span_next_released:
  "span_next it = (r, it') \<Longrightarrow>
   join_spans (iter_pending it) (released it) = (case r of None \<Rightarrow> [] | Some s \<Rightarrow> s # join_spans (iter_pending it') (released it'))"
proof (induction "iter_work it" arbitrary: it rule: less_induct)
  case less
  show ?case
  proof (cases "heap_pop (iter_ready it)")
    case None
    then have e: "iter_ready it = []" by simp
    then have "r = iter_pending it" "it' = it\<lparr>iter_pending := None\<rparr>" using less.prems by (simp_all add: span_next_empty)
    then show ?thesis using released_empty [OF e] released_empty [of it'] e by (cases "iter_pending it") simp_all
  next
    case (Some x)
    obtain offset bytes i ready where x: "heap_pop (iter_ready it) = Some ((offset, bytes, i), ready)" using Some by (metis surj_pair)
    obtain trees ready' where r: "refill (iter_trees it) ready i = (trees, ready')" by (metis surj_pair)
    let ?it = "\<lambda>p. \<lparr>iter_trees = trees, iter_ready = ready', iter_pending = Some p\<rparr>"
    note IH = less.hyps [OF iter_work_pop [OF x r]]
    note step = span_next_pop [OF x r] and rel = released_pop [OF x r]
    show ?thesis
    proof (cases "iter_pending it")
      case None
      then show ?thesis using less.prems step IH [of "Some (offset, bytes)"] rel [of "Some (offset, bytes)"] by simp
    next
      case (Some p)
      obtain start width where p: "p = (start, width)" by (metis surj_pair)
      show ?thesis
      proof (cases "start + width = offset")
        case True
        then show ?thesis using less.prems step IH [of "Some (start, width + bytes)"] rel [of "Some (start, width + bytes)"] Some p by simp
      next
        case False
        then have "r = Some (start, width)" "it' = ?it (offset, bytes)" using less.prems step Some p by simp_all
        then show ?thesis using False rel [of "Some (offset, bytes)"] Some p by simp
      qed
    qed
  qed
qed

lemma span_list_released: "span_list it = join_spans (iter_pending it) (released it)"
proof (induction it rule: span_list.induct)
  case (1 it)
  obtain r it' where n: "span_next it = (r, it')" by (metis surj_pair)
  show ?case
  proof (cases r)
    case None then show ?thesis using span_next_released [OF n] n by (subst span_list.simps) simp
  next
    case (Some s)
    then show ?thesis using span_next_released [OF n] n "1.IH" [OF n [symmetric] Some] by (subst span_list.simps) simp
  qed
qed

lemma released_single:
  "released \<lparr>iter_trees = [stack], iter_ready = [(offset, bytes, 0)], iter_pending = p\<rparr> = (offset, bytes) # stack_spans stack"
proof (induction "stack_steps stack" arbitrary: stack offset bytes p rule: less_induct)
  case less
  let ?it = "\<lparr>iter_trees = [stack], iter_ready = [(offset, bytes, 0)], iter_pending = p\<rparr>"
  have pop: "heap_pop (iter_ready ?it) = Some ((offset, bytes, 0), [])" by (simp add: heap_pop_def)
  show ?case
  proof (cases "tree_next stack")
    case None
    then have "refill (iter_trees ?it) [] 0 = ([[]], [])" by (simp add: refill_def)
    from released_pop [OF pop this] show ?thesis using tree_next_None [OF None] by (simp add: released_empty)
  next
    case (Some x)
    obtain o' b' stack' where x: "tree_next stack = Some ((o', b'), stack')" using Some by (metis surj_pair)
    then have "refill (iter_trees ?it) [] 0 = ([stack'], [(o', b', 0)])" by (simp add: refill_def)
    from released_pop [OF pop this] show ?thesis
      using less.hyps [OF tree_next_steps [OF x]] tree_next_Some [OF x] by simp
  qed
qed

lemma traversal_spans_single: "traversal_spans \<lparr>traversal_parts = [part]\<rparr> = join_spans None (node_spans part 0)"
proof (cases "tree_next [(part, 0, 0)]")
  case None
  then have "node_spans part 0 = []" using tree_next_None [OF None] by simp
  then show ?thesis using None
    by (simp add: traversal_spans_def span_start_def span_list_released released_empty)
next
  case (Some x)
  obtain offset bytes stack where x: "tree_next [(part, 0, 0)] = Some ((offset, bytes), stack)" using Some by (metis surj_pair)
  have "node_spans part 0 = (offset, bytes) # stack_spans stack" using tree_next_Some [OF x] by simp
  then show ?thesis using x released_single [of stack offset bytes None]
    by (simp add: traversal_spans_def span_start_def span_list_released)
qed

text \<open>Several parts, each in ascending order: the heap releases them in ascending order.\<close>

definition entry_span :: "nat \<times> nat \<times> nat \<Rightarrow> nat \<times> nat" where
  "entry_span = (\<lambda>(offset, bytes, i). (offset, bytes))"

definition tree_ok :: "(nat \<times> nat \<times> nat) list \<Rightarrow> nat \<Rightarrow> tree_stack \<Rightarrow> bool" where
  "tree_ok ready i stack \<longleftrightarrow>
     sorted (map fst (stack_spans stack))
   \<and> (\<forall>s\<in>set (stack_spans stack). \<exists>offset bytes. (offset, bytes, i) \<in> set ready \<and> offset \<le> fst s)"

definition heap_ok :: "span_iter \<Rightarrow> bool" where
  "heap_ok it \<longleftrightarrow>
     (\<forall>e\<in>set (iter_ready it). snd (snd e) < length (iter_trees it))
   \<and> (\<forall>i<length (iter_trees it). tree_ok (iter_ready it) i (iter_trees it ! i))"

lemma tree_ok_keep: "tree_ok ready k stack \<Longrightarrow> (\<And>x b. (x, b, k) \<in> set ready \<Longrightarrow> (x, b, k) \<in> set ready') \<Longrightarrow> tree_ok ready' k stack"
  unfolding tree_ok_def by blast

lemma tree_ok_empty: "stack_spans stack = [] \<Longrightarrow> tree_ok ready i stack"
  by (simp add: tree_ok_def)

lemma tree_ok_tail: "sorted (map fst ((x, b) # stack_spans stack)) \<Longrightarrow> tree_ok ((x, b, i) # ready) i stack"
  by (auto simp: tree_ok_def)

definition iter_mset :: "span_iter \<Rightarrow> (nat \<times> nat) multiset" where
  "iter_mset it = mset (map entry_span (iter_ready it)) + sum_list (map (mset \<circ> stack_spans) (iter_trees it))"

lemma in_sum_list_mset: "s \<in># sum_list (map f xs) \<longleftrightarrow> (\<exists>x\<in>set xs. s \<in># f x)"
  by (induction xs) auto

lemma sum_list_mset_update:
  "i < length xs \<Longrightarrow> f (xs ! i) = add_mset a (f z) \<Longrightarrow> sum_list (map f xs) = add_mset a (sum_list (map f (xs[i := z])))"
proof (induction xs arbitrary: i)
  case (Cons x xs) then show ?case by (cases i) auto
qed simp

lemma sum_list_same_update:
  "i < length xs \<Longrightarrow> f (xs ! i) = f z \<Longrightarrow> sum_list (map f (xs[i := z])) = sum_list (map f xs)"
proof (induction xs arbitrary: i)
  case (Cons x xs) then show ?case by (cases i) auto
qed simp

lemma heap_ok_minimum:
  assumes ok: "heap_ok it" and pop: "heap_pop (iter_ready it) = Some ((offset, bytes, i), ready)"
  shows "\<forall>s\<in>#iter_mset it. offset \<le> fst s"
proof
  fix s assume "s \<in># iter_mset it"
  note least = heap_pop_Some [OF pop]
  have ready: "offset \<le> o'" if "(o', b', k) \<in> set (iter_ready it)" for o' b' k
    using least that by (auto simp: less_eq_prod_def)
  from \<open>s \<in># iter_mset it\<close> consider "s \<in> entry_span ` set (iter_ready it)"
    | k where "k < length (iter_trees it)" "s \<in> set (stack_spans (iter_trees it ! k))"
    unfolding iter_mset_def by (auto simp: in_sum_list_mset) (metis in_set_conv_nth)
  then show "offset \<le> fst s"
  proof cases
    case 1 then show ?thesis using ready by (auto simp: entry_span_def)
  next
    case (2 k)
    then obtain o' b' where "(o', b', k) \<in> set (iter_ready it)" "o' \<le> fst s" using ok unfolding heap_ok_def tree_ok_def by blast
    then show ?thesis using ready by (metis le_trans)
  qed
qed

lemma refill_ok:
  assumes ok: "heap_ok it" and pop: "heap_pop (iter_ready it) = Some ((offset, bytes, i), ready)"
    and r: "refill (iter_trees it) ready i = (trees, ready')"
  shows "heap_ok \<lparr>iter_trees = trees, iter_ready = ready', iter_pending = p\<rparr>"
    and "iter_mset it = add_mset (offset, bytes) (iter_mset \<lparr>iter_trees = trees, iter_ready = ready', iter_pending = p\<rparr>)"
proof -
  let ?ts = "iter_trees it"
  note least = heap_pop_Some [OF pop]
  have i: "i < length ?ts" using ok least by (auto simp: heap_ok_def)
  have sub: "set ready \<subseteq> set (iter_ready it)" using least by (auto dest: set_remove1_subset [THEN subsetD])
  have keep: "(o', b', k) \<in> set ready" if "(o', b', k) \<in> set (iter_ready it)" "k \<noteq> i" for o' b' k
    using least that by simp
  have m: "mset (map entry_span (iter_ready it)) = add_mset (offset, bytes) (mset (map entry_span ready))"
  proof -
    have "mset (iter_ready it) = add_mset (offset, bytes, i) (mset ready)" using least by simp
    then show ?thesis by (simp add: entry_span_def)
  qed
  have both: "heap_ok \<lparr>iter_trees = trees, iter_ready = ready', iter_pending = p\<rparr>
      \<and> iter_mset it = add_mset (offset, bytes) (iter_mset \<lparr>iter_trees = trees, iter_ready = ready', iter_pending = p\<rparr>)"
  proof (cases "tree_next (?ts ! i)")
    case None
    then have e: "trees = ?ts[i := []]" "ready' = ready" using r i by (simp_all add: refill_def)
    have "stack_spans (?ts ! i) = []" by (rule tree_next_None [OF None])
    then have "sum_list (map (mset \<circ> stack_spans) (?ts[i := []])) = sum_list (map (mset \<circ> stack_spans) ?ts)"
      using i by (intro sum_list_same_update) simp_all
    then have "iter_mset it = add_mset (offset, bytes) (iter_mset \<lparr>iter_trees = trees, iter_ready = ready', iter_pending = p\<rparr>)"
      using m by (simp add: iter_mset_def e)
    moreover have "tree_ok ready k (?ts[i := []] ! k)" if "k < length ?ts" for k
    proof (cases "k = i")
      case True then show ?thesis using i by (simp add: tree_ok_empty)
    next
      case False
      then show ?thesis using ok that keep by (auto simp: heap_ok_def intro: tree_ok_keep)
    qed
    ultimately show ?thesis using ok sub by (auto simp: heap_ok_def e)
  next
    case (Some x)
    obtain o' b' st where x: "tree_next (?ts ! i) = Some ((o', b'), st)" using Some by (metis surj_pair)
    then have e: "trees = ?ts[i := st]" "ready' = (o', b', i) # ready" using r i by (simp_all add: refill_def)
    have sp: "stack_spans (?ts ! i) = (o', b') # stack_spans st" by (rule tree_next_Some [OF x])
    then have "sum_list (map (mset \<circ> stack_spans) ?ts) = add_mset (o', b') (sum_list (map (mset \<circ> stack_spans) (?ts[i := st])))"
      using i by (intro sum_list_mset_update) simp_all
    then have ms: "iter_mset it = add_mset (offset, bytes) (iter_mset \<lparr>iter_trees = trees, iter_ready = ready', iter_pending = p\<rparr>)"
      using m by (simp add: iter_mset_def e entry_span_def)
    have st: "sorted (map fst ((o', b') # stack_spans st))" using ok i sp by (metis heap_ok_def tree_ok_def)
    have "tree_ok ready' k (?ts[i := st] ! k)" if "k < length ?ts" for k
    proof (cases "k = i")
      case True then show ?thesis using i tree_ok_tail [OF st] by (simp add: e)
    next
      case False
      then show ?thesis using ok that keep by (auto simp: heap_ok_def e intro: tree_ok_keep)
    qed
    then have "heap_ok \<lparr>iter_trees = trees, iter_ready = ready', iter_pending = p\<rparr>"
      using ok sub i by (auto simp: heap_ok_def e)
    then show ?thesis using ms by simp
  qed
  then show "heap_ok \<lparr>iter_trees = trees, iter_ready = ready', iter_pending = p\<rparr>"
    "iter_mset it = add_mset (offset, bytes) (iter_mset \<lparr>iter_trees = trees, iter_ready = ready', iter_pending = p\<rparr>)"
    by simp_all
qed

lemma released_sorted:
  "heap_ok it \<Longrightarrow> mset (released it) = iter_mset it \<and> sorted (map fst (released it))"
proof (induction "iter_work it" arbitrary: it rule: less_induct)
  case less
  show ?case
  proof (cases "heap_pop (iter_ready it)")
    case None
    then have e: "iter_ready it = []" by simp
    then have "stack_spans t = []" if "t \<in> set (iter_trees it)" for t
    proof -
      obtain k where "k < length (iter_trees it)" "t = iter_trees it ! k" using \<open>t \<in> set (iter_trees it)\<close> by (metis in_set_conv_nth)
      then have "tree_ok [] k t" using less.prems e by (auto simp: heap_ok_def)
      then show ?thesis by (cases "stack_spans t") (auto simp: tree_ok_def)
    qed
    then have "sum_list (map (mset \<circ> stack_spans) (iter_trees it)) = {#}"
      by (intro multiset_eqI) (auto simp: in_sum_list_mset simp flip: not_in_iff)
    then show ?thesis using e by (simp add: released_empty iter_mset_def)
  next
    case (Some x)
    obtain offset bytes i ready where x: "heap_pop (iter_ready it) = Some ((offset, bytes, i), ready)" using Some by (metis surj_pair)
    obtain trees ready' where r: "refill (iter_trees it) ready i = (trees, ready')" by (metis surj_pair)
    let ?it = "\<lparr>iter_trees = trees, iter_ready = ready', iter_pending = None\<rparr>"
    note ok = refill_ok [OF less.prems x r, of None]
    have IH: "mset (released ?it) = iter_mset ?it" "sorted (map fst (released ?it))"
      using less.hyps [OF iter_work_pop [OF x r] ok(1)] by simp_all
    have "\<forall>s\<in>#iter_mset ?it. offset \<le> fst s" using heap_ok_minimum [OF less.prems x] ok(2) by simp
    then have "\<forall>s\<in>set (released ?it). offset \<le> fst s" using IH(1) by (metis set_mset_mset)
    then show ?thesis using IH ok(2) released_pop [OF x r, of None] by simp
  qed
qed

lemma start_trees_facts:
  assumes "start_trees i parts = (trees, ready)"
  shows "length trees = length parts \<and> (\<forall>e\<in>set ready. i \<le> snd (snd e) \<and> snd (snd e) < i + length parts)
    \<and> ((\<forall>p\<in>set parts. sorted (map fst (node_spans p 0))) \<longrightarrow> (\<forall>k<length trees. tree_ok ready (i + k) (trees ! k)))
    \<and> mset (map entry_span ready) + sum_list (map (mset \<circ> stack_spans) trees)
      = mset (concat (map (\<lambda>p. node_spans p 0) parts))"
  using assms
proof (induction parts arbitrary: i trees ready)
  case (Cons part parts)
  obtain trees' ready' where r: "start_trees (Suc i) parts = (trees', ready')" by (metis surj_pair)
  note IH = Cons.IH [OF r]
  show ?case
  proof (cases "tree_next [(part, 0, 0)]")
    case None
    then have e: "trees = [] # trees'" "ready = ready'" using Cons.prems r by simp_all
    have "node_spans part 0 = []" using tree_next_None [OF None] by simp
    moreover have "tree_ok ready (i + k) (trees ! k)" if "k < length trees" "\<forall>p\<in>set (part # parts). sorted (map fst (node_spans p 0))" for k
      using IH that by (cases k) (auto simp: e tree_ok_empty)
    ultimately show ?thesis using IH by (auto simp: e)
  next
    case (Some x)
    obtain x' b st where x: "tree_next [(part, 0, 0)] = Some ((x', b), st)" using Some by (metis surj_pair)
    then have e: "trees = st # trees'" "ready = (x', b, i) # ready'" using Cons.prems r by simp_all
    have sp: "node_spans part 0 = (x', b) # stack_spans st" using tree_next_Some [OF x] by simp
    have "tree_ok ready (i + k) (trees ! k)" if "k < length trees" "\<forall>p\<in>set (part # parts). sorted (map fst (node_spans p 0))" for k
    proof (cases k)
      case 0
      have "sorted (map fst ((x', b) # stack_spans st))" using that(2) sp by simp
      then show ?thesis using tree_ok_tail 0 by (simp add: e)
    next
      case (Suc m)
      then have "tree_ok ready' (Suc i + m) (trees' ! m)" using IH that by (simp add: e)
      then have "tree_ok ready (Suc i + m) (trees' ! m)" by (rule tree_ok_keep) (simp add: e)
      then show ?thesis using Suc by (simp add: e)
    qed
    then show ?thesis using IH sp by (auto simp: e entry_span_def)
  qed
qed simp

lemma traversal_spans_sorted:
  assumes "\<forall>p\<in>set (traversal_parts t). sorted (map fst (node_spans p 0))"
  shows "\<exists>ss. traversal_spans t = join_spans None ss \<and> sorted (map fst ss)
    \<and> mset ss = mset (concat (map (\<lambda>p. node_spans p 0) (traversal_parts t)))"
proof -
  obtain trees ready where r: "start_trees 0 (traversal_parts t) = (trees, ready)" by (metis surj_pair)
  note f = start_trees_facts [OF r]
  have "heap_ok (span_start t)" using f assms by (auto simp: span_start_def r heap_ok_def)
  from released_sorted [OF this] f show ?thesis
    by (intro exI [of _ "released (span_start t)"])
      (simp add: traversal_spans_def span_list_released span_start_def r iter_mset_def)
qed

text \<open>The bytes of a list of spans, in order.\<close>

definition span_bytes :: "(nat \<times> nat) list \<Rightarrow> nat list" where
  "span_bytes ss = concat (map (\<lambda>(offset, bytes). [offset..<offset + bytes]) ss)"

lemma span_bytes_simps [simp]:
  "span_bytes [] = []" "span_bytes ((offset, bytes) # ss) = [offset..<offset + bytes] @ span_bytes ss"
  "span_bytes (ss @ ss') = span_bytes ss @ span_bytes ss'"
  by (simp_all add: span_bytes_def)

lemma join_spans_bytes: "span_bytes (join_spans p ss) = (case p of None \<Rightarrow> [] | Some s \<Rightarrow> span_bytes [s]) @ span_bytes ss"
proof (induction p ss rule: join_spans.induct)
  case (4 start width offset bytes ss)
  have "[start..<start + (width + bytes)] = [start..<start + width] @ [start + width..<start + width + bytes]"
    using upt_add_eq_append [of start "start + width" bytes] by (simp add: add.assoc)
  then show ?case using 4 by auto
qed (auto split: prod.splits)

subsection \<open>The bytes a tree visits\<close>

definition node_bytes :: "node \<Rightarrow> nat \<Rightarrow> nat list" where
  "node_bytes n base = span_bytes (node_spans n base)"

lemma span_bytes_concat: "span_bytes (concat xss) = concat (map span_bytes xss)"
  by (induction xss) simp_all

lemma node_spans_shift: "node_spans (node_shift offset n) base = node_spans n (base + offset)"
  by (cases n) (simp add: node_shift_def add_ac)

lemma node_bytes_shift [simp]: "node_bytes (node_shift offset n) base = node_bytes n (base + offset)"
  by (simp add: node_bytes_def node_spans_shift)

lemma node_spans_sequence [simp]: "node_spans (node_sequence parts) base = concat (map (\<lambda>p. node_spans p base) parts)"
  by (auto simp: node_sequence_def split: list.split)

lemma node_bytes_sequence [simp]: "node_bytes (node_sequence parts) base = concat (map (\<lambda>p. node_bytes p base) parts)"
  by (simp add: node_bytes_def span_bytes_concat comp_def)

lemma concat_runs: "concat (map (\<lambda>i. [b + i * s..<b + i * s + s]) [0..<n]) = [b..<b + s * (n::nat)]"
proof (induction n)
  case (Suc n)
  then show ?case using upt_add_eq_append [of b "b + s * n" s] by (simp add: algebra_simps)
qed simp

lemma node_bytes_repeat:
  assumes "0 < reps"
  shows "node_bytes (node_repeat n reps stride) base = concat (map (\<lambda>i. node_bytes n (base + i * stride)) [0..<reps])"
proof -
  obtain off k where n: "n = Node off k" by (cases n)
  have general: "node_bytes (Node 0 (Repeat reps stride n)) base = concat (map (\<lambda>i. node_bytes n (base + i * stride)) [0..<reps])"
    using assms by (simp add: node_bytes_def span_bytes_concat comp_def max_def)
  show ?thesis
  proof (cases "reps = 1")
    case True then show ?thesis by (simp add: node_repeat_def)
  next
    case False
    show ?thesis
    proof (cases "k = Run stride")
      case True
      have "node_bytes (node_repeat n reps stride) base = [base + off..<base + off + stride * reps]"
        using False by (simp add: node_repeat_def n True node_bytes_def)
      also have "\<dots> = concat (map (\<lambda>i. [base + off + i * stride..<base + off + i * stride + stride]) [0..<reps])"
        by (simp only: concat_runs)
      also have "\<dots> = concat (map (\<lambda>i. node_bytes n (base + i * stride)) [0..<reps])"
        by (simp add: n True node_bytes_def add_ac)
      finally show ?thesis .
    next
      case k: False
      then have "node_repeat n reps stride = Node 0 (Repeat reps stride n)"
        using False by (auto simp: node_repeat_def n split: kind.split)
      then show ?thesis using general by simp
    qed
  qed
qed

subsection \<open>One axis\<close>

text \<open>The digits of an axis, outermost first, decompose the coordinates below \<open>width\<close>.\<close>

fun digit_chain :: "digit list \<Rightarrow> nat \<Rightarrow> bool" where
  "digit_chain [] width \<longleftrightarrow> width = 1"
| "digit_chain (d # ds) width \<longleftrightarrow> 0 < divisor d \<and> divisor d * digit_count d = width \<and> digit_chain ds (divisor d)"

fun axis_address :: "digit list \<Rightarrow> nat \<Rightarrow> nat" where
  "axis_address [] x = 0"
| "axis_address (d # ds) x = digit_stride d * (x div divisor d) + axis_address ds (x mod divisor d)"

lemma digit_chain_pos: "digit_chain ds width \<Longrightarrow> 0 < x \<Longrightarrow> x \<le> width \<Longrightarrow> 0 < width"
  by linarith

lemma map_upt_shift: "map (\<lambda>x. f (k + x)) [a..<b] = map f [k + a..<k + (b::nat)]"
  by (induction b) auto

lemma upt_blocks: "lo \<le> hi \<Longrightarrow> concat (map (\<lambda>i. map (\<lambda>x. f (i * d + x)) [0..<d]) [lo..<hi]) = map f [lo * d..<hi * (d::nat)]"
proof (induction hi)
  case (Suc hi)
  show ?case
  proof (cases "lo = Suc hi")
    case False
    then have le: "lo \<le> hi" using Suc.prems by simp
    have "map (\<lambda>x. f (hi * d + x)) [0..<d] = map f [hi * d..<hi * d + d]"
      using map_upt_shift [of f "hi * d" 0 d] by simp
    moreover have "[lo * d..<Suc hi * d] = [lo * d..<hi * d] @ [hi * d..<hi * d + d]"
      using upt_add_eq_append [of "lo * d" "hi * d" d] le by (simp add: add.commute)
    ultimately show ?thesis using Suc.IH [OF le] le by simp
  qed simp
qed simp

lemma upt_add_eq_append': "i \<le> j \<Longrightarrow> j \<le> k \<Longrightarrow> [i..<k] = [i..<j] @ [j..<k]"
  using upt_add_eq_append [of i j "k - j"] by simp

lemma concat_concat: "concat (concat xss) = concat (map concat xss)"
  by (induction xss) simp_all

lemma div_range: "0 < d \<Longrightarrow> (a::nat) div d * d \<le> a \<and> a < a div d * d + d"
  using div_mult_mod_eq [of a d] mod_less_divisor [of d a] by (intro conjI impI) linarith+

text \<open>The tree of a range visits the suffix once per coordinate, in ascending order.\<close>

lemma axis_tree_bytes:
  "digit_chain ds width \<Longrightarrow> start < stop \<Longrightarrow> stop \<le> width \<Longrightarrow>
   node_bytes (axis_tree ds start stop suffix) base
     = concat (map (\<lambda>x. node_bytes suffix (base + axis_address ds x)) [start..<stop])"
proof (induction ds arbitrary: start stop width base)
  case Nil
  then have "start = 0" "stop = 1" by simp_all
  then show ?case by simp
next
  case (Cons d rest)
  let ?d = "divisor d" and ?s = "digit_stride d"
  have d: "0 < ?d" "digit_chain rest ?d" using Cons.prems(1) by simp_all
  let ?g = "\<lambda>x. node_bytes suffix (base + axis_address (d # rest) x)"
  have block: "node_bytes (axis_tree rest a b suffix) (base + i * ?s) = concat (map ?g [i * ?d + a..<i * ?d + b])"
    if "a < b" "b \<le> ?d" for a b i
  proof -
    have "node_bytes (axis_tree rest a b suffix) (base + i * ?s)
        = concat (map (\<lambda>x. node_bytes suffix (base + i * ?s + axis_address rest x)) [a..<b])"
      by (rule Cons.IH [OF d(2) that])
    also have "map (\<lambda>x. node_bytes suffix (base + i * ?s + axis_address rest x)) [a..<b] = map (\<lambda>x. ?g (i * ?d + x)) [a..<b]"
      using that(2) d(1) by (intro map_cong refl) (simp add: algebra_simps)
    also have "\<dots> = map ?g [i * ?d + a..<i * ?d + b]" by (rule map_upt_shift)
    finally show ?thesis .
  qed
  define first final where "first = start div ?d" and "final = (stop - 1) div ?d"
  have fr: "first * ?d \<le> start" "start < first * ?d + ?d" using div_range [OF d(1), of start] by (simp_all add: first_def)
  have lr: "final * ?d \<le> stop - 1" "stop - 1 < final * ?d + ?d" using div_range [OF d(1), of "stop - 1"] by (simp_all add: final_def)
  show ?case
  proof (cases "first = final")
    case True
    have "stop - 1 = first * ?d + (stop - 1) mod ?d" using div_mult_mod_eq [of "stop - 1" ?d] True by (simp add: final_def)
    then have m: "start = first * ?d + start mod ?d" "stop = first * ?d + ((stop - 1) mod ?d + 1)"
    proof -
      show "start = first * ?d + start mod ?d" by (simp add: first_def)
      have "stop = (stop - 1) + 1" using Cons.prems(2) by simp
      then show "stop = first * ?d + ((stop - 1) mod ?d + 1)"
        using \<open>stop - 1 = first * ?d + (stop - 1) mod ?d\<close> by (metis add.assoc)
    qed
    have r: "start mod ?d < (stop - 1) mod ?d + 1" "(stop - 1) mod ?d + 1 \<le> ?d"
      using m Cons.prems(2) mod_less_divisor [OF d(1), of "stop - 1"] by linarith+
    have "axis_tree (d # rest) start stop suffix
        = node_shift (first * ?s) (axis_tree rest (start mod ?d) ((stop - 1) mod ?d + 1) suffix)"
      using True by (simp add: Let_def first_def final_def)
    then have "node_bytes (axis_tree (d # rest) start stop suffix) base
        = node_bytes (axis_tree rest (start mod ?d) ((stop - 1) mod ?d + 1) suffix) (base + first * ?s)"
      by (simp only: node_bytes_shift)
    also have "\<dots> = concat (map ?g [start..<stop])" using block [OF r, of first] by (simp only: m [symmetric])
    finally show ?thesis .
  next
    case False
    moreover have "first \<le> final" using Cons.prems(2) by (auto simp: first_def final_def intro: div_le_mono)
    ultimately have ff: "first < final" by simp
    define fs fe where "fs = div_ceil start ?d" and "fe = stop div ?d"
    have e: "fe * ?d + stop mod ?d = stop" "first * ?d + start mod ?d = start" by (simp_all add: fe_def first_def)
    have "final \<le> fe" by (simp add: final_def fe_def div_le_mono)
    have fsd: "fs = (if start mod ?d = 0 then first else Suc first)" by (simp add: fs_def div_ceil_def first_def)
    then have le: "fs \<le> fe" using ff \<open>final \<le> fe\<close> by simp
    have sd: "start \<le> fs * ?d" using e(2) fr by (auto simp: fsd)
    have ed: "fe * ?d \<le> stop" using e(1) by linarith
    have mid: "fs * ?d \<le> fe * ?d" using le by (rule mult_le_mono1)
    define hd_part full_part tl_part where
      "hd_part = (if \<not> is_multiple_of start ?d then [node_shift (first * ?s) (axis_tree rest (start mod ?d) ?d suffix)] else [])"
      and "full_part = (if fs < fe then [node_shift (fs * ?s) (node_repeat (axis_tree rest 0 ?d suffix) (fe - fs) ?s)] else [])"
      and "tl_part = (if \<not> is_multiple_of stop ?d then [node_shift (fe * ?s) (axis_tree rest 0 (stop mod ?d) suffix)] else [])"
    have tree: "axis_tree (d # rest) start stop suffix = node_sequence (hd_part @ full_part @ tl_part)"
      using False by (simp add: Let_def first_def final_def fs_def fe_def hd_part_def full_part_def tl_part_def)
    let ?b = "\<lambda>p. node_bytes p base"
    have "concat (map ?b hd_part) = concat (map ?g [start..<fs * ?d])"
    proof (cases "start mod ?d = 0")
      case True then show ?thesis using e(2) d(1) by (simp add: hd_part_def is_multiple_of_def fsd)
    next
      case m: False
      then show ?thesis using block [of "start mod ?d" ?d first] d(1) e(2)
        by (simp add: hd_part_def is_multiple_of_def fsd add.commute)
    qed
    moreover have "concat (map ?b full_part) = concat (map ?g [fs * ?d..<fe * ?d])"
    proof (cases "fs < fe")
      case True
      have "node_bytes (node_repeat (axis_tree rest 0 ?d suffix) (fe - fs) ?s) (base + fs * ?s)
          = concat (map (\<lambda>i. node_bytes (axis_tree rest 0 ?d suffix) (base + fs * ?s + i * ?s)) [0..<fe - fs])"
        using True by (intro node_bytes_repeat) simp
      also have "\<dots> = concat (map (\<lambda>i. concat (map ?g [(i + fs) * ?d + 0..<(i + fs) * ?d + ?d])) [0..<fe - fs])"
      proof -
        have "node_bytes (axis_tree rest 0 ?d suffix) (base + fs * ?s + i * ?s) = concat (map ?g [(i + fs) * ?d + 0..<(i + fs) * ?d + ?d])" for i
        proof -
          have "base + fs * ?s + i * ?s = base + (i + fs) * ?s" by (simp add: add_mult_distrib)
          then show ?thesis using block [of 0 ?d "i + fs"] d(1) by (simp only: le_refl)
        qed
        then show ?thesis by (simp only:)
      qed
      also have "\<dots> = concat (map (\<lambda>i. concat (map ?g [i * ?d..<i * ?d + ?d])) (map (\<lambda>i. i + fs) [0..<fe - fs]))" by (simp add: comp_def)
      also have "map (\<lambda>i. i + fs) [0..<fe - fs] = [fs..<fe]" using le by (simp add: map_add_upt)
      also have "concat (map (\<lambda>i. concat (map ?g [i * ?d..<i * ?d + ?d])) [fs..<fe])
          = concat (concat (map (\<lambda>i. map (\<lambda>x. ?g (i * ?d + x)) [0..<?d]) [fs..<fe]))"
      proof -
        have "map ?g [i * ?d..<i * ?d + ?d] = map (\<lambda>x. ?g (i * ?d + x)) [0..<?d]" for i
          using map_upt_shift [of ?g "i * ?d" 0 ?d] by simp
        then show ?thesis by (simp only: concat_concat map_map comp_def)
      qed
      also have "\<dots> = concat (map ?g [fs * ?d..<fe * ?d])" using upt_blocks [OF le, of ?g ?d] by (rule arg_cong [where f = concat])
      finally show ?thesis using True by (simp add: full_part_def)
    next
      case False then show ?thesis using le by (simp add: full_part_def)
    qed
    moreover have "concat (map ?b tl_part) = concat (map ?g [fe * ?d..<stop])"
    proof (cases "stop mod ?d = 0")
      case True then show ?thesis using e(1) d(1) by (simp add: tl_part_def is_multiple_of_def)
    next
      case m: False
      then show ?thesis using block [of 0 "stop mod ?d" fe] d(1) e(1) mod_less_divisor [OF d(1), of stop]
        by (simp add: tl_part_def is_multiple_of_def)
    qed
    moreover have "[start..<stop] = [start..<fs * ?d] @ [fs * ?d..<fe * ?d] @ [fe * ?d..<stop]"
      using upt_add_eq_append' [of start "fs * ?d" stop] upt_add_eq_append' [of "fs * ?d" "fe * ?d" stop] sd mid ed by simp
    ultimately show ?thesis by (simp only: tree node_bytes_sequence map_append concat_append)
  qed
qed

subsection \<open>The digits of a shard, axis by axis\<close>

fun dims_chain :: "(nat \<times> nat \<times> nat) list \<Rightarrow> nat \<Rightarrow> bool" where
  "dims_chain [] width \<longleftrightarrow> width = 1"
| "dims_chain ((a, d, n) # dims) width \<longleftrightarrow> 0 < d \<and> d * n = width \<and> dims_chain dims d"

lemma digit_chain_dims: "digit_chain ds width = dims_chain (map digit_dim ds) width"
  by (induction ds arbitrary: width) (simp_all add: digit_dim_def)

lemma filter_plain_digits:
  "filter (\<lambda>(x, y). x = a) (plain_digits ws) = (if a < length ws then [(a, 1, ws ! a)] else [])"
proof (induction ws rule: rev_induct)
  case (snoc w ws)
  then show ?case by (auto simp: plain_digits_def enumerate_append_eq nth_append less_Suc_eq)
qed (simp add: plain_digits_def)

lemma plain_digits_axes: "d \<in> set (plain_digits ws) \<Longrightarrow> fst d < length ws"
  by (auto simp: plain_digits_def in_set_enumerate_eq)

lemma split_matrix: "2 \<le> length ws \<Longrightarrow> \<exists>outs R C. ws = outs @ [R, C]"
proof -
  assume "2 \<le> length ws"
  then have "length (drop (length ws - 2) ws) = Suc (Suc 0)" by simp
  then obtain R C where "drop (length ws - 2) ws = [R, C]" unfolding length_Suc_conv by auto
  then have "ws = take (length ws - 2) ws @ [R, C]" using append_take_drop_id [of "length ws - 2" ws] by simp
  then show ?thesis by blast
qed

lemma dims_axes_chain:
  assumes "order_digits ord p ws = Inr dims"
  shows "(\<forall>d\<in>set dims. fst d < length ws) \<and> (\<forall>a<length ws. dims_chain (filter (\<lambda>(x, y). x = a) dims) (ws ! a))"
proof (cases "ord = RowMajor")
  case True
  then have "dims = plain_digits ws" using assms by (simp add: order_digits_def)
  then show ?thesis using plain_digits_axes by (auto simp: filter_plain_digits)
next
  case False
  then have "\<not> length ws < 2" using assms by (intro notI) (simp add: order_digits_def storage_fail_def)
  then obtain outs R C where ws: "ws = outs @ [R, C]" using split_matrix [of ws] by auto
  let ?n = "length outs"
  define m where "m = amp_micro_dimension p"
  have m: "0 < m" by (simp add: m_def)
  have k: "0 < AMP_COLUMN_MICRO" by (simp add: AMP_COLUMN_MICRO_def)
  note mul = is_multiple_elim [of m] is_multiple_elim [of AMP_COLUMN_MICRO]
  have outer: "fst d < length ws" if "d \<in> set (plain_digits outs)" for d using plain_digits_axes [OF that] ws by simp
  have inner: ?thesis
    if "dims_chain (filter (\<lambda>(x, y). x = ?n) inn) R" "dims_chain (filter (\<lambda>(x, y). x = Suc ?n) inn) C"
      "\<forall>d\<in>set inn. ?n \<le> fst d \<and> fst d < Suc (Suc ?n)"
      "set dims = set (plain_digits outs) \<union> set inn"
      "\<And>a. filter (\<lambda>(x, y). x = a) dims = (if a < ?n then [(a, 1, outs ! a)] else filter (\<lambda>(x, y). x = a) inn)" for inn
  proof -
    note chains = that(1,2) and flt = that(5)
    have "dims_chain (filter (\<lambda>(x, y). x = a) dims) (ws ! a)" if "a < length ws" for a
    proof -
      consider "a < ?n" | "a = ?n" | "a = Suc ?n" using \<open>a < length ws\<close> ws by fastforce
      then show ?thesis by cases (simp_all add: flt ws nth_append chains)
    qed
    then show ?thesis using that outer ws by auto
  qed
  have none: "filter (\<lambda>(x, y). x = a) inn = []" if "a < ?n" "\<forall>d\<in>set inn. ?n \<le> fst d" for a and inn :: "(nat \<times> nat \<times> nat) list"
    using that by (auto simp: filter_empty_conv)
  show ?thesis
  proof (cases ord)
    case (Amp role)
    show ?thesis
    proof (cases role)
      case Left
      let ?inn = "[(Suc ?n, m, C div m), (?n, 1, R), (Suc ?n, 1, m)]"
      have "is_multiple_of C m" "dims = [(Suc ?n, m, C div m)] @ plain_digits outs @ [(?n, 1, R), (Suc ?n, 1, m)]"
        using assms by (auto simp: order_digits_def Amp Left ws Let_def storage_fail_def m_def split: if_splits)
      then show ?thesis using m mul by (intro inner [of ?inn]) (auto simp: filter_plain_digits mult.commute)
    next
      case TransposedLeft
      let ?inn = "[(?n, m, R div m), (Suc ?n, 1, C), (?n, 1, m)]"
      have "is_multiple_of R m" "dims = plain_digits outs @ ?inn"
        using assms by (auto simp: order_digits_def Amp TransposedLeft ws Let_def storage_fail_def m_def split: if_splits)
      then show ?thesis using m mul by (intro inner [of ?inn]) (auto simp: filter_plain_digits mult.commute)
    next
      case TransposedRight
      let ?k = AMP_COLUMN_MICRO
      let ?inn = "[(?n, ?k, R div ?k), (Suc ?n, m, C div m), (?n, 1, ?k), (Suc ?n, 1, m)]"
      have "is_multiple_of R ?k" "is_multiple_of C m" "dims = plain_digits outs @ ?inn"
        using assms by (auto simp: order_digits_def Amp TransposedRight ws Let_def storage_fail_def m_def split: if_splits)
      then show ?thesis using m k mul by (intro inner [of ?inn]) (auto simp: filter_plain_digits mult.commute)
    qed
  next
    case (BlockMajor b)
    define t where "t = transposed_order ord"
    define r c X Y where "r = (if t then Suc ?n else ?n)" and "c = (if t then ?n else Suc ?n)"
      and "X = (if t then C else R)" and "Y = (if t then R else C)"
    let ?rb = "row_block b" and ?cb = "column_block b"
    let ?inn = "[(r, ?rb, X div ?rb), (c, ?cb, Y div ?cb), (r, m, ?rb div m), (c, 1, ?cb), (r, 1, m)]"
    have g: "0 < ?rb" "0 < ?cb" "is_multiple_of X ?rb" "is_multiple_of Y ?cb" "is_multiple_of ?rb m"
      and dims: "dims = plain_digits outs @ ?inn"
      using assms BlockMajor
      by (auto simp: order_digits_def block_sizes_def ws Let_def storage_fail_def r_def c_def X_def Y_def t_def m_def split: if_splits)
    have e: "?rb * (X div ?rb) = X" "?cb * (Y div ?cb) = Y" "m * (?rb div m) = ?rb"
      using is_multiple_elim [OF g(1,3)] is_multiple_elim [OF g(2,4)] is_multiple_elim [OF m g(5)] by (simp_all add: mult.commute)
    then show ?thesis using m g(1,2) dims
      by (intro inner [of ?inn]) (auto simp: filter_plain_digits r_def c_def X_def Y_def)
  qed (use False in simp)
qed

lemma digit_chain_divides: "digit_chain ds width \<Longrightarrow> d \<in> set ds \<Longrightarrow> 0 < divisor d \<and> divisor d * digit_count d dvd width"
proof (induction ds arbitrary: width)
  case (Cons e ds)
  show ?case
  proof (cases "d = e")
    case True then show ?thesis using Cons.prems by simp
  next
    case False
    then have "0 < divisor d" "divisor d * digit_count d dvd divisor e" using Cons.IH [of "divisor e"] Cons.prems by simp_all
    moreover have "divisor e dvd width" using Cons.prems(1) by auto
    ultimately show ?thesis by (meson dvd_trans)
  qed
qed simp

lemma mod_digit:
  assumes "0 < d" and "d * n dvd w"
  shows "(x mod w) div d mod n = x div d mod (n::nat)"
proof -
  have w: "is_multiple_of w d" using assms(2) by (auto simp: is_multiple_of_dvd intro: dvd_trans [of d "d * n"])
  obtain k where k: "w = d * n * k" using assms(2) by (auto elim: dvdE)
  have "n dvd w div d" using assms(1) k by (simp add: mult.assoc)
  then show ?thesis using mod_block [OF assms(1) w, of x] by (simp add: mod_mod_cancel)
qed

lemma axis_address_sum:
  "digit_chain ds width \<Longrightarrow> x < width \<Longrightarrow>
   axis_address ds x = sum_list (map (\<lambda>d. digit_stride d * (x div divisor d mod digit_count d)) ds)"
proof (induction ds arbitrary: width x)
  case (Cons d ds)
  have d: "0 < divisor d" "digit_chain ds (divisor d)" "x < divisor d * digit_count d" using Cons.prems by simp_all
  have "x div divisor d < digit_count d" using d(1,3) by (simp add: less_mult_imp_div_less mult.commute)
  moreover have "(x mod divisor d) div divisor e mod digit_count e = x div divisor e mod digit_count e" if "e \<in> set ds" for e
    using digit_chain_divides [OF d(2) that] by (simp add: mod_digit)
  then have "map (\<lambda>e. digit_stride e * ((x mod divisor d) div divisor e mod digit_count e)) ds
      = map (\<lambda>e. digit_stride e * (x div divisor e mod digit_count e)) ds" by (intro map_cong) simp_all
  then have "axis_address ds (x mod divisor d) = sum_list (map (\<lambda>e. digit_stride e * (x div divisor e mod digit_count e)) ds)"
    using Cons.IH [OF d(2), of "x mod divisor d"] d(1) by (simp only: mod_less_divisor)
  ultimately show ?case by simp
qed simp

lemma digit_chain_descending: "digit_chain ds width \<Longrightarrow> sorted (map (\<lambda>d. - int (divisor d)) ds)"
proof (induction ds arbitrary: width)
  case (Cons d ds)
  have "divisor e \<le> divisor d" if "e \<in> set ds" for e
  proof -
    have "0 < divisor e \<and> divisor e * digit_count e dvd divisor d" using digit_chain_divides [of ds "divisor d" e] Cons.prems that by simp
    then show ?thesis using Cons.prems by (metis digit_chain.simps(2) dvd_imp_le dvd_mult_left)
  qed
  then show ?case using Cons by auto
qed simp

lemma sum_list_partition:
  "(\<And>x. x \<in> set xs \<Longrightarrow> ax x < n) \<Longrightarrow>
   sum_list (map (\<lambda>a. sum_list (map f (filter (\<lambda>x. ax x = a) xs))) [0..<n]) = (sum_list (map f xs) :: nat)"
proof (induction xs)
  case (Cons x xs)
  have "sum_list (map (\<lambda>a. if ax x = a then f x + g a else g a) [0..<m]) = (if ax x < m then f x else 0) + sum_list (map g [0..<m])"
    for g :: "nat \<Rightarrow> nat" and m
    by (induction m) auto
  moreover have "(\<lambda>a. sum_list (map f (filter (\<lambda>x. ax x = a) (x # xs))))
      = (\<lambda>a. if ax x = a then f x + sum_list (map f (filter (\<lambda>x. ax x = a) xs)) else sum_list (map f (filter (\<lambda>x. ax x = a) xs)))"
    by auto
  ultimately show ?case using Cons by simp
qed (induction n; simp)

definition axis_chain :: "digit list \<Rightarrow> nat \<Rightarrow> digit list" where
  "axis_chain ds a = filter (\<lambda>d. digit_axis d = a) ds"

text \<open>The facts about the digits of a shard that the traversals rest on.\<close>

lemma digits_axes:
  assumes "digits s = Inr ds" and "shard_widths s = Inr ws"
  shows "\<forall>d\<in>set ds. digit_axis d < length ws"
    and "a < length ws \<Longrightarrow> digit_chain (axis_chain ds a) (ws ! a)"
    and "a < length ws \<Longrightarrow> axis_digits_of ds a = filter (\<lambda>(_, d). digit_axis d = a) (enumerate 0 ds)"
    and "a < length ws \<Longrightarrow> map snd (axis_digits_of ds a) = axis_chain ds a"
    and "in_box ws cs \<Longrightarrow> digit_address ds cs = sum_list (map (\<lambda>a. axis_address (axis_chain ds a) (cs ! a)) [0..<length ws])"
proof -
  obtain dims whole where d: "order_digits (storage_order s) (storage_precision s) ws = Inr dims"
    "assign_strides dims (precision_bytes (storage_precision s)) = Inr (ds, whole)"
    using digits_Inr [OF assms(1)] assms(2) by auto
  have m: "map digit_dim ds = dims" using assign_strides_Inr [OF d(2)] by blast
  note chain = dims_axes_chain [OF d(1)]
  show ax: "\<forall>d\<in>set ds. digit_axis d < length ws" using chain m by (fastforce simp: digit_dim_def)
  show ch: "digit_chain (axis_chain ds a) (ws ! a)" if "a < length ws" for a
  proof -
    have "map digit_dim (axis_chain ds a) = filter (\<lambda>(x, y). x = a) dims"
      unfolding m [symmetric] axis_chain_def by (simp add: filter_map comp_def digit_dim_def case_prod_unfold)
    then show ?thesis using chain that by (simp add: digit_chain_dims)
  qed
  have snd_filter: "map snd (filter (\<lambda>(_, d). digit_axis d = a) (enumerate k ds)) = axis_chain ds a" for a k
    unfolding axis_chain_def by (induction ds arbitrary: k) auto
  show e: "axis_digits_of ds a = filter (\<lambda>(_, d). digit_axis d = a) (enumerate 0 ds)" if "a < length ws" for a
  proof -
    let ?f = "filter (\<lambda>(_, d). digit_axis d = a) (enumerate 0 ds)"
    have "map (\<lambda>(_, d). - int (divisor d)) ?f = map (\<lambda>d. - int (divisor d)) (map snd ?f)" by (simp add: case_prod_unfold)
    then have "sorted (map (\<lambda>(_, d). - int (divisor d)) ?f)"
      using digit_chain_descending [OF ch [OF that]] by (simp only: snd_filter)
    then show ?thesis by (simp add: axis_digits_of_def sort_key_id_if_sorted)
  qed
  show "map snd (axis_digits_of ds a) = axis_chain ds a" if "a < length ws" using e [OF that] snd_filter by simp
  show "digit_address ds cs = sum_list (map (\<lambda>a. axis_address (axis_chain ds a) (cs ! a)) [0..<length ws])" if "in_box ws cs"
  proof -
    have "axis_address (axis_chain ds a) (cs ! a) = sum_list (map (\<lambda>d. digit_stride d * digit_value cs d) (filter (\<lambda>d. digit_axis d = a) ds))"
      if "a < length ws" for a
    proof -
      have "axis_address (axis_chain ds a) (cs ! a)
          = sum_list (map (\<lambda>d. digit_stride d * (cs ! a div divisor d mod digit_count d)) (axis_chain ds a))"
        using \<open>in_box ws cs\<close> that by (intro axis_address_sum [OF ch]) (simp_all add: in_box_nth)
      moreover have "map (\<lambda>d. digit_stride d * (cs ! a div divisor d mod digit_count d)) (axis_chain ds a)
          = map (\<lambda>d. digit_stride d * digit_value cs d) (axis_chain ds a)"
        by (intro map_cong refl) (simp add: axis_chain_def digit_value_def)
      ultimately show ?thesis by (simp only: axis_chain_def)
    qed
    then have "map (\<lambda>a. axis_address (axis_chain ds a) (cs ! a)) [0..<length ws]
        = map (\<lambda>a. sum_list (map (\<lambda>d. digit_stride d * digit_value cs d) (filter (\<lambda>d. digit_axis d = a) ds))) [0..<length ws]"
      by (intro map_cong) simp_all
    moreover have "sum_list (map (\<lambda>a. sum_list (map (\<lambda>d. digit_stride d * digit_value cs d) (filter (\<lambda>d. digit_axis d = a) ds))) [0..<length ws])
        = digit_address ds cs"
      unfolding digit_address_def using ax by (intro sum_list_partition) simp
    ultimately show ?thesis by (simp only:)
  qed
qed

subsection \<open>The logical traversal\<close>

lemma axis_trees_bytes:
  assumes "\<forall>(a, (start, stop))\<in>set xs. digit_chain (A a) (W a) \<and> start < stop \<and> stop \<le> W a"
  shows "node_bytes (foldr (\<lambda>(a, (start, stop)) tree. axis_tree (A a) start stop tree) xs leaf) base
    = concat (map (\<lambda>cs. node_bytes leaf (base + sum_list (map2 (\<lambda>(a, r) c. axis_address (A a) c) xs cs)))
        (product_lists (map (\<lambda>(a, (start, stop)). [start..<stop]) xs)))"
  using assms
proof (induction xs arbitrary: base)
  case (Cons x xs)
  obtain a start stop where x: "x = (a, (start, stop))" by (metis surj_pair)
  let ?tree = "foldr (\<lambda>(a, (start, stop)) tree. axis_tree (A a) start stop tree) xs leaf"
  have "node_bytes (axis_tree (A a) start stop ?tree) base
      = concat (map (\<lambda>c. node_bytes ?tree (base + axis_address (A a) c)) [start..<stop])"
    using Cons.prems by (intro axis_tree_bytes [of _ "W a"]) (auto simp: x)
  also have "\<dots> = concat (map (\<lambda>c. concat (map (\<lambda>cs. node_bytes leaf (base + axis_address (A a) c
        + sum_list (map2 (\<lambda>(a, r) c. axis_address (A a) c) xs cs)))
        (product_lists (map (\<lambda>(a, (start, stop)). [start..<stop]) xs)))) [start..<stop])"
    using Cons by simp
  finally show ?case by (simp add: x concat_concat map_concat comp_def add.assoc)
qed simp

text \<open>The coordinates of a view in row-major order, relative to the shard, and their bytes.\<close>

definition view_coordinates :: "tensor_storage \<Rightarrow> shard_extent list \<Rightarrow> nat list list" where
  "view_coordinates s view = product_lists (map (\<lambda>(start, stop). [start..<stop]) (view_ranges s view))"

definition shard_shape :: "tensor_storage \<Rightarrow> nat list" where
  "shard_shape s = map (\<lambda>e. physical_end e - extent_start e) (storage_extents s)"

definition element_bytes :: "tensor_storage \<Rightarrow> nat list \<Rightarrow> nat list" where
  "element_bytes s cs =
     (let size = precision_bytes (storage_precision s)
      in case physical_index s (shard_shape s) cs of Inl e \<Rightarrow> [] | Inr i \<Rightarrow> [i * size..<i * size + size])"

lemma validate_view_Inr:
  assumes "validate_view s view = Inr u"
  shows "length view = length (storage_extents s)" and "shard_widths s = Inr (shard_shape s)"
    and "length (view_ranges s view) = length (shard_shape s)" and "length (shard_shape s) = length view"
    and "k < length view \<Longrightarrow> fst (view_ranges s view ! k) \<le> snd (view_ranges s view ! k) \<and> snd (view_ranges s view ! k) \<le> shard_shape s ! k"
proof -
  have len: "length view = length (storage_extents s)"
    and ok: "\<not> list_ex (\<lambda>(v, e). bad_view_extent v e) (zip view (storage_extents s))"
    using assms by (simp_all add: validate_view_def storage_fail_def split: if_splits)
  have "\<not> bad_view_extent (view ! k) (storage_extents s ! k)" if "k < length view" for k
  proof -
    have "(view ! k, storage_extents s ! k) \<in> set (zip view (storage_extents s))" unfolding set_zip using that len by auto
    moreover have "\<forall>x\<in>set (zip view (storage_extents s)). \<not> (case x of (v, e) \<Rightarrow> bad_view_extent v e)"
      using ok unfolding list_ex_iff by blast
    ultimately have "\<not> (case (view ! k, storage_extents s ! k) of (v, e) \<Rightarrow> bad_view_extent v e)" by (rule bspec [rotated])
    then show ?thesis by simp
  qed
  then have v: "length view = length (storage_extents s)"
    "\<forall>k<length view. \<not> bad_view_extent (view ! k) (storage_extents s ! k)" using len by auto
  show "length view = length (storage_extents s)" by (rule v(1))
  show "length (view_ranges s view) = length (shard_shape s)" "length (shard_shape s) = length view"
    using v(1) by (simp_all add: view_ranges_def shard_shape_def)
  have "extent_width e = Inr (physical_end e - extent_start e)" if "e \<in> set (storage_extents s)" for e
  proof -
    from that obtain k where k: "k < length (storage_extents s)" "e = storage_extents s ! k" unfolding in_set_conv_nth by blast
    then have "\<not> bad_view_extent (view ! k) e" using v(2) len by (simp add: k(2))
    then have "extent_start e \<le> physical_end e" unfolding bad_view_extent_def by linarith
    then show ?thesis by (simp add: extent_width_def checked_sub_def)
  qed
  then show "shard_widths s = Inr (shard_shape s)" unfolding shard_widths_def shard_shape_def by (rule traverse_all)
  show "fst (view_ranges s view ! k) \<le> snd (view_ranges s view ! k) \<and> snd (view_ranges s view ! k) \<le> shard_shape s ! k"
    if "k < length view"
  proof -
    have "\<not> bad_view_extent (view ! k) (storage_extents s ! k)" using v that by blast
    then show ?thesis using that v(1) by (simp add: view_ranges_def view_range_def shard_shape_def bad_view_extent_def diff_le_mono)
  qed
qed

lemma in_product_lists: "cs \<in> set (product_lists xss) \<longleftrightarrow> list_all2 (\<lambda>c xs. c \<in> set xs) cs xss"
  by (induction xss arbitrary: cs) (auto simp: list_all2_Cons2)

lemma view_coordinates_iff:
  "cs \<in> set (view_coordinates s view) \<longleftrightarrow> length cs = length (view_ranges s view)
    \<and> (\<forall>k<length cs. fst (view_ranges s view ! k) \<le> cs ! k \<and> cs ! k < snd (view_ranges s view ! k))"
  by (auto simp: view_coordinates_def in_product_lists list_all2_conv_all_nth case_prod_unfold)

lemma view_coordinates_in_box:
  assumes "validate_view s view = Inr u" and "cs \<in> set (view_coordinates s view)"
  shows "in_box (shard_shape s) cs"
  using assms(2) validate_view_Inr [OF assms(1)] by (fastforce simp: view_coordinates_iff in_box_nth)

lemma element_bytes_address:
  assumes "validate_view s view = Inr u" and "storage_bytes s = Inr total_bytes" and "digits s = Inr ds" and "in_box (shard_shape s) cs"
  shows "element_bytes s cs = [digit_address ds cs..<digit_address ds cs + precision_bytes (storage_precision s)]"
    and "digit_address ds cs + precision_bytes (storage_precision s) \<le> total_bytes"
  using digits_address [OF validate_view_Inr(2) [OF assms(1)] assms(2,3,4)] by (auto simp: element_bytes_def Let_def)

lemma map2_enumerate:
  "length cs = length xs \<Longrightarrow> map2 (\<lambda>(a, r) c. f a c) (enumerate k xs) cs = map (\<lambda>a. f a (cs ! (a - k))) [k..<k + length xs]"
proof (induction xs arbitrary: k cs)
  case (Cons x xs)
  then obtain c cs' where "cs = c # cs'" by (cases cs) auto
  moreover have "map (\<lambda>a. f a ((c # cs') ! (a - k))) [Suc k..<Suc k + length xs] = map (\<lambda>a. f a (cs' ! (a - Suc k))) [Suc k..<Suc k + length xs]"
  proof (intro map_cong refl)
    fix a assume "a \<in> set [Suc k..<Suc k + length xs]"
    then have "a - k = Suc (a - Suc k)" by auto
    then show "f a ((c # cs') ! (a - k)) = f a (cs' ! (a - Suc k))" by simp
  qed
  moreover have "[k..<k + length (x # xs)] = k # [Suc k..<Suc k + length xs]" by (simp add: upt_conv_Cons del: upt_Suc)
  ultimately show ?case using Cons.IH [of cs' "Suc k"] Cons.prems by (simp del: upt_Suc)
qed simp

lemma logical_tree_bytes:
  assumes v: "validate_view s view = Inr u" and b: "storage_bytes s = Inr total_bytes" and ds: "digits s = Inr ds"
    and ne: "\<forall>r\<in>set (view_ranges s view). fst r < snd r"
  shows "node_bytes (logical_tree ds (view_ranges s view) (run_node (precision_bytes (storage_precision s)))) 0
    = concat (map (element_bytes s) (view_coordinates s view))"
proof -
  note vv = validate_view_Inr [OF v]
  note ax = digits_axes [OF ds vv(2)]
  let ?rs = "view_ranges s view" and ?e = "precision_bytes (storage_precision s)"
  let ?A = "\<lambda>a. map snd (axis_digits_of ds a)"
  have "\<forall>(a, (start, stop))\<in>set (enumerate 0 ?rs). digit_chain (?A a) (shard_shape s ! a) \<and> start < stop \<and> stop \<le> shard_shape s ! a"
  proof -
    have "digit_chain (?A a) (shard_shape s ! a) \<and> start < stop \<and> stop \<le> shard_shape s ! a"
      if "(a, (start, stop)) \<in> set (enumerate 0 ?rs)" for a start stop
    proof -
      have "a < length ?rs" "?rs ! a = (start, stop)" using that by (auto simp: in_set_enumerate_eq)
      then show ?thesis using ax(2,4) [of a] vv(3,4) vv(5) [of a] ne by (metis fst_conv nth_mem snd_conv)
    qed
    then show ?thesis by auto
  qed
  note t = axis_trees_bytes [where A = ?A and W = "\<lambda>a. shard_shape s ! a" and leaf = "run_node ?e", OF this, of 0]
  have pl: "map (\<lambda>(a, (start, stop)). [start..<stop]) (enumerate 0 ?rs) = map (\<lambda>(start, stop). [start..<stop]) ?rs"
    by (rule nth_equalityI) (simp_all add: nth_enumerate_eq)
  have "node_bytes (run_node ?e) (0 + sum_list (map2 (\<lambda>(a, r) c. axis_address (?A a) c) (enumerate 0 ?rs) cs)) = element_bytes s cs"
    if "cs \<in> set (view_coordinates s view)" for cs
  proof -
    have box: "in_box (shard_shape s) cs" by (rule view_coordinates_in_box [OF v that])
    have len: "length cs = length ?rs" using that by (simp add: view_coordinates_iff)
    have "sum_list (map2 (\<lambda>(a, r) c. axis_address (?A a) c) (enumerate 0 ?rs) cs)
        = sum_list (map (\<lambda>a. axis_address (?A a) (cs ! a)) [0..<length (shard_shape s)])"
      using map2_enumerate [OF len, of "\<lambda>a. axis_address (?A a)" 0] vv(3) by simp
    also have "\<dots> = digit_address ds cs"
    proof -
      have "map (\<lambda>a. axis_address (?A a) (cs ! a)) [0..<length (shard_shape s)]
          = map (\<lambda>a. axis_address (axis_chain ds a) (cs ! a)) [0..<length (shard_shape s)]"
        by (intro map_cong refl) (simp add: ax(4))
      then show ?thesis unfolding ax(5) [OF box] by (rule arg_cong)
    qed
    finally show ?thesis using element_bytes_address(1) [OF v b ds box] by (simp add: run_node_def node_bytes_def)
  qed
  then show ?thesis unfolding logical_tree_def t pl view_coordinates_def [symmetric] by (simp cong: map_cong)
qed

lemma empty_view_coordinates: "r \<in> set (view_ranges s view) \<Longrightarrow> snd r \<le> fst r \<Longrightarrow> view_coordinates s view = []"
proof -
  assume r: "r \<in> set (view_ranges s view)" "snd r \<le> fst r"
  then obtain k where k: "k < length (view_ranges s view)" "view_ranges s view ! k = r" by (metis in_set_conv_nth)
  have "cs \<notin> set (view_coordinates s view)" for cs
  proof
    assume "cs \<in> set (view_coordinates s view)"
    then have "fst r \<le> cs ! k" "cs ! k < snd r" using k by (auto simp: view_coordinates_iff)
    then show False using r(2) by simp
  qed
  then show ?thesis by (metis last_in_set)
qed

lemma view_extent_ok:
  assumes "validate_view s view = Inr u" and "k < length view"
  shows "\<not> bad_view_extent (view ! k) (storage_extents s ! k)"
    and "view_ranges s view ! k = view_range (view ! k) (storage_extents s ! k)"
proof -
  have ok: "\<forall>x\<in>set (zip view (storage_extents s)). \<not> (case x of (v, e) \<Rightarrow> bad_view_extent v e)"
    using assms(1) unfolding validate_view_def storage_fail_def list_ex_iff by (auto split: if_splits)
  have len: "length view = length (storage_extents s)" by (rule validate_view_Inr(1) [OF assms(1)])
  have "(view ! k, storage_extents s ! k) \<in> set (zip view (storage_extents s))" unfolding set_zip using assms(2) len by auto
  then show "\<not> bad_view_extent (view ! k) (storage_extents s ! k)" using bspec [OF ok] by fastforce
  show "view_ranges s view ! k = view_range (view ! k) (storage_extents s ! k)"
    using assms(2) len by (simp add: view_ranges_def)
qed

lemma view_nonempty:
  assumes "validate_view s view = Inr u"
  shows "(\<forall>r\<in>set (view_ranges s view). fst r < snd r) \<longleftrightarrow> \<not> list_ex (\<lambda>e. extent_start e = physical_end e) view"
proof -
  note vv = validate_view_Inr [OF assms]
  have "fst (view_ranges s view ! k) < snd (view_ranges s view ! k) \<longleftrightarrow> extent_start (view ! k) \<noteq> physical_end (view ! k)"
    if "k < length view" for k
  proof -
    have "extent_start (storage_extents s ! k) \<le> extent_start (view ! k) \<and> extent_start (view ! k) \<le> physical_end (view ! k)"
      using view_extent_ok(1) [OF assms that] unfolding bad_view_extent_def by linarith
    then show ?thesis by (simp add: view_extent_ok(2) [OF assms that] view_range_def) linarith
  qed
  then show ?thesis unfolding list_ex_iff all_set_conv_all_nth Bex_def in_set_conv_nth using vv(3,4) by auto
qed

text \<open>
  C32: The logical traversal of a view: for every storage order, the spans the iterator yields
  list the bytes of the view's elements in row-major order of their coordinates, each element
  at the address of the index function, once, and every byte lies inside the allocation.
\<close>

theorem logical_traversal_visits_the_view:
  assumes "byte_traversal s view False = Inr t"
  shows "span_bytes (traversal_spans t) = concat (map (element_bytes s) (view_coordinates s view))
    \<and> (\<forall>cs\<in>set (view_coordinates s view). length (element_bytes s cs) = precision_bytes (storage_precision s))
    \<and> (\<forall>x\<in>set (span_bytes (traversal_spans t)). \<exists>n. storage_bytes s = Inr n \<and> x < n)"
proof -
  obtain u where v: "validate_view s view = Inr u" using assms by (auto simp: byte_traversal_def res_simps)
  show ?thesis
  proof (cases "list_ex (\<lambda>e. extent_start e = physical_end e) view")
    case True
    then obtain r where r: "r \<in> set (view_ranges s view)" "\<not> fst r < snd r" using view_nonempty [OF v] by blast
    have "t = \<lparr>traversal_parts = []\<rparr>" using assms True v by (simp add: byte_traversal_def)
    then have "traversal_spans t = []" by (simp add: traversal_spans_def span_start_def span_list_released released_empty)
    then show ?thesis using empty_view_coordinates [OF r(1)] r(2) by simp
  next
    case False
    then have ne: "\<forall>r\<in>set (view_ranges s view). fst r < snd r" using view_nonempty [OF v] by blast
    obtain n ds where b: "storage_bytes s = Inr n" and ds: "digits s = Inr ds"
      and t: "t = \<lparr>traversal_parts = [logical_tree ds (view_ranges s view) (run_node (precision_bytes (storage_precision s)))]\<rparr>"
      using assms v False by (auto simp: byte_traversal_def res_simps Let_def)
    have bytes: "span_bytes (traversal_spans t) = concat (map (element_bytes s) (view_coordinates s view))"
      unfolding t traversal_spans_single join_spans_bytes using logical_tree_bytes [OF v b ds ne] by (simp add: node_bytes_def)
    have e: "length (element_bytes s cs) = precision_bytes (storage_precision s) \<and> (\<forall>x\<in>set (element_bytes s cs). x < n)"
      if "cs \<in> set (view_coordinates s view)" for cs
      using element_bytes_address [OF v b ds view_coordinates_in_box [OF v that]] by simp
    then have "\<forall>x\<in>set (span_bytes (traversal_spans t)). x < n" unfolding bytes by auto
    then show ?thesis using bytes e b by blast
  qed
qed

text \<open>A slice of the block-major sample shard that cuts its blocks.\<close>

definition sample_view :: "shard_extent list" where
  "sample_view = map (\<lambda>(a, b, e). \<lparr>extent_axis = a, extent_start = b, logical_end = e, physical_end = e\<rparr>)
     [(0, 0, 2), (1, 4, 20), (2, 10, 30)]"

lemma sample_view_facts:
  "\<exists>t. byte_traversal sample_shard sample_view True = Inr t"
  "\<exists>t. byte_traversal sample_shard sample_view False = Inr t"
  "view_coordinates sample_shard sample_view = product_lists [[0..<2], [4..<20], [10..<30]]"
proof -
  have v: "\<exists>u. validate_view sample_shard sample_view = Inr u"
    by (simp add: sample_shard_def sample_view_def validate_view_def bad_view_extent_def)
  show "\<exists>t. byte_traversal sample_shard sample_view True = Inr t" "\<exists>t. byte_traversal sample_shard sample_view False = Inr t"
    using v sample_shard_facts by (auto simp: byte_traversal_def sample_view_def Let_def)
  show "view_coordinates sample_shard sample_view = product_lists [[0..<2], [4..<20], [10..<30]]"
    by (simp add: view_coordinates_def view_ranges_def view_range_def sample_shard_def sample_view_def del: upt_rec_numeral upt_Suc)
qed

theorem logical_traversal_visits_the_view_witness:
  "\<exists>t. byte_traversal sample_shard sample_view False = Inr t
    \<and> span_bytes (traversal_spans t) = concat (map (element_bytes sample_shard) (product_lists [[0..<2], [4..<20], [10..<30]]))"
proof -
  obtain t where "byte_traversal sample_shard sample_view False = Inr t" using sample_view_facts by blast
  with logical_traversal_visits_the_view [OF this] show ?thesis by (simp only: sample_view_facts(3)) blast
qed

subsection \<open>Boxes of digits\<close>

definition in_range :: "nat \<times> nat \<Rightarrow> nat \<Rightarrow> bool" where
  "in_range r v \<longleftrightarrow> fst r \<le> v \<and> v < fst r + snd r"

text \<open>The coordinate \<open>x\<close> of an axis lies in a box, judged by the digits of that axis.\<close>

definition box_covers :: "(nat \<times> digit) list \<Rightarrow> bounds \<Rightarrow> nat \<Rightarrow> bool" where
  "box_covers axis b x \<longleftrightarrow> (\<forall>(i, d)\<in>set axis. in_range (b ! i) (x div divisor d mod digit_count d))"

definition boxes_for :: "(nat \<times> digit) list \<Rightarrow> bounds \<Rightarrow> nat \<Rightarrow> nat \<Rightarrow> nat \<Rightarrow> bounds list \<Rightarrow> bool" where
  "boxes_for axis b width start stop bs \<longleftrightarrow>
     (\<forall>b'\<in>set bs. length b' = length b \<and> (\<forall>i. i \<notin> fst ` set axis \<longrightarrow> b' ! i = b ! i)
        \<and> (\<forall>(i, d)\<in>set axis. 0 < snd (b' ! i) \<and> fst (b' ! i) + snd (b' ! i) \<le> digit_count d))
   \<and> (\<forall>x<width. start \<le> x \<and> x < stop \<longleftrightarrow> (\<exists>b'\<in>set bs. box_covers axis b' x))
   \<and> sorted_wrt (\<lambda>b1 b2. \<not> (\<exists>x<width. box_covers axis b1 x \<and> box_covers axis b2 x)) bs"

lemma boxes_forD:
  assumes "boxes_for axis b width start stop bs"
  shows "b' \<in> set bs \<Longrightarrow> length b' = length b"
    and "b' \<in> set bs \<Longrightarrow> i \<notin> fst ` set axis \<Longrightarrow> b' ! i = b ! i"
    and "b' \<in> set bs \<Longrightarrow> (i, d) \<in> set axis \<Longrightarrow> 0 < snd (b' ! i) \<and> fst (b' ! i) + snd (b' ! i) \<le> digit_count d"
    and "x < width \<Longrightarrow> start \<le> x \<and> x < stop \<longleftrightarrow> (\<exists>b'\<in>set bs. box_covers axis b' x)"
    and "sorted_wrt (\<lambda>b1 b2. \<not> (\<exists>x<width. box_covers axis b1 x \<and> box_covers axis b2 x)) bs"
  using assms unfolding boxes_for_def by fastforce+

lemma box_covers_Cons:
  assumes "digit_chain (map snd rest) (divisor d)" and "0 < divisor d" and "x < divisor d * digit_count d"
  shows "box_covers ((index, d) # rest) b x \<longleftrightarrow> in_range (b ! index) (x div divisor d) \<and> box_covers rest b (x mod divisor d)"
proof -
  have "x div divisor d < digit_count d" using assms(2,3) by (simp add: less_mult_imp_div_less mult.commute)
  moreover have "(x mod divisor d) div divisor e mod digit_count e = x div divisor e mod digit_count e" if "(i, e) \<in> set rest" for i e
  proof -
    have "e \<in> set (map snd rest)" using that by force
    then show ?thesis using digit_chain_divides [OF assms(1)] by (simp add: mod_digit)
  qed
  ultimately show ?thesis by (auto simp: box_covers_def)
qed

text \<open>Boxes of the remaining digits, placed under one value of the leading digit.\<close>

lemma boxes_under:
  assumes "boxes_for rest (b[index := (v, 1)]) (divisor d) lo hi bs" and "index \<notin> fst ` set rest" and "index < length b"
    and "digit_chain (map snd rest) (divisor d)" and "0 < divisor d" and "v < digit_count d"
  shows "b' \<in> set bs \<Longrightarrow> length b' = length b \<and> (\<forall>i. i \<notin> fst ` set ((index, d) # rest) \<longrightarrow> b' ! i = b ! i)
      \<and> (\<forall>(i, e)\<in>set ((index, d) # rest). 0 < snd (b' ! i) \<and> fst (b' ! i) + snd (b' ! i) \<le> digit_count e)"
    and "x < divisor d * digit_count d \<Longrightarrow>
      (\<exists>b'\<in>set bs. box_covers ((index, d) # rest) b' x) \<longleftrightarrow> x div divisor d = v \<and> lo \<le> x mod divisor d \<and> x mod divisor d < hi"
    and "sorted_wrt (\<lambda>b1 b2. \<not> (\<exists>x<divisor d * digit_count d. box_covers ((index, d) # rest) b1 x \<and> box_covers ((index, d) # rest) b2 x)) bs"
proof -
  note f = boxes_forD [OF assms(1)]
  have at: "b' ! index = (v, 1)" if "b' \<in> set bs" for b' using f(2) [OF that assms(2)] assms(3) by simp
  note cov = box_covers_Cons [OF assms(4,5)]
  show "length b' = length b \<and> (\<forall>i. i \<notin> fst ` set ((index, d) # rest) \<longrightarrow> b' ! i = b ! i)
      \<and> (\<forall>(i, e)\<in>set ((index, d) # rest). 0 < snd (b' ! i) \<and> fst (b' ! i) + snd (b' ! i) \<le> digit_count e)"
    if "b' \<in> set bs"
    using f(1,2,3) [OF that] at [OF that] assms(6) by (auto simp: nth_list_update)
  show "(\<exists>b'\<in>set bs. box_covers ((index, d) # rest) b' x) \<longleftrightarrow> x div divisor d = v \<and> lo \<le> x mod divisor d \<and> x mod divisor d < hi"
    if "x < divisor d * digit_count d"
  proof -
    have "(\<exists>b'\<in>set bs. box_covers ((index, d) # rest) b' x) \<longleftrightarrow> x div divisor d = v \<and> (\<exists>b'\<in>set bs. box_covers rest b' (x mod divisor d))"
      using cov [OF that] at by (auto simp: in_range_def)
    then show ?thesis using f(4) [of "x mod divisor d"] assms(5) by simp
  qed
  have mono: "\<not> (\<exists>x<divisor d * digit_count d. box_covers ((index, d) # rest) b1 x \<and> box_covers ((index, d) # rest) b2 x)"
    if "\<not> (\<exists>x<divisor d. box_covers rest b1 x \<and> box_covers rest b2 x)" for b1 b2
    using that cov assms(5) by (metis mod_less_divisor)
  show "sorted_wrt (\<lambda>b1 b2. \<not> (\<exists>x<divisor d * digit_count d. box_covers ((index, d) # rest) b1 x \<and> box_covers ((index, d) # rest) b2 x)) bs"
    by (rule sorted_wrt_mono_rel [OF _ f(5)]) (rule mono)
qed

lemma box_fill:
  assumes "distinct (map fst rest)" and "\<forall>(i, e)\<in>set rest. i < length b"
  shows "length (foldl (\<lambda>b (i, e). b[i := (0, digit_count e)]) b rest) = length b"
    and "i \<notin> fst ` set rest \<Longrightarrow> foldl (\<lambda>b (i, e). b[i := (0, digit_count e)]) b rest ! i = b ! i"
    and "(i, e) \<in> set rest \<Longrightarrow> foldl (\<lambda>b (i, e). b[i := (0, digit_count e)]) b rest ! i = (0, digit_count e)"
  using assms
proof (induction rest arbitrary: b)
  case (Cons x rest)
  obtain j f where x: "x = (j, f)" by (cases x)
  {
    case 1 then show ?case using Cons.IH(1) [of "b[j := (0, digit_count f)]"] by (auto simp: x)
  next
    case 2 then show ?case using Cons.IH(2) [of "b[j := (0, digit_count f)]"] by (auto simp: x)
  next
    case 3
    show ?case
    proof (cases "i = j")
      case True
      then have "i \<notin> fst ` set rest" "e = f" using 3 by (auto simp: x image_iff)
      then show ?thesis using Cons.IH(2) [of "b[j := (0, digit_count f)]"] 3 True by (auto simp: x)
    next
      case False then show ?thesis using Cons.IH(3) [of "b[j := (0, digit_count f)]"] 3 by (auto simp: x)
    qed
  }
qed simp_all

lemma div_mod_le: assumes D: "0 < D" shows "(x::nat) \<le> y \<longleftrightarrow> x div D < y div D \<or> x div D = y div D \<and> x mod D \<le> y mod D"
proof -
  define a b r s where d: "a = x div D" "b = y div D" "r = x mod D" "s = y mod D"
  have e: "x = a * D + r" "y = b * D + s" "r < D" "s < D" using D by (simp_all add: d)
  consider "a < b" | "a = b" | "b < a" by linarith
  then show ?thesis unfolding d [symmetric]
  proof cases
    case 1
    then have "Suc a * D \<le> b * D" by (intro mult_le_mono1) simp
    then show "x \<le> y \<longleftrightarrow> a < b \<or> a = b \<and> r \<le> s" using 1 e by simp
  next
    case 2 then show "x \<le> y \<longleftrightarrow> a < b \<or> a = b \<and> r \<le> s" using e by simp
  next
    case 3
    then have "Suc b * D \<le> a * D" by (intro mult_le_mono1) simp
    then show "x \<le> y \<longleftrightarrow> a < b \<or> a = b \<and> r \<le> s" using 3 e by simp
  qed
qed

lemma range_split:
  assumes "0 < D" and "start < stop"
  shows "start div D = (stop - 1) div D \<Longrightarrow> start \<le> x \<and> x < stop \<longleftrightarrow>
      x div D = start div D \<and> start mod D \<le> x mod D \<and> x mod D < (stop - 1) mod D + 1"
    and "start div D \<noteq> (stop - 1) div D \<Longrightarrow> start \<le> x \<and> x < stop \<longleftrightarrow>
      (\<not> is_multiple_of start D \<and> x div D = start div D \<and> start mod D \<le> x mod D \<and> x mod D < D)
      \<or> (\<not> is_multiple_of stop D \<and> x div D = stop div D \<and> 0 \<le> x mod D \<and> x mod D < stop mod D)
      \<or> (div_ceil start D \<le> x div D \<and> x div D < stop div D)"
    and "start div D \<noteq> (stop - 1) div D \<Longrightarrow> start div D < stop div D \<and> start div D \<le> div_ceil start D \<and> div_ceil start D \<le> stop div D
      \<and> (\<not> is_multiple_of start D \<longrightarrow> div_ceil start D = Suc (start div D))"
proof -
  have lo: "start \<le> x \<longleftrightarrow> start div D < x div D \<or> start div D = x div D \<and> start mod D \<le> x mod D" for x by (rule div_mod_le [OF assms(1)])
  have hi': "x < stop \<longleftrightarrow> x div D < (stop - 1) div D \<or> x div D = (stop - 1) div D \<and> x mod D \<le> (stop - 1) mod D" for x
  proof -
    have "x < stop \<longleftrightarrow> x \<le> stop - 1" using assms(2) by linarith
    then show ?thesis unfolding div_mod_le [OF assms(1), of x] .
  qed
  have hi: "x < stop \<longleftrightarrow> x div D < stop div D \<or> x div D = stop div D \<and> x mod D < stop mod D" for x
  proof -
    have "x < stop \<longleftrightarrow> \<not> stop \<le> x" by linarith
    then show ?thesis unfolding div_mod_le [OF assms(1), of stop] by (simp add: not_le not_less) linarith
  qed
  show "start div D = (stop - 1) div D \<Longrightarrow> start \<le> x \<and> x < stop \<longleftrightarrow>
      x div D = start div D \<and> start mod D \<le> x mod D \<and> x mod D < (stop - 1) mod D + 1"
    using lo [of x] hi' [of x] by linarith
  assume ne: "start div D \<noteq> (stop - 1) div D"
  have "start div D \<le> (stop - 1) div D" using assms(2) by (intro div_le_mono) simp
  moreover have "(stop - 1) div D \<le> stop div D" by (intro div_le_mono) simp
  ultimately have less: "start div D < stop div D" using ne by simp
  have c: "div_ceil start D = (if start mod D = 0 then start div D else Suc (start div D))" by (simp add: div_ceil_def)
  show "start div D < stop div D \<and> start div D \<le> div_ceil start D \<and> div_ceil start D \<le> stop div D
      \<and> (\<not> is_multiple_of start D \<longrightarrow> div_ceil start D = Suc (start div D))"
    using less c assms(1) by (simp add: is_multiple_of_def)
  have m: "is_multiple_of start D \<longleftrightarrow> start mod D = 0" "is_multiple_of stop D \<longleftrightarrow> stop mod D = 0"
    using assms(1) by (simp_all add: is_multiple_of_def)
  show "start \<le> x \<and> x < stop \<longleftrightarrow>
      (\<not> is_multiple_of start D \<and> x div D = start div D \<and> start mod D \<le> x mod D \<and> x mod D < D)
      \<or> (\<not> is_multiple_of stop D \<and> x div D = stop div D \<and> 0 \<le> x mod D \<and> x mod D < stop mod D)
      \<or> (div_ceil start D \<le> x div D \<and> x div D < stop div D)"
    unfolding lo hi m c using less mod_less_divisor [OF assms(1), of x] by (auto simp: Suc_le_eq)
qed

lemma box_covers_full:
  assumes "digit_chain (map snd rest) D" and "0 < D" and "distinct (map fst rest)" and "\<forall>(i, e)\<in>set rest. i < length b"
  shows "box_covers rest (foldl (\<lambda>b (i, e). b[i := (0, digit_count e)]) b rest) y"
proof -
  have "0 < digit_count e" if "(i, e) \<in> set rest" for i e
  proof -
    have "e \<in> set (map snd rest)" using that by force
    then have "divisor e * digit_count e dvd D" using digit_chain_divides [OF assms(1)] by blast
    then show ?thesis using assms(2) by (cases "digit_count e") auto
  qed
  then show ?thesis using box_fill(3) [OF assms(3,4)] by (auto simp: box_covers_def in_range_def)
qed

lemma axis_boxes_for:
  assumes "digit_chain (map snd axis) width" and "distinct (map fst axis)" and "\<forall>(i, d)\<in>set axis. i < length b"
    and "start < stop" and "stop \<le> width"
  shows "boxes_for axis b width start stop (fst (axis_boxes axis start stop b))
    \<and> length (snd (axis_boxes axis start stop b)) = length b
    \<and> (\<forall>i. i \<notin> fst ` set axis \<longrightarrow> snd (axis_boxes axis start stop b) ! i = b ! i)"
  using assms
proof (induction axis arbitrary: width start stop b)
  case Nil
  then show ?case by (auto simp: boxes_for_def box_covers_def)
next
  case (Cons x rest)
  obtain index d where x: "x = (index, d)" by (cases x)
  let ?D = "divisor d" and ?n = "digit_count d"
  have D: "0 < ?D" "?D * ?n = width" "digit_chain (map snd rest) ?D" using Cons.prems(1) by (simp_all add: x)
  have dist: "distinct (map fst rest)" "index \<notin> fst ` set rest" using Cons.prems(2) by (auto simp: x)
  have len: "index < length b" "\<forall>(i, e)\<in>set rest. i < length b" using Cons.prems(3) by (auto simp: x)
  note split = range_split [OF D(1) Cons.prems(4)]
  have IH: "boxes_for rest b' ?D lo hi (fst (axis_boxes rest lo hi b'))
      \<and> length (snd (axis_boxes rest lo hi b')) = length b
      \<and> (\<forall>i. i \<notin> fst ` set rest \<longrightarrow> snd (axis_boxes rest lo hi b') ! i = b' ! i)"
    if "length b' = length b" "lo < hi" "hi \<le> ?D" for b' lo hi
    using Cons.IH [OF D(3) dist(1) _ that(2,3), of b'] len that(1) by auto
  have top: "v < ?n" if "v * ?D < width" for v
  proof -
    have "v * ?D < ?n * ?D" using that by (simp only: D(2) [symmetric] mult.commute)
    then show ?thesis by simp
  qed
  have final_le: "start div ?D * ?D \<le> start" "stop div ?D * ?D \<le> stop" by simp_all
  show ?case
  proof (cases "start div ?D = (stop - 1) div ?D")
    case True
    let ?v = "start div ?D" and ?lo = "start mod ?D" and ?hi = "(stop - 1) mod ?D + 1"
    let ?bs = "axis_boxes rest ?lo ?hi (b[index := (?v, 1)])"
    have e: "axis_boxes (x # rest) start stop b = ?bs" using True by (simp add: x Let_def)
    have lohi: "?lo < ?hi" "?hi \<le> ?D"
    proof -
      have "start \<le> start \<and> start < stop" using Cons.prems(4) by simp
      then show "?lo < ?hi" using split(1) [OF True, of start] by blast
      show "?hi \<le> ?D" using mod_less_divisor [OF D(1), of "stop - 1"] by linarith
    qed
    have v: "?v < ?n" using final_le Cons.prems(4,5) by (intro top) linarith
    from IH [OF _ lohi, of "b[index := (?v, 1)]"] have r: "boxes_for rest (b[index := (?v, 1)]) ?D ?lo ?hi (fst ?bs)"
      "length (snd ?bs) = length b" "\<forall>i. i \<notin> fst ` set rest \<longrightarrow> snd ?bs ! i = b[index := (?v, 1)] ! i" by simp_all
    note u = boxes_under [OF r(1) dist(2) len(1) D(3,1) v]
    have "boxes_for (x # rest) b width start stop (fst ?bs)"
      unfolding boxes_for_def x D(2) [symmetric] using u split(1) [OF True] by blast
    moreover have "\<forall>i. i \<notin> fst ` set (x # rest) \<longrightarrow> snd ?bs ! i = b ! i" using r(3) by (auto simp: x)
    ultimately show ?thesis using r(2) by (simp only: e)
  next
    case False
    note s3 = split(3) [OF False]
    define hb where "hb = (if \<not> is_multiple_of start ?D then axis_boxes rest (start mod ?D) ?D (b[index := (start div ?D, 1)]) else ([], b))"
    define tb where "tb = (if \<not> is_multiple_of stop ?D then axis_boxes rest 0 (stop mod ?D) ((snd hb)[index := (stop div ?D, 1)]) else ([], snd hb))"
    let ?lo = "div_ceil start ?D" and ?hi = "stop div ?D"
    define full where "full = foldl (\<lambda>b (i, e). b[i := (0, digit_count e)]) ((snd tb)[index := (?lo, ?hi - ?lo)]) rest"
    have e: "axis_boxes (x # rest) start stop b
        = (if ?lo < ?hi then (fst hb @ fst tb @ [full], full) else (fst hb @ fst tb, snd tb))"
      using False by (simp add: x Let_def hb_def tb_def full_def case_prod_unfold)
    let ?axis = "(index, d) # rest"
    let ?good = "\<lambda>b'. length b' = length b \<and> (\<forall>i. i \<notin> fst ` set ?axis \<longrightarrow> b' ! i = b ! i)
      \<and> (\<forall>(i, e)\<in>set ?axis. 0 < snd (b' ! i) \<and> fst (b' ! i) + snd (b' ! i) \<le> digit_count e)"
    let ?clash = "\<lambda>b1 b2. \<exists>x<?D * ?n. box_covers ?axis b1 x \<and> box_covers ?axis b2 x"
    have h: "(\<forall>b'\<in>set (fst hb). ?good b') \<and> length (snd hb) = length b \<and> (\<forall>i. i \<notin> fst ` set ?axis \<longrightarrow> snd hb ! i = b ! i)
      \<and> (\<forall>x<?D * ?n. (\<exists>b'\<in>set (fst hb). box_covers ?axis b' x)
          \<longleftrightarrow> \<not> is_multiple_of start ?D \<and> x div ?D = start div ?D \<and> start mod ?D \<le> x mod ?D \<and> x mod ?D < ?D)
      \<and> sorted_wrt (\<lambda>b1 b2. \<not> ?clash b1 b2) (fst hb)"
    proof (cases "is_multiple_of start ?D")
      case True then show ?thesis by (simp add: hb_def)
    next
      case nm: False
      have v: "start div ?D < ?n" using final_le Cons.prems(4,5) by (intro top) linarith
      have lohi: "start mod ?D < ?D" using D(1) by simp
      note r = IH [OF _ lohi le_refl, of "b[index := (start div ?D, 1)]"]
      have r1: "boxes_for rest (b[index := (start div ?D, 1)]) ?D (start mod ?D) ?D (fst hb)"
        and r2: "length (snd hb) = length b" "\<forall>i. i \<notin> fst ` set rest \<longrightarrow> snd hb ! i = b[index := (start div ?D, 1)] ! i"
        using r nm by (simp_all add: hb_def)
      note u = boxes_under [OF r1 dist(2) len(1) D(3,1) v]
      have "\<forall>i. i \<notin> fst ` set ?axis \<longrightarrow> snd hb ! i = b ! i" using r2(2) by auto
      then show ?thesis using u nm r2(1) by blast
    qed
    have t: "(\<forall>b'\<in>set (fst tb). ?good b') \<and> length (snd tb) = length b \<and> (\<forall>i. i \<notin> fst ` set ?axis \<longrightarrow> snd tb ! i = b ! i)
      \<and> (\<forall>x<?D * ?n. (\<exists>b'\<in>set (fst tb). box_covers ?axis b' x)
          \<longleftrightarrow> \<not> is_multiple_of stop ?D \<and> x div ?D = stop div ?D \<and> 0 \<le> x mod ?D \<and> x mod ?D < stop mod ?D)
      \<and> sorted_wrt (\<lambda>b1 b2. \<not> ?clash b1 b2) (fst tb)"
    proof (cases "is_multiple_of stop ?D")
      case True then show ?thesis using h by (simp add: tb_def)
    next
      case nm: False
      then have sm: "0 < stop mod ?D" using D(1) by (simp add: is_multiple_of_def)
      then have "stop \<noteq> width" using D(2) by auto
      then have v: "stop div ?D < ?n" using final_le Cons.prems(5) by (intro top) linarith
      have hl: "length (snd hb) = length b" "index < length (snd hb)" using h len by simp_all
      have hi: "stop mod ?D \<le> ?D" using D(1) by (simp add: less_imp_le)
      note r = IH [OF _ sm hi, of "(snd hb)[index := (stop div ?D, 1)]"]
      have r1: "boxes_for rest ((snd hb)[index := (stop div ?D, 1)]) ?D 0 (stop mod ?D) (fst tb)"
        and r2: "length (snd tb) = length b" "\<forall>i. i \<notin> fst ` set rest \<longrightarrow> snd tb ! i = (snd hb)[index := (stop div ?D, 1)] ! i"
        using r nm hl by (simp_all add: tb_def)
      note u = boxes_under [OF r1 dist(2) hl(2) D(3,1) v]
      have hb_out: "\<forall>i. i \<notin> fst ` set ?axis \<longrightarrow> snd hb ! i = b ! i" using h by blast
      have "\<forall>i. i \<notin> fst ` set ?axis \<longrightarrow> snd tb ! i = b ! i" using r2(2) hb_out by auto
      moreover have "\<forall>b'\<in>set (fst tb). ?good b'" using u(1) hb_out hl(1) by simp
      ultimately show ?thesis using u(2,3) nm r2(1) by blast
    qed
    have fl: "index < length (snd tb)" "\<forall>(i, e)\<in>set rest. i < length ((snd tb)[index := (?lo, ?hi - ?lo)])"
      using t len by auto
    note fill = box_fill [OF dist(1) fl(2)]
    have fi: "full ! index = (?lo, ?hi - ?lo)" using fill(2) [OF dist(2)] fl(1) by (simp add: full_def)
    have fc: "box_covers ?axis full x \<longleftrightarrow> ?lo \<le> x div ?D \<and> x div ?D < ?hi" if "x < ?D * ?n" for x
      using box_covers_Cons [OF D(3,1) that, of index full] box_covers_full [OF D(3,1) dist(1) fl(2), of "x mod ?D"] s3
      unfolding full_def [symmetric] fi in_range_def by auto
    have fb: "length full = length b" "\<forall>i. i \<notin> fst ` set ?axis \<longrightarrow> full ! i = b ! i"
    proof -
      show "length full = length b" using fill(1) t by (simp add: full_def)
      show "\<forall>i. i \<notin> fst ` set ?axis \<longrightarrow> full ! i = b ! i" using fill(2) t by (simp add: full_def)
    qed
    have fg: "?good full" if "?lo < ?hi"
    proof -
      have "?hi * ?D \<le> ?D * ?n" using final_le(2) Cons.prems(5) D(2) by linarith
      then have "?hi * ?D \<le> ?n * ?D" by (simp only: mult.commute)
      then have "?hi \<le> ?n" using D(1) by simp
      moreover have "0 < digit_count e \<and> full ! i = (0, digit_count e)" if "(i, e) \<in> set rest" for i e
      proof -
        have "e \<in> set (map snd rest)" using that by force
        then have "divisor e * digit_count e dvd ?D" using digit_chain_divides [OF D(3)] by blast
        then have "0 < digit_count e" using D(1) by (cases "digit_count e") auto
        then show ?thesis using fill(3) [OF that] by (simp add: full_def)
      qed
      ultimately show ?thesis using that fi fb by auto
    qed
    have bs: "fst (axis_boxes (x # rest) start stop b) = fst hb @ fst tb @ (if ?lo < ?hi then [full] else [])"
      and buffer: "snd (axis_boxes (x # rest) start stop b) = (if ?lo < ?hi then full else snd tb)" using e by simp_all
    let ?bs = "fst hb @ fst tb @ (if ?lo < ?hi then [full] else [])"
    have p1: "\<forall>b'\<in>set ?bs. ?good b'" using h t fg by auto
    have p2: "start \<le> x \<and> x < stop \<longleftrightarrow> (\<exists>b'\<in>set ?bs. box_covers ?axis b' x)" if "x < ?D * ?n" for x
    proof -
      have "(\<exists>b'\<in>set ?bs. box_covers ?axis b' x) \<longleftrightarrow> (\<exists>b'\<in>set (fst hb). box_covers ?axis b' x)
          \<or> (\<exists>b'\<in>set (fst tb). box_covers ?axis b' x) \<or> (?lo < ?hi \<and> box_covers ?axis full x)" by auto
      also have "(?lo < ?hi \<and> box_covers ?axis full x) \<longleftrightarrow> ?lo \<le> x div ?D \<and> x div ?D < ?hi" using fc [OF that] by auto
      finally show ?thesis using split(2) [OF False, of x] h t that by simp
    qed
    have p3: "sorted_wrt (\<lambda>b1 b2. \<not> ?clash b1 b2) ?bs"
    proof -
      have "\<not> ?clash b1 b2" if "b1 \<in> set (fst hb)" "b2 \<in> set (fst tb)" for b1 b2
      proof
        assume "?clash b1 b2"
        then obtain x where "x < ?D * ?n" "box_covers ?axis b1 x" "box_covers ?axis b2 x" by blast
        then have "x div ?D = start div ?D" "x div ?D = stop div ?D" using h t that by blast+
        then show False using s3 by simp
      qed
      moreover have "\<not> ?clash b1 full" if "b1 \<in> set (fst hb) \<union> set (fst tb)" for b1
      proof
        assume "?clash b1 full"
        then obtain x where x: "x < ?D * ?n" "box_covers ?axis b1 x" "box_covers ?axis full x" by blast
        then have f: "?lo \<le> x div ?D" "x div ?D < ?hi" using fc by blast+
        from that show False
        proof
          assume "b1 \<in> set (fst hb)"
          then have "\<not> is_multiple_of start ?D" "x div ?D = start div ?D" using h x by blast+
          then show False using s3 f by simp
        next
          assume "b1 \<in> set (fst tb)"
          then have "x div ?D = stop div ?D" using t x by blast
          then show False using f by simp
        qed
      qed
      ultimately show ?thesis using h t by (auto simp: sorted_wrt_append)
    qed
    have "boxes_for (x # rest) b width start stop (fst (axis_boxes (x # rest) start stop b))"
      unfolding boxes_for_def x bs [unfolded x] D(2) [symmetric] using p1 p2 p3 by blast
    moreover have "length (snd (axis_boxes (x # rest) start stop b)) = length b
        \<and> (\<forall>i. i \<notin> fst ` set (x # rest) \<longrightarrow> snd (axis_boxes (x # rest) start stop b) ! i = b ! i)"
      unfolding x buffer [unfolded x] using t fb by simp
    ultimately show ?thesis by blast
  qed
qed

subsection \<open>The boxes of a view\<close>

text \<open>A box covers a coordinate vector on the first \<open>n\<close> axes.\<close>

definition covers :: "digit list \<Rightarrow> nat \<Rightarrow> bounds \<Rightarrow> nat list \<Rightarrow> bool" where
  "covers ds n b cs \<longleftrightarrow> (\<forall>i<length ds. digit_axis (ds ! i) < n \<longrightarrow> in_range (b ! i) (digit_value cs (ds ! i)))"

definition boxes_of :: "digit list \<Rightarrow> nat list \<Rightarrow> (nat \<times> nat) list \<Rightarrow> nat \<Rightarrow> bounds list \<Rightarrow> bool" where
  "boxes_of ds ws ranges n bs \<longleftrightarrow>
     (\<forall>b\<in>set bs. length b = length ds \<and> (\<forall>i<length ds. digit_axis (ds ! i) < n \<longrightarrow>
        0 < snd (b ! i) \<and> fst (b ! i) + snd (b ! i) \<le> digit_count (ds ! i)))
   \<and> (\<forall>cs. in_box ws cs \<longrightarrow> (\<forall>a<n. fst (ranges ! a) \<le> cs ! a \<and> cs ! a < snd (ranges ! a)) = (\<exists>b\<in>set bs. covers ds n b cs))
   \<and> sorted_wrt (\<lambda>b1 b2. \<not> (\<exists>cs. in_box ws cs \<and> covers ds n b1 cs \<and> covers ds n b2 cs)) bs"

lemma sorted_wrt_concat:
  "\<forall>b\<in>set bs. sorted_wrt R (f b) \<Longrightarrow> sorted_wrt (\<lambda>b1 b2. \<forall>x\<in>set (f b1). \<forall>y\<in>set (f b2). R x y) bs \<Longrightarrow>
   sorted_wrt R (concat (map f bs))"
  by (induction bs) (auto simp: sorted_wrt_append)

lemma box_loop_concat: "box_loop axis start stop bs = concat (map (\<lambda>b. fst (axis_boxes axis start stop b)) bs)"
  by (induction bs) simp_all

lemma boxes_of_step:
  assumes bo: "boxes_of ds ws ranges n bs" and n: "n < length ws" and r: "ranges ! n = (start, stop)" "start < stop" "stop \<le> ws ! n"
    and P: "axis_digits_of ds n = filter (\<lambda>(_, d). digit_axis d = n) (enumerate 0 ds)"
    and chain: "digit_chain (map snd (axis_digits_of ds n)) (ws ! n)"
  shows "boxes_of ds ws ranges (Suc n) (box_loop (axis_digits_of ds n) start stop bs)"
proof -
  let ?P = "axis_digits_of ds n" and ?W = "ws ! n"
  let ?f = "\<lambda>b. fst (axis_boxes ?P start stop b)"
  have inP: "(i, d) \<in> set ?P \<longleftrightarrow> i < length ds \<and> d = ds ! i \<and> digit_axis d = n" for i d
    by (auto simp: P in_set_enumerate_eq)
  have dist: "distinct (map fst ?P)" unfolding P by (rule distinct_map_filter) simp
  have posP: "i \<in> fst ` set ?P \<longleftrightarrow> i < length ds \<and> digit_axis (ds ! i) = n" for i
    using inP by force
  have lenb: "length b = length ds" if "b \<in> set bs" for b using bo that by (simp add: boxes_of_def)
  have bf: "boxes_for ?P b ?W start stop (?f b)" if "b \<in> set bs" for b
    using axis_boxes_for [OF chain dist _ r(2,3), of b] inP lenb [OF that] by auto
  have below: "cs ! n < ?W" if "in_box ws cs" for cs using that n by (simp add: in_box_nth)
  have cov: "covers ds (Suc n) b' cs \<longleftrightarrow> covers ds n b cs \<and> box_covers ?P b' (cs ! n)"
    if "b \<in> set bs" "b' \<in> set (?f b)" for b b' cs
  proof -
    have same: "b' ! i = b ! i" if "digit_axis (ds ! i) \<noteq> n" for i
      using boxes_forD(2) [OF bf [OF \<open>b \<in> set bs\<close>] \<open>b' \<in> set (?f b)\<close>] posP that by simp
    have "box_covers ?P b' (cs ! n) \<longleftrightarrow> (\<forall>i<length ds. digit_axis (ds ! i) = n \<longrightarrow> in_range (b' ! i) (digit_value cs (ds ! i)))"
    proof
      assume c: "box_covers ?P b' (cs ! n)"
      show "\<forall>i<length ds. digit_axis (ds ! i) = n \<longrightarrow> in_range (b' ! i) (digit_value cs (ds ! i))"
      proof (intro allI impI)
        fix i assume "i < length ds" "digit_axis (ds ! i) = n"
        then have "(i, ds ! i) \<in> set ?P" using inP by simp
        then have "in_range (b' ! i) (cs ! n div divisor (ds ! i) mod digit_count (ds ! i))" using c unfolding box_covers_def by blast
        then show "in_range (b' ! i) (digit_value cs (ds ! i))" using \<open>digit_axis (ds ! i) = n\<close> by (simp add: digit_value_def)
      qed
    next
      assume "\<forall>i<length ds. digit_axis (ds ! i) = n \<longrightarrow> in_range (b' ! i) (digit_value cs (ds ! i))"
      then show "box_covers ?P b' (cs ! n)" unfolding box_covers_def using inP by (auto simp: digit_value_def)
    qed
    moreover have "covers ds n b cs \<longleftrightarrow> covers ds n b' cs" unfolding covers_def using same by (metis less_irrefl)
    ultimately show ?thesis by (auto simp: covers_def less_Suc_eq)
  qed
  have p1: "length b' = length ds \<and> (\<forall>i<length ds. digit_axis (ds ! i) < Suc n \<longrightarrow>
      0 < snd (b' ! i) \<and> fst (b' ! i) + snd (b' ! i) \<le> digit_count (ds ! i))"
    if "b \<in> set bs" "b' \<in> set (?f b)" for b b'
  proof -
    note f = boxes_forD [OF bf [OF that(1)]]
    have "0 < snd (b' ! i) \<and> fst (b' ! i) + snd (b' ! i) \<le> digit_count (ds ! i)"
      if "i < length ds" "digit_axis (ds ! i) < Suc n" for i
    proof (cases "digit_axis (ds ! i) = n")
      case True
      then show ?thesis using f(3) [OF \<open>b' \<in> set (?f b)\<close>, of i "ds ! i"] inP that by simp
    next
      case False
      then have "b' ! i = b ! i" using f(2) [OF \<open>b' \<in> set (?f b)\<close>] posP by simp
      then show ?thesis using bo \<open>b \<in> set bs\<close> that False by (simp add: boxes_of_def)
    qed
    then show ?thesis using f(1) [OF that(2)] lenb [OF that(1)] by simp
  qed
  have p2: "(\<forall>a<Suc n. fst (ranges ! a) \<le> cs ! a \<and> cs ! a < snd (ranges ! a)) \<longleftrightarrow>
      (\<exists>b'\<in>set (concat (map ?f bs)). covers ds (Suc n) b' cs)" if "in_box ws cs" for cs
  proof -
    have "(\<exists>b'\<in>set (concat (map ?f bs)). covers ds (Suc n) b' cs)
        \<longleftrightarrow> (\<exists>b\<in>set bs. covers ds n b cs \<and> (\<exists>b'\<in>set (?f b). box_covers ?P b' (cs ! n)))" using cov by auto
    also have "\<dots> \<longleftrightarrow> (\<exists>b\<in>set bs. covers ds n b cs) \<and> start \<le> cs ! n \<and> cs ! n < stop"
      using boxes_forD(4) [OF bf below [OF that]] by blast
    also have "(\<exists>b\<in>set bs. covers ds n b cs) \<longleftrightarrow> (\<forall>a<n. fst (ranges ! a) \<le> cs ! a \<and> cs ! a < snd (ranges ! a))"
      using bo that by (simp add: boxes_of_def)
    finally show ?thesis using r(1) by (auto simp: less_Suc_eq)
  qed
  let ?R = "\<lambda>m b1 b2. \<not> (\<exists>cs. in_box ws cs \<and> covers ds m b1 cs \<and> covers ds m b2 cs)"
  have p3: "sorted_wrt (?R (Suc n)) (concat (map ?f bs))"
  proof (rule sorted_wrt_concat)
    show "\<forall>b\<in>set bs. sorted_wrt (?R (Suc n)) (?f b)"
    proof
      fix b assume b: "b \<in> set bs"
      show "sorted_wrt (?R (Suc n)) (?f b)"
        by (rule sorted_wrt_mono_rel [OF _ boxes_forD(5) [OF bf [OF b]]]) (use cov [OF b] below in blast)
    qed
    have "sorted_wrt (?R n) bs" using bo by (simp add: boxes_of_def)
    then show "sorted_wrt (\<lambda>b1 b2. \<forall>x\<in>set (?f b1). \<forall>y\<in>set (?f b2). ?R (Suc n) x y) bs"
      by (rule sorted_wrt_mono_rel [rotated]) (use cov in blast)
  qed
  show ?thesis unfolding box_loop_concat boxes_of_def using p1 p2 p3 by auto
qed

lemma view_boxes_of:
  assumes v: "validate_view s view = Inr u" and ds: "digits s = Inr ds"
    and ne: "\<forall>r\<in>set (view_ranges s view). fst r < snd r"
  shows "boxes_of ds (shard_shape s) (view_ranges s view) (length (shard_shape s)) (view_boxes ds (view_ranges s view))"
proof -
  note vv = validate_view_Inr [OF v]
  note ax = digits_axes [OF ds vv(2)]
  let ?rs = "view_ranges s view" and ?ws = "shard_shape s"
  let ?step = "\<lambda>boxes (axis, (start, stop)). box_loop (axis_digits_of ds axis) start stop boxes"
  have "boxes_of ds ?ws ?rs n (foldl ?step [replicate (length ds) (0, 1)] (take n (enumerate 0 ?rs)))" if "n \<le> length ?rs" for n
    using that
  proof (induction n)
    case 0
    then show ?case by (simp add: boxes_of_def covers_def)
  next
    case (Suc n)
    obtain start stop where r: "?rs ! n = (start, stop)" by (metis surj_pair)
    have "fst (?rs ! n) < snd (?rs ! n)" "snd (?rs ! n) \<le> ?ws ! n" using ne Suc.prems vv(3,4) vv(5) [of n] by simp_all
    then have ss: "start < stop" "stop \<le> ?ws ! n" using r by simp_all
    have n: "n < length ?ws" using Suc.prems vv(3) by simp
    have "take (Suc n) (enumerate 0 ?rs) = take n (enumerate 0 ?rs) @ [(n, (start, stop))]"
      using Suc.prems r by (simp add: take_Suc_conv_app_nth nth_enumerate_eq)
    moreover have "digit_chain (map snd (axis_digits_of ds n)) (?ws ! n)" using ax(2,4) [OF n] by simp
    ultimately show ?case using boxes_of_step [OF Suc.IH n r ss ax(3) [OF n]] Suc.prems by simp
  qed
  from this [of "length ?rs"] show ?thesis using vv(3) by (simp add: view_boxes_def)
qed

end
