(* ===== verification/Physical.thy ===== *)
theory Physical
  imports Main Prelude Storage Traversal
begin

text \<open>
  The physical traversal of a shard (src/crates/ipu-codegen/src/storage/traversal.rs) yields the
  bytes of a view in ascending address order, coalesced: this theory proves it of the trees that
  byte_traversal builds in Traversal.
\<close>

definition range_list :: "nat \<times> nat \<Rightarrow> nat list" where
  "range_list r = [fst r..<fst r + snd r]"

definition digit_sum :: "digit list \<Rightarrow> nat list \<Rightarrow> nat" where
  "digit_sum ds vs = sum_list (map2 (\<lambda>d v. digit_stride d * v) ds vs)"

lemma digit_sum_Cons: "digit_sum (d # ds) (v # vs) = v * digit_stride d + digit_sum ds vs"
  by (simp add: digit_sum_def mult.commute)

lemma concat_concat_map: "concat (concat xss) = concat (map concat xss)"
  by (induction xss) simp_all

lemma box_node_bytes:
  assumes "length b = length ds" and "\<forall>r\<in>set b. 0 < snd r"
  shows "node_bytes (box_node ds leaf b) base
    = concat (map (\<lambda>vs. node_bytes leaf (base + digit_sum ds vs)) (product_lists (map range_list b)))"
proof -
  have "node_bytes (foldr (\<lambda>(d, (start, reps)) n. node_shift (start * digit_stride d) (node_repeat n reps (digit_stride d))) (zip ds b) leaf) base
    = concat (map (\<lambda>vs. node_bytes leaf (base + digit_sum ds vs)) (product_lists (map range_list b)))"
    using assms
  proof (induction b ds arbitrary: base rule: list_induct2)
    case Nil then show ?case by (simp add: digit_sum_def)
  next
    case (Cons r b d ds)
    obtain start reps where r: "r = (start, reps)" by (cases r)
    let ?node = "foldr (\<lambda>(d, (start, reps)) n. node_shift (start * digit_stride d) (node_repeat n reps (digit_stride d))) (zip ds b) leaf"
    let ?g = "\<lambda>v. concat (map (\<lambda>vs. node_bytes leaf (base + v * digit_stride d + digit_sum ds vs)) (product_lists (map range_list b)))"
    have "node_bytes (node_shift (start * digit_stride d) (node_repeat ?node reps (digit_stride d))) base
        = concat (map (\<lambda>i. node_bytes ?node (base + start * digit_stride d + i * digit_stride d)) [0..<reps])"
      using Cons.prems by (simp add: node_bytes_repeat r)
    also have "\<dots> = concat (map (\<lambda>i. ?g (start + i)) [0..<reps])" using Cons by (simp add: add_mult_distrib add_ac)
    also have "\<dots> = concat (map ?g [start..<start + reps])" using map_upt_shift [of ?g start 0 reps] by simp
    also have "\<dots> = concat (map (\<lambda>v. concat (map (\<lambda>vs. node_bytes leaf (base + digit_sum (d # ds) vs))
        (map ((#) v) (product_lists (map range_list b))))) (range_list r))"
      by (simp add: r range_list_def [of "(start, reps)"] digit_sum_Cons comp_def add.assoc)
    also have "\<dots> = concat (map (\<lambda>vs. node_bytes leaf (base + digit_sum (d # ds) vs)) (product_lists (map range_list (r # b))))"
      by (simp only: list.map product_lists.simps map_concat concat_concat_map map_map comp_def)
    finally show ?case by (simp add: r)
  qed
  then show ?thesis by (simp add: box_node_def foldl_conv_foldr case_prod_unfold)
qed

definition positive_runs :: "node \<Rightarrow> bool" where
  "positive_runs n \<longleftrightarrow> (\<forall>base. \<forall>s\<in>set (node_spans n base). 0 < snd s)"

lemma positive_shift: "positive_runs n \<Longrightarrow> positive_runs (node_shift k n)"
  by (simp add: positive_runs_def node_spans_shift)

lemma positive_repeat:
  assumes "positive_runs n" and "0 < reps"
  shows "positive_runs (node_repeat n reps stride)"
proof (cases n)
  case (Node off k)
  show ?thesis
  proof (cases "reps = 1 \<or> k \<noteq> Run stride")
    case True
    then have "node_repeat n reps stride = n \<or> node_repeat n reps stride = Node 0 (Repeat reps stride n)"
      by (auto simp: node_repeat_def Node split: kind.split)
    then show ?thesis using assms by (elim disjE) (simp_all add: positive_runs_def)
  next
    case False
    then have "node_repeat n reps stride = Node off (Run (stride * reps))" by (simp add: node_repeat_def Node)
    moreover have "0 < stride" using assms(1) False by (simp add: positive_runs_def Node)
    ultimately show ?thesis using assms(2) by (simp add: positive_runs_def)
  qed
qed

lemma positive_box_node:
  assumes "positive_runs leaf" and "\<forall>r\<in>set b. 0 < snd r"
  shows "positive_runs (box_node ds leaf b)"
proof -
  have "positive_runs (foldl (\<lambda>n (d, (start, reps)). node_shift (start * digit_stride d) (node_repeat n reps (digit_stride d))) n xs)"
    if "positive_runs n" "\<forall>x\<in>set xs. 0 < snd (snd x)" for n and xs :: "(digit \<times> (nat \<times> nat)) list"
    using that
  proof (induction xs arbitrary: n)
    case (Cons x xs)
    obtain d start reps where x: "x = (d, (start, reps))" by (metis surj_pair)
    have "positive_runs (node_shift (start * digit_stride d) (node_repeat n reps (digit_stride d)))"
      by (intro positive_shift positive_repeat) (use Cons.prems x in simp_all)
    then show ?case using Cons.IH Cons.prems(2) by (simp add: x)
  qed simp
  moreover have "\<forall>x\<in>set (rev (zip ds b)). 0 < snd (snd x)" using assms(2) by (metis in_set_zipE prod.collapse set_rev)
  ultimately show ?thesis using assms(1) by (simp add: box_node_def)
qed

lemma sorted_box_index:
  "length rs = length ps \<Longrightarrow> \<forall>k<length ps. fst (rs ! k) + snd (rs ! k) \<le> ps ! k \<Longrightarrow>
   sorted_wrt (<) (map (box_index ps) (product_lists (map range_list rs)))
   \<and> (\<forall>vs\<in>set (product_lists (map range_list rs)). in_box ps vs)"
proof (induction rs ps rule: list_induct2)
  case (Cons r rs p ps)
  let ?L = "product_lists (map range_list rs)"
  have IH: "sorted_wrt (<) (map (box_index ps) ?L)" "\<forall>vs\<in>set ?L. in_box ps vs" using Cons by fastforce+
  have r: "fst r + snd r \<le> p" using Cons.prems by fastforce
  have box: "\<forall>vs\<in>set (product_lists (map range_list (r # rs))). in_box (p # ps) vs"
    using IH(2) r by (auto simp: range_list_def)
  have "map (box_index (p # ps)) (map ((#) v) ?L) = map (\<lambda>i. v * prod_list ps + i) (map (box_index ps) ?L)" for v
    using IH(2) in_box_length [of ps] box_index_Cons [of _ ps p v] by (simp add: comp_def)
  then have e: "map (box_index (p # ps)) (product_lists (map range_list (r # rs)))
      = concat (map (\<lambda>v. map (\<lambda>i. v * prod_list ps + i) (map (box_index ps) ?L)) (range_list r))"
    by (simp only: list.map product_lists.simps map_concat map_map comp_def)
  have "sorted_wrt (<) \<dots>"
  proof (rule sorted_wrt_concat)
    show "\<forall>v\<in>set (range_list r). sorted_wrt (<) (map (\<lambda>i. v * prod_list ps + i) (map (box_index ps) ?L))"
      using IH(1) by (simp add: sorted_wrt_map)
    have lt: "x < y" if "v < w" "x \<in> (\<lambda>i. v * prod_list ps + i) ` set (map (box_index ps) ?L)"
      "y \<in> (\<lambda>i. w * prod_list ps + i) ` set (map (box_index ps) ?L)" for v w x y
    proof -
      note t = that
      obtain vs where "vs \<in> set ?L" "x = v * prod_list ps + box_index ps vs" using t(2) by auto
      then have "x < Suc v * prod_list ps" using IH(2) box_index_less by fastforce
      also have "\<dots> \<le> w * prod_list ps" using t(1) by (intro mult_le_mono1) simp
      also have "\<dots> \<le> y" using t(3) by auto
      finally show ?thesis .
    qed
    have s: "sorted_wrt (<) (range_list r)" by (simp add: range_list_def)
    show "sorted_wrt (\<lambda>v w. \<forall>x\<in>set (map (\<lambda>i. v * prod_list ps + i) (map (box_index ps) ?L)).
        \<forall>y\<in>set (map (\<lambda>i. w * prod_list ps + i) (map (box_index ps) ?L)). x < y) (range_list r)"
    proof (rule sorted_wrt_mono_rel [OF _ s], intro ballI)
      fix v w x y assume a: "v < w" "x \<in> set (map (\<lambda>i. v * prod_list ps + i) (map (box_index ps) ?L))"
        "y \<in> set (map (\<lambda>i. w * prod_list ps + i) (map (box_index ps) ?L))"
      show "x < y" by (rule lt [OF a(1)]) (use a(2,3) in \<open>simp_all only: set_map\<close>)
    qed
  qed
  then show ?case using e box by simp
qed simp

lemma sorted_runs:
  assumes "sorted_wrt (<) is"
  shows "sorted_wrt (<) (concat (map (\<lambda>i. [i * e..<i * e + e]) is))"
proof (rule sorted_wrt_concat)
  show "\<forall>i\<in>set is. sorted_wrt (<) [i * e..<i * e + e]" by simp
  have le: "x < y" if "i < j" "x < i * e + e" "j * e \<le> y" for i j x y
  proof -
    have "Suc i * e \<le> j * e" using that(1) by (intro mult_le_mono1) simp
    then show ?thesis using that by simp
  qed
  show "sorted_wrt (\<lambda>i j. \<forall>x\<in>set [i * e..<i * e + e]. \<forall>y\<in>set [j * e..<j * e + e]. x < y) is"
  proof (rule sorted_wrt_mono_rel [OF _ assms], intro ballI)
    fix i j x y assume "i < j" "x \<in> set [i * e..<i * e + e]" "y \<in> set [j * e..<j * e + e]"
    then show "x < y" using le [of i j x y] by simp
  qed
qed

subsection \<open>Sorted spans\<close>

abbreviation apart :: "nat \<times> nat \<Rightarrow> nat \<times> nat \<Rightarrow> bool" where
  "apart a b \<equiv> fst a + snd a \<le> fst b"

abbreviation wide :: "(nat \<times> nat) list \<Rightarrow> bool" where
  "wide ss \<equiv> (\<forall>s\<in>set ss. 0 < snd s)"

lemma set_span_bytes: "x \<in> set (span_bytes ss) \<longleftrightarrow> (\<exists>s\<in>set ss. fst s \<le> x \<and> x < fst s + snd s)"
  by (auto simp: span_bytes_def case_prod_unfold)

lemma apart_of_distinct:
  "sorted (map fst ss) \<Longrightarrow> distinct (span_bytes ss) \<Longrightarrow> wide ss \<Longrightarrow> sorted_wrt apart ss"
proof (induction ss)
  case (Cons s ss)
  obtain x b where s: "s = (x, b)" by (cases s)
  have "apart s s'" if m: "s' \<in> set ss" for s'
  proof (rule ccontr)
    assume "\<not> apart s s'"
    then have "fst s' < x + b" "x \<le> fst s'" using Cons.prems(1) m s by auto
    moreover have "fst s' \<in> set (span_bytes ss)" using m Cons.prems(3) unfolding set_span_bytes by fastforce
    ultimately show False using Cons.prems(2) s by auto
  qed
  then show ?case using Cons s by simp
qed simp

lemma sorted_span_bytes: "sorted_wrt apart ss \<Longrightarrow> sorted_wrt (<) (span_bytes ss)"
proof (induction ss)
  case (Cons s ss)
  obtain x b where s: "s = (x, b)" by (cases s)
  have "y < z" if "y \<in> set [x..<x + b]" "z \<in> set (span_bytes ss)" for y z
    using Cons.prems that s unfolding set_span_bytes by fastforce
  then show ?case using Cons s by (simp add: sorted_wrt_append)
qed simp

lemma sorted_starts: "sorted_wrt (<) (span_bytes ss) \<Longrightarrow> wide ss \<Longrightarrow> sorted (map fst ss)"
proof (induction ss)
  case (Cons s ss)
  obtain x b where s: "s = (x, b)" by (cases s)
  have w: "sorted_wrt (<) ([x..<x + b] @ span_bytes ss)" using Cons.prems(1) by (simp only: s span_bytes_simps)
  note p = w [unfolded sorted_wrt_append, THEN conjunct2]
  have q: "0 < b" "wide ss" using Cons.prems(2) s by simp_all
  have "x \<le> fst s'" if "s' \<in> set ss" for s'
  proof -
    have "fst s' \<in> set (span_bytes ss)" using that q(2) unfolding set_span_bytes by fastforce
    then have "x < fst s'" using bspec [OF p [THEN conjunct2], of x] q(1) by simp
    then show ?thesis by simp
  qed
  then show ?case using Cons.IH [OF p [THEN conjunct1] q(2)] s by simp
qed simp

text \<open>Joining leaves a gap between any two spans.\<close>

lemma join_spans_gaps:
  "sorted_wrt apart (s # ss) \<Longrightarrow>
   sorted_wrt (\<lambda>a b. fst a + snd a < fst b) (join_spans (Some s) ss) \<and> (\<forall>j\<in>set (join_spans (Some s) ss). fst s \<le> fst j)"
proof (induction ss arbitrary: s)
  case (Cons r ss)
  obtain start width offset bytes where s: "s = (start, width)" "r = (offset, bytes)" by (metis surj_pair)
  show ?case
  proof (cases "start + width = offset")
    case True
    moreover have "sorted_wrt apart ((start, width + bytes) # ss)" using Cons.prems s True by (auto simp: add.assoc)
    ultimately show ?thesis using Cons.IH [of "(start, width + bytes)"] s by simp
  next
    case False
    then have lt: "start + width < offset" using Cons.prems s by simp
    have IH: "sorted_wrt (\<lambda>a b. fst a + snd a < fst b) (join_spans (Some r) ss)" "\<forall>j\<in>set (join_spans (Some r) ss). offset \<le> fst j"
      using Cons.IH [of r] Cons.prems s by simp_all
    have "join_spans (Some s) (r # ss) = s # join_spans (Some r) ss" using False s by simp
    then show ?thesis using IH lt s by fastforce
  qed
qed simp

lemma strict_sorted_set: "sorted_wrt (<) xs \<Longrightarrow> xs = sorted_list_of_set (set xs)" for xs :: "nat list"
  by (simp add: sorted_list_of_set.idem_if_sorted_distinct strict_sorted_iff)

text \<open>The merged spans of parts that are each ascending and share no byte.\<close>

lemma merged_spans:
  assumes "\<forall>p\<in>set (traversal_parts t). positive_runs p \<and> sorted_wrt (<) (node_bytes p 0)"
    and "distinct (concat (map (\<lambda>p. node_bytes p 0) (traversal_parts t)))"
  shows "span_bytes (traversal_spans t) = sorted_list_of_set (\<Union>p\<in>set (traversal_parts t). set (node_bytes p 0))
    \<and> sorted_wrt (\<lambda>a b. fst a + snd a < fst b) (traversal_spans t)"
proof -
  have "\<forall>p\<in>set (traversal_parts t). sorted (map fst (node_spans p 0))"
    using assms(1) sorted_starts unfolding node_bytes_def positive_runs_def by blast
  from traversal_spans_sorted [OF this] obtain ss where ss: "traversal_spans t = join_spans None ss" "sorted (map fst ss)"
    "mset ss = mset (concat (map (\<lambda>p. node_spans p 0) (traversal_parts t)))" by blast
  have bytes: "mset (span_bytes ss) = mset (concat (map (\<lambda>p. node_bytes p 0) (traversal_parts t)))"
  proof -
    have eq: "mset (span_bytes xs) = sum_mset (image_mset (\<lambda>(x, b). mset [x..<x + b]) (mset xs))" for xs
      by (induction xs) auto
    have "concat (map (\<lambda>p. node_bytes p 0) (traversal_parts t)) = span_bytes (concat (map (\<lambda>p. node_spans p 0) (traversal_parts t)))"
      by (simp add: span_bytes_concat node_bytes_def comp_def)
    then show ?thesis by (simp only: eq ss(3))
  qed
  have set: "set ss = (\<Union>p\<in>set (traversal_parts t). set (node_spans p 0))"
    using mset_eq_setD [OF ss(3)] by simp
  have pos: "wide ss" unfolding set using assms(1) unfolding positive_runs_def by blast
  have "distinct (span_bytes ss)" using mset_eq_imp_distinct_iff [OF bytes] assms(2) by simp
  note ap = apart_of_distinct [OF ss(2) this pos]
  have "span_bytes (traversal_spans t) = span_bytes ss" by (simp add: ss(1) join_spans_bytes)
  also have "\<dots> = sorted_list_of_set (set (span_bytes ss))" by (rule strict_sorted_set [OF sorted_span_bytes [OF ap]])
  also have "set (span_bytes ss) = (\<Union>p\<in>set (traversal_parts t). set (node_bytes p 0))"
    using mset_eq_setD [OF bytes] by simp
  finally show ?thesis
    using join_spans_gaps [of "hd ss" "tl ss"] ap by (cases ss) (simp_all add: ss(1))
qed

subsection \<open>The bytes of the boxes\<close>

lemma digit_sum_index:
  "assign_strides dims e = Inr (ds, whole) \<Longrightarrow> length vs = length ds \<Longrightarrow>
   digit_sum ds vs = box_index (map digit_count ds) vs * e \<and> whole = prod_list (map digit_count ds) * e"
proof (induction dims e arbitrary: ds whole vs rule: assign_strides.induct)
  case (1 e)
  then show ?case by (simp add: digit_sum_def)
next
  case (2 a d n rest element)
  from "2.prems" obtain ds' stride where r: "assign_strides rest element = Inr (ds', stride)"
    "ds = \<lparr>digit_axis = a, divisor = d, digit_count = n, digit_stride = stride\<rparr> # ds'" "whole = stride * n"
    by (auto simp: res_simps arith_defs split: if_splits)
  obtain v vs' where "vs = v # vs'" "length vs' = length ds'" using "2.prems"(2) r(2) by (cases vs) auto
  then show ?case using "2.IH" [OF r(1), of vs'] by (simp add: r(2,3) digit_sum_Cons box_index_Cons algebra_simps)
qed

text \<open>The digits of the coordinates of a shard are exactly the digit vectors in range.\<close>

lemma digit_vectors:
  assumes v: "validate_view s view = Inr u" and b: "storage_bytes s = Inr n" and ds: "digits s = Inr ds"
  shows "in_box (shard_shape s) cs \<Longrightarrow> in_box (map digit_count ds) (map (digit_value cs) ds)"
    and "in_box (shard_shape s) c0 \<Longrightarrow> in_box (map digit_count ds) vs \<Longrightarrow> \<exists>cs. in_box (shard_shape s) cs \<and> map (digit_value cs) ds = vs"
    and "in_box (shard_shape s) cs \<Longrightarrow> in_box (shard_shape s) cs' \<Longrightarrow> map (digit_value cs) ds = map (digit_value cs') ds \<Longrightarrow> cs = cs'"
    and "length vs = length ds \<Longrightarrow> digit_sum ds vs = box_index (map digit_count ds) vs * precision_bytes (storage_precision s)"
proof -
  note sw = validate_view_Inr(2) [OF v]
  obtain dims where d: "map digit_dim ds = dims" and ix: "\<And>cs. in_box (shard_shape s) cs \<Longrightarrow> index_by_digits s (shard_shape s) cs dims"
    using shard_digits [OF ds b sw] by metis
  have counts: "dims_counts dims = map digit_count ds"
    by (simp add: d [symmetric] dims_counts_def digit_dim_def comp_def)
  have vals: "dims_digits cs dims = map (digit_value cs) ds" for cs
    by (simp add: d [symmetric] dims_digits_def digit_dim_def digit_value_def comp_def)
  note ix' = ix [unfolded index_by_digits_def counts vals]
  show box: "in_box (map digit_count ds) (map (digit_value cs) ds)" if "in_box (shard_shape s) cs" for cs
    using ix' [OF that] by simp
  note bij = index_bijection [OF sw b ds]
  show "\<exists>cs. in_box (shard_shape s) cs \<and> map (digit_value cs) ds = vs" if c0: "in_box (shard_shape s) c0" and vs: "in_box (map digit_count ds) vs"
  proof -
    have "box_index (map digit_count ds) vs < prod_list (shard_shape s)" using box_index_less [OF vs] ix' [OF c0] by simp
    then obtain cs where cs: "in_box (shard_shape s) cs" "physical_index s (shard_shape s) cs = Inr (box_index (map digit_count ds) vs)"
      using bij by blast
    then have "box_index (map digit_count ds) (map (digit_value cs) ds) = box_index (map digit_count ds) vs"
      using ix' [OF cs(1)] by simp
    then show ?thesis using box_index_inj [OF box [OF cs(1)] vs] cs(1) by blast
  qed
  show "cs = cs'" if "in_box (shard_shape s) cs" "in_box (shard_shape s) cs'" "map (digit_value cs) ds = map (digit_value cs') ds"
  proof -
    have "physical_index s (shard_shape s) cs = physical_index s (shard_shape s) cs'"
      using ix' [OF that(1)] ix' [OF that(2)] by (simp only: that(3))
    then show ?thesis using bij that(1,2) by (metis sum.inject(2))
  qed
  show "digit_sum ds vs = box_index (map digit_count ds) vs * precision_bytes (storage_precision s)" if "length vs = length ds"
    using digits_Inr [OF ds] digit_sum_index that by auto
qed

lemma digit_sum_address: "digit_address ds cs = digit_sum ds (map (digit_value cs) ds)"
  unfolding digit_address_def digit_sum_def by (induction ds) simp_all

lemma view_coordinates_exist:
  assumes v: "validate_view s view = Inr u" and ne: "\<forall>r\<in>set (view_ranges s view). fst r < snd r"
  shows "\<exists>c0. in_box (shard_shape s) c0"
proof -
  have "map fst (view_ranges s view) \<in> set (view_coordinates s view)" using ne by (simp add: view_coordinates_iff)
  then show ?thesis using view_coordinates_in_box [OF v] by blast
qed

text \<open>The bytes of one box: those of the coordinates whose digits it covers, in ascending order.\<close>

lemma box_part_bytes:
  fixes s ds e
  defines "e \<equiv> precision_bytes (storage_precision s)"
  assumes v: "validate_view s view = Inr u" and b: "storage_bytes s = Inr n" and ds: "digits s = Inr ds"
    and c0: "in_box (shard_shape s) c0"
    and len: "length bx = length ds" and ok: "\<forall>i<length ds. 0 < snd (bx ! i) \<and> fst (bx ! i) + snd (bx ! i) \<le> digit_count (ds ! i)"
  shows "sorted_wrt (<) (node_bytes (box_node ds (run_node e) bx) 0)"
    and "set (node_bytes (box_node ds (run_node e) bx) 0)
      = (\<Union>cs\<in>{cs. in_box (shard_shape s) cs \<and> covers ds (length (shard_shape s)) bx cs}. set (element_bytes s cs))"
    and "positive_runs (box_node ds (run_node e) bx)"
proof -
  note dv = digit_vectors [OF v b ds]
  let ?ps = "map digit_count ds"
  have pos: "\<forall>r\<in>set bx. 0 < snd r" using len ok by (metis in_set_conv_nth)
  have si: "sorted_wrt (<) (map (box_index ?ps) (product_lists (map range_list bx)))
      \<and> (\<forall>vs\<in>set (product_lists (map range_list bx)). in_box ?ps vs)"
    by (rule sorted_box_index) (use len ok in simp_all)
  have pl: "vs \<in> set (product_lists (map range_list bx)) \<longleftrightarrow> length vs = length ds \<and> (\<forall>i<length ds. in_range (bx ! i) (vs ! i))" for vs
    using len by (auto simp: in_product_lists list_all2_conv_all_nth range_list_def in_range_def)
  have "node_bytes (box_node ds (run_node e) bx) 0
      = concat (map (\<lambda>vs. [digit_sum ds vs..<digit_sum ds vs + e]) (product_lists (map range_list bx)))"
    using box_node_bytes [OF len pos] by (simp add: run_node_def node_bytes_def)
  also have "\<dots> = concat (map (\<lambda>i. [i * e..<i * e + e]) (map (box_index ?ps) (product_lists (map range_list bx))))"
    unfolding map_map comp_def by (intro arg_cong [of _ _ concat] map_cong refl) (use dv(4) pl e_def in simp)
  finally have bytes: "node_bytes (box_node ds (run_node e) bx) 0
      = concat (map (\<lambda>i. [i * e..<i * e + e]) (map (box_index ?ps) (product_lists (map range_list bx))))" .
  show "sorted_wrt (<) (node_bytes (box_node ds (run_node e) bx) 0)"
    unfolding bytes by (rule sorted_runs) (use si in blast)
  show "positive_runs (box_node ds (run_node e) bx)"
    by (rule positive_box_node [OF _ pos]) (simp add: positive_runs_def run_node_def e_def)
  have ax: "\<forall>d\<in>set ds. digit_axis d < length (shard_shape s)" using digits_axes(1) [OF ds validate_view_Inr(2) [OF v]] .
  have cov: "covers ds (length (shard_shape s)) bx cs \<longleftrightarrow> map (digit_value cs) ds \<in> set (product_lists (map range_list bx))" for cs
    using ax unfolding covers_def pl by auto
  have elem: "element_bytes s cs = [box_index ?ps (map (digit_value cs) ds) * e..<box_index ?ps (map (digit_value cs) ds) * e + e]"
    if "in_box (shard_shape s) cs" for cs
    using element_bytes_address [OF v b ds that] dv(4) by (simp add: digit_sum_address e_def)
  have "set (product_lists (map range_list bx))
      = (\<lambda>cs. map (digit_value cs) ds) ` {cs. in_box (shard_shape s) cs \<and> covers ds (length (shard_shape s)) bx cs}"
  proof (intro set_eqI iffI)
    fix vs assume m: "vs \<in> set (product_lists (map range_list bx))"
    then obtain cs where "in_box (shard_shape s) cs" "map (digit_value cs) ds = vs" using dv(2) [OF c0] si by blast
    then show "vs \<in> (\<lambda>cs. map (digit_value cs) ds) ` {cs. in_box (shard_shape s) cs \<and> covers ds (length (shard_shape s)) bx cs}"
      using m cov by blast
  qed (use cov in blast)
  then show "set (node_bytes (box_node ds (run_node e) bx) 0)
      = (\<Union>cs\<in>{cs. in_box (shard_shape s) cs \<and> covers ds (length (shard_shape s)) bx cs}. set (element_bytes s cs))"
    unfolding bytes using elem by simp
qed

text \<open>Two coordinates with a byte in common are equal.\<close>

lemma element_bytes_disjoint:
  assumes v: "validate_view s view = Inr u" and b: "storage_bytes s = Inr n" and ds: "digits s = Inr ds"
    and "in_box (shard_shape s) cs" "in_box (shard_shape s) cs'" and "x \<in> set (element_bytes s cs)" "x \<in> set (element_bytes s cs')"
  shows "cs = cs'"
proof -
  note dv = digit_vectors [OF v b ds]
  let ?e = "precision_bytes (storage_precision s)" and ?ix = "\<lambda>cs. box_index (map digit_count ds) (map (digit_value cs) ds)"
  have "x div ?e = ?ix c" if "in_box (shard_shape s) c" "x \<in> set (element_bytes s c)" for c
  proof -
    have "?ix c * ?e \<le> x" "x < ?ix c * ?e + ?e"
      using that(2) element_bytes_address [OF v b ds that(1)] dv(4) by (simp_all add: digit_sum_address)
    then show ?thesis by (intro div_nat_eqI) (simp_all add: mult.commute)
  qed
  then have "?ix cs = ?ix cs'" using assms(4-7) by metis
  then show ?thesis using dv(3) assms(4,5) box_index_inj [OF dv(1) dv(1)] by blast
qed

lemma distinct_parts:
  "\<forall>x\<in>set xs. distinct (f x) \<Longrightarrow> sorted_wrt (\<lambda>x y. set (f x) \<inter> set (f y) = {}) xs \<Longrightarrow> distinct (concat (map f xs))"
  by (induction xs) auto

text \<open>The parts of a view: ascending, disjoint and together the bytes of its elements.\<close>

lemma box_parts:
  assumes v: "validate_view s view = Inr u" and b: "storage_bytes s = Inr n" and ds: "digits s = Inr ds"
    and ne: "\<forall>r\<in>set (view_ranges s view). fst r < snd r"
  defines "boxes \<equiv> view_boxes ds (view_ranges s view)"
    and "part \<equiv> \<lambda>bx. box_node ds (run_node (precision_bytes (storage_precision s))) bx"
  shows "\<forall>bx\<in>set boxes. positive_runs (part bx) \<and> sorted_wrt (<) (node_bytes (part bx) 0)"
    and "distinct (concat (map (\<lambda>bx. node_bytes (part bx) 0) boxes))"
    and "(\<Union>bx\<in>set boxes. set (node_bytes (part bx) 0)) = (\<Union>cs\<in>set (view_coordinates s view). set (element_bytes s cs))"
proof -
  note vv = validate_view_Inr [OF v]
  let ?n = "length (shard_shape s)"
  have bo: "boxes_of ds (shard_shape s) (view_ranges s view) ?n boxes" unfolding boxes_def by (rule view_boxes_of [OF v ds ne])
  have ax: "\<forall>d\<in>set ds. digit_axis d < ?n" by (rule digits_axes(1) [OF ds vv(2)])
  obtain c0 where c0: "in_box (shard_shape s) c0" using view_coordinates_exist [OF v ne] by blast
  have lb: "length bx = length ds \<and> (\<forall>i<length ds. 0 < snd (bx ! i) \<and> fst (bx ! i) + snd (bx ! i) \<le> digit_count (ds ! i))"
    if "bx \<in> set boxes" for bx
    using bo that ax unfolding boxes_of_def by auto
  have pb: "sorted_wrt (<) (node_bytes (part bx) 0)" "positive_runs (part bx)"
      "set (node_bytes (part bx) 0) = (\<Union>cs\<in>{cs. in_box (shard_shape s) cs \<and> covers ds ?n bx cs}. set (element_bytes s cs))"
    if "bx \<in> set boxes" for bx
    using box_part_bytes [OF v b ds c0, of bx] lb [OF that] unfolding part_def by simp_all
  show "\<forall>bx\<in>set boxes. positive_runs (part bx) \<and> sorted_wrt (<) (node_bytes (part bx) 0)" using pb(1,2) by blast
  have "cs \<in> set (view_coordinates s view) \<longleftrightarrow> in_box (shard_shape s) cs \<and> (\<exists>bx\<in>set boxes. covers ds ?n bx cs)" for cs
  proof (cases "in_box (shard_shape s) cs")
    case True
    then have "(\<exists>bx\<in>set boxes. covers ds ?n bx cs) \<longleftrightarrow> (\<forall>a<?n. fst (view_ranges s view ! a) \<le> cs ! a \<and> cs ! a < snd (view_ranges s view ! a))"
      using bo unfolding boxes_of_def by blast
    then show ?thesis using True vv(3) by (simp add: view_coordinates_iff in_box_length)
  qed (use view_coordinates_in_box [OF v] in blast)
  then show "(\<Union>bx\<in>set boxes. set (node_bytes (part bx) 0)) = (\<Union>cs\<in>set (view_coordinates s view). set (element_bytes s cs))"
    using pb(3) by auto blast
  show "distinct (concat (map (\<lambda>bx. node_bytes (part bx) 0) boxes))"
  proof (rule distinct_parts)
    show "\<forall>bx\<in>set boxes. distinct (node_bytes (part bx) 0)" using pb(1) strict_sorted_iff by blast
    have dis: "sorted_wrt (\<lambda>b1 b2. \<not> (\<exists>cs. in_box (shard_shape s) cs \<and> covers ds ?n b1 cs \<and> covers ds ?n b2 cs)) boxes"
      using bo unfolding boxes_of_def by blast
    show "sorted_wrt (\<lambda>x y. set (node_bytes (part x) 0) \<inter> set (node_bytes (part y) 0) = {}) boxes"
      by (rule sorted_wrt_mono_rel [OF _ dis]) (use pb(3) element_bytes_disjoint [OF v b ds] in blast)
  qed
qed

text \<open>The view that is the whole shard: one span.\<close>

lemma whole_shard_bytes:
  assumes v: "validate_view s view = Inr u" and b: "storage_bytes s = Inr n" and ds: "digits s = Inr ds"
    and whole: "list_all (\<lambda>(a, b). extent_start a = extent_start b \<and> physical_end a = physical_end b) (zip view (storage_extents s))"
  shows "[0..<n] = sorted_list_of_set (\<Union>cs\<in>set (view_coordinates s view). set (element_bytes s cs))"
proof -
  note vv = validate_view_Inr [OF v]
  let ?e = "precision_bytes (storage_precision s)"
  have range: "view_ranges s view ! k = (0, shard_shape s ! k)" if k: "k < length view" for k
  proof -
    have "(view ! k, storage_extents s ! k) \<in> set (zip view (storage_extents s))" unfolding set_zip using k vv(1) by auto
    then have "extent_start (view ! k) = extent_start (storage_extents s ! k) \<and> physical_end (view ! k) = physical_end (storage_extents s ! k)"
      using whole unfolding list_all_iff by blast
    then show ?thesis using view_extent_ok(2) [OF v k] k vv(1) by (simp add: view_range_def shard_shape_def)
  qed
  have coords: "cs \<in> set (view_coordinates s view) \<longleftrightarrow> in_box (shard_shape s) cs" for cs
    using range vv(3,4) by (auto simp: view_coordinates_iff in_box_nth)
  have "set [0..<n] = (\<Union>cs\<in>set (view_coordinates s view). set (element_bytes s cs))"
  proof (intro set_eqI iffI)
    fix x assume "x \<in> set [0..<n]"
    then have "x < prod_list (shard_shape s) * ?e" using storage_bytes_Inr [OF b vv(2)] by simp
    then have "x div ?e < prod_list (shard_shape s)" by (simp add: less_mult_imp_div_less)
    then obtain cs where cs: "in_box (shard_shape s) cs" "physical_index s (shard_shape s) cs = Inr (x div ?e)"
      using index_bijection [OF vv(2) b ds] by blast
    have "x div ?e * ?e \<le> x \<and> x < x div ?e * ?e + ?e" by (rule div_range) simp
    then have "x \<in> set (element_bytes s cs)" by (simp add: element_bytes_def cs(2) Let_def)
    then show "x \<in> (\<Union>cs\<in>set (view_coordinates s view). set (element_bytes s cs))" using coords cs(1) by blast
  next
    fix x assume "x \<in> (\<Union>cs\<in>set (view_coordinates s view). set (element_bytes s cs))"
    then obtain cs where "in_box (shard_shape s) cs" "x \<in> set (element_bytes s cs)" using coords by blast
    then show "x \<in> set [0..<n]" using element_bytes_address [OF v b ds] by fastforce
  qed
  then show ?thesis using strict_sorted_set [of "[0..<n]"] by simp
qed

text \<open>
  C33: The physical traversal of a view: for every storage order, the iterator, which merges the
  trees of the digit boxes through a heap, yields exactly the bytes of the view's elements,
  in ascending address order and each once, as maximal runs: there is a gap after every span.
\<close>

theorem physical_traversal_ascends:
  assumes "byte_traversal s view True = Inr t" and "digits s = Inr ds"
  shows "span_bytes (traversal_spans t) = sorted_list_of_set (\<Union>cs\<in>set (view_coordinates s view). set (element_bytes s cs))
    \<and> sorted_wrt (\<lambda>a b. fst a + snd a < fst b) (traversal_spans t)"
proof -
  obtain u where v: "validate_view s view = Inr u" using assms by (auto simp: byte_traversal_def res_simps)
  note vv = validate_view_Inr [OF v]
  show ?thesis
  proof (cases "list_all (\<lambda>(a, b). extent_start a = extent_start b \<and> physical_end a = physical_end b) (zip view (storage_extents s))")
    case True
    then obtain n where b: "storage_bytes s = Inr n" and t: "t = traversal_contiguous (0, n)"
      using assms(1) v by (auto simp: byte_traversal_def res_simps)
    have spans: "traversal_spans t = [(0, n)]"
      by (simp add: t traversal_contiguous_def traversal_spans_single)
    show ?thesis using whole_shard_bytes [OF v b assms(2) True] by (simp add: spans)
  next
    case whole: False
    show ?thesis
    proof (cases "list_ex (\<lambda>e. extent_start e = physical_end e) view")
      case True
      then obtain r where r: "r \<in> set (view_ranges s view)" "\<not> fst r < snd r" using view_nonempty [OF v] by blast
      have "t = \<lparr>traversal_parts = []\<rparr>" using assms(1) True whole v by (simp add: byte_traversal_def)
      then have "traversal_spans t = []" by (simp add: traversal_spans_def span_start_def span_list_released released_empty)
      then show ?thesis using empty_view_coordinates [OF r(1)] r(2) by simp
    next
      case False
      then have ne: "\<forall>r\<in>set (view_ranges s view). fst r < snd r" using view_nonempty [OF v] by blast
      obtain n where b: "storage_bytes s = Inr n"
        and t: "traversal_parts t = map (box_node ds (run_node (precision_bytes (storage_precision s)))) (view_boxes ds (view_ranges s view))"
        using assms v False whole by (auto simp: byte_traversal_def res_simps Let_def)
      from box_parts [OF v b assms(2) ne] have "\<forall>p\<in>set (traversal_parts t). positive_runs p \<and> sorted_wrt (<) (node_bytes p 0)"
        "distinct (concat (map (\<lambda>p. node_bytes p 0) (traversal_parts t)))"
        "(\<Union>p\<in>set (traversal_parts t). set (node_bytes p 0)) = (\<Union>cs\<in>set (view_coordinates s view). set (element_bytes s cs))"
        by (simp_all add: t comp_def)
      then show ?thesis using merged_spans by simp
    qed
  qed
qed

theorem physical_traversal_ascends_witness:
  "\<exists>t. byte_traversal sample_shard sample_view True = Inr t
    \<and> sorted_wrt (\<lambda>a b. fst a + snd a < fst b) (traversal_spans t)
    \<and> span_bytes (traversal_spans t)
      = sorted_list_of_set (\<Union>cs\<in>set (product_lists [[0..<2], [4..<20], [10..<30]]). set (element_bytes sample_shard cs))"
proof -
  obtain t ds where "byte_traversal sample_shard sample_view True = Inr t" "digits sample_shard = Inr ds"
    using sample_view_facts sample_shard_facts by blast
  with physical_traversal_ascends [OF this] show ?thesis by (simp only: sample_view_facts(3)) blast
qed

end
