(* ===== verification/Arena.thy ===== *)
theory Arena
  imports Prelude TileMemory Storage "HOL-Library.Multiset"
begin

text \<open>
  Placement of one tile's storage (\<open>ipu-codegen/src/place/mod.rs\<close>): allocation requests with
  lifetimes, the arena that hands out addresses, and the placement of all requests of a tile
  in two greedy orders. \<open>domains\<close>, the shared eligibility rules, is in \<open>place/search.rs\<close>.

  The arena works in two modes. In lifetime order, requests come by increasing first event
  and storage whose last event has passed is returned to the free list; in the offline mode
  every request recomputes the free list from the history of all placements whose lifetimes
  meet its own.

  Addresses are \<open>u32\<close> values. The additions the code does not check are of addresses inside
  the available ranges, which end at \<open>APPLICATION_LOAD_LIMIT\<close>. Storage roots, block values
  and auxiliary buffers are their indexes.
\<close>

subsection \<open>Data\<close>

datatype placement_error =
    StorageFailure storage_error
  | InvalidAlias nat
  | IncompatibleAlias
  | IteratedOverlap
  | IteratedStride
  | OutOfTileMemory nat memory_class nat
  | PlacementOverflow

type_synonym 'a placement_result = "placement_error fault + 'a"

record lifetime =
  life_first :: nat
  life_last :: nat
  life_seen :: bool

record allocation_request =
  alloc_auxiliary :: "nat option"
  alloc_class :: memory_class
  alloc_stride :: "nat option"
  alloc_lifetime :: lifetime
  alloc_bytes :: nat
  alloc_alignment :: nat
  alloc_assignments :: "(nat \<times> nat) list"
  alloc_conflicts :: "nat list"

record auxiliary_request =
  aux_name :: string
  aux_bytes :: nat
  aux_alignment :: nat
  aux_first :: nat
  aux_last :: nat

record domain =
  dom_first :: nat
  dom_last :: nat
  dom_alignment :: nat
  dom_bytes :: nat

record arena =
  offline :: bool
  history :: "(lifetime \<times> nat \<times> nat) list"
  root_spans :: "nat \<rightharpoonup> nat \<times> nat"
  auxiliary_addresses :: "nat \<rightharpoonup> nat"
  arena_ranges :: "(nat \<times> nat) list"
  arena_free :: "(nat \<times> nat) list"
  active :: "(nat \<times> nat \<times> nat) list"
  occupied :: "(nat \<times> nat) list"
  interleaved_offset :: nat

definition HOST_SCRATCH_RANGE :: "nat \<times> nat" where
  "HOST_SCRATCH_RANGE = (EXCHANGE_WINDOW_BASE, EXCHANGE_WINDOW_BASE + EXCHANGE_WINDOW_BYTES)"

subsection \<open>Lifetimes\<close>

definition touch_life :: "nat \<Rightarrow> lifetime \<Rightarrow> lifetime" where
  "touch_life event l =
     (if life_seen l then l\<lparr>life_first := min (life_first l) event, life_last := max (life_last l) event\<rparr>
      else \<lparr>life_first = event, life_last = event, life_seen = True\<rparr>)"

definition include_life :: "lifetime \<Rightarrow> lifetime \<Rightarrow> lifetime" where
  "include_life other l =
     (if life_seen other then touch_life (life_last other) (touch_life (life_first other) l) else l)"

text \<open>Two lifetimes share an event.\<close>

definition lives_meet :: "lifetime \<Rightarrow> lifetime \<Rightarrow> bool" where
  "lives_meet a b \<longleftrightarrow> \<not> (life_last a < life_first b \<or> life_last b < life_first a)"

subsection \<open>Eligible addresses\<close>

definition place_align_up :: "nat \<Rightarrow> nat \<Rightarrow> nat placement_result" where
  "place_align_up val algn =
     (let a = max algn 1
      in if \<not> is_power_of_two a then Inl (Fail PlacementOverflow)
         else ok_or (checked_next_multiple_of 32 val a) (Fail PlacementOverflow))"

definition result_ok :: "'e + 'a \<Rightarrow> 'a option" where
  "result_ok r = (case r of Inl _ \<Rightarrow> None | Inr a \<Rightarrow> Some a)"

text \<open>The starts of a request in one free rng, on one side of the interleaved boundary.\<close>

definition region_domain :: "allocation_request \<Rightarrow> nat \<Rightarrow> nat \<times> nat \<Rightarrow> bool \<Rightarrow> domain option" where
  "region_domain r offset rng region1 =
     (if fst HOST_SCRATCH_RANGE \<le> fst rng \<and> snd rng \<le> snd HOST_SCRATCH_RANGE
         \<and> (life_first (alloc_lifetime r) = 0 \<or> life_last (alloc_lifetime r) = 2 ^ 32 - 1)
      then None
      else
      Option.bind
        (if region1
         then Option.bind (checked_add 32 INTERLEAVED_MEMORY_BASE (if alloc_class r = Ipu21Interleaved then offset else 0))
                (\<lambda>b. Some (max (fst rng) b, snd rng, INTERLEAVED_ELEMENT_SIZE))
         else if alloc_class r = Ipu21Interleaved then None
         else Some (fst rng, min (snd rng) INTERLEAVED_MEMORY_BASE, TILE_MEMORY_ELEMENT_SIZE))
        (\<lambda>(base, limit, element).
      let algn = max (alloc_alignment r) (if alloc_stride r \<noteq> None then element else 1)
      in Option.bind
           (case alloc_stride r of
              Some stride \<Rightarrow> if region1
                then Option.bind (try_from 32 (length (alloc_assignments r))) (checked_mul 32 stride)
                else Some (alloc_bytes r)
            | None \<Rightarrow> Some (alloc_bytes r))
           (\<lambda>bytes.
         Option.bind (result_ok (place_align_up base algn)) (\<lambda>first.
         Option.bind (checked_sub limit bytes) (\<lambda>rest.
         let final = rest div algn * algn
         in if first \<le> final
            then Some \<lparr>dom_first = first, dom_last = final, dom_alignment = algn, dom_bytes = bytes\<rparr>
            else None)))))"

definition domains :: "allocation_request \<Rightarrow> (nat \<times> nat) list \<Rightarrow> nat \<Rightarrow> (nat \<times> domain) list" where
  "domains r ranges offset =
     concat (map (\<lambda>(index, rng).
         List.map_filter (\<lambda>region1. map_option (Pair index) (region_domain r offset rng region1)) [False, True])
       (enumerate 0 ranges))"

text \<open>Logical intervals covering all physical memory elements touched by a span.\<close>

definition element_span :: "nat \<times> nat \<Rightarrow> bool \<Rightarrow> (nat \<times> nat) option" where
  "element_span s region1 =
     (let (start, end, size) =
            (if region1 then (max (fst s) INTERLEAVED_MEMORY_BASE, snd s, INTERLEAVED_ELEMENT_SIZE)
             else (fst s, min (snd s) INTERLEAVED_MEMORY_BASE, TILE_MEMORY_ELEMENT_SIZE))
      in if start < end then Some (start div size * size, div_ceil end size * size) else None)"

definition element_spans :: "nat \<times> nat \<Rightarrow> (nat \<times> nat) list" where
  "element_spans s = List.map_filter (element_span s) [False, True]"

subsection \<open>The arena\<close>

definition arena_new :: "(nat \<times> nat) list \<Rightarrow> nat \<Rightarrow> arena" where
  "arena_new ranges offset =
     \<lparr>offline = False, history = [], root_spans = Map.empty, auxiliary_addresses = Map.empty, arena_ranges = ranges,
      arena_free = ranges, active = [], occupied = [], interleaved_offset = offset\<rparr>"

definition record_placement :: "allocation_request \<Rightarrow> nat \<Rightarrow> nat \<Rightarrow> arena \<Rightarrow> arena" where
  "record_placement r start end a =
     a\<lparr>auxiliary_addresses := (case alloc_auxiliary r of Some index \<Rightarrow> (auxiliary_addresses a)(index \<mapsto> start) | None \<Rightarrow> auxiliary_addresses a),
       root_spans := foldl (\<lambda>m (root, _). m(root \<mapsto> (start, end))) (root_spans a) (alloc_assignments r),
       active := active a @ [(life_last (alloc_lifetime r), start, end - start)],
       occupied := occupied a @ [(start, end)],
       history := (if offline a then history a @ [(alloc_lifetime r, start, end)] else history a)\<rparr>"

text \<open>Offline: what the history leaves free during a lifetime.\<close>

definition free_during :: "lifetime \<Rightarrow> arena \<Rightarrow> (nat \<times> nat) list" where
  "free_during l a =
     foldl (\<lambda>fr (life, base, end).
         if life_last life < life_first l \<or> life_last l < life_first life then fr
         else concat (map (\<lambda>(start, limit). uncovered_ranges start limit [(base, end)]) fr))
       (arena_ranges a) (history a)"

text \<open>
  The loop over the active allocations: those that ended are released into the free list.
  An overflow leaves the function early (\<open>None\<close>).
\<close>

fun retain_active :: "nat \<Rightarrow> (nat \<times> nat \<times> nat) list \<Rightarrow> (nat \<times> nat) list \<Rightarrow> (nat \<times> nat \<times> nat) list option \<times> (nat \<times> nat) list" where
  "retain_active first [] fr = (Some [], fr)"
| "retain_active first ((final, address, bytes) # rest) fr =
     (if final < first
      then case checked_add 32 address bytes of
             None \<Rightarrow> (None, fr)
           | Some limit \<Rightarrow> retain_active first rest (merge_ranges (fr @ [(address, limit)]))
      else (case retain_active first rest fr of
              (retained, fr') \<Rightarrow> (map_option ((#) (final, address, bytes)) retained, fr')))"

text \<open>Move a start past every forbidden range it meets.\<close>

fun avoid :: "domain \<Rightarrow> (nat \<times> nat) list \<Rightarrow> nat \<Rightarrow> nat option" where
  "avoid d [] start = Some start"
| "avoid d ((a, b) # rest) start =
     (if start < b
      then Option.bind (checked_add 32 start (dom_bytes d)) (\<lambda>end.
             if a < end then Option.bind (result_ok (place_align_up b (dom_alignment d))) (avoid d rest)
             else avoid d rest start)
      else avoid d rest start)"

text \<open>\<open>min_by_key\<close>: the first element with the least key.\<close>

definition first_min :: "('a \<Rightarrow> 'k::linorder) \<Rightarrow> 'a list \<Rightarrow> 'a option" where
  "first_min key xs = (if xs = [] then None else Some (arg_min_list key xs))"

definition arena_candidate :: "(nat \<times> nat) list \<Rightarrow> nat \<times> domain \<Rightarrow> ((bool \<times> nat) \<times> nat \<times> nat \<times> nat) option" where
  "arena_candidate forbidden c =
     (case c of (index, d) \<Rightarrow>
        Option.bind (avoid d forbidden (dom_first d)) (\<lambda>start.
        if start \<le> dom_last d
        then Some ((INTERLEAVED_MEMORY_BASE \<le> start, start), index, start, start + dom_bytes d)
        else None))"

text \<open>Take the chosen interval out of its free range.\<close>

definition take_free :: "nat \<Rightarrow> nat \<Rightarrow> nat \<Rightarrow> (nat \<times> nat) list \<Rightarrow> (nat \<times> nat) list" where
  "take_free index start end fr =
     (let (base, limit) = fr ! index
      in sort (take index fr @ drop (Suc index) fr
                @ (if base < start then [(base, start)] else []) @ (if end < limit then [(end, limit)] else [])))"

definition arena_allocate :: "allocation_request \<Rightarrow> arena \<Rightarrow> nat option \<times> arena" where
  "arena_allocate r a0 =
     (let a = (if offline a0 then a0\<lparr>arena_free := free_during (alloc_lifetime r) a0, active := []\<rparr> else a0)
      in case retain_active (life_first (alloc_lifetime r)) (active a) (arena_free a) of
           (None, fr) \<Rightarrow> (None, a\<lparr>active := [], arena_free := fr\<rparr>)
         | (Some retained, fr) \<Rightarrow>
            (let a' = a\<lparr>active := retained, arena_free := fr\<rparr>;
                 forbidden = merge_ranges (concat (map element_spans (List.map_filter (root_spans a') (alloc_conflicts r))));
                 candidates = List.map_filter (arena_candidate forbidden) (domains r (arena_free a') (interleaved_offset a'))
             in case first_min (\<lambda>c. (fst c, fst (snd c))) candidates of
                  None \<Rightarrow> (None, a')
                | Some (_, index, start, end) \<Rightarrow>
                    (Some start, record_placement r start end (a'\<lparr>arena_free := take_free index start end fr\<rparr>))))"

definition unused_ranges :: "arena \<Rightarrow> (nat \<times> nat) list" where
  "unused_ranges a =
     (let merged = merge_ranges (occupied a)
      in concat (map (\<lambda>(base, limit). uncovered_ranges base limit merged)
           (filter (\<lambda>rng. rng \<noteq> HOST_SCRATCH_RANGE) (arena_ranges a))))"

subsection \<open>Ranges\<close>

abbreviation ordered_ranges :: "(nat \<times> nat) list \<Rightarrow> bool" where
  "ordered_ranges rs \<equiv> (\<forall>r\<in>set rs. fst r \<le> snd r)"

abbreviation spread :: "(nat \<times> nat) list \<Rightarrow> bool" where
  "spread rs \<equiv> sorted_wrt (\<lambda>a b. snd a < fst b) rs"

definition disjoint_spans :: "(nat \<times> nat) list \<Rightarrow> bool" where
  "disjoint_spans rs \<longleftrightarrow> sorted_wrt (\<lambda>a b. span a \<inter> span b = {}) rs"

lemma disjoint_spans_simps [simp]:
  "disjoint_spans []" "disjoint_spans (r # rs) \<longleftrightarrow> span r \<inter> covered rs = {} \<and> disjoint_spans rs"
  "disjoint_spans (rs @ rs') \<longleftrightarrow> disjoint_spans rs \<and> disjoint_spans rs' \<and> covered rs \<inter> covered rs' = {}"
  unfolding disjoint_spans_def covered_def sorted_wrt_append by auto

lemma sorted_wrt_symmetric:
  assumes "\<And>x y. R x y \<Longrightarrow> R y x"
  shows "mset xs = mset ys \<Longrightarrow> sorted_wrt R xs \<Longrightarrow> sorted_wrt R ys"
proof (induction xs arbitrary: ys)
  case (Cons x xs)
  then have "x \<in> set ys" by (metis list.set_intros(1) mset_eq_setD)
  then obtain us vs where ys: "ys = us @ x # vs" by (meson split_list)
  then have m: "mset xs = mset (us @ vs)" using Cons.prems(1) by simp
  have "sorted_wrt R (us @ vs)" using Cons.IH [OF m] Cons.prems(2) by simp
  moreover have "\<forall>y\<in>set us \<union> set vs. R x y" using mset_eq_setD [OF m] Cons.prems(2) by auto
  ultimately show ?case using assms by (auto simp: ys sorted_wrt_append)
qed simp

lemma disjoint_spans_mset: "mset rs = mset rs' \<Longrightarrow> disjoint_spans rs \<Longrightarrow> disjoint_spans rs'"
  unfolding disjoint_spans_def by (rule sorted_wrt_symmetric) auto

lemma covered_set: "set rs = set rs' \<Longrightarrow> covered rs = covered rs'"
  by (simp add: covered_def)

lemma spread_disjoint: "ordered_ranges rs \<Longrightarrow> spread rs \<Longrightarrow> disjoint_spans rs"
proof (induction rs)
  case (Cons r rs)
  have "span r \<inter> span q = {}" if "q \<in> set rs" for q
    using that Cons.prems by (fastforce simp: span_def)
  then show ?case using Cons by (auto simp: covered_def)
qed simp

lemma merge_step_spread:
  assumes "ordered_ranges merged" "spread merged" "fst r \<le> snd r" "\<forall>q\<in>set merged. fst q \<le> fst r"
  shows "ordered_ranges (merge_step merged r) \<and> spread (merge_step merged r)
    \<and> covered (merge_step merged r) = covered merged \<union> span r \<and> (\<forall>q\<in>set (merge_step merged r). fst q \<le> fst r)"
proof (cases merged rule: rev_cases)
  case Nil then show ?thesis using assms(3) by (auto simp: merge_step_def split_beta)
next
  case (snoc us l)
  show ?thesis
  proof (cases "fst r \<le> snd l")
    case True
    have "span (fst l, max (snd l) (snd r)) = span l \<union> span r"
      using True assms(1,4) snoc by (auto simp: span_def)
    moreover have "merge_step merged r = us @ [(fst l, max (snd l) (snd r))]"
      using True snoc by (simp add: merge_step_def split_beta)
    ultimately show ?thesis using assms snoc by (auto simp: sorted_wrt_append)
  next
    case False
    then have m: "merge_step merged r = merged @ [r]" using snoc by (simp add: merge_step_def split_beta)
    have "snd q < fst r" if "q \<in> set merged" for q
    proof (cases "q = l")
      case True then show ?thesis using False by simp
    next
      case q: False
      then have "snd q < fst l" "fst l \<le> snd l" using that assms(1,2) snoc by (auto simp: sorted_wrt_append)
      then show ?thesis using False by simp
    qed
    then show ?thesis using assms m by (auto simp: sorted_wrt_append)
  qed
qed

lemma merge_fold_spread:
  "ordered_ranges merged \<Longrightarrow> spread merged \<Longrightarrow> sorted rs \<Longrightarrow> ordered_ranges rs \<Longrightarrow>
   (\<forall>q\<in>set merged. \<forall>r\<in>set rs. fst q \<le> fst r) \<Longrightarrow>
   ordered_ranges (foldl merge_step merged rs) \<and> spread (foldl merge_step merged rs)
   \<and> covered (foldl merge_step merged rs) = covered merged \<union> covered rs"
proof (induction rs arbitrary: merged)
  case (Cons r rs)
  note st = merge_step_spread [OF Cons.prems(1,2), of r]
  have pre: "fst r \<le> snd r" "\<forall>q\<in>set merged. fst q \<le> fst r" using Cons.prems(4,5) by auto
  have "\<forall>p\<in>set rs. fst r \<le> fst p" using Cons.prems(3) by (auto simp: less_eq_prod_def)
  then have "\<forall>q\<in>set (merge_step merged r). \<forall>p\<in>set rs. fst q \<le> fst p"
    using st [OF pre] by (meson order_trans)
  then show ?case using Cons.IH [of "merge_step merged r"] st [OF pre] Cons.prems(3,4) by (simp add: Un_assoc)
qed simp

text \<open>Merging ranges that may be empty.\<close>

lemma merge_ranges_spread:
  "ordered_ranges rs \<Longrightarrow> ordered_ranges (merge_ranges rs) \<and> spread (merge_ranges rs) \<and> covered (merge_ranges rs) = covered rs"
proof -
  assume "ordered_ranges rs"
  then have o: "ordered_ranges (sort rs)" by simp
  show ?thesis
    using merge_fold_spread [OF _ _ sorted_sort o, of "[]"] covered_set [of "sort rs" rs]
    unfolding merge_ranges_def by simp
qed

lemma uncovered_single:
  assumes "a \<le> b"
  shows "ordered_ranges (uncovered_ranges start end [(a, b)]) \<and> disjoint_spans (uncovered_ranges start end [(a, b)])
    \<and> covered (uncovered_ranges start end [(a, b)]) = {start..<end} - {a..<b}"
  using assms by (auto simp: uncovered_ranges_def span_def)

subsection \<open>Candidates\<close>

lemma place_align_up_Inr:
  "place_align_up v algn = Inr c \<Longrightarrow> is_power_of_two (max algn 1) \<and> v \<le> c \<and> max algn 1 dvd c"
  using checked_next_multiple_of_Some(1,2) [of 32 v "max algn 1" c]
  by (auto simp: place_align_up_def res_simps Let_def split: if_splits)

lemma result_ok_Some: "result_ok r = Some a \<longleftrightarrow> r = Inr a"
  by (cases r) (simp_all add: result_ok_def)

text \<open>
  The alignment of a request on one side of the interleaved boundary: its own, and a whole memory
  element of that side when it has a stride.
\<close>

definition side_alignment :: "allocation_request \<Rightarrow> bool \<Rightarrow> nat" where
  "side_alignment r region1 =
     max (alloc_alignment r)
       (if alloc_stride r = None then 1 else if region1 then INTERLEAVED_ELEMENT_SIZE else TILE_MEMORY_ELEMENT_SIZE)"

text \<open>The side of an interval of some bytes; an empty one at or above the boundary may be on either.\<close>

definition on_side :: "nat \<Rightarrow> nat \<Rightarrow> bool \<Rightarrow> bool" where
  "on_side start bytes region1 \<longleftrightarrow>
     (start < INTERLEAVED_MEMORY_BASE \<longrightarrow> \<not> region1) \<and> (INTERLEAVED_MEMORY_BASE \<le> start \<and> 0 < bytes \<longrightarrow> region1)"

lemma side_alignment_pos: "0 < side_alignment r region1"
  by (simp add: side_alignment_def memory_constants less_max_iff_disj)

lemma side_alignment_none: "alloc_stride r = None \<Longrightarrow> side_alignment r region1 = max (alloc_alignment r) 1"
  by (simp add: side_alignment_def)

lemma power_of_two_dvd: "is_power_of_two a \<Longrightarrow> is_power_of_two b \<Longrightarrow> a \<le> b \<Longrightarrow> a dvd b"
  by (auto simp: is_power_of_two_iff le_imp_power_dvd)

lemma side_alignment_own:
  assumes "is_power_of_two (alloc_alignment r)" and "is_power_of_two (side_alignment r region1)"
  shows "alloc_alignment r dvd side_alignment r region1"
  by (rule power_of_two_dvd [OF assms]) (simp add: side_alignment_def)

text \<open>A domain: aligned first and last starts, nothing below the range and nothing above it.\<close>

definition domain_in :: "allocation_request \<Rightarrow> nat \<Rightarrow> nat \<times> nat \<Rightarrow> domain \<Rightarrow> bool" where
  "domain_in r offset rng d \<longleftrightarrow>
     0 < dom_alignment d \<and> dom_alignment d dvd dom_first d \<and> dom_alignment d dvd dom_last d
   \<and> dom_first d \<le> dom_last d \<and> fst rng \<le> dom_first d \<and> dom_last d + dom_bytes d \<le> snd rng
   \<and> (INTERLEAVED_MEMORY_BASE \<le> dom_first d \<or> dom_last d + dom_bytes d \<le> INTERLEAVED_MEMORY_BASE)
   \<and> (alloc_class r = Ipu21Interleaved \<longrightarrow> INTERLEAVED_MEMORY_BASE + offset \<le> dom_first d)
   \<and> is_power_of_two (dom_alignment d)
   \<and> (\<exists>region1. on_side (dom_first d) (dom_bytes d) region1 \<and> dom_alignment d = side_alignment r region1)
   \<and> (alloc_stride r = None \<or> dom_first d < INTERLEAVED_MEMORY_BASE \<longrightarrow> dom_bytes d = alloc_bytes r)
   \<and> (\<forall>stride. alloc_stride r = Some stride \<and> INTERLEAVED_MEMORY_BASE \<le> dom_first d \<and> 0 < dom_bytes d \<longrightarrow>
        dom_bytes d = stride * length (alloc_assignments r))
   \<and> (dom_bytes d = alloc_bytes r
     \<or> (\<exists>stride. alloc_stride r = Some stride \<and> INTERLEAVED_MEMORY_BASE \<le> dom_first d \<and> dom_bytes d = stride * length (alloc_assignments r)))
   \<and> (life_first (alloc_lifetime r) = 0 \<or> life_last (alloc_lifetime r) = 2 ^ 32 - 1 \<longrightarrow>
        \<not> (fst HOST_SCRATCH_RANGE \<le> fst rng \<and> snd rng \<le> snd HOST_SCRATCH_RANGE))"

lemma domain_inD:
  assumes "domain_in r offset rng d"
  shows "0 < dom_alignment d" "dom_alignment d dvd dom_first d" "dom_alignment d dvd dom_last d" "dom_first d \<le> dom_last d"
    "fst rng \<le> dom_first d" "dom_last d + dom_bytes d \<le> snd rng"
    "INTERLEAVED_MEMORY_BASE \<le> dom_first d \<or> dom_last d + dom_bytes d \<le> INTERLEAVED_MEMORY_BASE"
    "alloc_class r = Ipu21Interleaved \<Longrightarrow> INTERLEAVED_MEMORY_BASE + offset \<le> dom_first d"
    "\<exists>region1. on_side (dom_first d) (dom_bytes d) region1 \<and> dom_alignment d = side_alignment r region1"
    "alloc_stride r = None \<or> dom_first d < INTERLEAVED_MEMORY_BASE \<Longrightarrow> dom_bytes d = alloc_bytes r"
    "alloc_stride r = Some stride \<Longrightarrow> INTERLEAVED_MEMORY_BASE \<le> dom_first d \<Longrightarrow> 0 < dom_bytes d \<Longrightarrow>
      dom_bytes d = stride * length (alloc_assignments r)"
    "dom_bytes d = alloc_bytes r
     \<or> (\<exists>stride. alloc_stride r = Some stride \<and> INTERLEAVED_MEMORY_BASE \<le> dom_first d \<and> dom_bytes d = stride * length (alloc_assignments r))"
    "life_first (alloc_lifetime r) = 0 \<or> life_last (alloc_lifetime r) = 2 ^ 32 - 1 \<Longrightarrow>
      \<not> (fst HOST_SCRATCH_RANGE \<le> fst rng \<and> snd rng \<le> snd HOST_SCRATCH_RANGE)"
    "is_power_of_two (dom_alignment d)"
  using assms unfolding domain_in_def by blast+

lemma region_domain_Some:
  assumes "region_domain r offset rng region1 = Some d"
  shows "domain_in r offset rng d"
proof -
  let ?host = "fst HOST_SCRATCH_RANGE \<le> fst rng \<and> snd rng \<le> snd HOST_SCRATCH_RANGE
      \<and> (life_first (alloc_lifetime r) = 0 \<or> life_last (alloc_lifetime r) = 2 ^ 32 - 1)"
  have nh: "\<not> ?host"
  proof
    assume h: ?host
    have "region_domain r offset rng region1 = None" unfolding region_domain_def by (rule if_P [OF h])
    then show False using assms by simp
  qed
  obtain base limit element bytes rest where
    region: "(if region1
         then Option.bind (checked_add 32 INTERLEAVED_MEMORY_BASE (if alloc_class r = Ipu21Interleaved then offset else 0))
                (\<lambda>b. Some (max (fst rng) b, snd rng, INTERLEAVED_ELEMENT_SIZE))
         else if alloc_class r = Ipu21Interleaved then None
         else Some (fst rng, min (snd rng) INTERLEAVED_MEMORY_BASE, TILE_MEMORY_ELEMENT_SIZE)) = Some (base, limit, element)"
    and bytes: "(case alloc_stride r of
              Some stride \<Rightarrow> if region1
                then Option.bind (try_from 32 (length (alloc_assignments r))) (checked_mul 32 stride)
                else Some (alloc_bytes r)
            | None \<Rightarrow> Some (alloc_bytes r)) = Some bytes"
    and first: "place_align_up base (max (alloc_alignment r) (if alloc_stride r \<noteq> None then element else 1)) = Inr (dom_first d)"
    and rest: "checked_sub limit bytes = Some rest"
    and d: "dom_alignment d = max (alloc_alignment r) (if alloc_stride r \<noteq> None then element else 1)"
      "dom_last d = rest div dom_alignment d * dom_alignment d" "dom_bytes d = bytes" "dom_first d \<le> dom_last d"
  proof -
    from assms [unfolded region_domain_def if_not_P [OF nh]] obtain t where
      t: "(if region1
         then Option.bind (checked_add 32 INTERLEAVED_MEMORY_BASE (if alloc_class r = Ipu21Interleaved then offset else 0))
                (\<lambda>b. Some (max (fst rng) b, snd rng, INTERLEAVED_ELEMENT_SIZE))
         else if alloc_class r = Ipu21Interleaved then None
         else Some (fst rng, min (snd rng) INTERLEAVED_MEMORY_BASE, TILE_MEMORY_ELEMENT_SIZE)) = Some t"
      and u: "(case t of (base, limit, element) \<Rightarrow>
      let algn = max (alloc_alignment r) (if alloc_stride r \<noteq> None then element else 1)
      in Option.bind
           (case alloc_stride r of
              Some stride \<Rightarrow> if region1
                then Option.bind (try_from 32 (length (alloc_assignments r))) (checked_mul 32 stride)
                else Some (alloc_bytes r)
            | None \<Rightarrow> Some (alloc_bytes r))
           (\<lambda>bytes.
         Option.bind (result_ok (place_align_up base algn)) (\<lambda>first.
         Option.bind (checked_sub limit bytes) (\<lambda>rest.
         let final = rest div algn * algn
         in if first \<le> final
            then Some \<lparr>dom_first = first, dom_last = final, dom_alignment = algn, dom_bytes = bytes\<rparr>
            else None)))) = Some d"
      unfolding bind_eq_Some_conv by blast
    obtain base limit element where e: "t = (base, limit, element)" by (metis surj_pair)
    from u obtain bytes first rest where "result_ok (place_align_up base (max (alloc_alignment r) (if alloc_stride r \<noteq> None then element else 1))) = Some first"
      "checked_sub limit bytes = Some rest"
      and bytes: "(case alloc_stride r of
              Some stride \<Rightarrow> if region1
                then Option.bind (try_from 32 (length (alloc_assignments r))) (checked_mul 32 stride)
                else Some (alloc_bytes r)
            | None \<Rightarrow> Some (alloc_bytes r)) = Some bytes"
      and d: "(let final = rest div max (alloc_alignment r) (if alloc_stride r \<noteq> None then element else 1)
            * max (alloc_alignment r) (if alloc_stride r \<noteq> None then element else 1)
         in if first \<le> final
            then Some \<lparr>dom_first = first, dom_last = final,
              dom_alignment = max (alloc_alignment r) (if alloc_stride r \<noteq> None then element else 1), dom_bytes = bytes\<rparr>
            else None) = Some d"
      unfolding e prod.case Let_def bind_eq_Some_conv by blast
    moreover from d have "dom_first d = first" "dom_last d = rest div dom_alignment d * dom_alignment d" "dom_bytes d = bytes"
      "dom_alignment d = max (alloc_alignment r) (if alloc_stride r \<noteq> None then element else 1)" "dom_first d \<le> dom_last d"
      unfolding Let_def by (auto split: if_split_asm)
    ultimately show ?thesis using that t unfolding e result_ok_Some by blast
  qed
  have element: "0 < element" using region by (auto simp: bind_eq_Some_conv memory_constants split: if_splits)
  then have algn: "0 < dom_alignment d" "max (dom_alignment d) 1 = dom_alignment d"
    by (auto simp: d(1) less_max_iff_disj)
  note al = place_align_up_Inr [OF first]
  have bounds: "fst rng \<le> base" "limit \<le> snd rng"
    "region1 \<Longrightarrow> INTERLEAVED_MEMORY_BASE \<le> base" "\<not> region1 \<Longrightarrow> limit \<le> INTERLEAVED_MEMORY_BASE"
    "alloc_class r = Ipu21Interleaved \<Longrightarrow> INTERLEAVED_MEMORY_BASE + offset \<le> base"
    using region by (auto simp: bind_eq_Some_conv checked_add_def split: if_splits)
  have r: "rest + bytes = limit" using rest by (auto simp: checked_sub_def split: if_splits)
  have last: "dom_last d \<le> rest" by (simp add: d(2))
  have lower: "base \<le> dom_first d" using al by simp
  have b0: "alloc_stride r = None \<or> \<not> region1 \<Longrightarrow> bytes = alloc_bytes r"
    and b1: "\<And>stride. alloc_stride r = Some stride \<Longrightarrow> region1 \<Longrightarrow> bytes = stride * length (alloc_assignments r)"
    using bytes by (auto simp: bind_eq_Some_conv checked_mul_def try_from_def split: if_splits option.splits)
  have top: "dom_last d + dom_bytes d \<le> limit" using last r d(3) by simp
  show ?thesis
    unfolding domain_in_def
  proof (intro conjI)
    show "dom_alignment d dvd dom_first d" using al algn(2) by (simp add: d(1))
    show "dom_alignment d dvd dom_last d" by (simp add: d(2))
    show "INTERLEAVED_MEMORY_BASE \<le> dom_first d \<or> dom_last d + dom_bytes d \<le> INTERLEAVED_MEMORY_BASE"
      using bounds(3,4) lower top by (cases region1) simp_all
    show "alloc_stride r = None \<or> dom_first d < INTERLEAVED_MEMORY_BASE \<longrightarrow> dom_bytes d = alloc_bytes r"
      using b0 bounds(3) lower by (cases region1) (auto simp: d(3))
    show "\<forall>stride. alloc_stride r = Some stride \<and> INTERLEAVED_MEMORY_BASE \<le> dom_first d \<and> 0 < dom_bytes d \<longrightarrow>
        dom_bytes d = stride * length (alloc_assignments r)"
    proof (cases region1)
      case True
      then show ?thesis using b1 by (simp add: d(3))
    next
      case False
      then have "dom_first d + dom_bytes d \<le> INTERLEAVED_MEMORY_BASE" using bounds(4) top d(4) by linarith
      then show ?thesis by (intro allI impI) (elim conjE, linarith)
    qed
    show "dom_bytes d = alloc_bytes r
     \<or> (\<exists>stride. alloc_stride r = Some stride \<and> INTERLEAVED_MEMORY_BASE \<le> dom_first d \<and> dom_bytes d = stride * length (alloc_assignments r))"
      using b0 b1 bounds(3) lower by (cases "alloc_stride r"; cases region1) (auto simp: d(3))
    show "is_power_of_two (dom_alignment d)" using al algn(2) by (simp add: d(1))
    have "on_side (dom_first d) (dom_bytes d) region1"
      unfolding on_side_def using bounds(3,4) lower top d(4) by (cases region1) auto
    moreover have "dom_alignment d = side_alignment r region1"
      using region by (auto simp: d(1) side_alignment_def bind_eq_Some_conv split: if_splits)
    ultimately show "\<exists>region1. on_side (dom_first d) (dom_bytes d) region1 \<and> dom_alignment d = side_alignment r region1"
      by blast
  qed (use algn d(4) bounds(1,2,5) lower top nh in auto)
qed

lemma map_filter_mem: "y \<in> set (List.map_filter f xs) \<longleftrightarrow> (\<exists>x\<in>set xs. f x = Some y)"
  by (induction xs) (auto simp: map_filter_simps split: option.splits)

lemma domains_mem:
  "(index, d) \<in> set (domains r ranges offset) \<Longrightarrow> index < length ranges \<and> domain_in r offset (ranges ! index) d"
proof -
  assume "(index, d) \<in> set (domains r ranges offset)"
  then obtain i rng where m: "(i, rng) \<in> set (enumerate 0 ranges)"
    "(index, d) \<in> set (List.map_filter (\<lambda>region1. map_option (Pair i) (region_domain r offset rng region1)) [False, True])"
    unfolding domains_def set_concat set_map by (auto simp del: map_filter_simps)
  from m(2) obtain region1 where "region_domain r offset rng region1 = Some d" "i = index"
    unfolding map_filter_mem by auto
  moreover from m(1) have "i < length ranges" "ranges ! i = rng" by (auto simp: in_set_enumerate_eq)
  ultimately have "index < length ranges" "region_domain r offset (ranges ! index) region1 = Some d" by simp_all
  then show ?thesis using region_domain_Some by blast
qed

text \<open>The start \<open>avoid\<close> returns meets no forbidden range.\<close>

lemma avoid_stays:
  "avoid d rest start = Some s \<Longrightarrow> \<forall>q\<in>set rest. start + dom_bytes d \<le> fst q \<Longrightarrow> s = start"
  by (induction d rest start rule: avoid.induct) (auto simp: bind_eq_Some_conv checked_add_def split: if_splits)

lemma avoid_Some:
  "avoid d forbidden start = Some s \<Longrightarrow> ordered_ranges forbidden \<Longrightarrow> spread forbidden \<Longrightarrow> 0 < dom_alignment d \<Longrightarrow>
   start \<le> s \<and> {s..<s + dom_bytes d} \<inter> covered forbidden = {} \<and> (dom_alignment d dvd start \<longrightarrow> dom_alignment d dvd s)"
proof (induction d forbidden start rule: avoid.induct)
  case (2 d a b rest start)
  have next_range: "b < fst q" if "q \<in> set rest" for q using that 2(6) by auto
  have pre: "ordered_ranges rest" "spread rest" "a \<le> b" using 2(5,6) by auto
  consider (past) "\<not> start < b" | (before) e where "start < b" "checked_add 32 start (dom_bytes d) = Some e" "\<not> a < e"
    | (moved) e c where "start < b" "checked_add 32 start (dom_bytes d) = Some e" "a < e"
        "place_align_up b (dom_alignment d) = Inr c" "avoid d rest c = Some s"
    using 2(4) by (auto simp: bind_eq_Some_conv result_ok_Some split: if_splits)
  then show ?case
  proof cases
    case past
    then have "start \<le> s \<and> {s..<s + dom_bytes d} \<inter> covered rest = {} \<and> (dom_alignment d dvd start \<longrightarrow> dom_alignment d dvd s)"
      using 2(3) [OF past] 2(4) pre 2(7) by simp
    then show ?thesis using past by (auto simp: span_def)
  next
    case before
    then have e: "e = start + dom_bytes d" by (simp add: checked_add_def split: if_splits)
    have "\<forall>q\<in>set rest. start + dom_bytes d \<le> fst q"
    proof
      fix q assume "q \<in> set rest"
      then have "b < fst q" by (rule next_range)
      then show "start + dom_bytes d \<le> fst q" using before(3) pre(3) e by linarith
    qed
    note far = this
    have "avoid d rest start = Some s" using 2(4) before by simp
    then have s: "s = start" by (rule avoid_stays [OF _ far])
    have "{start..<start + dom_bytes d} \<inter> span q = {}" if "q = (a, b) \<or> q \<in> set rest" for q
    proof -
      have "start + dom_bytes d \<le> fst q" using that far before(3) e by auto
      then show ?thesis by (auto simp: span_def)
    qed
    then show ?thesis by (auto simp: s covered_def)
  next
    case moved
    note al = place_align_up_Inr [OF moved(4)]
    have m: "max (dom_alignment d) 1 = dom_alignment d" using 2(7) by simp
    have "c \<le> s \<and> {s..<s + dom_bytes d} \<inter> covered rest = {} \<and> (dom_alignment d dvd c \<longrightarrow> dom_alignment d dvd s)"
      using 2(1) [OF moved(1-3)] moved(4,5) pre 2(7) by (simp add: result_ok_def)
    then show ?thesis using al m moved(1) by (auto simp: span_def)
  qed
qed simp

lemma first_min_mem: "first_min key xs = Some x \<Longrightarrow> x \<in> set xs"
  by (auto simp: first_min_def arg_min_list_in split: if_splits)

text \<open>The arithmetic of a chosen interval.\<close>

definition placed_in :: "allocation_request \<Rightarrow> nat \<Rightarrow> nat \<times> nat \<Rightarrow> nat \<Rightarrow> nat \<Rightarrow> bool" where
  "placed_in r offset rng start end \<longleftrightarrow>
     start \<le> end \<and> fst rng \<le> start \<and> end \<le> snd rng
   \<and> (INTERLEAVED_MEMORY_BASE \<le> start \<or> end \<le> INTERLEAVED_MEMORY_BASE)
   \<and> (alloc_class r = Ipu21Interleaved \<longrightarrow> INTERLEAVED_MEMORY_BASE + offset \<le> start)
   \<and> (\<exists>region1. on_side start (end - start) region1 \<and> is_power_of_two (side_alignment r region1)
        \<and> side_alignment r region1 dvd start)
   \<and> (alloc_stride r = None \<or> start < INTERLEAVED_MEMORY_BASE \<longrightarrow> end = start + alloc_bytes r)
   \<and> (\<forall>stride. alloc_stride r = Some stride \<and> INTERLEAVED_MEMORY_BASE \<le> start \<and> start < end \<longrightarrow>
        end = start + stride * length (alloc_assignments r))
   \<and> (end = start + alloc_bytes r
     \<or> (\<exists>stride. alloc_stride r = Some stride \<and> INTERLEAVED_MEMORY_BASE \<le> start \<and> end = start + stride * length (alloc_assignments r)))
   \<and> (life_first (alloc_lifetime r) = 0 \<or> life_last (alloc_lifetime r) = 2 ^ 32 - 1 \<longrightarrow>
        \<not> (fst HOST_SCRATCH_RANGE \<le> fst rng \<and> snd rng \<le> snd HOST_SCRATCH_RANGE))"

lemma domain_start:
  assumes "domain_in r offset rng d" and "dom_first d \<le> s" "s \<le> dom_last d" and "dom_alignment d dvd s"
  shows "placed_in r offset rng s (s + dom_bytes d)"
proof -
  note d = domain_inD [OF assms(1)]
  have side: "INTERLEAVED_MEMORY_BASE \<le> dom_first d \<or> s + dom_bytes d \<le> INTERLEAVED_MEMORY_BASE"
    using d(7) assms(3) by linarith
  show ?thesis unfolding placed_in_def
  proof (intro conjI)
    show "INTERLEAVED_MEMORY_BASE \<le> s \<or> s + dom_bytes d \<le> INTERLEAVED_MEMORY_BASE" using side assms(2) by linarith
    show "alloc_class r = Ipu21Interleaved \<longrightarrow> INTERLEAVED_MEMORY_BASE + offset \<le> s" using d(8) assms(2) by linarith
    from d(9) obtain region1 where region1: "on_side (dom_first d) (dom_bytes d) region1" "dom_alignment d = side_alignment r region1"
      by blast
    have "on_side s (dom_bytes d) region1" using region1(1) side assms(2) unfolding on_side_def by linarith
    then show "\<exists>region1. on_side s (s + dom_bytes d - s) region1 \<and> is_power_of_two (side_alignment r region1)
        \<and> side_alignment r region1 dvd s"
      using region1(2) assms(4) d(14) by auto
    show "alloc_stride r = None \<or> s < INTERLEAVED_MEMORY_BASE \<longrightarrow> s + dom_bytes d = s + alloc_bytes r"
      using d(10) assms(2) by linarith
    show "\<forall>stride. alloc_stride r = Some stride \<and> INTERLEAVED_MEMORY_BASE \<le> s \<and> s < s + dom_bytes d \<longrightarrow>
        s + dom_bytes d = s + stride * length (alloc_assignments r)"
    proof (intro allI impI)
      fix stride assume h: "alloc_stride r = Some stride \<and> INTERLEAVED_MEMORY_BASE \<le> s \<and> s < s + dom_bytes d"
      then have "INTERLEAVED_MEMORY_BASE \<le> dom_first d" using side by linarith
      then show "s + dom_bytes d = s + stride * length (alloc_assignments r)" using d(11) h by simp
    qed
    show "s + dom_bytes d = s + alloc_bytes r
     \<or> (\<exists>stride. alloc_stride r = Some stride \<and> INTERLEAVED_MEMORY_BASE \<le> s \<and> s + dom_bytes d = s + stride * length (alloc_assignments r))"
      using d(12) assms(2) order_trans by fastforce
    show "fst rng \<le> s" using d(5) assms(2) by linarith
    show "s + dom_bytes d \<le> snd rng" using d(6) assms(3) by linarith
    show "life_first (alloc_lifetime r) = 0 \<or> life_last (alloc_lifetime r) = 2 ^ 32 - 1 \<longrightarrow>
        \<not> (fst HOST_SCRATCH_RANGE \<le> fst rng \<and> snd rng \<le> snd HOST_SCRATCH_RANGE)" using d(13) by blast
  qed simp
qed

subsection \<open>One allocation\<close>

abbreviation active_spans :: "(nat \<times> nat \<times> nat) list \<Rightarrow> (nat \<times> nat) list" where
  "active_spans act \<equiv> map (\<lambda>(_, address, bytes). (address, address + bytes)) act"

text \<open>Releasing moves the ended allocations into the free list.\<close>

lemma retain_active_Some:
  "retain_active first act fr = (Some kept, fr') \<Longrightarrow> ordered_ranges fr \<Longrightarrow> disjoint_spans (fr @ active_spans act) \<Longrightarrow>
   kept = filter (\<lambda>x. first \<le> fst x) act \<and> ordered_ranges fr' \<and> disjoint_spans (fr' @ active_spans kept)
   \<and> covered fr \<subseteq> covered fr' \<and> covered fr' \<union> covered (active_spans kept) = covered fr \<union> covered (active_spans act)"
proof (induction first act fr arbitrary: kept rule: retain_active.induct)
  case (2 first final address bytes rest fr)
  show ?case
  proof (cases "final < first")
    case True
    then obtain limit where l: "checked_add 32 address bytes = Some limit"
      "retain_active first rest (merge_ranges (fr @ [(address, limit)])) = (Some kept, fr')"
      using "2.prems"(1) by (auto split: option.splits)
    then have limit: "limit = address + bytes" by (simp add: checked_add_def split: if_splits)
    have m: "ordered_ranges (merge_ranges (fr @ [(address, limit)]))" "spread (merge_ranges (fr @ [(address, limit)]))"
      "covered (merge_ranges (fr @ [(address, limit)])) = covered fr \<union> span (address, limit)"
      using merge_ranges_spread [of "fr @ [(address, limit)]"] "2.prems"(2) limit by auto
    have "disjoint_spans (merge_ranges (fr @ [(address, limit)]) @ active_spans rest)"
      using "2.prems"(3) m spread_disjoint [OF m(1,2)] limit by auto
    from "2.IH"(1) [OF True l m(1) this] show ?thesis using True m(3) limit by auto
  next
    case False
    then obtain kept' where k: "retain_active first rest fr = (Some kept', fr')" "kept = (final, address, bytes) # kept'"
      using "2.prems"(1) by (auto split: prod.splits)
    have "disjoint_spans (fr @ active_spans rest)" using "2.prems"(3) by auto
    note IH = "2.IH"(2) [OF False k(1) "2.prems"(2) this]
    have "span (address, address + bytes) \<inter> (covered fr \<union> covered (active_spans rest)) = {}" using "2.prems"(3) by auto
    then show ?thesis using IH False k(2) by auto
  qed
qed (auto simp: covered_def)

text \<open>Taking an interval out of a free range.\<close>

lemma take_free_spans:
  assumes "ordered_ranges fr" "disjoint_spans (fr @ others)" "index < length fr"
    and "fst (fr ! index) \<le> start" "start \<le> end" "end \<le> snd (fr ! index)"
  shows "ordered_ranges (take_free index start end fr)"
    and "disjoint_spans (take_free index start end fr @ others @ [(start, end)])"
    and "covered (take_free index start end fr) \<union> span (start, end) = covered fr"
proof -
  obtain base limit where bl: "fr ! index = (base, limit)" by (metis surj_pair)
  let ?cut = "(if base < start then [(base, start)] else []) @ (if end < limit then [(end, limit)] else [])"
  let ?rest = "take index fr @ drop (Suc index) fr"
  have fr: "fr = take index fr @ (base, limit) # drop (Suc index) fr" using id_take_nth_drop [OF assms(3)] unfolding bl .
  have m: "mset (take_free index start end fr) = mset (?rest @ ?cut)" by (simp add: take_free_def bl)
  then have s: "set (take_free index start end fr) = set (?rest @ ?cut)" by (rule mset_eq_setD)
  have cut: "covered ?cut \<union> span (start, end) = span (base, limit)" "covered ?cut \<inter> span (start, end) = {}" "disjoint_spans ?cut"
    using assms(4-6) bl by (auto simp: span_def)
  have "mset fr = mset ((base, limit) # ?rest)" by (subst fr) simp
  then have d: "disjoint_spans ((base, limit) # ?rest @ others)"
    by (intro disjoint_spans_mset [OF _ assms(2)]) simp
  have "set fr = insert (base, limit) (set ?rest)" by (subst fr) auto
  then have cfr: "covered fr = span (base, limit) \<union> covered ?rest" by (auto simp: covered_def)
  have all: "disjoint_spans (?rest @ ?cut @ others @ [(start, end)])"
    using d cut by auto
  show "disjoint_spans (take_free index start end fr @ others @ [(start, end)])"
    by (rule disjoint_spans_mset [OF _ all]) (use m in simp)
  have r: "\<forall>q\<in>set ?rest. fst q \<le> snd q" using assms(1) by (auto dest: in_set_takeD in_set_dropD)
  have c: "\<forall>q\<in>set ?cut. fst q \<le> snd q" by auto
  show "ordered_ranges (take_free index start end fr)" unfolding s using r c unfolding set_append [of ?rest ?cut] by blast
  show "covered (take_free index start end fr) \<union> span (start, end) = covered fr"
    unfolding cfr covered_set [OF s] covered_simps(3) [of ?rest ?cut] using cut(1) by blast
qed

lemma free_during_spans:
  assumes "ordered_ranges (arena_ranges a)" "disjoint_spans (arena_ranges a)" "\<forall>(l, s, e)\<in>set (history a). s \<le> e"
  shows "ordered_ranges (free_during l a) \<and> disjoint_spans (free_during l a)
    \<and> covered (free_during l a) = covered (arena_ranges a) - (\<Union>(m, s, e)\<in>{h\<in>set (history a). lives_meet (fst h) l}. {s..<e})"
proof -
  define step :: "(nat \<times> nat) list \<Rightarrow> lifetime \<times> nat \<times> nat \<Rightarrow> (nat \<times> nat) list" where "step = (\<lambda>fr (life, base, end).
         if life_last life < life_first l \<or> life_last l < life_first life then fr
         else concat (map (\<lambda>(start, limit). uncovered_ranges start limit [(base, end)]) fr))"
  have cut: "ordered_ranges (concat (map (\<lambda>(start, limit). uncovered_ranges start limit [(b, e)]) fr))
      \<and> disjoint_spans (concat (map (\<lambda>(start, limit). uncovered_ranges start limit [(b, e)]) fr))
      \<and> covered (concat (map (\<lambda>(start, limit). uncovered_ranges start limit [(b, e)]) fr)) = covered fr - {b..<e}"
    if "b \<le> e" "ordered_ranges fr" "disjoint_spans fr" for b e :: nat and fr
    using that(2,3)
  proof (induction fr)
    case (Cons r fr)
    obtain start limit where r: "r = (start, limit)" by (cases r)
    note u = uncovered_single [OF that(1), of start limit]
    have "disjoint_spans fr" "span r \<inter> covered fr = {}" using Cons.prems by auto
    then show ?case using Cons u by (auto simp: r span_def)
  qed simp
  have skip: "step fr (life, b, e) = fr" if "\<not> lives_meet life l" for fr life b e
    using that by (simp add: step_def lives_meet_def)
  have on: "ordered_ranges (step fr (life, b, e)) \<and> disjoint_spans (step fr (life, b, e)) \<and> covered (step fr (life, b, e)) = covered fr - {b..<e}"
    if "lives_meet life l" "b \<le> e" "ordered_ranges fr" "disjoint_spans fr" for fr life b e
    using cut [OF that(2-4)] that(1) by (simp add: step_def lives_meet_def)
  have "ordered_ranges (foldl step fr hs) \<and> disjoint_spans (foldl step fr hs)
    \<and> covered (foldl step fr hs) = covered fr - (\<Union>(m, s, e)\<in>{h\<in>set hs. lives_meet (fst h) l}. {s..<e})"
    if "ordered_ranges fr" "disjoint_spans fr" "\<forall>(l, s, e)\<in>set hs. s \<le> e" for fr hs
    using that
  proof (induction hs arbitrary: fr)
    case (Cons h hs)
    obtain life b e where h: "h = (life, b, e)" by (metis surj_pair)
    have hs: "\<forall>(l, s, e)\<in>set hs. s \<le> e" "b \<le> e" using Cons.prems(3) h by simp_all
    show ?case
    proof (cases "lives_meet life l")
      case False
      then have "{x \<in> set (h # hs). lives_meet (fst x) l} = {x \<in> set hs. lives_meet (fst x) l}" using h by auto
      then show ?thesis using Cons.IH [OF Cons.prems(1,2) hs(1)] skip [OF False] by (simp add: h)
    next
      case True
      then have "{x \<in> set (h # hs). lives_meet (fst x) l} = insert h {x \<in> set hs. lives_meet (fst x) l}" using h by auto
      moreover note c = on [OF True hs(2) Cons.prems(1,2)]
      ultimately show ?thesis using Cons.IH [OF _ _ hs(1), of "step fr (life, b, e)"] by (auto simp: h)
    qed
  qed simp
  then show ?thesis using assms by (simp add: free_during_def step_def)
qed

text \<open>
  The log of a run: every request placed so far with its interval. In lifetime order the
  invariant keeps the free list and the active intervals apart, with every allocation that is
  live at the current event active; offline it keeps the history equal to the log.
\<close>

type_synonym placement_log = "(allocation_request \<times> nat \<times> nat) list"

definition roots_of :: "allocation_request \<Rightarrow> nat set" where
  "roots_of r = fst ` set (alloc_assignments r)"

definition log_recorded :: "placement_log \<Rightarrow> arena \<Rightarrow> bool" where
  "log_recorded lg a \<longleftrightarrow>
     (\<forall>(r, s, e)\<in>set lg. s \<le> e \<and> (\<forall>root\<in>roots_of r. root_spans a root = Some (s, e))
        \<and> (\<forall>i. alloc_auxiliary r = Some i \<longrightarrow> auxiliary_addresses a i = Some s))"

definition arena_ok :: "placement_log \<Rightarrow> nat \<Rightarrow> arena \<Rightarrow> bool" where
  "arena_ok lg now a \<longleftrightarrow>
     ordered_ranges (arena_ranges a) \<and> disjoint_spans (arena_ranges a) \<and> log_recorded lg a
   \<and> (if offline a then history a = map (\<lambda>(r, s, e). (alloc_lifetime r, s, e)) lg
      else ordered_ranges (arena_free a) \<and> disjoint_spans (arena_free a @ active_spans (active a))
         \<and> covered (arena_free a) \<union> covered (active_spans (active a)) \<subseteq> covered (arena_ranges a)
         \<and> (\<forall>(r, s, e)\<in>set lg. now \<le> life_last (alloc_lifetime r) \<longrightarrow> (life_last (alloc_lifetime r), s, e - s) \<in> set (active a)))"

text \<open>What a new placement must respect about an earlier one.\<close>

definition placed_apart :: "allocation_request \<times> nat \<times> nat \<Rightarrow> allocation_request \<times> nat \<times> nat \<Rightarrow> bool" where
  "placed_apart p q \<longleftrightarrow>
     (case p of (r, s, e) \<Rightarrow> case q of (r', s', e') \<Rightarrow>
        (lives_meet (alloc_lifetime r) (alloc_lifetime r') \<longrightarrow> {s..<e} \<inter> {s'..<e'} = {})
      \<and> (set (alloc_conflicts r') \<inter> roots_of r \<noteq> {} \<longrightarrow> (\<forall>(a, b)\<in>set (element_spans (s, e)). {s'..<e'} \<inter> {a..<b} = {})))"

lemma foldl_roots:
  "foldl (\<lambda>m (root, _). m(root \<mapsto> v)) m xs root = (if root \<in> fst ` set xs then Some v else m root)"
  by (induction xs arbitrary: m) (auto split: prod.splits)

lemma record_simps [simp]:
  "root_spans (record_placement r s e a) root = (if root \<in> roots_of r then Some (s, e) else root_spans a root)"
  "offline (record_placement r s e a) = offline a"
  "arena_ranges (record_placement r s e a) = arena_ranges a"
  "interleaved_offset (record_placement r s e a) = interleaved_offset a"
  "arena_free (record_placement r s e a) = arena_free a"
  "active (record_placement r s e a) = active a @ [(life_last (alloc_lifetime r), s, e - s)]"
  "history (record_placement r s e a) = (if offline a then history a @ [(alloc_lifetime r, s, e)] else history a)"
  by (simp_all add: record_placement_def foldl_roots roots_of_def split: option.split)

lemma record_auxiliary:
  "auxiliary_addresses (record_placement r s e a) =
    (case alloc_auxiliary r of Some i \<Rightarrow> (auxiliary_addresses a)(i \<mapsto> s) | None \<Rightarrow> auxiliary_addresses a)"
  by (simp add: record_placement_def split: option.split)

text \<open>Requests name their own roots and auxiliary buffers.\<close>

definition own_names :: "allocation_request \<Rightarrow> allocation_request \<Rightarrow> bool" where
  "own_names r q \<longleftrightarrow> roots_of r \<inter> roots_of q = {} \<and> (alloc_auxiliary r = None \<or> alloc_auxiliary r \<noteq> alloc_auxiliary q)"

lemma log_recorded_snoc:
  assumes "log_recorded lg a" and "s \<le> e" and "\<forall>p\<in>set lg. own_names (fst p) r"
  shows "log_recorded (lg @ [(r, s, e)]) (record_placement r s e a)"
  using assms unfolding log_recorded_def own_names_def
  by (fastforce simp: record_auxiliary split: option.splits)

lemma element_spans_ordered: "\<forall>(a, b)\<in>set (element_spans s). a < b"
proof -
  have "x div n * n < div_ceil y n * n" if "x < y" "0 < n" for x y n :: nat
  proof -
    have "x div n * n \<le> x" "y \<le> div_ceil y n * n" using div_ceil_bounds [of n y] that by simp_all
    then show ?thesis using that by linarith
  qed
  moreover have "0 < INTERLEAVED_ELEMENT_SIZE" "0 < TILE_MEMORY_ELEMENT_SIZE" by (simp_all add: memory_constants)
  ultimately show ?thesis
    by (auto simp: element_spans_def map_filter_mem element_span_def Let_def split: if_splits simp del: map_filter_simps)
qed

lemma arena_candidate_Some:
  assumes "arena_candidate forbidden (index, d) = Some (k, i, s, e)" and "domain_in r offset rng d"
    and "ordered_ranges forbidden" "spread forbidden"
  shows "i = index \<and> placed_in r offset rng s e \<and> {s..<e} \<inter> covered forbidden = {}"
proof -
  from assms(1) have a: "avoid d forbidden (dom_first d) = Some s" "s \<le> dom_last d" "i = index" "e = s + dom_bytes d"
    by (auto simp: arena_candidate_def bind_eq_Some_conv split: if_splits)
  note d = domain_inD [OF assms(2)]
  note av = avoid_Some [OF a(1) assms(3,4) d(1)]
  have "placed_in r offset rng s e" unfolding a(4) by (rule domain_start [OF assms(2) _ a(2)]) (use av d(2) in blast)+
  then show ?thesis using av a(3,4) by simp
qed

text \<open>The arena as a request finds it.\<close>

definition arena_for :: "allocation_request \<Rightarrow> arena \<Rightarrow> arena" where
  "arena_for r a = (if offline a then a\<lparr>arena_free := free_during (alloc_lifetime r) a, active := []\<rparr> else a)"

lemma arena_for_free:
  assumes ok: "arena_ok lg now a" and "offline a \<or> now \<le> life_first (alloc_lifetime r)"
    and kept: "retain_active (life_first (alloc_lifetime r)) (active (arena_for r a)) (arena_free (arena_for r a)) = (Some kept, fr)"
  shows "ordered_ranges fr" "disjoint_spans (fr @ active_spans kept)" "covered fr \<union> covered (active_spans kept) \<subseteq> covered (arena_ranges a)"
    and "\<forall>(q, s, e)\<in>set lg. lives_meet (alloc_lifetime q) (alloc_lifetime r) \<longrightarrow> {s..<e} \<inter> covered fr = {}"
    and "\<not> offline a \<Longrightarrow> \<forall>(q, s, e)\<in>set lg. life_first (alloc_lifetime r) \<le> life_last (alloc_lifetime q) \<longrightarrow>
      (life_last (alloc_lifetime q), s, e - s) \<in> set kept"
proof -
  note rg = ok [unfolded arena_ok_def, THEN conjunct1] ok [unfolded arena_ok_def, THEN conjunct2, THEN conjunct1]
  have rec: "log_recorded lg a" using ok unfolding arena_ok_def by blast
  have all: "ordered_ranges fr \<and> disjoint_spans (fr @ active_spans kept) \<and> covered fr \<union> covered (active_spans kept) \<subseteq> covered (arena_ranges a)
    \<and> (\<forall>(q, s, e)\<in>set lg. lives_meet (alloc_lifetime q) (alloc_lifetime r) \<longrightarrow> {s..<e} \<inter> covered fr = {})
    \<and> (\<not> offline a \<longrightarrow> (\<forall>(q, s, e)\<in>set lg. life_first (alloc_lifetime r) \<le> life_last (alloc_lifetime q) \<longrightarrow>
      (life_last (alloc_lifetime q), s, e - s) \<in> set kept))"
  proof (cases "offline a")
    case True
    then have h: "history a = map (\<lambda>(r, s, e). (alloc_lifetime r, s, e)) lg" using ok unfolding arena_ok_def by simp
    have "\<forall>(l, s, e)\<in>set (history a). s \<le> e" using rec unfolding h log_recorded_def by auto
    note fd = free_during_spans [OF rg this, of "alloc_lifetime r"]
    have k: "kept = []" "fr = free_during (alloc_lifetime r) a" using kept True by (simp_all add: arena_for_def)
    have "{s..<e} \<inter> covered fr = {}" if "(q, s, e) \<in> set lg" "lives_meet (alloc_lifetime q) (alloc_lifetime r)" for q s e
    proof -
      have "(alloc_lifetime q, s, e) \<in> {x \<in> set (history a). lives_meet (fst x) (alloc_lifetime r)}" using that unfolding h by force
      then show ?thesis using fd unfolding k(2) by blast
    qed
    then show ?thesis using fd k True by auto
  next
    case False
    then have inv: "ordered_ranges (arena_free a)" "disjoint_spans (arena_free a @ active_spans (active a))"
      "covered (arena_free a) \<union> covered (active_spans (active a)) \<subseteq> covered (arena_ranges a)"
      "\<forall>(r, s, e)\<in>set lg. now \<le> life_last (alloc_lifetime r) \<longrightarrow> (life_last (alloc_lifetime r), s, e - s) \<in> set (active a)"
      using ok unfolding arena_ok_def by simp_all
    note ra = retain_active_Some [OF kept [unfolded arena_for_def if_not_P [OF False]] inv(1,2)]
    have act: "(life_last (alloc_lifetime q), s, e - s) \<in> set kept"
      if "(q, s, e) \<in> set lg" "life_first (alloc_lifetime r) \<le> life_last (alloc_lifetime q)" for q s e
      using inv(4) that assms(2) False ra by fastforce
    have "{s..<e} \<inter> covered fr = {}" if m: "(q, s, e) \<in> set lg" and lm: "lives_meet (alloc_lifetime q) (alloc_lifetime r)" for q s e
    proof -
      have "(life_last (alloc_lifetime q), s, e - s) \<in> set kept" by (rule act [OF m]) (use lm in \<open>simp add: lives_meet_def\<close>)
      then have "(s, s + (e - s)) \<in> set (active_spans kept)" by force
      moreover have "s \<le> e" using rec m unfolding log_recorded_def by blast
      ultimately have "{s..<e} \<subseteq> covered (active_spans kept)" by (force simp: covered_def span_def)
      moreover have "covered fr \<inter> covered (active_spans kept) = {}"
        using ra [THEN conjunct2, THEN conjunct2, THEN conjunct1, unfolded disjoint_spans_simps(3)] by blast
      ultimately show ?thesis by blast
    qed
    then show ?thesis using ra inv(3) act by auto
  qed
  show "ordered_ranges fr" "disjoint_spans (fr @ active_spans kept)" "covered fr \<union> covered (active_spans kept) \<subseteq> covered (arena_ranges a)"
    "\<forall>(q, s, e)\<in>set lg. lives_meet (alloc_lifetime q) (alloc_lifetime r) \<longrightarrow> {s..<e} \<inter> covered fr = {}"
    "\<not> offline a \<Longrightarrow> \<forall>(q, s, e)\<in>set lg. life_first (alloc_lifetime r) \<le> life_last (alloc_lifetime q) \<longrightarrow>
      (life_last (alloc_lifetime q), s, e - s) \<in> set kept"
    using all by blast+
qed

lemma arena_allocate_Some:
  assumes ok: "arena_ok lg now a" and order: "offline a \<or> now \<le> life_first (alloc_lifetime r)"
    and own: "\<forall>p\<in>set lg. own_names (fst p) r" and alloc: "arena_allocate r a = (Some s, a')"
  obtains rng e where "placed_in r (interleaved_offset a) rng s e" "span rng \<subseteq> covered (arena_ranges a)"
    "arena_ok (lg @ [(r, s, e)]) (life_first (alloc_lifetime r)) a'" "\<forall>p\<in>set lg. placed_apart p (r, s, e)"
    "offline a' = offline a" "interleaved_offset a' = interleaved_offset a" "arena_ranges a' = arena_ranges a"
proof -
  let ?b = "arena_for r a"
  have b: "root_spans ?b = root_spans a" "interleaved_offset ?b = interleaved_offset a" "offline ?b = offline a"
    "arena_ranges ?b = arena_ranges a" "history ?b = history a" "auxiliary_addresses ?b = auxiliary_addresses a"
    by (simp_all add: arena_for_def)
  obtain kept fr where kept: "retain_active (life_first (alloc_lifetime r)) (active ?b) (arena_free ?b) = (Some kept, fr)"
    using alloc unfolding arena_allocate_def Let_def arena_for_def [symmetric] by (auto split: prod.splits option.splits)
  note fr = arena_for_free [OF ok order kept]
  let ?forbidden = "merge_ranges (concat (map element_spans (List.map_filter (root_spans a) (alloc_conflicts r))))"
  have "\<forall>x\<in>set (concat (map element_spans (List.map_filter (root_spans a) (alloc_conflicts r)))). fst x \<le> snd x"
    using element_spans_ordered by fastforce
  note fb = merge_ranges_spread [OF this]
  obtain k index e where c: "(k, index, s, e) \<in> set (List.map_filter (arena_candidate ?forbidden) (domains r fr (interleaved_offset a)))"
    and a': "a' = record_placement r s e (?b\<lparr>active := kept, arena_free := take_free index s e fr\<rparr>)"
    using alloc kept unfolding arena_allocate_def Let_def arena_for_def [symmetric]
    by (auto simp: b split: option.splits dest: first_min_mem)
  from c [unfolded map_filter_mem] obtain j d where "(j, d) \<in> set (domains r fr (interleaved_offset a))"
    "arena_candidate ?forbidden (j, d) = Some (k, index, s, e)" by fastforce
  with domains_mem fb arena_candidate_Some [of ?forbidden j d k index s e r "interleaved_offset a" "fr ! j"]
  have p: "index < length fr" "placed_in r (interleaved_offset a) (fr ! index) s e" "{s..<e} \<inter> covered ?forbidden = {}"
    by blast+
  have bounds: "fst (fr ! index) \<le> s" "s \<le> e" "e \<le> snd (fr ! index)" using p(2) by (simp_all add: placed_in_def)
  note tk = take_free_spans [OF fr(1,2) p(1) bounds]
  have in_fr: "span (fr ! index) \<subseteq> covered fr" using nth_mem [OF p(1)] unfolding covered_def by blast
  have rec: "log_recorded lg a" using ok unfolding arena_ok_def by blast
  have apart: "placed_apart q (r, s, e)" if q: "q \<in> set lg" for q
  proof -
    obtain r' s' e' where q': "q = (r', s', e')" by (metis surj_pair)
    have "{s'..<e'} \<inter> {s..<e} = {}" if "lives_meet (alloc_lifetime r') (alloc_lifetime r)"
    proof -
      have "{s'..<e'} \<inter> covered fr = {}" using fr(4) q q' that by blast
      moreover have "{s..<e} \<subseteq> span (fr ! index)" using bounds by (auto simp: span_def)
      ultimately show ?thesis using in_fr by blast
    qed
    moreover have "{s..<e} \<inter> {x..<y} = {}" if "root \<in> set (alloc_conflicts r)" "root \<in> roots_of r'" "(x, y) \<in> set (element_spans (s', e'))" for root x y
    proof -
      have "root_spans a root = Some (s', e')" using rec q that(2) unfolding log_recorded_def q' by blast
      then have m: "(s', e') \<in> set (List.map_filter (root_spans a) (alloc_conflicts r))"
        unfolding map_filter_mem using that(1) by blast
      have "(x, y) \<in> set (concat (map element_spans (List.map_filter (root_spans a) (alloc_conflicts r))))"
        unfolding set_concat set_map image_image by (rule UN_I, rule m, rule that(3))
      then have "span (x, y) \<subseteq> covered ?forbidden"
        unfolding fb [THEN conjunct2, THEN conjunct2] unfolding covered_def by (rule UN_upper)
      then have "{x..<y} \<subseteq> covered ?forbidden" by (simp add: span_def)
      then show ?thesis using p(3) by blast
    qed
    ultimately show ?thesis unfolding q' placed_apart_def by blast
  qed
  have spans: "active_spans (kept @ [(life_last (alloc_lifetime r), s, e - s)]) = active_spans kept @ [(s, e)]"
    using bounds by simp
  have "arena_ok (lg @ [(r, s, e)]) (life_first (alloc_lifetime r)) a'"
  proof -
    have "log_recorded lg (?b\<lparr>active := kept, arena_free := take_free index s e fr\<rparr>)" using rec by (simp add: log_recorded_def b)
    then have "log_recorded (lg @ [(r, s, e)]) a'" unfolding a' by (rule log_recorded_snoc [OF _ bounds(2) own])
    moreover have "ordered_ranges (arena_ranges a)" "disjoint_spans (arena_ranges a)"
      "offline a \<Longrightarrow> history a = map (\<lambda>(r, s, e). (alloc_lifetime r, s, e)) lg" using ok unfolding arena_ok_def by simp_all
    moreover have "covered (take_free index s e fr) \<union> covered (active_spans kept @ [(s, e)]) \<subseteq> covered (arena_ranges a)"
      using tk(3) fr(3) by auto
    ultimately show ?thesis using tk(1,2) fr(5) spans unfolding arena_ok_def a' by (auto simp: b)
  qed
  moreover have "span (fr ! index) \<subseteq> covered (arena_ranges a)" using in_fr fr(3) by blast
  moreover have "offline a' = offline a" "interleaved_offset a' = interleaved_offset a" "arena_ranges a' = arena_ranges a"
    by (simp_all add: a' b)
  ultimately show ?thesis using p(2) apart that by blast
qed

subsection \<open>Shared memory elements\<close>

definition shares_element :: "nat \<times> nat \<Rightarrow> nat \<times> nat \<Rightarrow> bool" where
  "shares_element s t \<longleftrightarrow> (\<exists>x\<in>span s. \<exists>y\<in>span t. element_base x = element_base y)"

lemma shares_element_sym: "shares_element s t \<longleftrightarrow> shares_element t s"
  unfolding shares_element_def by metis

lemma div_block: "x div n = y div n \<Longrightarrow> 0 < n \<Longrightarrow> s \<le> x \<Longrightarrow> x < e \<Longrightarrow> s div n * n \<le> y \<and> y < div_ceil e n * (n::nat)"
proof -
  assume a: "x div n = y div n" "0 < n" "s \<le> x" "x < e"
  have "s div n * n \<le> y div n * n" using a by (simp add: div_le_mono flip: a(1))
  also have "\<dots> \<le> y" by simp
  finally have lower: "s div n * n \<le> y" .
  have "x < div_ceil e n * n" using div_ceil_bounds(1) [OF a(2), of e] a(4) by simp
  then have "x div n < div_ceil e n" by (simp add: less_mult_imp_div_less)
  then have "Suc (y div n) * n \<le> div_ceil e n * n" unfolding a(1) by (intro mult_le_mono1) simp
  moreover have "y < Suc (y div n) * n" using div_mult_mod_eq [of y n] mod_less_divisor [OF a(2), of y]
    by (simp only: mult_Suc)
  ultimately show ?thesis using lower by simp
qed

lemma element_spans_mem: "q \<in> set (element_spans s) \<longleftrightarrow> (\<exists>region1. element_span s region1 = Some q)"
proof -
  have "region1 \<in> set [False, True]" for region1 by (cases region1) simp_all
  then show ?thesis unfolding element_spans_def map_filter_mem by blast
qed

lemma in_element_spans: "element_span s region1 = Some q \<Longrightarrow> y \<in> span q \<Longrightarrow> \<exists>q\<in>set (element_spans s). y \<in> span q"
  using element_spans_mem by blast

text \<open>The element spans of an interval contain every address that shares an element with it.\<close>

lemma element_spans_cover:
  assumes "x \<in> span s" and "element_base x = element_base y"
  shows "\<exists>q\<in>set (element_spans s). y \<in> span q"
proof -
  have x: "fst s \<le> x" "x < snd s" using assms(1) by (simp_all add: span_def)
  have sizes: "0 < TILE_MEMORY_ELEMENT_SIZE" "0 < INTERLEAVED_ELEMENT_SIZE" by (simp_all add: memory_constants)
  have side: "INTERLEAVED_MEMORY_BASE \<le> y \<longleftrightarrow> INTERLEAVED_MEMORY_BASE \<le> x"
    using assms(2) element_bounds [of x] element_bounds [of y]
    by (cases "INTERLEAVED_MEMORY_BASE \<le> x"; cases "INTERLEAVED_MEMORY_BASE \<le> y")
      (auto simp: element_base_def element_end_def memory_constants split: if_splits)
  show ?thesis
  proof (cases "INTERLEAVED_MEMORY_BASE \<le> x")
    case True
    have m: "(z - INTERLEAVED_MEMORY_BASE) div INTERLEAVED_ELEMENT_SIZE = z div INTERLEAVED_ELEMENT_SIZE - 16"
      if "INTERLEAVED_MEMORY_BASE \<le> z" for z
    proof -
      obtain w where w: "w = z - INTERLEAVED_MEMORY_BASE" by blast
      have "INTERLEAVED_MEMORY_BASE = INTERLEAVED_ELEMENT_SIZE * 16" by (simp add: memory_constants)
      then have "z = w + INTERLEAVED_ELEMENT_SIZE * 16" using that w by simp
      then have "z div INTERLEAVED_ELEMENT_SIZE = 16 + w div INTERLEAVED_ELEMENT_SIZE" using sizes(2) by simp
      then show ?thesis by (simp add: w)
    qed
    have ge: "16 \<le> z div INTERLEAVED_ELEMENT_SIZE" if "INTERLEAVED_MEMORY_BASE \<le> z" for z
      using div_le_mono [OF that, of INTERLEAVED_ELEMENT_SIZE] by (simp add: memory_constants)
    have "(x - INTERLEAVED_MEMORY_BASE) div INTERLEAVED_ELEMENT_SIZE = (y - INTERLEAVED_MEMORY_BASE) div INTERLEAVED_ELEMENT_SIZE"
      using assms(2) unfolding element_base_def if_P [OF True] if_P [OF iffD2 [OF side True]] using sizes(2) by simp
    then have "x div INTERLEAVED_ELEMENT_SIZE - 16 = y div INTERLEAVED_ELEMENT_SIZE - 16"
      unfolding m [OF True] m [OF iffD2 [OF side True]] .
    then have "x div INTERLEAVED_ELEMENT_SIZE = y div INTERLEAVED_ELEMENT_SIZE"
      using ge [OF True] ge [OF iffD2 [OF side True]] by linarith
    from div_block [OF this sizes(2), of "max (fst s) INTERLEAVED_MEMORY_BASE" "snd s"] x True
    have "y \<in> span (max (fst s) INTERLEAVED_MEMORY_BASE div INTERLEAVED_ELEMENT_SIZE * INTERLEAVED_ELEMENT_SIZE,
        div_ceil (snd s) INTERLEAVED_ELEMENT_SIZE * INTERLEAVED_ELEMENT_SIZE)" by (simp add: span_def)
    moreover have "element_span s True = Some (max (fst s) INTERLEAVED_MEMORY_BASE div INTERLEAVED_ELEMENT_SIZE * INTERLEAVED_ELEMENT_SIZE,
        div_ceil (snd s) INTERLEAVED_ELEMENT_SIZE * INTERLEAVED_ELEMENT_SIZE)"
    proof -
      have lt: "max (fst s) INTERLEAVED_MEMORY_BASE < snd s" using x True by linarith
      show ?thesis unfolding element_span_def Let_def by (simp only: if_True prod.case lt)
    qed
    ultimately show ?thesis by (rule in_element_spans [rotated])
  next
    case False
    then have "\<not> INTERLEAVED_MEMORY_BASE \<le> y" using side by simp
    then have "x div TILE_MEMORY_ELEMENT_SIZE = y div TILE_MEMORY_ELEMENT_SIZE"
      using assms(2) unfolding element_base_def if_not_P [OF False] using sizes(1) by simp
    from div_block [OF this sizes(1), of "fst s" "min (snd s) INTERLEAVED_MEMORY_BASE"] x False
    have "y \<in> span (fst s div TILE_MEMORY_ELEMENT_SIZE * TILE_MEMORY_ELEMENT_SIZE,
        div_ceil (min (snd s) INTERLEAVED_MEMORY_BASE) TILE_MEMORY_ELEMENT_SIZE * TILE_MEMORY_ELEMENT_SIZE)" by (simp add: span_def)
    moreover have "element_span s False = Some (fst s div TILE_MEMORY_ELEMENT_SIZE * TILE_MEMORY_ELEMENT_SIZE,
        div_ceil (min (snd s) INTERLEAVED_MEMORY_BASE) TILE_MEMORY_ELEMENT_SIZE * TILE_MEMORY_ELEMENT_SIZE)"
    proof -
      have lt: "fst s < min (snd s) INTERLEAVED_MEMORY_BASE" using x False by linarith
      show ?thesis unfolding element_span_def Let_def by (simp only: if_False prod.case lt if_True)
    qed
    ultimately show ?thesis by (rule in_element_spans [rotated])
  qed
qed

lemma not_shares_element:
  "\<forall>q\<in>set (element_spans s). span t \<inter> span q = {} \<Longrightarrow> \<not> shares_element s t"
  unfolding shares_element_def using element_spans_cover by blast

lemma not_shares_disjoint: "\<not> shares_element s t \<Longrightarrow> span s \<inter> span t = {}"
  unfolding shares_element_def by blast

end
