(* ===== verification/Search.thy ===== *)
theory Search
  imports Prelude Arena
begin

text \<open>
  The bounded address search (\<open>ipu-codegen/src/place/search.rs\<close>), tried when both greedy orders
  of a tile fail. Every request keeps its domains of aligned starts; choosing a start for one
  request removes what it excludes from the domains of the others, and the search backtracks
  when a domain list becomes empty. Node and propagation budgets bound the work, so a failed
  search says nothing; a placement it returns respects every lifetime and every element
  conflict, which is what the lemmas show.

  \<open>visit\<close> returns the completed placement instead of updating it in place, with the two
  counters. Its recursion ends because every nested visit has one more request placed.
\<close>

subsection \<open>Domains\<close>

definition domain_without :: "nat \<Rightarrow> nat \<Rightarrow> domain \<Rightarrow> domain list" where
  "domain_without start end d =
     filter (\<lambda>x. dom_first x \<le> dom_last x)
      ((case checked_sub start (dom_bytes d) of
          Some final \<Rightarrow> [d\<lparr>dom_last := min (dom_last d) (final div dom_alignment d * dom_alignment d)\<rparr>]
        | None \<Rightarrow> [])
       @ (case result_ok (place_align_up end (dom_alignment d)) of
          Some first \<Rightarrow> [d\<lparr>dom_first := max (dom_first d) first\<rparr>]
        | None \<Rightarrow> []))"

definition domain_element :: "domain \<Rightarrow> nat" where
  "domain_element d =
     (if INTERLEAVED_MEMORY_BASE \<le> dom_first d then INTERLEAVED_ELEMENT_SIZE else TILE_MEMORY_ELEMENT_SIZE)"

lemma domain_element_pos: "0 < domain_element d"
  by (simp add: domain_element_def memory_constants)

text \<open>The starts next to an element boundary, from \<open>boundary\<close> on.\<close>

function boundary_starts :: "domain \<Rightarrow> nat \<Rightarrow> nat list" where
  "boundary_starts d boundary =
     (if boundary \<le> saturating_add 32 (dom_last d) (dom_bytes d)
      then (case result_ok (place_align_up boundary (dom_alignment d)) of
              Some start \<Rightarrow> if dom_first d \<le> start \<and> start \<le> dom_last d then [start] else []
            | None \<Rightarrow> [])
         @ (case checked_sub boundary (dom_bytes d) of
              Some s \<Rightarrow>
                (let start = s div dom_alignment d * dom_alignment d
                 in if dom_first d \<le> start \<and> start \<le> dom_last d then [start] else [])
            | None \<Rightarrow> [])
         @ (case checked_add 32 boundary (domain_element d) of
              Some next_boundary \<Rightarrow> boundary_starts d next_boundary
            | None \<Rightarrow> [])
      else [])"
  by pat_completeness auto
termination
proof (relation "measure (\<lambda>(d, boundary). Suc (saturating_add 32 (dom_last d) (dom_bytes d)) - boundary)", goal_cases)
  case (2 d boundary x)
  then show ?case using domain_element_pos [of d] by (auto simp: checked_add_def split: if_splits)
qed simp

declare boundary_starts.simps [simp del]

definition domain_starts :: "domain \<Rightarrow> nat list" where
  "domain_starts d =
     remdups_adj (sort ([dom_first d, dom_last d]
       @ boundary_starts d (div_ceil (dom_first d) (domain_element d) * domain_element d)))"

subsection \<open>The search\<close>

record search_problem =
  search_requests :: "allocation_request list"
  search_edges :: "bool list list"
  node_budget :: nat
  propagation_budget :: nat

definition NODE_BUDGET :: nat where "NODE_BUDGET = 4096"
definition PROPAGATION_BUDGET :: nat where "PROPAGATION_BUDGET = 2000000"

definition out_of_budget :: "search_problem \<Rightarrow> nat \<times> nat \<Rightarrow> bool" where
  "out_of_budget p c \<longleftrightarrow> fst c \<ge> node_budget p \<or> snd c \<ge> propagation_budget p"

text \<open>The most constrained request that has no place yet.\<close>

definition search_key :: "search_problem \<Rightarrow> domain list \<Rightarrow> nat \<Rightarrow> bool \<times> bool \<times> nat \<times> int \<times> int \<times> nat" where
  "search_key p ds i =
     (let r = search_requests p ! i;
          starts = sum_list (map (\<lambda>d. (dom_last d - dom_first d) div dom_alignment d + 1) ds)
      in (ds \<noteq> [], life_last (alloc_lifetime r) \<noteq> 2 ^ 32 - 1,
          saturating_mul 64 starts (alloc_alignment r) div max (alloc_bytes r) 1,
          - int (length (filter (\<lambda>edge. edge) (search_edges p ! i))), - int (alloc_bytes r), i))"

definition pick_request :: "search_problem \<Rightarrow> domain list list \<Rightarrow> (nat \<times> nat) option list \<Rightarrow> nat option" where
  "pick_request p doms plc =
     first_min (\<lambda>i. search_key p (doms ! i) i) (filter (\<lambda>i. get plc i = Some None) [0..<length doms])"

text \<open>Remove what a chosen interval excludes from one request's domains.\<close>

definition exclude_spans :: "(nat \<times> nat) list \<Rightarrow> domain list \<times> nat \<Rightarrow> domain list \<times> nat" where
  "exclude_spans spans dw =
     foldl (\<lambda>(ds, work) (a, b). (concat (map (domain_without a b) ds), work + length ds)) dw spans"

definition excluded_spans :: "search_problem \<Rightarrow> nat \<Rightarrow> nat \<Rightarrow> nat \<times> nat \<Rightarrow> (nat \<times> nat) list" where
  "excluded_spans p index j s =
     (let r = search_requests p ! index;
          q = search_requests p ! j
      in if search_edges p ! index ! j then element_spans s
         else if life_first (alloc_lifetime q) \<le> life_last (alloc_lifetime r)
               \<and> life_first (alloc_lifetime r) \<le> life_last (alloc_lifetime q)
         then [s] else [])"

fun propagate ::
  "search_problem \<Rightarrow> nat \<Rightarrow> nat \<times> nat \<Rightarrow> (nat \<times> nat) option list \<Rightarrow> nat list \<Rightarrow> domain list list \<Rightarrow> nat
     \<Rightarrow> bool \<times> domain list list \<times> nat" where
  "propagate p index s plc [] doms work = (True, doms, work)"
| "propagate p index s plc (j # js) doms work =
     (if j = index \<or> plc ! j \<noteq> None then propagate p index s plc js doms work
      else
     (let (ds, work') = exclude_spans (excluded_spans p index j s) (doms ! j, work)
      in if ds = [] then (False, doms[j := ds], work')
         else propagate p index s plc js (doms[j := ds]) work'))"

definition request_starts :: "domain list \<Rightarrow> (nat \<times> nat) list" where
  "request_starts ds = concat (map (\<lambda>d. map (\<lambda>s. (s, s + dom_bytes d)) (domain_starts d)) ds)"

definition unplaced :: "(nat \<times> nat) option list \<Rightarrow> nat" where
  "unplaced plc = length (filter (\<lambda>x. x = None) plc)"

lemma unplaced_update:
  "i < length pl \<Longrightarrow> pl ! i = None \<Longrightarrow> unplaced (pl[i := Some v]) < unplaced pl"
proof (induction pl arbitrary: i)
  case (Cons x pl)
  then show ?case by (cases i) (auto simp: unplaced_def)
qed simp

lemma unplaced_any: "unplaced (pl[i := Some v]) = unplaced (pl[i := Some w])"
proof (induction pl arbitrary: i)
  case (Cons x pl)
  then show ?case by (cases i) (auto simp: unplaced_def)
qed simp

lemma pick_request_Some:
  "pick_request p doms pl = Some i \<Longrightarrow> i < length doms \<and> i < length pl \<and> pl ! i = None"
  by (auto simp: pick_request_def get_Some dest!: first_min_mem)

lemma pick_request_None:
  "pick_request p doms pl = None \<Longrightarrow> i < length doms \<Longrightarrow> i < length pl \<Longrightarrow> pl ! i \<noteq> None"
  by (auto simp: pick_request_def first_min_def filter_empty_conv get_Some split: if_splits)

function visit ::
    "search_problem \<Rightarrow> domain list list \<Rightarrow> (nat \<times> nat) option list \<Rightarrow> nat \<times> nat
       \<Rightarrow> (nat \<times> nat) option list option \<times> nat \<times> nat"
  and try_starts ::
    "search_problem \<Rightarrow> nat \<Rightarrow> domain list list \<Rightarrow> (nat \<times> nat) option list \<Rightarrow> (nat \<times> nat) list \<Rightarrow> nat \<times> nat
       \<Rightarrow> (nat \<times> nat) option list option \<times> nat \<times> nat" where
  "visit p doms plc c =
     (if out_of_budget p c then (None, c)
      else case pick_request p doms plc of
             None \<Rightarrow> (Some plc, fst c + 1, snd c)
           | Some index \<Rightarrow>
               try_starts p index doms plc (request_starts (doms ! index)) (fst c + 1, snd c))"
| "try_starts p index doms plc [] c = (None, c)"
| "try_starts p index doms plc (s # rest) c =
     (case propagate p index s plc [0..<length doms] doms (snd c) of
        (viable, next_doms, work) \<Rightarrow>
          (case (if viable then visit p next_doms (plc[index := Some s]) (fst c, work) else (None, fst c, work)) of
             (Some found, c') \<Rightarrow> (Some found, c')
           | (None, c') \<Rightarrow>
               if out_of_budget p c' then (None, c') else try_starts p index doms plc rest c'))"
  by pat_completeness auto
termination
  by (relation "measures [\<lambda>x. case x of Inl (p, doms, pl, c) \<Rightarrow> unplaced pl
        | Inr (p, i, doms, pl, cs, c) \<Rightarrow> unplaced (pl[i := Some (0, 0)]),
      \<lambda>x. case x of Inl _ \<Rightarrow> 0 | Inr (p, i, doms, pl, cs, c) \<Rightarrow> Suc (length cs)]")
    (auto dest!: pick_request_Some intro!: unplaced_update intro: unplaced_any)

declare visit.simps [simp del] try_starts.simps [simp del]

subsection \<open>Soundness of the domains\<close>

definition subdomain :: "domain \<Rightarrow> domain \<Rightarrow> bool" where
  "subdomain x d \<longleftrightarrow>
     dom_alignment x = dom_alignment d \<and> dom_bytes x = dom_bytes d \<and> dom_first d \<le> dom_first x \<and> dom_last x \<le> dom_last d
   \<and> dom_first x \<le> dom_last x \<and> dom_alignment d dvd dom_first x \<and> dom_alignment d dvd dom_last x"

text \<open>No aligned start of a domain meets an interval.\<close>

definition clear_of :: "nat \<times> nat \<Rightarrow> domain \<Rightarrow> bool" where
  "clear_of s d \<longleftrightarrow> (\<forall>x. dom_first d \<le> x \<and> x \<le> dom_last d \<longrightarrow> {x..<x + dom_bytes d} \<inter> span s = {})"

definition aligned_domain :: "domain \<Rightarrow> bool" where
  "aligned_domain d \<longleftrightarrow> 0 < dom_alignment d \<and> dom_alignment d dvd dom_first d \<and> dom_alignment d dvd dom_last d \<and> dom_first d \<le> dom_last d"

lemma subdomain_trans: "subdomain x y \<Longrightarrow> subdomain y z \<Longrightarrow> subdomain x z"
  unfolding subdomain_def by (metis order_trans)

lemma subdomain_refl: "aligned_domain d \<Longrightarrow> subdomain d d"
  by (simp add: subdomain_def aligned_domain_def)

lemma subdomain_aligned: "subdomain x d \<Longrightarrow> aligned_domain d \<Longrightarrow> aligned_domain x"
  by (simp add: subdomain_def aligned_domain_def)

lemma subdomain_clear: "subdomain x d \<Longrightarrow> clear_of s d \<Longrightarrow> clear_of s x"
  unfolding subdomain_def clear_of_def by (metis order_trans)

lemma domain_without_sound:
  assumes "aligned_domain d" and "x \<in> set (domain_without a b d)"
  shows "subdomain x d \<and> clear_of (a, b) x"
proof -
  have m: "max (dom_alignment d) 1 = dom_alignment d" using assms(1) by (simp add: aligned_domain_def)
  consider (before) final where "checked_sub a (dom_bytes d) = Some final"
      "x = d\<lparr>dom_last := min (dom_last d) (final div dom_alignment d * dom_alignment d)\<rparr>" "dom_first x \<le> dom_last x"
    | (after) first where "place_align_up b (dom_alignment d) = Inr first"
      "x = d\<lparr>dom_first := max (dom_first d) first\<rparr>" "dom_first x \<le> dom_last x"
  proof -
    let ?A = "case checked_sub a (dom_bytes d) of
          Some final \<Rightarrow> [d\<lparr>dom_last := min (dom_last d) (final div dom_alignment d * dom_alignment d)\<rparr>]
        | None \<Rightarrow> []"
    let ?B = "case result_ok (place_align_up b (dom_alignment d)) of
          Some first \<Rightarrow> [d\<lparr>dom_first := max (dom_first d) first\<rparr>]
        | None \<Rightarrow> []"
    have le: "dom_first x \<le> dom_last x" and "x \<in> set ?A \<or> x \<in> set ?B"
      using assms(2) unfolding domain_without_def set_filter set_append by blast+
    then show ?thesis using before after
      by (cases "checked_sub a (dom_bytes d)"; cases "result_ok (place_align_up b (dom_alignment d))")
        (auto simp: result_ok_Some simp del: max.absorb3)
  qed
  then show ?thesis
  proof cases
    case before
    have "y + dom_bytes d \<le> a" if "y \<le> dom_last x" for y
    proof -
      have "y \<le> final div dom_alignment d * dom_alignment d" using that before(2) by simp
      also have "\<dots> \<le> final" by simp
      finally show ?thesis using before(1) by (auto simp: checked_sub_def split: if_splits)
    qed
    then have "clear_of (a, b) x" using before(2) by (fastforce simp: clear_of_def span_def)
    moreover have "dom_alignment d dvd dom_last x" using assms(1) before(2) by (simp add: aligned_domain_def min_def)
    ultimately show ?thesis using before(2,3) assms(1) by (simp add: subdomain_def aligned_domain_def)
  next
    case after
    note al = place_align_up_Inr [OF after(1), unfolded m]
    have "clear_of (a, b) x" using after(2) al by (auto simp: clear_of_def span_def)
    moreover have "dom_alignment d dvd dom_first x" using assms(1) after(2) al by (simp add: aligned_domain_def max_def)
    ultimately show ?thesis using after(2,3) assms(1) by (simp add: subdomain_def aligned_domain_def)
  qed
qed

lemma exclude_spans_sound:
  "\<forall>d\<in>set ds. aligned_domain d \<Longrightarrow> exclude_spans spans (ds, work) = (ds', work') \<Longrightarrow>
   \<forall>x\<in>set ds'. \<exists>d\<in>set ds. subdomain x d \<and> (\<forall>s\<in>set spans. clear_of s x)"
proof (induction spans arbitrary: ds work)
  case Nil
  then show ?case by (auto simp: exclude_spans_def intro: subdomain_refl)
next
  case (Cons s spans)
  obtain a b where s: "s = (a, b)" by (cases s)
  let ?ds = "concat (map (domain_without a b) ds)"
  have cut: "\<exists>d\<in>set ds. subdomain y d \<and> clear_of s y" if y: "y \<in> set ?ds" for y
  proof -
    from y obtain d where d: "d \<in> set ds" "y \<in> set (domain_without a b d)" by auto
    then show ?thesis using Cons.prems(1) domain_without_sound [OF _ d(2)] s by blast
  qed
  then have "\<forall>d\<in>set ?ds. aligned_domain d" using Cons.prems(1) subdomain_aligned by blast
  moreover have "exclude_spans spans (?ds, work + length ds) = (ds', work')"
    using Cons.prems(2) by (simp add: exclude_spans_def s)
  ultimately have IH: "\<forall>x\<in>set ds'. \<exists>d\<in>set ?ds. subdomain x d \<and> (\<forall>s\<in>set spans. clear_of s x)" by (rule Cons.IH)
  show ?case
  proof
    fix x assume "x \<in> set ds'"
    then obtain y where y: "y \<in> set ?ds" "subdomain x y" "\<forall>s\<in>set spans. clear_of s x" using IH by blast
    then obtain d where "d \<in> set ds" "subdomain y d" "clear_of s y" using cut by blast
    then show "\<exists>d\<in>set ds. subdomain x d \<and> (\<forall>q\<in>set (s # spans). clear_of q x)"
      using y subdomain_trans subdomain_clear by (metis set_ConsD)
  qed
qed

lemma propagate_sound:
  "propagate p index s plc js doms work = (True, doms', work') \<Longrightarrow> \<forall>j\<in>set js. j < length doms \<Longrightarrow> distinct js \<Longrightarrow>
   \<forall>j<length doms. \<forall>d\<in>set (doms ! j). aligned_domain d \<Longrightarrow>
   length doms' = length doms
   \<and> (\<forall>j<length doms. if j \<in> set js \<and> j \<noteq> index \<and> plc ! j = None
        then \<forall>x\<in>set (doms' ! j). \<exists>d\<in>set (doms ! j). subdomain x d \<and> (\<forall>q\<in>set (excluded_spans p index j s). clear_of q x)
        else doms' ! j = doms ! j)"
proof (induction p index s plc js doms work rule: propagate.induct)
  case (2 p index s plc j js doms work)
  show ?case
  proof (cases "j = index \<or> plc ! j \<noteq> None")
    case True
    then have "propagate p index s plc js doms work = (True, doms', work')" using "2.prems"(1) by simp
    from "2.IH"(1) [OF True this] "2.prems"(2-4) show ?thesis using True by auto
  next
    case False
    obtain ds w where e: "exclude_spans (excluded_spans p index j s) (doms ! j, work) = (ds, w)" by (metis surj_pair)
    then have pr: "ds \<noteq> []" "propagate p index s plc js (doms[j := ds]) w = (True, doms', work')"
      using "2.prems"(1) False by (auto split: if_splits)
    have j: "j < length doms" "j \<notin> set js" using "2.prems"(2,3) by simp_all
    have ex: "\<forall>x\<in>set ds. \<exists>d\<in>set (doms ! j). subdomain x d \<and> (\<forall>q\<in>set (excluded_spans p index j s). clear_of q x)"
      by (rule exclude_spans_sound [OF _ e]) (use "2.prems"(4) j in blast)
    then have al: "\<forall>i<length (doms[j := ds]). \<forall>d\<in>set (doms[j := ds] ! i). aligned_domain d"
      using "2.prems"(4) j subdomain_aligned by (metis length_list_update nth_list_update_eq nth_list_update_neq)
    have "length doms' = length doms
       \<and> (\<forall>i<length doms. if i \<in> set js \<and> i \<noteq> index \<and> plc ! i = None
            then \<forall>x\<in>set (doms' ! i). \<exists>d\<in>set (doms[j := ds] ! i). subdomain x d \<and> (\<forall>q\<in>set (excluded_spans p index i s). clear_of q x)
            else doms' ! i = doms[j := ds] ! i)"
    proof -
      have "\<forall>i\<in>set js. i < length (doms[j := ds])" "distinct js" using "2.prems"(2,3) by simp_all
      from "2.IH"(2) [OF False e [symmetric] refl pr(1,2) this al] show ?thesis unfolding length_list_update .
    qed
    then show ?thesis using j ex False by (auto simp: nth_list_update)
  qed
qed simp

lemma boundary_starts_in: "x \<in> set (boundary_starts d b) \<Longrightarrow> 0 < dom_alignment d \<Longrightarrow>
   dom_first d \<le> x \<and> x \<le> dom_last d \<and> dom_alignment d dvd x"
proof (induction d b rule: boundary_starts.induct)
  case (1 d b)
  have m: "max (dom_alignment d) 1 = dom_alignment d" using 1(3) by simp
  have al: "dom_alignment d dvd c" if "result_ok (place_align_up b (dom_alignment d)) = Some c" for c
    using place_align_up_Inr [of b "dom_alignment d" c, unfolded m] that by (simp add: result_ok_Some)
  have guard: "b \<le> saturating_add 32 (dom_last d) (dom_bytes d)"
    using 1(2) by (subst (asm) boundary_starts.simps) (simp split: if_splits)
  note unfold = 1(2) [unfolded boundary_starts.simps [of d b] if_P [OF guard] set_append]
  show ?case
    using unfold al 1(1) [OF guard _ _ 1(3)]
    by (cases "result_ok (place_align_up b (dom_alignment d))"; cases "checked_sub b (dom_bytes d)";
        cases "checked_add 32 b (domain_element d)") (auto simp: Let_def split: if_splits)
qed

lemma domain_starts_in:
  "x \<in> set (domain_starts d) \<Longrightarrow> aligned_domain d \<Longrightarrow> dom_first d \<le> x \<and> x \<le> dom_last d \<and> dom_alignment d dvd x"
proof -
  assume x: "x \<in> set (domain_starts d)" and d: "aligned_domain d"
  have "set (domain_starts d) = {dom_first d, dom_last d}
      \<union> set (boundary_starts d (div_ceil (dom_first d) (domain_element d) * domain_element d))"
    unfolding domain_starts_def remdups_adj_set set_sort by simp
  then show ?thesis using x d boundary_starts_in [of x d] unfolding aligned_domain_def by auto
qed

subsection \<open>Soundness of the search\<close>

definition pair_clear :: "search_problem \<Rightarrow> nat \<Rightarrow> nat \<times> nat \<Rightarrow> nat \<Rightarrow> nat \<times> nat \<Rightarrow> bool" where
  "pair_clear p i s j t \<longleftrightarrow>
     (lives_meet (alloc_lifetime (search_requests p ! i)) (alloc_lifetime (search_requests p ! j)) \<longrightarrow> span s \<inter> span t = {})
   \<and> (search_edges p ! i ! j \<longrightarrow> \<not> shares_element s t)"

definition domain_clear :: "search_problem \<Rightarrow> nat \<Rightarrow> nat \<times> nat \<Rightarrow> nat \<Rightarrow> domain \<Rightarrow> bool" where
  "domain_clear p i s j d \<longleftrightarrow> (\<forall>x. dom_first d \<le> x \<and> x \<le> dom_last d \<longrightarrow> pair_clear p i s j (x, x + dom_bytes d))"

definition edges_symmetric :: "search_problem \<Rightarrow> bool" where
  "edges_symmetric p \<longleftrightarrow>
     (\<forall>i<length (search_requests p). \<forall>j<length (search_requests p). search_edges p ! i ! j = search_edges p ! j ! i)"

definition search_inv :: "search_problem \<Rightarrow> (nat \<times> nat) list \<Rightarrow> nat \<Rightarrow> domain list list \<Rightarrow> (nat \<times> nat) option list \<Rightarrow> bool" where
  "search_inv p ranges offset doms plc \<longleftrightarrow>
     length doms = length (search_requests p) \<and> length plc = length (search_requests p)
   \<and> (\<forall>j<length doms. \<forall>d\<in>set (doms ! j). \<exists>rng\<in>set ranges. domain_in (search_requests p ! j) offset rng d)
   \<and> (\<forall>i<length doms. \<forall>s. plc ! i = Some s \<longrightarrow>
        (\<exists>rng\<in>set ranges. placed_in (search_requests p ! i) offset rng (fst s) (snd s))
      \<and> (\<forall>j<length doms. j \<noteq> i \<longrightarrow>
           (case plc ! j of Some t \<Rightarrow> pair_clear p i s j t | None \<Rightarrow> \<forall>d\<in>set (doms ! j). domain_clear p i s j d)))"

lemma search_invD:
  assumes "search_inv p ranges offset doms plc"
  shows "length doms = length (search_requests p)" "length plc = length doms"
    and "j < length doms \<Longrightarrow> d \<in> set (doms ! j) \<Longrightarrow> \<exists>rng\<in>set ranges. domain_in (search_requests p ! j) offset rng d"
    and "i < length doms \<Longrightarrow> plc ! i = Some s \<Longrightarrow> \<exists>rng\<in>set ranges. placed_in (search_requests p ! i) offset rng (fst s) (snd s)"
    and "i < length doms \<Longrightarrow> plc ! i = Some s \<Longrightarrow> j < length doms \<Longrightarrow> j \<noteq> i \<Longrightarrow> plc ! j = Some t \<Longrightarrow> pair_clear p i s j t"
    and "i < length doms \<Longrightarrow> plc ! i = Some s \<Longrightarrow> j < length doms \<Longrightarrow> plc ! j = None \<Longrightarrow> d \<in> set (doms ! j) \<Longrightarrow> domain_clear p i s j d"
proof -
  note c1 = assms [unfolded search_inv_def, THEN conjunct1] assms [unfolded search_inv_def, THEN conjunct2, THEN conjunct1]
  note c2 = assms [unfolded search_inv_def, THEN conjunct2, THEN conjunct2, THEN conjunct1]
  note c3 = assms [unfolded search_inv_def, THEN conjunct2, THEN conjunct2, THEN conjunct2]
  show "length doms = length (search_requests p)" "length plc = length doms" using c1 by simp_all
  show "j < length doms \<Longrightarrow> d \<in> set (doms ! j) \<Longrightarrow> \<exists>rng\<in>set ranges. domain_in (search_requests p ! j) offset rng d"
    using c2 by blast
  show "i < length doms \<Longrightarrow> plc ! i = Some s \<Longrightarrow> \<exists>rng\<in>set ranges. placed_in (search_requests p ! i) offset rng (fst s) (snd s)"
    using c3 by blast
  have c4: "case plc ! j of Some t \<Rightarrow> pair_clear p i s j t | None \<Rightarrow> \<forall>d\<in>set (doms ! j). domain_clear p i s j d"
    if "i < length doms" "plc ! i = Some s" "j < length doms" "j \<noteq> i"
    using c3 that by blast
  show "i < length doms \<Longrightarrow> plc ! i = Some s \<Longrightarrow> j < length doms \<Longrightarrow> j \<noteq> i \<Longrightarrow> plc ! j = Some t \<Longrightarrow> pair_clear p i s j t"
    using c4 by simp
  show "domain_clear p i s j d" if "i < length doms" "plc ! i = Some s" "j < length doms" "plc ! j = None" "d \<in> set (doms ! j)"
  proof -
    have "j \<noteq> i" using that by auto
    from c4 [OF that(1,2,3) this] that(4,5) show ?thesis by simp
  qed
qed

lemma domain_in_sub: "domain_in r offset rng d \<Longrightarrow> subdomain x d \<Longrightarrow> domain_in r offset rng x"
proof -
  assume d: "domain_in r offset rng d" and x: "subdomain x d"
  note dd = domain_inD [OF d]
  have same: "dom_alignment x = dom_alignment d" "dom_bytes x = dom_bytes d" and le: "dom_first d \<le> dom_first x" "dom_last x \<le> dom_last d" "dom_first x \<le> dom_last x"
    and al: "dom_alignment d dvd dom_first x" "dom_alignment d dvd dom_last x"
    using x by (simp_all add: subdomain_def)
  have cross: "INTERLEAVED_MEMORY_BASE \<le> dom_first d" if "INTERLEAVED_MEMORY_BASE \<le> dom_first x" "0 < dom_bytes d"
    using dd(7) le that by linarith
  show ?thesis unfolding domain_in_def same
  proof (intro conjI)
    show "INTERLEAVED_MEMORY_BASE \<le> dom_first x \<or> dom_last x + dom_bytes d \<le> INTERLEAVED_MEMORY_BASE" using dd(7) le by linarith
    show "alloc_class r = Ipu21Interleaved \<longrightarrow> INTERLEAVED_MEMORY_BASE + offset \<le> dom_first x" using dd(8) le by linarith
    show "alloc_stride r = None \<or> dom_first x < INTERLEAVED_MEMORY_BASE \<longrightarrow> dom_bytes d = alloc_bytes r" using dd(10) le by linarith
    show "\<forall>stride. alloc_stride r = Some stride \<and> INTERLEAVED_MEMORY_BASE \<le> dom_first x \<and> 0 < dom_bytes d \<longrightarrow>
        dom_bytes d = stride * length (alloc_assignments r)"
      using dd(11) cross by blast
    show "dom_bytes d = alloc_bytes r
     \<or> (\<exists>stride. alloc_stride r = Some stride \<and> INTERLEAVED_MEMORY_BASE \<le> dom_first x \<and> dom_bytes d = stride * length (alloc_assignments r))"
      using dd(12) le order_trans by fastforce
    show "fst rng \<le> dom_first x" using dd(5) le by linarith
    show "dom_last x + dom_bytes d \<le> snd rng" using dd(6) le by linarith
    show "is_power_of_two (dom_alignment d)" by (rule dd(14))
    from dd(9) obtain region1 where "on_side (dom_first d) (dom_bytes d) region1" "dom_alignment d = side_alignment r region1" by blast
    then show "\<exists>region1. on_side (dom_first x) (dom_bytes d) region1 \<and> dom_alignment d = side_alignment r region1"
      using dd(7) le unfolding on_side_def by (intro exI [of _ region1]) linarith
    show "life_first (alloc_lifetime r) = 0 \<or> life_last (alloc_lifetime r) = 2 ^ 32 - 1 \<longrightarrow>
        \<not> (fst HOST_SCRATCH_RANGE \<le> fst rng \<and> snd rng \<le> snd HOST_SCRATCH_RANGE)" using dd(13) by blast
  qed (use al le(3) dd(1) in simp_all)
qed

lemma domain_in_aligned: "domain_in r offset rng d \<Longrightarrow> aligned_domain d"
  using domain_inD [of r offset rng d] by (simp add: aligned_domain_def)

lemma domain_clear_sub: "domain_clear p i s j d \<Longrightarrow> subdomain x d \<Longrightarrow> domain_clear p i s j x"
  unfolding domain_clear_def subdomain_def by (metis order_trans)

lemma pair_clear_sym:
  assumes "edges_symmetric p" "i < length (search_requests p)" "j < length (search_requests p)" "pair_clear p i s j t"
  shows "pair_clear p j t i s"
proof -
  have "search_edges p ! i ! j = search_edges p ! j ! i" using assms(1-3) unfolding edges_symmetric_def by blast
  then show ?thesis using assms(4) shares_element_sym [of s t] unfolding pair_clear_def lives_meet_def by blast
qed

lemma excluded_clear:
  assumes "\<forall>q\<in>set (excluded_spans p index j s). clear_of q d"
  shows "domain_clear p index s j d"
proof -
  have "pair_clear p index s j (x, x + dom_bytes d)" if x: "dom_first d \<le> x" "x \<le> dom_last d" for x
  proof (cases "search_edges p ! index ! j")
    case True
    then have "\<forall>q\<in>set (element_spans s). span (x, x + dom_bytes d) \<inter> span q = {}"
      using assms x unfolding excluded_spans_def clear_of_def by (auto simp: span_def Let_def)
    from not_shares_element [OF this] show ?thesis using not_shares_disjoint unfolding pair_clear_def by blast
  next
    case False
    have "span s \<inter> span (x, x + dom_bytes d) = {}"
      if "lives_meet (alloc_lifetime (search_requests p ! index)) (alloc_lifetime (search_requests p ! j))"
    proof -
      have "s \<in> set (excluded_spans p index j s)" using that False by (auto simp: excluded_spans_def lives_meet_def Let_def)
      then have "clear_of s d" using assms by blast
      then show ?thesis using x unfolding clear_of_def by (auto simp: span_def)
    qed
    then show ?thesis using False by (simp add: pair_clear_def)
  qed
  then show ?thesis by (simp add: domain_clear_def)
qed

lemma search_inv_step:
  assumes inv: "search_inv p ranges offset doms plc" and sym: "edges_symmetric p"
    and index: "index < length doms" "plc ! index = None"
    and d: "d \<in> set (doms ! index)" "dom_first d \<le> fst s" "fst s \<le> dom_last d" "dom_alignment d dvd fst s" "snd s = fst s + dom_bytes d"
    and pr: "propagate p index s plc [0..<length doms] doms work = (True, doms', work')"
  shows "search_inv p ranges offset doms' (plc[index := Some s])"
proof -
  note iv = search_invD [OF inv]
  have "\<forall>j<length doms. \<forall>d\<in>set (doms ! j). aligned_domain d" using iv(3) domain_in_aligned by blast
  moreover have "\<forall>j\<in>set [0..<length doms]. j < length doms" "distinct [0..<length doms]" by simp_all
  ultimately have ps: "length doms' = length doms
     \<and> (\<forall>j<length doms. if j \<in> set [0..<length doms] \<and> j \<noteq> index \<and> plc ! j = None
          then \<forall>x\<in>set (doms' ! j). \<exists>d\<in>set (doms ! j). subdomain x d \<and> (\<forall>q\<in>set (excluded_spans p index j s). clear_of q x)
          else doms' ! j = doms ! j)"
    by (intro propagate_sound [OF pr])
  then have len: "length doms' = length doms" by blast
  have new: "\<exists>d\<in>set (doms ! j). subdomain x d \<and> (\<forall>q\<in>set (excluded_spans p index j s). clear_of q x)"
    if "j < length doms" "j \<noteq> index" "plc ! j = None" "x \<in> set (doms' ! j)" for j x
  proof -
    have "j \<in> set [0..<length doms] \<and> j \<noteq> index \<and> plc ! j = None" using that by simp
    from ps [THEN conjunct2, rule_format, OF that(1), unfolded if_P [OF this]] that(4) show ?thesis by blast
  qed
  have old: "doms' ! j = doms ! j" if "j < length doms" "j = index \<or> plc ! j \<noteq> None" for j
  proof -
    have "\<not> (j \<in> set [0..<length doms] \<and> j \<noteq> index \<and> plc ! j = None)" using that by blast
    from ps [THEN conjunct2, rule_format, OF that(1), unfolded if_not_P [OF this]] show ?thesis .
  qed
  have sub: "\<exists>d\<in>set (doms ! j). subdomain x d" if "j < length doms" "x \<in> set (doms' ! j)" for j x
  proof (cases "j = index \<or> plc ! j \<noteq> None")
    case True
    then have "x \<in> set (doms ! j)" using old that by simp
    moreover have "aligned_domain x" using iv(3) that(1) calculation domain_in_aligned by blast
    ultimately show ?thesis using subdomain_refl by blast
  next
    case False
    then show ?thesis using new that by blast
  qed
  have s: "s = (fst s, fst s + dom_bytes d)" using d(5) by (simp add: prod_eq_iff)
  show ?thesis unfolding search_inv_def
  proof (intro conjI allI impI ballI)
    show "length doms' = length (search_requests p)" "length (plc[index := Some s]) = length (search_requests p)"
      using len iv(1,2) by simp_all
    show "\<exists>rng\<in>set ranges. domain_in (search_requests p ! j) offset rng x" if "j < length doms'" "x \<in> set (doms' ! j)" for j x
      using sub [of j x] iv(3) domain_in_sub that len by metis
    show "\<exists>rng\<in>set ranges. placed_in (search_requests p ! i) offset rng (fst t) (snd t)"
      if "i < length doms'" "plc[index := Some s] ! i = Some t" for i t
    proof (cases "i = index")
      case True
      then have "t = s" using that index(1) iv(2) by simp
      then show ?thesis using iv(3) [OF index(1) d(1)] domain_start [OF _ d(2-4)] True d(5) by metis
    next
      case False
      then show ?thesis using iv(4) that len by simp
    qed
    show "case plc[index := Some s] ! j of Some u \<Rightarrow> pair_clear p i t j u | None \<Rightarrow> \<forall>d\<in>set (doms' ! j). domain_clear p i t j d"
      if i: "i < length doms'" "plc[index := Some s] ! i = Some t" and j: "j < length doms'" "j \<noteq> i" for i t j
    proof (cases "i = index")
      case True
      then have t: "t = s" and ji: "j \<noteq> index" using that index(1) iv(2) by simp_all
      show ?thesis
      proof (cases "plc ! j")
        case None
        then show ?thesis using new ji j len excluded_clear by (simp add: True t)
      next
        case (Some u)
        have "domain_clear p j u index d" by (rule iv(6)) (use Some j len index d(1) in simp_all)
        then have "pair_clear p j u index s" using d(2,3) s unfolding domain_clear_def by metis
        then have "pair_clear p index s j u" by (rule pair_clear_sym [OF sym, rotated 2]) (use j len iv(1) index in simp_all)
        then show ?thesis using Some ji by (simp add: True t)
      qed
    next
      case False
      then have pi: "plc ! i = Some t" "i < length doms" using i len by simp_all
      show ?thesis
      proof (cases "j = index")
        case True
        have "domain_clear p i t index d" by (rule iv(6)) (use pi index d(1) in simp_all)
        then have "pair_clear p i t index s" using d(2,3) s unfolding domain_clear_def by metis
        then show ?thesis using True index(1) iv(2) by simp
      next
        case ji: False
        show ?thesis
        proof (cases "plc ! j")
          case None
          have "domain_clear p i t j x" if "x \<in> set (doms' ! j)" for x
            using sub [OF _ that] iv(6) [OF pi(2,1) _ None] domain_clear_sub j len by metis
          then show ?thesis using None ji by simp
        next
          case (Some u)
          then show ?thesis using iv(5) [OF pi(2,1)] j len ji by simp
        qed
      qed
    qed
  qed
qed

lemma visit_sound:
  "visit p doms plc c = (Some plc', c') \<Longrightarrow> search_inv p ranges offset doms plc \<Longrightarrow> edges_symmetric p \<Longrightarrow>
   \<exists>doms'. search_inv p ranges offset doms' plc' \<and> (\<forall>i<length plc'. plc' ! i \<noteq> None)"
  and "try_starts p index doms plc starts c = (Some plc', c') \<Longrightarrow> search_inv p ranges offset doms plc \<Longrightarrow> edges_symmetric p \<Longrightarrow>
   index < length doms \<Longrightarrow> plc ! index = None \<Longrightarrow>
   \<forall>s\<in>set starts. \<exists>d\<in>set (doms ! index). dom_first d \<le> fst s \<and> fst s \<le> dom_last d \<and> dom_alignment d dvd fst s \<and> snd s = fst s + dom_bytes d \<Longrightarrow>
   \<exists>doms'. search_inv p ranges offset doms' plc' \<and> (\<forall>i<length plc'. plc' ! i \<noteq> None)"
proof (induction p doms plc c and p index doms plc starts c rule: visit_try_starts.induct)
  case (1 p doms plc c)
  show ?case
  proof (cases "out_of_budget p c")
    case True
    then show ?thesis using "1.prems"(1) by (simp add: visit.simps)
  next
    case False
    show ?thesis
    proof (cases "pick_request p doms plc")
      case None
      then have "plc' = plc" using "1.prems"(1) False by (simp add: visit.simps)
      then show ?thesis using "1.prems"(2) pick_request_None [OF None] search_invD(1,2) [OF "1.prems"(2)] by auto
    next
      case (Some index)
      note pk = pick_request_Some [OF Some]
      have tr: "try_starts p index doms plc (request_starts (doms ! index)) (fst c + 1, snd c) = (Some plc', c')"
        using "1.prems"(1) False Some by (simp add: visit.simps)
      have "\<exists>d\<in>set (doms ! index). dom_first d \<le> fst s \<and> fst s \<le> dom_last d \<and> dom_alignment d dvd fst s \<and> snd s = fst s + dom_bytes d"
        if m: "s \<in> set (request_starts (doms ! index))" for s
      proof -
        from m obtain d x where dx: "d \<in> set (doms ! index)" "x \<in> set (domain_starts d)" "s = (x, x + dom_bytes d)"
          by (auto simp: request_starts_def)
        have "aligned_domain d" using search_invD(3) [OF "1.prems"(2) _ dx(1)] pk domain_in_aligned by blast
        from domain_starts_in [OF dx(2) this] show ?thesis using dx by auto
      qed
      then have all: "\<forall>s\<in>set (request_starts (doms ! index)). \<exists>d\<in>set (doms ! index).
          dom_first d \<le> fst s \<and> fst s \<le> dom_last d \<and> dom_alignment d dvd fst s \<and> snd s = fst s + dom_bytes d" by blast
      show ?thesis by (rule "1.IH" [OF False Some tr "1.prems"(2,3) _ _ all]) (use pk in simp_all)
    qed
  qed
next
  case (2 p index doms plc c)
  then show ?case by (simp add: try_starts.simps)
next
  case (3 p index doms plc s rest c)
  obtain viable doms1 work where pr: "propagate p index s plc [0..<length doms] doms (snd c) = (viable, doms1, work)" by (metis surj_pair)
  obtain found c1 where vs: "(if viable then visit p doms1 (plc[index := Some s]) (fst c, work) else (None, fst c, work)) = (found, c1)"
    by (metis surj_pair)
  show ?case
  proof (cases found)
    case (Some q)
    then have v: viable and visit: "visit p doms1 (plc[index := Some s]) (fst c, work) = (Some q, c1)" using vs by (auto split: if_splits)
    have q: "q = plc'" "c1 = c'" using "3.prems"(1) pr vs Some by (simp_all add: try_starts.simps)
    obtain d where d: "d \<in> set (doms ! index)" "dom_first d \<le> fst s" "fst s \<le> dom_last d" "dom_alignment d dvd fst s" "snd s = fst s + dom_bytes d"
      using "3.prems"(6) by auto
    have "search_inv p ranges offset doms1 (plc[index := Some s])"
      by (rule search_inv_step [OF "3.prems"(2,3,4,5) d]) (use pr v in simp)
    then show ?thesis using "3.IH"(1) [OF pr [symmetric] refl v visit [unfolded q]] "3.prems"(3) by blast
  next
    case None
    then have "\<not> out_of_budget p c1" "try_starts p index doms plc rest c1 = (Some plc', c')"
      using "3.prems"(1) pr vs by (auto simp: try_starts.simps split: if_splits)
    then show ?thesis
      using "3.IH"(2) [OF pr [symmetric] refl vs [symmetric] None] "3.prems"(2-6) by simp
  qed
qed

subsection \<open>Solving a tile\<close>

record search_outcome =
  outcome_placement :: "(nat \<times> nat) list option"
  outcome_nodes :: nat
  excess_live_bytes :: nat

text \<open>The request that owns a root; a later request replaces an earlier one.\<close>

definition root_owner :: "allocation_request list \<Rightarrow> nat \<rightharpoonup> nat" where
  "root_owner requests =
     map_of (rev (concat (map (\<lambda>(i, r). map (\<lambda>(root, _). (root, i)) (alloc_assignments r)) (enumerate 0 requests))))"

definition conflict_pairs :: "allocation_request list \<Rightarrow> (nat \<times> nat) list" where
  "conflict_pairs requests =
     concat (map (\<lambda>(i, r). List.map_filter (\<lambda>root. case root_owner requests root of
           Some j \<Rightarrow> if i \<noteq> j then Some (i, j) else None | None \<Rightarrow> None) (alloc_conflicts r))
       (enumerate 0 requests))"

definition set_edge :: "bool list list \<Rightarrow> nat \<Rightarrow> nat \<Rightarrow> bool list list" where
  "set_edge edges i j = edges[i := (edges ! i)[j := True]]"

definition conflict_edges :: "allocation_request list \<Rightarrow> bool list list" where
  "conflict_edges requests =
     foldl (\<lambda>edges (i, j). set_edge (set_edge edges i j) j i)
       (replicate (length requests) (replicate (length requests) False)) (conflict_pairs requests)"

text \<open>The largest number of bytes live at one request's first event, at the smallest sizes.\<close>

definition minimum_bytes :: "domain list \<Rightarrow> nat" where
  "minimum_bytes ds = (if ds = [] then 0 else Min (set (map dom_bytes ds)))"

definition live_peak :: "allocation_request list \<Rightarrow> nat list \<Rightarrow> nat" where
  "live_peak requests minimum =
     foldl max 0 (map (\<lambda>r. sum_list (map snd (filter (\<lambda>(q, bytes).
         life_first (alloc_lifetime q) \<le> life_first (alloc_lifetime r)
         \<and> life_first (alloc_lifetime r) \<le> life_last (alloc_lifetime q)) (zip requests minimum)))) requests)"

definition solve :: "allocation_request list \<Rightarrow> arena \<Rightarrow> nat \<Rightarrow> nat \<Rightarrow> search_outcome" where
  "solve requests a nodes_allowed work_allowed =
     (let doms = map (\<lambda>r. map snd (domains r (arena_ranges a) (interleaved_offset a))) requests;
          capacity = sum_list (map (\<lambda>(a, b). b - a) (arena_ranges a));
          peak = live_peak requests (map minimum_bytes doms)
      in if peak > capacity
         then \<lparr>outcome_placement = None, outcome_nodes = 0, excess_live_bytes = peak - capacity\<rparr>
         else
        (let p = \<lparr>search_requests = requests, search_edges = conflict_edges requests,
                  node_budget = nodes_allowed, propagation_budget = work_allowed\<rparr>
         in case visit p doms (replicate (length requests) None) (0, 0) of
              (found, nodes, work) \<Rightarrow>
                \<lparr>outcome_placement = map_option (map the) found, outcome_nodes = nodes, excess_live_bytes = 0\<rparr>))"

definition search_place :: "allocation_request list \<Rightarrow> arena \<Rightarrow> search_outcome" where
  "search_place requests a = solve requests a NODE_BUDGET PROPAGATION_BUDGET"

lemma set_edges:
  assumes "length edges = n" "\<forall>e\<in>set edges. length e = n" "i < n" "j < n"
  shows "length (set_edge edges i j) = n" "\<forall>e\<in>set (set_edge edges i j). length e = n"
    and "x < n \<Longrightarrow> y < n \<Longrightarrow> set_edge edges i j ! x ! y \<longleftrightarrow> edges ! x ! y \<or> x = i \<and> y = j"
  using assms set_update_subset_insert [of edges i "(edges ! i)[j := True]"]
  by (auto simp: set_edge_def nth_list_update)

lemma fold_edges:
  "\<forall>(i, j)\<in>set pairs. i < n \<and> j < n \<Longrightarrow> length edges = n \<Longrightarrow> \<forall>e\<in>set edges. length e = n \<Longrightarrow> x < n \<Longrightarrow> y < n \<Longrightarrow>
   foldl (\<lambda>edges (i, j). set_edge (set_edge edges i j) j i) edges pairs ! x ! y
     \<longleftrightarrow> edges ! x ! y \<or> (x, y) \<in> set pairs \<or> (y, x) \<in> set pairs"
proof (induction pairs arbitrary: edges)
  case (Cons q pairs)
  obtain i j where q: "q = (i, j)" by (cases q)
  have ij: "i < n" "j < n" using Cons.prems(1) q by simp_all
  note e1 = set_edges [OF Cons.prems(2,3) ij]
  note e2 = set_edges [OF e1(1,2) ij(2,1)]
  have "\<forall>(i, j)\<in>set pairs. i < n \<and> j < n" using Cons.prems(1) by simp
  from Cons.IH [OF this e2(1,2) Cons.prems(4,5)] show ?case
    using e1(3) [OF Cons.prems(4,5)] e2(3) [OF Cons.prems(4,5)] by (auto simp: q)
qed simp

lemma root_owner_Some: "root_owner requests root = Some j \<Longrightarrow> j < length requests \<and> root \<in> roots_of (requests ! j)"
  by (auto simp: root_owner_def roots_of_def in_set_enumerate_eq dest!: map_of_SomeD) force

text \<open>Requests with pairwise distinct roots.\<close>

definition separate_requests :: "allocation_request list \<Rightarrow> bool" where
  "separate_requests requests \<longleftrightarrow> sorted_wrt own_names requests"

lemma root_owner_of:
  assumes "sorted_wrt own_names requests" and "j < length requests" and "root \<in> roots_of (requests ! j)"
  shows "root_owner requests root = Some j"
proof -
  have "(root, j) \<in> set (rev (concat (map (\<lambda>(i, r). map (\<lambda>(root, _). (root, i)) (alloc_assignments r)) (enumerate 0 requests))))"
    using assms(2,3) by (force simp: roots_of_def in_set_enumerate_eq)
  then have "root_owner requests root \<noteq> None" unfolding root_owner_def by (metis map_of_eq_None_iff fst_conv image_eqI)
  then obtain k where k: "root_owner requests root = Some k" by blast
  note r = root_owner_Some [OF k]
  have "k = j"
  proof (rule ccontr)
    assume "k \<noteq> j"
    then consider "k < j" | "j < k" by linarith
    then have "roots_of (requests ! k) \<inter> roots_of (requests ! j) = {}"
      using assms(1,2) r unfolding sorted_wrt_iff_nth_less own_names_def by cases blast+
    then show False using r assms(3) by blast
  qed
  then show ?thesis using k by simp
qed

lemma conflict_pairs_mem:
  "(i, j) \<in> set (conflict_pairs requests) \<longleftrightarrow>
   i < length requests \<and> i \<noteq> j \<and> (\<exists>root\<in>set (alloc_conflicts (requests ! i)). root_owner requests root = Some j)"
proof -
  have "(i, j) \<in> set (conflict_pairs requests) \<longleftrightarrow> (\<exists>q\<in>set (enumerate 0 requests).
      (i, j) \<in> set (case q of (i, r) \<Rightarrow> List.map_filter (\<lambda>root. case root_owner requests root of
           Some j \<Rightarrow> if i \<noteq> j then Some (i, j) else None | None \<Rightarrow> None) (alloc_conflicts r)))"
    by (simp add: conflict_pairs_def)
  also have "\<dots> \<longleftrightarrow> (\<exists>q\<in>set (enumerate 0 requests). fst q = i \<and> i \<noteq> j \<and> (\<exists>root\<in>set (alloc_conflicts (snd q)). root_owner requests root = Some j))"
  proof (intro bex_cong refl)
    fix q :: "nat \<times> allocation_request"
    obtain k r where q: "q = (k, r)" by (cases q)
    have "(case root_owner requests root of Some j \<Rightarrow> if k \<noteq> j then Some (k, j) else None | None \<Rightarrow> None) = Some (i, j)
        \<longleftrightarrow> k = i \<and> i \<noteq> j \<and> root_owner requests root = Some j" for root
      by (cases "root_owner requests root") auto
    then show "(i, j) \<in> set (case q of (i, r) \<Rightarrow> List.map_filter (\<lambda>root. case root_owner requests root of
           Some j \<Rightarrow> if i \<noteq> j then Some (i, j) else None | None \<Rightarrow> None) (alloc_conflicts r))
        \<longleftrightarrow> fst q = i \<and> i \<noteq> j \<and> (\<exists>root\<in>set (alloc_conflicts (snd q)). root_owner requests root = Some j)"
      unfolding q prod.case map_filter_mem fst_conv snd_conv by blast
  qed
  also have "\<dots> \<longleftrightarrow> i < length requests \<and> i \<noteq> j \<and> (\<exists>root\<in>set (alloc_conflicts (requests ! i)). root_owner requests root = Some j)"
  proof
    assume "i < length requests \<and> i \<noteq> j \<and> (\<exists>root\<in>set (alloc_conflicts (requests ! i)). root_owner requests root = Some j)"
    then show "\<exists>q\<in>set (enumerate 0 requests). fst q = i \<and> i \<noteq> j \<and> (\<exists>root\<in>set (alloc_conflicts (snd q)). root_owner requests root = Some j)"
      by (intro bexI [of _ "(i, requests ! i)"]) (simp_all add: in_set_enumerate_eq)
  qed (auto simp: in_set_enumerate_eq)
  finally show ?thesis .
qed

text \<open>What two placements owe each other.\<close>

definition conflicting :: "allocation_request \<Rightarrow> allocation_request \<Rightarrow> bool" where
  "conflicting r q \<longleftrightarrow> set (alloc_conflicts r) \<inter> roots_of q \<noteq> {} \<or> set (alloc_conflicts q) \<inter> roots_of r \<noteq> {}"

definition keep_apart :: "allocation_request \<times> nat \<times> nat \<Rightarrow> allocation_request \<times> nat \<times> nat \<Rightarrow> bool" where
  "keep_apart p q \<longleftrightarrow>
     (lives_meet (alloc_lifetime (fst p)) (alloc_lifetime (fst q)) \<longrightarrow> span (snd p) \<inter> span (snd q) = {})
   \<and> (conflicting (fst p) (fst q) \<longrightarrow> \<not> shares_element (snd p) (snd q))"

lemma keep_apart_sym: "keep_apart p q \<Longrightarrow> keep_apart q p"
  using shares_element_sym unfolding keep_apart_def lives_meet_def conflicting_def by blast

lemma search_place_sound:
  assumes found: "outcome_placement (search_place requests a) = Some pl" and own: "sorted_wrt own_names requests"
  shows "length pl = length requests"
    and "i < length requests \<Longrightarrow> \<exists>rng\<in>set (arena_ranges a). placed_in (requests ! i) (interleaved_offset a) rng (fst (pl ! i)) (snd (pl ! i))"
    and "i < length requests \<Longrightarrow> j < length requests \<Longrightarrow> i \<noteq> j \<Longrightarrow> keep_apart (requests ! i, pl ! i) (requests ! j, pl ! j)"
proof -
  let ?n = "length requests"
  let ?doms = "map (\<lambda>r. map snd (domains r (arena_ranges a) (interleaved_offset a))) requests"
  let ?p = "\<lparr>search_requests = requests, search_edges = conflict_edges requests,
      node_budget = NODE_BUDGET, propagation_budget = PROPAGATION_BUDGET\<rparr>"
  obtain out c' where v: "visit ?p ?doms (replicate ?n None) (0, 0) = (Some out, c')" and pl: "pl = map the out"
    using found unfolding search_place_def solve_def Let_def by (auto split: if_splits prod.splits)
  have pairs: "\<forall>(i, j)\<in>set (conflict_pairs requests). i < ?n \<and> j < ?n"
    using conflict_pairs_mem root_owner_Some by blast
  have edge: "conflict_edges requests ! x ! y \<longleftrightarrow> (x, y) \<in> set (conflict_pairs requests) \<or> (y, x) \<in> set (conflict_pairs requests)"
    if "x < ?n" "y < ?n" for x y
    using fold_edges [OF pairs _ _ that, of "replicate ?n (replicate ?n False)"] that unfolding conflict_edges_def by simp
  have sym: "edges_symmetric ?p" using edge unfolding edges_symmetric_def by auto
  have "domain_in (requests ! j) (interleaved_offset a) (arena_ranges a ! k) d \<and> k < length (arena_ranges a)"
    if "(k, d) \<in> set (domains (requests ! j) (arena_ranges a) (interleaved_offset a))" for j k d
    using domains_mem [OF that] by blast
  then have "\<forall>j<?n. \<forall>d\<in>set (?doms ! j). \<exists>rng\<in>set (arena_ranges a). domain_in (requests ! j) (interleaved_offset a) rng d"
    by (auto intro: nth_mem) (metis nth_mem)
  then have "search_inv ?p (arena_ranges a) (interleaved_offset a) ?doms (replicate ?n None)"
    by (simp add: search_inv_def)
  from visit_sound(1) [OF v this sym] obtain doms' where inv: "search_inv ?p (arena_ranges a) (interleaved_offset a) doms' out"
    and all: "\<forall>i<length out. out ! i \<noteq> None" by blast
  note iv = search_invD [OF inv]
  have len: "length out = ?n" "length doms' = ?n" using iv(1,2) by simp_all
  have out: "out ! i = Some (pl ! i)" if "i < ?n" for i using all that len by (simp add: pl)
  show "length pl = length requests" using len by (simp add: pl)
  show "i < length requests \<Longrightarrow> \<exists>rng\<in>set (arena_ranges a). placed_in (requests ! i) (interleaved_offset a) rng (fst (pl ! i)) (snd (pl ! i))"
    using iv(4) [OF _ out] len by simp
  show "keep_apart (requests ! i, pl ! i) (requests ! j, pl ! j)" if ij: "i < ?n" "j < ?n" "i \<noteq> j"
  proof -
    have pc: "pair_clear ?p i (pl ! i) j (pl ! j)" using iv(5) [OF _ out _ _ out] ij len by simp
    have "conflict_edges requests ! i ! j" if "conflicting (requests ! i) (requests ! j)"
    proof -
      have "(x, y) \<in> set (conflict_pairs requests)"
        if xy: "x < ?n" "y < ?n" "x \<noteq> y" "root \<in> set (alloc_conflicts (requests ! x))" "root \<in> roots_of (requests ! y)" for x y root
        using root_owner_of [OF own xy(2,5)] xy by (auto simp: conflict_pairs_mem)
      then show ?thesis using that ij edge unfolding conflicting_def by blast
    qed
    then show ?thesis using pc unfolding pair_clear_def keep_apart_def by simp
  qed
qed

end
