(* ===== verification/Placement.thy ===== *)
theory Placement
  imports Prelude Arena Search
begin

text \<open>
  Placement of one tile (\<open>allocate_tile\<close> of \<open>ipu-codegen/src/place/mod.rs\<close>): requests in
  lifetime order through the arena, then by decreasing size with the offline arena, then the
  bounded search; and the addresses of the members of every alias group.

  The requests derived from the program (\<open>allocation_requests\<close>) and the members of each root
  are arguments. The diagnostics of a failed allocation are not modelled.
\<close>

definition auxiliary_requests :: "auxiliary_request list \<Rightarrow> allocation_request list" where
  "auxiliary_requests auxiliary =
     map (\<lambda>(index, x). \<lparr>alloc_auxiliary = Some index, alloc_class = Ipu21Standard, alloc_stride = None,
            alloc_lifetime = \<lparr>life_first = aux_first x, life_last = aux_last x, life_seen = True\<rparr>,
            alloc_bytes = aux_bytes x, alloc_alignment = aux_alignment x, alloc_assignments = [], alloc_conflicts = []\<rparr>)
       (enumerate 0 auxiliary)"

fun assign_members :: "nat list \<Rightarrow> nat list \<Rightarrow> nat \<Rightarrow> (nat \<rightharpoonup> nat) \<Rightarrow> (nat \<rightharpoonup> nat) placement_result" where
  "assign_members [] member_offsets address addresses = Inr addresses"
| "assign_members (member # members) member_offsets address addresses =
     res_bind (ok_or (try_from 32 member) (Fail PlacementOverflow)) (\<lambda>id.
     res_bind (or_panic (get member_offsets member)) (\<lambda>offset.
     res_bind (ok_or (checked_add 32 address offset) (Fail PlacementOverflow)) (\<lambda>a.
     assign_members members member_offsets address (addresses(id \<mapsto> a)))))"

fun assign_loop ::
  "allocation_request \<Rightarrow> nat \<Rightarrow> (nat \<rightharpoonup> nat list) \<Rightarrow> nat list \<Rightarrow> (nat \<times> nat \<times> nat) list \<Rightarrow> (nat \<rightharpoonup> nat)
     \<Rightarrow> (nat \<rightharpoonup> nat) placement_result" where
  "assign_loop r base members member_offsets [] addresses = Inr addresses"
| "assign_loop r base members member_offsets ((index, root, offset) # rest) addresses =
     res_bind
       (case alloc_stride r of
          Some stride \<Rightarrow>
            if base \<ge> INTERLEAVED_MEMORY_BASE
            then res_bind (ok_or (try_from 32 index) (Fail PlacementOverflow)) (\<lambda>k.
                 ok_or (checked_mul 32 stride k) (Fail PlacementOverflow))
            else Inr offset
        | None \<Rightarrow> Inr offset)
       (\<lambda>offset.
     res_bind (ok_or (checked_add 32 base offset) (Fail PlacementOverflow)) (\<lambda>address.
     res_bind (or_panic (members root)) (\<lambda>ms.
     res_bind (assign_members ms member_offsets address addresses) (\<lambda>addresses'.
     assign_loop r base members member_offsets rest addresses'))))"

definition assign_request ::
  "allocation_request \<Rightarrow> nat \<Rightarrow> (nat \<rightharpoonup> nat list) \<Rightarrow> nat list \<Rightarrow> (nat \<rightharpoonup> nat) \<Rightarrow> (nat \<rightharpoonup> nat) placement_result" where
  "assign_request r base members member_offsets addresses =
     assign_loop r base members member_offsets (enumerate 0 (alloc_assignments r)) addresses"

fun allocate_requests ::
  "nat \<Rightarrow> (nat \<rightharpoonup> nat list) \<Rightarrow> nat list \<Rightarrow> allocation_request list \<Rightarrow> arena \<Rightarrow> (nat \<rightharpoonup> nat)
     \<Rightarrow> (arena \<times> (nat \<rightharpoonup> nat)) placement_result" where
  "allocate_requests tile members member_offsets [] a addresses = Inr (a, addresses)"
| "allocate_requests tile members member_offsets (r # requests) a addresses =
     (case arena_allocate r a of
        (None, _) \<Rightarrow> Inl (Fail (OutOfTileMemory tile (alloc_class r) (alloc_bytes r)))
      | (Some base, a') \<Rightarrow>
          res_bind (assign_request r base members member_offsets addresses) (\<lambda>addresses'.
          allocate_requests tile members member_offsets requests a' addresses'))"

text \<open>Recording the placement the search found.\<close>

fun record_found ::
  "(nat \<rightharpoonup> nat list) \<Rightarrow> nat list \<Rightarrow> (allocation_request \<times> nat \<times> nat) list \<Rightarrow> arena \<Rightarrow> (nat \<rightharpoonup> nat)
     \<Rightarrow> (arena \<times> (nat \<rightharpoonup> nat)) placement_result" where
  "record_found members member_offsets [] a addresses = Inr (a, addresses)"
| "record_found members member_offsets ((r, start, end) # rest) a addresses =
     res_bind (assign_request r start members member_offsets addresses) (\<lambda>addresses'.
     record_found members member_offsets rest (record_placement r start end a) addresses')"

definition lifetime_key :: "allocation_request \<Rightarrow> nat \<times> bool \<times> int \<times> int \<times> nat" where
  "lifetime_key r =
     (life_first (alloc_lifetime r), alloc_class r \<noteq> Ipu21Interleaved, - int (alloc_alignment r), - int (alloc_bytes r),
      life_last (alloc_lifetime r))"

definition size_key :: "allocation_request \<Rightarrow> int \<times> int \<times> int \<times> nat" where
  "size_key r =
     (- int (alloc_alignment r), - int (alloc_bytes r),
      - int (life_last (alloc_lifetime r) - life_first (alloc_lifetime r)), life_first (alloc_lifetime r))"

fun is_out_of_memory :: "(arena \<times> (nat \<rightharpoonup> nat)) placement_result \<Rightarrow> bool" where
  "is_out_of_memory (Inl (Fail (OutOfTileMemory _ _ _))) = True"
| "is_out_of_memory _ = False"

definition allocate_tile ::
  "nat \<Rightarrow> allocation_request list \<Rightarrow> auxiliary_request list \<Rightarrow> (nat \<rightharpoonup> nat list) \<Rightarrow> nat list \<Rightarrow> arena \<Rightarrow> (nat \<rightharpoonup> nat)
     \<Rightarrow> (arena \<times> (nat \<rightharpoonup> nat)) placement_result" where
  "allocate_tile tile tile_requests auxiliary members member_offsets initial addresses =
     (let requests = sort_key lifetime_key (tile_requests @ auxiliary_requests auxiliary);
          first = allocate_requests tile members member_offsets requests initial addresses
      in if \<not> is_out_of_memory first then first
         else
        (let requests' = sort_key size_key requests;
             result = allocate_requests tile members member_offsets requests' (initial\<lparr>offline := True\<rparr>) Map.empty
         in if \<not> is_out_of_memory result then result
            else case outcome_placement (search_place requests' initial) of
                   Some found \<Rightarrow>
                     record_found members member_offsets (zip requests' found) (initial\<lparr>offline := True\<rparr>) Map.empty
                 | None \<Rightarrow> result))"

text \<open>The check of the available ranges in \<open>place_with_auxiliary\<close>.\<close>

definition available_ok :: "(nat \<times> nat) list \<Rightarrow> bool" where
  "available_ok ranges \<longleftrightarrow>
     \<not> list_ex (\<lambda>(start, end). (start < DATA_BASE \<and> (start, end) \<noteq> HOST_SCRATCH_RANGE) \<or> end > APPLICATION_LOAD_LIMIT \<or> start \<ge> end) ranges
   \<and> \<not> list_ex (\<lambda>(p, q). snd p > fst q) (zip ranges (tl ranges))"

subsection \<open>Addresses\<close>

definition assigned_offset :: "allocation_request \<Rightarrow> nat \<Rightarrow> nat \<Rightarrow> nat" where
  "assigned_offset r base k =
     (case alloc_stride r of
        Some stride \<Rightarrow> if base \<ge> INTERLEAVED_MEMORY_BASE then stride * k else snd (alloc_assignments r ! k)
      | None \<Rightarrow> snd (alloc_assignments r ! k))"

definition members_at :: "allocation_request \<Rightarrow> nat \<Rightarrow> (nat \<rightharpoonup> nat list) \<Rightarrow> nat list \<Rightarrow> (nat \<rightharpoonup> nat) \<Rightarrow> bool" where
  "members_at r base members member_offsets addresses \<longleftrightarrow>
     (\<forall>k<length (alloc_assignments r). \<exists>ms. members (fst (alloc_assignments r ! k)) = Some ms
        \<and> (\<forall>m\<in>set ms. addresses m = Some (base + assigned_offset r base k + member_offsets ! m)))"

text \<open>Distinct roots have distinct members.\<close>

definition separate_members :: "(nat \<rightharpoonup> nat list) \<Rightarrow> bool" where
  "separate_members members \<longleftrightarrow>
     (\<forall>root root' ms ms'. members root = Some ms \<longrightarrow> members root' = Some ms' \<longrightarrow> root \<noteq> root' \<longrightarrow> set ms \<inter> set ms' = {})"

lemma assign_members_Inr:
  "assign_members ms member_offsets address addresses = Inr addresses' \<Longrightarrow>
   addresses' = (\<lambda>x. if x \<in> set ms then Some (address + member_offsets ! x) else addresses x)"
proof (induction ms arbitrary: addresses)
  case (Cons m ms)
  then obtain off where "get member_offsets m = Some off"
    "assign_members ms member_offsets address (addresses(m \<mapsto> address + off)) = Inr addresses'"
    by (auto simp: res_simps try_from_def checked_add_def split: if_splits)
  then show ?case using Cons.IH by (auto simp: get_Some fun_eq_iff)
qed simp

lemma assign_loop_Inr:
  "assign_loop r base members member_offsets xs addresses = Inr addresses' \<Longrightarrow> xs = drop n (enumerate 0 (alloc_assignments r)) \<Longrightarrow>
   separate_members members \<Longrightarrow> distinct (map fst (alloc_assignments r)) \<Longrightarrow>
   (\<forall>k. n \<le> k \<and> k < length (alloc_assignments r) \<longrightarrow> (\<exists>ms. members (fst (alloc_assignments r ! k)) = Some ms
        \<and> (\<forall>m\<in>set ms. addresses' m = Some (base + assigned_offset r base k + member_offsets ! m))))
   \<and> (\<forall>x. (\<forall>k ms. n \<le> k \<and> k < length (alloc_assignments r) \<and> members (fst (alloc_assignments r ! k)) = Some ms \<longrightarrow> x \<notin> set ms) \<longrightarrow>
        addresses' x = addresses x)"
proof (induction xs arbitrary: n addresses)
  case Nil
  then have "length (alloc_assignments r) \<le> n" by simp
  then show ?case using Nil(1) by auto
next
  case (Cons x xs)
  have n: "n < length (alloc_assignments r)" using Cons.prems(2) by (metis drop_eq_Nil2 length_enumerate linorder_not_le list.discI)
  obtain root offset where ro: "alloc_assignments r ! n = (root, offset)" by (metis surj_pair)
  have x: "x = (n, root, offset)" and xs: "xs = drop (Suc n) (enumerate 0 (alloc_assignments r))"
  proof -
    have "(n, root, offset) # drop (Suc n) (enumerate 0 (alloc_assignments r)) = drop n (enumerate 0 (alloc_assignments r))"
      using n ro Cons_nth_drop_Suc [of n "enumerate 0 (alloc_assignments r)"] by (simp add: nth_enumerate_eq)
    then show "x = (n, root, offset)" "xs = drop (Suc n) (enumerate 0 (alloc_assignments r))"
      using Cons.prems(2) by (metis list.inject)+
  qed
  obtain ms addresses1 where ms: "members root = Some ms"
    "assign_members ms member_offsets (base + assigned_offset r base n) addresses = Inr addresses1"
    "assign_loop r base members member_offsets xs addresses1 = Inr addresses'"
    using Cons.prems(1) ro unfolding x
    by (auto simp: res_simps assigned_offset_def arith_defs split: option.splits if_splits)
  note am = assign_members_Inr [OF ms(2)]
  note IH = Cons.IH [OF ms(3) xs Cons.prems(3,4)]
  have kept: "y \<notin> set ms'" if y: "y \<in> set ms" and k: "n < k" "k < length (alloc_assignments r)" "members (fst (alloc_assignments r ! k)) = Some ms'" for y k ms'
  proof -
    have "fst (alloc_assignments r ! k) \<noteq> fst (alloc_assignments r ! n)"
      using Cons.prems(4) k n by (simp add: distinct_conv_nth)
    then show ?thesis using Cons.prems(3) ms(1) k(3) ro y unfolding separate_members_def by fastforce
  qed
  show ?case
  proof (intro conjI allI impI)
    fix k assume k: "n \<le> k \<and> k < length (alloc_assignments r)"
    show "\<exists>ms. members (fst (alloc_assignments r ! k)) = Some ms
        \<and> (\<forall>m\<in>set ms. addresses' m = Some (base + assigned_offset r base k + member_offsets ! m))"
    proof (cases "k = n")
      case True
      have "addresses' m = Some (base + assigned_offset r base n + member_offsets ! m)" if "m \<in> set ms" for m
      proof -
        have "addresses' m = addresses1 m" using IH kept [OF that] by (meson Suc_le_lessD)
        then show ?thesis using am that by simp
      qed
      then show ?thesis using True ms(1) ro by simp
    next
      case False
      then show ?thesis using IH k by simp
    qed
  next
    fix y assume none: "\<forall>k ms. n \<le> k \<and> k < length (alloc_assignments r) \<and> members (fst (alloc_assignments r ! k)) = Some ms \<longrightarrow> y \<notin> set ms"
    then have "y \<notin> set ms" using n ms(1) ro by fastforce
    moreover have "addresses' y = addresses1 y" using IH none by (meson Suc_leD)
    ultimately show "addresses' y = addresses y" using am by simp
  qed
qed

lemma assign_request_Inr:
  assumes "assign_request r base members member_offsets addresses = Inr addresses'"
    and "separate_members members" and "distinct (map fst (alloc_assignments r))"
  shows "members_at r base members member_offsets addresses'"
    and "roots_of q \<inter> roots_of r = {} \<Longrightarrow> members_at q b members member_offsets addresses \<Longrightarrow> members_at q b members member_offsets addresses'"
proof -
  note al = assign_loop_Inr [OF assms(1) [unfolded assign_request_def] _ assms(2,3), of 0, simplified]
  show "members_at r base members member_offsets addresses'" using al unfolding members_at_def by blast
  assume d: "roots_of q \<inter> roots_of r = {}" and m: "members_at q b members member_offsets addresses"
  have "addresses' x = addresses x" if "k < length (alloc_assignments q)" "members (fst (alloc_assignments q ! k)) = Some ms" "x \<in> set ms" for k ms x
  proof -
    have "x \<notin> set ms'" if j: "j < length (alloc_assignments r)" "members (fst (alloc_assignments r ! j)) = Some ms'" for j ms'
    proof -
      have "fst (alloc_assignments r ! j) \<in> roots_of r" "fst (alloc_assignments q ! k) \<in> roots_of q"
        using j(1) \<open>k < length (alloc_assignments q)\<close> by (simp_all add: roots_of_def)
      then have "fst (alloc_assignments r ! j) \<noteq> fst (alloc_assignments q ! k)" using d by auto
      then show ?thesis using assms(2) j(2) \<open>members (fst (alloc_assignments q ! k)) = Some ms\<close> \<open>x \<in> set ms\<close>
        unfolding separate_members_def by fastforce
    qed
    then show ?thesis using al by blast
  qed
  then show "members_at q b members member_offsets addresses'" using m unfolding members_at_def by metis
qed

subsection \<open>The placement of a tile\<close>

definition placement_ok :: "nat \<Rightarrow> (nat \<times> nat) list \<Rightarrow> allocation_request \<times> nat \<times> nat \<Rightarrow> bool" where
  "placement_ok offset ranges p \<longleftrightarrow>
     (case p of (r, s, e) \<Rightarrow>
        s \<le> e \<and> {s..<e} \<subseteq> covered ranges
      \<and> (INTERLEAVED_MEMORY_BASE \<le> s \<or> e \<le> INTERLEAVED_MEMORY_BASE)
      \<and> (alloc_class r = Ipu21Interleaved \<longrightarrow> INTERLEAVED_MEMORY_BASE + offset \<le> s)
      \<and> (\<exists>region1. on_side s (e - s) region1 \<and> is_power_of_two (side_alignment r region1) \<and> side_alignment r region1 dvd s)
      \<and> (alloc_stride r = None \<longrightarrow> max (alloc_alignment r) 1 dvd s \<and> e = s + alloc_bytes r)
      \<and> (is_power_of_two (alloc_alignment r) \<longrightarrow> alloc_alignment r dvd s)
      \<and> (alloc_stride r = None \<or> s < INTERLEAVED_MEMORY_BASE \<longrightarrow> e = s + alloc_bytes r)
      \<and> (\<forall>stride. alloc_stride r = Some stride \<and> INTERLEAVED_MEMORY_BASE \<le> s \<and> s < e \<longrightarrow> e = s + stride * length (alloc_assignments r))
      \<and> (e = s + alloc_bytes r \<or> (\<exists>stride. alloc_stride r = Some stride \<and> e = s + stride * length (alloc_assignments r)))
      \<and> (life_first (alloc_lifetime r) = 0 \<or> life_last (alloc_lifetime r) = 2 ^ 32 - 1 \<longrightarrow> {s..<e} \<inter> span HOST_SCRATCH_RANGE = {}))"

lemma windows_sorted:
  "\<not> list_ex (\<lambda>(p, q). snd p > fst q) (zip rs (tl rs)) \<Longrightarrow> ordered_ranges rs \<Longrightarrow> sorted_wrt (\<lambda>p q. snd p \<le> fst q) rs"
proof (induction rs)
  case (Cons r rs)
  then have IH: "sorted_wrt (\<lambda>p q. snd p \<le> fst q) rs" by (cases rs) auto
  have "snd r \<le> fst q" if q: "q \<in> set rs" for q
  proof (cases rs)
    case (Cons p ps)
    have "snd r \<le> fst p" "fst p \<le> snd p" using Cons.prems Cons by auto
    then show ?thesis using q IH Cons by fastforce
  qed (use q in simp)
  then show ?case using IH by simp
qed simp

lemma sorted_windows:
  "sorted_wrt (\<lambda>p q. snd p \<le> fst q) (rs :: (nat \<times> nat) list) \<Longrightarrow> \<not> list_ex (\<lambda>(p, q). snd p > fst q) (zip rs (tl rs))"
proof (induction rs)
  case (Cons r rs)
  then show ?case by (cases rs) (auto dest: leD)
qed simp

lemma available_ranges:
  assumes "available_ok ranges"
  shows "ordered_ranges ranges" "disjoint_spans ranges" "\<And>r. r \<in> set ranges \<Longrightarrow> r = HOST_SCRATCH_RANGE \<or> DATA_BASE \<le> fst r"
proof -
  have each: "fst r < snd r \<and> (r = HOST_SCRATCH_RANGE \<or> DATA_BASE \<le> fst r)" if "r \<in> set ranges" for r
  proof -
    obtain a b where r: "r = (a, b)" by (cases r)
    have "\<not> (case r of (start, end) \<Rightarrow> (start < DATA_BASE \<and> (start, end) \<noteq> HOST_SCRATCH_RANGE) \<or> end > APPLICATION_LOAD_LIMIT \<or> start \<ge> end)"
      using assms that unfolding available_ok_def list_ex_iff by blast
    then show ?thesis unfolding r by auto
  qed
  then show o: "ordered_ranges ranges" and "\<And>r. r \<in> set ranges \<Longrightarrow> r = HOST_SCRATCH_RANGE \<or> DATA_BASE \<le> fst r"
    by (auto intro: less_imp_le)
  have "sorted_wrt (\<lambda>p q. snd p \<le> fst q) ranges" using assms o windows_sorted unfolding available_ok_def by blast
  then show "disjoint_spans ranges" unfolding disjoint_spans_def
    by (rule sorted_wrt_mono_rel [rotated]) (auto simp: span_def)
qed

lemma available_filter:
  assumes "available_ok ranges"
  shows "available_ok (filter keep ranges)"
proof -
  have "sorted_wrt (\<lambda>p q. snd p \<le> fst q) (filter keep ranges)"
    using windows_sorted [of ranges] available_ranges(1) [OF assms] assms by (auto simp: available_ok_def sorted_wrt_filter)
  moreover have "\<not> list_ex f (filter keep ranges)" if "\<not> list_ex f ranges" for f using that by (auto simp: list_ex_iff)
  ultimately show ?thesis using assms sorted_windows unfolding available_ok_def by blast
qed

lemma placed_in_ok:
  assumes p: "placed_in r offset rng s e" and rng: "span rng \<subseteq> covered ranges" and ok: "available_ok ranges"
  shows "placement_ok offset ranges (r, s, e)"
proof -
  note pd = p [unfolded placed_in_def]
  have se: "s \<le> e" "fst rng \<le> s" "e \<le> snd rng" using pd by blast+
  then have sub: "{s..<e} \<subseteq> span rng" by (auto simp: span_def)
  have "x \<notin> {s..<e}" if life: "life_first (alloc_lifetime r) = 0 \<or> life_last (alloc_lifetime r) = 2 ^ 32 - 1"
    and x: "x \<in> span HOST_SCRATCH_RANGE" for x
  proof
    assume xi: "x \<in> {s..<e}"
    have gap: "snd HOST_SCRATCH_RANGE < DATA_BASE" by (simp add: HOST_SCRATCH_RANGE_def memory_constants)
    have x': "fst HOST_SCRATCH_RANGE \<le> x" "x < snd HOST_SCRATCH_RANGE" using x by (simp_all add: span_def)
    have in_range: "\<exists>q. fst q \<le> y \<and> y < snd q \<and> (q = HOST_SCRATCH_RANGE \<or> DATA_BASE \<le> fst q)" if "y \<in> span rng" for y
    proof -
      have "y \<in> covered ranges" using that rng by blast
      then obtain q where "q \<in> set ranges" "y \<in> span q" unfolding covered_def by blast
      then show ?thesis using available_ranges(3) [OF ok, of q] unfolding span_def by (intro exI [of _ q]) simp
    qed
    have "fst rng \<in> span rng" using xi se by (simp add: span_def)
    then obtain q where q: "fst q \<le> fst rng" "fst rng < snd q" "q = HOST_SCRATCH_RANGE \<or> DATA_BASE \<le> fst q" using in_range by blast
    have lower: "fst HOST_SCRATCH_RANGE \<le> fst rng" using q gap xi se x' by (elim disjE) auto
    have "snd rng \<le> snd HOST_SCRATCH_RANGE"
    proof (rule ccontr)
      assume "\<not> snd rng \<le> snd HOST_SCRATCH_RANGE"
      then have "snd HOST_SCRATCH_RANGE \<in> span rng" using xi se x' by (simp add: span_def)
      then show False using in_range gap by fastforce
    qed
    then show False using pd life lower by blast
  qed
  then have host: "life_first (alloc_lifetime r) = 0 \<or> life_last (alloc_lifetime r) = 2 ^ 32 - 1 \<longrightarrow> {s..<e} \<inter> span HOST_SCRATCH_RANGE = {}"
    by blast
  from pd obtain region1 where region1: "is_power_of_two (side_alignment r region1)" "side_alignment r region1 dvd s" by blast
  show ?thesis unfolding placement_ok_def prod.case
  proof (intro conjI)
    show "is_power_of_two (alloc_alignment r) \<longrightarrow> alloc_alignment r dvd s"
      using side_alignment_own region1 dvd_trans by blast
    show "alloc_stride r = None \<longrightarrow> max (alloc_alignment r) 1 dvd s \<and> e = s + alloc_bytes r"
      using pd region1(2) side_alignment_none [of r region1] by auto
    show "s \<le> e" by (rule se(1))
    show "{s..<e} \<subseteq> covered ranges" using sub rng by blast
    show "INTERLEAVED_MEMORY_BASE \<le> s \<or> e \<le> INTERLEAVED_MEMORY_BASE" "alloc_class r = Ipu21Interleaved \<longrightarrow> INTERLEAVED_MEMORY_BASE + offset \<le> s"
      "\<exists>region1. on_side s (e - s) region1 \<and> is_power_of_two (side_alignment r region1) \<and> side_alignment r region1 dvd s"
      "alloc_stride r = None \<or> s < INTERLEAVED_MEMORY_BASE \<longrightarrow> e = s + alloc_bytes r"
      "\<forall>stride. alloc_stride r = Some stride \<and> INTERLEAVED_MEMORY_BASE \<le> s \<and> s < e \<longrightarrow> e = s + stride * length (alloc_assignments r)"
      "e = s + alloc_bytes r \<or> (\<exists>stride. alloc_stride r = Some stride \<and> e = s + stride * length (alloc_assignments r))"
      using pd by blast+
  qed (rule host)
qed

lemma allocate_requests_log:
  "allocate_requests tile members member_offsets rs a addresses = Inr (a', addresses') \<Longrightarrow> arena_ok lg now a \<Longrightarrow>
   offline a \<or> sorted (map (\<lambda>r. life_first (alloc_lifetime r)) rs) \<and> (\<forall>r\<in>set rs. now \<le> life_first (alloc_lifetime r)) \<Longrightarrow>
   sorted_wrt own_names (map fst lg @ rs) \<Longrightarrow> \<forall>r\<in>set rs. distinct (map fst (alloc_assignments r)) \<Longrightarrow> separate_members members \<Longrightarrow>
   available_ok (arena_ranges a) \<Longrightarrow> \<forall>(q, b, _)\<in>set lg. members_at q b members member_offsets addresses \<Longrightarrow>
   \<exists>new. map fst new = rs \<and> log_recorded (lg @ new) a' \<and> (\<forall>p\<in>set new. placement_ok (interleaved_offset a) (arena_ranges a) p)
     \<and> sorted_wrt placed_apart new \<and> (\<forall>p\<in>set lg. \<forall>q\<in>set new. placed_apart p q)
     \<and> (\<forall>(q, b, _)\<in>set (lg @ new). members_at q b members member_offsets addresses')"
proof (induction rs arbitrary: a addresses lg now)
  case Nil
  then show ?case by (auto simp: arena_ok_def)
next
  case (Cons r rs)
  obtain base a1 addresses1 where al: "arena_allocate r a = (Some base, a1)"
    and as: "assign_request r base members member_offsets addresses = Inr addresses1"
    and rest: "allocate_requests tile members member_offsets rs a1 addresses1 = Inr (a', addresses')"
    using Cons.prems(1) by (auto simp: res_simps split: prod.splits option.splits)
  have own: "\<forall>p\<in>set lg. own_names (fst p) r" using Cons.prems(4) by (auto simp: sorted_wrt_append)
  have ord: "offline a \<or> now \<le> life_first (alloc_lifetime r)" using Cons.prems(3) by auto
  obtain rng e where st: "placed_in r (interleaved_offset a) rng base e" "span rng \<subseteq> covered (arena_ranges a)"
    "arena_ok (lg @ [(r, base, e)]) (life_first (alloc_lifetime r)) a1" "\<forall>p\<in>set lg. placed_apart p (r, base, e)"
    "offline a1 = offline a" "interleaved_offset a1 = interleaved_offset a" "arena_ranges a1 = arena_ranges a"
    by (rule arena_allocate_Some [OF Cons.prems(2) ord own al])
  have d: "distinct (map fst (alloc_assignments r))" using Cons.prems(5) by simp
  note asg = assign_request_Inr [OF as Cons.prems(6) d]
  have m1: "\<forall>(q, b, _)\<in>set (lg @ [(r, base, e)]). members_at q b members member_offsets addresses1"
  proof -
    have "members_at q b members member_offsets addresses1" if "(q, b, f) \<in> set lg" for q b f
    proof (rule asg(2))
      show "roots_of q \<inter> roots_of r = {}" using bspec [OF own that] by (simp add: own_names_def)
      show "members_at q b members member_offsets addresses" using bspec [OF Cons.prems(8) that] by simp
    qed
    then show ?thesis using asg(1) by auto
  qed
  have "offline a1 \<or> sorted (map (\<lambda>r. life_first (alloc_lifetime r)) rs) \<and> (\<forall>q\<in>set rs. life_first (alloc_lifetime r) \<le> life_first (alloc_lifetime q))"
    using Cons.prems(3) st(5) by auto
  moreover have "sorted_wrt own_names (map fst (lg @ [(r, base, e)]) @ rs)" using Cons.prems(4) by simp
  moreover have "\<forall>r\<in>set rs. distinct (map fst (alloc_assignments r))" using Cons.prems(5) by simp
  moreover have "available_ok (arena_ranges a1)" using Cons.prems(7) st(7) by simp
  ultimately obtain new where new: "map fst new = rs" "log_recorded ((lg @ [(r, base, e)]) @ new) a'"
    "\<forall>p\<in>set new. placement_ok (interleaved_offset a1) (arena_ranges a1) p" "sorted_wrt placed_apart new"
    "\<forall>p\<in>set (lg @ [(r, base, e)]). \<forall>q\<in>set new. placed_apart p q"
    "\<forall>(q, b, _)\<in>set ((lg @ [(r, base, e)]) @ new). members_at q b members member_offsets addresses'"
    using Cons.IH [OF rest st(3) _ _ _ Cons.prems(6) _ m1] by blast
  have "placement_ok (interleaved_offset a) (arena_ranges a) (r, base, e)" by (rule placed_in_ok [OF st(1,2) Cons.prems(7)])
  then show ?case using new st(4,6,7) by (intro exI [of _ "(r, base, e) # new"]) auto
qed

lemma record_found_log:
  "record_found members member_offsets ps a addresses = Inr (a', addresses') \<Longrightarrow> log_recorded lg a \<Longrightarrow>
   sorted_wrt own_names (map fst (lg @ ps)) \<Longrightarrow> \<forall>p\<in>set ps. fst (snd p) \<le> snd (snd p) \<and> distinct (map fst (alloc_assignments (fst p))) \<Longrightarrow>
   separate_members members \<Longrightarrow> \<forall>(q, b, _)\<in>set lg. members_at q b members member_offsets addresses \<Longrightarrow>
   log_recorded (lg @ ps) a' \<and> (\<forall>(q, b, _)\<in>set (lg @ ps). members_at q b members member_offsets addresses')"
proof (induction ps arbitrary: a addresses lg)
  case (Cons p ps)
  obtain r s e where p: "p = (r, s, e)" by (metis surj_pair)
  obtain addresses1 where as: "assign_request r s members member_offsets addresses = Inr addresses1"
    and rest: "record_found members member_offsets ps (record_placement r s e a) addresses1 = Inr (a', addresses')"
    using Cons.prems(1) by (auto simp: res_simps p)
  have own: "\<forall>p\<in>set lg. own_names (fst p) r" using Cons.prems(3) by (auto simp: sorted_wrt_append p)
  have d: "distinct (map fst (alloc_assignments r))" "s \<le> e" using Cons.prems(4) p by simp_all
  note asg = assign_request_Inr [OF as Cons.prems(5) d(1)]
  have "members_at q b members member_offsets addresses1" if m: "(q, b, f) \<in> set lg" for q b f
  proof (rule asg(2))
    show "roots_of q \<inter> roots_of r = {}" using bspec [OF own m] by (simp add: own_names_def)
    show "members_at q b members member_offsets addresses" using bspec [OF Cons.prems(6) m] by simp
  qed
  then have "\<forall>(q, b, _)\<in>set (lg @ [p]). members_at q b members member_offsets addresses1" using asg(1) p by auto
  moreover have "log_recorded (lg @ [p]) (record_placement r s e a)"
    unfolding p by (rule log_recorded_snoc [OF Cons.prems(2) d(2) own])
  moreover have "sorted_wrt own_names (map fst ((lg @ [p]) @ ps))" using Cons.prems(3) by simp
  ultimately show ?case using Cons.IH [OF rest, of "lg @ [p]"] Cons.prems(4,5) by simp
qed simp

lemma own_names_sym: "own_names r q \<Longrightarrow> own_names q r"
  by (auto simp: own_names_def)

text \<open>Conflicts between requests are mutual.\<close>

definition mutual_conflicts :: "allocation_request list \<Rightarrow> bool" where
  "mutual_conflicts rs \<longleftrightarrow>
     (\<forall>r\<in>set rs. \<forall>q\<in>set rs. set (alloc_conflicts r) \<inter> roots_of q \<noteq> {} \<longrightarrow> set (alloc_conflicts q) \<inter> roots_of r \<noteq> {})"

lemma placed_apart_keep:
  assumes "placed_apart p q" and "mutual_conflicts rs" "fst p \<in> set rs" "fst q \<in> set rs"
  shows "keep_apart p q"
proof -
  obtain r s e where p: "p = (r, s, e)" by (metis surj_pair)
  obtain r' s' e' where q: "q = (r', s', e')" by (metis surj_pair)
  have apart: "lives_meet (alloc_lifetime r) (alloc_lifetime r') \<Longrightarrow> {s..<e} \<inter> {s'..<e'} = {}"
    "set (alloc_conflicts r') \<inter> roots_of r \<noteq> {} \<Longrightarrow> \<forall>(a, b)\<in>set (element_spans (s, e)). {s'..<e'} \<inter> {a..<b} = {}"
    using assms(1) unfolding p q placed_apart_def by simp_all
  have "\<not> shares_element (s, e) (s', e')" if c: "conflicting r r'"
  proof (rule not_shares_element)
    have "set (alloc_conflicts r') \<inter> roots_of r \<noteq> {}"
    proof (cases "set (alloc_conflicts r) \<inter> roots_of r' = {}")
      case True
      then show ?thesis using c unfolding conflicting_def by blast
    next
      case False
      then show ?thesis
        using assms(2) [unfolded mutual_conflicts_def, THEN bspec, OF assms(3), THEN bspec, OF assms(4)] by (simp add: p q)
    qed
    from apart(2) [OF this] show "\<forall>x\<in>set (element_spans (s, e)). span (s', e') \<inter> span x = {}" by (auto simp: span_def)
  qed
  then show ?thesis using apart(1) unfolding keep_apart_def p q by (simp add: span_def)
qed

lemma sorted_wrt_keep:
  assumes "sorted_wrt placed_apart lg" "mutual_conflicts rs" "fst ` set lg \<subseteq> set rs"
  shows "sorted_wrt keep_apart lg"
  using assms(1,3)
proof (induction lg)
  case (Cons p lg)
  have "keep_apart p q" if "q \<in> set lg" for q
    by (rule placed_apart_keep [OF _ assms(2)]) (use that Cons.prems in auto)
  then show ?case using Cons by simp
qed simp

lemma arena_ok_new: "available_ok ranges \<Longrightarrow> arena_ok [] 0 (arena_new ranges offset)"
  "available_ok ranges \<Longrightarrow> arena_ok [] 0 (arena_new ranges offset\<lparr>offline := True\<rparr>)"
  using available_ranges(1,2) [of ranges] by (simp_all add: arena_ok_def arena_new_def log_recorded_def covered_def)

lemma sorted_lifetime_key: "sorted (map (\<lambda>r. life_first (alloc_lifetime r)) (sort_key lifetime_key rs))"
proof -
  have "sorted (map lifetime_key (sort_key lifetime_key rs))" by simp
  then show ?thesis unfolding sorted_map by (rule sorted_wrt_mono_rel [rotated]) (auto simp: lifetime_key_def less_eq_prod_def)
qed

lemma allocate_tile_log:
  assumes "allocate_tile tile requests auxiliary members member_offsets (arena_new ranges offset) Map.empty = Inr (a, addresses)"
    and "available_ok ranges" and "separate_members members"
    and "sorted_wrt own_names (requests @ auxiliary_requests auxiliary)"
    and "\<forall>r\<in>set requests. distinct (map fst (alloc_assignments r))"
    and "mutual_conflicts (requests @ auxiliary_requests auxiliary)"
  shows "\<exists>lg. mset (map fst lg) = mset (requests @ auxiliary_requests auxiliary)
    \<and> (\<forall>p\<in>set lg. placement_ok offset ranges p) \<and> sorted_wrt keep_apart lg
    \<and> log_recorded lg a \<and> (\<forall>(r, base, _)\<in>set lg. members_at r base members member_offsets addresses)"
proof -
  let ?all = "requests @ auxiliary_requests auxiliary" and ?new = "arena_new ranges offset"
  let ?goal = "\<lambda>lg. mset (map fst lg) = mset ?all \<and> (\<forall>p\<in>set lg. placement_ok offset ranges p) \<and> sorted_wrt keep_apart lg
    \<and> log_recorded lg a \<and> (\<forall>(r, base, _)\<in>set lg. members_at r base members member_offsets addresses)"
  have distinct: "\<forall>r\<in>set ?all. distinct (map fst (alloc_assignments r))"
    using assms(5) by (auto simp: auxiliary_requests_def)
  have own: "sorted_wrt own_names rs" if "mset rs = mset ?all" for rs
    by (rule sorted_wrt_symmetric [OF own_names_sym that [symmetric] assms(4)])
  have greedy: "\<exists>lg. ?goal lg"
    if "allocate_requests tile members member_offsets rs a0 m = Inr (a, addresses)" "mset rs = mset ?all" "arena_ok [] 0 a0"
      "offline a0 \<or> sorted (map (\<lambda>r. life_first (alloc_lifetime r)) rs)" "arena_ranges a0 = ranges" "interleaved_offset a0 = offset" for rs a0 m
  proof -
    note g = that
    have rs: "set rs = set ?all" using g(2) by (rule mset_eq_setD)
    have "\<exists>lg. map fst lg = rs \<and> log_recorded ([] @ lg) a \<and> (\<forall>p\<in>set lg. placement_ok (interleaved_offset a0) (arena_ranges a0) p)
       \<and> sorted_wrt placed_apart lg \<and> (\<forall>p\<in>set []. \<forall>q\<in>set lg. placed_apart p q)
       \<and> (\<forall>(q, b, _)\<in>set ([] @ lg). members_at q b members member_offsets addresses)"
    proof (rule allocate_requests_log [OF that(1,3)])
      show "offline a0 \<or> sorted (map (\<lambda>r. life_first (alloc_lifetime r)) rs) \<and> (\<forall>r\<in>set rs. 0 \<le> life_first (alloc_lifetime r))"
        using that(4) by simp
      show "sorted_wrt own_names (map fst [] @ rs)" using own [OF that(2)] by simp
      show "\<forall>r\<in>set rs. distinct (map fst (alloc_assignments r))" unfolding rs by (rule distinct)
    qed (simp_all add: assms(2,3) that(5))
    then obtain lg where lg: "map fst lg = rs" "log_recorded lg a" "\<forall>p\<in>set lg. placement_ok offset ranges p" "sorted_wrt placed_apart lg"
      "\<forall>(q, b, _)\<in>set lg. members_at q b members member_offsets addresses" unfolding g(5,6) append_Nil by blast
    have "set (map fst lg) = set ?all" by (simp only: lg(1) rs)
    then have "fst ` set lg \<subseteq> set ?all" by (simp only: set_map)
    then have "sorted_wrt keep_apart lg" by (rule sorted_wrt_keep [OF lg(4) assms(6)])
    then show ?thesis using lg g(2) by blast
  qed
  let ?rs1 = "sort_key lifetime_key ?all"
  let ?rs2 = "sort_key size_key ?rs1"
  let ?first = "allocate_requests tile members member_offsets ?rs1 ?new Map.empty"
  let ?second = "allocate_requests tile members member_offsets ?rs2 (?new\<lparr>offline := True\<rparr>) Map.empty"
  have new: "arena_ranges ?new = ranges" "interleaved_offset ?new = offset" by (simp_all add: arena_new_def)
  consider (first) "?first = Inr (a, addresses)" | (second) "?second = Inr (a, addresses)"
    | (search) pl where "outcome_placement (search_place ?rs2 ?new) = Some pl"
        "record_found members member_offsets (zip ?rs2 pl) (?new\<lparr>offline := True\<rparr>) Map.empty = Inr (a, addresses)"
    using assms(1) unfolding allocate_tile_def Let_def by (auto split: if_splits option.splits)
  then show ?thesis
  proof cases
    case first
    then show ?thesis using greedy [OF first] sorted_lifetime_key arena_ok_new(1) [OF assms(2)] new by simp
  next
    case second
    then show ?thesis using greedy [OF second] arena_ok_new(2) [OF assms(2)] new by simp
  next
    case search
    have m2: "mset ?rs2 = mset ?all" by simp
    note ss = search_place_sound [OF search(1) own [OF m2]]
    let ?lg = "zip ?rs2 pl"
    have fsts: "map fst ?lg = ?rs2" using ss(1) by simp
    have "placement_ok offset ranges p" if "p \<in> set ?lg" for p
    proof -
      from that obtain i where i: "i < length ?rs2" "p = (?rs2 ! i, pl ! i)" using ss(1) by (auto simp: in_set_zip)
      from ss(2) [OF i(1)] obtain rng where rng: "rng \<in> set ranges" "placed_in (?rs2 ! i) offset rng (fst (pl ! i)) (snd (pl ! i))"
        unfolding new by blast
      have "span rng \<subseteq> covered ranges" using rng(1) unfolding covered_def by blast
      from placed_in_ok [OF rng(2) this assms(2)] have "placement_ok offset ranges (?rs2 ! i, fst (pl ! i), snd (pl ! i))" .
      then show ?thesis unfolding i(2) prod.collapse .
    qed
    note ok = this
    have apart: "sorted_wrt keep_apart ?lg"
      unfolding sorted_wrt_iff_nth_less using ss(1,3) by simp
    have "fst (snd p) \<le> snd (snd p) \<and> distinct (map fst (alloc_assignments (fst p)))" if "p \<in> set ?lg" for p
    proof
      show "fst (snd p) \<le> snd (snd p)" using ok [OF that] by (auto simp: placement_ok_def split: prod.splits)
      have "fst p \<in> set ?rs2" using that by (metis fst_conv in_set_zipE prod.collapse)
      then show "distinct (map fst (alloc_assignments (fst p)))" using distinct by simp
    qed
    then have "log_recorded ([] @ ?lg) a \<and> (\<forall>(q, b, _)\<in>set ([] @ ?lg). members_at q b members member_offsets addresses)"
      by (intro record_found_log [OF search(2) _ _ _ assms(3)])
        (use own [OF m2] fsts in \<open>simp_all add: log_recorded_def\<close>)
    moreover have "mset (map fst ?lg) = mset ?all" unfolding fsts by simp
    ultimately show ?thesis using ok apart by (intro exI [of _ ?lg]) simp
  qed
qed

text \<open>Only members of the tile's roots get an address, and it fits 32 bits.\<close>

definition members_only :: "(nat \<rightharpoonup> nat list) \<Rightarrow> (nat \<rightharpoonup> nat) \<Rightarrow> bool" where
  "members_only members addresses \<longleftrightarrow>
     (\<forall>i a. addresses i = Some a \<longrightarrow> a < 2 ^ 32 \<and> (\<exists>root ms. members root = Some ms \<and> i \<in> set ms))"

lemma assign_members_small:
  "assign_members ms member_offsets address addresses = Inr addresses' \<Longrightarrow> i \<in> set ms \<Longrightarrow> address + member_offsets ! i < 2 ^ 32"
  by (induction ms arbitrary: addresses) (auto simp: res_simps try_from_def checked_add_def split: if_splits)

lemma assign_loop_members:
  "assign_loop r base members member_offsets xs addresses = Inr addresses' \<Longrightarrow> members_only members addresses \<Longrightarrow>
   members_only members addresses'"
proof (induction r base members member_offsets xs addresses rule: assign_loop.induct)
  case (2 r base members member_offsets index root offset rest addresses)
  from "2.prems"(1) obtain x address ms addresses1 where ms: "members root = Some ms"
    and a: "assign_members ms member_offsets address addresses = Inr addresses1"
    and l: "assign_loop r base members member_offsets rest addresses1 = Inr addresses'"
    by (auto simp: res_simps)
  have "members_only members addresses1"
    unfolding members_only_def
  proof (intro allI impI)
    fix i y assume y: "addresses1 i = Some y"
    show "y < 2 ^ 32 \<and> (\<exists>root ms. members root = Some ms \<and> i \<in> set ms)"
    proof (cases "i \<in> set ms")
      case True
      then show ?thesis using y assign_members_small [OF a True] ms unfolding assign_members_Inr [OF a] by auto
    next
      case False
      then show ?thesis using y "2.prems"(2) unfolding assign_members_Inr [OF a] members_only_def by simp
    qed
  qed
  then show ?case using "2.IH" l by blast
qed simp

lemma allocate_requests_members:
  "allocate_requests tile members member_offsets rs a addresses = Inr (a', addresses') \<Longrightarrow> members_only members addresses \<Longrightarrow>
   members_only members addresses'"
  by (induction rs arbitrary: a addresses)
    (auto simp: res_simps assign_request_def dest: assign_loop_members split: prod.splits option.splits)

lemma record_found_members:
  "record_found members member_offsets ps a addresses = Inr (a', addresses') \<Longrightarrow> members_only members addresses \<Longrightarrow>
   members_only members addresses'"
proof (induction ps arbitrary: a addresses)
  case (Cons p ps)
  obtain r s e where p: "p = (r, s, e)" by (metis surj_pair)
  from Cons show ?case unfolding p by (auto simp: res_simps assign_request_def dest: assign_loop_members)
qed simp

lemma allocate_tile_members:
  assumes "allocate_tile tile requests auxiliary members member_offsets initial Map.empty = Inr (a, addresses)"
  shows "members_only members addresses"
proof -
  have e: "members_only members Map.empty" by (simp add: members_only_def)
  show ?thesis using assms unfolding allocate_tile_def Let_def
    by (auto split: if_splits option.splits intro: allocate_requests_members [OF _ e] record_found_members [OF _ e])
qed

text \<open>
  C34: The placement of a tile is sound: whichever of the three strategies succeeds, every request
  gets one interval of its size inside the available memory, on one side of the interleaved
  boundary, starting at a multiple of its alignment and, when it has a stride, of the memory
  element of that side, and outside the host's scratch range when it is live at a host phase;
  two requests whose lifetimes share an event never share a byte, requests with an access
  conflict never share a physical memory element, and every member of every alias group is
  assigned its address in the interval of its root.
\<close>

theorem tile_placement_is_sound:
  assumes "allocate_tile tile requests auxiliary members member_offsets (arena_new ranges offset) Map.empty = Inr (a, addresses)"
    and "available_ok ranges" and "separate_members members"
    and "sorted_wrt own_names (requests @ auxiliary_requests auxiliary)"
    and "\<forall>r\<in>set requests. distinct (map fst (alloc_assignments r))"
    and "mutual_conflicts (requests @ auxiliary_requests auxiliary)"
  shows "\<exists>lg. mset (map fst lg) = mset (requests @ auxiliary_requests auxiliary)
    \<and> (\<forall>p\<in>set lg. placement_ok offset ranges p) \<and> sorted_wrt keep_apart lg
    \<and> log_recorded lg a \<and> (\<forall>(r, base, _)\<in>set lg. members_at r base members member_offsets addresses)"
  by (rule allocate_tile_log [OF assms])

text \<open>Two live requests with an access conflict, in one free range.\<close>

definition sample_first :: allocation_request where
  "sample_first = \<lparr>alloc_auxiliary = None, alloc_class = Ipu21Standard, alloc_stride = None,
     alloc_lifetime = \<lparr>life_first = 1, life_last = 3, life_seen = True\<rparr>, alloc_bytes = 16, alloc_alignment = 8,
     alloc_assignments = [(0, 0)], alloc_conflicts = [1]\<rparr>"

definition sample_second :: allocation_request where
  "sample_second = \<lparr>alloc_auxiliary = None, alloc_class = Ipu21Standard, alloc_stride = None,
     alloc_lifetime = \<lparr>life_first = 2, life_last = 5, life_seen = True\<rparr>, alloc_bytes = 32, alloc_alignment = 8,
     alloc_assignments = [(1, 0)], alloc_conflicts = [0]\<rparr>"

lemma power_8: "is_power_of_two 8"
  by (simp add: is_power_of_two.simps)

lemmas domain_eval = domains_def region_domain_def HOST_SCRATCH_RANGE_def memory_constants place_align_up_def result_ok_def
  checked_next_multiple_of_def arith_defs power_8 Let_def map_filter_simps

lemma sample_domains:
  "domains sample_first [(0x60000, 0x70000)] 0 = [(0, \<lparr>dom_first = 0x60000, dom_last = 0x6fff0, dom_alignment = 8, dom_bytes = 16\<rparr>)]"
  "domains sample_second [(0x60010, 0x70000)] 0 = [(0, \<lparr>dom_first = 0x60010, dom_last = 0x6ffe0, dom_alignment = 8, dom_bytes = 32\<rparr>)]"
  by (simp_all add: sample_first_def sample_second_def domain_eval)

lemma sample_elements: "element_spans (0x60000, 0x60010) = [(0x60000, 0x64000)]"
  by (simp add: element_spans_def element_span_def map_filter_simps memory_constants div_ceil_def)

definition sample_arena :: arena where
  "sample_arena = record_placement sample_first 0x60000 0x60010 (arena_new [(0x60000, 0x70000)] 0\<lparr>arena_free := [(0x60010, 0x70000)]\<rparr>)"

lemma sample_first_allocates: "arena_allocate sample_first (arena_new [(0x60000, 0x70000)] 0) = (Some 0x60000, sample_arena)"
proof -
  have "List.map_filter (root_spans (arena_new [(0x60000, 0x70000)] 0)) (alloc_conflicts sample_first) = []"
    by (simp add: sample_first_def arena_new_def map_filter_simps)
  then show ?thesis using sample_domains(1)
    by (simp add: arena_allocate_def arena_new_def merge_ranges_def first_min_def map_filter_simps arena_candidate_def
        take_free_def sample_arena_def memory_constants)
qed

lemma sample_second_allocates: "\<exists>a. arena_allocate sample_second sample_arena = (Some 0x64000, a)"
proof -
  have f: "arena_free sample_arena = [(0x60010, 0x70000)]" "active sample_arena = [(3, 0x60000, 16)]" "interleaved_offset sample_arena = 0"
    "\<not> offline sample_arena" "root_spans sample_arena 0 = Some (0x60000, 0x60010)"
    by (simp_all add: sample_arena_def arena_new_def sample_first_def roots_of_def)
  have c: "alloc_conflicts sample_second = [0]" "life_first (alloc_lifetime sample_second) = 2"
    by (simp_all add: sample_second_def)
  show ?thesis using sample_domains(2) sample_elements f
    by (simp add: arena_allocate_def c merge_ranges_def merge_step_def first_min_def map_filter_simps arena_candidate_def
        memory_constants place_align_up_def result_ok_def checked_next_multiple_of_def checked_add_def power_8 Let_def)
qed

lemma sample_tile_allocates:
  "\<exists>a addresses. allocate_tile 0 [sample_first, sample_second] [] [0 \<mapsto> [0], 1 \<mapsto> [1]] [0, 0] (arena_new [(0x60000, 0x70000)] 0) Map.empty
    = Inr (a, addresses)"
proof -
  have s: "sort_key lifetime_key ([sample_first, sample_second] @ auxiliary_requests []) = [sample_first, sample_second]"
    by (simp add: auxiliary_requests_def lifetime_key_def sample_first_def sample_second_def less_eq_prod_def)
  obtain a where a: "arena_allocate sample_second sample_arena = (Some 0x64000, a)" using sample_second_allocates by blast
  obtain m1 where m1: "assign_request sample_first 0x60000 [0 \<mapsto> [0], 1 \<mapsto> [1]] [0, 0] Map.empty = Inr m1"
    by (simp add: assign_request_def sample_first_def try_from_def checked_add_def get_def)
  obtain m2 where m2: "assign_request sample_second 0x64000 [0 \<mapsto> [0], 1 \<mapsto> [1]] [0, 0] m1 = Inr m2"
    by (simp add: assign_request_def sample_second_def try_from_def checked_add_def get_def)
  have "allocate_requests 0 [0 \<mapsto> [0], 1 \<mapsto> [1]] [0, 0] [sample_first, sample_second] (arena_new [(0x60000, 0x70000)] 0) Map.empty
      = Inr (a, m2)"
    by (simp only: allocate_requests.simps sample_first_allocates a m1 m2 prod.case option.case res_bind_simps)
  then show ?thesis unfolding allocate_tile_def Let_def s by simp
qed

theorem tile_placement_is_sound_witness:
  "\<exists>a addresses lg. allocate_tile 0 [sample_first, sample_second] [] [0 \<mapsto> [0], 1 \<mapsto> [1]] [0, 0] (arena_new [(0x60000, 0x70000)] 0) Map.empty
      = Inr (a, addresses)
    \<and> mset (map fst lg) = {#sample_first, sample_second#} \<and> sorted_wrt keep_apart lg \<and> log_recorded lg a"
proof -
  obtain a addresses where al: "allocate_tile 0 [sample_first, sample_second] [] [0 \<mapsto> [0], 1 \<mapsto> [1]] [0, 0]
      (arena_new [(0x60000, 0x70000)] 0) Map.empty = Inr (a, addresses)" using sample_tile_allocates by blast
  have "available_ok [(0x60000, 0x70000)]" by (simp add: available_ok_def memory_constants)
  moreover have "separate_members [0 \<mapsto> [0], 1 \<mapsto> [1]]" by (simp add: separate_members_def)
  moreover have "sorted_wrt own_names ([sample_first, sample_second] @ auxiliary_requests [])"
    by (simp add: auxiliary_requests_def own_names_def roots_of_def sample_first_def sample_second_def)
  moreover have "\<forall>r\<in>set [sample_first, sample_second]. distinct (map fst (alloc_assignments r))"
    by (simp add: sample_first_def sample_second_def)
  moreover have "mutual_conflicts ([sample_first, sample_second] @ auxiliary_requests [])"
    by (simp add: mutual_conflicts_def auxiliary_requests_def roots_of_def sample_first_def sample_second_def)
  ultimately have "\<exists>lg. mset (map fst lg) = mset ([sample_first, sample_second] @ auxiliary_requests [])
    \<and> (\<forall>p\<in>set lg. placement_ok 0 [(0x60000, 0x70000)] p) \<and> sorted_wrt keep_apart lg
    \<and> log_recorded lg a \<and> (\<forall>(r, base, _)\<in>set lg. members_at r base [0 \<mapsto> [0], 1 \<mapsto> [1]] [0, 0] addresses)"
    by (rule tile_placement_is_sound [OF al])
  then show ?thesis using al by (auto simp: auxiliary_requests_def)
qed

end
