(* ===== verification/Matching.thy ===== *)
theory Matching
  imports Prelude Dependencies "HOL-Library.While_Combinator"
begin

text \<open>
  Maximum-cardinality waves (\<open>exchange/matching.rs\<close>, \<open>maximum_ready_matching\<close> and
  \<open>augment_ready_matching\<close>): a matching between source and destination tiles, grown along
  shortest alternating paths.

  The loops over the queue and over the phases and the recursion of the path search have no
  bound in the code; they are modelled as possibly diverging (\<open>None\<close>), and the lemmas show that
  they return. The unchecked addition on distances is exact: a distance that is not
  \<open>usize::MAX\<close> stays below the number of tiles.
\<close>

subsection \<open>Operations\<close>

definition USIZE_MAX :: nat where
  "USIZE_MAX = 2 ^ 64 - 1"

record matching_state =
  source_edges :: "nat option list"
  destination_sources :: "nat option list"
  distances :: "nat list"

definition destination_tile :: "pending_transfer list \<Rightarrow> nat \<Rightarrow> nat" where
  "destination_tile pending index = fst (destinations (pending ! index) ! 0)"

text \<open>Level search: the distances of the free sources and the initial queue.\<close>

definition start_levels :: "matching_state \<Rightarrow> nat list \<Rightarrow> nat list \<times> nat list" where
  "start_levels st source_order =
     foldl (\<lambda>(queue, dist) s.
         if source_edges st ! s = None then (queue @ [s], dist[s := 0]) else (queue, dist[s := USIZE_MAX]))
       ([], distances st) source_order"

text \<open>One edge of the source taken from the queue.\<close>

definition level_edge ::
  "pending_transfer list \<Rightarrow> matching_state \<Rightarrow> nat \<Rightarrow> nat list \<times> nat list \<times> bool \<Rightarrow> nat \<Rightarrow> nat list \<times> nat list \<times> bool" where
  "level_edge pending st s = (\<lambda>(queue, dist, reaches) index.
     case destination_sources st ! destination_tile pending index of
       Some next_source \<Rightarrow>
         if dist ! next_source = USIZE_MAX then (queue @ [next_source], dist[next_source := dist ! s + 1], reaches)
         else (queue, dist, reaches)
     | None \<Rightarrow> (queue, dist, True))"

definition level_step ::
  "pending_transfer list \<Rightarrow> nat list list \<Rightarrow> matching_state \<Rightarrow> nat list \<times> nat list \<times> bool \<Rightarrow> nat list \<times> nat list \<times> bool" where
  "level_step pending adjacency st = (\<lambda>(queue, dist, reaches).
     foldl (level_edge pending st (hd queue)) (tl queue, dist, reaches) (adjacency ! hd queue))"

definition level_search ::
  "pending_transfer list \<Rightarrow> nat list list \<Rightarrow> nat list \<Rightarrow> matching_state \<Rightarrow> (nat list \<times> nat list \<times> bool) option" where
  "level_search pending adjacency source_order st =
     (case start_levels st source_order of
        (queue, dist) \<Rightarrow>
          while_option (\<lambda>(queue, _). queue \<noteq> []) (level_step pending adjacency st) (queue, dist, False))"

definition claim :: "nat \<Rightarrow> nat \<Rightarrow> nat \<Rightarrow> matching_state \<Rightarrow> matching_state" where
  "claim s index destination st =
     st\<lparr>source_edges := (source_edges st)[s := Some index],
        destination_sources := (destination_sources st)[destination := Some s]\<rparr>"

text \<open>\<open>augment_ready_matching\<close> from the remaining edges of a source on.\<close>

partial_function (option) augment_from ::
  "pending_transfer list \<Rightarrow> nat list list \<Rightarrow> nat \<Rightarrow> nat list \<Rightarrow> matching_state \<Rightarrow> (bool \<times> matching_state) option" where
  "augment_from pending adjacency s rest st =
     (case rest of
        [] \<Rightarrow> Some (False, st\<lparr>distances := (distances st)[s := USIZE_MAX]\<rparr>)
      | index # rest' \<Rightarrow>
          (let destination = destination_tile pending index
           in case destination_sources st ! destination of
                None \<Rightarrow> Some (True, claim s index destination st)
              | Some paired \<Rightarrow>
                  if distances st ! paired = distances st ! s + 1
                  then Option.bind (augment_from pending adjacency paired (adjacency ! paired) st) (\<lambda>(found, st').
                         if found then Some (True, claim s index destination st')
                         else augment_from pending adjacency s rest' st')
                  else augment_from pending adjacency s rest' st))"

definition augment_ready_matching ::
  "pending_transfer list \<Rightarrow> nat list list \<Rightarrow> nat \<Rightarrow> matching_state \<Rightarrow> (bool \<times> matching_state) option" where
  "augment_ready_matching pending adjacency s st = augment_from pending adjacency s (adjacency ! s) st"

fun augment_all ::
  "pending_transfer list \<Rightarrow> nat list list \<Rightarrow> nat list \<Rightarrow> bool \<times> matching_state \<Rightarrow> (bool \<times> matching_state) option" where
  "augment_all pending adjacency [] r = Some r"
| "augment_all pending adjacency (s # rest) (augmented, st) =
     (if source_edges st ! s = None
      then Option.bind (augment_ready_matching pending adjacency s st) (\<lambda>(found, st').
             augment_all pending adjacency rest (augmented \<or> found, st'))
      else augment_all pending adjacency rest (augmented, st))"

partial_function (option) matching_loop ::
  "pending_transfer list \<Rightarrow> nat list list \<Rightarrow> nat list \<Rightarrow> matching_state \<Rightarrow> matching_state option" where
  "matching_loop pending adjacency source_order st =
     Option.bind (level_search pending adjacency source_order st) (\<lambda>(_, dist, reaches).
     if \<not> reaches then Some (st\<lparr>distances := dist\<rparr>)
     else Option.bind (augment_all pending adjacency source_order (False, st\<lparr>distances := dist\<rparr>)) (\<lambda>(augmented, st').
       if augmented then matching_loop pending adjacency source_order st' else Some st'))"

definition matching_new :: "nat \<Rightarrow> matching_state" where
  "matching_new n = \<lparr>source_edges = replicate n None, destination_sources = replicate n None,
     distances = replicate n USIZE_MAX\<rparr>"

definition maximum_ready_matching ::
  "pending_transfer list \<Rightarrow> nat list list \<Rightarrow> nat list \<Rightarrow> nat \<Rightarrow> nat list option" where
  "maximum_ready_matching pending adjacency source_order n =
     map_option (\<lambda>st. List.map_filter id (source_edges st))
       (matching_loop pending adjacency source_order (matching_new n))"

subsection \<open>Matchings\<close>

text \<open>The tiles and edges a wave is chosen from.\<close>

definition matching_input :: "pending_transfer list \<Rightarrow> nat list list \<Rightarrow> nat list \<Rightarrow> nat \<Rightarrow> bool" where
  "matching_input pending adjacency source_order n \<longleftrightarrow>
     length adjacency = n \<and> n < USIZE_MAX \<and> distinct source_order
   \<and> set source_order = {s. s < n \<and> adjacency ! s \<noteq> []}
   \<and> (\<forall>s<n. \<forall>i\<in>set (adjacency ! s). destination_tile pending i < n \<and> source (pending ! i) = s)"

definition sized :: "nat \<Rightarrow> matching_state \<Rightarrow> bool" where
  "sized n st \<longleftrightarrow> length (source_edges st) = n \<and> length (destination_sources st) = n \<and> length (distances st) = n"

definition edges_recorded :: "pending_transfer list \<Rightarrow> nat list list \<Rightarrow> nat \<Rightarrow> matching_state \<Rightarrow> bool" where
  "edges_recorded pending adjacency n st \<longleftrightarrow>
     (\<forall>s<n. \<forall>i. source_edges st ! s = Some i \<longrightarrow>
        i \<in> set (adjacency ! s) \<and> destination_sources st ! destination_tile pending i = Some s)"

text \<open>Every claimed destination but possibly the one in \<open>hole\<close> belongs to its source's edge.\<close>

definition claims_recorded :: "pending_transfer list \<Rightarrow> nat option \<Rightarrow> nat \<Rightarrow> matching_state \<Rightarrow> bool" where
  "claims_recorded pending hole n st \<longleftrightarrow>
     (\<forall>d<n. \<forall>s. destination_sources st ! d = Some s \<and> hole \<noteq> Some d \<longrightarrow>
        s < n \<and> (\<exists>i. source_edges st ! s = Some i \<and> destination_tile pending i = d))"

definition matching_ok :: "pending_transfer list \<Rightarrow> nat list list \<Rightarrow> nat \<Rightarrow> matching_state \<Rightarrow> bool" where
  "matching_ok pending adjacency n st \<longleftrightarrow>
     sized n st \<and> edges_recorded pending adjacency n st \<and> claims_recorded pending None n st"

definition levels_ok :: "nat \<Rightarrow> matching_state \<Rightarrow> bool" where
  "levels_ok n st \<longleftrightarrow> (\<forall>q<n. distances st ! q = USIZE_MAX \<or> distances st ! q < n)"

text \<open>What a search from a source leaves alone: the levels up to its own, and their claims.\<close>

definition levels_kept :: "nat \<Rightarrow> nat \<Rightarrow> matching_state \<Rightarrow> matching_state \<Rightarrow> bool" where
  "levels_kept n s st st' \<longleftrightarrow>
     (\<forall>q<n. distances st' ! q = distances st ! q
        \<or> distances st' ! q = USIZE_MAX \<and> (q = s \<or> distances st ! s < distances st ! q))"

definition claims_kept :: "nat \<Rightarrow> nat \<Rightarrow> matching_state \<Rightarrow> matching_state \<Rightarrow> bool" where
  "claims_kept n s st st' \<longleftrightarrow>
     (\<forall>d<n. \<forall>q. destination_sources st ! d = Some q \<and> distances st ! q \<le> distances st ! s \<longrightarrow>
        destination_sources st' ! d = Some q)
   \<and> (\<forall>q<n. q \<noteq> s \<and> distances st ! q \<le> distances st ! s \<longrightarrow> source_edges st' ! q = source_edges st ! q)"

definition old_destination :: "pending_transfer list \<Rightarrow> nat \<Rightarrow> matching_state \<Rightarrow> nat option" where
  "old_destination pending s st = map_option (destination_tile pending) (source_edges st ! s)"

text \<open>A successful search gives the source a new destination and frees its old one.\<close>

definition rematched :: "pending_transfer list \<Rightarrow> nat list list \<Rightarrow> nat \<Rightarrow> nat \<Rightarrow> matching_state \<Rightarrow> matching_state \<Rightarrow> bool" where
  "rematched pending adjacency n s st st' \<longleftrightarrow>
     claims_kept n s st st' \<and> edges_recorded pending adjacency n st'
   \<and> claims_recorded pending (old_destination pending s st) n st'
   \<and> (\<exists>i. source_edges st' ! s = Some i \<and> old_destination pending s st \<noteq> Some (destination_tile pending i))
   \<and> (\<forall>q<n. q \<noteq> s \<longrightarrow> (source_edges st' ! q = None \<longleftrightarrow> source_edges st ! q = None))"

lemma claim_simps [simp]:
  "source_edges (claim s i d st) = (source_edges st)[s := Some i]"
  "destination_sources (claim s i d st) = (destination_sources st)[d := Some s]"
  "distances (claim s i d st) = distances st"
  by (simp_all add: claim_def)

lemma sized_claim [simp]: "sized n (claim s i d st) \<longleftrightarrow> sized n st"
  by (simp add: sized_def)

text \<open>Claiming a free destination.\<close>

lemma claim_free:
  assumes "matching_ok pending adj n st" and "s < n" and "i \<in> set (adj ! s)"
    and "destination_tile pending i < n" and "destination_sources st ! destination_tile pending i = None"
  shows "rematched pending adj n s st (claim s i (destination_tile pending i) st)"
proof -
  let ?d = "destination_tile pending i"
  have L: "length (source_edges st) = n" "length (destination_sources st) = n"
    using assms(1) by (simp_all add: matching_ok_def sized_def)
  have e: "j \<in> set (adj ! q) \<and> destination_sources st ! destination_tile pending j = Some q"
    if "q < n" "source_edges st ! q = Some j" for q j
    using assms(1) that by (auto simp: matching_ok_def edges_recorded_def)
  have c: "q < n \<and> (\<exists>j. source_edges st ! q = Some j \<and> destination_tile pending j = d)"
    if "d < n" "destination_sources st ! d = Some q" for q d
    using assms(1) that by (auto simp: matching_ok_def claims_recorded_def)
  have old: "old_destination pending s st \<noteq> Some ?d"
    using e [OF assms(2)] assms(5) by (auto simp: old_destination_def)
  show ?thesis unfolding rematched_def
  proof (intro conjI)
    show "claims_kept n s st (claim s i ?d st)"
      using L assms(2,4,5) by (auto simp: claims_kept_def nth_list_update)
    show "edges_recorded pending adj n (claim s i ?d st)"
      unfolding edges_recorded_def
    proof (intro allI impI)
      fix q j assume q: "q < n" "source_edges (claim s i ?d st) ! q = Some j"
      show "j \<in> set (adj ! q) \<and> destination_sources (claim s i ?d st) ! destination_tile pending j = Some q"
      proof (cases "q = s")
        case True
        then have "j = i" using q L assms(2) by simp
        then show ?thesis using True assms(3,4) L by simp
      next
        case False
        then have "source_edges st ! q = Some j" using q L by simp
        note j = e [OF q(1) this]
        then have "destination_tile pending j \<noteq> ?d" using assms(5) by auto
        then show ?thesis using j by simp
      qed
    qed
    show "claims_recorded pending (old_destination pending s st) n (claim s i ?d st)"
      unfolding claims_recorded_def
    proof (intro allI impI, elim conjE)
      fix d q assume d: "d < n" "destination_sources (claim s i ?d st) ! d = Some q" "old_destination pending s st \<noteq> Some d"
      show "q < n \<and> (\<exists>j. source_edges (claim s i ?d st) ! q = Some j \<and> destination_tile pending j = d)"
      proof (cases "d = ?d")
        case True
        then show ?thesis using d L assms(2,4) by auto
      next
        case False
        then have "destination_sources st ! d = Some q" using d by simp
        note q = c [OF d(1) this]
        then have "q \<noteq> s" using d(3) by (auto simp: old_destination_def)
        then show ?thesis using q L by simp
      qed
    qed
    show "\<exists>j. source_edges (claim s i ?d st) ! s = Some j \<and> old_destination pending s st \<noteq> Some (destination_tile pending j)"
      using old L assms(2) by simp
    show "\<forall>q<n. q \<noteq> s \<longrightarrow> (source_edges (claim s i ?d st) ! q = None) = (source_edges st ! q = None)"
      by simp
  qed
qed

text \<open>Claiming the destination of a source that has been given another one.\<close>

lemma claim_freed:
  assumes "matching_ok pending adj n st" and "s < n" and "i \<in> set (adj ! s)"
    and "destination_tile pending i < n" and "destination_sources st ! destination_tile pending i = Some p"
    and "distances st ! s < distances st ! p"
    and "rematched pending adj n p st st'" and "sized n st'"
  shows "rematched pending adj n s st (claim s i (destination_tile pending i) st')"
proof -
  let ?d = "destination_tile pending i" and ?st = "claim s i (destination_tile pending i) st'"
  have L: "length (source_edges st') = n" "length (destination_sources st') = n"
    using assms(8) by (simp_all add: sized_def)
  have e: "j \<in> set (adj ! q) \<and> destination_sources st ! destination_tile pending j = Some q"
    if "q < n" "source_edges st ! q = Some j" for q j
    using assms(1) that by (auto simp: matching_ok_def edges_recorded_def)
  obtain j where j: "p < n" "source_edges st ! p = Some j" "destination_tile pending j = ?d"
    using assms(1,4,5) by (auto simp: matching_ok_def claims_recorded_def)
  have oldp: "old_destination pending p st = Some ?d" using j by (simp add: old_destination_def)
  have kept: "claims_kept n p st st'" and e': "edges_recorded pending adj n st'"
    and c': "claims_recorded pending (Some ?d) n st'"
    and matched: "\<forall>q<n. q \<noteq> p \<longrightarrow> (source_edges st' ! q = None \<longleftrightarrow> source_edges st ! q = None)"
    using assms(7) oldp by (simp_all add: rematched_def)
  obtain k where k: "source_edges st' ! p = Some k" "destination_tile pending k \<noteq> ?d"
    using assms(7) oldp by (auto simp: rematched_def)
  have dd: "destination_sources st' ! ?d = Some p" using kept assms(4,5) by (auto simp: claims_kept_def)
  have ps: "p \<noteq> s" using assms(6) by auto
  have se: "source_edges st' ! s = source_edges st ! s"
    using kept assms(2,6) ps by (auto simp: claims_kept_def)
  have old: "old_destination pending s st \<noteq> Some ?d"
    using e [OF assms(2)] assms(5) ps by (auto simp: old_destination_def)
  show ?thesis unfolding rematched_def
  proof (intro conjI)
    show "claims_kept n s st ?st" unfolding claims_kept_def
    proof (intro conjI allI impI; elim conjE)
      fix d q assume d: "d < n" "destination_sources st ! d = Some q" "distances st ! q \<le> distances st ! s"
      have "d \<noteq> ?d" using d assms(5,6) by auto
      moreover have "destination_sources st' ! d = Some q"
        using kept d assms(6) by (auto simp: claims_kept_def)
      ultimately show "destination_sources ?st ! d = Some q" by simp
    next
      fix q assume q: "q < n" "q \<noteq> s" "distances st ! q \<le> distances st ! s"
      have "q \<noteq> p" using q assms(6) by auto
      then have "source_edges st' ! q = source_edges st ! q"
        using kept q assms(6) by (auto simp: claims_kept_def)
      then show "source_edges ?st ! q = source_edges st ! q" using q by simp
    qed
    show "edges_recorded pending adj n ?st" unfolding edges_recorded_def
    proof (intro allI impI)
      fix q m assume q: "q < n" "source_edges ?st ! q = Some m"
      show "m \<in> set (adj ! q) \<and> destination_sources ?st ! destination_tile pending m = Some q"
      proof (cases "q = s")
        case True
        then have "m = i" using q L assms(2) by simp
        then show ?thesis using True assms(3,4) L by simp
      next
        case False
        then have q': "source_edges st' ! q = Some m" using q L by simp
        then have m: "m \<in> set (adj ! q)" "destination_sources st' ! destination_tile pending m = Some q"
          using e' q(1) by (auto simp: edges_recorded_def)
        have "destination_tile pending m \<noteq> ?d"
        proof
          assume "destination_tile pending m = ?d"
          then have "q = p" using m(2) dd by simp
          then show False using q' k \<open>destination_tile pending m = ?d\<close> by simp
        qed
        then show ?thesis using m by simp
      qed
    qed
    show "claims_recorded pending (old_destination pending s st) n ?st" unfolding claims_recorded_def
    proof (intro allI impI, elim conjE)
      fix d q assume d: "d < n" "destination_sources ?st ! d = Some q" "old_destination pending s st \<noteq> Some d"
      show "q < n \<and> (\<exists>m. source_edges ?st ! q = Some m \<and> destination_tile pending m = d)"
      proof (cases "d = ?d")
        case True
        then show ?thesis using d L assms(2,4) by auto
      next
        case False
        then have "destination_sources st' ! d = Some q" using d by simp
        then have q: "q < n \<and> (\<exists>m. source_edges st' ! q = Some m \<and> destination_tile pending m = d)"
          using c' d(1) False by (auto simp: claims_recorded_def)
        then have "q \<noteq> s" using d(3) by (auto simp: old_destination_def se)
        then show ?thesis using q L by simp
      qed
    qed
    show "\<exists>m. source_edges ?st ! s = Some m \<and> old_destination pending s st \<noteq> Some (destination_tile pending m)"
      using old L assms(2) by simp
    show "\<forall>q<n. q \<noteq> s \<longrightarrow> (source_edges ?st ! q = None) = (source_edges st ! q = None)"
    proof (intro allI impI)
      fix q assume "q < n" "q \<noteq> s"
      then show "(source_edges ?st ! q = None) = (source_edges st ! q = None)"
        using matched k(1) j(2) by (cases "q = p") simp_all
    qed
  qed
qed

text \<open>The search returns: it fails and leaves the matching alone, or it matches the source anew.\<close>

definition search_post ::
  "pending_transfer list \<Rightarrow> nat list list \<Rightarrow> nat \<Rightarrow> nat \<Rightarrow> matching_state \<Rightarrow> bool \<Rightarrow> matching_state \<Rightarrow> bool" where
  "search_post pending adj n s st found st' \<longleftrightarrow>
     sized n st' \<and> levels_kept n s st st'
   \<and> (if found then rematched pending adj n s st st'
      else source_edges st' = source_edges st \<and> destination_sources st' = destination_sources st
           \<and> distances st' ! s = USIZE_MAX)"

lemma levels_kept_ok: "levels_kept n s st st' \<Longrightarrow> levels_ok n st \<Longrightarrow> levels_ok n st'"
  unfolding levels_kept_def levels_ok_def by metis

lemma levels_kept_deeper:
  assumes "levels_kept n p st st'" and "distances st ! s < distances st ! p"
  shows "levels_kept n s st st'" and "s < n \<Longrightarrow> distances st' ! s = distances st ! s"
  using assms by (auto simp: levels_kept_def)

lemma levels_kept_trans:
  assumes "levels_kept n s st st'" and "levels_kept n s st' st''" and "distances st' ! s = distances st ! s"
  shows "levels_kept n s st st''"
  unfolding levels_kept_def
proof (intro allI impI)
  fix q assume "q < n"
  then have "distances st' ! q = distances st ! q \<or> distances st' ! q = USIZE_MAX \<and> (q = s \<or> distances st ! s < distances st ! q)"
    and "distances st'' ! q = distances st' ! q \<or> distances st'' ! q = USIZE_MAX \<and> (q = s \<or> distances st' ! s < distances st' ! q)"
    using assms(1,2) by (auto simp: levels_kept_def)
  then show "distances st'' ! q = distances st ! q \<or> distances st'' ! q = USIZE_MAX \<and> (q = s \<or> distances st ! s < distances st ! q)"
    using assms(3) by auto
qed

lemma rematched_shallow:
  assumes "rematched pending adj n s st' st''" and "levels_kept n p st st'" and "distances st ! s < distances st ! p"
    and "source_edges st' = source_edges st" and "destination_sources st' = destination_sources st" and "s < n"
    and "claims_recorded pending None n st"
  shows "rematched pending adj n s st st''"
proof -
  have same: "distances st' ! q = distances st ! q" if "q < n" "distances st ! q \<le> distances st ! s" for q
    using assms(2,3) that by (force simp: levels_kept_def)
  have sub: "q < n" if "d < n" "destination_sources st ! d = Some q" for d q
    using assms(7) that by (auto simp: claims_recorded_def)
  have kept: "claims_kept n s st' st''" using assms(1) by (simp add: rematched_def)
  have "claims_kept n s st st''" unfolding claims_kept_def
  proof (intro conjI allI impI; elim conjE)
    fix d q assume d: "d < n" "destination_sources st ! d = Some q" "distances st ! q \<le> distances st ! s"
    then have "distances st' ! q \<le> distances st' ! s" using same sub [OF d(1,2)] assms(6) by simp
    then show "destination_sources st'' ! d = Some q" using kept d assms(5) by (auto simp: claims_kept_def)
  next
    fix q assume q: "q < n" "q \<noteq> s" "distances st ! q \<le> distances st ! s"
    then have "distances st' ! q \<le> distances st' ! s" using same assms(6) by simp
    then show "source_edges st'' ! q = source_edges st ! q" using kept q assms(4) by (auto simp: claims_kept_def)
  qed
  then show ?thesis using assms(1,4) by (simp add: rematched_def old_destination_def)
qed

lemma augment_from_post:
  assumes input: "matching_input pending adj so n"
  shows "matching_ok pending adj n st \<Longrightarrow> levels_ok n st \<Longrightarrow> s < n \<Longrightarrow> distances st ! s = k \<Longrightarrow> k < n \<Longrightarrow>
    set rest \<subseteq> set (adj ! s) \<Longrightarrow>
    \<exists>found st'. augment_from pending adj s rest st = Some (found, st') \<and> search_post pending adj n s st found st'"
proof (induction "n - k" arbitrary: k s rest st rule: less_induct)
  case (less k)
  note outer = less.hyps
  have dest: "destination_tile pending i < n" if "q < n" "i \<in> set (adj ! q)" for i q
    using input that by (auto simp: matching_input_def)
  have "n < USIZE_MAX" using input by (simp add: matching_input_def)
  show ?case using less.prems
  proof (induction rest arbitrary: st)
    case Nil
    then show ?case
      by (subst augment_from.simps)
        (auto simp: search_post_def levels_kept_def sized_def matching_ok_def nth_list_update)
  next
    case (Cons i rest)
    let ?d = "destination_tile pending i"
    have d: "?d < n" "i \<in> set (adj ! s)" using dest [OF Cons.prems(3)] Cons.prems(6) by auto
    have sized: "sized n st" and claims: "claims_recorded pending None n st"
      using Cons.prems(1) by (simp_all add: matching_ok_def)
    show ?case
    proof (cases "destination_sources st ! ?d")
      case None
      then have "augment_from pending adj s (i # rest) st = Some (True, claim s i ?d st)"
        by (subst augment_from.simps) simp
      moreover have "search_post pending adj n s st True (claim s i ?d st)"
        using claim_free [OF Cons.prems(1,3) d(2,1) None] sized by (simp add: search_post_def levels_kept_def)
      ultimately show ?thesis by blast
    next
      case (Some p)
      have p: "p < n" using claims d(1) Some by (auto simp: claims_recorded_def)
      show ?thesis
      proof (cases "distances st ! p = distances st ! s + 1")
        case False
        have "augment_from pending adj s (i # rest) st = augment_from pending adj s rest st"
          using False Some by (subst augment_from.simps) simp
        then show ?thesis using Cons.IH Cons.prems by simp
      next
        case True
        have kp: "distances st ! p = Suc k" "Suc k < n"
        proof -
          show "distances st ! p = Suc k" using True Cons.prems(4) by simp
          then show "Suc k < n" using Cons.prems(2,5) p \<open>n < USIZE_MAX\<close> unfolding levels_ok_def by (metis Suc_lessI less_irrefl)
        qed
        have "n - Suc k < n - k" using Cons.prems(5) by simp
        from outer [OF this Cons.prems(1,2) p kp order.refl]
        obtain found st' where rec: "augment_from pending adj p (adj ! p) st = Some (found, st')"
          and post: "search_post pending adj n p st found st'" by blast
        have deep: "distances st ! s < distances st ! p" using True by simp
        have kept: "levels_kept n p st st'" "sized n st'" using post by (simp_all add: search_post_def)
        note k = levels_kept_deeper [OF kept(1) deep]
        show ?thesis
        proof (cases found)
          case True
          have "augment_from pending adj s (i # rest) st = Some (True, claim s i ?d st')"
            using \<open>distances st ! p = distances st ! s + 1\<close> Some rec True by (subst augment_from.simps) simp
          moreover have "search_post pending adj n s st True (claim s i ?d st')"
            using claim_freed [OF Cons.prems(1,3) d(2,1) Some deep _ kept(2)] post True kept k
            by (simp add: search_post_def levels_kept_def)
          ultimately show ?thesis by blast
        next
          case False
          have eq: "augment_from pending adj s (i # rest) st = augment_from pending adj s rest st'"
            using \<open>distances st ! p = distances st ! s + 1\<close> Some rec False by (subst augment_from.simps) simp
          have same: "source_edges st' = source_edges st" "destination_sources st' = destination_sources st"
            using post False by (simp_all add: search_post_def)
          have "matching_ok pending adj n st'"
            using Cons.prems(1) kept(2) same by (simp add: matching_ok_def edges_recorded_def claims_recorded_def)
          moreover have "levels_ok n st'" by (rule levels_kept_ok [OF kept(1) Cons.prems(2)])
          moreover have "distances st' ! s = k" using k(2) Cons.prems(3,4) by simp
          ultimately obtain found' st'' where r: "augment_from pending adj s rest st' = Some (found', st'')"
            "search_post pending adj n s st' found' st''"
            using Cons.IH [of st'] Cons.prems(3,5,6) by auto
          have "search_post pending adj n s st found' st''"
            using r(2) levels_kept_trans [OF k(1) _ k(2) [OF Cons.prems(3)]]
              rematched_shallow [OF _ kept(1) deep same Cons.prems(3) claims] same
            by (simp add: search_post_def split: if_splits)
          then show ?thesis using eq r(1) by auto
        qed
      qed
    qed
  qed
qed

text \<open>
  What failed searches leave behind: from a source whose level was erased, every edge leads to
  a claimed destination, whose source is no next level or was erased as well.
\<close>

definition exhausted :: "pending_transfer list \<Rightarrow> (nat \<Rightarrow> nat) \<Rightarrow> matching_state \<Rightarrow> nat \<Rightarrow> nat set \<Rightarrow> bool" where
  "exhausted pending level st q indexes \<longleftrightarrow>
     (\<forall>i\<in>indexes. \<exists>p. destination_sources st ! destination_tile pending i = Some p
        \<and> p < length (distances st) \<and> (level p = level q + 1 \<longrightarrow> distances st ! p = USIZE_MAX))"

definition erased_ok :: "pending_transfer list \<Rightarrow> nat list list \<Rightarrow> nat \<Rightarrow> (nat \<Rightarrow> nat) \<Rightarrow> matching_state \<Rightarrow> bool" where
  "erased_ok pending adj n level st \<longleftrightarrow>
     (\<forall>q<n. distances st ! q = level q
        \<or> distances st ! q = USIZE_MAX \<and> exhausted pending level st q (set (adj ! q)))"

lemma exhausted_mono:
  assumes "exhausted pending level st q I" and "destination_sources st' = destination_sources st"
    and "length (distances st') = length (distances st)"
    and "\<And>p. p < length (distances st) \<Longrightarrow> distances st ! p = USIZE_MAX \<Longrightarrow> distances st' ! p = USIZE_MAX"
  shows "exhausted pending level st' q I"
  using assms unfolding exhausted_def by metis

lemma augment_from_fails:
  assumes input: "matching_input pending adj so n"
  shows "matching_ok pending adj n st \<Longrightarrow> levels_ok n st \<Longrightarrow> s < n \<Longrightarrow> distances st ! s = k \<Longrightarrow> k < n \<Longrightarrow>
    set rest \<subseteq> set (adj ! s) \<Longrightarrow> erased_ok pending adj n level st \<Longrightarrow> level s = k \<Longrightarrow>
    exhausted pending level st s (set (adj ! s) - set rest) \<Longrightarrow>
    augment_from pending adj s rest st = Some (False, st') \<Longrightarrow> erased_ok pending adj n level st'"
proof (induction "n - k" arbitrary: k s rest st st' rule: less_induct)
  case (less k)
  note outer = less.hyps
  have dest: "destination_tile pending i < n" if "q < n" "i \<in> set (adj ! q)" for i q
    using input that by (auto simp: matching_input_def)
  have big: "n < USIZE_MAX" using input by (simp add: matching_input_def)
  show ?case using less.prems
  proof (induction rest arbitrary: st)
    case Nil
    have st': "st' = st\<lparr>distances := (distances st)[s := USIZE_MAX]\<rparr>"
      using Nil.prems(10) by (subst (asm) augment_from.simps) simp
    have L: "length (distances st) = n" using Nil.prems(1) by (simp add: matching_ok_def sized_def)
    have mono: "exhausted pending level st' q I" if "exhausted pending level st q I" for q I
      by (rule exhausted_mono [OF that]) (use L Nil.prems(3) in \<open>simp_all add: st' nth_list_update\<close>)
    show ?case unfolding erased_ok_def
    proof (intro allI impI)
      fix q assume q: "q < n"
      have "distances st ! q = level q \<or> distances st ! q = USIZE_MAX \<and> exhausted pending level st q (set (adj ! q))"
        using Nil.prems(7) q by (auto simp: erased_ok_def)
      then show "distances st' ! q = level q \<or> distances st' ! q = USIZE_MAX \<and> exhausted pending level st' q (set (adj ! q))"
        using mono Nil.prems(9) L q by (cases "q = s") (auto simp: st')
    qed
  next
    case (Cons i rest)
    let ?d = "destination_tile pending i"
    have d: "?d < n" "i \<in> set (adj ! s)" using dest [OF Cons.prems(3)] Cons.prems(6) by auto
    have claims: "claims_recorded pending None n st" using Cons.prems(1) by (simp add: matching_ok_def)
    have sub: "set rest \<subseteq> set (adj ! s)" using Cons.prems(6) by simp
    obtain p where p: "destination_sources st ! ?d = Some p"
      using Cons.prems(10) by (subst (asm) augment_from.simps) (auto simp: Let_def split: option.splits)
    have pn: "p < n" using claims d(1) p by (auto simp: claims_recorded_def)
    have pl: "p < length (distances st)" using pn Cons.prems(1) by (simp add: matching_ok_def sized_def)
    have grow: "exhausted pending level st1 s (set (adj ! s) - set rest)"
      if "exhausted pending level st1 s (set (adj ! s) - set (i # rest))" "destination_sources st1 = destination_sources st"
        "p < length (distances st1)" "level p = level s + 1 \<longrightarrow> distances st1 ! p = USIZE_MAX" for st1
      using that p unfolding exhausted_def by (metis Diff_iff set_ConsD)
    show ?case
    proof (cases "distances st ! p = distances st ! s + 1")
      case False
      have eq: "augment_from pending adj s rest st = Some (False, st')"
        using False p Cons.prems(10) by (subst (asm) augment_from.simps) simp
      have "level p = level s + 1 \<longrightarrow> distances st ! p = USIZE_MAX"
        using False Cons.prems(4,7,8) pn by (auto simp: erased_ok_def)
      then show ?thesis using Cons.IH [OF Cons.prems(1-5) sub Cons.prems(7,8) grow [OF Cons.prems(9) refl pl] eq] by blast
    next
      case True
      have kp: "distances st ! p = Suc k" using True Cons.prems(4) by simp
      then have kn: "Suc k < n" using Cons.prems(2,5) pn big unfolding levels_ok_def by (metis Suc_lessI less_irrefl)
      then have lp: "level p = Suc k" using Cons.prems(7) pn kp big by (auto simp: erased_ok_def)
      obtain found st1 where rec: "augment_from pending adj p (adj ! p) st = Some (found, st1)"
        and post: "search_post pending adj n p st found st1"
        using augment_from_post [OF input Cons.prems(1,2) pn kp kn order.refl] by blast
      have "augment_from pending adj s (i # rest) st
          = (if found then Some (True, claim s i ?d st1) else augment_from pending adj s rest st1)"
        by (subst augment_from.simps) (simp add: True p rec)
      then have nf: "\<not> found" and eq: "augment_from pending adj s rest st1 = Some (False, st')"
        using Cons.prems(10) by (simp_all split: if_splits)
      have same: "source_edges st1 = source_edges st" "destination_sources st1 = destination_sources st"
        and kept: "levels_kept n p st st1" "sized n st1" and gone: "distances st1 ! p = USIZE_MAX"
        using post nf by (simp_all add: search_post_def)
      have less: "n - Suc k < n - k" using Cons.prems(5) by simp
      have recF: "augment_from pending adj p (adj ! p) st = Some (False, st1)" using rec nf by simp
      have er: "erased_ok pending adj n level st1"
        by (rule outer [OF less Cons.prems(1,2) pn kp kn order.refl Cons.prems(7) lp _ recF]) (simp add: exhausted_def)
      have deep: "distances st ! s < distances st ! p" using True by simp
      have ds: "distances st1 ! s = k" using levels_kept_deeper(2) [OF kept(1) deep Cons.prems(3)] Cons.prems(4) by simp
      have m1: "matching_ok pending adj n st1"
        using Cons.prems(1) kept(2) same by (simp add: matching_ok_def edges_recorded_def claims_recorded_def)
      have pl1: "p < length (distances st1)" using pn kept(2) by (simp add: sized_def)
      have "exhausted pending level st1 s (set (adj ! s) - set (i # rest))"
        by (rule exhausted_mono [OF Cons.prems(9) same(2)])
          (use kept Cons.prems(1) in \<open>auto simp: levels_kept_def matching_ok_def sized_def\<close>)
      then show ?thesis
        using Cons.IH [OF m1 levels_kept_ok [OF kept(1) Cons.prems(2)] Cons.prems(3) ds Cons.prems(5) sub er Cons.prems(8) grow [OF _ same(2) pl1] eq]
          gone by blast
    qed
  qed
qed

subsection \<open>One phase\<close>

definition matched :: "nat \<Rightarrow> matching_state \<Rightarrow> nat set" where
  "matched n st = {s. s < n \<and> source_edges st ! s \<noteq> None}"

lemma augment_ready_matching_post:
  assumes input: "matching_input pending adj so n"
    and "matching_ok pending adj n st" and "levels_ok n st" and "s < n" and "distances st ! s = 0" and "source_edges st ! s = None"
  shows "\<exists>found st'. augment_ready_matching pending adj s st = Some (found, st') \<and> matching_ok pending adj n st' \<and> levels_ok n st'
    \<and> levels_kept n s st st' \<and> matched n st' = (if found then insert s (matched n st) else matched n st)
    \<and> (\<not> found \<longrightarrow> source_edges st' = source_edges st \<and> destination_sources st' = destination_sources st
          \<and> distances st' ! s = USIZE_MAX
          \<and> (\<forall>level. erased_ok pending adj n level st \<and> level s = 0 \<longrightarrow> erased_ok pending adj n level st'))"
proof -
  have n: "0 < n" using assms(4) by simp
  obtain found st' where r: "augment_from pending adj s (adj ! s) st = Some (found, st')" "search_post pending adj n s st found st'"
    using augment_from_post [OF input assms(2-5) n order.refl] by blast
  have lk: "levels_kept n s st st'" "sized n st'" using r(2) by (simp_all add: search_post_def)
  have old: "old_destination pending s st = None" using assms(6) by (simp add: old_destination_def)
  have ok: "matching_ok pending adj n st' \<and> matched n st' = (if found then insert s (matched n st) else matched n st)"
  proof (cases found)
    case True
    then have "rematched pending adj n s st st'" using r(2) by (simp add: search_post_def)
    then show ?thesis using True lk(2) old assms(4) by (auto simp: rematched_def matching_ok_def matched_def)
  next
    case False
    then have "source_edges st' = source_edges st" "destination_sources st' = destination_sources st"
      using r(2) by (simp_all add: search_post_def)
    then show ?thesis using False lk(2) assms(2)
      by (simp add: matching_ok_def edges_recorded_def claims_recorded_def matched_def)
  qed
  have er: "erased_ok pending adj n level st'" if "\<not> found" "erased_ok pending adj n level st" "level s = 0" for level
    using augment_from_fails [OF input assms(2-5) n order.refl that(2,3)] r(1) that(1) by (simp add: exhausted_def)
  show ?thesis unfolding augment_ready_matching_def
    using r lk levels_kept_ok [OF lk(1) assms(3)] ok er by (intro exI conjI) (auto simp: search_post_def)
qed

lemma augment_all_post:
  assumes input: "matching_input pending adj so n"
  shows "matching_ok pending adj n st \<Longrightarrow> levels_ok n st \<Longrightarrow> distinct ss \<Longrightarrow> set ss \<subseteq> {..<n} \<Longrightarrow>
    \<forall>s\<in>set ss. source_edges st ! s = None \<longrightarrow> distances st ! s = 0 \<Longrightarrow>
    \<exists>found st'. augment_all pending adj ss (before, st) = Some (before \<or> found, st') \<and> matching_ok pending adj n st' \<and> levels_ok n st'
    \<and> (\<forall>q<n. distances st ! q = USIZE_MAX \<longrightarrow> distances st' ! q = USIZE_MAX)
    \<and> matched n st \<subseteq> matched n st' \<and> (found \<longrightarrow> matched n st \<noteq> matched n st')
    \<and> (\<not> found \<longrightarrow> source_edges st' = source_edges st \<and> destination_sources st' = destination_sources st
          \<and> (\<forall>s\<in>set ss. source_edges st ! s = None \<longrightarrow> distances st' ! s = USIZE_MAX)
          \<and> (\<forall>level. erased_ok pending adj n level st \<and> (\<forall>s\<in>set ss. source_edges st ! s = None \<longrightarrow> level s = 0)
               \<longrightarrow> erased_ok pending adj n level st'))"
proof (induction ss arbitrary: before st)
  case Nil
  then show ?case by auto
next
  case (Cons s ss)
  show ?case
  proof (cases "source_edges st ! s = None")
    case False
    then have eq: "augment_all pending adj (s # ss) (before, st) = augment_all pending adj ss (before, st)" by auto
    have skip: "(\<forall>t\<in>set (s # ss). source_edges st ! t = None \<longrightarrow> Q t) \<longleftrightarrow> (\<forall>t\<in>set ss. source_edges st ! t = None \<longrightarrow> Q t)" for Q
      using False by auto
    show ?thesis unfolding eq skip
      by (rule Cons.IH [OF Cons.prems(1,2)]) (use Cons.prems(3-5) in \<open>simp_all add: skip\<close>)
  next
    case True
    have s: "s < n" "distances st ! s = 0" using Cons.prems(4,5) True by auto
    obtain found st1 where r: "augment_ready_matching pending adj s st = Some (found, st1)"
      and ok: "matching_ok pending adj n st1" "levels_ok n st1" and kept: "levels_kept n s st st1"
      and m: "matched n st1 = (if found then insert s (matched n st) else matched n st)"
      and fail: "\<not> found \<longrightarrow> source_edges st1 = source_edges st \<and> destination_sources st1 = destination_sources st
          \<and> distances st1 ! s = USIZE_MAX
          \<and> (\<forall>level. erased_ok pending adj n level st \<and> level s = 0 \<longrightarrow> erased_ok pending adj n level st1)"
      using augment_ready_matching_post [OF input Cons.prems(1,2) s True] by blast
    have "s \<notin> matched n st" using True by (simp add: matched_def)
    then have grow: "matched n st \<subseteq> matched n st1" "found \<longrightarrow> matched n st \<noteq> matched n st1" using m by auto
    have free: "source_edges st1 ! t = None \<longrightarrow> distances st1 ! t = 0" if "t \<in> set ss" for t
    proof
      assume f: "source_edges st1 ! t = None"
      have t: "t < n" "t \<noteq> s" using that Cons.prems(3,4) by auto
      then have "t \<notin> matched n st1" using f by (simp add: matched_def)
      then have "source_edges st ! t = None" using grow(1) t by (auto simp: matched_def)
      then have "distances st ! t = 0" using Cons.prems(5) that by simp
      then show "distances st1 ! t = 0" using kept t s(2) by (auto simp: levels_kept_def)
    qed
    have mono: "distances st ! q = USIZE_MAX \<longrightarrow> distances st1 ! q = USIZE_MAX" if "q < n" for q
      using kept that by (auto simp: levels_kept_def)
    have eq: "augment_all pending adj (s # ss) (before, st) = augment_all pending adj ss (before \<or> found, st1)"
      using True r by simp
    obtain found' st' where IH: "augment_all pending adj ss (before \<or> found, st1) = Some ((before \<or> found) \<or> found', st')"
      "matching_ok pending adj n st'" "levels_ok n st'"
      "\<forall>q<n. distances st1 ! q = USIZE_MAX \<longrightarrow> distances st' ! q = USIZE_MAX"
      "matched n st1 \<subseteq> matched n st'" "found' \<longrightarrow> matched n st1 \<noteq> matched n st'"
      "\<not> found' \<longrightarrow> source_edges st' = source_edges st1 \<and> destination_sources st' = destination_sources st1
          \<and> (\<forall>s\<in>set ss. source_edges st1 ! s = None \<longrightarrow> distances st' ! s = USIZE_MAX)
          \<and> (\<forall>level. erased_ok pending adj n level st1 \<and> (\<forall>s\<in>set ss. source_edges st1 ! s = None \<longrightarrow> level s = 0)
               \<longrightarrow> erased_ok pending adj n level st')"
      using Cons.IH [OF ok, of "before \<or> found"] Cons.prems(3,4) free by (auto simp del: augment_all.simps)
    show ?thesis unfolding eq
    proof (intro exI conjI)
      show "augment_all pending adj ss (before \<or> found, st1) = Some (before \<or> (found \<or> found'), st')"
        using IH(1) by (simp add: disj_assoc)
      show "\<forall>q<n. distances st ! q = USIZE_MAX \<longrightarrow> distances st' ! q = USIZE_MAX" using IH(4) mono by blast
      show "matched n st \<subseteq> matched n st'" using grow(1) IH(5) by blast
      show "found \<or> found' \<longrightarrow> matched n st \<noteq> matched n st'" using grow IH(5,6) by blast
      show "\<not> (found \<or> found') \<longrightarrow> source_edges st' = source_edges st \<and> destination_sources st' = destination_sources st
          \<and> (\<forall>s\<in>set (s # ss). source_edges st ! s = None \<longrightarrow> distances st' ! s = USIZE_MAX)
          \<and> (\<forall>level. erased_ok pending adj n level st \<and> (\<forall>s\<in>set (s # ss). source_edges st ! s = None \<longrightarrow> level s = 0)
               \<longrightarrow> erased_ok pending adj n level st')"
        using fail IH(4,7) True s(1) by auto
    qed (use IH(2,3) in auto)
  qed
qed

subsection \<open>The level search\<close>

definition reached :: "nat \<Rightarrow> nat list \<Rightarrow> nat set" where
  "reached n dist = {q. q < n \<and> dist ! q \<noteq> USIZE_MAX}"

text \<open>An edge whose destination is free, or claimed by a source that has a level.\<close>

definition explored :: "pending_transfer list \<Rightarrow> matching_state \<Rightarrow> nat \<Rightarrow> nat list \<times> bool \<Rightarrow> nat \<Rightarrow> bool" where
  "explored pending st n = (\<lambda>(dist, reaches) i.
     case destination_sources st ! destination_tile pending i of
       None \<Rightarrow> reaches | Some q \<Rightarrow> q \<in> reached n dist)"

definition level_of :: "pending_transfer list \<Rightarrow> nat list list \<Rightarrow> matching_state \<Rightarrow> nat \<Rightarrow> nat list \<Rightarrow> nat \<Rightarrow> bool" where
  "level_of pending adj st n dist q \<longleftrightarrow>
     dist ! q = 0 \<and> source_edges st ! q = None
   \<or> (\<exists>p\<in>reached n dist. dist ! q = dist ! p + 1
        \<and> (\<exists>i\<in>set (adj ! p). destination_sources st ! destination_tile pending i = Some q))"

definition level_inv ::
  "pending_transfer list \<Rightarrow> nat list list \<Rightarrow> nat list \<Rightarrow> matching_state \<Rightarrow> nat \<Rightarrow> nat set \<Rightarrow> nat list \<times> nat list \<times> bool \<Rightarrow> bool" where
  "level_inv pending adj so st n busy = (\<lambda>(queue, dist, reaches).
     length dist = n \<and> set queue \<subseteq> reached n dist \<and> reached n dist \<subseteq> set so
   \<and> (\<forall>q\<in>reached n dist. dist ! q < card (reached n dist) \<and> level_of pending adj st n dist q)
   \<and> (\<forall>q\<in>set so. source_edges st ! q = None \<longrightarrow> dist ! q = 0)
   \<and> (\<forall>p\<in>reached n dist - set queue - busy. \<forall>i\<in>set (adj ! p). explored pending st n (dist, reaches) i)
   \<and> (reaches \<longrightarrow> (\<exists>p\<in>reached n dist. \<exists>i\<in>set (adj ! p). destination_sources st ! destination_tile pending i = None)))"

lemma start_levels_post:
  assumes "set ss \<subseteq> {..<length dist}"
  shows "\<exists>dist'. foldl (\<lambda>(queue, dist) s.
         if source_edges st ! s = None then (queue @ [s], dist[s := 0]) else (queue, dist[s := USIZE_MAX]))
       (queue, dist) ss = (queue @ filter (\<lambda>s. source_edges st ! s = None) ss, dist')
     \<and> length dist' = length dist
     \<and> (\<forall>q<length dist. dist' ! q = (if q \<in> set ss then (if source_edges st ! q = None then 0 else USIZE_MAX) else dist ! q))"
  using assms
proof (induction ss arbitrary: queue dist)
  case (Cons s ss)
  let ?f = "\<lambda>(queue, dist) s. if source_edges st ! s = None then (queue @ [s], dist[s := 0]) else (queue, dist[s := USIZE_MAX])"
  define v where "v q = (if source_edges st ! q = None then 0 else USIZE_MAX)" for q
  have f: "?f (queue, dist) s = (queue @ filter (\<lambda>s. source_edges st ! s = None) [s], dist[s := v s])" by (simp add: v_def)
  have s: "s < length dist" "set ss \<subseteq> {..<length (dist[s := v s])}" using Cons.prems by simp_all
  obtain dist' where d: "foldl ?f (queue @ filter (\<lambda>s. source_edges st ! s = None) [s], dist[s := v s]) ss
      = ((queue @ filter (\<lambda>s. source_edges st ! s = None) [s]) @ filter (\<lambda>s. source_edges st ! s = None) ss, dist')"
    "length dist' = length (dist[s := v s])"
    "\<forall>q<length (dist[s := v s]). dist' ! q = (if q \<in> set ss then v q else dist[s := v s] ! q)"
    using Cons.IH [OF s(2), of "queue @ filter (\<lambda>s. source_edges st ! s = None) [s]"] unfolding v_def by blast
  have "\<forall>q<length dist. dist' ! q = (if q \<in> set (s # ss) then v q else dist ! q)"
    using d(3) s(1) by (auto simp: nth_list_update)
  moreover have "(queue @ filter (\<lambda>s. source_edges st ! s = None) [s]) @ filter (\<lambda>s. source_edges st ! s = None) ss
      = queue @ filter (\<lambda>s. source_edges st ! s = None) (s # ss)" by simp
  ultimately show ?case
    using d(1,2) unfolding foldl_Cons f v_def by (intro exI [of _ dist'] conjI) (simp_all only: length_list_update simp_thms)
qed simp

lemma card_reached_update:
  assumes "q < n" and "dist ! q = USIZE_MAX" and "v \<noteq> USIZE_MAX" and "length dist = n"
  shows "reached n (dist[q := v]) = insert q (reached n dist)"
    and "card (reached n (dist[q := v])) = Suc (card (reached n dist))"
proof -
  show eq: "reached n (dist[q := v]) = insert q (reached n dist)"
    using assms by (auto simp: reached_def nth_list_update)
  have "q \<notin> reached n dist" "finite (reached n dist)" using assms by (simp_all add: reached_def)
  then show "card (reached n (dist[q := v])) = Suc (card (reached n dist))" unfolding eq by simp
qed

lemma level_edge_inv:
  assumes input: "matching_input pending adj so n" and ok: "matching_ok pending adj n st"
    and inv: "level_inv pending adj so st n busy (queue, dist, reaches)"
    and s: "s \<in> reached n dist" and i: "i \<in> set (adj ! s)"
    and step: "level_edge pending st s (queue, dist, reaches) i = (queue', dist', reaches')"
  shows "level_inv pending adj so st n busy (queue', dist', reaches')"
    and "explored pending st n (dist', reaches') i"
    and "explored pending st n (dist, reaches) j \<Longrightarrow> explored pending st n (dist', reaches') j"
    and "reached n dist \<subseteq> reached n dist'"
    and "2 * card {q. q < n \<and> dist' ! q = USIZE_MAX} + length queue' \<le> 2 * card {q. q < n \<and> dist ! q = USIZE_MAX} + length queue"
proof -
  let ?d = "destination_tile pending i" and ?R = "reached n dist"
  have sn: "s < n" "dist ! s < card ?R" using s inv by (auto simp: reached_def level_inv_def)
  have d: "?d < n" using input sn(1) i by (auto simp: matching_input_def)
  have L: "length dist = n" using inv by (simp add: level_inv_def)
  have cardR: "card ?R \<le> n"
    using card_mono [of "{..<n}" ?R] by (auto simp: reached_def)
  have big: "n < USIZE_MAX" using input by (simp add: matching_input_def)
  consider (free) "destination_sources st ! ?d = None" "queue' = queue" "dist' = dist" "reaches'"
    | (old) q where "destination_sources st ! ?d = Some q" "dist ! q \<noteq> USIZE_MAX" "queue' = queue" "dist' = dist" "reaches' = reaches"
    | (new) q where "destination_sources st ! ?d = Some q" "dist ! q = USIZE_MAX" "queue' = queue @ [q]"
        "dist' = dist[q := dist ! s + 1]" "reaches' = reaches"
    using step by (auto simp: level_edge_def split: option.splits if_splits)
  then have "level_inv pending adj so st n busy (queue', dist', reaches')
    \<and> explored pending st n (dist', reaches') i
    \<and> (explored pending st n (dist, reaches) j \<longrightarrow> explored pending st n (dist', reaches') j)
    \<and> reached n dist \<subseteq> reached n dist'
    \<and> 2 * card {q. q < n \<and> dist' ! q = USIZE_MAX} + length queue' \<le> 2 * card {q. q < n \<and> dist ! q = USIZE_MAX} + length queue"
  proof cases
    case free
    have "explored pending st n (dist, reaches) j' \<longrightarrow> explored pending st n (dist, True) j'" for j'
      by (auto simp: explored_def split: option.splits)
    then show ?thesis using inv free s i unfolding level_inv_def by (auto simp: explored_def)
  next
    case old
    then have "q < n" using ok d by (auto simp: matching_ok_def claims_recorded_def)
    then show ?thesis using inv old by (auto simp: explored_def reached_def)
  next
    case new
    obtain k where q: "q < n" "source_edges st ! q = Some k" using ok d new(1) by (auto simp: matching_ok_def claims_recorded_def)
    have qso: "q \<in> set so"
    proof -
      have "k \<in> set (adj ! q)" using ok q by (auto simp: matching_ok_def edges_recorded_def)
      then have "adj ! q \<noteq> []" by auto
      then show ?thesis using input q(1) by (simp add: matching_input_def)
    qed
    have v: "dist ! s + 1 \<noteq> USIZE_MAX" using sn cardR big by simp
    note R = card_reached_update [OF q(1) new(2) v L, folded new(4)]
    have same: "dist' ! p = dist ! p" if "p \<in> ?R" for p using that new(2,4) by (cases "p = q") (simp_all add: reached_def)
    have dq: "dist' ! q = dist ! s + 1" using new(4) q(1) L by simp
    have lev: "level_of pending adj st n dist' p" if "p \<in> ?R" for p
    proof -
      have "level_of pending adj st n dist p" using inv that by (simp add: level_inv_def)
      then show ?thesis unfolding level_of_def same [OF that] R(1) using same by (metis insertI2)
    qed
    have levq: "level_of pending adj st n dist' q"
      unfolding level_of_def dq using same [OF s] s i new(1) R(1) by (metis insertI2)
    have exp: "explored pending st n (dist, reaches) j' \<longrightarrow> explored pending st n (dist', reaches) j'" for j'
      by (auto simp: explored_def R(1) split: option.splits)
    have "level_inv pending adj so st n busy (queue', dist', reaches')"
      unfolding level_inv_def prod.case
    proof (intro conjI ballI impI)
      show "length dist' = n" using new(4) L by simp
      show "set queue' \<subseteq> reached n dist'" using inv new(3) unfolding R(1) by (auto simp: level_inv_def)
      show "reached n dist' \<subseteq> set so" using inv qso unfolding R(1) by (auto simp: level_inv_def)
      fix p assume p: "p \<in> reached n dist'"
      show "dist' ! p < card (reached n dist')"
      proof (cases "p = q")
        case True then show ?thesis using dq sn(2) R(2) by simp
      next
        case False
        then have "p \<in> ?R" using p R(1) by simp
        then show ?thesis using same inv R(2) by (simp add: level_inv_def less_SucI)
      qed
      show "level_of pending adj st n dist' p" using p lev levq R(1) by auto
    next
      fix p assume "p \<in> set so" "source_edges st ! p = None"
      then have "dist ! p = 0" "p \<noteq> q" using inv q(2) by (auto simp: level_inv_def)
      then show "dist' ! p = 0" using new(4) by simp
    next
      fix p j assume "p \<in> reached n dist' - set queue' - busy" "j \<in> set (adj ! p)"
      then have "p \<in> ?R - set queue - busy" using new(3) R(1) by auto
      then show "explored pending st n (dist', reaches') j" using inv exp \<open>j \<in> set (adj ! p)\<close> new(5) by (auto simp: level_inv_def)
    next
      assume "reaches'"
      then show "\<exists>p\<in>reached n dist'. \<exists>i\<in>set (adj ! p). destination_sources st ! destination_tile pending i = None"
        using inv new(5) R(1) by (auto simp: level_inv_def)
    qed
    moreover have "2 * card {q. q < n \<and> dist' ! q = USIZE_MAX} + length queue' \<le> 2 * card {q. q < n \<and> dist ! q = USIZE_MAX} + length queue"
    proof -
      have "{p. p < n \<and> dist ! p = USIZE_MAX} = insert q {p. p < n \<and> dist' ! p = USIZE_MAX}"
        using q(1) new(2,4) L v by (auto simp: nth_list_update)
      moreover have "q \<notin> {p. p < n \<and> dist' ! p = USIZE_MAX}" using dq v by simp
      ultimately have "card {p. p < n \<and> dist ! p = USIZE_MAX} = Suc (card {p. p < n \<and> dist' ! p = USIZE_MAX})"
        by (simp add: card_insert_disjoint)
      then show ?thesis using new(3) by simp
    qed
    ultimately show ?thesis using exp new(1,5) R(1) by (auto simp: explored_def)
  qed
  then show "level_inv pending adj so st n busy (queue', dist', reaches')" "explored pending st n (dist', reaches') i"
    "explored pending st n (dist, reaches) j \<Longrightarrow> explored pending st n (dist', reaches') j" "reached n dist \<subseteq> reached n dist'"
    "2 * card {q. q < n \<and> dist' ! q = USIZE_MAX} + length queue' \<le> 2 * card {q. q < n \<and> dist ! q = USIZE_MAX} + length queue"
    by blast+
qed

abbreviation level_measure :: "nat \<Rightarrow> nat list \<times> nat list \<times> bool \<Rightarrow> nat" where
  "level_measure n x \<equiv> 2 * card {q. q < n \<and> fst (snd x) ! q = USIZE_MAX} + length (fst x)"

lemma level_edges_inv:
  assumes input: "matching_input pending adj so n" and ok: "matching_ok pending adj n st"
  shows "level_inv pending adj so st n busy x \<Longrightarrow> s \<in> reached n (fst (snd x)) \<Longrightarrow> set is \<subseteq> set (adj ! s) \<Longrightarrow>
    \<forall>j\<in>don. explored pending st n (snd x) j \<Longrightarrow>
    level_inv pending adj so st n busy (foldl (level_edge pending st s) x is)
    \<and> (\<forall>j\<in>don \<union> set is. explored pending st n (snd (foldl (level_edge pending st s) x is)) j)
    \<and> level_measure n (foldl (level_edge pending st s) x is) \<le> level_measure n x"
proof (induction "is" arbitrary: x don)
  case (Cons i "is")
  obtain queue dist reaches where x: "x = (queue, dist, reaches)" by (cases x)
  obtain queue' dist' reaches' where y: "level_edge pending st s (queue, dist, reaches) i = (queue', dist', reaches')"
    by (cases "level_edge pending st s (queue, dist, reaches) i")
  have i: "i \<in> set (adj ! s)" "set is \<subseteq> set (adj ! s)" using Cons.prems(3) by simp_all
  have s: "s \<in> reached n dist" using Cons.prems(2) x by simp
  note e = level_edge_inv [OF input ok Cons.prems(1) [unfolded x] s i(1) y]
  have "level_inv pending adj so st n busy (foldl (level_edge pending st s) (queue', dist', reaches') is)
    \<and> (\<forall>j\<in>insert i don \<union> set is. explored pending st n (snd (foldl (level_edge pending st s) (queue', dist', reaches') is)) j)
    \<and> level_measure n (foldl (level_edge pending st s) (queue', dist', reaches') is) \<le> level_measure n (queue', dist', reaches')"
    by (rule Cons.IH) (use e s i(2) Cons.prems(4) x in auto)
  then show ?case using e(5) by (auto simp: x y)
qed simp

lemma level_step_inv:
  assumes input: "matching_input pending adj so n" and ok: "matching_ok pending adj n st"
    and inv: "level_inv pending adj so st n {} x" and "fst x \<noteq> []"
  shows "level_inv pending adj so st n {} (level_step pending adj st x)"
    and "level_measure n (level_step pending adj st x) < level_measure n x"
proof -
  obtain s queue dist reaches where x: "x = (s # queue, dist, reaches)"
    using assms(4) by (metis list.exhaust prod.collapse)
  let ?y = "foldl (level_edge pending st s) (queue, dist, reaches) (adj ! s)"
  have step: "level_step pending adj st x = ?y" by (simp add: level_step_def x)
  have s: "s \<in> reached n (fst (snd (queue, dist, reaches)))" using inv x by (simp add: level_inv_def)
  have "level_inv pending adj so st n {s} (queue, dist, reaches)" using inv by (simp add: level_inv_def x) blast
  from level_edges_inv [OF input ok this s order.refl, of "{}"]
  have y: "level_inv pending adj so st n {s} ?y" "\<forall>j\<in>set (adj ! s). explored pending st n (snd ?y) j"
    "level_measure n ?y \<le> level_measure n (queue, dist, reaches)" by simp_all
  obtain queue' dist' reaches' where y': "?y = (queue', dist', reaches')" by (cases ?y)
  show "level_inv pending adj so st n {} (level_step pending adj st x)"
    using y(1,2) unfolding step y' level_inv_def by auto
  show "level_measure n (level_step pending adj st x) < level_measure n x"
    using y(3) unfolding step by (simp add: x)
qed

lemma level_search_post:
  assumes input: "matching_input pending adj so n" and ok: "matching_ok pending adj n st"
    and out: "\<forall>q<n. q \<notin> set so \<longrightarrow> distances st ! q = USIZE_MAX"
  shows "\<exists>dist reaches. level_search pending adj so st = Some ([], dist, reaches)
    \<and> level_inv pending adj so st n {} ([], dist, reaches)"
proof -
  let ?free = "filter (\<lambda>s. source_edges st ! s = None) so"
  have L: "length (distances st) = n" using ok by (simp add: matching_ok_def sized_def)
  have so: "set so \<subseteq> {..<length (distances st)}" using input L by (auto simp: matching_input_def)
  obtain dist0 where d0: "start_levels st so = (?free, dist0)" "length dist0 = n"
    "\<forall>q<n. dist0 ! q = (if q \<in> set so then (if source_edges st ! q = None then 0 else USIZE_MAX) else distances st ! q)"
    using start_levels_post [OF so, of st "[]"] L unfolding start_levels_def by auto
  have M: "(0 :: nat) \<noteq> USIZE_MAX" by (simp add: USIZE_MAX_def)
  have "dist0 ! q \<noteq> USIZE_MAX \<longleftrightarrow> q \<in> set so \<and> source_edges st ! q = None" if "q < n" for q
    using d0(3) out that M by (cases "q \<in> set so"; cases "source_edges st ! q = None") simp_all
  then have R: "reached n dist0 = set ?free" using so L by (auto simp: reached_def)
  have z: "dist0 ! q = 0" if "q \<in> set ?free" for q using d0(3) that so L by auto
  have inv0: "level_inv pending adj so st n {} (?free, dist0, False)"
    unfolding level_inv_def prod.case R
  proof (intro conjI ballI impI)
    fix q assume q: "q \<in> set ?free"
    then show "dist0 ! q < card (set ?free)" using z [OF q] by (metis List.finite_set card_gt_0_iff empty_iff)
    show "level_of pending adj st n dist0 q" using z [OF q] q by (simp add: level_of_def)
  qed (use d0(2) z in auto)
  let ?b = "\<lambda>(queue, _). queue \<noteq> []"
  let ?step = "level_step pending adj st"
  obtain x where x: "while_option ?b ?step (?free, dist0, False) = Some x"
    using measure_while_option_Some [of "level_inv pending adj so st n {}" ?b ?step "level_measure n" "(?free, dist0, False)"]
      level_step_inv [OF input ok] inv0 by auto
  have "level_inv pending adj so st n {} x"
    by (rule while_option_rule [where P = "level_inv pending adj so st n {}", OF _ x inv0]) (use level_step_inv(1) [OF input ok] in auto)
  moreover have "\<not> ?b x" by (rule while_option_stop [OF x])
  ultimately show ?thesis using x d0(1) by (cases x) (auto simp: level_search_def)
qed

subsection \<open>Maximality\<close>

definition endpoint_disjoint :: "pending_transfer list \<Rightarrow> nat set \<Rightarrow> bool" where
  "endpoint_disjoint pending M \<longleftrightarrow> inj_on (\<lambda>i. source (pending ! i)) M \<and> inj_on (destination_tile pending) M"

definition exposed :: "nat list list \<Rightarrow> nat set" where
  "exposed adj = (\<Union>edges\<in>set adj. set edges)"

lemma exposed_source:
  assumes "matching_input pending adj so n" and "i \<in> exposed adj"
  shows "source (pending ! i) < n" "i \<in> set (adj ! source (pending ! i))" "source (pending ! i) \<in> set so"
    "destination_tile pending i < n"
proof -
  obtain edges where "edges \<in> set adj" "i \<in> set edges" using assms(2) by (auto simp: exposed_def)
  then obtain s where s: "s < n" "i \<in> set (adj ! s)"
    using assms(1) by (metis in_set_conv_nth matching_input_def)
  then have "source (pending ! i) = s" using assms(1) by (simp add: matching_input_def)
  moreover have "adj ! s \<noteq> []" using s(2) by auto
  ultimately show "source (pending ! i) < n" "i \<in> set (adj ! source (pending ! i))" "source (pending ! i) \<in> set so"
    "destination_tile pending i < n" using s assms(1) by (auto simp: matching_input_def)
qed

text \<open>
  Koenig's argument: the sources outside \<open>R\<close> and the destinations of the sources in \<open>R\<close> cover
  every edge, and each of them has an edge of the matching of its own.
\<close>

lemma cover_bound:
  assumes input: "matching_input pending adj so n" and ok: "matching_ok pending adj n st"
    and free: "\<And>q. q \<in> set so \<Longrightarrow> source_edges st ! q = None \<Longrightarrow> q \<in> R"
    and closed: "\<And>p i. p \<in> R \<Longrightarrow> i \<in> set (adj ! p) \<Longrightarrow> \<exists>q\<in>R. destination_sources st ! destination_tile pending i = Some q"
    and M: "M \<subseteq> exposed adj" "endpoint_disjoint pending M" and "finite M"
  shows "card M \<le> card (matched n st)"
proof -
  let ?src = "\<lambda>i. source (pending ! i)" and ?own = "\<lambda>i. the (destination_sources st ! destination_tile pending i)"
  have fin: "finite (matched n st)" by (simp add: matched_def)
  note ex = exposed_source [OF input subsetD [OF M(1)]]
  have "card {i \<in> M. ?src i \<notin> R} \<le> card (matched n st - R)"
  proof (rule card_inj_on_le [where f = ?src])
    show "inj_on ?src {i \<in> M. ?src i \<notin> R}" using M(2) by (auto simp: endpoint_disjoint_def inj_on_def)
    show "?src ` {i \<in> M. ?src i \<notin> R} \<subseteq> matched n st - R" using ex free unfolding matched_def by blast
  qed (use fin in simp)
  moreover have "card {i \<in> M. ?src i \<in> R} \<le> card (matched n st \<inter> R)"
  proof (rule card_inj_on_le [where f = ?own])
    have own: "?own i \<in> R \<and> ?own i < n \<and> (\<exists>k. source_edges st ! ?own i = Some k \<and> destination_tile pending k = destination_tile pending i)"
      if i: "i \<in> M" "?src i \<in> R" for i
    proof -
      obtain q where q: "q \<in> R" "destination_sources st ! destination_tile pending i = Some q"
        using closed [OF i(2) ex(2) [OF i(1)]] by blast
      then show ?thesis using ok ex(4) [OF i(1)] by (auto simp: matching_ok_def claims_recorded_def)
    qed
    show "inj_on ?own {i \<in> M. ?src i \<in> R}"
    proof (rule inj_onI)
      fix i j assume a: "i \<in> {i \<in> M. ?src i \<in> R}" "j \<in> {i \<in> M. ?src i \<in> R}" "?own i = ?own j"
      then have "destination_tile pending i = destination_tile pending j" using own [of i] own [of j] by auto
      then show "i = j" using a(1,2) M(2) by (auto simp: endpoint_disjoint_def inj_on_def)
    qed
    show "?own ` {i \<in> M. ?src i \<in> R} \<subseteq> matched n st \<inter> R" using own by (auto simp: matched_def)
  qed (use fin in simp)
  moreover have "card M = card {i \<in> M. ?src i \<notin> R} + card {i \<in> M. ?src i \<in> R}"
    using assms(7) by (subst card_Un_disjoint [symmetric]) (auto intro!: arg_cong [where f = card])
  moreover have "card (matched n st) = card (matched n st - R) + card (matched n st \<inter> R)"
    using fin by (subst card_Un_disjoint [symmetric]) (auto intro!: arg_cong [where f = card])
  ultimately show ?thesis by linarith
qed

text \<open>A level search that reaches a free destination is followed by a successful path search.\<close>

lemma erased_reached:
  assumes inv: "level_inv pending adj so st n {} ([], dist, reaches)"
    and er: "erased_ok pending adj n (\<lambda>q. dist ! q) st'" and same: "destination_sources st' = destination_sources st"
    and free: "\<And>q. q \<in> set so \<Longrightarrow> source_edges st ! q = None \<Longrightarrow> distances st' ! q = USIZE_MAX"
  shows "q \<in> reached n dist \<Longrightarrow> dist ! q = k \<Longrightarrow> distances st' ! q = USIZE_MAX"
proof (induction k arbitrary: q rule: less_induct)
  case (less k)
  have "level_of pending adj st n dist q" "q \<in> set so" using inv less.prems(1) by (auto simp: level_inv_def)
  then consider "source_edges st ! q = None"
    | p i where "p \<in> reached n dist" "dist ! q = dist ! p + 1" "i \<in> set (adj ! p)"
        "destination_sources st ! destination_tile pending i = Some q"
    unfolding level_of_def by metis
  then show ?case
  proof cases
    case 1
    then show ?thesis using free \<open>q \<in> set so\<close> by blast
  next
    case 2
    have "distances st' ! p = USIZE_MAX" using less.IH [OF _ 2(1) refl] 2(2) less.prems(2) by simp
    then have "exhausted pending (\<lambda>q. dist ! q) st' p (set (adj ! p))"
      using er 2(1) by (auto simp: erased_ok_def reached_def)
    then show ?thesis using 2(2-4) same by (auto simp: exhausted_def)
  qed
qed

definition maximum_matching :: "pending_transfer list \<Rightarrow> nat list list \<Rightarrow> nat \<Rightarrow> matching_state \<Rightarrow> bool" where
  "maximum_matching pending adj n st \<longleftrightarrow>
     matching_ok pending adj n st
   \<and> (\<forall>M. M \<subseteq> exposed adj \<and> finite M \<and> endpoint_disjoint pending M \<longrightarrow> card M \<le> card (matched n st))"

lemma matching_loop_post:
  assumes input: "matching_input pending adj so n"
  shows "matching_ok pending adj n st \<Longrightarrow> \<forall>q<n. q \<notin> set so \<longrightarrow> distances st ! q = USIZE_MAX \<Longrightarrow>
    \<exists>st'. matching_loop pending adj so st = Some st' \<and> maximum_matching pending adj n st'"
proof (induction "n - card (matched n st)" arbitrary: st rule: less_induct)
  case less
  obtain dist reaches where search: "level_search pending adj so st = Some ([], dist, reaches)"
    and inv: "level_inv pending adj so st n {} ([], dist, reaches)"
    using level_search_post [OF input less.prems] by blast
  let ?st = "st\<lparr>distances := dist\<rparr>"
  have "length dist = n" using inv by (simp add: level_inv_def)
  then have ok: "matching_ok pending adj n ?st"
    using less.prems(1) by (simp add: matching_ok_def sized_def edges_recorded_def claims_recorded_def)
  have zero: "(0 :: nat) \<noteq> USIZE_MAX" by (simp add: USIZE_MAX_def)
  have so: "set so \<subseteq> {..<n}" using input by (auto simp: matching_input_def)
  have free: "dist ! q = 0" if "q \<in> set so" "source_edges st ! q = None" for q
    using inv that by (simp add: level_inv_def)
  show ?case
  proof (cases reaches)
    case False
    have "maximum_matching pending adj n ?st" unfolding maximum_matching_def
    proof (intro conjI allI impI ok)
      fix M assume M: "M \<subseteq> exposed adj \<and> finite M \<and> endpoint_disjoint pending M"
      show "card M \<le> card (matched n ?st)"
      proof (rule cover_bound [OF input ok, where R = "reached n dist"])
        fix q assume "q \<in> set so" "source_edges ?st ! q = None"
        then show "q \<in> reached n dist" using free [of q] so zero by (auto simp: reached_def)
      next
        fix p i assume "p \<in> reached n dist" "i \<in> set (adj ! p)"
        then have "explored pending st n (dist, reaches) i" using inv by (simp add: level_inv_def)
        then show "\<exists>q\<in>reached n dist. destination_sources ?st ! destination_tile pending i = Some q"
          using False by (auto simp: explored_def split: option.splits)
      qed (use M in auto)
    qed
    then show ?thesis using search False by (subst matching_loop.simps) simp
  next
    case True
    have card: "card (reached n dist) \<le> n"
      using card_mono [of "{..<n}" "reached n dist"] by (auto simp: reached_def)
    have lev: "levels_ok n ?st"
      unfolding levels_ok_def
    proof (intro allI impI)
      fix q assume "q < n"
      then show "distances ?st ! q = USIZE_MAX \<or> distances ?st ! q < n"
        using inv card by (cases "q \<in> reached n dist") (auto simp: level_inv_def reached_def)
    qed
    have dso: "distinct so" using input by (simp add: matching_input_def)
    obtain found st' where all: "augment_all pending adj so (False, ?st) = Some (found, st')"
      and ok': "matching_ok pending adj n st'"
      and mono: "\<forall>q<n. distances ?st ! q = USIZE_MAX \<longrightarrow> distances st' ! q = USIZE_MAX"
      and grow: "matched n ?st \<subseteq> matched n st'" "found \<longrightarrow> matched n ?st \<noteq> matched n st'"
      and fail: "\<not> found \<longrightarrow> source_edges st' = source_edges ?st \<and> destination_sources st' = destination_sources ?st
          \<and> (\<forall>s\<in>set so. source_edges ?st ! s = None \<longrightarrow> distances st' ! s = USIZE_MAX)
          \<and> (\<forall>level. erased_ok pending adj n level ?st \<and> (\<forall>s\<in>set so. source_edges ?st ! s = None \<longrightarrow> level s = 0)
               \<longrightarrow> erased_ok pending adj n level st')"
      using augment_all_post [OF input ok lev dso so, of False] free by auto
    have found
    proof (rule ccontr)
      assume nf: "\<not> found"
      have "erased_ok pending adj n (\<lambda>q. dist ! q) ?st" by (simp add: erased_ok_def)
      then have er: "erased_ok pending adj n (\<lambda>q. dist ! q) st'" using fail nf free by simp
      obtain p i where p: "p \<in> reached n dist" "i \<in> set (adj ! p)"
        "destination_sources st ! destination_tile pending i = None"
        using inv True by (auto simp: level_inv_def)
      have "distances st' ! p = USIZE_MAX"
        by (rule erased_reached [OF inv er _ _ p(1) refl]) (use fail nf in auto)
      then have "exhausted pending (\<lambda>q. dist ! q) st' p (set (adj ! p))"
        using er p(1) by (auto simp: erased_ok_def reached_def)
      then show False using p(2,3) fail nf by (auto simp: exhausted_def)
    qed
    have m: "matched n ?st = matched n st" by (simp add: matched_def)
    have fin: "finite (matched n st')" "card (matched n st') \<le> n"
      using card_mono [of "{..<n}" "matched n st'"] by (auto simp: matched_def)
    then have "card (matched n st) < card (matched n st')"
      using grow \<open>found\<close> m by (intro psubset_card_mono) auto
    then have "n - card (matched n st') < n - card (matched n st)" using fin by simp
    moreover have "\<forall>q<n. q \<notin> set so \<longrightarrow> distances st' ! q = USIZE_MAX"
      using mono inv by (auto simp: level_inv_def reached_def)
    ultimately obtain st'' where "matching_loop pending adj so st' = Some st''" "maximum_matching pending adj n st''"
      using less.hyps [OF _ ok'] by blast
    then show ?thesis using search True all \<open>found\<close> by (subst matching_loop.simps) simp
  qed
qed

lemma wave_of_matching:
  assumes input: "matching_input pending adj so n" and max: "maximum_matching pending adj n st"
  defines "wave \<equiv> List.map_filter id (source_edges st)"
  shows "distinct wave" "set wave \<subseteq> exposed adj" "endpoint_disjoint pending (set wave)" "length wave = card (matched n st)"
proof -
  have ok: "sized n st" "edges_recorded pending adj n st" using max by (simp_all add: maximum_matching_def matching_ok_def)
  have L: "length (source_edges st) = n" "length adj = n" using ok(1) input by (simp_all add: sized_def matching_input_def)
  have edge: "i \<in> set (adj ! s) \<and> source (pending ! i) = s \<and> destination_sources st ! destination_tile pending i = Some s"
    if "s < n" "source_edges st ! s = Some i" for s i
    using ok(2) input that by (simp add: edges_recorded_def matching_input_def)
  have wave: "wave = map (\<lambda>s. the (source_edges st ! s)) (filter (\<lambda>s. source_edges st ! s \<noteq> None) [0..<n])"
  proof -
    have "source_edges st = map ((!) (source_edges st)) [0..<n]" using L(1) map_nth [of "source_edges st"] by simp
    then have "wave = map (the \<circ> id) (filter (\<lambda>x. id x \<noteq> None) (map ((!) (source_edges st)) [0..<n]))"
      unfolding wave_def List.map_filter_def by simp
    then show ?thesis by (simp add: filter_map comp_def)
  qed
  have mem: "i \<in> set wave \<longleftrightarrow> (\<exists>s<n. source_edges st ! s = Some i)" for i
    unfolding wave by force
  have m: "set (filter (\<lambda>s. source_edges st ! s \<noteq> None) [0..<n]) = matched n st" by (auto simp: matched_def)
  show "distinct wave" unfolding wave distinct_map
  proof (intro conjI inj_onI)
    fix s t assume a: "s \<in> set (filter (\<lambda>s. source_edges st ! s \<noteq> None) [0..<n])" "t \<in> set (filter (\<lambda>s. source_edges st ! s \<noteq> None) [0..<n])"
      "the (source_edges st ! s) = the (source_edges st ! t)"
    obtain i j where "source_edges st ! s = Some i" "source_edges st ! t = Some j" "s < n" "t < n" using a(1,2) by auto
    then show "s = t" using edge [of s i] edge [of t j] a(3) by auto
  qed simp
  show "set wave \<subseteq> exposed adj" using mem edge L(2) by (fastforce simp: exposed_def)
  show "endpoint_disjoint pending (set wave)"
  proof -
    have "i = j" if ij: "i \<in> set wave" "j \<in> set wave"
      and eq: "source (pending ! i) = source (pending ! j) \<or> destination_tile pending i = destination_tile pending j" for i j
    proof -
      obtain s t where st: "s < n" "source_edges st ! s = Some i" "t < n" "source_edges st ! t = Some j"
        using ij unfolding mem by blast
      have "source (pending ! i) = s" "source (pending ! j) = t" "destination_sources st ! destination_tile pending i = Some s"
        "destination_sources st ! destination_tile pending j = Some t"
        using edge [OF st(1,2)] edge [OF st(3,4)] by blast+
      then have "s = t" using eq by (metis option.inject)
      then show ?thesis using st by simp
    qed
    then show ?thesis unfolding endpoint_disjoint_def inj_on_def by blast
  qed
  have "length wave = length (filter (\<lambda>s. source_edges st ! s \<noteq> None) [0..<n])" unfolding wave by simp
  also have "\<dots> = card (matched n st)" unfolding m [symmetric] by (rule distinct_card [symmetric]) simp
  finally show "length wave = card (matched n st)" .
qed

definition maximum_wave :: "pending_transfer list \<Rightarrow> nat set \<Rightarrow> nat list \<Rightarrow> bool" where
  "maximum_wave pending candidates wave \<longleftrightarrow>
     distinct wave \<and> set wave \<subseteq> candidates \<and> endpoint_disjoint pending (set wave)
   \<and> (\<forall>M. M \<subseteq> candidates \<and> finite M \<and> endpoint_disjoint pending M \<longrightarrow> card M \<le> length wave)"

lemma wave_is_maximum:
  assumes "matching_input pending adj so n"
  shows "\<exists>wave. maximum_ready_matching pending adj so n = Some wave \<and> maximum_wave pending (exposed adj) wave"
proof -
  have "matching_ok pending adj n (matching_new n)"
    by (simp add: matching_ok_def matching_new_def sized_def edges_recorded_def claims_recorded_def)
  moreover have "\<forall>q<n. q \<notin> set so \<longrightarrow> distances (matching_new n) ! q = USIZE_MAX" by (simp add: matching_new_def)
  ultimately obtain st where st: "matching_loop pending adj so (matching_new n) = Some st" "maximum_matching pending adj n st"
    using matching_loop_post [OF assms] by blast
  show ?thesis
    using wave_of_matching [OF assms st(2)] st unfolding maximum_ready_matching_def maximum_wave_def
    by (auto simp: maximum_matching_def)
qed

subsection \<open>Properties\<close>

text \<open>
  C35: The wave computed from the exposed edges is a maximum-cardinality matching: the search
  over levels and alternating paths ends, the wave lists distinct exposed edges that share no
  source and no destination tile, and no set of exposed edges without a shared source or
  destination is larger.
\<close>

theorem ready_matching_is_maximum:
  assumes "matching_input pending adjacency source_order n"
  shows "\<exists>wave. maximum_ready_matching pending adjacency source_order n = Some wave
    \<and> maximum_wave pending (exposed adjacency) wave"
  by (rule wave_is_maximum [OF assms])

definition contested_phase :: "pending_transfer list" where
  "contested_phase =
     [\<lparr>source = 0, source_shard = 0, source_offset = 0, destinations = [(2, 0)], source_addresses = [0],
       source_elements = [0], words = 1, width = Word32, reserved_source = None\<rparr>,
      \<lparr>source = 0, source_shard = 0, source_offset = 4, destinations = [(3, 0)], source_addresses = [4],
       source_elements = [0], words = 1, width = Word32, reserved_source = None\<rparr>,
      \<lparr>source = 1, source_shard = 1, source_offset = 0, destinations = [(2, 4)], source_addresses = [0],
       source_elements = [0], words = 1, width = Word32, reserved_source = None\<rparr>]"

theorem ready_matching_is_maximum_witness:
  "\<exists>wave. maximum_ready_matching contested_phase [[0, 1], [2], [], []] [0, 1] 4 = Some wave
    \<and> maximum_wave contested_phase {0, 1, 2} wave \<and> 2 \<le> length wave"
proof -
  have four: "s < 4 \<longleftrightarrow> s = 0 \<or> s = 1 \<or> s = 2 \<or> s = 3" for s :: nat by arith
  have "{s. s < 4 \<and> [[0, 1], [2], [], []] ! s \<noteq> ([] :: nat list)} = {0, 1}"
    by (auto simp: four)
  moreover have "\<forall>s<4. \<forall>i\<in>set ([[0, 1], [2], [], []] ! s). destination_tile contested_phase i < 4 \<and> source (contested_phase ! i) = s"
    by (auto simp: four contested_phase_def destination_tile_def)
  ultimately have "matching_input contested_phase [[0, 1], [2], [], []] [0, 1] 4"
    unfolding matching_input_def by (simp add: USIZE_MAX_def)
  from ready_matching_is_maximum [OF this]
  obtain wave where w: "maximum_ready_matching contested_phase [[0, 1], [2], [], []] [0, 1] 4 = Some wave"
    "maximum_wave contested_phase {0, 1, 2} wave" by (auto simp: exposed_def insert_commute)
  have "endpoint_disjoint contested_phase {1, 2}"
    by (simp add: endpoint_disjoint_def contested_phase_def destination_tile_def)
  then have "card {1, 2 :: nat} \<le> length wave" using w(2) unfolding maximum_wave_def by blast
  then show ?thesis using w by auto
qed

end
