(* ===== verification/Waves.thy ===== *)
theory Waves
  imports Prelude Streams Matching "HOL-Library.Mapping"
begin

text \<open>
  The wave order of a phase of point-to-point transfers (\<open>order\<close> of \<open>exchange/matching.rs\<close>):
  the ready transfers are indexed by their endpoints, a maximum matching of the exposed ones
  is taken as a wave, and its completion releases dependents into the index.

  A \<open>BTreeMap\<close> of the index is a \<open>mapping\<close> read in the order of its keys, a \<open>BTreeSet\<close> a set
  read through its least element. The outer \<open>None\<close> is a panic or a loop that never ends, the
  inner one the \<open>None\<close> the code returns. Keys of the unstable sorts are ranks, which differ
  for different transfers.
\<close>

subsection \<open>Operations\<close>

type_synonym ready_index = "(nat, (nat \<times> nat) set) mapping list"
type_synonym wave_state = "nat list \<times> ready_index \<times> nat list"

definition count_roles :: "nat list \<Rightarrow> nat \<Rightarrow> nat list" where
  "count_roles endpoints n = foldl (\<lambda>roles e. roles[e := roles ! e + 1]) (replicate n 0) endpoints"

text \<open>Balanced endpoint degrees.\<close>

definition balanced_roles :: "scheduling_problem \<Rightarrow> bool" where
  "balanced_roles p =
     (let pending = problem_transfers p;
          source_roles = count_roles (map source pending) (tile_count p);
          destination_roles = count_roles (map (\<lambda>t. fst (destinations t ! 0)) pending) (tile_count p);
          active_sources = length (filter (\<lambda>roles. roles \<noteq> 0) source_roles);
          active_destinations = length (filter (\<lambda>roles. roles \<noteq> 0) destination_roles);
          maximum_roles = max_or_zero (source_roles @ destination_roles);
          mean_roles = div_ceil (length pending) (max (min active_sources active_destinations) 1)
      in maximum_roles \<le> saturating_mul 64 mean_roles 2)"

definition incumbent_rank :: "nat list \<Rightarrow> nat \<Rightarrow> nat list" where
  "incumbent_rank incumbent n =
     foldl (\<lambda>ranks (rank, index). ranks[index := rank]) (replicate n USIZE_MAX) (enumerate 0 incumbent)"

definition ready_insert :: "nat list \<Rightarrow> pending_transfer list \<Rightarrow> nat \<Rightarrow> ready_index \<Rightarrow> ready_index" where
  "ready_insert rank pending index ready =
     (let s = source (pending ! index);
          d = destination_tile pending index;
          es = (case Mapping.lookup (ready ! s) d of None \<Rightarrow> {} | Some es \<Rightarrow> es)
      in ready[s := Mapping.update d (insert (rank ! index, index) es) (ready ! s)])"

definition ready_remove :: "nat list \<Rightarrow> pending_transfer list \<Rightarrow> nat \<Rightarrow> ready_index \<Rightarrow> ready_index option" where
  "ready_remove rank pending index ready =
     (let s = source (pending ! index);
          d = destination_tile pending index
      in case Mapping.lookup (ready ! s) d of
           None \<Rightarrow> None
         | Some es \<Rightarrow>
             (let es' = es - {(rank ! index, index)}
              in Some (ready[s := if es' = {} then Mapping.delete d (ready ! s)
                                  else Mapping.update d es' (ready ! s)])))"

text \<open>The first index of the transfers: \<open>None\<close> when an item count is invalid.\<close>

fun initial_ready ::
  "nat list \<Rightarrow> pending_transfer list \<Rightarrow> nat list \<Rightarrow> nat list \<Rightarrow> ready_index \<Rightarrow> ready_index option" where
  "initial_ready rank pending counts [] ready = Some ready"
| "initial_ready rank pending counts (index # rest) ready =
     (case item_count (pending ! index) :: unit exchange_lowering_error + nat of
        Inl _ \<Rightarrow> None
      | Inr _ \<Rightarrow> initial_ready rank pending counts rest
                   (if counts ! index = 0 then ready_insert rank pending index ready else ready))"

definition exposed_edges :: "nat list \<Rightarrow> (nat, (nat \<times> nat) set) mapping \<Rightarrow> nat list" where
  "exposed_edges rank m =
     sort_key (\<lambda>index. rank ! index)
       (List.map_filter (\<lambda>d. case Mapping.lookup m d of
            Some es \<Rightarrow> if es = {} then None else Some (snd (Min es))
          | None \<Rightarrow> None) (Mapping.ordered_keys m))"

definition active_order :: "nat list \<Rightarrow> nat list list \<Rightarrow> nat \<Rightarrow> nat list" where
  "active_order rank adjacency n =
     sort_key (\<lambda>s. rank ! (adjacency ! s ! 0)) (filter (\<lambda>s. adjacency ! s \<noteq> []) [0..<n])"

text \<open>One dependent after the other loses a predecessor; a decrement below zero panics.\<close>

fun release ::
  "nat list \<Rightarrow> pending_transfer list \<Rightarrow> nat list \<Rightarrow> nat list \<times> ready_index \<Rightarrow> (nat list \<times> ready_index) option" where
  "release rank pending [] st = Some st"
| "release rank pending (dependent # rest) (counts, ready) =
     (if counts ! dependent = 0 then None
      else
        (let left = counts ! dependent - 1
         in release rank pending rest
              (counts[dependent := left], if left = 0 then ready_insert rank pending dependent ready else ready)))"

fun complete_wave :: "scheduling_problem \<Rightarrow> nat list \<Rightarrow> nat list \<Rightarrow> wave_state \<Rightarrow> wave_state option" where
  "complete_wave p rank [] st = Some st"
| "complete_wave p rank (index # rest) (counts, ready, order) =
     Option.bind (ready_remove rank (problem_transfers p) index ready) (\<lambda>ready.
     Option.bind (release rank (problem_transfers p) (dependents p ! index) (counts, ready)) (\<lambda>(counts, ready).
     complete_wave p rank rest (counts, ready, order @ [index])))"

definition next_wave :: "scheduling_problem \<Rightarrow> nat list \<Rightarrow> ready_index \<Rightarrow> nat list option" where
  "next_wave p rank ready =
     (let adjacency = map (exposed_edges rank) ready
      in maximum_ready_matching (problem_transfers p) adjacency (active_order rank adjacency (tile_count p)) (tile_count p))"

partial_function (option) order_waves :: "scheduling_problem \<Rightarrow> nat list \<Rightarrow> wave_state \<Rightarrow> nat list option option" where
  "order_waves p rank st =
     (case st of (counts, ready, order) \<Rightarrow>
        if length order = length (problem_transfers p) then Some (Some order)
        else
          Option.bind (next_wave p rank ready) (\<lambda>wave.
          if wave = [] then Some None
          else Option.bind (complete_wave p rank (sort_key (\<lambda>index. rank ! index) wave) st) (order_waves p rank)))"

definition matching_order :: "scheduling_problem \<Rightarrow> nat list \<Rightarrow> nat list option option" where
  "matching_order p incumbent =
     (let pending = problem_transfers p
      in if length pending < 2 \<or> list_ex (\<lambda>t. length (destinations t) \<noteq> 1) pending then Some None
         else if \<not> balanced_roles p then Some None
         else
           (let rank = incumbent_rank incumbent (length pending)
            in case initial_ready rank pending (indegrees p) [0..<length pending] (replicate (tile_count p) Mapping.empty) of
                 None \<Rightarrow> Some None
               | Some ready \<Rightarrow> order_waves p rank (indegrees p, ready, [])))"

subsection \<open>The index of ready transfers\<close>

definition endpoint_edges :: "nat list \<Rightarrow> pending_transfer list \<Rightarrow> nat set \<Rightarrow> nat \<Rightarrow> nat \<Rightarrow> (nat \<times> nat) set" where
  "endpoint_edges rank pending A s d =
     (\<lambda>i. (rank ! i, i)) ` {i \<in> A. source (pending ! i) = s \<and> destination_tile pending i = d}"

definition ready_holds :: "nat list \<Rightarrow> pending_transfer list \<Rightarrow> nat \<Rightarrow> nat set \<Rightarrow> ready_index \<Rightarrow> bool" where
  "ready_holds rank pending n A ready \<longleftrightarrow>
     length ready = n \<and> finite A
   \<and> (\<forall>s<n. \<forall>d. Mapping.lookup (ready ! s) d =
        (if endpoint_edges rank pending A s d = {} then None else Some (endpoint_edges rank pending A s d)))"

lemma endpoint_edges_insert:
  "endpoint_edges rank pending (insert i A) s d =
     (if source (pending ! i) = s \<and> destination_tile pending i = d
      then insert (rank ! i, i) (endpoint_edges rank pending A s d) else endpoint_edges rank pending A s d)"
  by (auto simp: endpoint_edges_def)

lemma endpoint_edges_remove:
  "endpoint_edges rank pending (A - {i}) s d =
     (if source (pending ! i) = s \<and> destination_tile pending i = d
      then endpoint_edges rank pending A s d - {(rank ! i, i)} else endpoint_edges rank pending A s d)"
  by (auto simp: endpoint_edges_def)

lemma ready_insert_holds:
  assumes "ready_holds rank pending n A ready" and "source (pending ! i) < n"
  shows "ready_holds rank pending n (insert i A) (ready_insert rank pending i ready)"
  using assms unfolding ready_holds_def
  by (auto simp: ready_insert_def Let_def endpoint_edges_insert nth_list_update lookup_update')

lemma ready_remove_holds:
  assumes "ready_holds rank pending n A ready" and "source (pending ! i) < n" and "i \<in> A"
  shows "\<exists>ready'. ready_remove rank pending i ready = Some ready' \<and> ready_holds rank pending n (A - {i}) ready'"
proof -
  let ?s = "source (pending ! i)" and ?d = "destination_tile pending i"
  have "(rank ! i, i) \<in> endpoint_edges rank pending A ?s ?d" using assms(3) by (auto simp: endpoint_edges_def)
  then have l: "Mapping.lookup (ready ! ?s) ?d = Some (endpoint_edges rank pending A ?s ?d)"
    using assms(1,2) unfolding ready_holds_def by auto
  show ?thesis
    using assms l unfolding ready_holds_def
    by (auto simp: ready_remove_def Let_def endpoint_edges_remove nth_list_update lookup_update' delete.rep_eq Mapping.lookup_delete)
qed

lemma ready_holds_empty: "ready_holds rank pending n {} (replicate n Mapping.empty)"
  by (simp add: ready_holds_def endpoint_edges_def)

lemma ready_keys:
  assumes "ready_holds rank pending n A ready" and "s < n"
  shows "Mapping.keys (ready ! s) = {d. endpoint_edges rank pending A s d \<noteq> {}}"
    and "finite (Mapping.keys (ready ! s))"
proof -
  have "Mapping.lookup (ready ! s) d = (if endpoint_edges rank pending A s d = {} then None else Some (endpoint_edges rank pending A s d))" for d
    using assms by (simp add: ready_holds_def)
  then show k: "Mapping.keys (ready ! s) = {d. endpoint_edges rank pending A s d \<noteq> {}}"
    by (simp add: keys_dom_lookup dom_def)
  have "{d. endpoint_edges rank pending A s d \<noteq> {}} \<subseteq> destination_tile pending ` A"
    by (auto simp: endpoint_edges_def)
  then show "finite (Mapping.keys (ready ! s))"
    unfolding k using assms(1) by (simp add: ready_holds_def finite_subset)
qed

lemma exposed_edges_set:
  assumes "ready_holds rank pending n A ready" and "s < n"
  shows "set (exposed_edges rank (ready ! s))
    = (\<lambda>d. snd (Min (endpoint_edges rank pending A s d))) ` {d. endpoint_edges rank pending A s d \<noteq> {}}"
proof -
  have "set (Mapping.ordered_keys (ready ! s)) = {d. endpoint_edges rank pending A s d \<noteq> {}}"
    using ready_keys [OF assms] by (simp add: ordered_keys_def)
  moreover have lk: "Mapping.lookup (ready ! s) d = (if endpoint_edges rank pending A s d = {} then None else Some (endpoint_edges rank pending A s d))" for d
    using assms by (simp add: ready_holds_def)
  ultimately have "e \<in> set (exposed_edges rank (ready ! s))
      \<longleftrightarrow> (\<exists>d. endpoint_edges rank pending A s d \<noteq> {} \<and> e = snd (Min (endpoint_edges rank pending A s d)))" for e
    unfolding exposed_edges_def set_sort set_map_filter lk by (auto split: if_splits)
  then show ?thesis by blast
qed

text \<open>The first ready transfer with the endpoints of \<open>i\<close>.\<close>

definition front :: "nat list \<Rightarrow> pending_transfer list \<Rightarrow> nat set \<Rightarrow> nat \<Rightarrow> nat" where
  "front rank pending A i =
     snd (Min (endpoint_edges rank pending A (source (pending ! i)) (destination_tile pending i)))"

lemma front_edge:
  assumes "finite A" and "i \<in> A"
  shows "front rank pending A i \<in> A" "source (pending ! front rank pending A i) = source (pending ! i)"
    "destination_tile pending (front rank pending A i) = destination_tile pending i"
proof -
  let ?E = "endpoint_edges rank pending A (source (pending ! i)) (destination_tile pending i)"
  have "finite ?E" "?E \<noteq> {}" using assms by (auto simp: endpoint_edges_def)
  then have "Min ?E \<in> ?E" by (rule Min_in)
  then show "front rank pending A i \<in> A" "source (pending ! front rank pending A i) = source (pending ! i)"
    "destination_tile pending (front rank pending A i) = destination_tile pending i"
    by (auto simp: front_def endpoint_edges_def)
qed

lemma exposed_is_front:
  assumes "ready_holds rank pending n A ready" and "\<forall>i\<in>A. source (pending ! i) < n"
  shows "exposed (map (exposed_edges rank) ready) = front rank pending A ` A"
proof -
  have n: "length ready = n" using assms(1) by (simp add: ready_holds_def)
  have "exposed (map (exposed_edges rank) ready) = (\<Union>s<n. set (exposed_edges rank (ready ! s)))"
  proof -
    have "set ready = (!) ready ` {..<n}" using n by (auto simp: set_conv_nth)
    then show ?thesis by (simp add: exposed_def)
  qed
  also have "\<dots> = front rank pending A ` A"
  proof (intro equalityI subsetI)
    fix e assume "e \<in> (\<Union>s<n. set (exposed_edges rank (ready ! s)))"
    then obtain s d where "s < n" "endpoint_edges rank pending A s d \<noteq> {}" "e = snd (Min (endpoint_edges rank pending A s d))"
      using exposed_edges_set [OF assms(1)] by auto
    then show "e \<in> front rank pending A ` A" by (auto simp: endpoint_edges_def front_def)
  next
    fix e assume "e \<in> front rank pending A ` A"
    then obtain i where i: "i \<in> A" "e = front rank pending A i" by blast
    have "endpoint_edges rank pending A (source (pending ! i)) (destination_tile pending i) \<noteq> {}"
      using i(1) by (auto simp: endpoint_edges_def)
    moreover have s: "source (pending ! i) < n" using i(1) assms(2) by blast
    ultimately have "e \<in> set (exposed_edges rank (ready ! source (pending ! i)))"
      unfolding exposed_edges_set [OF assms(1) s] i(2) front_def by blast
    then show "e \<in> (\<Union>s<n. set (exposed_edges rank (ready ! s)))" using s by blast
  qed
  finally show ?thesis .
qed

text \<open>Exposing one edge for each pair of endpoints keeps the largest waves.\<close>

lemma maximum_wave_all:
  assumes "maximum_wave pending (front rank pending A ` A) wave" and "finite A"
  shows "maximum_wave pending A wave"
proof -
  have sub: "front rank pending A ` A \<subseteq> A" using front_edge(1) [OF assms(2)] by blast
  have "card M \<le> length wave" if M: "M \<subseteq> A" "finite M" "endpoint_disjoint pending M" for M
  proof -
    have f: "source (pending ! front rank pending A i) = source (pending ! i)"
      "destination_tile pending (front rank pending A i) = destination_tile pending i" if "i \<in> M" for i
      using front_edge [OF assms(2)] that M(1) by blast+
    have inj: "inj_on (front rank pending A) M"
      using M(3) f unfolding endpoint_disjoint_def inj_on_def by metis
    have "endpoint_disjoint pending (front rank pending A ` M)"
      using M(3) f unfolding endpoint_disjoint_def inj_on_def by auto
    moreover have "front rank pending A ` M \<subseteq> front rank pending A ` A" using M(1) by blast
    ultimately have "card (front rank pending A ` M) \<le> length wave"
      using assms(1) M(2) by (simp add: maximum_wave_def)
    then show ?thesis by (simp add: card_image [OF inj])
  qed
  then show ?thesis using assms(1) sub by (auto simp: maximum_wave_def)
qed

lemma next_wave_post:
  assumes holds: "ready_holds rank (problem_transfers p) (tile_count p) A ready"
    and tiles: "\<forall>i\<in>A. source (problem_transfers p ! i) < tile_count p \<and> destination_tile (problem_transfers p) i < tile_count p"
    and n: "tile_count p < USIZE_MAX"
  shows "\<exists>wave. next_wave p rank ready = Some wave \<and> maximum_wave (problem_transfers p) A wave"
proof -
  let ?ts = "problem_transfers p" and ?n = "tile_count p"
  let ?adj = "map (exposed_edges rank) ready"
  have L: "length ready = ?n" "finite A" using holds by (simp_all add: ready_holds_def)
  have src: "\<forall>i\<in>A. source (?ts ! i) < ?n" using tiles by blast
  have edge: "source (?ts ! e) = s \<and> destination_tile ?ts e < ?n" if "s < ?n" "e \<in> set (?adj ! s)" for s e
  proof -
    note ex = exposed_edges_set [OF holds that(1)]
    have "e \<in> set (exposed_edges rank (ready ! s))" using that L by simp
    then obtain d where d: "endpoint_edges rank ?ts A s d \<noteq> {}" "e = snd (Min (endpoint_edges rank ?ts A s d))"
      unfolding ex by blast
    have "finite (endpoint_edges rank ?ts A s d)" using L(2) by (simp add: endpoint_edges_def)
    then have "Min (endpoint_edges rank ?ts A s d) \<in> endpoint_edges rank ?ts A s d" using d(1) by (rule Min_in)
    then show ?thesis using d(2) tiles by (auto simp: endpoint_edges_def)
  qed
  have "matching_input ?ts ?adj (active_order rank ?adj ?n) ?n"
    unfolding matching_input_def using L n edge by (auto simp: active_order_def)
  from wave_is_maximum [OF this] obtain wave where
    "next_wave p rank ready = Some wave" "maximum_wave ?ts (exposed ?adj) wave"
    by (auto simp: next_wave_def Let_def)
  then show ?thesis using maximum_wave_all [OF _ L(2)] exposed_is_front [OF holds src] by metis
qed

subsection \<open>Waves\<close>

definition ready_transfers :: "scheduling_problem \<Rightarrow> nat set \<Rightarrow> nat set" where
  "ready_transfers p finished =
     {i. i < length (problem_transfers p) \<and> i \<notin> finished \<and> set (predecessors p ! i) \<subseteq> finished}"

definition finished_ok :: "scheduling_problem \<Rightarrow> nat set \<Rightarrow> bool" where
  "finished_ok p finished \<longleftrightarrow>
     (\<forall>i\<in>finished. i < length (problem_transfers p) \<and> set (predecessors p ! i) \<subseteq> finished)"

definition counts_ok :: "scheduling_problem \<Rightarrow> nat set \<Rightarrow> nat list \<Rightarrow> bool" where
  "counts_ok p finished counts \<longleftrightarrow>
     length counts = length (problem_transfers p)
   \<and> (\<forall>i<length (problem_transfers p). counts ! i = card (set (predecessors p ! i) - finished))"

definition endpoints_ok :: "scheduling_problem \<Rightarrow> bool" where
  "endpoints_ok p \<longleftrightarrow>
     (\<forall>i<length (problem_transfers p). source (problem_transfers p ! i) < tile_count p
        \<and> destination_tile (problem_transfers p) i < tile_count p)"

fun wave_inv :: "scheduling_problem \<Rightarrow> nat list \<Rightarrow> wave_state \<Rightarrow> bool" where
  "wave_inv p rank (counts, ready, order) \<longleftrightarrow>
     finished_ok p (set order) \<and> counts_ok p (set order) counts
   \<and> ready_holds rank (problem_transfers p) (tile_count p) (ready_transfers p (set order)) ready
   \<and> distinct order \<and> keeps_edges (edges p) order"

lemma release_post:
  "ready_holds rank pending n A ready \<Longrightarrow> distinct ds \<Longrightarrow>
   \<forall>d\<in>set ds. d < length counts \<and> 0 < counts ! d \<and> source (pending ! d) < n \<Longrightarrow>
   \<exists>counts' ready'. release rank pending ds (counts, ready) = Some (counts', ready') \<and> length counts' = length counts
     \<and> (\<forall>i<length counts. counts' ! i = counts ! i - (if i \<in> set ds then 1 else 0))
     \<and> ready_holds rank pending n (A \<union> {d \<in> set ds. counts ! d = 1}) ready'"
proof (induction ds arbitrary: counts ready A)
  case Nil
  then show ?case by simp
next
  case (Cons d ds)
  let ?counts = "counts[d := counts ! d - 1]"
  let ?ready = "if counts ! d - 1 = 0 then ready_insert rank pending d ready else ready"
  let ?A = "if counts ! d = 1 then insert d A else A"
  have d: "d < length counts" "0 < counts ! d" "source (pending ! d) < n" "d \<notin> set ds" using Cons.prems by auto
  have "counts ! d - 1 = 0 \<longleftrightarrow> counts ! d = 1" using d(2) by linarith
  then have holds: "ready_holds rank pending n ?A ?ready"
    using Cons.prems(1) ready_insert_holds [OF Cons.prems(1) d(3)] by simp
  have ds: "\<forall>e\<in>set ds. e < length ?counts \<and> 0 < ?counts ! e \<and> source (pending ! e) < n" "distinct ds"
    using Cons.prems(2,3) d(4) by (auto simp: nth_list_update)
  obtain counts' ready' where r: "release rank pending ds (?counts, ?ready) = Some (counts', ready')"
    "length counts' = length ?counts"
    "\<forall>i<length ?counts. counts' ! i = ?counts ! i - (if i \<in> set ds then 1 else 0)"
    "ready_holds rank pending n (?A \<union> {e \<in> set ds. ?counts ! e = 1}) ready'"
    using Cons.IH [OF holds ds(2,1)] by blast
  have "?A \<union> {e \<in> set ds. ?counts ! e = 1} = A \<union> {e \<in> set (d # ds). counts ! e = 1}"
  proof -
    have "?counts ! e = counts ! e" if "e \<in> set ds" for e using that d(4) by (metis nth_list_update_neq)
    then show ?thesis by auto
  qed
  moreover have "\<forall>i<length counts. counts' ! i = counts ! i - (if i \<in> set (d # ds) then 1 else 0)"
    using r(3) d by (auto simp: nth_list_update)
  moreover have "release rank pending (d # ds) (counts, ready) = Some (counts', ready')"
    using r(1) d(2) by (simp add: Let_def)
  ultimately show ?case using r(2,4) by auto
qed

lemma finish_one:
  assumes wf: "problem_wf p" and fin: "finished_ok p F" and counts: "counts_ok p F counts" and i: "i \<in> ready_transfers p F"
  shows "finished_ok p (insert i F)"
    and "d \<in> set (dependents p ! i) \<Longrightarrow> d < length counts \<and> 0 < counts ! d"
    and "\<forall>j<length counts. counts' ! j = counts ! j - (if j \<in> set (dependents p ! i) then 1 else 0) \<Longrightarrow>
      length counts' = length counts \<Longrightarrow> counts_ok p (insert i F) counts'"
    and "ready_transfers p F - {i} \<union> {d \<in> set (dependents p ! i). counts ! d = 1} = ready_transfers p (insert i F)"
proof -
  let ?n = "length (problem_transfers p)"
  have i': "i < ?n" "i \<notin> F" "set (predecessors p ! i) \<subseteq> F" using i by (simp_all add: ready_transfers_def)
  have dep: "d \<in> set (dependents p ! i) \<longleftrightarrow> d < ?n \<and> i \<in> set (predecessors p ! d)" for d
    using wf i'(1) by (simp add: problem_wf_def Let_def)
  have C: "length counts = ?n" "\<And>j. j < ?n \<Longrightarrow> counts ! j = card (set (predecessors p ! j) - F)"
    using counts by (simp_all add: counts_ok_def)
  show "finished_ok p (insert i F)" using fin i' by (auto simp: finished_ok_def)
  show pos: "d < length counts \<and> 0 < counts ! d" if "d \<in> set (dependents p ! i)" for d
    using that dep C i'(2) by (auto simp: card_gt_0_iff)
  show "counts_ok p (insert i F) counts'"
    if "\<forall>j<length counts. counts' ! j = counts ! j - (if j \<in> set (dependents p ! i) then 1 else 0)" "length counts' = length counts"
  proof -
    have "counts' ! j = card (set (predecessors p ! j) - insert i F)" if j: "j < ?n" for j
    proof (cases "i \<in> set (predecessors p ! j)")
      case True
      have "set (predecessors p ! j) - insert i F = (set (predecessors p ! j) - F) - {i}" by blast
      then show ?thesis using that True dep [of j] \<open>\<forall>j<length counts. _ j\<close> C i'(2) by simp
    next
      case False
      then have "set (predecessors p ! j) - insert i F = set (predecessors p ! j) - F" by blast
      then show ?thesis using that False dep [of j] \<open>\<forall>j<length counts. _ j\<close> C by simp
    qed
    then show ?thesis using that(2) C(1) by (simp add: counts_ok_def)
  qed
  have one: "counts ! d = 1 \<longleftrightarrow> set (predecessors p ! d) - F = {i}" if "d \<in> set (dependents p ! i)" for d
  proof -
    have "d < ?n" "i \<in> set (predecessors p ! d) - F" using that dep i'(2) by auto
    then show ?thesis using C(2) [of d] by (metis card_1_singletonE card.empty card.insert empty_iff finite.emptyI insert_absorb insert_not_empty singletonD One_nat_def)
  qed
  have notin: "d \<notin> F" if "d \<in> set (dependents p ! i)" for d
    using that dep fin i'(2) by (auto simp: finished_ok_def)
  have self: "i \<notin> set (predecessors p ! i)" using i'(2,3) by blast
  show "ready_transfers p F - {i} \<union> {d \<in> set (dependents p ! i). counts ! d = 1} = ready_transfers p (insert i F)"
  proof (intro equalityI subsetI)
    fix d assume "d \<in> ready_transfers p F - {i} \<union> {d \<in> set (dependents p ! i). counts ! d = 1}"
    then show "d \<in> ready_transfers p (insert i F)"
      using one notin dep self by (auto simp: ready_transfers_def)
  next
    fix d assume d: "d \<in> ready_transfers p (insert i F)"
    show "d \<in> ready_transfers p F - {i} \<union> {d \<in> set (dependents p ! i). counts ! d = 1}"
    proof (cases "i \<in> set (predecessors p ! d)")
      case True
      then have "d \<in> set (dependents p ! i)" using d dep by (simp add: ready_transfers_def)
      moreover have "set (predecessors p ! d) - F = {i}" using True d i'(2) by (auto simp: ready_transfers_def)
      ultimately show ?thesis using one by simp
    next
      case False
      then show ?thesis using d by (auto simp: ready_transfers_def)
    qed
  qed
qed

lemma keeps_edges_snoc:
  assumes "keeps_edges (edges p) order" and "finished_ok p (set order)" and "i \<notin> set order"
  shows "keeps_edges (edges p) (order @ [i])"
  using assms by (auto simp: keeps_edges_def sorted_wrt_append edges_def finished_ok_def)

lemma complete_wave_post:
  assumes wf: "problem_wf p" and ends: "endpoints_ok p"
  shows "wave_inv p rank (counts, ready, order) \<Longrightarrow> distinct ws \<Longrightarrow> set ws \<subseteq> ready_transfers p (set order) \<Longrightarrow>
    \<exists>counts' ready'. complete_wave p rank ws (counts, ready, order) = Some (counts', ready', order @ ws)
      \<and> wave_inv p rank (counts', ready', order @ ws)"
proof (induction ws arbitrary: counts ready order)
  case Nil
  then show ?case by simp
next
  case (Cons i ws)
  let ?ts = "problem_transfers p" and ?F = "set order"
  have inv: "finished_ok p ?F" "counts_ok p ?F counts" "ready_holds rank ?ts (tile_count p) (ready_transfers p ?F) ready"
    "distinct order" "keeps_edges (edges p) order" using Cons.prems(1) by simp_all
  have i: "i \<in> ready_transfers p ?F" "i < length ?ts" "i \<notin> ?F" using Cons.prems(3) by (auto simp: ready_transfers_def)
  note f = finish_one [OF wf inv(1,2) i(1)]
  have src: "source (?ts ! j) < tile_count p" if "j < length ?ts" for j using ends that by (simp add: endpoints_ok_def)
  obtain ready1 where r1: "ready_remove rank ?ts i ready = Some ready1"
    "ready_holds rank ?ts (tile_count p) (ready_transfers p ?F - {i}) ready1"
    using ready_remove_holds [OF inv(3) src [OF i(2)] i(1)] by blast
  have C: "length counts = length ?ts" using inv(2) by (simp add: counts_ok_def)
  have "distinct (dependents p ! i)"
    using wf i(2) by (auto simp: problem_wf_def Let_def strict_sorted_iff)
  moreover have "\<forall>d\<in>set (dependents p ! i). d < length counts \<and> 0 < counts ! d \<and> source (?ts ! d) < tile_count p"
    using f(2) src C by auto
  ultimately obtain counts' ready2 where r2: "release rank ?ts (dependents p ! i) (counts, ready1) = Some (counts', ready2)"
    "length counts' = length counts"
    "\<forall>j<length counts. counts' ! j = counts ! j - (if j \<in> set (dependents p ! i) then 1 else 0)"
    "ready_holds rank ?ts (tile_count p) (ready_transfers p ?F - {i} \<union> {d \<in> set (dependents p ! i). counts ! d = 1}) ready2"
    using release_post [OF r1(2)] by blast
  have eq: "complete_wave p rank (i # ws) (counts, ready, order) = complete_wave p rank ws (counts', ready2, order @ [i])"
    using r1(1) r2(1) by simp
  have set: "set (order @ [i]) = insert i ?F" by simp
  have "wave_inv p rank (counts', ready2, order @ [i])"
    unfolding wave_inv.simps set
    using f(1) f(3) [OF r2(3,2)] r2(4) [unfolded f(4)] inv(4,5) i(3) keeps_edges_snoc [OF inv(5,1) i(3)] by simp
  moreover have "set ws \<subseteq> ready_transfers p (set (order @ [i]))" "distinct ws"
    using Cons.prems(2,3) by (auto simp: ready_transfers_def)
  ultimately show ?case unfolding eq using Cons.IH [of counts' ready2 "order @ [i]"] by simp
qed

lemma some_ready:
  assumes "problem_wf p" and "finished_ok p F" and "F \<noteq> {..<length (problem_transfers p)}"
  shows "ready_transfers p F \<noteq> {}"
proof -
  have "F \<subseteq> {..<length (problem_transfers p)}" using assms(2) by (auto simp: finished_ok_def)
  then obtain k where "k < length (problem_transfers p) \<and> k \<notin> F" using assms(3) by blast
  then obtain i where i: "i < length (problem_transfers p)" "i \<notin> F"
    and least: "\<And>j. j < i \<Longrightarrow> j < length (problem_transfers p) \<Longrightarrow> j \<in> F"
    using exists_least_iff [of "\<lambda>k. k < length (problem_transfers p) \<and> k \<notin> F"] by blast
  have "a < i" if "a \<in> set (predecessors p ! i)" for a
    using assms(1) i(1) that by (simp add: problem_wf_def Let_def)
  then have "i \<in> ready_transfers p F" using i least by (auto simp: ready_transfers_def)
  then show ?thesis by blast
qed

text \<open>A schedule in maximum waves, each in incumbent order.\<close>

fun wave_schedule :: "scheduling_problem \<Rightarrow> nat list \<Rightarrow> nat set \<Rightarrow> nat list list \<Rightarrow> bool" where
  "wave_schedule p rank finished [] \<longleftrightarrow> finished = {..<length (problem_transfers p)}"
| "wave_schedule p rank finished (w # ws) \<longleftrightarrow>
     sorted_wrt (\<lambda>i j. rank ! i < rank ! j) w
   \<and> maximum_wave (problem_transfers p) (ready_transfers p finished) w
   \<and> wave_schedule p rank (finished \<union> set w) ws"

lemma maximum_wave_sort:
  "maximum_wave pending A (sort_key f w) \<longleftrightarrow> maximum_wave pending A w"
  by (simp add: maximum_wave_def distinct_sort)

lemma maximum_wave_nonempty:
  assumes "maximum_wave pending A w" and "A \<noteq> {}"
  shows "w \<noteq> []"
proof -
  obtain i where "i \<in> A" using assms(2) by blast
  then have "card {i} \<le> length w"
    using assms(1) unfolding maximum_wave_def by (metis bot.extremum endpoint_disjoint_def finite.emptyI finite.insertI inj_on_empty inj_on_insert empty_Diff image_empty empty_iff insert_subset)
  then show ?thesis by auto
qed

lemma order_waves_post:
  assumes wf: "problem_wf p" and ends: "endpoints_ok p" and n: "tile_count p < USIZE_MAX"
    and inj: "inj_on ((!) rank) {..<length (problem_transfers p)}"
  shows "wave_inv p rank (counts, ready, order) \<Longrightarrow>
    \<exists>ws. order_waves p rank (counts, ready, order) = Some (Some (order @ concat ws))
      \<and> wave_schedule p rank (set order) ws \<and> topological p (order @ concat ws)"
proof (induction "length (problem_transfers p) - length order" arbitrary: counts ready order rule: less_induct)
  case less
  let ?ts = "problem_transfers p" and ?F = "set order"
  have inv: "finished_ok p ?F" "ready_holds rank ?ts (tile_count p) (ready_transfers p ?F) ready"
    "distinct order" "keeps_edges (edges p) order" using less.prems by simp_all
  have sub: "?F \<subseteq> {..<length ?ts}" using inv(1) by (auto simp: finished_ok_def)
  show ?case
  proof (cases "length order = length ?ts")
    case True
    then have all: "?F = {..<length ?ts}" using sub inv(3) distinct_card [of order] by (intro card_subset_eq) auto
    have "order_waves p rank (counts, ready, order) = Some (Some order)" using True by (subst order_waves.simps) simp
    then show ?thesis using all inv by (intro exI [of _ "[]"]) (simp add: topological_def)
  next
    case False
    have "card ?F = length order" using inv(3) by (rule distinct_card)
    then have short: "length order < length ?ts" using card_mono [OF _ sub] False by simp
    have notall: "?F \<noteq> {..<length ?ts}"
    proof
      assume "?F = {..<length ?ts}"
      then show False using \<open>card ?F = length order\<close> False by simp
    qed
    have "\<forall>i\<in>ready_transfers p ?F. source (?ts ! i) < tile_count p \<and> destination_tile ?ts i < tile_count p"
      using ends by (auto simp: ready_transfers_def endpoints_ok_def)
    then obtain wave where w: "next_wave p rank ready = Some wave" "maximum_wave ?ts (ready_transfers p ?F) wave"
      using next_wave_post [OF inv(2) _ n] by blast
    have ne: "wave \<noteq> []" by (rule maximum_wave_nonempty [OF w(2) some_ready [OF wf inv(1) notall]])
    let ?w = "sort_key (\<lambda>index. rank ! index) wave"
    have max: "maximum_wave ?ts (ready_transfers p ?F) ?w" using w(2) by (simp only: maximum_wave_sort)
    then have ws: "distinct ?w" "set ?w \<subseteq> ready_transfers p ?F" by (simp_all only: maximum_wave_def)
    obtain counts' ready' where c: "complete_wave p rank ?w (counts, ready, order) = Some (counts', ready', order @ ?w)"
      and inv': "wave_inv p rank (counts', ready', order @ ?w)"
      using complete_wave_post [OF wf ends less.prems ws] by blast
    have "length ?ts - length (order @ ?w) < length ?ts - length order" using short ne by (simp add: diff_less_mono2)
    from less.hyps [OF this inv'] obtain vs where
      vs: "order_waves p rank (counts', ready', order @ ?w) = Some (Some ((order @ ?w) @ concat vs))"
        "wave_schedule p rank (set (order @ ?w)) vs" "topological p ((order @ ?w) @ concat vs)" by blast
    have step: "order_waves p rank (counts, ready, order) = order_waves p rank (counts', ready', order @ ?w)"
      using False w(1) ne c by (subst order_waves.simps) simp
    have strict: "sorted_wrt (\<lambda>i j. rank ! i < rank ! j) ?w"
    proof -
      have "inj_on ((!) rank) (set ?w)" by (rule inj_on_subset [OF inj]) (use ws(2) in \<open>auto simp: ready_transfers_def\<close>)
      then have "distinct (map ((!) rank) ?w)" using ws(1) by (simp add: distinct_map)
      then have "sorted_wrt (<) (map ((!) rank) ?w)" using sorted_sort_key [of "(!) rank" wave] by (simp add: strict_sorted_iff)
      then show ?thesis by (simp add: sorted_wrt_map)
    qed
    show ?thesis
      using step vs max strict by (intro exI [of _ "?w # vs"]) (simp add: Un_commute)
  qed
qed

subsection \<open>The order\<close>

lemma incumbent_rank_length [simp]: "length (incumbent_rank incumbent n) = n"
proof (induction incumbent rule: rev_induct)
  case (snoc x xs)
  then show ?case by (simp add: incumbent_rank_def enumerate_append_eq)
qed (simp add: incumbent_rank_def)

lemma incumbent_rank_nth:
  "distinct incumbent \<Longrightarrow> set incumbent \<subseteq> {..<n} \<Longrightarrow> k < length incumbent \<Longrightarrow> incumbent_rank incumbent n ! (incumbent ! k) = k"
proof (induction incumbent arbitrary: k rule: rev_induct)
  case (snoc x xs)
  have step: "incumbent_rank (xs @ [x]) n = (incumbent_rank xs n)[x := length xs]"
    by (simp add: incumbent_rank_def enumerate_append_eq)
  show ?case
  proof (cases "k = length xs")
    case True
    then show ?thesis using snoc.prems by (simp add: step)
  next
    case False
    then have k: "k < length xs" using snoc.prems(3) by simp
    then have "xs ! k \<noteq> x" using snoc.prems(1) by auto
    then show ?thesis using snoc.IH [OF _ _ k] snoc.prems k by (simp add: step nth_append)
  qed
qed simp

lemma incumbent_rank_inj:
  assumes "distinct incumbent" and "set incumbent = {..<n}"
  shows "inj_on ((!) (incumbent_rank incumbent n)) {..<n}"
proof (rule inj_onI)
  fix i j assume a: "i \<in> {..<n}" "j \<in> {..<n}" "incumbent_rank incumbent n ! i = incumbent_rank incumbent n ! j"
  obtain k l where "k < length incumbent" "i = incumbent ! k" "l < length incumbent" "j = incumbent ! l"
    using a(1,2) unfolding assms(2) [symmetric] by (auto simp: in_set_conv_nth)
  then show "i = j" using a(3) incumbent_rank_nth [OF assms(1), of n] assms(2) by simp
qed

definition counted :: "pending_transfer \<Rightarrow> bool" where
  "counted t = (case item_count t :: unit exchange_lowering_error + nat of Inl _ \<Rightarrow> False | Inr _ \<Rightarrow> True)"

lemma initial_ready_post:
  assumes "\<forall>i\<in>set is. source (pending ! i) < n"
  shows "ready_holds rank pending n A ready \<Longrightarrow>
    (if \<forall>i\<in>set is. counted (pending ! i)
     then \<exists>ready'. initial_ready rank pending counts is ready = Some ready'
        \<and> ready_holds rank pending n (A \<union> {i \<in> set is. counts ! i = 0}) ready'
     else initial_ready rank pending counts is ready = None)"
  using assms
proof (induction "is" arbitrary: A ready)
  case (Cons i is')
  let ?ready = "if counts ! i = 0 then ready_insert rank pending i ready else ready"
  let ?A = "if counts ! i = 0 then insert i A else A"
  have h: "ready_holds rank pending n ?A ?ready"
    using Cons.prems ready_insert_holds [OF Cons.prems(1), of i] by simp
  have A: "?A \<union> {j \<in> set is'. counts ! j = 0} = A \<union> {j \<in> set (i # is'). counts ! j = 0}" by auto
  have tail: "\<forall>i\<in>set is'. source (pending ! i) < n" using Cons.prems(2) by simp
  note IH = Cons.IH [OF h tail, unfolded A]
  show ?case
  proof (cases "counted (pending ! i)")
    case True
    then have eq: "initial_ready rank pending counts (i # is') ready = initial_ready rank pending counts is' ?ready"
      and all: "(\<forall>j\<in>set (i # is'). counted (pending ! j)) \<longleftrightarrow> (\<forall>j\<in>set is'. counted (pending ! j))"
      by (auto simp: counted_def split: sum.splits)
    show ?thesis unfolding eq all by (rule IH)
  next
    case False
    then have "initial_ready rank pending counts (i # is') ready = None"
      by (auto simp: counted_def split: sum.splits)
    then show ?thesis using False by simp
  qed
qed simp

text \<open>The phases \<open>order\<close> takes on.\<close>

definition matching_applies :: "scheduling_problem \<Rightarrow> bool" where
  "matching_applies p \<longleftrightarrow>
     2 \<le> length (problem_transfers p) \<and> list_all (\<lambda>t. length (destinations t) = 1) (problem_transfers p)
   \<and> balanced_roles p \<and> list_all counted (problem_transfers p)"

lemma matching_order_post:
  assumes tiles: "tiles_in_range ts count" and count: "count < 2 ^ 16" and p: "problem_new ts count = Some p"
    and inc: "distinct incumbent" "set incumbent = {..<length ts}"
  shows "if matching_applies p
    then \<exists>waves. matching_order p incumbent = Some (Some (concat waves)) \<and> topological p (concat waves)
      \<and> wave_schedule p (incumbent_rank incumbent (length ts)) {} waves
    else matching_order p incumbent = Some None"
proof -
  note e = problem_new_edges [OF p]
  have ts: "problem_transfers p = ts" and wf: "problem_wf p" using e by blast+
  have tc: "tile_count p = count" using p by (auto simp: problem_new_def Let_def split: option.splits if_splits)
  let ?rank = "incumbent_rank incumbent (length ts)"
  let ?init = "initial_ready ?rank ts (indegrees p) [0..<length ts] (replicate count Mapping.empty)"
  show ?thesis
  proof (cases "2 \<le> length ts \<and> list_all (\<lambda>t. length (destinations t) = 1) ts \<and> balanced_roles p")
    case False
    have order: "matching_order p incumbent = Some None"
      using False by (auto simp: matching_order_def Let_def ts list_ex_iff list_all_iff)
    have "\<not> matching_applies p" using False by (auto simp: matching_applies_def ts)
    then show ?thesis using order by simp
  next
    case True
    then have go: "matching_order p incumbent = (case ?init of None \<Rightarrow> Some None | Some ready \<Rightarrow> order_waves p ?rank (indegrees p, ready, []))"
      by (simp add: matching_order_def Let_def ts tc list_ex_iff list_all_iff)
    have ends: "endpoints_ok p"
      unfolding endpoints_ok_def ts tc
    proof (intro allI impI)
      fix i assume i: "i < length ts"
      then have "length (destinations (ts ! i)) = 1" "\<forall>tile\<in>set (tiles (ts ! i)). tile < count"
        using True tiles nth_mem [OF i] by (auto simp: tiles_in_range_def list_all_iff)
      then show "source (ts ! i) < count \<and> destination_tile ts i < count"
        by (cases "destinations (ts ! i)") (auto simp: tiles_def destination_tile_def)
    qed
    have src: "\<forall>i\<in>set [0..<length ts]. source (ts ! i) < count" using ends by (simp add: endpoints_ok_def ts tc)
    have all: "(\<forall>i\<in>set [0..<length ts]. counted (ts ! i)) \<longleftrightarrow> list_all counted ts"
      by (auto simp: list_all_length)
    have D: "length (predecessors p) = length ts" "\<And>i. i < length ts \<Longrightarrow> distinct (predecessors p ! i)"
      using wf ts by (auto simp: problem_wf_def Let_def strict_sorted_iff)
    have counts: "counts_ok p {} (indegrees p)"
      using D by (simp add: counts_ok_def indegrees_def ts distinct_card)
    have zero: "{i \<in> set [0..<length ts]. indegrees p ! i = 0} = ready_transfers p {}"
      using D(1) by (auto simp: ready_transfers_def indegrees_def ts)
    note init = initial_ready_post [OF src ready_holds_empty, of ?rank "indegrees p", unfolded all zero Un_empty_left]
    show ?thesis
    proof (cases "list_all counted ts")
      case False
      have order: "matching_order p incumbent = Some None" using init False go by simp
      have "\<not> matching_applies p" using False by (simp add: matching_applies_def ts)
      then show ?thesis using order by simp
    next
      case ok: True
      then obtain ready where r: "?init = Some ready" "ready_holds ?rank ts count (ready_transfers p {}) ready"
        using init by auto
      have "wave_inv p ?rank (indegrees p, ready, [])"
        using counts r(2) by (simp add: finished_ok_def ts tc keeps_edges_def)
      moreover have "tile_count p < USIZE_MAX" using count by (simp add: tc USIZE_MAX_def)
      moreover have "inj_on ((!) ?rank) {..<length (problem_transfers p)}" using incumbent_rank_inj [OF inc] ts by simp
      ultimately obtain ws where "order_waves p ?rank (indegrees p, ready, []) = Some (Some (concat ws))"
        "wave_schedule p ?rank {} ws" "topological p (concat ws)"
        using order_waves_post [OF wf ends] by fastforce
      moreover have "matching_applies p" using True ok by (simp add: matching_applies_def ts)
      ultimately show ?thesis using go r(1) by auto
    qed
  qed
qed

subsection \<open>Properties\<close>

text \<open>
  C36: The wave order of a phase is always found: for a scheduling problem on at most 2^16 tiles
  and an incumbent order that is a permutation, the loops end, nothing panics, and the order
  is refused exactly for the phases it does not apply to (fewer than two transfers, several
  destinations, unbalanced endpoints, invalid item counts). The result lists every transfer
  once after the transfers it depends on; it is a sequence of waves, each of which is a
  largest possible set of ready transfers without a shared source or destination, in
  incumbent order. In particular a wave is never empty, so the loop is never stuck.
\<close>

theorem matching_order_never_stuck:
  assumes "tiles_in_range ts count" and "count < 2 ^ 16" and "problem_new ts count = Some p"
    and "distinct incumbent" and "set incumbent = {..<length ts}"
  shows "if matching_applies p
    then \<exists>waves. matching_order p incumbent = Some (Some (concat waves)) \<and> topological p (concat waves)
      \<and> wave_schedule p (incumbent_rank incumbent (length ts)) {} waves
    else matching_order p incumbent = Some None"
  by (rule matching_order_post [OF assms])

lemma sample_balanced: "balanced_roles sample_problem"
proof -
  have "count_roles (map source sample_phase) 4 = [1, 0, 1, 1]" by code_simp
  moreover have "count_roles (map (\<lambda>t. fst (destinations t ! 0)) sample_phase) 4 = [1, 1, 0, 1]" by code_simp
  ultimately show ?thesis
    by (simp add: balanced_roles_def sample_problem_def max_or_zero_def saturating_mul_def div_ceil_def sample_phase_def)
qed

lemma sample_applies: "matching_applies sample_problem"
  unfolding matching_applies_def
  by (intro conjI sample_balanced)
    (simp_all add: sample_problem_def sample_phase_def counted_def item_count_def width_item_count_def is_multiple_of_def)

theorem matching_order_never_stuck_witness:
  "\<exists>waves. matching_order sample_problem [2, 1, 0] = Some (Some (concat waves)) \<and> topological sample_problem (concat waves)
    \<and> wave_schedule sample_problem (incumbent_rank [2, 1, 0] 3) {} waves"
proof -
  have "tiles_in_range sample_phase 4" by (simp add: sample_phase_def tiles_in_range_def tiles_def option_list_def)
  moreover have "set [2, 1, 0] = {..<length sample_phase}" by (auto simp: sample_phase_def)
  moreover have "length sample_phase = 3" by (simp add: sample_phase_def)
  ultimately show ?thesis
    using matching_order_never_stuck [OF _ _ sample_problem_new, of "[2, 1, 0]"] sample_applies by simp
qed

end
