(* ===== verification/Aliases.thy ===== *)
theory Aliases
  imports Prelude Arena
begin

text \<open>
  The alias constraints of placement (\<open>DisjointSets\<close> of \<open>ipu-codegen/src/place/mod.rs\<close>): a
  union-find structure whose members carry a byte displacement from their parent. The lemmas
  show that the structure represents exactly the solutions of the recorded constraints
  \<open>address(left) = address(right) + displacement\<close>, and that a union is refused exactly when
  no addresses satisfy them.

  The recursion of \<open>find\<close> has no bound in the code; a call that would not end is \<open>None\<close>. The
  \<open>i64\<close> offsets are sums of at most 2^32 displacements below 2^31 and are integers here.
\<close>

subsection \<open>Operations\<close>

record disjoint_sets =
  parents :: "nat list"
  set_offsets :: "int list"

definition sets_new :: "nat \<Rightarrow> disjoint_sets" where
  "sets_new n = \<lparr>parents = [0..<n], set_offsets = replicate n 0\<rparr>"

partial_function (option) find_set :: "disjoint_sets \<Rightarrow> nat \<Rightarrow> (nat \<times> disjoint_sets) option" where
  "find_set s v =
     (let parent = parents s ! v
      in if parent \<noteq> v
         then Option.bind (find_set s parent) (\<lambda>(root, s').
                Some (root, s'\<lparr>parents := (parents s')[v := root],
                              set_offsets := (set_offsets s')[v := set_offsets s' ! v + set_offsets s' ! parent]\<rparr>))
         else Some (parents s ! v, s))"

text \<open>Require address(left) = address(right) + displacement.\<close>

definition union_offset :: "nat \<Rightarrow> nat \<Rightarrow> int \<Rightarrow> disjoint_sets \<Rightarrow> disjoint_sets placement_result option" where
  "union_offset left right displacement s =
     Option.bind (find_set s left) (\<lambda>(a, s).
     Option.bind (find_set s right) (\<lambda>(b, s).
     let delta = set_offsets s ! right + displacement - set_offsets s ! left
     in Some (if a = b then if delta \<noteq> 0 then Inl (Fail IncompatibleAlias) else Inr s
              else Inr (s\<lparr>parents := (parents s)[b := a], set_offsets := (set_offsets s)[b := - delta]\<rparr>))))"

fun unions :: "(nat \<times> nat \<times> int) list \<Rightarrow> disjoint_sets \<Rightarrow> disjoint_sets placement_result option" where
  "unions [] s = Some (Inr s)"
| "unions ((left, right, displacement) # rest) s =
     Option.bind (union_offset left right displacement s) (\<lambda>r. case r of Inl e \<Rightarrow> Some (Inl e) | Inr s' \<Rightarrow> unions rest s')"

subsection \<open>Roots and displacements\<close>

text \<open>The root of a member, its displacement from it, and the length of the path.\<close>

inductive path_to :: "disjoint_sets \<Rightarrow> nat \<Rightarrow> nat \<Rightarrow> int \<Rightarrow> nat \<Rightarrow> bool" for s where
  root: "parents s ! v = v \<Longrightarrow> path_to s v v 0 0"
| step: "parents s ! v \<noteq> v \<Longrightarrow> path_to s (parents s ! v) r d k \<Longrightarrow> path_to s v r (set_offsets s ! v + d) (Suc k)"

inductive_cases path_toE: "path_to s v r d k"

definition located :: "disjoint_sets \<Rightarrow> nat \<Rightarrow> nat \<Rightarrow> int \<Rightarrow> bool" where
  "located s v r d \<longleftrightarrow> (\<exists>k. path_to s v r d k)"

definition sets_ok :: "nat \<Rightarrow> disjoint_sets \<Rightarrow> bool" where
  "sets_ok n s \<longleftrightarrow> length (parents s) = n \<and> length (set_offsets s) = n
   \<and> (\<forall>v<n. parents s ! v < n \<and> (\<exists>r d. located s v r d) \<and> (parents s ! v = v \<longrightarrow> set_offsets s ! v = 0))"

lemma path_to_unique: "path_to s v r d k \<Longrightarrow> path_to s v r' d' k' \<Longrightarrow> r' = r \<and> d' = d \<and> k' = k"
proof (induction arbitrary: r' d' k' rule: path_to.induct)
  case (root v)
  then show ?case by (auto elim: path_toE)
next
  case (step v r d k)
  from step.prems step.hyps(1) obtain d1 k1 where "path_to s (parents s ! v) r' d1 k1" "d' = set_offsets s ! v + d1" "k' = Suc k1"
    by (auto elim: path_toE)
  then show ?case using step.IH by auto
qed

lemma path_to_root: "path_to s v r d k \<Longrightarrow> parents s ! r = r"
  by (induction rule: path_to.induct) auto

lemma located_unique: "located s v r d \<Longrightarrow> located s v r' d' \<Longrightarrow> r' = r \<and> d' = d"
  unfolding located_def using path_to_unique by blast

lemma located_root: "parents s ! r = r \<Longrightarrow> located s r r 0"
  unfolding located_def using path_to.root by blast

lemma located_parent:
  "located s v r d \<Longrightarrow> parents s ! v = r \<Longrightarrow> v \<noteq> r \<Longrightarrow> set_offsets s ! v = d"
  unfolding located_def by (metis add.right_neutral path_to.root path_to.step path_to_root path_to_unique)

lemma located_range: "sets_ok n s \<Longrightarrow> path_to s v r d k \<Longrightarrow> v < n \<Longrightarrow> r < n"
  by (rotate_tac 1, induction rule: path_to.induct) (auto simp: sets_ok_def)

text \<open>Pointing a member straight at its root changes no displacement.\<close>

definition compress :: "nat \<Rightarrow> nat \<Rightarrow> int \<Rightarrow> disjoint_sets \<Rightarrow> disjoint_sets" where
  "compress v r d s = s\<lparr>parents := (parents s)[v := r], set_offsets := (set_offsets s)[v := d]\<rparr>"

lemma compress_located:
  assumes "sets_ok n s" and "v < n" and "located s v r d"
  shows "path_to s u r' d' k \<Longrightarrow> located (compress v r d s) u r' d'"
proof (induction rule: path_to.induct)
  case (root u)
  then show ?case
    using assms by (intro located_root) (cases "u = v"; auto simp: compress_def sets_ok_def located_def dest: path_to_unique path_to.root)
next
  case (step u r' d' k)
  have L: "length (parents s) = n" "length (set_offsets s) = n" using assms(1) by (simp_all add: sets_ok_def)
  show ?case
  proof (cases "u = v")
    case True
    have e: "r' = r" "set_offsets s ! u + d' = d"
      using located_unique [OF assms(3)] step.hyps path_to.step [OF step.hyps] True unfolding located_def by blast+
    have r: "parents s ! r = r" using assms(3) path_to_root by (auto simp: located_def)
    then have "r \<noteq> v" using step.hyps(1) True by auto
    then have "path_to (compress v r d s) r r 0 0" using r by (intro path_to.root) (simp add: compress_def)
    then have "path_to (compress v r d s) v r (d + 0) (Suc 0)"
      using path_to.step [of "compress v r d s" v r 0 0] L assms(2) \<open>r \<noteq> v\<close> by (simp add: compress_def)
    then show ?thesis using e True by (auto simp: located_def)
  next
    case False
    then obtain k' where "path_to (compress v r d s) (parents s ! u) r' d' k'" using step.IH by (auto simp: located_def)
    then show ?thesis using path_to.step [of "compress v r d s" u r' d' k'] step.hyps(1) False
      by (auto simp: located_def compress_def)
  qed
qed

lemma same_located:
  assumes "sets_ok n s" and "u < n" and "\<And>r d. located s u r d \<Longrightarrow> located s' u r d"
  shows "located s' u r d \<longleftrightarrow> located s u r d"
  using assms located_unique unfolding sets_ok_def by metis

lemma compress_ok:
  assumes "sets_ok n s" and "v < n" and "located s v r d"
  shows "sets_ok n (compress v r d s)"
proof -
  have r: "r < n" using assms located_range by (auto simp: located_def)
  have loc: "\<exists>r' d'. located (compress v r d s) u r' d'" if "u < n" for u
    using that assms(1) compress_located [OF assms] unfolding sets_ok_def located_def by metis
  have "parents (compress v r d s) ! u < n" if "u < n" for u
    using that assms(1,2) r by (cases "u = v") (simp_all add: compress_def sets_ok_def)
  moreover have "set_offsets (compress v r d s) ! u = 0" if "u < n" "parents (compress v r d s) ! u = u" for u
  proof (cases "u = v")
    case True
    then have "r = v" using that assms(1,2) by (simp add: compress_def sets_ok_def)
    moreover have "parents s ! r = r" using assms(3) path_to_root by (auto simp: located_def)
    ultimately have "d = 0" using located_unique [OF assms(3) located_root] by simp
    then show ?thesis using True assms(1,2) by (simp add: compress_def sets_ok_def)
  next
    case False
    then show ?thesis using that assms(1) by (simp add: compress_def sets_ok_def)
  qed
  ultimately show ?thesis using loc assms(1) by (simp add: sets_ok_def compress_def)
qed

text \<open>\<open>find\<close> returns the root, points the member at it and keeps every displacement.\<close>

definition same_solution :: "nat \<Rightarrow> disjoint_sets \<Rightarrow> disjoint_sets \<Rightarrow> bool" where
  "same_solution n s s' \<longleftrightarrow> (\<forall>u<n. \<forall>r d. located s' u r d \<longleftrightarrow> located s u r d)"

definition flattens :: "nat \<Rightarrow> disjoint_sets \<Rightarrow> disjoint_sets \<Rightarrow> bool" where
  "flattens n s s' \<longleftrightarrow> (\<forall>u<n. parents s' ! u = parents s ! u \<or> (\<exists>d. located s u (parents s' ! u) d))"

lemma find_set_path:
  assumes ok: "sets_ok n s"
  shows "path_to s v r d k \<Longrightarrow> v < n \<Longrightarrow>
    \<exists>s'. find_set s v = Some (r, s') \<and> sets_ok n s' \<and> same_solution n s s' \<and> flattens n s s' \<and> parents s' ! v = r
      \<and> (\<forall>u<n. \<forall>r' d' k'. path_to s u r' d' k' \<and> k < k' \<longrightarrow>
           parents s' ! u = parents s ! u \<and> set_offsets s' ! u = set_offsets s ! u)"
proof (induction rule: path_to.induct)
  case (root v)
  then have "find_set s v = Some (v, s)" by (subst find_set.simps) simp
  then show ?case using root ok by (auto simp: same_solution_def flattens_def)
next
  case (step v r d k)
  let ?p = "parents s ! v"
  have p: "?p < n" using ok step.prems by (simp add: sets_ok_def)
  obtain s1 where s1: "find_set s ?p = Some (r, s1)" "sets_ok n s1" "same_solution n s s1" "flattens n s s1" "parents s1 ! ?p = r"
    and frame: "\<forall>u<n. \<forall>r' d' k'. path_to s u r' d' k' \<and> k < k' \<longrightarrow> parents s1 ! u = parents s ! u \<and> set_offsets s1 ! u = set_offsets s ! u"
    using step.IH p by blast
  note v = path_to.step [OF step.hyps]
  have keep: "parents s1 ! v = ?p" "set_offsets s1 ! v = set_offsets s ! v" using frame v step.prems by blast+
  have lp: "located s1 ?p r d" using step.hyps(2) s1(3) p by (auto simp: same_solution_def located_def)
  have off: "set_offsets s1 ! ?p = d"
  proof (cases "?p = r")
    case True
    then have "d = 0" using lp located_root [of s1 r] s1(5) located_unique by metis
    then show ?thesis using True s1(2,5) p by (auto simp: sets_ok_def)
  next
    case False
    then show ?thesis by (rule located_parent [OF lp s1(5)])
  qed
  let ?d = "set_offsets s ! v + d"
  have find: "find_set s v = Some (r, compress v r ?d s1)"
    using step.hyps(1) s1(1) keep(2) off by (subst find_set.simps) (simp add: compress_def Let_def)
  have lv: "located s1 v r ?d" using v s1(3) step.prems by (auto simp: same_solution_def located_def)
  have ok': "sets_ok n (compress v r ?d s1)" by (rule compress_ok [OF s1(2) step.prems lv])
  have same: "same_solution n s (compress v r ?d s1)"
  proof -
    have "located (compress v r ?d s1) u r' d' \<longleftrightarrow> located s1 u r' d'" if "u < n" for u r' d'
      using same_located [OF s1(2) that] compress_located [OF s1(2) step.prems lv] unfolding located_def by blast
    then show ?thesis using s1(3) by (simp add: same_solution_def)
  qed
  have L: "length (parents s1) = n" "length (set_offsets s1) = n" using s1(2) by (simp_all add: sets_ok_def)
  have "flattens n s (compress v r ?d s1)"
    using s1(4) v L step.prems unfolding flattens_def compress_def located_def by (auto simp: nth_list_update)
  moreover have "parents (compress v r ?d s1) ! v = r" using L step.prems by (simp add: compress_def)
  moreover have "parents (compress v r ?d s1) ! u = parents s ! u \<and> set_offsets (compress v r ?d s1) ! u = set_offsets s ! u"
    if "u < n" "path_to s u r' d' k'" "Suc k < k'" for u r' d' k'
  proof -
    have "u \<noteq> v" using path_to_unique [OF that(2), of r ?d "Suc k"] v that(3) by auto
    moreover have "k < k'" using that(3) by simp
    then have "parents s1 ! u = parents s ! u" "set_offsets s1 ! u = set_offsets s ! u" using frame that(1,2) by blast+
    ultimately show ?thesis by (simp add: compress_def)
  qed
  ultimately show ?case using find ok' same by blast
qed

lemma find_set_post:
  assumes "sets_ok n s" and "v < n"
  obtains r d s' where "find_set s v = Some (r, s')" "located s v r d" "sets_ok n s'" "same_solution n s s'" "flattens n s s'"
    "parents s' ! v = r"
proof -
  obtain r d k where "path_to s v r d k" using assms by (auto simp: sets_ok_def located_def)
  then show ?thesis using find_set_path [OF assms(1) _ assms(2)] that unfolding located_def by blast
qed

subsection \<open>Solutions\<close>

definition consistent_with :: "nat \<Rightarrow> disjoint_sets \<Rightarrow> (nat \<Rightarrow> int) \<Rightarrow> bool" where
  "consistent_with n s addr \<longleftrightarrow> (\<forall>v<n. \<forall>r d. located s v r d \<longrightarrow> addr v = addr r + d)"

definition attach :: "nat \<Rightarrow> nat \<Rightarrow> int \<Rightarrow> disjoint_sets \<Rightarrow> disjoint_sets" where
  "attach a b x s = s\<lparr>parents := (parents s)[b := a], set_offsets := (set_offsets s)[b := x]\<rparr>"

lemma attach_located:
  assumes "sets_ok n s" and "a < n" and "b < n" and "parents s ! a = a" and "parents s ! b = b" and "a \<noteq> b"
  shows "path_to s u r d k \<Longrightarrow> located (attach a b x s) u (if r = b then a else r) (if r = b then d + x else d)"
proof (induction rule: path_to.induct)
  case (root u)
  have L: "length (parents s) = n" "length (set_offsets s) = n" using assms(1) by (simp_all add: sets_ok_def)
  have a: "parents (attach a b x s) ! a = a" using assms(4,6) by (simp add: attach_def)
  show ?case
  proof (cases "u = b")
    case True
    have "path_to (attach a b x s) (parents (attach a b x s) ! b) a 0 0"
      using path_to.root [OF a] L assms(3) by (simp add: attach_def)
    then have "path_to (attach a b x s) b a (x + 0) (Suc 0)"
      using path_to.step [of "attach a b x s" b a 0 0] L assms(3,6) by (simp add: attach_def)
    then show ?thesis using True by (auto simp: located_def)
  next
    case False
    then have "parents (attach a b x s) ! u = u" using root by (simp add: attach_def)
    then show ?thesis using False by (simp add: located_root)
  qed
next
  case (step u r d k)
  have "u \<noteq> b" using step.hyps(1) assms(5) by auto
  then have u: "parents (attach a b x s) ! u = parents s ! u" "set_offsets (attach a b x s) ! u = set_offsets s ! u"
    by (simp_all add: attach_def)
  from step.IH obtain k' where k': "path_to (attach a b x s) (parents s ! u) (if r = b then a else r) (if r = b then d + x else d) k'"
    unfolding located_def by blast
  have "path_to (attach a b x s) u (if r = b then a else r) (set_offsets s ! u + (if r = b then d + x else d)) (Suc k')"
    using path_to.step [of "attach a b x s" u, unfolded u, OF step.hyps(1) k'] .
  then show ?case unfolding located_def by (cases "r = b") (auto simp: add.assoc)
qed

lemma attach_post:
  assumes "sets_ok n s" and "a < n" and "b < n" and "parents s ! a = a" and "parents s ! b = b" and "a \<noteq> b"
  shows "sets_ok n (attach a b x s)"
    and "consistent_with n (attach a b x s) addr \<longleftrightarrow> consistent_with n s addr \<and> addr b = addr a + x"
proof -
  note loc = attach_located [OF assms, of _ _ _ _ x]
  have L: "length (parents s) = n" "length (set_offsets s) = n" using assms(1) by (simp_all add: sets_ok_def)
  have all: "\<exists>r d. located s u r d" if "u < n" for u using assms(1) that by (simp add: sets_ok_def)
  show "sets_ok n (attach a b x s)"
    unfolding sets_ok_def
  proof (intro conjI allI impI)
    fix u assume u: "u < n"
    then show "parents (attach a b x s) ! u < n"
      using assms(1,2) L by (cases "u = b") (simp_all add: attach_def sets_ok_def)
    show "\<exists>r d. located (attach a b x s) u r d" using all [OF u] loc unfolding located_def by blast
    assume self: "parents (attach a b x s) ! u = u"
    then have "u \<noteq> b" using L assms(3,6) by (auto simp: attach_def)
    then show "set_offsets (attach a b x s) ! u = 0" using self u assms(1) by (simp add: attach_def sets_ok_def)
  qed (simp_all add: L attach_def)
  have b: "located (attach a b x s) b a x" using loc [of b b 0 0] path_to.root [OF assms(5)] by simp
  show "consistent_with n (attach a b x s) addr \<longleftrightarrow> consistent_with n s addr \<and> addr b = addr a + x"
  proof
    assume r: "consistent_with n (attach a b x s) addr"
    then have ba: "addr b = addr a + x" using b assms(3) by (simp add: consistent_with_def)
    moreover have "addr u = addr r' + d" if u: "u < n" and l: "located s u r' d" for u r' d
    proof -
      have "located (attach a b x s) u (if r' = b then a else r') (if r' = b then d + x else d)"
        using l loc unfolding located_def by blast
      then have "addr u = addr (if r' = b then a else r') + (if r' = b then d + x else d)"
        using r u by (simp add: consistent_with_def)
      then show ?thesis using ba by (cases "r' = b") simp_all
    qed
    ultimately show "consistent_with n s addr \<and> addr b = addr a + x" by (simp add: consistent_with_def)
  next
    assume r: "consistent_with n s addr \<and> addr b = addr a + x"
    show "consistent_with n (attach a b x s) addr"
      unfolding consistent_with_def
    proof (intro allI impI)
      fix u r' d assume u: "u < n" and l': "located (attach a b x s) u r' d"
      obtain r0 d0 where l: "located s u r0 d0" using all [OF u] by blast
      then have "located (attach a b x s) u (if r0 = b then a else r0) (if r0 = b then d0 + x else d0)"
        using loc unfolding located_def by blast
      from located_unique [OF this l'] have "r' = (if r0 = b then a else r0)" "d = (if r0 = b then d0 + x else d0)" by auto
      moreover have "addr u = addr r0 + d0" using r l u by (simp add: consistent_with_def)
      ultimately show "addr u = addr r' + d" using r by (cases "r0 = b") simp_all
    qed
  qed
qed

lemma consistent_same:
  "same_solution n s s' \<Longrightarrow> consistent_with n s' addr \<longleftrightarrow> consistent_with n s addr"
  by (simp add: same_solution_def consistent_with_def)

lemma union_offset_post:
  assumes ok: "sets_ok n s" and left: "left < n" and right: "right < n"
  shows "(\<exists>s'. union_offset left right x s = Some (Inr s') \<and> sets_ok n s'
        \<and> (\<forall>addr. consistent_with n s' addr \<longleftrightarrow> consistent_with n s addr \<and> addr left = addr right + x))
    \<or> (union_offset left right x s = Some (Inl (Fail IncompatibleAlias))
        \<and> (\<forall>addr. consistent_with n s addr \<longrightarrow> addr left \<noteq> addr right + x))"
proof -
  obtain a da s1 where f1: "find_set s left = Some (a, s1)" "located s left a da" "sets_ok n s1" "same_solution n s s1" "parents s1 ! left = a"
    by (rule find_set_post [OF ok left])
  obtain b db s2 where f2: "find_set s1 right = Some (b, s2)" "located s1 right b db" "sets_ok n s2" "same_solution n s1 s2"
    "flattens n s1 s2" "parents s2 ! right = b"
    by (rule find_set_post [OF f1(3) right])
  have l: "located s2 left a da" "located s2 right b db" using f1(2,4) f2(2,4) left right by (auto simp: same_solution_def)
  have roots: "parents s2 ! a = a" "parents s2 ! b = b" using l path_to_root by (auto simp: located_def)
  have ab: "a < n" "b < n" using l located_range [OF f2(3)] left right by (auto simp: located_def)
  have off: "set_offsets s2 ! v = d" if "located s2 v r d" "parents s2 ! v = r" "v < n" for v r d
  proof (cases "v = r")
    case True
    then have "d = 0" using located_unique [OF that(1) located_root] that(2) by simp
    then show ?thesis using True that f2(3) by (simp add: sets_ok_def)
  next
    case False
    then show ?thesis by (rule located_parent [OF that(1,2)])
  qed
  have pl: "parents s2 ! left = a"
  proof -
    have "located s1 left a da" using f1(2,4) left by (auto simp: same_solution_def)
    moreover have "parents s2 ! left = parents s1 ! left \<or> (\<exists>d. located s1 left (parents s2 ! left) d)"
      using f2(5) left by (simp add: flattens_def)
    ultimately show ?thesis using f1(5) located_unique by metis
  qed
  have offs: "set_offsets s2 ! left = da" "set_offsets s2 ! right = db"
    by (rule off [OF l(1) pl left], rule off [OF l(2) f2(6) right])
  have same: "consistent_with n s2 addr \<longleftrightarrow> consistent_with n s addr" for addr
    using consistent_same [OF f1(4)] consistent_same [OF f2(4)] by simp
  have eqs: "addr left = addr a + da \<and> addr right = addr b + db" if "consistent_with n s addr" for addr
  proof -
    have "consistent_with n s2 addr" using that same by simp
    then show ?thesis using l left right unfolding consistent_with_def by blast
  qed
  let ?delta = "db + x - da"
  have eq: "union_offset left right x s
      = Some (if a = b then if ?delta \<noteq> 0 then Inl (Fail IncompatibleAlias) else Inr s2 else Inr (attach a b (- ?delta) s2))"
    by (simp add: union_offset_def f1(1) f2(1) offs attach_def Let_def)
  show ?thesis
  proof (cases "a = b")
    case True
    show ?thesis
    proof (cases "?delta = 0")
      case z: True
      have "addr left = addr right + x" if "consistent_with n s addr" for addr using eqs [OF that] True z by (elim conjE) simp
      then show ?thesis using True z f2(3) same unfolding eq by auto
    next
      case z: False
      have "addr left \<noteq> addr right + x" if "consistent_with n s addr" for addr using eqs [OF that] True z by auto
      then show ?thesis using True z unfolding eq by simp
    qed
  next
    case False
    note at = attach_post [OF f2(3) ab roots False, of "- ?delta"]
    have "consistent_with n (attach a b (- ?delta) s2) addr \<longleftrightarrow> consistent_with n s addr \<and> addr left = addr right + x" for addr
      unfolding at(2) same using eqs [of addr] by auto
    then show ?thesis using False at(1) unfolding eq by auto
  qed
qed

lemma sets_new_ok: "sets_ok n (sets_new n)" "consistent_with n (sets_new n) addr"
proof -
  have p: "path_to (sets_new n) v v 0 0" if "v < n" for v using that by (intro path_to.root) (simp add: sets_new_def)
  then show "sets_ok n (sets_new n)" by (auto simp: sets_ok_def located_def sets_new_def)
  show "consistent_with n (sets_new n) addr"
    unfolding consistent_with_def located_def using path_to_unique [OF p] by force
qed

definition satisfies :: "(nat \<Rightarrow> int) \<Rightarrow> (nat \<times> nat \<times> int) list \<Rightarrow> bool" where
  "satisfies addr constraints \<longleftrightarrow> (\<forall>(left, right, x)\<in>set constraints. addr left = addr right + x)"

lemma unions_post:
  "sets_ok n s \<Longrightarrow> \<forall>(left, right, x)\<in>set constraints. left < n \<and> right < n \<Longrightarrow>
   (\<exists>s'. unions constraints s = Some (Inr s') \<and> sets_ok n s'
      \<and> (\<forall>addr. consistent_with n s' addr \<longleftrightarrow> consistent_with n s addr \<and> satisfies addr constraints))
   \<or> (unions constraints s = Some (Inl (Fail IncompatibleAlias))
      \<and> (\<forall>addr. consistent_with n s addr \<longrightarrow> \<not> satisfies addr constraints))"
proof (induction constraints arbitrary: s)
  case Nil
  then show ?case by (simp add: satisfies_def)
next
  case (Cons c rest)
  obtain left right x where c: "c = (left, right, x)" by (cases c)
  have lr: "left < n" "right < n" using Cons.prems(2) c by auto
  from union_offset_post [OF Cons.prems(1) lr, of x] show ?case
  proof (elim disjE exE conjE)
    fix s1 assume s1: "union_offset left right x s = Some (Inr s1)" "sets_ok n s1"
      "\<forall>addr. consistent_with n s1 addr \<longleftrightarrow> consistent_with n s addr \<and> addr left = addr right + x"
    have "\<forall>(left, right, x)\<in>set rest. left < n \<and> right < n" using Cons.prems(2) by simp
    from Cons.IH [OF s1(2) this] show ?thesis using s1 by (auto simp: c satisfies_def)
  next
    assume e: "union_offset left right x s = Some (Inl (Fail IncompatibleAlias))"
      "\<forall>addr. consistent_with n s addr \<longrightarrow> addr left \<noteq> addr right + x"
    then show ?thesis by (auto simp: c satisfies_def)
  qed
qed

subsection \<open>Properties\<close>

text \<open>
  C37: The alias structure is exact: recording constraints between members of a new structure
  always ends. When it succeeds, the addresses that satisfy all constraints are exactly those
  at which every member lies at its recorded displacement from its root, so members are tied
  together by the constraints and nothing else; it fails, with \<open>IncompatibleAlias\<close>, exactly
  when no addresses satisfy the constraints.
\<close>

theorem alias_constraints_are_exact:
  assumes "\<forall>(left, right, x)\<in>set constraints. left < n \<and> right < n"
  shows "if \<exists>addr. satisfies addr constraints
    then \<exists>s. unions constraints (sets_new n) = Some (Inr s) \<and> sets_ok n s
           \<and> (\<forall>addr. satisfies addr constraints \<longleftrightarrow> consistent_with n s addr)
    else unions constraints (sets_new n) = Some (Inl (Fail IncompatibleAlias))"
proof -
  have r: "consistent_with n (sets_new n) addr" for addr by (rule sets_new_ok(2))
  show ?thesis
  proof (cases "\<exists>addr. satisfies addr constraints")
    case True
    then show ?thesis using unions_post [OF sets_new_ok(1) assms] r by auto
  next
    case False
    have "\<exists>addr. consistent_with n s addr" if ok: "sets_ok n s" for s
    proof -
      define addr where "addr v = (if v < n then (THE d. \<exists>r. located s v r d) else 0)" for v
      have a: "addr v = d" if "v < n" "located s v r d" for v r d
        unfolding addr_def using that located_unique by (auto intro!: the_equality)
      have "addr r = 0" if "v < n" "located s v r d" for v r d
      proof -
        have "r < n" "parents s ! r = r" using that located_range [OF ok] path_to_root by (auto simp: located_def)
        then show ?thesis using a located_root by blast
      qed
      then have "consistent_with n s addr" using a by (simp add: consistent_with_def)
      then show ?thesis by blast
    qed
    then show ?thesis using unions_post [OF sets_new_ok(1) assms] r False by auto
  qed
qed

theorem alias_constraints_are_exact_witness:
  "(\<exists>s. unions [(1, 0, -32768), (2, 1, 0), (3, 2, 0), (4, 0, 0)] (sets_new 5) = Some (Inr s))
   \<and> unions [(1, 0, -32768), (2, 1, 0), (3, 2, 0), (4, 0, 0), (0, 3, 0)] (sets_new 5) = Some (Inl (Fail IncompatibleAlias))"
proof -
  have "satisfies (\<lambda>v. if v = 0 \<or> v = 4 then 0 else - 32768) [(1, 0, -32768), (2, 1, 0), (3, 2, 0), (4, 0, 0)]"
    by (simp add: satisfies_def)
  then have "\<exists>addr. satisfies addr [(1, 0, -32768), (2, 1, 0), (3, 2, 0), (4, 0, 0)]" by blast
  moreover have "\<not> (\<exists>addr. satisfies addr [(1, 0, -32768), (2, 1, 0), (3, 2, 0), (4, 0, 0), (0, 3, 0)])"
    by (simp add: satisfies_def)
  ultimately show ?thesis
    using alias_constraints_are_exact [of "[(1, 0, -32768), (2, 1, 0), (3, 2, 0), (4, 0, 0)]" 5]
      alias_constraints_are_exact [of "[(1, 0, -32768), (2, 1, 0), (3, 2, 0), (4, 0, 0), (0, 3, 0)]" 5] by auto
qed

end
