(* ===== verification/LowGraph.thy ===== *)
theory LowGraph
  imports Prelude Storage
begin

text \<open>
  The low-level graph that placement reads (\<open>ipu-codegen/src/low/graph.rs\<close>,
  \<open>low/mod.rs\<close>, \<open>low/storage.rs\<close>): shards of tile storage and their aliases, kernel runs,
  copies, exchange phases and repeats; the projection of the device-wide program to per-tile
  work lists; and the backing location of aliased storage.

  A view is the id of its shard: placement does not read its extents. Provenance and product
  counts are left out. The accesses a kernel makes to its operands
  (\<open>MidOperationKind::access\<close>) are a field of its run. Ids are their indexes.
\<close>

subsection \<open>Graphs\<close>

datatype shard_definition =
    ValueDefinition nat
  | Staging
  | Alias nat
  | WritableAlias nat
  | ShiftedAlias nat int

record block_value =
  block_id :: nat
  block_tile :: nat
  block_storage :: tensor_storage
  block_definition :: shard_definition

datatype memory_operand = OperandOutput nat | OperandInput nat

record storage_access =
  access_alignment :: nat
  access_tail :: nat

record kernel_run =
  run_inputs :: "nat list"
  run_outputs :: "nat list"
  run_distinct :: "memory_operand list list"
  run_access :: "memory_operand \<Rightarrow> storage_access"

record copy_run =
  copy_source :: nat
  copy_destination :: nat
  copy_access :: "storage_access \<times> storage_access"

record logical_exchange =
  exchange_source :: nat
  exchange_destinations :: "nat list"

record repeat_carried =
  carried_initial :: nat
  carried_argument :: nat
  carried_yielded :: nat
  carried_result :: nat

record repeat_invariant =
  invariant_input :: nat
  invariant_argument :: nat

record repeat_iterated =
  iterated_inputs :: "nat list"
  iterated_argument :: nat

record repeat_binding =
  binding_tile :: nat
  carried :: "repeat_carried list"
  invariants :: "repeat_invariant list"
  iterated :: "repeat_iterated list"

text \<open>Work refers to a repeat by its body in the device-wide graph and by an index per tile.\<close>

datatype 'r block_operation =
    ExchangeOp nat
  | CopyOp nat nat
  | ComputeOp nat nat
  | RepeatOp 'r
  | CheckpointOp nat nat

datatype block_repeat = BlockRepeat nat "repeat_binding list" "block_repeat block_operation list"

record tile_work =
  work_tile :: nat
  work_list :: "nat block_operation list"

record repeat_run =
  run_count :: nat
  run_binding :: repeat_binding
  run_body :: tile_work

record tile_graph =
  graph_tile_count :: nat
  requires_finite_scratch :: bool
  shards :: "block_value list"
  exchange_phases :: "logical_exchange list list"
  graph_inputs :: "(nat \<times> bool) list"
  graph_body :: "block_repeat block_operation list"
  kernel_runs :: "kernel_run list"
  local_copies :: "copy_run list"
  value_views :: "nat list list"
  graph_outputs :: "nat list"

record low_graph =
  low_program :: tile_graph
  low_tiles :: "tile_work list"
  repeat_runs :: "repeat_run list"

definition block_class :: "block_value \<Rightarrow> memory_class" where
  "block_class b = memory_class_of (layout_of (storage_format (block_storage b)))"

definition shard_storage_bytes :: "block_value \<Rightarrow> nat storage_result" where
  "shard_storage_bytes b = storage_bytes (block_storage b)"

definition access_default :: storage_access where
  "access_default = \<lparr>access_alignment = 0, access_tail = 0\<rparr>"

definition access_include :: "storage_access \<Rightarrow> storage_access \<Rightarrow> storage_access" where
  "access_include other a =
     \<lparr>access_alignment = max (access_alignment a) (access_alignment other),
      access_tail = max (access_tail a) (access_tail other)\<rparr>"

definition operand_view :: "kernel_run \<Rightarrow> memory_operand \<Rightarrow> nat option" where
  "operand_view run operand =
     (case operand of OperandInput index \<Rightarrow> get (run_inputs run) index | OperandOutput index \<Rightarrow> get (run_outputs run) index)"

text \<open>\<open>KernelRun::accesses\<close>: operand indexes are cut to 16 bits; a run without outputs panics.\<close>

definition run_accesses :: "kernel_run \<Rightarrow> (nat \<times> storage_access) list option" where
  "run_accesses run =
     (if run_outputs run = [] then None
      else Some (map (\<lambda>(operand, view). (view, run_access run operand))
             (map (\<lambda>(i, view). (OperandInput (i mod 2 ^ 16), view)) (enumerate 0 (run_inputs run))
              @ map (\<lambda>(i, view). (OperandOutput (i mod 2 ^ 16), view)) (enumerate 0 (run_outputs run)))))"

definition copy_accesses :: "copy_run \<Rightarrow> (nat \<times> storage_access) list" where
  "copy_accesses c = zip [copy_source c, copy_destination c] [fst (copy_access c), snd (copy_access c)]"

definition bound_shards :: "repeat_binding \<Rightarrow> nat list" where
  "bound_shards b =
     concat (map (\<lambda>c. [carried_initial c, carried_argument c, carried_yielded c, carried_result c]) (carried b))
   @ concat (map (\<lambda>i. [invariant_input i, invariant_argument i]) (invariants b))
   @ concat (map (\<lambda>i. iterated_argument i # iterated_inputs i) (iterated b))"

subsection \<open>Projection to tiles\<close>

definition empty_tiles :: "nat \<Rightarrow> tile_work list" where
  "empty_tiles n = map (\<lambda>tile. \<lparr>work_tile = tile, work_list = []\<rparr>) [0..<n]"

definition push_work :: "nat block_operation \<Rightarrow> tile_work \<Rightarrow> tile_work" where
  "push_work op tile = tile\<lparr>work_list := work_list tile @ [op]\<rparr>"

text \<open>A tile outside the device panics (\<open>None\<close>).\<close>

definition push_tile :: "nat \<Rightarrow> nat block_operation \<Rightarrow> tile_work list \<Rightarrow> tile_work list option" where
  "push_tile tile op tls = (if tile < length tls then Some (tls[tile := push_work op (tls ! tile)]) else None)"

text \<open>Every binding of a repeat becomes a run of its own.\<close>

fun push_bindings ::
  "nat \<Rightarrow> tile_work list \<Rightarrow> repeat_binding list \<Rightarrow> tile_work list \<times> repeat_run list \<Rightarrow> (tile_work list \<times> repeat_run list) option" where
  "push_bindings repetitions body [] st = Some st"
| "push_bindings repetitions body (b # bs) (tls, repeats) =
     Option.bind (get body (binding_tile b)) (\<lambda>work.
     Option.bind (push_tile (binding_tile b) (RepeatOp (length repeats)) tls) (\<lambda>tls'.
     push_bindings repetitions body bs (tls', repeats @ [\<lparr>run_count = repetitions, run_binding = b, run_body = work\<rparr>])))"

function project ::
  "nat \<Rightarrow> bool \<Rightarrow> block_repeat block_operation list \<Rightarrow> tile_work list \<times> repeat_run list
     \<Rightarrow> (tile_work list \<times> repeat_run list) option" where
  "project n checkpoints [] st = Some st"
| "project n checkpoints (ExchangeOp phase # ops) (tls, repeats) =
     project n checkpoints ops (map (push_work (ExchangeOp phase)) tls, repeats)"
| "project n checkpoints (CopyOp tile c # ops) (tls, repeats) =
     Option.bind (push_tile tile (CopyOp tile c) tls) (\<lambda>tls'. project n checkpoints ops (tls', repeats))"
| "project n checkpoints (ComputeOp tile run # ops) (tls, repeats) =
     Option.bind (push_tile tile (ComputeOp tile run) tls) (\<lambda>tls'. project n checkpoints ops (tls', repeats))"
| "project n checkpoints (CheckpointOp operation breakpoint # ops) (tls, repeats) =
     project n checkpoints ops
       (if checkpoints then map (push_work (CheckpointOp operation breakpoint)) tls else tls, repeats)"
| "project n checkpoints (RepeatOp (BlockRepeat repetitions bindings body) # ops) (tls, repeats) =
     Option.bind (project n False body (empty_tiles n, repeats)) (\<lambda>(body_tiles, repeats1).
     Option.bind (push_bindings repetitions body_tiles bindings (tls, repeats1)) (\<lambda>st'.
     project n checkpoints ops st'))"
  by pat_completeness auto
termination
  by (relation "measure (\<lambda>(n, checkpoints, ops, st). size_list (size_block_operation size) ops)") simp_all

definition lower_to_tiles :: "tile_graph \<Rightarrow> bool \<Rightarrow> low_graph option" where
  "lower_to_tiles program checkpoints =
     map_option (\<lambda>(tls, repeats). \<lparr>low_program = program, low_tiles = tls, repeat_runs = repeats\<rparr>)
       (project (graph_tile_count program) checkpoints (graph_body program) (empty_tiles (graph_tile_count program), []))"

subsection \<open>Backing storage\<close>

text \<open>Follow an alias, keeping the byte displacement.\<close>

definition storage_next :: "block_value list \<Rightarrow> nat \<times> int \<Rightarrow> (nat \<times> int) option" where
  "storage_next bs = (\<lambda>(shard, offset).
     case get bs shard of
       None \<Rightarrow> None
     | Some b \<Rightarrow>
         (case block_definition b of
            Alias source \<Rightarrow> Some (source, offset)
          | WritableAlias source \<Rightarrow> Some (source, offset)
          | ShiftedAlias source delta \<Rightarrow> Some (source, offset + delta)
          | _ \<Rightarrow> None))"

text \<open>\<open>successors(..).take(n)\<close>.\<close>

fun chain_from :: "block_value list \<Rightarrow> nat \<Rightarrow> nat \<times> int \<Rightarrow> (nat \<times> int) list" where
  "chain_from bs 0 x = []"
| "chain_from bs (Suc n) x = x # (case storage_next bs x of None \<Rightarrow> [] | Some y \<Rightarrow> chain_from bs n y)"

definition storage_chain :: "block_value list \<Rightarrow> nat \<Rightarrow> (nat \<times> int) list" where
  "storage_chain bs shard = chain_from bs (length bs + 2) (shard, 0)"

definition storage_location :: "block_value list \<Rightarrow> nat \<Rightarrow> nat \<times> int" where
  "storage_location bs shard = last (storage_chain bs shard)"

definition is_alias :: "block_value \<Rightarrow> bool" where
  "is_alias b = (case block_definition b of Alias _ \<Rightarrow> True | WritableAlias _ \<Rightarrow> True | ShiftedAlias _ _ \<Rightarrow> True | _ \<Rightarrow> False)"

definition bind_storage :: "block_value list \<Rightarrow> nat \<Rightarrow> (block_value \<times> nat \<times> int) storage_result" where
  "bind_storage bs shard =
     res_bind (ok_or (get bs shard) (Fail WrongShard)) (\<lambda>b.
     res_bind (guard_res (block_id b \<noteq> shard) (Fail WrongShard)) (\<lambda>_.
     let backing = storage_location bs shard
     in res_bind (ok_or (get bs (fst backing)) (Fail WrongShard)) (\<lambda>root.
        res_bind (guard_res (block_id root \<noteq> fst backing \<or> block_tile root \<noteq> block_tile b \<or> is_alias root) (Fail InvalidView)) (\<lambda>_.
        Inr (b, backing)))))"

datatype tile_address = Absolute nat | RepeatPointer nat int

datatype address_error = UnplacedShard nat | AddressOverflow

definition checked_i64 :: "int \<Rightarrow> int option" where
  "checked_i64 x = (if - (2 ^ 63) \<le> x \<and> x < 2 ^ 63 then Some x else None)"

definition displaced :: "int \<Rightarrow> int \<Rightarrow> nat \<Rightarrow> address_error + int" where
  "displaced base displacement offset =
     ok_or (Option.bind (checked_i64 (base + displacement)) (\<lambda>b. checked_i64 (b + int offset))) AddressOverflow"

definition resolve_address ::
  "block_value list \<Rightarrow> (nat \<rightharpoonup> nat) \<Rightarrow> (nat \<rightharpoonup> tile_address) \<Rightarrow> nat \<Rightarrow> nat \<Rightarrow> address_error + tile_address" where
  "resolve_address bs addresses overrides shard offset =
     (let overridden = find_map (\<lambda>(source, displacement). map_option (\<lambda>base. (base, displacement)) (overrides source))
                         (storage_chain bs shard)
      in res_bind
           (case overridden of
              Some binding \<Rightarrow> Inr binding
            | None \<Rightarrow> res_bind (ok_or (addresses shard) (UnplacedShard shard)) (\<lambda>a. Inr (Absolute a, 0)))
           (\<lambda>(base, displacement).
         case base of
           Absolute a \<Rightarrow>
             res_bind (displaced (int a) displacement offset) (\<lambda>x.
             if 0 \<le> x \<and> x < 2 ^ 32 then Inr (Absolute (nat x)) else Inl AddressOverflow)
         | RepeatPointer index o' \<Rightarrow>
             res_bind (displaced o' displacement offset) (\<lambda>x.
             if - (2 ^ 31) \<le> x \<and> x < 2 ^ 31 then Inr (RepeatPointer index x) else Inl AddressOverflow)))"

end
