(* ===== verification/Projection.thy ===== *)
theory Projection
  imports Prelude LowGraph
begin

text \<open>
  The projection of a device-wide program to tiles (\<open>lower_to_tiles\<close> of \<open>low/mod.rs\<close>) against
  a direct specification: the steps of one tile, with the bodies of its repeats in place. The
  work list of a tile, its repeat indexes looked up, gives exactly those steps; every index
  names an earlier run, so looking up ends; and the projection panics only on a tile outside
  the device.
\<close>

subsection \<open>Steps of a tile\<close>

datatype tile_step = Perform "nat block_operation" | Loop nat repeat_binding "tile_step list"

text \<open>Directly from the device-wide region.\<close>

function device_steps :: "bool \<Rightarrow> nat \<Rightarrow> block_repeat block_operation list \<Rightarrow> tile_step list" where
  "device_steps checkpoints t [] = []"
| "device_steps checkpoints t (ExchangeOp phase # ops) = Perform (ExchangeOp phase) # device_steps checkpoints t ops"
| "device_steps checkpoints t (CopyOp tile c # ops) =
     (if tile = t then [Perform (CopyOp tile c)] else []) @ device_steps checkpoints t ops"
| "device_steps checkpoints t (ComputeOp tile run # ops) =
     (if tile = t then [Perform (ComputeOp tile run)] else []) @ device_steps checkpoints t ops"
| "device_steps checkpoints t (CheckpointOp operation breakpoint # ops) =
     (if checkpoints then [Perform (CheckpointOp operation breakpoint)] else []) @ device_steps checkpoints t ops"
| "device_steps checkpoints t (RepeatOp (BlockRepeat repetitions bindings body) # ops) =
     map (\<lambda>b. Loop repetitions b (device_steps False t body)) (filter (\<lambda>b. binding_tile b = t) bindings) @ device_steps checkpoints t ops"
  by pat_completeness auto
termination
  by (relation "measure (\<lambda>(checkpoints, t, ops). size_list (size_block_operation size) ops)") simp_all

text \<open>From a work list and the runs, with indexes below a bound.\<close>

function run_steps :: "repeat_run list \<Rightarrow> nat \<Rightarrow> nat block_operation list \<Rightarrow> tile_step list option" where
  "run_steps runs n [] = Some []"
| "run_steps runs n (RepeatOp r # rest) =
     (if r < n \<and> r < length runs
      then Option.bind (run_steps runs r (work_list (run_body (runs ! r)))) (\<lambda>body.
           map_option ((#) (Loop (run_count (runs ! r)) (run_binding (runs ! r)) body)) (run_steps runs n rest))
      else None)"
| "run_steps runs n (ExchangeOp phase # rest) = map_option ((#) (Perform (ExchangeOp phase))) (run_steps runs n rest)"
| "run_steps runs n (CopyOp tile c # rest) = map_option ((#) (Perform (CopyOp tile c))) (run_steps runs n rest)"
| "run_steps runs n (ComputeOp tile run # rest) = map_option ((#) (Perform (ComputeOp tile run))) (run_steps runs n rest)"
| "run_steps runs n (CheckpointOp a b # rest) = map_option ((#) (Perform (CheckpointOp a b))) (run_steps runs n rest)"
  by pat_completeness auto
termination
  by (relation "inv_image (less_than <*lex*> less_than) (\<lambda>(runs, n, works). (n, length works))") auto

text \<open>Regions whose tiles are all on the device.\<close>

function on_device :: "nat \<Rightarrow> block_repeat block_operation list \<Rightarrow> bool" where
  "on_device n [] \<longleftrightarrow> True"
| "on_device n (ExchangeOp phase # ops) \<longleftrightarrow> on_device n ops"
| "on_device n (CopyOp tile c # ops) \<longleftrightarrow> tile < n \<and> on_device n ops"
| "on_device n (ComputeOp tile run # ops) \<longleftrightarrow> tile < n \<and> on_device n ops"
| "on_device n (CheckpointOp operation breakpoint # ops) \<longleftrightarrow> on_device n ops"
| "on_device n (RepeatOp (BlockRepeat repetitions bindings body) # ops) \<longleftrightarrow>
     on_device n body \<and> list_all (\<lambda>b. binding_tile b < n) bindings \<and> on_device n ops"
  by pat_completeness auto
termination
  by (relation "measure (\<lambda>(n, ops). size_list (size_block_operation size) ops)") simp_all

subsection \<open>The projection\<close>

definition extends_runs :: "repeat_run list \<Rightarrow> repeat_run list \<Rightarrow> bool" where
  "extends_runs runs runs' \<longleftrightarrow> (\<exists>more. runs' = runs @ more)"

lemma extends_refl: "extends_runs runs runs"
  by (simp add: extends_runs_def)

lemma extends_trans: "extends_runs a b \<Longrightarrow> extends_runs b c \<Longrightarrow> extends_runs a c"
  by (auto simp: extends_runs_def)

lemma extends_snoc: "extends_runs runs (runs @ [r])"
  by (simp add: extends_runs_def)

lemma extends_nth: "extends_runs runs runs' \<Longrightarrow> r < length runs \<Longrightarrow> runs' ! r = runs ! r \<and> r < length runs'"
  by (auto simp: extends_runs_def nth_append)

lemma run_steps_mono:
  "run_steps runs n works = Some steps \<Longrightarrow> extends_runs runs runs' \<Longrightarrow> n \<le> n' \<Longrightarrow> run_steps runs' n' works = Some steps"
proof (induction runs n works arbitrary: n' steps rule: run_steps.induct)
  case (2 runs n r rest)
  then obtain body more where r: "r < n" "r < length runs" and b: "run_steps runs r (work_list (run_body (runs ! r))) = Some body"
    and m: "run_steps runs n rest = Some more" "steps = Loop (run_count (runs ! r)) (run_binding (runs ! r)) body # more"
    by (auto simp: bind_eq_Some_conv split: if_splits)
  have "run_steps runs' r (work_list (run_body (runs ! r))) = Some body" using "2.IH"(1) r b "2.prems"(2) by blast
  moreover have "run_steps runs' n' rest = Some more" using "2.IH"(2) r b m(1) "2.prems"(2,3) by blast
  ultimately show ?case using extends_nth [OF "2.prems"(2) r(2)] r(1) "2.prems"(3) m(2) by simp
qed auto

lemma run_steps_append:
  "run_steps runs n (xs @ ys) = Option.bind (run_steps runs n xs) (\<lambda>a. map_option ((@) a) (run_steps runs n ys))"
proof (induction xs)
  case Nil
  show ?case by (cases "run_steps runs n ys") simp_all
next
  case (Cons x xs)
  show ?case
  proof (cases x)
    case (RepeatOp r)
    show ?thesis unfolding RepeatOp append_Cons run_steps.simps Cons.IH
      by (cases "run_steps runs n ys"; simp add: option.map_comp comp_def split: bind_splits option.splits)
  qed (cases "run_steps runs n xs"; cases "run_steps runs n ys"; simp_all add: Cons.IH)+
qed

text \<open>The steps of every tile so far.\<close>

definition lists_steps :: "nat \<Rightarrow> tile_work list \<times> repeat_run list \<Rightarrow> (nat \<Rightarrow> tile_step list) \<Rightarrow> bool" where
  "lists_steps n st steps \<longleftrightarrow> (case st of (tls, runs) \<Rightarrow> map work_tile tls = [0..<n]
     \<and> (\<forall>t<n. run_steps runs (length runs) (work_list (tls ! t)) = Some (steps t)))"

lemma lists_length: "lists_steps n (tls, runs) steps \<Longrightarrow> length tls = n"
  by (auto simp: lists_steps_def dest: arg_cong [where f = length])

lemma lists_push_all:
  assumes "lists_steps n (tls, runs) steps" and "\<And>r. op \<noteq> RepeatOp r"
  shows "lists_steps n (map (push_work op) tls, runs) (\<lambda>t. steps t @ [Perform op])"
proof -
  have one: "run_steps runs m [op] = Some [Perform op]" for m
  proof (cases op)
    case (RepeatOp r)
    then show ?thesis using assms(2) by blast
  qed simp_all
  show ?thesis
    using assms(1) lists_length [OF assms(1)]
    by (auto simp: lists_steps_def push_work_def run_steps_append one comp_def)
qed

lemma lists_push:
  assumes "lists_steps n (tls, runs) steps" and "tile < n" and "extends_runs runs runs'" and "run_steps runs' (length runs') [op] = Some [s]"
  shows "lists_steps n (tls[tile := push_work op (tls ! tile)], runs') (\<lambda>t. if t = tile then steps t @ [s] else steps t)"
proof -
  have len: "length tls = n" by (rule lists_length [OF assms(1)])
  have le: "length runs \<le> length runs'" using assms(3) by (auto simp: extends_runs_def)
  have old: "run_steps runs' (length runs') (work_list (tls ! t)) = Some (steps t)" if "t < n" for t
    using assms(1) that run_steps_mono [OF _ assms(3) le] by (simp add: lists_steps_def)
  have "map work_tile (tls[tile := push_work op (tls ! tile)]) = map work_tile tls"
    using assms(2) len by (simp add: map_update push_work_def list_update_same_conv)
  then show ?thesis
    using assms(1,2,4) old len by (auto simp: lists_steps_def push_work_def run_steps_append nth_list_update)
qed

lemma lists_same: "lists_steps n st steps \<Longrightarrow> (\<And>t. t < n \<Longrightarrow> steps t = steps' t) \<Longrightarrow> lists_steps n st steps'"
  by (auto simp: lists_steps_def)

lemma push_bindings_steps:
  "push_bindings repetitions body bs (tls, runs) = Some st' \<Longrightarrow> lists_steps n (body, runs0) inner \<Longrightarrow> extends_runs runs0 runs \<Longrightarrow>
   lists_steps n (tls, runs) steps \<Longrightarrow>
   lists_steps n st' (\<lambda>t. steps t @ map (\<lambda>b. Loop repetitions b (inner t)) (filter (\<lambda>b. binding_tile b = t) bs)) \<and> extends_runs runs (snd st')
   \<and> list_all (\<lambda>b. binding_tile b < n) bs"
proof (induction bs arbitrary: tls runs steps)
  case Nil
  then show ?case by (auto simp: extends_refl)
next
  case (Cons b bs)
  let ?tile = "binding_tile b" and ?run = "\<lparr>run_count = repetitions, run_binding = b, run_body = body ! binding_tile b\<rparr>"
  have len: "length body = n" "length tls = n" using Cons.prems(2,4) lists_length by blast+
  have tile: "?tile < n"
    and rest: "push_bindings repetitions body bs (tls[?tile := push_work (RepeatOp (length runs)) (tls ! ?tile)], runs @ [?run]) = Some st'"
    using Cons.prems(1) len by (auto simp: bind_eq_Some_conv push_tile_def split: if_splits)
  have le: "length runs0 \<le> length runs" using Cons.prems(3) by (auto simp: extends_runs_def)
  have "run_steps runs0 (length runs0) (work_list (body ! ?tile)) = Some (inner ?tile)"
    using Cons.prems(2) tile by (simp add: lists_steps_def)
  from run_steps_mono [OF this extends_trans [OF Cons.prems(3) extends_snoc] le]
  have "run_steps (runs @ [?run]) (length (runs @ [?run])) [RepeatOp (length runs)] = Some [Loop repetitions b (inner ?tile)]"
    by simp
  note now = lists_push [OF Cons.prems(4) tile extends_snoc this]
  from Cons.IH [OF rest Cons.prems(2) extends_trans [OF Cons.prems(3) extends_snoc] now]
  have r: "lists_steps n st' (\<lambda>t. (if t = ?tile then steps t @ [Loop repetitions b (inner ?tile)] else steps t)
       @ map (\<lambda>b. Loop repetitions b (inner t)) (filter (\<lambda>b. binding_tile b = t) bs))"
    "extends_runs (runs @ [?run]) (snd st')" "list_all (\<lambda>b. binding_tile b < n) bs" by blast+
  have "lists_steps n st' (\<lambda>t. steps t @ map (\<lambda>b. Loop repetitions b (inner t)) (filter (\<lambda>b. binding_tile b = t) (b # bs)))"
    by (rule lists_same [OF r(1)]) auto
  then show ?case using r(2,3) tile extends_trans [OF extends_snoc r(2)] by simp
qed

lemma empty_tiles_steps: "lists_steps n (empty_tiles n, runs) (\<lambda>_. [])"
  by (simp add: lists_steps_def empty_tiles_def comp_def)

lemma project_steps:
  "project n checkpoints ops st = Some st' \<Longrightarrow> lists_steps n st steps \<Longrightarrow>
   lists_steps n st' (\<lambda>t. steps t @ device_steps checkpoints t ops) \<and> extends_runs (snd st) (snd st') \<and> on_device n ops"
proof (induction n checkpoints ops st arbitrary: steps st' rule: project.induct)
  case (1 n checkpoints st)
  then show ?case by (simp add: extends_refl)
next
  case (2 n checkpoints phase ops tls runs)
  from "2.IH" [OF _ lists_push_all [OF "2.prems"(2), of "ExchangeOp phase"]] "2.prems"(1) show ?case by simp
next
  case (3 n checkpoints tile c ops tls runs)
  then obtain p: "tile < n" "project n checkpoints ops (tls[tile := push_work (CopyOp tile c) (tls ! tile)], runs) = Some st'"
    using lists_length by (auto simp: bind_eq_Some_conv push_tile_def split: if_splits)
  have "push_tile tile (CopyOp tile c) tls = Some (tls[tile := push_work (CopyOp tile c) (tls ! tile)])"
    using p(1) lists_length [OF "3.prems"(2)] by (simp add: push_tile_def)
  note r = "3.IH" [OF this p(2) lists_push [OF "3.prems"(2) p(1) extends_refl, of "CopyOp tile c" "Perform (CopyOp tile c)"]]
  show ?case using r p(1) lists_same [of n st' _ "\<lambda>t. steps t @ device_steps checkpoints t (CopyOp tile c # ops)"] by fastforce
next
  case (4 n checkpoints tile run ops tls runs)
  then obtain p: "tile < n" "project n checkpoints ops (tls[tile := push_work (ComputeOp tile run) (tls ! tile)], runs) = Some st'"
    using lists_length by (auto simp: bind_eq_Some_conv push_tile_def split: if_splits)
  have "push_tile tile (ComputeOp tile run) tls = Some (tls[tile := push_work (ComputeOp tile run) (tls ! tile)])"
    using p(1) lists_length [OF "4.prems"(2)] by (simp add: push_tile_def)
  note r = "4.IH" [OF this p(2) lists_push [OF "4.prems"(2) p(1) extends_refl, of "ComputeOp tile run" "Perform (ComputeOp tile run)"]]
  show ?case using r p(1) lists_same [of n st' _ "\<lambda>t. steps t @ device_steps checkpoints t (ComputeOp tile run # ops)"] by fastforce
next
  case (5 n checkpoints operation breakpoint ops tls runs)
  have "lists_steps n (if checkpoints then map (push_work (CheckpointOp operation breakpoint)) tls else tls, runs)
      (\<lambda>t. steps t @ (if checkpoints then [Perform (CheckpointOp operation breakpoint)] else []))"
    using "5.prems"(2) lists_push_all [OF "5.prems"(2)] by (cases checkpoints) simp_all
  from "5.IH" [OF _ this] "5.prems"(1) show ?case by simp
next
  case (6 n checkpoints repetitions bindings body ops tls runs)
  then obtain bt runs1 st1 where b: "project n False body (empty_tiles n, runs) = Some (bt, runs1)"
    and pb: "push_bindings repetitions bt bindings (tls, runs1) = Some st1" and r: "project n checkpoints ops st1 = Some st'"
    by (auto simp: bind_eq_Some_conv)
  have i: "lists_steps n (bt, runs1) (\<lambda>t. device_steps False t body)" "extends_runs runs runs1" "on_device n body"
    using "6.IH"(1) [OF b empty_tiles_steps] by simp_all
  have le: "length runs \<le> length runs1" using i(2) by (auto simp: extends_runs_def)
  have "lists_steps n (tls, runs1) steps"
    using "6.prems"(2) run_steps_mono [OF _ i(2) le] by (simp add: lists_steps_def)
  note p = push_bindings_steps [OF pb i(1) extends_refl this]
  have "lists_steps n st' (\<lambda>t. (steps t @ map (\<lambda>b. Loop repetitions b (device_steps False t body)) (filter (\<lambda>b. binding_tile b = t) bindings))
      @ device_steps checkpoints t ops) \<and> extends_runs (snd st1) (snd st') \<and> on_device n ops"
    by (rule "6.IH"(2) [OF b _ pb r]) (use p in simp_all)
  then show ?case using p i(2,3) by (auto intro: extends_trans)
qed

lemma push_bindings_total:
  "list_all (\<lambda>b. binding_tile b < n) bs \<Longrightarrow> length body = n \<Longrightarrow> length tls = n \<Longrightarrow>
   \<exists>tls' runs'. push_bindings repetitions body bs (tls, runs) = Some (tls', runs') \<and> length tls' = n"
  by (induction bs arbitrary: tls runs) (simp_all add: push_tile_def get_def)

lemma project_total:
  "on_device n ops \<Longrightarrow> length (fst st) = n \<Longrightarrow>
   \<exists>tls' runs'. project n checkpoints ops st = Some (tls', runs') \<and> length tls' = n"
proof (induction n checkpoints ops st rule: project.induct)
  case (6 n checkpoints repetitions bindings body ops tls runs)
  have on: "on_device n body" "list_all (\<lambda>b. binding_tile b < n) bindings" "on_device n ops" "length tls = n"
    using "6.prems" by simp_all
  obtain bt runs1 where b: "project n False body (empty_tiles n, runs) = Some (bt, runs1)" "length bt = n"
    using "6.IH"(1) on(1) by (auto simp: empty_tiles_def)
  obtain tls2 runs2 where p: "push_bindings repetitions bt bindings (tls, runs1) = Some (tls2, runs2)" "length tls2 = n"
    using push_bindings_total [OF on(2) b(2) on(4)] by blast
  from "6.IH"(2) [OF b(1) refl p(1) on(3)] show ?case using b(1) p by simp
qed (auto simp: push_tile_def)

text \<open>
  C39: The projection to tiles is exact. It succeeds exactly when every tile the program names is on
  the device, and then gives one work list per tile, in order, that performs exactly the steps
  the device-wide program prescribes for that tile: exchanges and, outside repeats, checkpoints on
  every tile, copies and computes on their own tile, repeats on the tiles that bind them with
  their count and that tile's binding and steps, all in program order and at any nesting. Looking up repeat indexes
  ends, since each refers to an earlier run.
\<close>

theorem projection_is_exact:
  "if on_device (graph_tile_count program) (graph_body program)
   then \<exists>g. lower_to_tiles program checkpoints = Some g \<and> low_program g = program
     \<and> map work_tile (low_tiles g) = [0..<graph_tile_count program]
     \<and> map (\<lambda>w. run_steps (repeat_runs g) (length (repeat_runs g)) (work_list w)) (low_tiles g)
         = map (\<lambda>t. Some (device_steps checkpoints t (graph_body program))) [0..<graph_tile_count program]
   else lower_to_tiles program checkpoints = None"
proof -
  let ?n = "graph_tile_count program" and ?body = "graph_body program"
  have steps: "lists_steps ?n st (\<lambda>t. [] @ device_steps checkpoints t ?body) \<and> on_device ?n ?body"
    if "project ?n checkpoints ?body (empty_tiles ?n, []) = Some st" for st
    using project_steps [OF that empty_tiles_steps] by blast
  show ?thesis
  proof (cases "on_device ?n ?body")
    case True
    obtain tls runs where p: "project ?n checkpoints ?body (empty_tiles ?n, []) = Some (tls, runs)"
      using project_total [OF True, of "(empty_tiles ?n, [])" checkpoints] by (auto simp: empty_tiles_def)
    note s = conjunct1 [OF steps [OF p]]
    have "map (\<lambda>w. run_steps runs (length runs) (work_list w)) tls = map (\<lambda>t. Some (device_steps checkpoints t ?body)) [0..<?n]"
      using s lists_length [OF s] by (intro nth_equalityI) (simp_all add: lists_steps_def)
    then show ?thesis using True p s by (auto simp: lower_to_tiles_def lists_steps_def)
  next
    case False
    then have "project ?n checkpoints ?body (empty_tiles ?n, []) = None" using steps by (cases "project ?n checkpoints ?body (empty_tiles ?n, [])") auto
    then show ?thesis using False by (simp add: lower_to_tiles_def)
  qed
qed

end
