(* ===== verification/Allocation.thy ===== *)
theory Allocation
  imports Prelude Placement Aliases LowGraph
begin

text \<open>
  The analysis that turns a low-level graph into allocation requests, and the placement of the
  whole device (\<open>ipu-codegen/src/place/mod.rs\<close>): alias and Repeat constraints, access
  requirements, lifetimes, alias groups and their member offsets, requests per tile, and the
  addresses and strides of the result.

  A \<open>BTreeMap\<close> over roots is a map read in the order of its keys. Indexing out of bounds, a
  failed \<open>expect\<close> and a recursion through the repeat runs that never ends are a panic.
\<close>

subsection \<open>Alias constraints\<close>

record iterated_group =
  group_tile :: nat
  group_shards :: "nat list"
  group_argument :: nat

definition join_panic :: "('e fault + 'a) option \<Rightarrow> 'e fault + 'a" where
  "join_panic r = (case r of None \<Rightarrow> Inl Panic | Some x \<Rightarrow> x)"

definition graph_shards :: "low_graph \<Rightarrow> block_value list" where
  "graph_shards g = shards (low_program g)"

definition checked_union :: "low_graph \<Rightarrow> nat \<Rightarrow> nat \<Rightarrow> disjoint_sets \<Rightarrow> disjoint_sets placement_result" where
  "checked_union g left right sets =
     res_bind (ok_or (get (graph_shards g) left) (Fail (InvalidAlias left))) (\<lambda>l.
     res_bind (ok_or (get (graph_shards g) right) (Fail (InvalidAlias right))) (\<lambda>r.
     res_bind (guard_res (block_tile l \<noteq> block_tile r) (Fail IncompatibleAlias)) (\<lambda>_.
     join_panic (union_offset left right 0 sets))))"

fun union_pairs :: "low_graph \<Rightarrow> (nat \<times> nat) list \<Rightarrow> disjoint_sets \<Rightarrow> disjoint_sets placement_result" where
  "union_pairs g [] sets = Inr sets"
| "union_pairs g ((left, right) # rest) sets = res_bind (checked_union g left right sets) (union_pairs g rest)"

definition fixed_pairs :: "repeat_binding \<Rightarrow> (nat \<times> nat) list" where
  "fixed_pairs b =
     concat (map (\<lambda>c. [(carried_initial c, carried_argument c), (carried_initial c, carried_yielded c),
                       (carried_initial c, carried_result c)]) (carried b))
   @ map (\<lambda>i. (invariant_input i, invariant_argument i)) (invariants b)"

fun iterated_unions ::
  "low_graph \<Rightarrow> nat \<Rightarrow> repeat_iterated list \<Rightarrow> disjoint_sets \<times> iterated_group list
     \<Rightarrow> (disjoint_sets \<times> iterated_group list) placement_result" where
  "iterated_unions g tile [] st = Inr st"
| "iterated_unions g tile (i # rest) (sets, groups) =
     (case iterated_inputs i of
        [] \<Rightarrow> Inl (Fail IteratedStride)
      | first # _ \<Rightarrow>
          res_bind (checked_union g first (iterated_argument i) sets) (\<lambda>sets'.
          iterated_unions g tile rest
            (sets', groups @ [\<lparr>group_tile = tile, group_shards = iterated_inputs i, group_argument = iterated_argument i\<rparr>])))"

definition binding_constraints ::
  "low_graph \<Rightarrow> nat \<Rightarrow> repeat_binding \<Rightarrow> disjoint_sets \<times> iterated_group list
     \<Rightarrow> (disjoint_sets \<times> iterated_group list) placement_result" where
  "binding_constraints g tile b st =
     res_bind (union_pairs g (fixed_pairs b) (fst st)) (\<lambda>sets. iterated_unions g tile (iterated b) (sets, snd st))"

partial_function (option) collect_repeat_constraints ::
  "low_graph \<Rightarrow> nat \<Rightarrow> nat block_operation list \<Rightarrow> disjoint_sets \<times> iterated_group list
     \<Rightarrow> (disjoint_sets \<times> iterated_group list) placement_result option" where
  "collect_repeat_constraints g tile works st =
     (case works of
        [] \<Rightarrow> Some (Inr st)
      | w # rest \<Rightarrow>
          (case w of
             RepeatOp r \<Rightarrow>
               (case get (repeat_runs g) r of
                  None \<Rightarrow> None
                | Some run \<Rightarrow>
                    (case binding_constraints g tile (run_binding run) st of
                       Inl e \<Rightarrow> Some (Inl e)
                     | Inr st1 \<Rightarrow>
                         Option.bind (collect_repeat_constraints g (work_tile (run_body run)) (work_list (run_body run)) st1)
                           (\<lambda>res. case res of Inl e \<Rightarrow> Some (Inl e)
                                    | Inr st2 \<Rightarrow> collect_repeat_constraints g tile rest st2)))
           | _ \<Rightarrow> collect_repeat_constraints g tile rest st))"

text \<open>The target of an alias and the displacement from it.\<close>

definition alias_target :: "block_value \<Rightarrow> (nat \<times> int) option" where
  "alias_target b =
     (case block_definition b of
        Alias target \<Rightarrow> Some (target, 0) | WritableAlias target \<Rightarrow> Some (target, 0)
      | ShiftedAlias source offset \<Rightarrow> Some (source, offset) | _ \<Rightarrow> None)"

fun alias_unions :: "low_graph \<Rightarrow> block_value list \<Rightarrow> disjoint_sets \<Rightarrow> disjoint_sets placement_result" where
  "alias_unions g [] sets = Inr sets"
| "alias_unions g (b # bs) sets =
     (case alias_target b of
        None \<Rightarrow> alias_unions g bs sets
      | Some (target, offset) \<Rightarrow>
          (if (case get (graph_shards g) target of None \<Rightarrow> True | Some other \<Rightarrow> block_tile other \<noteq> block_tile b)
           then Inl (Fail (InvalidAlias target))
           else res_bind (join_panic (union_offset (block_id b) target offset sets)) (alias_unions g bs)))"

fun repeat_unions ::
  "low_graph \<Rightarrow> tile_work list \<Rightarrow> disjoint_sets \<times> iterated_group list \<Rightarrow> (disjoint_sets \<times> iterated_group list) placement_result" where
  "repeat_unions g [] st = Inr st"
| "repeat_unions g (tile # rest) st =
     res_bind (join_panic (collect_repeat_constraints g (work_tile tile) (work_list tile) st)) (repeat_unions g rest)"

subsection \<open>Requirements\<close>

text \<open>\<open>for (index, left) ... for right in &shards[..index]\<close>.\<close>

definition distinct_pairs :: "nat list \<Rightarrow> (nat \<times> nat) list" where
  "distinct_pairs ids = concat (map (\<lambda>(index, left). map (Pair left) (take index ids)) (enumerate 0 ids))"

definition include_accesses :: "(nat \<times> storage_access) list \<Rightarrow> storage_access list \<Rightarrow> storage_access list option" where
  "include_accesses accesses requirements =
     (if list_all (\<lambda>(shard, _). shard < length requirements) accesses
      then Some (foldl (\<lambda>rs (shard, access). rs[shard := access_include access (rs ! shard)]) requirements accesses)
      else None)"

partial_function (option) collect_requirements ::
  "low_graph \<Rightarrow> nat block_operation list \<Rightarrow> storage_access list \<times> (nat \<times> nat) list
     \<Rightarrow> (storage_access list \<times> (nat \<times> nat) list) option" where
  "collect_requirements g works st =
     (case works of
        [] \<Rightarrow> Some st
      | w # rest \<Rightarrow>
          Option.bind
            (case w of
               ComputeOp tile run \<Rightarrow>
                 Option.bind (get (kernel_runs (low_program g)) run) (\<lambda>r.
                 Option.bind (traverse_opt (traverse_opt (operand_view r)) (run_distinct r)) (\<lambda>ids.
                 Option.bind (run_accesses r) (\<lambda>accesses.
                 Option.bind (include_accesses accesses (fst st)) (\<lambda>requirements.
                 Some (requirements, snd st @ concat (map distinct_pairs ids))))))
             | CopyOp tile c \<Rightarrow>
                 Option.bind (get (local_copies (low_program g)) c) (\<lambda>c.
                 Option.bind (include_accesses (copy_accesses c) (fst st)) (\<lambda>requirements.
                 Some (requirements, snd st)))
             | RepeatOp r \<Rightarrow>
                 Option.bind (get (repeat_runs g) r) (\<lambda>run.
                 collect_requirements g (work_list (run_body run)) st)
             | _ \<Rightarrow> Some st)
            (collect_requirements g rest))"

fun tile_requirements ::
  "low_graph \<Rightarrow> tile_work list \<Rightarrow> storage_access list \<times> (nat \<times> nat) list \<Rightarrow> (storage_access list \<times> (nat \<times> nat) list) option" where
  "tile_requirements g [] st = Some st"
| "tile_requirements g (tile # rest) st = Option.bind (collect_requirements g (work_list tile) st) (tile_requirements g rest)"

text \<open>A transfer that stays on its tile reads and receives at once.\<close>

definition loopback_pairs :: "low_graph \<Rightarrow> logical_exchange \<Rightarrow> (nat \<times> nat) list option" where
  "loopback_pairs g x =
     Option.bind (get (graph_shards g) (exchange_source x)) (\<lambda>s.
     map_option concat (traverse_opt (\<lambda>d. map_option
         (\<lambda>b. if block_tile s = block_tile b then [(block_id s, block_id b)] else [])
         (get (graph_shards g) d)) (exchange_destinations x)))"

definition exchange_pairs :: "low_graph \<Rightarrow> (nat \<times> nat) list option" where
  "exchange_pairs g = map_option concat (traverse_opt (loopback_pairs g) (concat (exchange_phases (low_program g))))"

subsection \<open>Lifetimes\<close>

definition lifetime_default :: lifetime where
  "lifetime_default = \<lparr>life_first = 0, life_last = 0, life_seen = False\<rparr>"

definition touch_all :: "nat \<Rightarrow> nat list \<Rightarrow> lifetime list \<Rightarrow> lifetime list option" where
  "touch_all event ids lifetimes =
     (if list_all (\<lambda>i. i < length lifetimes) ids
      then Some (foldl (\<lambda>ls i. ls[i := touch_life event (ls ! i)]) lifetimes ids) else None)"

definition shards_by_tile :: "low_graph \<Rightarrow> nat list \<Rightarrow> nat list list option" where
  "shards_by_tile g ids =
     (if list_all (\<lambda>i. i < length (graph_shards g)
           \<and> block_tile (graph_shards g ! i) < graph_tile_count (low_program g)) ids
      then Some (map (\<lambda>tile. remdups_adj (sort (filter (\<lambda>i. block_tile (graph_shards g ! i) = tile) ids)))
                  [0..<graph_tile_count (low_program g)])
      else None)"

definition exchange_touches :: "low_graph \<Rightarrow> nat list list list option" where
  "exchange_touches g =
     traverse_opt (\<lambda>phase. shards_by_tile g (concat (map (\<lambda>x. exchange_source x # exchange_destinations x) phase)))
       (exchange_phases (low_program g))"

partial_function (option) touch_work ::
  "low_graph \<Rightarrow> nat list list list \<Rightarrow> nat \<Rightarrow> nat block_operation list \<Rightarrow> nat \<times> lifetime list \<Rightarrow> (nat \<times> lifetime list) option" where
  "touch_work g exchanges tile works st =
     (case works of
        [] \<Rightarrow> Some st
      | w # rest \<Rightarrow>
          Option.bind
            (case w of
               ComputeOp _ run \<Rightarrow>
                 Option.bind (get (kernel_runs (low_program g)) run) (\<lambda>r.
                 Option.bind (touch_all (fst st) (run_inputs r @ run_outputs r) (snd st)) (\<lambda>lifetimes.
                 Some (saturating_add 32 (fst st) 1, lifetimes)))
             | CopyOp _ c \<Rightarrow>
                 Option.bind (get (local_copies (low_program g)) c) (\<lambda>c.
                 Option.bind (touch_all (fst st) (map fst (copy_accesses c)) (snd st)) (\<lambda>lifetimes.
                 Some (saturating_add 32 (fst st) 1, lifetimes)))
             | ExchangeOp phase \<Rightarrow>
                 Option.bind (get exchanges phase) (\<lambda>tls.
                 Option.bind (get tls tile) (\<lambda>ids.
                 Option.bind (touch_all (fst st) ids (snd st)) (\<lambda>lifetimes.
                 Some (saturating_add 32 (fst st) 1, lifetimes))))
             | RepeatOp r \<Rightarrow>
                 Option.bind (get (repeat_runs g) r) (\<lambda>run.
                 Option.bind (touch_all (fst st) (bound_shards (run_binding run)) (snd st)) (\<lambda>lifetimes.
                 Option.bind (touch_work g exchanges tile (work_list (run_body run)) (saturating_add 32 (fst st) 1, lifetimes)) (\<lambda>st'.
                 Option.bind (touch_all (fst st') (bound_shards (run_binding run)) (snd st')) (\<lambda>lifetimes.
                 Some (saturating_add 32 (fst st') 1, lifetimes)))))
             | CheckpointOp _ _ \<Rightarrow> Some (saturating_add 32 (fst st) 1, snd st))
            (touch_work g exchanges tile rest))"

fun touch_inputs :: "low_graph \<Rightarrow> (nat \<times> bool) list \<Rightarrow> lifetime list \<Rightarrow> lifetime list option" where
  "touch_inputs g [] lifetimes = Some lifetimes"
| "touch_inputs g ((val, parameter) # rest) lifetimes =
     Option.bind (get (value_views (low_program g)) val) (\<lambda>views.
     Option.bind (touch_all 0 views lifetimes) (\<lambda>lifetimes.
     Option.bind (if parameter then touch_all (2 ^ 32 - 1) views lifetimes else Some lifetimes) (touch_inputs g rest)))"

fun touch_tiles :: "low_graph \<Rightarrow> nat list list list \<Rightarrow> tile_work list \<Rightarrow> lifetime list \<Rightarrow> lifetime list option" where
  "touch_tiles g exchanges [] lifetimes = Some lifetimes"
| "touch_tiles g exchanges (tile # rest) lifetimes =
     Option.bind (touch_work g exchanges (work_tile tile) (work_list tile) (1, lifetimes)) (\<lambda>st.
     touch_tiles g exchanges rest (snd st))"

fun touch_outputs :: "low_graph \<Rightarrow> nat list \<Rightarrow> lifetime list \<Rightarrow> lifetime list option" where
  "touch_outputs g [] lifetimes = Some lifetimes"
| "touch_outputs g (val # rest) lifetimes =
     Option.bind (get (value_views (low_program g)) val) (\<lambda>views.
     Option.bind (touch_all (2 ^ 32 - 1) views lifetimes) (touch_outputs g rest))"

definition collect_lifetimes :: "low_graph \<Rightarrow> lifetime list option" where
  "collect_lifetimes g =
     Option.bind (exchange_touches g) (\<lambda>exchanges.
     Option.bind (touch_inputs g (graph_inputs (low_program g)) (replicate (length (graph_shards g)) lifetime_default)) (\<lambda>lifetimes.
     Option.bind (touch_tiles g exchanges (low_tiles g) lifetimes) (\<lambda>lifetimes.
     Option.bind (touch_outputs g (graph_outputs (low_program g)) lifetimes) (\<lambda>lifetimes.
     Some (map (\<lambda>l. if life_seen l then l else touch_life 0 l) lifetimes)))))"

subsection \<open>Analysis\<close>

record tile_allocations =
  tile_iterated :: "iterated_group list"
  tile_members :: "nat \<rightharpoonup> nat list"

record allocation_analysis =
  analysis_tiles :: "tile_allocations list"
  root_of_member :: "nat list"
  analysis_offsets :: "nat list"
  root_requirements :: "nat \<rightharpoonup> storage_access"
  root_lifetimes :: "nat \<rightharpoonup> lifetime"
  root_conflicts :: "nat \<rightharpoonup> nat set"

fun find_all :: "nat list \<Rightarrow> disjoint_sets \<Rightarrow> (nat list \<times> disjoint_sets) option" where
  "find_all [] sets = Some ([], sets)"
| "find_all (v # vs) sets =
     Option.bind (find_set sets v) (\<lambda>(root, sets).
     Option.bind (find_all vs sets) (\<lambda>(roots, sets). Some (root # roots, sets)))"

text \<open>\<open>entry(root).or_default()\<close> and an update.\<close>

definition map_default :: "'a \<Rightarrow> ('a \<Rightarrow> 'a) \<Rightarrow> nat \<Rightarrow> (nat \<rightharpoonup> 'a) \<Rightarrow> nat \<rightharpoonup> 'a" where
  "map_default x f k m = m(k \<mapsto> f (case m k of None \<Rightarrow> x | Some y \<Rightarrow> y))"

definition combine_by_root :: "'a \<Rightarrow> ('b \<Rightarrow> 'a \<Rightarrow> 'a) \<Rightarrow> nat list \<Rightarrow> 'b list \<Rightarrow> nat \<rightharpoonup> 'a" where
  "combine_by_root x f roots ys = foldl (\<lambda>m (root, y). map_default x (f y) root m) Map.empty (zip roots ys)"

definition members_of :: "nat list \<Rightarrow> nat \<rightharpoonup> nat list" where
  "members_of roots = combine_by_root [] (\<lambda>i ms. ms @ [i]) roots [0..<length roots]"

text \<open>The keys of a map over roots, in order.\<close>

definition ordered_roots :: "nat \<Rightarrow> (nat \<rightharpoonup> 'a) \<Rightarrow> nat list" where
  "ordered_roots n m = filter (\<lambda>r. m r \<noteq> None) [0..<n]"

fun offset_loop :: "storage_access list \<Rightarrow> int list \<Rightarrow> (nat \<times> int) list \<Rightarrow> nat list \<Rightarrow> nat list placement_result" where
  "offset_loop requirements offsets [] acc = Inr acc"
| "offset_loop requirements offsets ((i, minimum) # rest) acc =
     (let x = offsets ! i - minimum
      in if x < 0 \<or> 2 ^ 32 \<le> x then Inl (Fail PlacementOverflow)
         else if \<not> is_multiple_of (nat x) (max (access_alignment (requirements ! i)) 1) then Inl (Fail IncompatibleAlias)
         else offset_loop requirements offsets rest (acc[i := nat x]))"

definition group_minimum :: "int list \<Rightarrow> nat list \<Rightarrow> int" where
  "group_minimum offsets alias_group = (if alias_group = [] then 0 else Min ((!) offsets ` set alias_group))"

definition member_offsets_of :: "storage_access list \<Rightarrow> int list \<Rightarrow> (nat \<rightharpoonup> nat list) \<Rightarrow> nat list placement_result" where
  "member_offsets_of requirements offsets members =
     offset_loop requirements offsets
       (concat (map (\<lambda>root. let alias_group = the (members root) in map (\<lambda>i. (i, group_minimum offsets alias_group)) alias_group)
          (ordered_roots (length offsets) members)))
       (replicate (length offsets) 0)"

text \<open>All members of a alias_group lie on one tile and in one memory class.\<close>

definition alias_groups_ok :: "low_graph \<Rightarrow> (nat \<rightharpoonup> nat list) \<Rightarrow> bool" where
  "alias_groups_ok g members =
     list_all (\<lambda>root. let alias_group = the (members root); first = graph_shards g ! (alias_group ! 0)
        in list_all (\<lambda>i. block_tile (graph_shards g ! i) = block_tile first \<and> block_class (graph_shards g ! i) = block_class first) alias_group)
       (ordered_roots (length (graph_shards g)) members)"

text \<open>Two directed entries for each pair of different roots.\<close>

fun add_conflicts :: "nat list \<Rightarrow> (nat \<times> nat) list \<Rightarrow> (nat \<rightharpoonup> nat set) \<Rightarrow> (nat \<rightharpoonup> nat set) placement_result" where
  "add_conflicts roots [] m = Inr m"
| "add_conflicts roots ((left, right) # rest) m =
     res_bind (or_panic (get roots left)) (\<lambda>l.
     res_bind (or_panic (get roots right)) (\<lambda>r.
     if l = r then Inl (Fail IncompatibleAlias)
     else add_conflicts roots rest (map_default {} (insert l) r (map_default {} (insert r) l m))))"

definition split_by_tile :: "low_graph \<Rightarrow> (nat \<rightharpoonup> nat list) \<Rightarrow> iterated_group list \<Rightarrow> tile_allocations list option" where
  "split_by_tile g members groups =
     (let n = graph_tile_count (low_program g);
          tile_of = (\<lambda>alias_group. block_tile (graph_shards g ! (alias_group ! 0)))
      in if list_all (\<lambda>root. tile_of (the (members root)) < n) (ordered_roots (length (graph_shards g)) members)
            \<and> list_all (\<lambda>alias_group. group_tile alias_group < n) groups
         then Some (map (\<lambda>tile. \<lparr>tile_iterated = filter (\<lambda>alias_group. group_tile alias_group = tile) groups,
                tile_members = (\<lambda>root. case members root of
                    Some alias_group \<Rightarrow> if tile_of alias_group = tile then Some alias_group else None | None \<Rightarrow> None)\<rparr>) [0..<n])
         else None)"

definition analyze_allocations :: "low_graph \<Rightarrow> allocation_analysis placement_result" where
  "analyze_allocations g =
     (let n = length (graph_shards g) in
     res_bind (alias_unions g (graph_shards g) (sets_new n)) (\<lambda>sets.
     res_bind (repeat_unions g (low_tiles g) (sets, [])) (\<lambda>(sets, groups).
     res_bind (or_panic (tile_requirements g (low_tiles g) (replicate n access_default, []))) (\<lambda>(requirements, pairs).
     res_bind (or_panic (exchange_pairs g)) (\<lambda>loopback.
     res_bind (or_panic (find_all [0..<n] sets)) (\<lambda>(requirement_roots, sets).
     res_bind (or_panic (find_all [0..<n] sets)) (\<lambda>(roots, sets).
     let members = members_of roots in
     res_bind (member_offsets_of requirements (set_offsets sets) members) (\<lambda>offsets.
     res_bind (guard_res (\<not> alias_groups_ok g members) (Fail IncompatibleAlias)) (\<lambda>_.
     res_bind (add_conflicts roots (pairs @ loopback) Map.empty) (\<lambda>conflicts.
     res_bind (or_panic (collect_lifetimes g)) (\<lambda>lifetimes.
     res_bind (or_panic (split_by_tile g members groups)) (\<lambda>tls.
     Inr \<lparr>analysis_tiles = tls, root_of_member = roots, analysis_offsets = offsets,
          root_requirements = combine_by_root access_default access_include requirement_roots requirements,
          root_lifetimes = combine_by_root lifetime_default include_life roots lifetimes,
          root_conflicts = conflicts\<rparr>))))))))))))"

subsection \<open>Requests\<close>

definition memory_element_size :: "memory_class \<Rightarrow> nat" where
  "memory_element_size c = (case c of Ipu21Standard \<Rightarrow> TILE_MEMORY_ELEMENT_SIZE | Ipu21Interleaved \<Rightarrow> INTERLEAVED_ELEMENT_SIZE)"

text \<open>\<open>?\<close> on a storage error.\<close>

definition lift_storage :: "'a storage_result \<Rightarrow> 'a placement_result" where
  "lift_storage r = (case r of Inr a \<Rightarrow> Inr a | Inl Panic \<Rightarrow> Inl Panic | Inl (Fail e) \<Rightarrow> Inl (Fail (StorageFailure e)))"

fun allocation_bytes ::
  "low_graph \<Rightarrow> nat list \<Rightarrow> storage_access \<Rightarrow> nat list \<Rightarrow> nat \<Rightarrow> nat placement_result" where
  "allocation_bytes g offsets requirement [] maximum = Inr maximum"
| "allocation_bytes g offsets requirement (i # rest) maximum =
     res_bind (or_panic (get offsets i)) (\<lambda>offset.
     res_bind (or_panic (get (graph_shards g) i)) (\<lambda>b.
     res_bind (lift_storage (shard_storage_bytes b)) (\<lambda>bytes.
     res_bind (ok_or (Option.bind (checked_add 32 offset bytes) (\<lambda>x. checked_add 32 x (access_tail requirement)))
         (Fail PlacementOverflow)) (\<lambda>x.
     allocation_bytes g offsets requirement rest (max maximum x)))))"

fun root_bytes ::
  "low_graph \<Rightarrow> allocation_analysis \<Rightarrow> tile_allocations \<Rightarrow> nat list \<Rightarrow> nat \<Rightarrow> nat placement_result" where
  "root_bytes g an ta [] maximum = Inr maximum"
| "root_bytes g an ta (root # rest) maximum =
     res_bind (or_panic (tile_members ta root)) (\<lambda>ms.
     res_bind (or_panic (root_requirements an root)) (\<lambda>requirement.
     res_bind (allocation_bytes g (analysis_offsets an) requirement ms 0) (\<lambda>bytes.
     root_bytes g an ta rest (max maximum bytes))))"

fun sequence_assignments :: "nat \<Rightarrow> (nat \<times> nat) list \<Rightarrow> (nat \<times> nat) list placement_result" where
  "sequence_assignments stride [] = Inr []"
| "sequence_assignments stride ((index, root) # rest) =
     res_bind (ok_or (try_from 32 index) (Fail PlacementOverflow)) (\<lambda>k.
     res_bind (ok_or (checked_mul 32 stride k) (Fail PlacementOverflow)) (\<lambda>offset.
     res_bind (sequence_assignments stride rest) (\<lambda>xs. Inr ((root, offset) # xs))))"

fun sequence_lifetime :: "allocation_analysis \<Rightarrow> nat list \<Rightarrow> lifetime \<Rightarrow> lifetime placement_result" where
  "sequence_lifetime an [] l = Inr l"
| "sequence_lifetime an (root # rest) l =
     res_bind (or_panic (root_lifetimes an root)) (\<lambda>x. sequence_lifetime an rest (include_life x l))"

text \<open>Members of a sequence that are operands of one access need memory elements of their own.\<close>

definition separate_sequence :: "allocation_analysis \<Rightarrow> nat list \<Rightarrow> bool" where
  "separate_sequence an roots =
     list_ex (\<lambda>root. case root_conflicts an root of
         None \<Rightarrow> False | Some others \<Rightarrow> list_ex (\<lambda>other. other \<in> others) roots) roots"

definition sequence_alignment :: "low_graph \<Rightarrow> allocation_analysis \<Rightarrow> tile_allocations \<Rightarrow> bool \<Rightarrow> nat \<Rightarrow> nat placement_result" where
  "sequence_alignment g an ta separate root =
     res_bind (or_panic (root_requirements an root)) (\<lambda>requirement.
     if separate
     then res_bind (or_panic (tile_members ta root)) (\<lambda>ms.
          res_bind (or_panic (Option.bind (get ms 0) (get (graph_shards g)))) (\<lambda>b.
          Inr (max (access_alignment requirement) (memory_element_size (block_class b)))))
     else Inr (access_alignment requirement))"

definition member_root :: "allocation_analysis \<Rightarrow> nat \<Rightarrow> nat placement_result" where
  "member_root an shard = or_panic (get (root_of_member an) shard)"

definition sequence_request ::
  "low_graph \<Rightarrow> allocation_analysis \<Rightarrow> tile_allocations \<Rightarrow> iterated_group \<Rightarrow> allocation_request placement_result" where
  "sequence_request g an ta gr =
     res_bind (traverse (member_root an) (group_shards gr)) (\<lambda>roots.
     res_bind (or_panic (Option.bind (get (group_shards gr) 0) (get (graph_shards g)))) (\<lambda>first.
     let separate = separate_sequence an roots in
     res_bind (traverse (sequence_alignment g an ta separate) roots) (\<lambda>alignments.
     let algn = max 4 (if alignments = [] then 1 else Max (set alignments)) in
     res_bind (root_bytes g an ta roots 0) (\<lambda>unaligned.
     res_bind (place_align_up unaligned algn) (\<lambda>stride.
     res_bind (ok_or (try_from 32 (length roots)) (Fail PlacementOverflow)) (\<lambda>k.
     res_bind (ok_or (checked_mul 32 stride k) (Fail PlacementOverflow)) (\<lambda>bytes.
     res_bind (sequence_lifetime an roots lifetime_default) (\<lambda>life.
     res_bind (sequence_assignments stride (enumerate 0 roots)) (\<lambda>assignments.
     res_bind (if separate then res_bind (place_align_up stride INTERLEAVED_ELEMENT_SIZE) (\<lambda>x. Inr (Some x)) else Inr None) (\<lambda>region1.
     Inr \<lparr>alloc_auxiliary = None, alloc_class = block_class first, alloc_stride = region1, alloc_lifetime = life,
          alloc_bytes = bytes, alloc_alignment = algn, alloc_assignments = assignments,
          alloc_conflicts = filter (\<lambda>other. other \<notin> set roots)
            (concat (map sorted_list_of_set (List.map_filter (root_conflicts an) roots)))\<rparr>))))))))))"

definition root_request ::
  "low_graph \<Rightarrow> allocation_analysis \<Rightarrow> nat \<Rightarrow> nat list \<Rightarrow> lifetime \<Rightarrow> allocation_request placement_result" where
  "root_request g an root ms life =
     res_bind (or_panic (Option.bind (get ms 0) (get (graph_shards g)))) (\<lambda>representative.
     let requirement = (case root_requirements an root of None \<Rightarrow> access_default | Some x \<Rightarrow> x) in
     res_bind (allocation_bytes g (analysis_offsets an) requirement ms 0) (\<lambda>bytes.
     Inr \<lparr>alloc_auxiliary = None, alloc_class = block_class representative, alloc_stride = None, alloc_lifetime = life,
          alloc_bytes = bytes, alloc_alignment = max (access_alignment requirement) 4, alloc_assignments = [(root, 0)],
          alloc_conflicts = (case root_conflicts an root of None \<Rightarrow> [] | Some others \<Rightarrow> sorted_list_of_set others)\<rparr>))"

definition root_life :: "allocation_analysis \<Rightarrow> nat \<Rightarrow> lifetime" where
  "root_life an root = (case root_lifetimes an root of None \<Rightarrow> lifetime_default | Some l \<Rightarrow> l)"

definition allocation_requests :: "low_graph \<Rightarrow> allocation_analysis \<Rightarrow> tile_allocations \<Rightarrow> allocation_request list placement_result" where
  "allocation_requests g an ta =
     res_bind (traverse (member_root an) (concat (map group_shards (tile_iterated ta)))) (\<lambda>grouped.
     res_bind (guard_res (\<not> distinct grouped) (Fail IteratedOverlap)) (\<lambda>_.
     res_bind (traverse (sequence_request g an ta) (tile_iterated ta)) (\<lambda>sequences.
     res_bind (traverse (\<lambda>root. root_request g an root (the (tile_members ta root)) (root_life an root))
         (filter (\<lambda>root. root \<notin> set grouped \<and> life_seen (root_life an root))
            (ordered_roots (length (graph_shards g)) (tile_members ta)))) (\<lambda>rest.
     Inr (sequences @ rest)))))"

subsection \<open>Placement\<close>

record auxiliary_allocation =
  allocation_name :: string
  allocation_address :: nat
  allocation_size :: nat
  allocation_first :: nat
  allocation_last :: nat

record tile_placement =
  placed_addresses :: "nat \<rightharpoonup> nat"
  placed_strides :: "nat \<rightharpoonup> nat"
  placed_unused :: "(nat \<times> nat) list"
  placed_auxiliary :: "auxiliary_allocation list"

fun check_sequence :: "(nat \<rightharpoonup> nat) \<Rightarrow> nat \<Rightarrow> nat \<Rightarrow> (nat \<times> nat) list \<Rightarrow> unit placement_result" where
  "check_sequence addresses initial stride [] = Inr ()"
| "check_sequence addresses initial stride ((iteration, shard) # rest) =
     res_bind (or_panic (addresses shard)) (\<lambda>a.
     if a \<noteq> initial + stride * iteration then Inl (Fail IteratedStride) else check_sequence addresses initial stride rest)"

definition sequence_stride :: "allocation_analysis \<Rightarrow> arena \<Rightarrow> (nat \<rightharpoonup> nat) \<Rightarrow> iterated_group \<Rightarrow> nat placement_result" where
  "sequence_stride an a addresses gr =
     res_bind (or_panic (addresses (group_argument gr))) (\<lambda>initial.
     res_bind
       (case get (group_shards gr) 1 of
          Some second \<Rightarrow> res_bind (or_panic (addresses second)) (\<lambda>x. ok_or (checked_sub x initial) (Fail IteratedStride))
        | None \<Rightarrow>
            res_bind (or_panic (get (group_shards gr) 0)) (\<lambda>shard.
            res_bind (member_root an shard) (\<lambda>root.
            res_bind (or_panic (root_spans a root)) (\<lambda>(start, end). or_panic (checked_sub end start)))))
       (\<lambda>stride.
     res_bind (guard_res (\<not> is_multiple_of stride 4) (Fail IteratedStride)) (\<lambda>_.
     res_bind (check_sequence addresses initial stride (enumerate 0 (group_shards gr))) (\<lambda>_.
     Inr stride))))"

fun sequence_strides ::
  "allocation_analysis \<Rightarrow> arena \<Rightarrow> (nat \<rightharpoonup> nat) \<Rightarrow> iterated_group list \<Rightarrow> (nat \<rightharpoonup> nat) \<Rightarrow> (nat \<rightharpoonup> nat) placement_result" where
  "sequence_strides an a addresses [] strides = Inr strides"
| "sequence_strides an a addresses (gr # rest) strides =
     res_bind (sequence_stride an a addresses gr) (\<lambda>stride.
     sequence_strides an a addresses rest (strides(group_argument gr \<mapsto> stride)))"

definition place_tile ::
  "low_graph \<Rightarrow> nat \<Rightarrow> (nat \<times> nat) list \<Rightarrow> nat \<Rightarrow> allocation_analysis \<Rightarrow> tile_allocations \<Rightarrow> auxiliary_request list
     \<Rightarrow> tile_placement placement_result" where
  "place_tile g tile available offset an ta auxiliary =
     (let ranges = filter (\<lambda>range. \<not> requires_finite_scratch (low_program g) \<or> range \<noteq> HOST_SCRATCH_RANGE) available in
     res_bind (allocation_requests g an ta) (\<lambda>requests.
     res_bind (allocate_tile tile requests auxiliary (tile_members ta) (analysis_offsets an) (arena_new ranges offset) Map.empty)
       (\<lambda>(a, addresses).
     res_bind (sequence_strides an a addresses (tile_iterated ta) Map.empty) (\<lambda>strides.
     res_bind (traverse (\<lambda>(index, x). res_bind (or_panic (auxiliary_addresses a index)) (\<lambda>address.
         Inr \<lparr>allocation_name = aux_name x, allocation_address = address, allocation_size = aux_bytes x,
              allocation_first = aux_first x, allocation_last = aux_last x\<rparr>)) (enumerate 0 auxiliary)) (\<lambda>allocations.
     Inr \<lparr>placed_addresses = addresses, placed_strides = strides, placed_unused = unused_ranges a,
          placed_auxiliary = allocations\<rparr>)))))"

record device_placement =
  shard_addresses :: "nat \<rightharpoonup> nat"
  sequence_strides_of :: "nat \<rightharpoonup> nat"
  tile_auxiliary_ranges :: "(nat \<times> nat) list list"
  auxiliary_allocations :: "auxiliary_allocation list list"

definition tile_default :: tile_allocations where
  "tile_default = \<lparr>tile_iterated = [], tile_members = Map.empty\<rparr>"

text \<open>The tiles are placed in parallel; with several errors the code returns any one of them.\<close>

definition place_with_auxiliary ::
  "low_graph \<Rightarrow> (nat \<times> nat) list \<Rightarrow> nat \<Rightarrow> auxiliary_request list list \<Rightarrow> device_placement placement_result" where
  "place_with_auxiliary g available offset auxiliary =
     (if list_ex (\<lambda>r. aux_bytes r = 0 \<or> \<not> is_power_of_two (aux_alignment r) \<or> aux_first r > aux_last r) (concat auxiliary)
      then Inl (Fail PlacementOverflow)
      else if INTERLEAVED_ELEMENT_SIZE \<le> offset then Inl (Fail PlacementOverflow)
      else if \<not> available_ok available then Inl (Fail (OutOfTileMemory 0 Ipu21Standard 0))
      else
        res_bind (analyze_allocations g) (\<lambda>an.
        let n = max (graph_tile_count (low_program g)) (length auxiliary);
            tls = analysis_tiles an @ replicate (n - length (analysis_tiles an)) tile_default
        in res_bind (traverse (\<lambda>tile.
               res_bind (ok_or (try_from 16 tile) (Fail PlacementOverflow)) (\<lambda>t.
               place_tile g t available offset an (tls ! tile)
                 (case get auxiliary tile of None \<Rightarrow> [] | Some x \<Rightarrow> x))) [0..<n]) (\<lambda>placed.
           Inr \<lparr>shard_addresses = foldl (++) Map.empty (map placed_addresses placed),
                sequence_strides_of = foldl (++) Map.empty (map placed_strides placed),
                tile_auxiliary_ranges = map placed_unused placed,
                auxiliary_allocations = map placed_auxiliary placed\<rparr>)))"

definition place_with_ranges :: "low_graph \<Rightarrow> (nat \<times> nat) list \<Rightarrow> device_placement placement_result" where
  "place_with_ranges g available = place_with_auxiliary g available 0 []"

definition place :: "low_graph \<Rightarrow> device_placement placement_result" where
  "place g = place_with_ranges g [HOST_SCRATCH_RANGE, (DATA_BASE, APPLICATION_LOAD_LIMIT)]"

end
