(* ===== verification/Analysis.thy ===== *)
theory Analysis
  imports Prelude Allocation
begin

text \<open>
  What the analysis of \<open>Allocation\<close> computes: the alias structure holds exactly the constraints
  that aliases and executed repeats impose, member offsets solve them, requirements and
  lifetimes of a root include those of its members, and conflicts are mutual.
\<close>

subsection \<open>Constraints of a graph\<close>

text \<open>The repeat runs that a work list executes, at any depth.\<close>

inductive runs_in :: "low_graph \<Rightarrow> nat block_operation list \<Rightarrow> repeat_run \<Rightarrow> bool" for g where
  here: "RepeatOp r \<in> set works \<Longrightarrow> get (repeat_runs g) r = Some run \<Longrightarrow> runs_in g works run"
| nested: "RepeatOp r \<in> set works \<Longrightarrow> get (repeat_runs g) r = Some run \<Longrightarrow>
    runs_in g (work_list (run_body run)) run' \<Longrightarrow> runs_in g works run'"

inductive_simps runs_in_unfold: "runs_in g works run"

definition binding_ties :: "repeat_binding \<Rightarrow> (nat \<times> nat) set" where
  "binding_ties b = set (fixed_pairs b) \<union> (\<lambda>i. (hd (iterated_inputs i), iterated_argument i)) ` set (iterated b)"

text \<open>\<open>address(left) = address(right) + displacement\<close>.\<close>

inductive constraint :: "low_graph \<Rightarrow> nat \<Rightarrow> nat \<Rightarrow> int \<Rightarrow> bool" for g where
  of_alias: "b \<in> set (graph_shards g) \<Longrightarrow> alias_target b = Some (target, x) \<Longrightarrow> constraint g (block_id b) target x"
| of_repeat: "tile \<in> set (low_tiles g) \<Longrightarrow> runs_in g (work_list tile) run \<Longrightarrow> (l, r) \<in> binding_ties (run_binding run) \<Longrightarrow>
    constraint g l r 0"

lemma runs_in_Nil: "\<not> runs_in g [] run"
  by (subst runs_in_unfold) simp

lemma runs_in_other: "(\<And>r. w \<noteq> RepeatOp r) \<Longrightarrow> runs_in g (w # rest) run \<longleftrightarrow> runs_in g rest run"
  by (subst (1 2) runs_in_unfold) auto

lemma runs_in_Repeat:
  "get (repeat_runs g) r = Some run \<Longrightarrow>
   runs_in g (RepeatOp r # rest) run' \<longleftrightarrow> run' = run \<or> runs_in g (work_list (run_body run)) run' \<or> runs_in g rest run'"
  by (subst (1 3) runs_in_unfold) auto

text \<open>A structure that records further constraints.\<close>

definition graph_size :: "low_graph \<Rightarrow> nat" where
  "graph_size g = length (graph_shards g)"

definition linked :: "low_graph \<Rightarrow> nat \<Rightarrow> nat \<Rightarrow> bool" where
  "linked g l r \<longleftrightarrow> l < graph_size g \<and> r < graph_size g
     \<and> block_tile (graph_shards g ! l) = block_tile (graph_shards g ! r)"

definition adds :: "low_graph \<Rightarrow> disjoint_sets \<Rightarrow> disjoint_sets \<Rightarrow> (nat \<times> nat \<times> int) set \<Rightarrow> bool" where
  "adds g s s' cs \<longleftrightarrow> sets_ok (graph_size g) s' \<and> (\<forall>(l, r, x)\<in>cs. linked g l r)
     \<and> (\<forall>addr. consistent_with (graph_size g) s' addr
          \<longleftrightarrow> consistent_with (graph_size g) s addr \<and> (\<forall>(l, r, x)\<in>cs. addr l = addr r + x))"

lemma adds_refl: "sets_ok (graph_size g) s \<Longrightarrow> adds g s s {}"
  by (simp add: adds_def)

lemma adds_trans: "adds g s s1 cs \<Longrightarrow> adds g s1 s2 ds \<Longrightarrow> adds g s s2 (cs \<union> ds)"
  unfolding adds_def by (simp add: ball_Un)

lemma adds_ok: "adds g s s' cs \<Longrightarrow> sets_ok (graph_size g) s'"
  by (simp add: adds_def)

definition ties :: "(nat \<times> nat) set \<Rightarrow> (nat \<times> nat \<times> int) set" where
  "ties ps = (\<lambda>(l, r). (l, r, 0)) ` ps"

lemma ties_simps: "ties {} = {}" "ties (insert (l, r) ps) = insert (l, r, 0) (ties ps)" "ties (ps \<union> qs) = ties ps \<union> ties qs"
  by (auto simp: ties_def)

lemma join_panic_Inr: "join_panic r = Inr a \<longleftrightarrow> r = Some (Inr a)"
  by (auto simp: join_panic_def split: option.splits)

lemma union_adds:
  assumes "union_offset l r x s = Some (Inr s')" and "sets_ok (graph_size g) s" and "linked g l r"
  shows "adds g s s' {(l, r, x)}"
  using union_offset_post [OF assms(2), of l r x] assms(1,3) by (auto simp: linked_def adds_def)

lemma checked_union_adds:
  assumes "checked_union g l r s = Inr s'" and "sets_ok (graph_size g) s"
  shows "adds g s s' (ties {(l, r)})"
proof -
  have "union_offset l r 0 s = Some (Inr s')" "linked g l r"
    using assms(1) by (auto simp: checked_union_def res_simps join_panic_Inr get_Some linked_def graph_size_def)
  then show ?thesis using union_adds assms(2) by (simp add: ties_simps)
qed

lemma union_pairs_adds:
  "union_pairs g ps s = Inr s' \<Longrightarrow> sets_ok (graph_size g) s \<Longrightarrow> adds g s s' (ties (set ps))"
proof (induction g ps s rule: union_pairs.induct)
  case (1 g s)
  then show ?case by (simp add: ties_simps adds_refl)
next
  case (2 g l r rest s)
  then obtain s1 where s1: "checked_union g l r s = Inr s1" "union_pairs g rest s1 = Inr s'" by (auto simp: res_simps)
  note a = checked_union_adds [OF s1(1) "2.prems"(2)]
  have "adds g s1 s' (ties (set rest))" using "2.IH" [OF s1(2)] adds_ok [OF a] by simp
  from adds_trans [OF a this] show ?case by (simp add: ties_simps)
qed

definition groups_of :: "repeat_iterated list \<Rightarrow> (nat list \<times> nat) set" where
  "groups_of is = (\<lambda>i. (iterated_inputs i, iterated_argument i)) ` set is"

definition group_key :: "iterated_group \<Rightarrow> nat list \<times> nat" where
  "group_key gr = (group_shards gr, group_argument gr)"

lemma iterated_unions_adds:
  "iterated_unions g tile is (s, groups) = Inr (s', groups') \<Longrightarrow> sets_ok (graph_size g) s \<Longrightarrow>
   adds g s s' (ties ((\<lambda>i. (hd (iterated_inputs i), iterated_argument i)) ` set is))
   \<and> group_key ` set groups' = group_key ` set groups \<union> groups_of is \<and> (\<forall>i\<in>set is. iterated_inputs i \<noteq> [])"
proof (induction "is" arbitrary: s groups)
  case Nil
  then show ?case by (simp add: ties_simps adds_refl groups_of_def)
next
  case (Cons i rest)
  then obtain first more s1 where i: "iterated_inputs i = first # more" and s1: "checked_union g first (iterated_argument i) s = Inr s1"
    "iterated_unions g tile rest (s1, groups @ [\<lparr>group_tile = tile, group_shards = iterated_inputs i, group_argument = iterated_argument i\<rparr>])
      = Inr (s', groups')" by (auto simp: res_simps split: list.splits)
  note a = checked_union_adds [OF s1(1) Cons.prems(2)]
  from Cons.IH [OF s1(2) adds_ok [OF a]] adds_trans [OF a] show ?case
    by (auto simp: ties_simps i groups_of_def group_key_def)
qed

lemma binding_constraints_adds:
  assumes "binding_constraints g tile b (s, groups) = Inr (s', groups')" and "sets_ok (graph_size g) s"
  shows "adds g s s' (ties (binding_ties b))" "group_key ` set groups' = group_key ` set groups \<union> groups_of (iterated b)"
    "\<forall>i\<in>set (iterated b). iterated_inputs i \<noteq> []"
proof -
  obtain s1 where s1: "union_pairs g (fixed_pairs b) s = Inr s1" "iterated_unions g tile (iterated b) (s1, groups) = Inr (s', groups')"
    using assms(1) by (auto simp: binding_constraints_def res_simps)
  note a = union_pairs_adds [OF s1(1) assms(2)]
  note i = iterated_unions_adds [OF s1(2) adds_ok [OF a]]
  show "adds g s s' (ties (binding_ties b))" using adds_trans [OF a] i by (simp add: binding_ties_def ties_simps)
  show "group_key ` set groups' = group_key ` set groups \<union> groups_of (iterated b)" "\<forall>i\<in>set (iterated b). iterated_inputs i \<noteq> []"
    using i by simp_all
qed

text \<open>A work list adds the bindings of every run it executes.\<close>

definition tied_in :: "low_graph \<Rightarrow> nat block_operation list \<Rightarrow> (nat \<times> nat) set" where
  "tied_in g works = (\<Union>run\<in>{run. runs_in g works run}. binding_ties (run_binding run))"

definition groups_in :: "low_graph \<Rightarrow> nat block_operation list \<Rightarrow> (nat list \<times> nat) set" where
  "groups_in g works = (\<Union>run\<in>{run. runs_in g works run}. groups_of (iterated (run_binding run)))"

lemma in_Nil: "tied_in g [] = {}" "groups_in g [] = {}"
  by (simp_all add: tied_in_def groups_in_def runs_in_Nil)

lemma in_other:
  assumes "\<And>r. w \<noteq> RepeatOp r"
  shows "tied_in g (w # rest) = tied_in g rest" "groups_in g (w # rest) = groups_in g rest"
  using runs_in_other [OF assms] by (simp_all add: tied_in_def groups_in_def)

lemma in_Repeat:
  assumes "get (repeat_runs g) r = Some run"
  shows "tied_in g (RepeatOp r # rest) = binding_ties (run_binding run) \<union> tied_in g (work_list (run_body run)) \<union> tied_in g rest"
    "groups_in g (RepeatOp r # rest) = groups_of (iterated (run_binding run)) \<union> groups_in g (work_list (run_body run)) \<union> groups_in g rest"
  using runs_in_Repeat [OF assms] by (auto simp: tied_in_def groups_in_def)

definition records :: "low_graph \<Rightarrow> disjoint_sets \<times> iterated_group list \<Rightarrow> disjoint_sets \<times> iterated_group list \<Rightarrow> (nat \<times> nat) set
    \<Rightarrow> (nat list \<times> nat) set \<Rightarrow> bool" where
  "records g st st' ps gs \<longleftrightarrow> adds g (fst st) (fst st') (ties ps)
     \<and> group_key ` set (snd st') = group_key ` set (snd st) \<union> gs \<and> (\<forall>p\<in>gs. fst p \<noteq> [])"

lemma records_refl: "sets_ok (graph_size g) (fst st) \<Longrightarrow> records g st st {} {}"
  by (simp add: records_def ties_simps adds_refl)

lemma records_trans: "records g st st1 ps gs \<Longrightarrow> records g st1 st2 qs hs \<Longrightarrow> records g st st2 (ps \<union> qs) (gs \<union> hs)"
  unfolding records_def by (auto simp: ties_simps dest: adds_trans)

lemma records_ok: "records g st st' ps gs \<Longrightarrow> sets_ok (graph_size g) (fst st')"
proof -
  assume "records g st st' ps gs"
  then have "adds g (fst st) (fst st') (ties ps)" by (simp only: records_def)
  then show ?thesis by (rule adds_ok)
qed

lemma binding_records:
  assumes "binding_constraints g tile b st = Inr st'" and "sets_ok (graph_size g) (fst st)"
  shows "records g st st' (binding_ties b) (groups_of (iterated b))"
  using binding_constraints_adds [of g tile b "fst st" "snd st" "fst st'" "snd st'"] assms
  by (auto simp: records_def groups_of_def)

lemma collect_records:
  assumes "collect_repeat_constraints g tile works st = Some res"
  shows "\<forall>st'. res = Inr st' \<longrightarrow> sets_ok (graph_size g) (fst st) \<longrightarrow> records g st st' (tied_in g works) (groups_in g works)"
  using assms
proof (induction rule: collect_repeat_constraints.raw_induct [rotated, consumes 1, case_names step])
  case (step collect g tile works st res)
  note IH = step.IH
  show ?case
  proof (intro allI impI)
    fix st' assume res: "res = Inr st'" and ok: "sets_ok (graph_size g) (fst st)"
    show "records g st st' (tied_in g works) (groups_in g works)"
    proof (cases works)
      case Nil
      then show ?thesis using step.hyps res ok by (simp add: in_Nil records_refl)
    next
      case (Cons w rest)
      show ?thesis
      proof (cases "\<exists>r. w = RepeatOp r")
        case True
        then obtain r where w: "w = RepeatOp r" by blast
        obtain run st1 where run: "get (repeat_runs g) r = Some run"
          and st1: "binding_constraints g tile (run_binding run) st = Inr st1"
          using step.hyps res by (auto simp: Cons w split: option.splits sum.splits)
        have "Option.bind (collect g (work_tile (run_body run)) (work_list (run_body run)) st1)
            (\<lambda>res. case res of Inl e \<Rightarrow> Some (Inl e) | Inr st2 \<Rightarrow> collect g tile rest st2) = Some (Inr st')"
          using step.hyps res by (simp add: Cons w run st1)
        then obtain y where y: "collect g (work_tile (run_body run)) (work_list (run_body run)) st1 = Some y"
            "(case y of Inl e \<Rightarrow> Some (Inl e) | Inr st2 \<Rightarrow> collect g tile rest st2) = Some (Inr st')"
          by (auto simp only: bind_eq_Some_conv)
        then obtain st2 where c1: "collect g (work_tile (run_body run)) (work_list (run_body run)) st1 = Some (Inr st2)"
          and c2: "collect g tile rest st2 = Some (Inr st')"
          by (cases y) simp_all
        note b = binding_records [OF st1 ok]
        have n: "records g st1 st2 (tied_in g (work_list (run_body run))) (groups_in g (work_list (run_body run)))"
          using IH [OF c1] records_ok [OF b] by blast
        have "records g st2 st' (tied_in g rest) (groups_in g rest)" using IH [OF c2] records_ok [OF n] by blast
        from records_trans [OF records_trans [OF b n] this] show ?thesis by (simp add: Cons w in_Repeat [OF run])
      next
        case False
        then have "collect g tile rest st = Some (Inr st')" using step.hyps res by (cases w) (simp_all add: Cons)
        then have "records g st st' (tied_in g rest) (groups_in g rest)" using IH ok by blast
        moreover have "\<And>r. w \<noteq> RepeatOp r" using False by blast
        ultimately show ?thesis by (simp add: Cons in_other)
      qed
    qed
  qed
qed

lemma repeat_unions_records:
  "repeat_unions g tls st = Inr st' \<Longrightarrow> sets_ok (graph_size g) (fst st) \<Longrightarrow>
   records g st st' (\<Union>tile\<in>set tls. tied_in g (work_list tile)) (\<Union>tile\<in>set tls. groups_in g (work_list tile))"
proof (induction tls arbitrary: st)
  case Nil
  then show ?case by (simp add: records_refl)
next
  case (Cons tile tls)
  then obtain st1 where c: "collect_repeat_constraints g (work_tile tile) (work_list tile) st = Some (Inr st1)"
    and r: "repeat_unions g tls st1 = Inr st'" by (auto simp: res_simps join_panic_Inr)
  have s: "records g st st1 (tied_in g (work_list tile)) (groups_in g (work_list tile))"
    using collect_records [OF c] Cons.prems(2) by blast
  from records_trans [OF s Cons.IH [OF r records_ok [OF s]]] show ?case by simp
qed

lemma alias_unions_adds:
  "alias_unions g bs s = Inr s' \<Longrightarrow> sets_ok (graph_size g) s \<Longrightarrow> set bs \<subseteq> set (graph_shards g) \<Longrightarrow>
   \<forall>b\<in>set (graph_shards g). block_id b < graph_size g \<and> graph_shards g ! block_id b = b \<Longrightarrow>
   adds g s s' {(l, r, x). \<exists>b\<in>set bs. l = block_id b \<and> alias_target b = Some (r, x)}"
proof (induction bs arbitrary: s)
  case Nil
  then show ?case by (simp add: adds_refl)
next
  case (Cons b bs)
  show ?case
  proof (cases "alias_target b")
    case None
    then show ?thesis using Cons by simp
  next
    case (Some p)
    obtain target x where p: "p = (target, x)" by (cases p)
    have b: "block_id b < graph_size g" "graph_shards g ! block_id b = b" using Cons.prems(3,4) by simp_all
    obtain s1 where u: "union_offset (block_id b) target x s = Some (Inr s1)" and r: "alias_unions g bs s1 = Inr s'"
      and o': "\<exists>other. get (graph_shards g) target = Some other \<and> block_tile other = block_tile b"
      using Cons.prems(1) by (auto simp: Some p res_simps join_panic_Inr split: if_splits option.splits)
    have "linked g (block_id b) target" using o' b by (auto simp: linked_def get_Some graph_size_def)
    note a = union_adds [OF u Cons.prems(2) this]
    have e: "{(l, r, x). \<exists>b'\<in>set (b # bs). l = block_id b' \<and> alias_target b' = Some (r, x)}
      = {(block_id b, target, x)} \<union> {(l, r, x). \<exists>b\<in>set bs. l = block_id b \<and> alias_target b = Some (r, x)}"
      using Some p by auto
    have "adds g s1 s' {(l, r, x). \<exists>b\<in>set bs. l = block_id b \<and> alias_target b = Some (r, x)}"
      by (rule Cons.IH [OF r adds_ok [OF a]]) (use Cons.prems(3,4) in auto)
    from adds_trans [OF a this] show ?thesis unfolding e .
  qed
qed

definition ids_ok :: "low_graph \<Rightarrow> bool" where
  "ids_ok g \<longleftrightarrow> map block_id (graph_shards g) = [0..<length (graph_shards g)]"

lemma ids_nth: "ids_ok g \<Longrightarrow> i < graph_size g \<Longrightarrow> block_id (graph_shards g ! i) = i"
  unfolding ids_ok_def graph_size_def by (metis add_0 length_map map_nth nth_map nth_upt)

lemma ids_member:
  "ids_ok g \<Longrightarrow> \<forall>b\<in>set (graph_shards g). block_id b < graph_size g \<and> graph_shards g ! block_id b = b"
  using ids_nth by (metis graph_size_def in_set_conv_nth)

definition constraint_set :: "low_graph \<Rightarrow> (nat \<times> nat \<times> int) set" where
  "constraint_set g = {(l, r, x). constraint g l r x}"

text \<open>The groups of sequences of a graph.\<close>

definition graph_groups :: "low_graph \<Rightarrow> (nat list \<times> nat) set" where
  "graph_groups g = (\<Union>tile\<in>set (low_tiles g). groups_in g (work_list tile))"

lemma constraint_iff:
  "constraint g l r x \<longleftrightarrow> (\<exists>b\<in>set (graph_shards g). l = block_id b \<and> alias_target b = Some (r, x))
     \<or> (x = 0 \<and> (\<exists>tile\<in>set (low_tiles g). (l, r) \<in> tied_in g (work_list tile)))"
  by (subst constraint.simps) (auto simp: tied_in_def)

lemma constraints_recorded:
  assumes "alias_unions g (graph_shards g) (sets_new (graph_size g)) = Inr s1" and "repeat_unions g (low_tiles g) (s1, []) = Inr (s, groups)"
    and "ids_ok g"
  shows "sets_ok (graph_size g) s" "\<And>l r x. constraint g l r x \<Longrightarrow> linked g l r"
    "\<And>addr. consistent_with (graph_size g) s addr \<longleftrightarrow> (\<forall>l r x. constraint g l r x \<longrightarrow> addr l = addr r + x)"
    "group_key ` set groups = graph_groups g" "\<And>p. p \<in> graph_groups g \<Longrightarrow> fst p \<noteq> [] \<and> constraint g (hd (fst p)) (snd p) 0"
proof -
  have new: "sets_ok (graph_size g) (sets_new (graph_size g))" by (rule sets_new_ok)
  note a = alias_unions_adds [OF assms(1) new subset_refl ids_member [OF assms(3)]]
  have r: "records g (s1, []) (s, groups) (\<Union>tile\<in>set (low_tiles g). tied_in g (work_list tile)) (graph_groups g)"
    unfolding graph_groups_def by (rule repeat_unions_records [OF assms(2)]) (simp add: adds_ok [OF a])
  then have "adds g s1 s (ties (\<Union>tile\<in>set (low_tiles g). tied_in g (work_list tile)))" by (simp add: records_def)
  from adds_trans [OF a this] have all: "adds g (sets_new (graph_size g)) s (constraint_set g)"
    by (rule back_subst [of "adds g (sets_new (graph_size g)) s"])
      (auto simp: constraint_set_def ties_def constraint_iff)
  then show "sets_ok (graph_size g) s" "\<And>l r x. constraint g l r x \<Longrightarrow> linked g l r"
    by (auto simp: adds_def constraint_set_def)
  show "consistent_with (graph_size g) s addr \<longleftrightarrow> (\<forall>l r x. constraint g l r x \<longrightarrow> addr l = addr r + x)" for addr
    using all sets_new_ok(2) by (auto simp: adds_def constraint_set_def)
  show "group_key ` set groups = graph_groups g" using r by (simp add: records_def)
  show "fst p \<noteq> [] \<and> constraint g (hd (fst p)) (snd p) 0" if p: "p \<in> graph_groups g" for p
  proof
    show "fst p \<noteq> []" using r p by (auto simp: records_def)
    from p obtain tile run i where "tile \<in> set (low_tiles g)" "runs_in g (work_list tile) run"
      "i \<in> set (iterated (run_binding run))" "p = (iterated_inputs i, iterated_argument i)"
      by (auto simp: graph_groups_def groups_in_def groups_of_def)
    then show "constraint g (hd (fst p)) (snd p) 0" by (auto intro!: of_repeat simp: binding_ties_def)
  qed
qed

subsection \<open>Roots and offsets\<close>

lemma flattens_refl: "flattens n s s"
  by (simp add: flattens_def)

lemma flattens_trans: "flattens n s s1 \<Longrightarrow> flattens n s1 s2 \<Longrightarrow> same_solution n s s1 \<Longrightarrow> flattens n s s2"
  unfolding flattens_def same_solution_def by metis

lemma same_solution_trans: "same_solution n s s1 \<Longrightarrow> same_solution n s1 s2 \<Longrightarrow> same_solution n s s2"
  by (simp add: same_solution_def)

lemma find_all_post:
  "find_all vs s = Some (roots, s') \<Longrightarrow> sets_ok n s \<Longrightarrow> \<forall>v\<in>set vs. v < n \<Longrightarrow>
   sets_ok n s' \<and> same_solution n s s' \<and> flattens n s s' \<and> length roots = length vs
   \<and> (\<forall>i<length vs. (\<exists>d. located s (vs ! i) (roots ! i) d) \<and> parents s' ! (vs ! i) = roots ! i)"
proof (induction vs arbitrary: s roots)
  case Nil
  then show ?case by (simp add: same_solution_def flattens_refl)
next
  case (Cons v vs)
  have v: "v < n" using Cons.prems(3) by simp
  obtain r d s1 where f: "find_set s v = Some (r, s1)" "located s v r d" "sets_ok n s1" "same_solution n s s1" "flattens n s s1" "parents s1 ! v = r"
    by (rule find_set_post [OF Cons.prems(2) v])
  obtain rs where rs: "find_all vs s1 = Some (rs, s')" "roots = r # rs"
    using Cons.prems(1) f(1) by (auto simp: bind_eq_Some_conv)
  have IH: "sets_ok n s'" "same_solution n s1 s'" "flattens n s1 s'" "length rs = length vs"
    "\<And>i. i < length vs \<Longrightarrow> (\<exists>d. located s1 (vs ! i) (rs ! i) d) \<and> parents s' ! (vs ! i) = rs ! i"
    using Cons.IH [OF rs(1) f(3)] Cons.prems(3) by simp_all
  have "parents s' ! v = r"
  proof (cases "parents s' ! v = parents s1 ! v")
    case False
    then obtain d' where "located s1 v (parents s' ! v) d'" using IH(3) v unfolding flattens_def by blast
    then have "located s v (parents s' ! v) d'" using f(4) v by (simp add: same_solution_def)
    then show ?thesis using located_unique f(2) by blast
  qed (simp add: f(6))
  moreover have "\<exists>d. located s (vs ! i) (rs ! i) d" if "i < length vs" for i
    using IH(5) [OF that] f(4) Cons.prems(3) that by (simp add: same_solution_def)
  ultimately have "(\<exists>d. located s ((v # vs) ! i) (roots ! i) d) \<and> parents s' ! ((v # vs) ! i) = roots ! i" if "i < length (v # vs)" for i
    using that f(2) IH(5) by (cases i) (auto simp: rs(2))
  then show ?case
    using IH(1,4) same_solution_trans [OF f(4) IH(2)] flattens_trans [OF f(5) IH(3) f(4)] by (simp add: rs(2))
qed

definition rooted :: "nat \<Rightarrow> disjoint_sets \<Rightarrow> nat list \<Rightarrow> int list \<Rightarrow> bool" where
  "rooted n s roots offs \<longleftrightarrow> length roots = n
     \<and> (\<forall>v<n. located s v (roots ! v) (offs ! v) \<and> roots ! v < n \<and> roots ! (roots ! v) = roots ! v \<and> offs ! (roots ! v) = 0)"

lemma find_all_rooted:
  assumes "find_all [0..<n] s = Some (roots1, s1)" and "find_all [0..<n] s1 = Some (roots, s2)" and ok: "sets_ok n s"
  shows "roots1 = roots" "rooted n s roots (set_offsets s2)" "length (set_offsets s2) = n"
proof -
  have a: "sets_ok n s1" "same_solution n s s1" "length roots1 = n" "\<And>i. i < n \<Longrightarrow> \<exists>d. located s i (roots1 ! i) d"
    using find_all_post [OF assms(1) ok] by simp_all
  have b: "sets_ok n s2" "same_solution n s1 s2" "length roots = n" "\<And>i. i < n \<Longrightarrow> \<exists>d. located s1 i (roots ! i) d"
    "\<And>i. i < n \<Longrightarrow> parents s2 ! i = roots ! i"
    using find_all_post [OF assms(2) a(1)] by simp_all
  have b': "\<exists>d. located s i (roots ! i) d" if "i < n" for i using b(4) a(2) that by (simp add: same_solution_def)
  show "roots1 = roots"
  proof (rule nth_equalityI)
    fix i assume "i < length roots1"
    then show "roots1 ! i = roots ! i" using a(3,4) b' located_unique by metis
  qed (simp add: a(3) b(3))
  show "length (set_offsets s2) = n" using b(1) by (simp add: sets_ok_def)
  have same: "located s2 v r d \<longleftrightarrow> located s v r d" if "v < n" for v r d
    using that a(2) b(2) by (simp add: same_solution_def)
  have off: "located s v (roots ! v) (set_offsets s2 ! v) \<and> roots ! v < n \<and> roots ! (roots ! v) = roots ! v \<and> set_offsets s2 ! (roots ! v) = 0"
    if v: "v < n" for v
  proof -
    obtain d where d: "located s2 v (roots ! v) d" using b' [OF v] same v by blast
    have r: "roots ! v < n" "parents s2 ! (roots ! v) = roots ! v"
      using d located_range [OF b(1) _ v] path_to_root by (auto simp: located_def)
    have z: "set_offsets s2 ! (roots ! v) = 0" using r b(1) by (simp add: sets_ok_def)
    have "set_offsets s2 ! v = d"
    proof (cases "v = roots ! v")
      case True
      then have "d = 0" using d located_root [OF r(2)] located_unique by metis
      then show ?thesis using True z by metis
    next
      case False
      then show ?thesis by (rule located_parent [OF d b(5) [OF v]])
    qed
    then show ?thesis using d same [OF v] r z b(5) [OF r(1)] by simp
  qed
  then show "rooted n s roots (set_offsets s2)" by (simp add: rooted_def b(3))
qed

text \<open>Any choice of an address for each root is a solution.\<close>

lemma rooted_consistent:
  assumes "rooted n s roots offs"
  shows "consistent_with n s (\<lambda>v. base (roots ! v) + offs ! v)"
  unfolding consistent_with_def
proof (intro allI impI)
  fix v r d assume v: "v < n" and l: "located s v r d"
  have "r = roots ! v \<and> d = offs ! v" using assms v l located_unique unfolding rooted_def by blast
  then show "base (roots ! v) + offs ! v = base (roots ! r) + offs ! r + d" using assms v by (simp add: rooted_def)
qed

text \<open>Shards tied by constraints, in either direction.\<close>

definition tied :: "low_graph \<Rightarrow> (nat \<times> nat) set" where
  "tied g = {(l, r). \<exists>x. constraint g l r x \<or> constraint g r l x}\<^sup>*"

lemma tied_step: "constraint g l r x \<Longrightarrow> (i, l) \<in> tied g \<longleftrightarrow> (i, r) \<in> tied g"
  unfolding tied_def by (auto intro: rtrancl_into_rtrancl)

lemma same_root_tied:
  assumes "rooted n s roots offs" and "i < n" "j < n" and "roots ! i = roots ! j"
    and exact: "\<And>addr. consistent_with n s addr \<longleftrightarrow> (\<forall>l r x. constraint g l r x \<longrightarrow> addr l = addr r + x)"
  shows "(i, j) \<in> tied g"
proof -
  let ?addr = "\<lambda>v. 0 + offs ! v" and ?up = "\<lambda>v. if (i, v) \<in> tied g then 1 else (0::int)"
  have "\<forall>l r x. constraint g l r x \<longrightarrow> ?addr l = ?addr r + x"
    using rooted_consistent [OF assms(1), of "\<lambda>_. 0"] unfolding exact .
  then have "consistent_with n s (\<lambda>v. offs ! v + ?up v)" unfolding exact using tied_step by auto
  then have c: "offs ! v + ?up v = offs ! (roots ! v) + ?up (roots ! v) + offs ! v" if "v < n" for v
    using assms(1) that unfolding consistent_with_def rooted_def by blast
  have z: "offs ! (roots ! v) = 0" if "v < n" for v using assms(1) that by (simp add: rooted_def)
  have "?up i = ?up j" using c [OF assms(2)] c [OF assms(3)] z [OF assms(2)] z [OF assms(3)] assms(4) by simp
  moreover have "(i, i) \<in> tied g" by (simp add: tied_def)
  ultimately show ?thesis by (simp split: if_splits)
qed

lemma constraint_same_root:
  assumes "rooted n s roots offs" and "constraint g l r x"
    and exact: "\<And>addr. consistent_with n s addr \<longleftrightarrow> (\<forall>l r x. constraint g l r x \<longrightarrow> addr l = addr r + x)"
  shows "roots ! l = roots ! r" "offs ! l = offs ! r + x"
proof -
  have c: "base (roots ! l) + offs ! l = base (roots ! r) + offs ! r + x" for base
    using rooted_consistent [OF assms(1), of base] assms(2) unfolding exact by blast
  show "offs ! l = offs ! r + x" using c [of "\<lambda>_. 0"] by simp
  then show "roots ! l = roots ! r" using c [of int] by simp
qed

subsection \<open>Maps over roots\<close>

lemma combine_loop:
  "foldl (\<lambda>m (root, y). map_default x (f y) root m) m ps r
    = (let ys = map snd (filter (\<lambda>p. fst p = r) ps)
       in if ys = [] then m r else Some (fold f ys (case m r of None \<Rightarrow> x | Some z \<Rightarrow> z)))"
proof (induction ps arbitrary: m)
  case (Cons p ps)
  obtain root y where p: "p = (root, y)" by (cases p)
  show ?case using Cons.IH by (cases "root = r") (simp_all add: p map_default_def Let_def)
qed simp

lemma zip_upt: "zip xs [0..<length xs] = map (\<lambda>i. (xs ! i, i)) [0..<length xs]"
  by (rule nth_equalityI) simp_all

definition members_with :: "nat list \<Rightarrow> nat \<Rightarrow> nat list" where
  "members_with roots r = filter (\<lambda>i. roots ! i = r) [0..<length roots]"

lemma set_members_with: "set (members_with roots r) = {i. i < length roots \<and> roots ! i = r}"
  by (auto simp: members_with_def)

lemma combine_by_root_eq:
  assumes "length ys = length roots"
  shows "combine_by_root x f roots ys r
    = (if r \<in> set roots then Some (fold f (map ((!) ys) (members_with roots r)) x) else None)"
proof -
  have z: "zip roots ys = map (\<lambda>i. (roots ! i, ys ! i)) [0..<length roots]"
    using assms by (intro nth_equalityI) simp_all
  have f: "map snd (filter (\<lambda>p. fst p = r) (zip roots ys)) = map ((!) ys) (members_with roots r)"
    by (simp add: z filter_map comp_def members_with_def)
  have e: "members_with roots r = [] \<longleftrightarrow> r \<notin> set roots"
    using set_members_with [of roots r] by (auto simp: in_set_conv_nth set_empty [symmetric] simp del: set_empty)
  show ?thesis unfolding combine_by_root_def combine_loop Let_def f using e by simp
qed

lemma members_of_eq: "members_of roots r = (if r \<in> set roots then Some (members_with roots r) else None)"
proof -
  have "fold (\<lambda>i ms. ms @ [i]) ys zs = zs @ ys" for ys zs :: "nat list" by (induction ys arbitrary: zs) simp_all
  moreover have "map ((!) [0..<length roots]) (members_with roots r) = members_with roots r"
    by (rule map_idI) (simp add: members_with_def)
  ultimately show ?thesis unfolding members_of_def by (simp add: combine_by_root_eq)
qed

lemma ordered_roots_set: "set (ordered_roots n m) = {r. r < n \<and> m r \<noteq> None}"
  by (auto simp: ordered_roots_def)

lemma offset_loop_Inr:
  "offset_loop requirements offs ps acc = Inr out \<Longrightarrow> \<forall>p\<in>set ps. fst p < length acc \<and> snd p = least (fst p) \<Longrightarrow>
   length out = length acc \<and> (\<forall>i. i \<notin> fst ` set ps \<longrightarrow> out ! i = acc ! i)
   \<and> (\<forall>i\<in>fst ` set ps. int (out ! i) = offs ! i - least i)"
proof (induction ps arbitrary: acc)
  case (Cons p ps)
  obtain i m where p: "p = (i, m)" by (cases p)
  have i: "i < length acc" "m = least i" using Cons.prems(2) by (simp_all add: p)
  obtain r: "0 \<le> offs ! i - m" "offset_loop requirements offs ps (acc[i := nat (offs ! i - m)]) = Inr out"
    using Cons.prems(1) by (auto simp: p Let_def split: if_splits)
  have IH: "length out = length acc" "\<And>j. j \<notin> fst ` set ps \<Longrightarrow> out ! j = acc[i := nat (offs ! i - m)] ! j"
    "\<And>j. j \<in> fst ` set ps \<Longrightarrow> int (out ! j) = offs ! j - least j"
    using Cons.IH [OF r(2)] Cons.prems(2) by auto
  have "int (out ! i) = offs ! i - least i" using IH(2,3) i r(1) by (cases "i \<in> fst ` set ps") simp_all
  then show ?case using IH by (auto simp: p)
qed simp

lemma member_offsets_Inr:
  assumes "member_offsets_of requirements offs (members_of roots) = Inr out" and "length offs = length roots"
    and "\<forall>v<length roots. roots ! v < length roots" and "i < length roots"
  shows "length out = length roots" "int (out ! i) = offs ! i - group_minimum offs (members_with roots (roots ! i))"
proof -
  let ?ps = "concat (map (\<lambda>root. let alias_group = the (members_of roots root) in map (\<lambda>i. (i, group_minimum offs alias_group)) alias_group)
          (ordered_roots (length offs) (members_of roots)))"
  have mem: "\<forall>p\<in>set ?ps. fst p < length (replicate (length offs) 0) \<and> snd p = group_minimum offs (members_with roots (roots ! fst p))"
    by (auto simp: Let_def ordered_roots_set members_of_eq set_members_with assms(2) split: if_splits)
  have "(i, group_minimum offs (members_with roots (roots ! i))) \<in> set ?ps"
    using assms(2-4) by (auto simp: Let_def ordered_roots_set members_of_eq set_members_with intro!: bexI [of _ "roots ! i"])
  then have i: "i \<in> fst ` set ?ps" by force
  note o = offset_loop_Inr [OF assms(1) [unfolded member_offsets_of_def] mem]
  show "length out = length roots" using o assms(2) by simp
  show "int (out ! i) = offs ! i - group_minimum offs (members_with roots (roots ! i))" using o i by blast
qed

subsection \<open>Lifetimes\<close>

definition life_in :: "lifetime \<Rightarrow> bool" where
  "life_in l \<longleftrightarrow> life_first l < 2 ^ 32 \<and> life_last l < 2 ^ 32"

definition lives_ok :: "nat \<Rightarrow> lifetime list \<Rightarrow> bool" where
  "lives_ok n ls \<longleftrightarrow> length ls = n \<and> (\<forall>l\<in>set ls. life_in l)"

definition outlives :: "lifetime \<Rightarrow> lifetime \<Rightarrow> bool" where
  "outlives l m \<longleftrightarrow> life_seen m \<and> life_first m \<le> life_first l \<and> life_last l \<le> life_last m"

lemma touch_life_in: "event < 2 ^ 32 \<Longrightarrow> life_in l \<Longrightarrow> life_in (touch_life event l)"
  by (auto simp: life_in_def touch_life_def min_def max_def)

lemma include_life_in: "life_in other \<Longrightarrow> life_in l \<Longrightarrow> life_in (include_life other l)"
  unfolding include_life_def by (simp add: touch_life_in life_in_def [of other])

lemma touch_outlives: "outlives l m \<Longrightarrow> outlives l (touch_life event m)"
  by (auto simp: outlives_def touch_life_def)

lemma include_outlives: "outlives l m \<Longrightarrow> outlives l (include_life other m)" "life_seen l \<Longrightarrow> outlives l (include_life l m)"
  by (auto simp: outlives_def touch_life_def include_life_def)

lemma fold_include:
  "outlives l m \<or> (l \<in> set ls \<and> life_seen l) \<Longrightarrow> outlives l (fold include_life ls m)"
  "\<forall>l\<in>set ls. life_in l \<Longrightarrow> life_in m \<Longrightarrow> life_in (fold include_life ls m)"
  by (induction ls arbitrary: m) (auto simp: include_outlives include_life_in)

lemma outlives_trans: "outlives l m \<Longrightarrow> outlives m k \<Longrightarrow> outlives l k"
  by (auto simp: outlives_def)

lemma outlives_meet: "lives_meet l l' \<Longrightarrow> outlives l m \<Longrightarrow> outlives l' m' \<Longrightarrow> lives_meet m m'"
  by (auto simp: lives_meet_def outlives_def)

lemma touch_all_ok: "touch_all event ids ls = Some ls' \<Longrightarrow> event < 2 ^ 32 \<Longrightarrow> lives_ok n ls \<Longrightarrow> lives_ok n ls'"
proof -
  assume t: "touch_all event ids ls = Some ls'" and e: "event < 2 ^ 32" and ok: "lives_ok n ls"
  have "list_all (\<lambda>i. i < length ls) ids \<Longrightarrow> lives_ok n ls \<Longrightarrow> lives_ok n (foldl (\<lambda>ls i. ls[i := touch_life event (ls ! i)]) ls ids)" for ls
  proof (induction ids arbitrary: ls)
    case (Cons i ids)
    have "lives_ok n (ls[i := touch_life event (ls ! i)])"
      using Cons.prems e by (auto simp: lives_ok_def touch_life_in dest!: set_update_subset_insert [THEN subsetD])
    then show ?case using Cons by simp
  qed simp
  then show ?thesis using t ok by (auto simp: touch_all_def split: if_splits)
qed

lemma saturating_small: "saturating_add 32 a b < 2 ^ 32"
  by (simp add: arith_defs)

lemma touch_work_ok:
  assumes "touch_work g exchanges tile works st = Some st'"
  shows "fst st < 2 ^ 32 \<longrightarrow> lives_ok n (snd st) \<longrightarrow> fst st' < 2 ^ 32 \<and> lives_ok n (snd st')"
  using assms
proof (induction rule: touch_work.raw_induct [rotated, consumes 1, case_names step])
  case (step work g exchanges tile works st st')
  show ?case
  proof (intro impI)
    assume st: "fst st < 2 ^ 32" "lives_ok n (snd st)"
    show "fst st' < 2 ^ 32 \<and> lives_ok n (snd st')"
    proof (cases works)
      case Nil
      then show ?thesis using step.hyps st by simp
    next
      case (Cons w rest)
      have "\<exists>st1. fst st1 < 2 ^ 32 \<and> lives_ok n (snd st1) \<and> work g exchanges tile rest st1 = Some st'"
      proof (cases w)
        case (RepeatOp r)
        then obtain run where run: "get (repeat_runs g) r = Some run"
          using step.hyps by (cases "get (repeat_runs g) r") (simp_all add: Cons)
        then obtain l1 e2 l2 l3 where l1: "touch_all (fst st) (bound_shards (run_binding run)) (snd st) = Some l1"
          and w2: "work g exchanges tile (work_list (run_body run)) (saturating_add 32 (fst st) 1, l1) = Some (e2, l2)"
          and l3: "touch_all e2 (bound_shards (run_binding run)) l2 = Some l3"
          and r: "work g exchanges tile rest (saturating_add 32 e2 1, l3) = Some st'"
          using step.hyps by (auto simp: Cons RepeatOp bind_eq_Some_conv)
        have "lives_ok n l1" using touch_all_ok [OF l1] st by blast
        then have "e2 < 2 ^ 32 \<and> lives_ok n l2" using step.IH [OF w2] saturating_small by simp
        then have "lives_ok n l3" using touch_all_ok [OF l3] by blast
        then show ?thesis using r saturating_small by (intro exI [of _ "(saturating_add 32 e2 1, l3)"]) simp
      next
        case (ComputeOp t run)
        then obtain ids l1 where "touch_all (fst st) ids (snd st) = Some l1"
          "work g exchanges tile rest (saturating_add 32 (fst st) 1, l1) = Some st'"
          using step.hyps by (auto simp: Cons bind_eq_Some_conv)
        then show ?thesis using touch_all_ok [of _ _ _ l1] st saturating_small
          by (intro exI [of _ "(saturating_add 32 (fst st) 1, l1)"]) auto
      next
        case (CopyOp t c)
        then obtain ids l1 where "touch_all (fst st) ids (snd st) = Some l1"
          "work g exchanges tile rest (saturating_add 32 (fst st) 1, l1) = Some st'"
          using step.hyps by (auto simp: Cons bind_eq_Some_conv)
        then show ?thesis using touch_all_ok [of _ _ _ l1] st saturating_small
          by (intro exI [of _ "(saturating_add 32 (fst st) 1, l1)"]) auto
      next
        case (ExchangeOp phase)
        then obtain ids l1 where "touch_all (fst st) ids (snd st) = Some l1"
          "work g exchanges tile rest (saturating_add 32 (fst st) 1, l1) = Some st'"
          using step.hyps by (auto simp: Cons bind_eq_Some_conv)
        then show ?thesis using touch_all_ok [of _ _ _ l1] st saturating_small
          by (intro exI [of _ "(saturating_add 32 (fst st) 1, l1)"]) auto
      next
        case (CheckpointOp a b)
        then have "work g exchanges tile rest (saturating_add 32 (fst st) 1, snd st) = Some st'" using step.hyps by (simp add: Cons)
        then show ?thesis using st saturating_small by (intro exI [of _ "(saturating_add 32 (fst st) 1, snd st)"]) simp
      qed
      then show ?thesis using step.IH by blast
    qed
  qed
qed

lemma touch_inputs_ok: "touch_inputs g inputs ls = Some ls' \<Longrightarrow> lives_ok n ls \<Longrightarrow> lives_ok n ls'"
proof (induction g inputs ls rule: touch_inputs.induct)
  case (2 g val parameter rest ls)
  then obtain views l1 l2 where v: "get (value_views (low_program g)) val = Some views" and l1: "touch_all 0 views ls = Some l1"
    and l2: "(if parameter then touch_all (2 ^ 32 - 1) views l1 else Some l1) = Some l2" and r: "touch_inputs g rest l2 = Some ls'"
    by (auto simp: bind_eq_Some_conv)
  have "lives_ok n l1" using touch_all_ok [OF l1 _ "2.prems"(2)] by simp
  then have "lives_ok n l2" using l2 touch_all_ok [of "2 ^ 32 - 1" views l1 l2 n] by (cases parameter) simp_all
  then show ?case using "2.IH" v l1 l2 r by blast
qed simp

lemma touch_tiles_ok: "touch_tiles g exchanges tls ls = Some ls' \<Longrightarrow> lives_ok n ls \<Longrightarrow> lives_ok n ls'"
proof (induction tls arbitrary: ls)
  case (Cons tile tls)
  then obtain st where "touch_work g exchanges (work_tile tile) (work_list tile) (1, ls) = Some st" "touch_tiles g exchanges tls (snd st) = Some ls'"
    by (auto simp: bind_eq_Some_conv)
  then show ?case using touch_work_ok [of g exchanges _ _ "(1, ls)" st n] Cons by simp
qed simp

lemma touch_outputs_ok: "touch_outputs g outputs ls = Some ls' \<Longrightarrow> lives_ok n ls \<Longrightarrow> lives_ok n ls'"
proof (induction outputs arbitrary: ls)
  case (Cons val outputs)
  then obtain views l1 where l1: "touch_all (2 ^ 32 - 1) views ls = Some l1" and r: "touch_outputs g outputs l1 = Some ls'"
    by (auto simp: bind_eq_Some_conv)
  have "lives_ok n l1" by (rule touch_all_ok [OF l1 _ Cons.prems(2)]) simp
  then show ?case using Cons.IH [OF r] by blast
qed simp

lemma collect_lifetimes_ok:
  assumes "collect_lifetimes g = Some ls"
  shows "length ls = graph_size g" "\<And>i. i < graph_size g \<Longrightarrow> life_seen (ls ! i) \<and> life_in (ls ! i)"
proof -
  obtain exchanges l1 l2 l3 where l: "touch_inputs g (graph_inputs (low_program g)) (replicate (graph_size g) lifetime_default) = Some l1"
    "touch_tiles g exchanges (low_tiles g) l1 = Some l2" "touch_outputs g (graph_outputs (low_program g)) l2 = Some l3"
    and ls: "ls = map (\<lambda>l. if life_seen l then l else touch_life 0 l) l3"
    using assms by (auto simp: collect_lifetimes_def bind_eq_Some_conv graph_size_def)
  have "lives_ok (graph_size g) (replicate (graph_size g) lifetime_default)"
    by (simp add: lives_ok_def lifetime_default_def life_in_def)
  from touch_outputs_ok [OF l(3) touch_tiles_ok [OF l(2) touch_inputs_ok [OF l(1) this]]]
  have l3: "length l3 = graph_size g" "\<And>i. i < graph_size g \<Longrightarrow> life_in (l3 ! i)" by (simp_all add: lives_ok_def)
  show "length ls = graph_size g" by (simp add: ls l3(1))
  fix i assume i: "i < graph_size g"
  then show "life_seen (ls ! i) \<and> life_in (ls ! i)" using l3 by (simp add: ls touch_life_def life_in_def)
qed

subsection \<open>Conflicts\<close>

definition conflicts_at :: "(nat \<rightharpoonup> nat set) \<Rightarrow> nat \<Rightarrow> nat set" where
  "conflicts_at m a = (case m a of None \<Rightarrow> {} | Some s \<Rightarrow> s)"

definition conflict_edges_of :: "nat list \<Rightarrow> (nat \<times> nat) list \<Rightarrow> (nat \<times> nat) set" where
  "conflict_edges_of roots ps = (\<lambda>(l, r). (roots ! l, roots ! r)) ` set ps \<union> (\<lambda>(l, r). (roots ! r, roots ! l)) ` set ps"

lemma conflicts_at_default:
  "conflicts_at (map_default {} (insert x) k m) a = (if a = k then insert x (conflicts_at m k) else conflicts_at m a)"
  by (simp add: conflicts_at_def map_default_def split: option.split)

lemma add_conflicts_Inr:
  "add_conflicts roots ps m = Inr m' \<Longrightarrow>
   (\<forall>a. conflicts_at m' a = conflicts_at m a \<union> {b. (a, b) \<in> conflict_edges_of roots ps})
   \<and> (\<forall>(l, r)\<in>set ps. l < length roots \<and> r < length roots \<and> roots ! l \<noteq> roots ! r)"
proof (induction roots ps m rule: add_conflicts.induct)
  case (1 roots m)
  then show ?case by (simp add: conflict_edges_of_def)
next
  case (2 roots l r rest m)
  then have b: "l < length roots" "r < length roots" "roots ! l \<noteq> roots ! r"
    and c: "add_conflicts roots rest (map_default {} (insert (roots ! l)) (roots ! r) (map_default {} (insert (roots ! r)) (roots ! l) m)) = Inr m'"
    by (auto simp: res_simps get_Some split: if_splits)
  from "2.IH" [of "roots ! l" "roots ! r"] b c show ?case
    by (auto simp: res_simps get_Some conflicts_at_default conflict_edges_of_def)
qed

lemma conflicts_mutual:
  assumes "add_conflicts roots ps Map.empty = Inr m"
  shows "b \<in> conflicts_at m a \<longleftrightarrow> a \<in> conflicts_at m b" "a \<notin> conflicts_at m a" "finite (conflicts_at m a)"
    "conflicts_at m a \<subseteq> set roots" "(l, r) \<in> set ps \<Longrightarrow> roots ! r \<in> conflicts_at m (roots ! l)"
proof -
  note a = add_conflicts_Inr [OF assms]
  have e: "conflicts_at m x = {y. (x, y) \<in> conflict_edges_of roots ps}" for x using a by (simp add: conflicts_at_def)
  show "b \<in> conflicts_at m a \<longleftrightarrow> a \<in> conflicts_at m b" by (auto simp: e conflict_edges_of_def)
  show "a \<notin> conflicts_at m a" using a by (auto simp: e conflict_edges_of_def)
  show "conflicts_at m a \<subseteq> set roots" using a by (auto simp: e conflict_edges_of_def)
  then show "finite (conflicts_at m a)" by (rule finite_subset) simp
  show "roots ! r \<in> conflicts_at m (roots ! l)" if "(l, r) \<in> set ps" using that by (force simp: e conflict_edges_of_def)
qed

subsection \<open>The analysis\<close>

definition roots_ok :: "low_graph \<Rightarrow> allocation_analysis \<Rightarrow> bool" where
  "roots_ok g an \<longleftrightarrow> length (root_of_member an) = graph_size g \<and> length (analysis_offsets an) = graph_size g
     \<and> (\<forall>v<graph_size g. root_of_member an ! v < graph_size g
          \<and> root_of_member an ! (root_of_member an ! v) = root_of_member an ! v)
     \<and> (\<forall>i<graph_size g. \<forall>j<graph_size g. root_of_member an ! i = root_of_member an ! j \<longrightarrow> (i, j) \<in> tied g
          \<and> block_tile (graph_shards g ! i) = block_tile (graph_shards g ! j))"

definition solved :: "low_graph \<Rightarrow> allocation_analysis \<Rightarrow> bool" where
  "solved g an \<longleftrightarrow> (\<forall>l r x. constraint g l r x \<longrightarrow> linked g l r \<and> root_of_member an ! l = root_of_member an ! r
     \<and> int (analysis_offsets an ! l) = int (analysis_offsets an ! r) + x)"

definition lifetimes_ok :: "low_graph \<Rightarrow> allocation_analysis \<Rightarrow> lifetime list \<Rightarrow> bool" where
  "lifetimes_ok g an ls \<longleftrightarrow> (\<forall>i<graph_size g. \<exists>m. root_lifetimes an (root_of_member an ! i) = Some m \<and> outlives (ls ! i) m \<and> life_in m)"

definition conflicts_ok :: "allocation_analysis \<Rightarrow> bool" where
  "conflicts_ok an \<longleftrightarrow> (\<forall>a. a \<notin> conflicts_at (root_conflicts an) a \<and> finite (conflicts_at (root_conflicts an) a)
     \<and> (\<forall>b\<in>conflicts_at (root_conflicts an) a. a \<in> conflicts_at (root_conflicts an) b))"

definition tile_part :: "low_graph \<Rightarrow> nat list \<Rightarrow> iterated_group list \<Rightarrow> nat \<Rightarrow> tile_allocations" where
  "tile_part g roots groups tile =
     \<lparr>tile_iterated = filter (\<lambda>gr. group_tile gr = tile) groups,
      tile_members = (\<lambda>r. if r \<in> set roots \<and> block_tile (graph_shards g ! r) = tile then Some (members_with roots r) else None)\<rparr>"

definition split_ok :: "low_graph \<Rightarrow> allocation_analysis \<Rightarrow> iterated_group list \<Rightarrow> bool" where
  "split_ok g an groups \<longleftrightarrow>
     analysis_tiles an = map (tile_part g (root_of_member an) groups) [0..<graph_tile_count (low_program g)]
   \<and> (\<forall>i<graph_size g. block_tile (graph_shards g ! i) < graph_tile_count (low_program g))
   \<and> (\<forall>gr\<in>set groups. group_tile gr < graph_tile_count (low_program g)) \<and> group_key ` set groups = graph_groups g"

lemma analyze_Inr:
  assumes "analyze_allocations g = Inr an"
  obtains s1 s groups requirements pairs loopback roots1 sa sb offsets conflicts ls where
    "alias_unions g (graph_shards g) (sets_new (graph_size g)) = Inr s1"
    "repeat_unions g (low_tiles g) (s1, []) = Inr (s, groups)"
    "find_all [0..<graph_size g] s = Some (roots1, sa)" "find_all [0..<graph_size g] sa = Some (root_of_member an, sb)"
    "member_offsets_of requirements (set_offsets sb) (members_of (root_of_member an)) = Inr (analysis_offsets an)"
    "alias_groups_ok g (members_of (root_of_member an))"
    "add_conflicts (root_of_member an) (pairs @ loopback) Map.empty = Inr (root_conflicts an)"
    "collect_lifetimes g = Some ls"
    "split_by_tile g (members_of (root_of_member an)) groups = Some (analysis_tiles an)"
    "root_lifetimes an = combine_by_root lifetime_default include_life (root_of_member an) ls"
  using assms unfolding analyze_allocations_def Let_def graph_size_def [symmetric]
  by (clarsimp simp: res_simps or_panic_Inr)

lemma tile_of_root:
  assumes "length roots = graph_size g" and "\<forall>v<graph_size g. roots ! v < graph_size g \<and> roots ! (roots ! v) = roots ! v"
    and "alias_groups_ok g (members_of roots)" and "i < graph_size g"
  shows "block_tile (graph_shards g ! i) = block_tile (graph_shards g ! (roots ! i))"
    "members_with roots (roots ! i) ! 0 < graph_size g"
    "block_tile (graph_shards g ! (members_with roots (roots ! i) ! 0)) = block_tile (graph_shards g ! (roots ! i))"
proof -
  let ?r = "roots ! i" and ?ms = "members_with roots (roots ! i)"
  have r: "?r < graph_size g" "roots ! ?r = ?r" "?r \<in> set roots" using assms(1,2,4) by auto
  have mem: "i \<in> set ?ms" "?r \<in> set ?ms" using assms(1,4) r by (auto simp: set_members_with)
  have "?r \<in> set (ordered_roots (length (graph_shards g)) (members_of roots))"
    using r by (simp add: ordered_roots_set members_of_eq graph_size_def)
  then have "list_all (\<lambda>j. block_tile (graph_shards g ! j) = block_tile (graph_shards g ! (?ms ! 0))
      \<and> block_class (graph_shards g ! j) = block_class (graph_shards g ! (?ms ! 0))) ?ms"
    using assms(3) r unfolding alias_groups_ok_def list_all_iff by (simp add: members_of_eq Let_def)
  then have t: "block_tile (graph_shards g ! j) = block_tile (graph_shards g ! (?ms ! 0))" if "j \<in> set ?ms" for j
    using that by (simp add: list_all_iff)
  show "block_tile (graph_shards g ! i) = block_tile (graph_shards g ! ?r)" using t mem by simp
  show "block_tile (graph_shards g ! (?ms ! 0)) = block_tile (graph_shards g ! ?r)" using t mem by simp
  have "?ms ! 0 \<in> set ?ms" using mem(1) by (cases ?ms) auto
  then show "?ms ! 0 < graph_size g" using assms(1) by (simp add: set_members_with)
qed

lemma split_by_tile_parts:
  assumes "split_by_tile g (members_of roots) groups = Some tls" and "length roots = graph_size g"
    and "\<forall>v<graph_size g. roots ! v < graph_size g \<and> roots ! (roots ! v) = roots ! v" and "alias_groups_ok g (members_of roots)"
  shows "tls = map (tile_part g roots groups) [0..<graph_tile_count (low_program g)]"
    "\<forall>i<graph_size g. block_tile (graph_shards g ! i) < graph_tile_count (low_program g)"
    "\<forall>gr\<in>set groups. group_tile gr < graph_tile_count (low_program g)"
proof -
  note t = tile_of_root [OF assms(2-4)]
  have own: "block_tile (graph_shards g ! (the (members_of roots r) ! 0)) = block_tile (graph_shards g ! r)" if "r \<in> set roots" for r
    using that t(3) assms(2) by (auto simp: members_of_eq in_set_conv_nth)
  have s: "list_all (\<lambda>root. block_tile (graph_shards g ! (the (members_of roots root) ! 0)) < graph_tile_count (low_program g))
      (ordered_roots (length (graph_shards g)) (members_of roots))"
    "list_all (\<lambda>gr. group_tile gr < graph_tile_count (low_program g)) groups"
    "tls = map (\<lambda>tile. \<lparr>tile_iterated = filter (\<lambda>gr. group_tile gr = tile) groups,
        tile_members = (\<lambda>root. case members_of roots root of
          Some ms \<Rightarrow> if block_tile (graph_shards g ! (ms ! 0)) = tile then Some ms else None | None \<Rightarrow> None)\<rparr>)
        [0..<graph_tile_count (low_program g)]"
    using assms(1) by (auto simp: split_by_tile_def Let_def split: if_splits)
  have "(case members_of roots r of Some ms \<Rightarrow> if block_tile (graph_shards g ! (ms ! 0)) = tile then Some ms else None | None \<Rightarrow> None)
      = (if r \<in> set roots \<and> block_tile (graph_shards g ! r) = tile then Some (members_with roots r) else None)" for r tile
    using own [of r] by (simp add: members_of_eq)
  then show "tls = map (tile_part g roots groups) [0..<graph_tile_count (low_program g)]"
    unfolding s(3) tile_part_def by simp
  show "\<forall>i<graph_size g. block_tile (graph_shards g ! i) < graph_tile_count (low_program g)"
  proof (intro allI impI)
    fix i assume i: "i < graph_size g"
    have r: "roots ! i < graph_size g" "roots ! i \<in> set roots" using assms(2,3) i by auto
    then have "roots ! i \<in> set (ordered_roots (length (graph_shards g)) (members_of roots))"
      by (simp add: ordered_roots_set members_of_eq graph_size_def)
    then have "block_tile (graph_shards g ! (the (members_of roots (roots ! i)) ! 0)) < graph_tile_count (low_program g)"
      using s(1) unfolding list_all_iff by blast
    then show "block_tile (graph_shards g ! i) < graph_tile_count (low_program g)" using own [OF r(2)] t(1) [OF i] by simp
  qed
  show "\<forall>gr\<in>set groups. group_tile gr < graph_tile_count (low_program g)" using s(2) by (simp add: list_all_iff)
qed

lemma analysis_post:
  assumes "analyze_allocations g = Inr an" and "ids_ok g"
  obtains ls groups where "collect_lifetimes g = Some ls" "roots_ok g an" "solved g an" "lifetimes_ok g an ls" "conflicts_ok an"
    "split_ok g an groups"
proof -
  let ?n = "graph_size g" and ?roots = "root_of_member an"
  obtain s1 s groups requirements pairs loopback roots1 sa sb offsets conflicts ls where
    u: "alias_unions g (graph_shards g) (sets_new ?n) = Inr s1" "repeat_unions g (low_tiles g) (s1, []) = Inr (s, groups)"
    and f: "find_all [0..<?n] s = Some (roots1, sa)" "find_all [0..<?n] sa = Some (?roots, sb)"
    and off: "member_offsets_of requirements (set_offsets sb) (members_of ?roots) = Inr (analysis_offsets an)"
    and grp: "alias_groups_ok g (members_of ?roots)"
    and con: "add_conflicts ?roots (pairs @ loopback) Map.empty = Inr (root_conflicts an)"
    and ls: "collect_lifetimes g = Some ls"
    and sp: "split_by_tile g (members_of ?roots) groups = Some (analysis_tiles an)"
    and life: "root_lifetimes an = combine_by_root lifetime_default include_life ?roots ls"
    by (rule analyze_Inr [OF assms(1)])
  note c = constraints_recorded [OF u assms(2)]
  note r = find_all_rooted [OF f c(1)]
  have len: "length ?roots = ?n" using r(2) by (simp add: rooted_def)
  have self: "\<forall>v<?n. ?roots ! v < ?n \<and> ?roots ! (?roots ! v) = ?roots ! v" using r(2) by (simp add: rooted_def)
  note t = tile_of_root [OF len self grp]
  have offs: "length (analysis_offsets an) = ?n"
    "int (analysis_offsets an ! i) = set_offsets sb ! i - group_minimum (set_offsets sb) (members_with ?roots (?roots ! i))" if "i < ?n" for i
    using member_offsets_Inr [OF off, of i] r(3) len self that by simp_all
  have lens: "length (analysis_offsets an) = ?n"
  proof (cases "?n = 0")
    case True
    then show ?thesis using off r(3) len by (simp add: member_offsets_of_def ordered_roots_def)
  qed (use offs(1) in blast)
  have "roots_ok g an"
    unfolding roots_ok_def using len lens self same_root_tied [OF r(2) _ _ _ c(3)] t(1) by metis
  moreover have "solved g an"
    unfolding solved_def
  proof (intro allI impI)
    fix l rr x assume k: "constraint g l rr x"
    note l = c(2) [OF k]
    note s = constraint_same_root [OF r(2) k c(3)]
    have "l < ?n" "rr < ?n" using l by (simp_all add: linked_def)
    then show "linked g l rr \<and> ?roots ! l = ?roots ! rr \<and> int (analysis_offsets an ! l) = int (analysis_offsets an ! rr) + x"
      using l s offs(2) by simp
  qed
  moreover have "lifetimes_ok g an ls"
    unfolding lifetimes_ok_def
  proof (intro allI impI)
    fix i assume i: "i < ?n"
    note lo = collect_lifetimes_ok [OF ls]
    let ?ls = "map ((!) ls) (members_with ?roots (?roots ! i))"
    have mem: "i \<in> set (members_with ?roots (?roots ! i))" using i len by (simp add: set_members_with)
    have "root_lifetimes an (?roots ! i) = Some (fold include_life ?ls lifetime_default)"
      unfolding life using i len lo(1) by (subst combine_by_root_eq) auto
    moreover have "outlives (ls ! i) (fold include_life ?ls lifetime_default)"
      by (rule fold_include(1)) (use lo(2) [OF i] mem in auto)
    moreover have "life_in (fold include_life ?ls lifetime_default)"
    proof (rule fold_include(2))
      show "\<forall>l\<in>set ?ls. life_in l" using lo(2) len by (auto simp: set_members_with)
      show "life_in lifetime_default" by (simp add: life_in_def lifetime_default_def)
    qed
    ultimately show "\<exists>m. root_lifetimes an (?roots ! i) = Some m \<and> outlives (ls ! i) m \<and> life_in m" by blast
  qed
  moreover have "conflicts_ok an"
    unfolding conflicts_ok_def using conflicts_mutual(1-3) [OF con] by blast
  moreover have "split_ok g an groups"
    unfolding split_ok_def using split_by_tile_parts [OF sp len self grp] c(4) by blast
  ultimately show ?thesis using that ls by blast
qed

lemma graph_groups_constraint:
  assumes "analyze_allocations g = Inr an" and "ids_ok g" and "p \<in> graph_groups g"
  shows "fst p \<noteq> [] \<and> constraint g (hd (fst p)) (snd p) 0"
proof -
  obtain s1 s groups where "alias_unions g (graph_shards g) (sets_new (graph_size g)) = Inr s1"
    "repeat_unions g (low_tiles g) (s1, []) = Inr (s, groups)"
    by (rule analyze_Inr [OF assms(1)])
  from constraints_recorded(5) [OF this assms(2,3)] show ?thesis .
qed

end
