(* ===== verification/Device.thy ===== *)
theory Device
  imports Prelude Analysis
begin

text \<open>
  The placement of a whole device (\<open>place_with_auxiliary\<close>): the requests of a tile satisfy what
  \<open>allocate_tile\<close> needs, cover every alias group of the tile and leave room for its members; the
  addresses of all tiles together solve the constraints of the graph, and shards that are live
  at once are apart.
\<close>

subsection \<open>Requests\<close>

text \<open>Room for the members of a root.\<close>

definition roomy :: "low_graph \<Rightarrow> allocation_analysis \<Rightarrow> nat \<Rightarrow> nat \<Rightarrow> bool" where
  "roomy g an root width \<longleftrightarrow> (\<forall>i\<in>set (members_with (root_of_member an) root).
     \<exists>k. shard_storage_bytes (graph_shards g ! i) = Inr k \<and> analysis_offsets an ! i + k \<le> width)"

definition strided :: "low_graph \<Rightarrow> allocation_analysis \<Rightarrow> nat list \<Rightarrow> allocation_request \<Rightarrow> bool" where
  "strided g an rts r \<longleftrightarrow> (\<exists>stride. (\<forall>k<length rts. snd (alloc_assignments r ! k) = stride * k \<and> roomy g an (rts ! k) stride)
     \<and> alloc_bytes r = stride * length rts
     \<and> (\<forall>wide. alloc_stride r = Some wide \<longrightarrow> stride \<le> wide \<and> (stride = 0 \<longrightarrow> wide = 0)))"

definition lives_within :: "allocation_analysis \<Rightarrow> nat list \<Rightarrow> lifetime \<Rightarrow> bool" where
  "lives_within an rts life \<longleftrightarrow>
     (\<forall>root\<in>set rts. \<exists>m. root_lifetimes an root = Some m \<and> (life_seen m \<longrightarrow> outlives m life))
   \<and> ((\<forall>root\<in>set rts. \<forall>m. root_lifetimes an root = Some m \<longrightarrow> life_in m) \<longrightarrow> life_in life)"

definition request_for :: "low_graph \<Rightarrow> allocation_analysis \<Rightarrow> nat list \<Rightarrow> allocation_request \<Rightarrow> bool" where
  "request_for g an rts r \<longleftrightarrow> map fst (alloc_assignments r) = rts \<and> alloc_auxiliary r = None \<and> strided g an rts r
     \<and> lives_within an rts (alloc_lifetime r)
     \<and> set (alloc_conflicts r) = (\<Union>root\<in>set rts. conflicts_at (root_conflicts an) root) - set rts"

lemma allocation_bytes_Inr:
  "allocation_bytes g offs requirement ms m = Inr width \<Longrightarrow> m \<le> width
   \<and> (\<forall>i\<in>set ms. \<exists>k. shard_storage_bytes (graph_shards g ! i) = Inr k \<and> offs ! i + k \<le> width)"
proof (induction ms arbitrary: m)
  case (Cons i ms)
  have lift: "shard_storage_bytes b = Inr k" if "lift_storage (shard_storage_bytes b) = Inr k" for b k
    using that by (auto simp: lift_storage_def split: sum.splits fault.splits)
  from Cons.prems obtain k x where k: "shard_storage_bytes (graph_shards g ! i) = Inr k"
    and x: "Option.bind (checked_add 32 (offs ! i) k) (\<lambda>x. checked_add 32 x (access_tail requirement)) = Some x"
    and r: "allocation_bytes g offs requirement ms (max m x) = Inr width"
    by (auto simp: res_simps dest: lift)
  have "offs ! i + k \<le> x" using x by (auto simp: bind_eq_Some_conv checked_add_def split: if_splits)
  then show ?case using Cons.IH [OF r] k by auto
qed simp

lemma tile_part_members:
  "tile_members (tile_part g roots groups tile) root
    = (if root \<in> set roots \<and> block_tile (graph_shards g ! root) = tile then Some (members_with roots root) else None)"
  by (simp add: tile_part_def)

lemma root_bytes_Inr:
  assumes "ta = tile_part g (root_of_member an) groups tile"
  shows "root_bytes g an ta rts m = Inr width \<Longrightarrow> m \<le> width \<and> (\<forall>root\<in>set rts. roomy g an root width)"
proof (induction rts arbitrary: m)
  case (Cons root rts)
  obtain requirement w where w: "allocation_bytes g (analysis_offsets an) requirement (members_with (root_of_member an) root) 0 = Inr w"
    and r: "root_bytes g an ta rts (max m w) = Inr width"
    using Cons.prems by (auto simp: res_simps assms tile_part_members split: if_splits)
  have "roomy g an root width"
    using allocation_bytes_Inr [OF w] Cons.IH [OF r] unfolding roomy_def by fastforce
  then show ?case using Cons.IH [OF r] by simp
qed simp

lemma roomy_mono: "roomy g an root width \<Longrightarrow> width \<le> width' \<Longrightarrow> roomy g an root width'"
  unfolding roomy_def using order_trans by blast

lemma sequence_assignments_Inr:
  "sequence_assignments stride ps = Inr xs \<Longrightarrow> xs = map (\<lambda>(k, root). (root, stride * k)) ps"
  by (induction ps arbitrary: xs) (auto simp: res_simps try_from_def checked_mul_def split: if_splits)

lemma sequence_lifetime_Inr:
  "sequence_lifetime an rts l = Inr life \<Longrightarrow>
   (\<forall>root\<in>set rts. root_lifetimes an root \<noteq> None) \<and> life = fold include_life (map (\<lambda>root. the (root_lifetimes an root)) rts) l"
  by (induction rts arbitrary: l) (auto simp: res_simps)

lemma sequence_lives_within:
  assumes "sequence_lifetime an rts lifetime_default = Inr life"
  shows "lives_within an rts life"
proof -
  note s = sequence_lifetime_Inr [OF assms]
  show ?thesis
    unfolding lives_within_def
  proof (intro conjI ballI impI)
    fix root assume root: "root \<in> set rts"
    then obtain m where m: "root_lifetimes an root = Some m" using s by blast
    then have "m \<in> set (map (\<lambda>root. the (root_lifetimes an root)) rts)" using root by force
    then have "life_seen m \<longrightarrow> outlives m life" using s fold_include(1) by blast
    then show "\<exists>m. root_lifetimes an root = Some m \<and> (life_seen m \<longrightarrow> outlives m life)" using m by blast
  next
    assume "\<forall>root\<in>set rts. \<forall>m. root_lifetimes an root = Some m \<longrightarrow> life_in m"
    then have "\<forall>l\<in>set (map (\<lambda>root. the (root_lifetimes an root)) rts). life_in l" using s by fastforce
    moreover have "life_in lifetime_default" by (simp add: life_in_def lifetime_default_def)
    ultimately show "life_in life" using s fold_include(2) by blast
  qed
qed

lemma place_align_up_zero: "place_align_up 0 algn = Inr c \<Longrightarrow> c = 0"
  by (auto simp: place_align_up_def Let_def res_simps checked_next_multiple_of_def split: if_splits)

lemma filter_map_conflicts:
  assumes "conflicts_ok an"
  shows "set (concat (map sorted_list_of_set (List.map_filter (root_conflicts an) rts)))
    = (\<Union>root\<in>set rts. conflicts_at (root_conflicts an) root)"
proof (induction rts)
  case (Cons root rts)
  show ?case
  proof (cases "root_conflicts an root")
    case None
    then show ?thesis using Cons by (simp add: map_filter_simps conflicts_at_def)
  next
    case (Some s)
    then have "finite s" using assms unfolding conflicts_ok_def conflicts_at_def by (metis option.simps(5))
    then show ?thesis using Cons Some by (simp add: map_filter_simps conflicts_at_def)
  qed
qed (simp add: map_filter_simps)

lemma member_root_Inr:
  "traverse (member_root an) ids = Inr rts \<Longrightarrow>
   rts = map ((!) (root_of_member an)) ids \<and> (\<forall>i\<in>set ids. i < length (root_of_member an))"
proof (induction ids arbitrary: rts)
  case (Cons i ids)
  then show ?case by (auto simp: member_root_def res_simps split: sum.splits)
qed simp

lemma sequence_request_for:
  assumes "sequence_request g an ta gr = Inr r" and "ta = tile_part g (root_of_member an) groups tile" and "conflicts_ok an"
  shows "request_for g an (map ((!) (root_of_member an)) (group_shards gr)) r" "\<forall>i\<in>set (group_shards gr). i < length (root_of_member an)"
proof -
  let ?rts = "map ((!) (root_of_member an)) (group_shards gr)"
  obtain rts where t: "traverse (member_root an) (group_shards gr) = Inr rts" using assms(1) by (auto simp: sequence_request_def res_simps)
  note rts = member_root_Inr [OF t]
  then show "\<forall>i\<in>set (group_shards gr). i < length (root_of_member an)" by blast
  obtain first algn unaligned stride k bytes life assignments wide where
    b: "root_bytes g an ta ?rts 0 = Inr unaligned" and st: "place_align_up unaligned algn = Inr stride"
    and k: "try_from 32 (length ?rts) = Some k" and bytes: "checked_mul 32 stride k = Some bytes"
    and life: "sequence_lifetime an ?rts lifetime_default = Inr life"
    and asg: "sequence_assignments stride (enumerate 0 ?rts) = Inr assignments"
    and wide: "(if separate_sequence an ?rts
        then res_bind (place_align_up stride INTERLEAVED_ELEMENT_SIZE) (\<lambda>x. Inr (Some x)) else Inr None) = Inr wide"
    and eq: "\<lparr>alloc_auxiliary = None, alloc_class = block_class first, alloc_stride = wide, alloc_lifetime = life,
          alloc_bytes = bytes, alloc_alignment = algn, alloc_assignments = assignments,
          alloc_conflicts = filter (\<lambda>other. other \<notin> set ?rts)
            (concat (map sorted_list_of_set (List.map_filter (root_conflicts an) ?rts)))\<rparr> = r"
    using assms(1) rts unfolding sequence_request_def res_bind_Inr Let_def ok_or_Inr t sum.inject by blast
  have r: "alloc_auxiliary r = None" "alloc_stride r = wide" "alloc_lifetime r = life" "alloc_assignments r = assignments" "alloc_bytes r = bytes"
    "alloc_conflicts r = filter (\<lambda>other. other \<notin> set ?rts) (concat (map sorted_list_of_set (List.map_filter (root_conflicts an) ?rts)))"
    using eq by auto
  have a: "assignments = map (\<lambda>(k, root). (root, stride * k)) (enumerate 0 ?rts)" by (rule sequence_assignments_Inr [OF asg])
  have fsts: "map fst assignments = ?rts" by (simp add: a comp_def case_prod_unfold)
  have "roomy g an root stride" if "root \<in> set ?rts" for root
    using root_bytes_Inr [OF assms(2) b] place_align_up_Inr [OF st] roomy_mono that by blast
  then have each: "snd (assignments ! k) = stride * k \<and> roomy g an (?rts ! k) stride" if "k < length ?rts" for k
    using that nth_mem [OF that] by (simp add: a nth_enumerate_eq)
  have "strided g an ?rts r"
    unfolding strided_def
  proof (intro exI conjI allI impI)
    fix k assume "k < length ?rts"
    then show "snd (alloc_assignments r ! k) = stride * k" "roomy g an (?rts ! k) stride" using each r(4) by blast+
  next
    show "alloc_bytes r = stride * length ?rts" using k bytes r(5) by (simp add: checked_mul_def try_from_def split: if_splits)
    fix w assume "alloc_stride r = Some w"
    then have w: "place_align_up stride INTERLEAVED_ELEMENT_SIZE = Inr w" using wide r(2) by (auto simp: res_simps split: if_splits)
    show "stride \<le> w" using place_align_up_Inr [OF w] by blast
    assume "stride = 0"
    then show "w = 0" using w place_align_up_zero by blast
  qed
  then show "request_for g an ?rts r"
    unfolding request_for_def using r fsts sequence_lives_within [OF life] filter_map_conflicts [OF assms(3), of ?rts] by auto
qed

lemma root_request_for:
  assumes "root_request g an root (members_with (root_of_member an) root) (root_life an root) = Inr r" and "conflicts_ok an"
    and "root_lifetimes an root \<noteq> None"
  shows "request_for g an [root] r"
proof -
  obtain requirement b where b: "allocation_bytes g (analysis_offsets an) requirement (members_with (root_of_member an) root) 0 = Inr b"
    and r: "alloc_auxiliary r = None" "alloc_stride r = None" "alloc_lifetime r = root_life an root" "alloc_assignments r = [(root, 0)]"
      "alloc_bytes r = b" "alloc_conflicts r = (case root_conflicts an root of None \<Rightarrow> [] | Some others \<Rightarrow> sorted_list_of_set others)"
    using assms(1) by (auto simp: root_request_def res_simps Let_def)
  obtain m where m: "root_lifetimes an root = Some m" using assms(3) by blast
  then have l: "root_life an root = m" by (simp add: root_life_def)
  have c: "set (alloc_conflicts r) = conflicts_at (root_conflicts an) root" "root \<notin> conflicts_at (root_conflicts an) root"
  proof -
    show "root \<notin> conflicts_at (root_conflicts an) root" using assms(2) by (simp add: conflicts_ok_def)
    have "finite (conflicts_at (root_conflicts an) root)" using assms(2) by (simp add: conflicts_ok_def)
    then show "set (alloc_conflicts r) = conflicts_at (root_conflicts an) root"
      by (cases "root_conflicts an root") (simp_all add: r conflicts_at_def)
  qed
  have "roomy g an root b" unfolding roomy_def using allocation_bytes_Inr [OF b] by blast
  then have "strided g an [root] r" unfolding strided_def r by (intro exI [of _ b]) simp
  moreover have "lives_within an [root] (alloc_lifetime r)"
    by (auto simp: lives_within_def r m l outlives_def)
  ultimately show ?thesis unfolding request_for_def using r c by auto
qed

definition rts_of :: "allocation_request \<Rightarrow> nat list" where
  "rts_of r = map fst (alloc_assignments r)"

lemma roots_of_rts: "roots_of r = set (rts_of r)"
  by (simp add: roots_of_def rts_of_def)

lemma distinct_pieces:
  "distinct (concat (map f xs)) \<Longrightarrow> sorted_wrt (\<lambda>x y. set (f x) \<inter> set (f y) = {}) xs \<and> (\<forall>x\<in>set xs. distinct (f x))"
  by (induction xs) auto

lemma sorted_wrt_pair:
  assumes "sorted_wrt P xs" and "\<And>x y. P x y \<Longrightarrow> P y x" and "x \<in> set xs" "y \<in> set xs" "x \<noteq> y"
  shows "P x y"
proof -
  obtain i j where ij: "i < length xs" "j < length xs" "x = xs ! i" "y = xs ! j" using assms(3,4) by (auto simp: in_set_conv_nth)
  then have "i < j \<or> j < i" using assms(5) by (metis nat_neq_iff)
  then show ?thesis using assms(1,2) ij by (metis sorted_wrt_nth_less)
qed

lemma traverse_rel:
  "traverse f xs = Inr ys \<Longrightarrow> (\<And>x y. x \<in> set xs \<Longrightarrow> f x = Inr y \<Longrightarrow> h y = k x) \<Longrightarrow> map h ys = map k xs"
  "traverse f xs = Inr ys \<Longrightarrow> y \<in> set ys \<Longrightarrow> \<exists>x\<in>set xs. f x = Inr y"
proof -
  show "traverse f xs = Inr ys \<Longrightarrow> (\<And>x y. x \<in> set xs \<Longrightarrow> f x = Inr y \<Longrightarrow> h y = k x) \<Longrightarrow> map h ys = map k xs"
    by (induction xs arbitrary: ys) (auto split: sum.splits)
  show "traverse f xs = Inr ys \<Longrightarrow> y \<in> set ys \<Longrightarrow> \<exists>x\<in>set xs. f x = Inr y"
    by (induction xs arbitrary: ys) (auto split: sum.splits)
qed

lemma allocation_requests_Inr:
  assumes "allocation_requests g an (tile_part g (root_of_member an) groups tile) = Inr rs"
    and "roots_ok g an" "lifetimes_ok g an ls" "conflicts_ok an" and seen: "\<forall>i<graph_size g. life_seen (ls ! i)"
  shows "\<forall>r\<in>set rs. request_for g an (rts_of r) r" "distinct (concat (map rts_of rs))"
    "root \<in> set (root_of_member an) \<Longrightarrow> block_tile (graph_shards g ! root) = tile \<Longrightarrow> \<exists>r\<in>set rs. root \<in> set (rts_of r)"
    "distinct (concat (map (\<lambda>gr. map ((!) (root_of_member an)) (group_shards gr)) (filter (\<lambda>gr. group_tile gr = tile) groups)))"
    "r \<in> set rs \<Longrightarrow> set (rts_of r) \<subseteq> set (root_of_member an)"
    "gr \<in> set (filter (\<lambda>gr. group_tile gr = tile) groups) \<Longrightarrow> i \<in> set (group_shards gr) \<Longrightarrow> i < graph_size g"
proof -
  let ?R = "root_of_member an" and ?its = "filter (\<lambda>gr. group_tile gr = tile) groups"
    and ?ta = "tile_part g (root_of_member an) groups tile"
  have its: "tile_iterated ?ta = ?its" by (simp add: tile_part_def)
  obtain grouped seqs rest where
    g1: "traverse (member_root an) (concat (map group_shards ?its)) = Inr grouped" "distinct grouped"
    and g2: "traverse (sequence_request g an ?ta) ?its = Inr seqs"
    and g3: "traverse (\<lambda>root. root_request g an root (the (tile_members ?ta root)) (root_life an root))
         (filter (\<lambda>root. root \<notin> set grouped \<and> life_seen (root_life an root)) (ordered_roots (length (graph_shards g)) (tile_members ?ta)))
       = Inr rest" and rs: "rs = seqs @ rest"
    using assms(1) by (auto simp: allocation_requests_def res_simps its)
  let ?single = "filter (\<lambda>root. root \<notin> set grouped \<and> life_seen (root_life an root)) (ordered_roots (length (graph_shards g)) (tile_members ?ta))"
  have grouped: "grouped = concat (map (\<lambda>gr. map ((!) ?R) (group_shards gr)) ?its)"
    using member_root_Inr [OF g1(1)] by (simp add: map_concat comp_def)
  then show "distinct (concat (map (\<lambda>gr. map ((!) ?R) (group_shards gr)) ?its))" using g1(2) by simp
  have root: "root \<in> set ?R \<and> block_tile (graph_shards g ! root) = tile" if "root \<in> set ?single" for root
    using that by (auto simp: ordered_roots_set tile_part_members split: if_splits)
  have life: "root_lifetimes an root \<noteq> None \<and> life_seen (root_life an root)" if "root \<in> set ?R" for root
  proof -
    note r = that
    have "length ?R = graph_size g" using assms(2) by (simp add: roots_ok_def)
    moreover obtain i where "i < length ?R" "?R ! i = root" using r unfolding in_set_conv_nth by blast
    ultimately have i: "i < graph_size g" "root = ?R ! i" by simp_all
    then obtain m where "root_lifetimes an root = Some m" "outlives (ls ! i) m" using assms(3) unfolding lifetimes_ok_def by blast
    then show ?thesis using seen i(1) by (simp add: root_life_def outlives_def)
  qed
  have seq: "request_for g an (map ((!) ?R) (group_shards gr)) r" if "sequence_request g an ?ta gr = Inr r" for gr r
    by (rule sequence_request_for(1) [OF that refl assms(4)])
  have one: "request_for g an [root] r"
    if "root \<in> set ?single" "root_request g an root (the (tile_members ?ta root)) (root_life an root) = Inr r" for root r
    using root_request_for [OF _ assms(4)] that root [OF that(1)] life by (simp add: tile_part_members)
  have rts: "rts_of r = xs" if "request_for g an xs r" for xs r using that by (simp add: request_for_def rts_of_def)
  have m1: "map rts_of seqs = map (\<lambda>gr. map ((!) ?R) (group_shards gr)) ?its" by (rule traverse_rel(1) [OF g2]) (use seq rts in blast)
  have m2: "map rts_of rest = map (\<lambda>root. [root]) ?single" by (rule traverse_rel(1) [OF g3]) (use one rts in blast)
  have "request_for g an (rts_of r) r" if "r \<in> set rs" for r
  proof -
    have "r \<in> set seqs \<or> r \<in> set rest" using that rs by simp
    then consider "r \<in> set seqs" | "r \<in> set rest" by blast
    then show ?thesis
    proof cases
      case 1
      obtain gr where "sequence_request g an ?ta gr = Inr r" using traverse_rel(2) [OF g2 1] by blast
      then have f: "request_for g an (map ((!) ?R) (group_shards gr)) r" by (rule seq)
      show ?thesis unfolding rts [OF f] by (rule f)
    next
      case 2
      obtain root where "root \<in> set ?single" "root_request g an root (the (tile_members ?ta root)) (root_life an root) = Inr r"
        using traverse_rel(2) [OF g3 2] by blast
      then have f: "request_for g an [root] r" by (rule one)
      show ?thesis unfolding rts [OF f] by (rule f)
    qed
  qed
  then show "\<forall>r\<in>set rs. request_for g an (rts_of r) r" by blast
  have cs: "concat (map rts_of rs) = grouped @ ?single" unfolding rs map_append m1 m2 concat_append grouped by simp
  have "set grouped \<subseteq> set ?R" using member_root_Inr [OF g1(1)] by auto
  then have "set (concat (map rts_of rs)) \<subseteq> set ?R" unfolding cs using root by auto
  then show "r \<in> set rs \<Longrightarrow> set (rts_of r) \<subseteq> set ?R" by auto
  show "gr \<in> set ?its \<Longrightarrow> i \<in> set (group_shards gr) \<Longrightarrow> i < graph_size g"
    using member_root_Inr [OF g1(1)] assms(2) by (auto simp: roots_ok_def)
  have "distinct ?single" by (simp add: ordered_roots_def)
  then show "distinct (concat (map rts_of rs))" unfolding cs using g1(2) by auto
  show "\<exists>r\<in>set rs. root \<in> set (rts_of r)" if r: "root \<in> set ?R" "block_tile (graph_shards g ! root) = tile"
  proof -
    have "root < length (graph_shards g)" using r(1) assms(2) by (auto simp: roots_ok_def in_set_conv_nth graph_size_def)
    then have "root \<in> set (ordered_roots (length (graph_shards g)) (tile_members ?ta))" using r by (simp add: ordered_roots_set tile_part_members)
    then have "root \<in> set (grouped @ ?single)" using life [OF r(1)] by auto
    then show ?thesis unfolding cs [symmetric] by auto
  qed
qed

text \<open>The requests of a tile meet what its placement needs.\<close>

lemma auxiliary_facts:
  assumes "q \<in> set (auxiliary_requests auxiliary)"
  shows "roots_of q = {}" "alloc_conflicts q = []" "alloc_auxiliary q \<noteq> None"
  using assms by (auto simp: auxiliary_requests_def roots_of_def)

lemma requests_facts:
  assumes rf: "\<forall>r\<in>set rs. request_for g an (rts_of r) r" and d: "distinct (concat (map rts_of rs))" and con: "conflicts_ok an"
  shows "sorted_wrt own_names (rs @ auxiliary_requests auxiliary)" "\<forall>r\<in>set rs. distinct (map fst (alloc_assignments r))"
    "mutual_conflicts (rs @ auxiliary_requests auxiliary)"
proof -
  note p = distinct_pieces [OF d]
  then show "\<forall>r\<in>set rs. distinct (map fst (alloc_assignments r))" by (simp add: rts_of_def)
  have none: "alloc_auxiliary r = None" if "r \<in> set rs" for r using rf that by (simp add: request_for_def)
  have apart: "roots_of r \<inter> roots_of q = {}" if "r \<in> set rs" "q \<in> set rs" "r \<noteq> q" for r q
    using sorted_wrt_pair [OF conjunct1 [OF p] _ that] unfolding roots_of_rts by blast
  have "sorted_wrt own_names rs"
    by (rule sorted_wrt_mono_rel [OF _ conjunct1 [OF p]]) (simp add: own_names_def roots_of_rts none)
  moreover have "sorted_wrt own_names (auxiliary_requests auxiliary)"
    unfolding sorted_wrt_iff_nth_less
    by (auto simp: auxiliary_requests_def own_names_def roots_of_def nth_enumerate_eq)
  moreover have "own_names r q" if "r \<in> set rs" "q \<in> set (auxiliary_requests auxiliary)" for r q
    using none [OF that(1)] auxiliary_facts [OF that(2)] by (simp add: own_names_def)
  ultimately show "sorted_wrt own_names (rs @ auxiliary_requests auxiliary)" by (simp add: sorted_wrt_append)
  show "mutual_conflicts (rs @ auxiliary_requests auxiliary)"
    unfolding mutual_conflicts_def
  proof (intro ballI impI)
    fix r q assume r: "r \<in> set (rs @ auxiliary_requests auxiliary)" and q: "q \<in> set (rs @ auxiliary_requests auxiliary)"
      and meet: "set (alloc_conflicts r) \<inter> roots_of q \<noteq> {}"
    then have rq: "r \<in> set rs" "q \<in> set rs" using auxiliary_facts(1,2) by auto
    have c: "set (alloc_conflicts x) = (\<Union>root\<in>roots_of x. conflicts_at (root_conflicts an) root) - roots_of x" if "x \<in> set rs" for x
      using rf that by (simp add: request_for_def roots_of_rts)
    obtain a b where ab: "a \<in> roots_of r" "b \<in> conflicts_at (root_conflicts an) a" "b \<notin> roots_of r" "b \<in> roots_of q"
      using meet unfolding c [OF rq(1)] by blast
    then have "a \<in> conflicts_at (root_conflicts an) b" using con unfolding conflicts_ok_def by blast
    moreover have "a \<notin> roots_of q" using apart [OF rq] ab by blast
    ultimately have "a \<in> set (alloc_conflicts q)" unfolding c [OF rq(2)] using ab(4) by blast
    then show "set (alloc_conflicts q) \<inter> roots_of r \<noteq> {}" using ab(1) by blast
  qed
qed

lemma tile_members_separate: "separate_members (tile_members (tile_part g roots groups tile))"
  by (auto simp: separate_members_def tile_part_members set_members_with split: if_splits)

subsection \<open>The placement of a tile\<close>

text \<open>The members of the roots of a request lie in consecutive slots of equal width.\<close>

definition slots :: "low_graph \<Rightarrow> allocation_analysis \<Rightarrow> (nat \<rightharpoonup> nat) \<Rightarrow> allocation_request \<times> nat \<times> nat \<Rightarrow> nat \<Rightarrow> bool" where
  "slots g an addresses p width \<longleftrightarrow>
     (case p of (r, s, e) \<Rightarrow> s + width * length (rts_of r) \<le> e
       \<and> (\<forall>k<length (rts_of r). roomy g an (rts_of r ! k) width
            \<and> (\<forall>m\<in>set (members_with (root_of_member an) (rts_of r ! k)).
                 addresses m = Some (s + width * k + analysis_offsets an ! m))))"

lemma request_slots:
  assumes "request_for g an (rts_of r) r" and "placement_ok offset ranges (r, s, e)"
    and "members_at r s (tile_members (tile_part g (root_of_member an) groups tile)) (analysis_offsets an) addresses"
  shows "\<exists>width. slots g an addresses (r, s, e) width"
proof -
  let ?n = "length (rts_of r)"
  have n: "length (alloc_assignments r) = ?n" by (simp add: rts_of_def)
  obtain stride where st: "\<And>k. k < ?n \<Longrightarrow> snd (alloc_assignments r ! k) = stride * k \<and> roomy g an (rts_of r ! k) stride"
    "alloc_bytes r = stride * ?n" "\<And>wide. alloc_stride r = Some wide \<Longrightarrow> stride \<le> wide \<and> (stride = 0 \<longrightarrow> wide = 0)"
    using assms(1) unfolding request_for_def strided_def by blast
  have p: "s \<le> e" "alloc_stride r = None \<or> s < INTERLEAVED_MEMORY_BASE \<longrightarrow> e = s + alloc_bytes r"
    "\<And>w. alloc_stride r = Some w \<Longrightarrow> INTERLEAVED_MEMORY_BASE \<le> s \<Longrightarrow> s < e \<Longrightarrow> e = s + w * ?n"
    "e = s + alloc_bytes r \<or> (\<exists>w. alloc_stride r = Some w \<and> e = s + w * ?n)"
    using assms(2) unfolding placement_ok_def prod.case n by blast+
  have "\<exists>width. s + width * ?n \<le> e \<and> (\<forall>k<?n. assigned_offset r s k = width * k \<and> roomy g an (rts_of r ! k) width)"
  proof (cases "\<exists>w. alloc_stride r = Some w \<and> INTERLEAVED_MEMORY_BASE \<le> s")
    case True
    then obtain w where w: "alloc_stride r = Some w" "INTERLEAVED_MEMORY_BASE \<le> s" by blast
    have "s + w * ?n \<le> e"
    proof (cases "s < e")
      case False
      then have "stride * ?n = 0 \<or> w * ?n = 0" using p(1,4) st(2) w(1) by auto
      then show ?thesis using st(3) [OF w(1)] p(1) by auto
    qed (use p(3) [OF w] in simp)
    moreover have "assigned_offset r s k = w * k \<and> roomy g an (rts_of r ! k) w" if "k < ?n" for k
      using st(1) [OF that] st(3) [OF w(1)] roomy_mono [of g an "rts_of r ! k" stride w] w by (simp add: assigned_offset_def)
    ultimately show ?thesis by blast
  next
    case False
    then have "e = s + alloc_bytes r" using p(2) by (cases "alloc_stride r") auto
    moreover have "assigned_offset r s k = stride * k" if "k < ?n" for k
      using st(1) [OF that] False by (auto simp: assigned_offset_def split: option.split)
    ultimately show ?thesis using st(1,2) by (intro exI [of _ stride]) simp
  qed
  then obtain width where w: "s + width * ?n \<le> e" "\<And>k. k < ?n \<Longrightarrow> assigned_offset r s k = width * k \<and> roomy g an (rts_of r ! k) width"
    by blast
  have "addresses m = Some (s + width * k + analysis_offsets an ! m)"
    if "k < ?n" "m \<in> set (members_with (root_of_member an) (rts_of r ! k))" for k m
  proof -
    have k: "k < length (alloc_assignments r)" "fst (alloc_assignments r ! k) = rts_of r ! k" using that(1) by (simp_all add: rts_of_def)
    obtain ms where "tile_members (tile_part g (root_of_member an) groups tile) (rts_of r ! k) = Some ms"
      and ms: "\<forall>m\<in>set ms. addresses m = Some (s + assigned_offset r s k + analysis_offsets an ! m)"
      using assms(3) k unfolding members_at_def by metis
    then have "ms = members_with (root_of_member an) (rts_of r ! k)" by (simp add: tile_part_members split: if_splits)
    then show ?thesis using ms that(2) w(2) [OF that(1)] by simp
  qed
  then show ?thesis using w unfolding slots_def by (intro exI [of _ width]) simp
qed

definition tile_shards :: "low_graph \<Rightarrow> nat \<Rightarrow> nat set" where
  "tile_shards g tile = {i. i < graph_size g \<and> block_tile (graph_shards g ! i) = tile}"

definition apart_on :: "low_graph \<Rightarrow> allocation_analysis \<Rightarrow> lifetime list \<Rightarrow> nat set \<Rightarrow> (nat \<rightharpoonup> nat) \<Rightarrow> bool" where
  "apart_on g an ls ids addresses \<longleftrightarrow> (\<forall>i\<in>ids. \<forall>j\<in>ids. \<forall>a b k l.
     root_of_member an ! i \<noteq> root_of_member an ! j \<longrightarrow> lives_meet (ls ! i) (ls ! j) \<longrightarrow>
     addresses i = Some a \<longrightarrow> addresses j = Some b \<longrightarrow>
     shard_storage_bytes (graph_shards g ! i) = Inr k \<longrightarrow> shard_storage_bytes (graph_shards g ! j) = Inr l \<longrightarrow>
     {a..<a + k} \<inter> {b..<b + l} = {})"

definition stored_on :: "low_graph \<Rightarrow> lifetime list \<Rightarrow> (nat \<times> nat) list \<Rightarrow> nat set \<Rightarrow> (nat \<rightharpoonup> nat) \<Rightarrow> bool" where
  "stored_on g ls ranges ids addresses \<longleftrightarrow> (\<forall>i\<in>ids. \<exists>a k. addresses i = Some a
     \<and> shard_storage_bytes (graph_shards g ! i) = Inr k \<and> {a..<a + k} \<subseteq> covered ranges
     \<and> (life_first (ls ! i) = 0 \<or> life_last (ls ! i) = 2 ^ 32 - 1 \<longrightarrow> {a..<a + k} \<inter> span HOST_SCRATCH_RANGE = {}))"

definition based_on :: "low_graph \<Rightarrow> allocation_analysis \<Rightarrow> nat set \<Rightarrow> (nat \<rightharpoonup> nat) \<Rightarrow> bool" where
  "based_on g an ids addresses \<longleftrightarrow> (\<exists>base. \<forall>i\<in>ids. addresses i = Some (base (root_of_member an ! i) + analysis_offsets an ! i))"

lemma allocate_tile_shards:
  assumes req: "allocation_requests g an (tile_part g (root_of_member an) groups tile) = Inr rs"
    and al: "allocate_tile tile rs auxiliary (tile_members (tile_part g (root_of_member an) groups tile)) (analysis_offsets an)
        (arena_new ranges offset) Map.empty = Inr (a, addresses)"
    and av: "available_ok ranges" and ok: "roots_ok g an" "lifetimes_ok g an ls" "conflicts_ok an"
    and seen: "\<forall>i<graph_size g. life_seen (ls ! i)"
  shows "based_on g an (tile_shards g tile) addresses" "stored_on g ls ranges (tile_shards g tile) addresses"
    "apart_on g an ls (tile_shards g tile) addresses"
proof -
  let ?R = "root_of_member an" and ?ms = "tile_members (tile_part g (root_of_member an) groups tile)"
  note rf = allocation_requests_Inr [OF req ok seen]
  note facts = requests_facts(1) [OF rf(1,2) ok(3), of auxiliary] requests_facts(2) [OF rf(1,2) ok(3)]
    requests_facts(3) [OF rf(1,2) ok(3), of auxiliary]
  obtain lg where lg: "mset (map fst lg) = mset (rs @ auxiliary_requests auxiliary)" "\<forall>p\<in>set lg. placement_ok offset ranges p"
    "sorted_wrt keep_apart lg" "\<forall>(r, s, _)\<in>set lg. members_at r s ?ms (analysis_offsets an) addresses"
    using allocate_tile_log [OF al av tile_members_separate facts] by blast
  have slot: "\<exists>p width k. p \<in> set lg \<and> fst p \<in> set rs \<and> slots g an addresses p width \<and> k < length (rts_of (fst p)) \<and> rts_of (fst p) ! k = ?R ! i"
    if i: "i \<in> tile_shards g tile" for i
  proof -
    have i: "i < graph_size g" "block_tile (graph_shards g ! i) = tile" using i by (simp_all add: tile_shards_def)
    have "?R ! i \<in> set ?R" using ok(1) i(1) by (simp add: roots_ok_def)
    moreover have "block_tile (graph_shards g ! (?R ! i)) = tile" using ok(1) i unfolding roots_ok_def by metis
    ultimately obtain r where r: "r \<in> set rs" "?R ! i \<in> set (rts_of r)" using rf(3) by blast
    have "set (map fst lg) = set (rs @ auxiliary_requests auxiliary)" by (rule mset_eq_setD [OF lg(1)])
    then have "r \<in> fst ` set lg" using r(1) by auto
    then obtain s e where p: "(r, s, e) \<in> set lg" by force
    have "\<exists>width. slots g an addresses (r, s, e) width"
      by (rule request_slots [of _ _ _ offset ranges]) (use rf(1) r(1) lg(2,4) p in auto)
    then show ?thesis using p r by (force simp: in_set_conv_nth)
  qed
  have in_slot: "addresses i = Some (fst (snd p) + width * k + analysis_offsets an ! i)
      \<and> (\<exists>b. shard_storage_bytes (graph_shards g ! i) = Inr b \<and> analysis_offsets an ! i + b \<le> width)"
    if "slots g an addresses p width" "k < length (rts_of (fst p))" "rts_of (fst p) ! k = ?R ! i" "i \<in> tile_shards g tile" for p width k i
  proof -
    have "i \<in> set (members_with ?R (rts_of (fst p) ! k))"
      using that(3,4) ok(1) by (simp add: set_members_with tile_shards_def roots_ok_def)
    then show ?thesis using that(1,2) unfolding slots_def roomy_def by (auto split: prod.splits)
  qed
  have inside: "{fst (snd p) + width * k + x..<fst (snd p) + width * k + x + b} \<subseteq> {fst (snd p)..<snd (snd p)}"
    if "slots g an addresses p width" "k < length (rts_of (fst p))" "x + b \<le> width" for p width k x b
  proof -
    have "width * k + width \<le> width * length (rts_of (fst p))" using that(2) mult_le_mono2 [of "Suc k" "length (rts_of (fst p))" width] by simp
    then show ?thesis using that(1,3) unfolding slots_def by (auto split: prod.splits)
  qed
  have life: "outlives (ls ! i) (alloc_lifetime (fst p)) \<and> life_in (alloc_lifetime (fst p))"
    if p: "fst p \<in> set rs" and k: "k < length (rts_of (fst p))" "rts_of (fst p) ! k = ?R ! i" and i: "i \<in> tile_shards g tile" for p k i
  proof -
    have lw: "lives_within an (rts_of (fst p)) (alloc_lifetime (fst p))" using rf(1) p by (simp add: request_for_def)
    have i: "i < graph_size g" using i by (simp add: tile_shards_def)
    obtain m where m: "root_lifetimes an (?R ! i) = Some m" "outlives (ls ! i) m" using ok(2) i unfolding lifetimes_ok_def by blast
    have "?R ! i \<in> set (rts_of (fst p))" using k by (metis nth_mem)
    then have "outlives m (alloc_lifetime (fst p))" using lw m by (auto simp: lives_within_def outlives_def)
    moreover have "life_in x" if x: "root \<in> set (rts_of (fst p))" "root_lifetimes an root = Some x" for root x
    proof -
      have "root \<in> set ?R" using rf(5) [OF p] x(1) by blast
      then obtain j where "j < graph_size g" "root = ?R ! j" using ok(1) by (auto simp: roots_ok_def in_set_conv_nth)
      then show ?thesis using ok(2) x(2) unfolding lifetimes_ok_def by (metis option.inject)
    qed
    ultimately show ?thesis using lw outlives_trans [OF m(2)] unfolding lives_within_def by blast
  qed
  show "based_on g an (tile_shards g tile) addresses"
  proof -
    have "\<exists>b. \<forall>i\<in>tile_shards g tile. ?R ! i = root \<longrightarrow> addresses i = Some (b + analysis_offsets an ! i)" for root
    proof (cases "\<exists>i\<in>tile_shards g tile. ?R ! i = root")
      case True
      then obtain i where i: "i \<in> tile_shards g tile" "?R ! i = root" by blast
      obtain p width k where "slots g an addresses p width" "k < length (rts_of (fst p))" "rts_of (fst p) ! k = ?R ! i"
        using slot [OF i(1)] by blast
      then show ?thesis using in_slot i(2) by (intro exI [of _ "fst (snd p) + width * k"]) simp
    qed blast
    then obtain base where "\<forall>root. \<forall>i\<in>tile_shards g tile. ?R ! i = root \<longrightarrow> addresses i = Some (base root + analysis_offsets an ! i)"
      by metis
    then show ?thesis unfolding based_on_def by blast
  qed
  show "stored_on g ls ranges (tile_shards g tile) addresses"
    unfolding stored_on_def
  proof
    fix i assume i: "i \<in> tile_shards g tile"
    obtain p width k where p: "p \<in> set lg" "fst p \<in> set rs" and sl: "slots g an addresses p width"
      and k: "k < length (rts_of (fst p))" "rts_of (fst p) ! k = ?R ! i" using slot [OF i] by blast
    obtain b where a: "addresses i = Some (fst (snd p) + width * k + analysis_offsets an ! i)"
      and b: "shard_storage_bytes (graph_shards g ! i) = Inr b" "analysis_offsets an ! i + b \<le> width"
      using in_slot [OF sl k i] by blast
    note sub = inside [OF sl k(1) b(2)]
    obtain r s e where q: "p = (r, s, e)" by (metis surj_pair)
    have "placement_ok offset ranges p" using lg(2) p(1) by blast
    then have pl: "{s..<e} \<subseteq> covered ranges"
      "life_first (alloc_lifetime r) = 0 \<or> life_last (alloc_lifetime r) = 2 ^ 32 - 1 \<Longrightarrow> {s..<e} \<inter> span HOST_SCRATCH_RANGE = {}"
      unfolding q placement_ok_def prod.case by blast+
    have lf: "outlives (ls ! i) (alloc_lifetime r)" "life_in (alloc_lifetime r)" using life [OF p(2) k i] by (simp_all add: q)
    have "life_first (alloc_lifetime r) = 0 \<or> life_last (alloc_lifetime r) = 2 ^ 32 - 1"
      if "life_first (ls ! i) = 0 \<or> life_last (ls ! i) = 2 ^ 32 - 1"
      using that lf by (auto simp: outlives_def life_in_def)
    then show "\<exists>a k. addresses i = Some a \<and> shard_storage_bytes (graph_shards g ! i) = Inr k \<and> {a..<a + k} \<subseteq> covered ranges
        \<and> (life_first (ls ! i) = 0 \<or> life_last (ls ! i) = 2 ^ 32 - 1 \<longrightarrow> {a..<a + k} \<inter> span HOST_SCRATCH_RANGE = {})"
      using a b(1) sub pl unfolding q fst_conv snd_conv by blast
  qed
  show "apart_on g an ls (tile_shards g tile) addresses"
    unfolding apart_on_def
  proof (intro ballI allI impI)
    fix i j a b bi bj
    assume i: "i \<in> tile_shards g tile" and j: "j \<in> tile_shards g tile" and ne: "?R ! i \<noteq> ?R ! j" and meet: "lives_meet (ls ! i) (ls ! j)"
      and a: "addresses i = Some a" and b: "addresses j = Some b"
      and bi: "shard_storage_bytes (graph_shards g ! i) = Inr bi" and bj: "shard_storage_bytes (graph_shards g ! j) = Inr bj"
    obtain p w k where p: "p \<in> set lg" "fst p \<in> set rs" and sl: "slots g an addresses p w"
      and k: "k < length (rts_of (fst p))" "rts_of (fst p) ! k = ?R ! i" using slot [OF i] by blast
    obtain q v l where q: "q \<in> set lg" "fst q \<in> set rs" and sq: "slots g an addresses q v"
      and l: "l < length (rts_of (fst q))" "rts_of (fst q) ! l = ?R ! j" using slot [OF j] by blast
    have ai: "a = fst (snd p) + w * k + analysis_offsets an ! i" "analysis_offsets an ! i + bi \<le> w"
      using in_slot [OF sl k i] a bi by simp_all
    show "{a..<a + bi} \<inter> {b..<b + bj} = {}"
    proof (cases "p = q")
      case True
      then have lp: "l < length (rts_of (fst p))" "rts_of (fst p) ! l = ?R ! j" using l by simp_all
      have aj: "b = fst (snd p) + w * l + analysis_offsets an ! j" "analysis_offsets an ! j + bj \<le> w"
        using in_slot [OF sl lp j] b bj by simp_all
      have "k \<noteq> l" using k(2) lp(2) ne by auto
      then have "w * k + w \<le> w * l \<or> w * l + w \<le> w * k"
        using mult_le_mono2 [of "Suc k" l w] mult_le_mono2 [of "Suc l" k w] by (cases "k < l") simp_all
      then show ?thesis using ai aj by auto
    next
      case False
      have aj: "b = fst (snd q) + v * l + analysis_offsets an ! j" "analysis_offsets an ! j + bj \<le> v"
        using in_slot [OF sq l j] b bj by simp_all
      have "keep_apart p q" by (rule sorted_wrt_pair [OF lg(3) keep_apart_sym p(1) q(1) False])
      moreover have "lives_meet (alloc_lifetime (fst p)) (alloc_lifetime (fst q))"
        using outlives_meet [OF meet] life [OF p(2) k i] life [OF q(2) l j] by blast
      ultimately have "span (snd p) \<inter> span (snd q) = {}" by (simp add: keep_apart_def)
      then show ?thesis using inside [OF sl k(1) ai(2)] inside [OF sq l(1) aj(2)] unfolding ai(1) aj(1) span_def by blast
    qed
  qed
qed

subsection \<open>Sequences\<close>

definition sequence_ok :: "(nat \<rightharpoonup> nat) \<Rightarrow> (nat \<rightharpoonup> nat) \<Rightarrow> nat list \<times> nat \<Rightarrow> bool" where
  "sequence_ok addresses strides p \<longleftrightarrow>
     (\<exists>a stride. addresses (snd p) = Some a \<and> strides (snd p) = Some stride \<and> 4 dvd stride
        \<and> (\<forall>k<length (fst p). addresses (fst p ! k) = Some (a + stride * k)))"

lemma check_sequence_Inr:
  "check_sequence addresses initial stride xs = Inr u \<Longrightarrow> \<forall>(k, shard)\<in>set xs. addresses shard = Some (initial + stride * k)"
  by (induction addresses initial stride xs rule: check_sequence.induct) (auto simp: res_simps split: if_splits)

lemma sequence_stride_Inr:
  assumes "sequence_stride an a addresses gr = Inr stride" and "strides (group_argument gr) = Some stride"
  shows "sequence_ok addresses strides (group_key gr)"
proof -
  obtain initial u where i: "addresses (group_argument gr) = Some initial" "is_multiple_of stride 4"
    "check_sequence addresses initial stride (enumerate 0 (group_shards gr)) = Inr u"
    using assms(1) by (auto simp: sequence_stride_def res_simps)
  have "addresses (group_shards gr ! k) = Some (initial + stride * k)" if "k < length (group_shards gr)" for k
    using check_sequence_Inr [OF i(3)] that by (auto simp: in_set_enumerate_eq)
  then show ?thesis using i(1,2) assms(2) by (auto simp: sequence_ok_def group_key_def is_multiple_of_dvd)
qed

lemma sequence_strides_Inr:
  "sequence_strides an a addresses grs strides = Inr strides' \<Longrightarrow> distinct (map group_argument grs) \<Longrightarrow>
   (\<forall>gr\<in>set grs. sequence_ok addresses strides' (group_key gr))
   \<and> (\<forall>x. x \<notin> group_argument ` set grs \<longrightarrow> strides' x = strides x)
   \<and> (\<forall>gr\<in>set grs. addresses (group_argument gr) \<noteq> None)"
proof (induction grs arbitrary: strides)
  case (Cons gr grs)
  obtain stride where st: "sequence_stride an a addresses gr = Inr stride"
    and r: "sequence_strides an a addresses grs (strides(group_argument gr \<mapsto> stride)) = Inr strides'"
    using Cons.prems(1) by (auto simp: res_simps)
  have IH: "\<forall>gr\<in>set grs. sequence_ok addresses strides' (group_key gr)"
    "\<And>x. x \<notin> group_argument ` set grs \<Longrightarrow> strides' x = (strides(group_argument gr \<mapsto> stride)) x"
    "\<forall>gr\<in>set grs. addresses (group_argument gr) \<noteq> None"
    using Cons.IH [OF r] Cons.prems(2) by simp_all
  have "strides' (group_argument gr) = Some stride" using IH(2) [of "group_argument gr"] Cons.prems(2) by simp
  then have s: "sequence_ok addresses strides' (group_key gr)" by (rule sequence_stride_Inr [OF st])
  then have "addresses (group_argument gr) \<noteq> None" by (auto simp: sequence_ok_def group_key_def)
  then show ?case using IH s by auto
qed simp

lemma distinct_heads:
  "distinct (concat (map f xs)) \<Longrightarrow> \<forall>x\<in>set xs. h x \<in> set (f x) \<Longrightarrow> distinct (map h xs)"
proof (induction xs)
  case (Cons x xs)
  then show ?case by fastforce
qed simp

subsection \<open>The placement of a device\<close>

definition scratch_ranges :: "low_graph \<Rightarrow> (nat \<times> nat) list \<Rightarrow> (nat \<times> nat) list" where
  "scratch_ranges g available = filter (\<lambda>rng. \<not> requires_finite_scratch (low_program g) \<or> rng \<noteq> HOST_SCRATCH_RANGE) available"

lemma place_tile_Inr:
  assumes "place_tile g tile available offset an ta auxiliary = Inr p"
  obtains rs a where "allocation_requests g an ta = Inr rs"
    "allocate_tile tile rs auxiliary (tile_members ta) (analysis_offsets an) (arena_new (scratch_ranges g available) offset) Map.empty
       = Inr (a, placed_addresses p)"
    "sequence_strides an a (placed_addresses p) (tile_iterated ta) Map.empty = Inr (placed_strides p)"
proof -
  note eq = assms [unfolded place_tile_def Let_def, folded scratch_ranges_def]
  obtain rs where rs: "allocation_requests g an ta = Inr rs"
    using eq by (cases "allocation_requests g an ta") (simp_all only: res_bind_simps sum.simps)
  note eq1 = eq [unfolded rs res_bind_simps]
  let ?al = "allocate_tile tile rs auxiliary (tile_members ta) (analysis_offsets an) (arena_new (scratch_ranges g available) offset) Map.empty"
  obtain x where x: "?al = Inr x"
    using eq1 by (cases ?al) (simp_all only: res_bind_simps sum.simps)
  obtain a addresses where a: "x = (a, addresses)" by (cases x)
  note eq2 = eq1 [unfolded x a res_bind_simps prod.case]
  obtain strides where st: "sequence_strides an a addresses (tile_iterated ta) Map.empty = Inr strides"
    using eq2 by (cases "sequence_strides an a addresses (tile_iterated ta) Map.empty") (simp_all only: res_bind_simps sum.simps)
  note eq3 = eq2 [unfolded st res_bind_simps res_bind_Inr]
  then have "placed_addresses p = addresses" "placed_strides p = strides" by auto
  then show ?thesis using rs x st a by (intro that) simp_all
qed

text \<open>What one tile contributes.\<close>

lemma place_tile_post:
  assumes pt: "place_tile g tile available offset an (tile_part g (root_of_member an) groups tile) auxiliary = Inr p"
    and av: "available_ok available" and ok: "roots_ok g an" "lifetimes_ok g an ls" "conflicts_ok an"
    and seen: "\<forall>i<graph_size g. life_seen (ls ! i)" and solved: "solved g an"
    and groups: "\<forall>gr\<in>set groups. group_shards gr \<noteq> [] \<and> constraint g (hd (group_shards gr)) (group_argument gr) 0"
  shows "based_on g an (tile_shards g tile) (placed_addresses p)"
    "stored_on g ls (scratch_ranges g available) (tile_shards g tile) (placed_addresses p)"
    "apart_on g an ls (tile_shards g tile) (placed_addresses p)"
    "\<forall>i a. placed_addresses p i = Some a \<longrightarrow> a < 2 ^ 32"
    "dom (placed_addresses p) \<subseteq> tile_shards g tile" "dom (placed_strides p) \<subseteq> tile_shards g tile"
    "\<forall>gr\<in>set groups. group_tile gr = tile \<longrightarrow> sequence_ok (placed_addresses p) (placed_strides p) (group_key gr)"
proof -
  let ?R = "root_of_member an" and ?ta = "tile_part g (root_of_member an) groups tile" and ?its = "filter (\<lambda>gr. group_tile gr = tile) groups"
  have its: "tile_iterated ?ta = ?its" by (simp add: tile_part_def)
  obtain rs a where rs: "allocation_requests g an ?ta = Inr rs"
    and al: "allocate_tile tile rs auxiliary (tile_members ?ta) (analysis_offsets an) (arena_new (scratch_ranges g available) offset) Map.empty
        = Inr (a, placed_addresses p)"
    and st: "sequence_strides an a (placed_addresses p) ?its Map.empty = Inr (placed_strides p)"
    by (rule place_tile_Inr [OF pt, unfolded its], rule that)
  have av': "available_ok (scratch_ranges g available)" unfolding scratch_ranges_def by (rule available_filter [OF av])
  note al3 = allocate_tile_shards [OF rs al av' ok seen]
  show "based_on g an (tile_shards g tile) (placed_addresses p)"
    "stored_on g ls (scratch_ranges g available) (tile_shards g tile) (placed_addresses p)"
    "apart_on g an ls (tile_shards g tile) (placed_addresses p)" by (fact al3)+
  show "\<forall>i a. placed_addresses p i = Some a \<longrightarrow> a < 2 ^ 32" using allocate_tile_members [OF al] unfolding members_only_def by blast
  show dom: "dom (placed_addresses p) \<subseteq> tile_shards g tile"
  proof
    fix i assume "i \<in> dom (placed_addresses p)"
    then obtain root ms where "tile_members ?ta root = Some ms" "i \<in> set ms"
      using allocate_tile_members [OF al] unfolding members_only_def by blast
    then have i: "i < length ?R" "block_tile (graph_shards g ! (?R ! i)) = tile"
      by (auto simp: tile_part_members set_members_with split: if_splits)
    have r: "i < graph_size g" "?R ! i < graph_size g" "?R ! (?R ! i) = ?R ! i" using ok(1) i(1) by (simp_all add: roots_ok_def)
    then have "block_tile (graph_shards g ! i) = block_tile (graph_shards g ! (?R ! i))" using ok(1) unfolding roots_ok_def by metis
    then show "i \<in> tile_shards g tile" using i(2) r(1) by (simp add: tile_shards_def)
  qed
  note rf = allocation_requests_Inr [OF rs ok seen]
  have head: "?R ! group_argument gr \<in> set (map ((!) ?R) (group_shards gr))" if "gr \<in> set ?its" for gr
  proof -
    have "gr \<in> set groups" using that by simp
    then have "group_shards gr \<noteq> []" "constraint g (hd (group_shards gr)) (group_argument gr) 0" using groups by blast+
    then show ?thesis using solved hd_in_set [of "group_shards gr"] unfolding solved_def by (metis image_eqI list.set_map)
  qed
  have "distinct (map (\<lambda>gr. ?R ! group_argument gr) ?its)" by (rule distinct_heads [OF rf(4)]) (use head in blast)
  then have d: "distinct (map group_argument ?its)" by (simp add: distinct_map inj_on_def)
  note s = sequence_strides_Inr [OF st d]
  then show "\<forall>gr\<in>set groups. group_tile gr = tile \<longrightarrow> sequence_ok (placed_addresses p) (placed_strides p) (group_key gr)" by simp
  show "dom (placed_strides p) \<subseteq> tile_shards g tile"
  proof
    fix i assume "i \<in> dom (placed_strides p)"
    then have "i \<in> group_argument ` set ?its" using s by (auto simp: dom_def)
    then have "placed_addresses p i \<noteq> None" using s by blast
    then show "i \<in> tile_shards g tile" using dom by blast
  qed
qed

lemma place_tile_default:
  assumes "place_tile g tile available offset an tile_default auxiliary = Inr p"
  shows "placed_addresses p = Map.empty" "placed_strides p = Map.empty"
proof -
  have default: "tile_members tile_default = Map.empty" "tile_iterated tile_default = []" by (simp_all add: tile_default_def)
  obtain rs a where al: "allocate_tile tile rs auxiliary Map.empty (analysis_offsets an) (arena_new (scratch_ranges g available) offset) Map.empty
      = Inr (a, placed_addresses p)" and "placed_strides p = Map.empty"
    by (rule place_tile_Inr [OF assms, unfolded default sequence_strides.simps sum.inject], rule that, assumption, erule sym)
  then show "placed_strides p = Map.empty" by simp
  show "placed_addresses p = Map.empty" using allocate_tile_members [OF al] by (auto simp: members_only_def)
qed

lemma foldl_other: "\<forall>x\<in>set ms. x i = None \<Longrightarrow> foldl (++) m ms i = m i"
  by (induction ms arbitrary: m) (auto simp: map_add_def)

lemma foldl_only:
  assumes "t < length ms" and "\<And>j. j < length ms \<Longrightarrow> j \<noteq> t \<Longrightarrow> (ms ! j) i = None"
  shows "foldl (++) Map.empty ms i = (ms ! t) i"
proof -
  have s: "ms = take t ms @ ms ! t # drop (Suc t) ms" by (rule id_take_nth_drop [OF assms(1)])
  have "x i = None" if "x \<in> set (take t ms) \<union> set (drop (Suc t) ms)" for x
    using that assms(2) by (auto simp: in_set_conv_nth)
  then have "foldl (++) m (take t ms) i = m i" "foldl (++) m (drop (Suc t) ms) i = m i" for m
    by (simp_all add: foldl_other)
  moreover have "foldl (++) Map.empty ms i = foldl (++) (foldl (++) Map.empty (take t ms) ++ (ms ! t)) (drop (Suc t) ms) i"
    by (subst s) (simp only: foldl_append foldl_Cons)
  ultimately show ?thesis by (simp add: map_add_def split: option.split)
qed

definition addresses_solve :: "low_graph \<Rightarrow> (nat \<rightharpoonup> nat) \<Rightarrow> bool" where
  "addresses_solve g addresses \<longleftrightarrow> (\<forall>l r x. constraint g l r x \<longrightarrow>
     (\<exists>a b. addresses l = Some a \<and> addresses r = Some b \<and> int a = int b + x))"

text \<open>Shards of one tile that no constraint ties and that are live at a common event.\<close>

definition live_shards_apart :: "low_graph \<Rightarrow> lifetime list \<Rightarrow> (nat \<rightharpoonup> nat) \<Rightarrow> bool" where
  "live_shards_apart g ls addresses \<longleftrightarrow> (\<forall>i<graph_size g. \<forall>j<graph_size g. \<forall>a b k l.
     block_tile (graph_shards g ! i) = block_tile (graph_shards g ! j) \<longrightarrow> (i, j) \<notin> tied g \<longrightarrow> lives_meet (ls ! i) (ls ! j) \<longrightarrow>
     addresses i = Some a \<longrightarrow> addresses j = Some b \<longrightarrow>
     shard_storage_bytes (graph_shards g ! i) = Inr k \<longrightarrow> shard_storage_bytes (graph_shards g ! j) = Inr l \<longrightarrow>
     {a..<a + k} \<inter> {b..<b + l} = {})"

lemma place_with_auxiliary_Inr:
  assumes "place_with_auxiliary g available offset auxiliary = Inr P"
  obtains an n tls placed where "available_ok available" "analyze_allocations g = Inr an"
    "n = max (graph_tile_count (low_program g)) (length auxiliary)"
    "tls = analysis_tiles an @ replicate (n - length (analysis_tiles an)) tile_default" "length placed = n"
    "\<forall>t<n. \<exists>aux. place_tile g t available offset an (tls ! t) aux = Inr (placed ! t)"
    "shard_addresses P = foldl (++) Map.empty (map placed_addresses placed)"
    "sequence_strides_of P = foldl (++) Map.empty (map placed_strides placed)"
proof -
  define n where "n = max (graph_tile_count (low_program g)) (length auxiliary)"
  have av: "available_ok available" using assms by (auto simp: place_with_auxiliary_def split: if_splits)
  obtain an where an: "analyze_allocations g = Inr an"
    using assms by (auto simp: place_with_auxiliary_def res_simps split: if_splits)
  define tls where "tls = analysis_tiles an @ replicate (n - length (analysis_tiles an)) tile_default"
  define f where "f tile = res_bind (ok_or (try_from 16 tile) (Fail PlacementOverflow)) (\<lambda>t.
      place_tile g t available offset an (tls ! tile) (case get auxiliary tile of None \<Rightarrow> [] | Some x \<Rightarrow> x))" for tile
  have "res_bind (traverse f [0..<n]) (\<lambda>placed.
           Inr \<lparr>shard_addresses = foldl (++) Map.empty (map placed_addresses placed),
                sequence_strides_of = foldl (++) Map.empty (map placed_strides placed),
                tile_auxiliary_ranges = map placed_unused placed,
                auxiliary_allocations = map placed_auxiliary placed\<rparr>) = Inr P"
    using assms unfolding place_with_auxiliary_def an Let_def res_bind_simps f_def tls_def n_def by (simp split: if_splits)
  then obtain placed where t: "traverse f [0..<n] = Inr placed"
    and P: "shard_addresses P = foldl (++) Map.empty (map placed_addresses placed)"
      "sequence_strides_of P = foldl (++) Map.empty (map placed_strides placed)"
    unfolding res_bind_Inr by auto
  have "\<exists>aux. place_tile g i available offset an (tls ! i) aux = Inr (placed ! i)" if "i < n" for i
  proof -
    have "f i = Inr (placed ! i)" using traverse_nth [OF t, of i] that by simp
    then show ?thesis unfolding f_def by (auto simp: res_simps try_from_def split: if_splits)
  qed
  then show ?thesis using that [OF av an n_def tls_def _ _ P] traverse_length [OF t] by simp
qed

lemma placement_lemma:
  assumes pl: "place_with_auxiliary g available offset auxiliary = Inr P" and ids: "ids_ok g"
  obtains ls where "collect_lifetimes g = Some ls" "stored_on g ls (scratch_ranges g available) {..<graph_size g} (shard_addresses P)"
    "addresses_solve g (shard_addresses P)" "\<forall>p\<in>graph_groups g. sequence_ok (shard_addresses P) (sequence_strides_of P) p"
    "live_shards_apart g ls (shard_addresses P)" "\<And>i a. i < graph_size g \<Longrightarrow> shard_addresses P i = Some a \<Longrightarrow> a < 2 ^ 32"
proof -
  let ?N = "graph_size g" and ?T = "graph_tile_count (low_program g)" and ?A = "shard_addresses P"
  obtain an n tls placed where av: "available_ok available" and an: "analyze_allocations g = Inr an" and n: "n = max ?T (length auxiliary)"
    and tls: "tls = analysis_tiles an @ replicate (n - length (analysis_tiles an)) tile_default" and len: "length placed = n"
    and pt: "\<forall>t<n. \<exists>aux. place_tile g t available offset an (tls ! t) aux = Inr (placed ! t)"
    and P: "?A = foldl (++) Map.empty (map placed_addresses placed)"
      "sequence_strides_of P = foldl (++) Map.empty (map placed_strides placed)"
    by (rule place_with_auxiliary_Inr [OF pl])
  obtain ls groups where ls: "collect_lifetimes g = Some ls" and ok: "roots_ok g an" "lifetimes_ok g an ls" "conflicts_ok an"
    and solved: "solved g an" and sp: "split_ok g an groups"
    by (rule analysis_post [OF an ids])
  have seen: "\<forall>i<?N. life_seen (ls ! i)" using collect_lifetimes_ok(2) [OF ls] by blast
  have keys: "group_key ` set groups = graph_groups g" using sp by (simp add: split_ok_def)
  have groups: "\<forall>gr\<in>set groups. group_shards gr \<noteq> [] \<and> constraint g (hd (group_shards gr)) (group_argument gr) 0"
  proof
    fix gr assume "gr \<in> set groups"
    then have "group_key gr \<in> graph_groups g" using keys by blast
    then show "group_shards gr \<noteq> [] \<and> constraint g (hd (group_shards gr)) (group_argument gr) 0"
      using graph_groups_constraint [OF an ids, of "(group_shards gr, group_argument gr)"] by (simp add: group_key_def)
  qed
  have part: "tls ! t = tile_part g (root_of_member an) groups t" if "t < ?T" for t
    using sp that unfolding tls split_ok_def by (simp add: nth_append)
  have default: "tls ! t = tile_default" if "t < n" "\<not> t < ?T" for t
    using sp that unfolding tls split_ok_def by (simp add: nth_append)
  note post = place_tile_post [OF _ av ok seen solved groups]
  have doms: "dom (placed_addresses (placed ! t)) \<subseteq> tile_shards g t \<and> dom (placed_strides (placed ! t)) \<subseteq> tile_shards g t" if "t < n" for t
  proof -
    obtain aux where a: "place_tile g t available offset an (tls ! t) aux = Inr (placed ! t)" using pt \<open>t < n\<close> by blast
    show ?thesis
    proof (cases "t < ?T")
      case True
      then show ?thesis using post(5,6) a part by metis
    next
      case False
      then have "place_tile g t available offset an tile_default aux = Inr (placed ! t)" using a default \<open>t < n\<close> by simp
      from place_tile_default [OF this] show ?thesis by simp
    qed
  qed
  have only: "?A i = placed_addresses (placed ! t) i" "sequence_strides_of P i = placed_strides (placed ! t) i"
    if "t < n" "i \<in> tile_shards g t" for t i
  proof -
    have other: "placed_addresses (placed ! j) i = None \<and> placed_strides (placed ! j) i = None" if "j < n" "j \<noteq> t" for j
      using doms [OF that(1)] \<open>i \<in> tile_shards g t\<close> that(2) by (auto simp: tile_shards_def)
    show "?A i = placed_addresses (placed ! t) i" "sequence_strides_of P i = placed_strides (placed ! t) i"
      using foldl_only [of t "map placed_addresses placed" i] foldl_only [of t "map placed_strides placed" i] other that(1) len
      unfolding P by simp_all
  qed
  have tile: "t < n" "based_on g an (tile_shards g t) (placed_addresses (placed ! t))"
    "stored_on g ls (scratch_ranges g available) (tile_shards g t) (placed_addresses (placed ! t))"
    "apart_on g an ls (tile_shards g t) (placed_addresses (placed ! t))"
    "\<forall>gr\<in>set groups. group_tile gr = t \<longrightarrow> sequence_ok (placed_addresses (placed ! t)) (placed_strides (placed ! t)) (group_key gr)"
    "\<forall>i a. placed_addresses (placed ! t) i = Some a \<longrightarrow> a < 2 ^ 32"
    if t: "t < ?T" for t
  proof -
    show "t < n" using t n by simp
    then obtain aux where "place_tile g t available offset an (tile_part g (root_of_member an) groups t) aux = Inr (placed ! t)"
      using pt part [OF t] by metis
    from post(1,2,3,7,4) [OF this]
    show "based_on g an (tile_shards g t) (placed_addresses (placed ! t))"
      "stored_on g ls (scratch_ranges g available) (tile_shards g t) (placed_addresses (placed ! t))"
      "apart_on g an ls (tile_shards g t) (placed_addresses (placed ! t))"
      "\<forall>gr\<in>set groups. group_tile gr = t \<longrightarrow> sequence_ok (placed_addresses (placed ! t)) (placed_strides (placed ! t)) (group_key gr)"
      "\<forall>i a. placed_addresses (placed ! t) i = Some a \<longrightarrow> a < 2 ^ 32" .
  qed
  have home: "block_tile (graph_shards g ! i) < ?T" "i \<in> tile_shards g (block_tile (graph_shards g ! i))" if "i < ?N" for i
    using sp that by (simp_all add: split_ok_def tile_shards_def)
  have placed_at: "?A i = placed_addresses (placed ! block_tile (graph_shards g ! i)) i" if "i < ?N" for i
    using only(1) tile(1) home that by blast
  have "stored_on g ls (scratch_ranges g available) {..<?N} ?A"
    unfolding stored_on_def
  proof
    fix i assume "i \<in> {..<?N}"
    then have i: "i < ?N" by simp
    show "\<exists>a k. ?A i = Some a \<and> shard_storage_bytes (graph_shards g ! i) = Inr k \<and> {a..<a + k} \<subseteq> covered (scratch_ranges g available)
        \<and> (life_first (ls ! i) = 0 \<or> life_last (ls ! i) = 2 ^ 32 - 1 \<longrightarrow> {a..<a + k} \<inter> span HOST_SCRATCH_RANGE = {})"
      unfolding placed_at [OF i] using tile(3) [OF home(1) [OF i], unfolded stored_on_def] home(2) [OF i] by blast
  qed
  moreover have "addresses_solve g ?A"
    unfolding addresses_solve_def
  proof (intro allI impI)
    fix l r x assume c: "constraint g l r x"
    have s: "linked g l r" "root_of_member an ! l = root_of_member an ! r" "int (analysis_offsets an ! l) = int (analysis_offsets an ! r) + x"
      using solved c unfolding solved_def by blast+
    let ?t = "block_tile (graph_shards g ! l)"
    have l: "l < ?N" "r < ?N" "block_tile (graph_shards g ! r) = ?t" using s(1) by (simp_all add: linked_def)
    obtain base where base: "\<forall>i\<in>tile_shards g ?t. placed_addresses (placed ! ?t) i = Some (base (root_of_member an ! i) + analysis_offsets an ! i)"
      using tile(2) [OF home(1) [OF l(1)]] unfolding based_on_def by blast
    have "?A l = Some (base (root_of_member an ! l) + analysis_offsets an ! l)" "?A r = Some (base (root_of_member an ! l) + analysis_offsets an ! r)"
      using base home(2) [OF l(1)] home(2) [OF l(2)] placed_at [OF l(1)] placed_at [OF l(2)] s(2) l(3) by simp_all
    then show "\<exists>a b. ?A l = Some a \<and> ?A r = Some b \<and> int a = int b + x" using s(3) by simp
  qed
  moreover have "\<forall>p\<in>graph_groups g. sequence_ok ?A (sequence_strides_of P) p"
  proof
    fix p assume "p \<in> graph_groups g"
    then obtain gr where gr: "gr \<in> set groups" "p = group_key gr" using keys by blast
    let ?t = "group_tile gr"
    have t: "?t < ?T" using sp gr(1) by (simp add: split_ok_def)
    have same: "?A i = Some a" if "placed_addresses (placed ! ?t) i = Some a" for i a
      using only(1) [OF tile(1) [OF t]] doms [OF tile(1) [OF t]] that by (metis domI subsetD)
    have same': "sequence_strides_of P i = Some a" if "placed_strides (placed ! ?t) i = Some a" for i a
      using only(2) [OF tile(1) [OF t]] doms [OF tile(1) [OF t]] that by (metis domI subsetD)
    have "sequence_ok (placed_addresses (placed ! ?t)) (placed_strides (placed ! ?t)) p" using tile(5) [OF t] gr by simp
    then show "sequence_ok ?A (sequence_strides_of P) p" unfolding sequence_ok_def using same same' by blast
  qed
  moreover have "live_shards_apart g ls ?A"
    unfolding live_shards_apart_def
  proof (intro allI impI)
    fix i j a b k l
    assume i: "i < ?N" and j: "j < ?N" and t: "block_tile (graph_shards g ! i) = block_tile (graph_shards g ! j)"
      and free: "(i, j) \<notin> tied g" and meet: "lives_meet (ls ! i) (ls ! j)"
      and a: "?A i = Some a" and b: "?A j = Some b"
      and k: "shard_storage_bytes (graph_shards g ! i) = Inr k" and l: "shard_storage_bytes (graph_shards g ! j) = Inr l"
    have ne: "root_of_member an ! i \<noteq> root_of_member an ! j" using ok(1) i j free unfolding roots_ok_def by blast
    have ab: "placed_addresses (placed ! block_tile (graph_shards g ! j)) i = Some a" "placed_addresses (placed ! block_tile (graph_shards g ! j)) j = Some b"
      using placed_at [OF i] placed_at [OF j] a b t by simp_all
    have mem: "i \<in> tile_shards g (block_tile (graph_shards g ! j))" "j \<in> tile_shards g (block_tile (graph_shards g ! j))"
      using home(2) [OF i] home(2) [OF j] t by simp_all
    show "{a..<a + k} \<inter> {b..<b + l} = {}"
      using tile(4) [OF home(1) [OF j]] mem ne meet ab k l unfolding apart_on_def by blast
  qed
  moreover have "a < 2 ^ 32" if "i < ?N" "?A i = Some a" for i a
    using placed_at [OF that(1)] tile(6) [OF home(1) [OF that(1)]] that(2) by simp
  ultimately show ?thesis using that ls by blast
qed

subsection \<open>The placement is sound\<close>

text \<open>
  C38: The placement of a device is sound. When \<open>place_with_auxiliary\<close> succeeds, every shard has an
  address; its bytes lie in the available ranges (without the host's scratch range when the
  graph needs finite scratch, and outside it when the shard is live at a host phase); all alias
  displacements and all bindings of every executed repeat, at any depth, hold exactly; the inputs of
  every iterated binding lie at a uniform stride, a multiple of four, from the address of the
  argument, and the recorded stride is that one; and two shards of a tile that are live at a common
  event share no byte unless constraints tie them together. The lifetimes are those of
  \<open>collect_lifetimes\<close>, which number the events of each tile.
\<close>

theorem placement_is_sound:
  assumes "place_with_auxiliary g available offset auxiliary = Inr P" and "ids_ok g"
  shows "\<exists>ls. collect_lifetimes g = Some ls
    \<and> stored_on g ls (scratch_ranges g available) {..<graph_size g} (shard_addresses P)
    \<and> addresses_solve g (shard_addresses P)
    \<and> (\<forall>p\<in>graph_groups g. sequence_ok (shard_addresses P) (sequence_strides_of P) p)
    \<and> live_shards_apart g ls (shard_addresses P)"
  by (rule placement_lemma [OF assms]) blast

text \<open>Three shards on one tile, live together; the second starts 2048 bytes after the first.\<close>

definition sample_block :: "nat \<Rightarrow> shard_definition \<Rightarrow> block_value" where
  "sample_block i d = \<lparr>block_id = i, block_tile = 0, block_storage = sample_shard, block_definition = d\<rparr>"

definition sample_graph :: low_graph where
  "sample_graph = \<lparr>low_program = \<lparr>graph_tile_count = 1, requires_finite_scratch = False,
       shards = [sample_block 0 Staging, sample_block 1 (ShiftedAlias 0 2048), sample_block 2 Staging],
       exchange_phases = [], graph_inputs = [(0, False)], graph_body = [], kernel_runs = [], local_copies = [],
       value_views = [[0, 1, 2]], graph_outputs = []\<rparr>,
     low_tiles = [\<lparr>work_tile = 0, work_list = []\<rparr>], repeat_runs = []\<rparr>"

lemma find_set_root: "parents s ! v = v \<Longrightarrow> find_set s v = Some (v, s)"
  by (subst find_set.simps) simp

lemma find_set_child:
  "parents s ! v = p \<Longrightarrow> p \<noteq> v \<Longrightarrow> parents s ! p = p \<Longrightarrow>
   find_set s v = Some (p, s\<lparr>parents := (parents s)[v := p], set_offsets := (set_offsets s)[v := set_offsets s ! v + set_offsets s ! p]\<rparr>)"
  by (subst find_set.simps) (simp add: find_set_root)

definition sample_life :: lifetime where
  "sample_life = \<lparr>life_first = 0, life_last = 0, life_seen = True\<rparr>"

definition sample_analysis :: allocation_analysis where
  "sample_analysis = \<lparr>analysis_tiles = [\<lparr>tile_iterated = [], tile_members = [1 \<mapsto> [0, 1], 2 \<mapsto> [2]]\<rparr>],
     root_of_member = [1, 1, 2], analysis_offsets = [0, 2048, 0],
     root_requirements = [1 \<mapsto> access_default, 2 \<mapsto> access_default],
     root_lifetimes = [1 \<mapsto> sample_life, 2 \<mapsto> sample_life], root_conflicts = Map.empty\<rparr>"

lemma sample_lifetimes: "collect_lifetimes sample_graph = Some [sample_life, sample_life, sample_life]"
proof -
  have "touch_work g exchanges tile [] st = Some st" for g exchanges tile st by (subst touch_work.simps) simp
  then show ?thesis
    by (simp add: collect_lifetimes_def exchange_touches_def sample_graph_def graph_shards_def touch_all_def touch_life_def
        lifetime_default_def sample_life_def numeral_3_eq_3 get_def)
qed

lemma sample_constraints:
  "alias_unions sample_graph (graph_shards sample_graph) (sets_new 3) = Inr \<lparr>parents = [1, 1, 2], set_offsets = [- 2048, 0, 0]\<rparr>"
proof -
  have "union_offset 1 0 2048 (sets_new 3) = Some (Inr \<lparr>parents = [1, 1, 2], set_offsets = [- 2048, 0, 0]\<rparr>)"
    by (simp add: union_offset_def find_set_root sets_new_def numeral_3_eq_3 Let_def)
  then show ?thesis
    by (simp add: sample_graph_def graph_shards_def sample_block_def alias_target_def get_def join_panic_def)
qed

lemma sample_roots:
  "find_all [0..<3] \<lparr>parents = [1, 1, 2], set_offsets = [- 2048, 0, 0]\<rparr>
    = Some ([1, 1, 2], \<lparr>parents = [1, 1, 2], set_offsets = [- 2048, 0, 0]\<rparr>)"
proof -
  have "[0..<3] = [0, 1, 2::nat]" by (simp add: upt_rec)
  moreover have "find_set \<lparr>parents = [1, 1, 2], set_offsets = [- 2048, 0, 0]\<rparr> 0
      = Some (1, \<lparr>parents = [1, 1, 2], set_offsets = [- 2048, 0, 0]\<rparr>)"
    by (subst find_set_child [of _ _ 1]) simp_all
  ultimately show ?thesis by (simp add: find_set_root)
qed

lemma sample_offsets:
  "member_offsets_of (replicate 3 access_default) [- 2048, 0, 0] (members_of [1, 1, 2]) = Inr [0, 2048, 0]"
proof -
  have "[0..<3] = [0, 1, 2::nat]" by (simp add: upt_rec)
  then show ?thesis
    by (simp add: member_offsets_of_def ordered_roots_def members_of_eq members_with_def group_minimum_def access_default_def
        Let_def numeral_3_eq_3 is_multiple_of_def)
qed

lemma sample_analyzes: "analyze_allocations sample_graph = Inr sample_analysis"
proof -
  let ?g = sample_graph
  have n: "length (graph_shards ?g) = 3" by (simp add: sample_graph_def graph_shards_def)
  have nil: "collect_repeat_constraints ?g tile [] st = Some (Inr st)" "collect_requirements ?g [] st' = Some st'" for tile st st'
    by (subst collect_repeat_constraints.simps, simp) (subst collect_requirements.simps, simp)
  have r: "repeat_unions ?g (low_tiles ?g) (s, []) = Inr (s, [])" for s
    by (simp add: nil join_panic_def sample_graph_def [THEN arg_cong, of low_tiles])
  have q: "tile_requirements ?g (low_tiles ?g) st = Some st" for st
    by (simp add: nil sample_graph_def [THEN arg_cong, of low_tiles])
  have e: "exchange_pairs ?g = Some []" by (simp add: exchange_pairs_def sample_graph_def)
  have u: "[0..<3] = [0, 1, 2::nat]" by (simp add: upt_rec)
  have m: "members_of [1, 1, 2] = [1 \<mapsto> [0, 1], 2 \<mapsto> [2]]"
    by (rule ext) (simp add: members_of_eq members_with_def u numeral_3_eq_3 upt_rec)
  have ok: "alias_groups_ok ?g (members_of [1, 1, 2])"
    unfolding alias_groups_ok_def n m by (simp add: ordered_roots_def u sample_graph_def graph_shards_def sample_block_def block_class_def)
  have sp: "split_by_tile ?g (members_of [1, 1, 2]) [] = Some [\<lparr>tile_iterated = [], tile_members = [1 \<mapsto> [0, 1], 2 \<mapsto> [2]]\<rparr>]"
    unfolding split_by_tile_def n m
    by (simp add: ordered_roots_def u sample_graph_def graph_shards_def sample_block_def Let_def fun_eq_iff)
  have reqs: "combine_by_root access_default access_include [1, 1, 2] (replicate 3 access_default) = [1 \<mapsto> access_default, 2 \<mapsto> access_default]"
    by (rule ext) (simp add: combine_by_root_eq members_with_def upt_rec access_include_def access_default_def)
  have lives: "combine_by_root lifetime_default include_life [1, 1, 2] [sample_life, sample_life, sample_life] = [1 \<mapsto> sample_life, 2 \<mapsto> sample_life]"
    by (rule ext) (simp add: combine_by_root_eq members_with_def upt_rec include_life_def touch_life_def sample_life_def lifetime_default_def)
  show ?thesis
    unfolding analyze_allocations_def Let_def n sample_constraints res_bind_simps r prod.case q or_panic_simps e sample_roots
      disjoint_sets.select_convs sample_offsets sample_lifetimes sp
    by (simp add: ok [unfolded m] m reqs lives sample_analysis_def del: One_nat_def)
qed

definition sample_request :: "nat \<Rightarrow> nat \<Rightarrow> allocation_request" where
  "sample_request root width = \<lparr>alloc_auxiliary = None, alloc_class = Ipu21Standard, alloc_stride = None, alloc_lifetime = sample_life,
     alloc_bytes = width, alloc_alignment = 4, alloc_assignments = [(root, 0)], alloc_conflicts = []\<rparr>"

lemma sample_requests:
  "allocation_requests sample_graph sample_analysis \<lparr>tile_iterated = [], tile_members = [1 \<mapsto> [0, 1], 2 \<mapsto> [2]]\<rparr>
    = Inr [sample_request 1 6144, sample_request 2 4096]"
proof -
  have u: "[0..<3] = [0, 1, 2::nat]" by (simp add: upt_rec)
  have n: "length (graph_shards sample_graph) = 3" by (simp add: sample_graph_def graph_shards_def)
  have b: "shard_storage_bytes (graph_shards sample_graph ! i) = Inr 4096" "block_class (graph_shards sample_graph ! i) = Ipu21Standard"
    if "i < 3" for i
  proof -
    have "block_storage (graph_shards sample_graph ! i) = sample_shard"
      using that by (cases i; cases "i - 1"; cases "i - 2") (auto simp: sample_graph_def graph_shards_def sample_block_def)
    then show "shard_storage_bytes (graph_shards sample_graph ! i) = Inr 4096" "block_class (graph_shards sample_graph ! i) = Ipu21Standard"
      by (simp add: shard_storage_bytes_def sample_shard_facts, simp add: block_class_def sample_shard_def)
  qed
  have o: "ordered_roots 3 [1 \<mapsto> [0, 1], 2 \<mapsto> [2::nat]] = [1, 2]" by (simp add: ordered_roots_def u)
  have seen: "life_seen (root_life sample_analysis 1)" "life_seen (root_life sample_analysis 2)"
    by (simp_all add: root_life_def sample_analysis_def sample_life_def)
  have bytes: "allocation_bytes sample_graph [0, 2048, 0] access_default [0, 1] 0 = Inr 6144"
    "allocation_bytes sample_graph [0, 2048, 0] access_default [2] 0 = Inr 4096"
    using b by (simp_all add: get_def n lift_storage_def arith_defs access_default_def)
  have "root_request sample_graph sample_analysis 1 [0, 1] (root_life sample_analysis 1) = Inr (sample_request 1 6144)"
    "root_request sample_graph sample_analysis 2 [2] (root_life sample_analysis 2) = Inr (sample_request 2 4096)"
    using b bytes by (simp_all add: root_request_def get_def n sample_analysis_def sample_request_def root_life_def access_default_def)
  then show ?thesis using seen by (simp add: allocation_requests_def n o del: One_nat_def)
qed

definition sample_place_arena :: arena where
  "sample_place_arena = record_placement (sample_request 1 6144) 0x60000 0x61800
     (arena_new [(0x60000, 0x70000)] 0\<lparr>arena_free := [(0x61800, 0x70000)]\<rparr>)"

lemma power_4: "is_power_of_two 4"
  by (simp add: is_power_of_two.simps)

lemma sample_request_domains:
  "domains (sample_request 1 6144) [(0x60000, 0x70000)] 0 = [(0, \<lparr>dom_first = 0x60000, dom_last = 0x6e800, dom_alignment = 4, dom_bytes = 6144\<rparr>)]"
  "domains (sample_request 2 4096) [(0x61800, 0x70000)] 0 = [(0, \<lparr>dom_first = 0x61800, dom_last = 0x6f000, dom_alignment = 4, dom_bytes = 4096\<rparr>)]"
  by (simp_all add: sample_request_def domain_eval power_4 sample_life_def)

lemma sample_request_allocates:
  "arena_allocate (sample_request 1 6144) (arena_new [(0x60000, 0x70000)] 0) = (Some 0x60000, sample_place_arena)"
  "\<exists>a. arena_allocate (sample_request 2 4096) sample_place_arena = (Some 0x61800, a)"
proof -
  have c: "alloc_conflicts (sample_request root width) = []" "life_first (alloc_lifetime (sample_request root width)) = 0" for root width
    by (simp_all add: sample_request_def sample_life_def)
  show "arena_allocate (sample_request 1 6144) (arena_new [(0x60000, 0x70000)] 0) = (Some 0x60000, sample_place_arena)"
    using sample_request_domains(1)
    by (simp add: arena_allocate_def arena_new_def merge_ranges_def first_min_def map_filter_simps arena_candidate_def c
        take_free_def sample_place_arena_def memory_constants)
  have f: "arena_free sample_place_arena = [(0x61800, 0x70000)]" "active sample_place_arena = [(0, 0x60000, 6144)]"
    "interleaved_offset sample_place_arena = 0" "\<not> offline sample_place_arena"
    by (simp_all add: sample_place_arena_def arena_new_def sample_request_def sample_life_def)
  show "\<exists>a. arena_allocate (sample_request 2 4096) sample_place_arena = (Some 0x61800, a)"
    using sample_request_domains(2) f
    by (simp add: arena_allocate_def c merge_ranges_def first_min_def map_filter_simps arena_candidate_def
        memory_constants place_align_up_def result_ok_def Let_def)
qed

lemma sample_places: "\<exists>P. place_with_auxiliary sample_graph [(0x60000, 0x70000)] 0 [] = Inr P"
proof -
  let ?rs = "[sample_request 1 6144, sample_request 2 4096]" and ?ms = "[1 \<mapsto> [0, 1], 2 \<mapsto> [2::nat]]"
  have s: "sort_key lifetime_key (?rs @ auxiliary_requests []) = ?rs"
    by (simp add: auxiliary_requests_def lifetime_key_def sample_request_def less_eq_prod_def)
  obtain a where a: "arena_allocate (sample_request 2 4096) sample_place_arena = (Some 0x61800, a)" using sample_request_allocates(2) by blast
  obtain m1 where m1: "assign_request (sample_request 1 6144) 0x60000 ?ms [0, 2048, 0] Map.empty = Inr m1"
    by (simp add: assign_request_def sample_request_def try_from_def checked_add_def get_def)
  obtain m2 where m2: "assign_request (sample_request 2 4096) 0x61800 ?ms [0, 2048, 0] m1 = Inr m2"
    by (simp add: assign_request_def sample_request_def try_from_def checked_add_def get_def)
  have "allocate_requests 0 ?ms [0, 2048, 0] ?rs (arena_new [(0x60000, 0x70000)] 0) Map.empty = Inr (a, m2)"
    by (simp only: allocate_requests.simps sample_request_allocates(1) a m1 m2 prod.case option.case res_bind_simps)
  then have al: "allocate_tile 0 ?rs [] ?ms [0, 2048, 0] (arena_new [(0x60000, 0x70000)] 0) Map.empty = Inr (a, m2)"
    unfolding allocate_tile_def Let_def s by simp
  have tile: "analysis_offsets sample_analysis = [0, 2048, 0]"
    "analysis_tiles sample_analysis = [\<lparr>tile_iterated = [], tile_members = ?ms\<rparr>]" by (simp_all add: sample_analysis_def)
  have fs: "\<not> requires_finite_scratch (low_program sample_graph)" "graph_tile_count (low_program sample_graph) = 1"
    by (simp_all add: sample_graph_def)
  obtain p where p: "place_tile sample_graph 0 [(0x60000, 0x70000)] 0 sample_analysis \<lparr>tile_iterated = [], tile_members = ?ms\<rparr> [] = Inr p"
    by (simp add: place_tile_def fs sample_requests tile al del: One_nat_def)
  have one: "[0..<1] = [0::nat]" by simp
  have "available_ok [(0x60000, 0x70000)]" by (simp add: available_ok_def memory_constants)
  then show ?thesis
    by (simp add: place_with_auxiliary_def sample_analyzes tile fs p memory_constants try_from_def get_def one del: One_nat_def)
qed

theorem placement_is_sound_witness:
  "\<exists>P a b. place_with_auxiliary sample_graph [(0x60000, 0x70000)] 0 [] = Inr P
    \<and> shard_addresses P 1 = Some b \<and> shard_addresses P 0 = Some a \<and> b = a + 2048
    \<and> stored_on sample_graph [sample_life, sample_life, sample_life] [(0x60000, 0x70000)] {..<3} (shard_addresses P)
    \<and> live_shards_apart sample_graph [sample_life, sample_life, sample_life] (shard_addresses P)"
proof -
  obtain P where P: "place_with_auxiliary sample_graph [(0x60000, 0x70000)] 0 [] = Inr P" using sample_places by blast
  have "ids_ok sample_graph" by (simp add: ids_ok_def graph_shards_def sample_graph_def sample_block_def upt_rec)
  from placement_is_sound [OF P this]
  have st: "stored_on sample_graph [sample_life, sample_life, sample_life] (scratch_ranges sample_graph [(0x60000, 0x70000)]) {..<graph_size sample_graph} (shard_addresses P)"
    and so: "addresses_solve sample_graph (shard_addresses P)"
    and ap: "live_shards_apart sample_graph [sample_life, sample_life, sample_life] (shard_addresses P)"
    using sample_lifetimes by auto
  have "constraint sample_graph (block_id (sample_block 1 (ShiftedAlias 0 2048))) 0 2048"
    by (rule of_alias) (simp_all add: sample_graph_def graph_shards_def sample_block_def alias_target_def)
  then have c: "constraint sample_graph 1 0 2048" by (simp add: sample_block_def)
  obtain a b where ab: "shard_addresses P 1 = Some b" "shard_addresses P 0 = Some a" "int b = int a + 2048"
    using so c unfolding addresses_solve_def by blast
  have "scratch_ranges sample_graph [(0x60000, 0x70000)] = [(0x60000, 0x70000)]" "graph_size sample_graph = 3"
    by (simp_all add: scratch_ranges_def sample_graph_def graph_size_def graph_shards_def)
  then show ?thesis using P st ap ab by (intro exI [of _ P] exI [of _ a] exI [of _ b]) simp
qed

end
