(* ===== verification/Addresses.thy ===== *)
theory Addresses
  imports Prelude Device
begin

text \<open>
  Addresses of bytes of a shard after placement (\<open>resolve_address\<close> and \<open>storage_chain\<close> of
  \<open>low/storage.rs\<close>, used when code is generated) against the placement of the device: walking
  the chain of aliases to a Repeat override gives the displacement that placement realised.
\<close>

subsection \<open>Alias chains\<close>

text \<open>Every link of the chain of a shard lies at its displacement from the shard.\<close>

definition chain_solved :: "low_graph \<Rightarrow> (nat \<rightharpoonup> nat) \<Rightarrow> nat \<Rightarrow> (nat \<times> int) list \<Rightarrow> bool" where
  "chain_solved g addresses a xs \<longleftrightarrow>
     (\<forall>p\<in>set xs. fst p < graph_size g \<and> (\<exists>s. addresses (fst p) = Some s \<and> int a = int s + snd p))"

lemma storage_next_constraint:
  assumes "storage_next (graph_shards g) (shard, offset) = Some (source, offset')" and "ids_ok g"
  shows "shard < graph_size g" "\<exists>x. constraint g shard source x \<and> offset' = offset + x"
proof -
  obtain b where b: "shard < graph_size g" "graph_shards g ! shard = b" "b \<in> set (graph_shards g)"
    using assms(1) by (auto simp: storage_next_def graph_size_def split: option.splits)
  then show "shard < graph_size g" by simp
  obtain x where "alias_target b = Some (source, x)" "offset' = offset + x"
    using assms(1) b(1,2) by (auto simp: storage_next_def alias_target_def graph_size_def get_def split: shard_definition.splits)
  moreover have "block_id b = shard" using ids_nth [OF assms(2) b(1)] b(2) by simp
  ultimately show "\<exists>x. constraint g shard source x \<and> offset' = offset + x" using of_alias [OF b(3)] by metis
qed

lemma chain_from_solved:
  assumes ids: "ids_ok g" and so: "addresses_solve g addresses"
    and lk: "\<And>l r x. constraint g l r x \<Longrightarrow> r < graph_size g"
  shows "shard < graph_size g \<Longrightarrow> addresses shard = Some b \<Longrightarrow> int a = int b + offset \<Longrightarrow>
    chain_solved g addresses a (chain_from (graph_shards g) n (shard, offset))"
proof (induction n arbitrary: shard offset b)
  case (Suc n)
  show ?case
  proof (cases "storage_next (graph_shards g) (shard, offset)")
    case None
    then show ?thesis using Suc.prems by (simp add: chain_solved_def)
  next
    case (Some q)
    obtain source offset' where q: "q = (source, offset')" by (cases q)
    obtain x where x: "constraint g shard source x" "offset' = offset + x"
      using storage_next_constraint(2) [OF Some [unfolded q] ids] by blast
    obtain s where s: "addresses source = Some s" "int b = int s + x"
      using so x(1) Suc.prems(2) unfolding addresses_solve_def by fastforce
    have "chain_solved g addresses a (chain_from (graph_shards g) n (source, offset'))"
      by (rule Suc.IH [OF lk [OF x(1)] s(1)]) (use s(2) x(2) Suc.prems(3) in simp)
    then show ?thesis using Suc.prems by (simp add: Some q chain_solved_def)
  qed
qed (simp add: chain_solved_def)

subsection \<open>Resolved addresses\<close>

text \<open>A base moved by a number of bytes, within its width.\<close>

definition relocated :: "tile_address \<Rightarrow> int \<Rightarrow> address_error + tile_address" where
  "relocated base delta =
     (case base of
        Absolute b \<Rightarrow>
          (let x = int b + delta in if 0 \<le> x \<and> x < 2 ^ 32 then Inr (Absolute (nat x)) else Inl AddressOverflow)
      | RepeatPointer index c \<Rightarrow>
          (let x = c + delta in if - (2 ^ 31) \<le> x \<and> x < 2 ^ 31 then Inr (RepeatPointer index x) else Inl AddressOverflow))"

definition base_in_range :: "tile_address \<Rightarrow> bool" where
  "base_in_range base = (case base of Absolute b \<Rightarrow> b < 2 ^ 32 | RepeatPointer index c \<Rightarrow> - (2 ^ 31) \<le> c \<and> c < 2 ^ 31)"

lemma displaced_small:
  "\<bar>base\<bar> \<le> 2 ^ 32 \<Longrightarrow> \<bar>displacement\<bar> \<le> 2 ^ 32 \<Longrightarrow> offset < 2 ^ 32 \<Longrightarrow>
   displaced base displacement offset = Inr (base + displacement + int offset)"
proof -
  assume a: "\<bar>base\<bar> \<le> 2 ^ 32" "\<bar>displacement\<bar> \<le> 2 ^ 32" "offset < 2 ^ 32"
  have "- (2 ^ 63) \<le> base + displacement" "base + displacement < 2 ^ 63" "- (2 ^ 63) \<le> base + displacement + int offset"
    "base + displacement + int offset < 2 ^ 63" using a by simp_all
  then show ?thesis by (simp add: displaced_def checked_i64_def)
qed

lemma find_map_find:
  "find_map (\<lambda>(source, d). map_option (\<lambda>base. (base, d)) (overrides source)) xs
    = map_option (\<lambda>p. (the (overrides (fst p)), snd p)) (find (\<lambda>p. overrides (fst p) \<noteq> None) xs)"
  by (induction xs) (auto split: option.splits)

lemma find_mem: "find P xs = Some x \<Longrightarrow> x \<in> set xs \<and> P x"
  by (induction xs) (auto split: if_splits)

text \<open>
  C40: After a successful placement, resolved addresses follow it. Every link of a shard's alias chain
  has an address, and the chain's displacement is the distance between the two addresses. So a
  byte of the shard resolves, from the nearest link that a Repeat overrides, to the override moved
  by the distance from that link to the shard as placed plus the offset, and without an override
  to the placed address plus the offset; it is refused exactly when that does not fit.
\<close>

theorem resolved_addresses_follow_placement:
  assumes "place_with_auxiliary g available begin_offset auxiliary = Inr P" and "ids_ok g" and "i < graph_size g" and "offset < 2 ^ 32"
    and "\<forall>source base. overrides source = Some base \<longrightarrow> base_in_range base"
  shows "\<exists>a. shard_addresses P i = Some a \<and> chain_solved g (shard_addresses P) a (storage_chain (graph_shards g) i)
    \<and> resolve_address (graph_shards g) (shard_addresses P) overrides i offset
      = (case find (\<lambda>p. overrides (fst p) \<noteq> None) (storage_chain (graph_shards g) i) of
           None \<Rightarrow> relocated (Absolute a) (int offset)
         | Some (source, _) \<Rightarrow>
             relocated (the (overrides source)) (int a - int (the (shard_addresses P source)) + int offset))"
proof -
  let ?A = "shard_addresses P" and ?xs = "storage_chain (graph_shards g) i"
  obtain ls where st: "stored_on g ls (scratch_ranges g available) {..<graph_size g} ?A" and so: "addresses_solve g ?A"
    and small: "\<And>j b. j < graph_size g \<Longrightarrow> ?A j = Some b \<Longrightarrow> b < 2 ^ 32"
    by (rule placement_lemma [OF assms(1,2)]) blast
  obtain a where a: "?A i = Some a" using st assms(3) unfolding stored_on_def by blast
  obtain an where "analyze_allocations g = Inr an" by (rule place_with_auxiliary_Inr [OF assms(1)])
  then obtain lt gr where "solved g an" by (rule analysis_post [OF _ assms(2)])
  then have lk: "r < graph_size g" if "constraint g l r x" for l r x using that by (auto simp: solved_def linked_def)
  have ch: "chain_solved g ?A a ?xs"
    unfolding storage_chain_def by (rule chain_from_solved [OF assms(2) so lk assms(3) a]) simp_all
  have a32: "a < 2 ^ 32" by (rule small [OF assms(3) a])
  have "resolve_address (graph_shards g) ?A overrides i offset
      = (case find (\<lambda>p. overrides (fst p) \<noteq> None) ?xs of
           None \<Rightarrow> relocated (Absolute a) (int offset)
         | Some (source, _) \<Rightarrow> relocated (the (overrides source)) (int a - int (the (?A source)) + int offset))"
  proof (cases "find (\<lambda>p. overrides (fst p) \<noteq> None) ?xs")
    case None
    have "displaced (int a) 0 offset = Inr (int a + 0 + int offset)" by (rule displaced_small) (use a32 assms(4) in simp_all)
    then show ?thesis
      unfolding resolve_address_def find_map_find None by (simp add: a relocated_def Let_def)
  next
    case (Some p)
    obtain source d where p: "p = (source, d)" by (cases p)
    obtain base where base: "overrides source = Some base" using find_mem [OF Some] p by auto
    obtain s where s: "source < graph_size g" "?A source = Some s" "int a = int s + d"
      using ch find_mem [OF Some] p unfolding chain_solved_def by fastforce
    have d: "d = int a - int s" "\<bar>d\<bar> \<le> 2 ^ 32" using s(3) a32 small [OF s(1,2)] by simp_all
    have r: "base_in_range base" using assms(5) base by blast
    show ?thesis
    proof (cases base)
      case (Absolute b)
      have "displaced (int b) d offset = Inr (int b + d + int offset)"
        by (rule displaced_small) (use r Absolute d(2) assms(4) in \<open>simp_all add: base_in_range_def\<close>)
      then show ?thesis
        unfolding resolve_address_def find_map_find Some p
        by (simp add: base Absolute relocated_def Let_def s(2) d(1) algebra_simps)
    next
      case (RepeatPointer index c)
      have "\<bar>c\<bar> \<le> 2 ^ 32" using r RepeatPointer by (auto simp: base_in_range_def)
      then have "displaced c d offset = Inr (c + d + int offset)" by (rule displaced_small [OF _ d(2) assms(4)])
      then show ?thesis
        unfolding resolve_address_def find_map_find Some p
        by (simp add: base RepeatPointer relocated_def Let_def s(2) d(1) algebra_simps)
    qed
  qed
  then show ?thesis using a ch by blast
qed

text \<open>The shifted shard of the sample under an override of the shard it aliases.\<close>

theorem resolved_addresses_follow_placement_witness:
  "\<exists>P. place_with_auxiliary sample_graph [(0x60000, 0x70000)] 0 [] = Inr P
    \<and> resolve_address (graph_shards sample_graph) (shard_addresses P) [0 \<mapsto> RepeatPointer 3 64] 1 4 = Inr (RepeatPointer 3 2116)"
proof -
  obtain P where P: "place_with_auxiliary sample_graph [(0x60000, 0x70000)] 0 [] = Inr P" using sample_places by blast
  have "ids_ok sample_graph" by (simp add: ids_ok_def graph_shards_def sample_graph_def sample_block_def upt_rec)
  moreover have "(1::nat) < graph_size sample_graph" "(4::nat) < 2 ^ 32" by (simp_all add: graph_size_def graph_shards_def sample_graph_def)
  moreover have "\<forall>source base. [0 \<mapsto> RepeatPointer 3 64] source = Some base \<longrightarrow> base_in_range base" by (simp add: base_in_range_def)
  moreover have c: "storage_chain (graph_shards sample_graph) 1 = [(1, 0), (0, 2048)]"
    by (simp add: storage_chain_def graph_shards_def sample_graph_def sample_block_def storage_next_def get_def numeral_3_eq_3)
  ultimately obtain a where a: "chain_solved sample_graph (shard_addresses P) a [(1, 0), (0, 2048)]"
    and r: "resolve_address (graph_shards sample_graph) (shard_addresses P) [0 \<mapsto> RepeatPointer 3 64] 1 4
      = relocated (RepeatPointer 3 64) (int a - int (the (shard_addresses P 0)) + 4)"
    using resolved_addresses_follow_placement [OF P, of 1 4 "[0 \<mapsto> RepeatPointer 3 64]"] by auto
  obtain s where "shard_addresses P 0 = Some s" "int a = int s + 2048" using a by (auto simp: chain_solved_def)
  then show ?thesis using P r by (simp add: relocated_def Let_def)
qed

end
