(* ===== verification/Spec2Isabelle.thy ===== *)
theory Spec2Isabelle
  imports Main Prelude Target Instruction Fabric TileMemory Chunked EncodedRow Hazards Transfers
    Dependencies Streams Layout Resolved Tilings Planner Storage Traversal Physical Arena Search Placement
    Matching Waves Aliases LowGraph Projection Allocation Analysis Device Addresses
begin

text \<open>
  Verification development for ipu-stack, a compiler and driver stack for the IPU21 processor.
  It models the compiler's core: from tensor layouts to byte addresses, from low-level work to
  placed tile memory, and from copies between tiles to ordered exchange phases. Paths below
  are relative to \<open>src/crates/ipu-codegen/src\<close> unless a crate is named.

  \<^bold>\<open>The program.\<close> A graph of tensors is lowered to shards on tiles (\<open>low/\<close>). A tensor's layout
  (\<open>tensor/layout.rs\<close>) resolves to an ownership geometry (\<open>tensor/resolved.rs\<close>); a shard stores
  its elements in one of several orders (\<open>storage/mod.rs\<close>) and a view of it is read as a stream of
  byte runs (\<open>storage/traversal.rs\<close>). Placement (\<open>place/\<close>) gives each shard an address in its
  tile's SRAM (crate \<open>ipu-target\<close> has the memory map, \<open>memory.rs\<close> a list of reservations).
  Exchange phases (\<open>exchange/\<close>) cut the copies between tiles into messages, find which of them
  depend on each other through memory, order them, and write rows of instruction words.

  \<^bold>\<open>Theories, from the hardware up.\<close>

  \<^item> Prelude: checked, wrapping and saturating integers, slices, results and panics, and the
    lemmas shared by all parts; the locale of state machines with an invariant.
  \<^item> Target, Instruction, Fabric: crate \<open>ipu-target\<close>. Memory constants and contention regions
    (\<open>ipu21/memory.rs\<close>), supervisor instruction words with a decoder as their specification
    (\<open>ipu21/instruction.rs\<close>), tile numbering and partner routes (\<open>ipu21/fabric.rs\<close>, \<open>c600.rs\<close>).
  \<^item> TileMemory: the reservations and free ranges of a tile (\<open>memory.rs\<close>): they partition the SRAM
    after any requests, and allocation is first fit.
  \<^item> Chunked, EncodedRow: the containers of encoded exchange rows (\<open>exchange/program/chunked.rs\<close>,
    \<open>row.rs\<close>, \<open>encoding.rs\<close>). Chunked vectors refine lists (locale \<open>sequence\<close>, interpreted on the
    chunked operations); relocation writes only address fields; truncation restores a checkpoint.
  \<^item> Radix, Layout, Resolved: tensor formats and the tiles of each element. The layout
    constructors, shard bounds and flat ownership agree with each other, and each element of a
    rectangular layout is on exactly as many tiles as it has replicas.
  \<^item> Tilings, Planner: tilings whose tiles, replicas and strides agree, and the layouts the planner
    proposes (\<open>default_layouts\<close> of \<open>planner/candidates.rs\<close>, \<open>planner/parameters.rs\<close>, the GEMM
    assignments of \<open>planner/gemm.rs\<close>, the one-tile assembly of \<open>planner/construction.rs\<close>), all of
    which have such tilings and pass the mapping checks.
  \<^item> Storage, Traversal, Physical: element addresses of a shard. Index and coordinate functions are
    inverse, digits give the same address, logical traversals follow coordinates and physical
    ones ascend through exactly the bytes of the view.
  \<^item> Hazards, Transfers, Dependencies, Streams, Matching, Waves: \<open>exchange/hazards.rs\<close>,
    \<open>prepare.rs\<close>, \<open>packet.rs\<close>, \<open>problem.rs\<close>, \<open>streams.rs\<close>, \<open>matching.rs\<close>. Messages cover the
    copied views; coalescing and splitting keep the memory of all tiles (an explicit store of bytes
    per tile); dependencies are the memory conflicts, so every order that keeps them leaves the
    same memory (locale \<open>commuting_actions\<close>, interpreted on the transfers of a phase); the stream
    order and the wave order both end in such an order, and waves are maximum matchings.
  \<^item> Arena, Search, Placement: \<open>Arena\<close> and \<open>allocate_tile\<close> of \<open>place/mod.rs\<close> and \<open>place/search.rs\<close>.
    A placed tile gives every request an aligned interval, requests that are live together
    disjoint bytes and conflicting requests disjoint memory elements, whichever strategy succeeds.
  \<^item> LowGraph, Projection: the graph that placement reads (\<open>low/graph.rs\<close>, \<open>low/storage.rs\<close>) and its
    projection to tiles (\<open>lower_to_tiles\<close> of \<open>low/mod.rs\<close>), which gives each tile exactly the steps
    the device-wide program prescribes.
  \<^item> Aliases, Allocation, Analysis, Device, Addresses: alias constraints as a union-find with
    displacements, the analysis that turns the graph into the requests of each tile, and \<open>place\<close> of
    the whole device (\<open>place/mod.rs\<close>). Analysis shows what the analysis computes, Device that the
    requests meet the hypotheses of Placement and that the addresses of all tiles solve every alias and
    repeat constraint and keep live shards apart, Addresses that \<open>resolve_address\<close> follows them.

  \<^bold>\<open>Conventions.\<close> Bit-level code uses words; addresses, sizes and counters are naturals with the
  checked, saturating or wrapping operations of the source at their width, signed values are
  integers. A \<open>Result\<close> is a sum, with a panic as an error of its own (\<open>fault\<close>). A Rust \<open>Vec\<close> is a
  list, a \<open>BTreeMap\<close> a partial map whose keys are read in order. Text of errors, tracing and
  diagnostics is left out. A \<open>BlockValueId\<close> is its index.

  \<^bold>\<open>Fuel and loops.\<close> Loops whose end is not structural are functions with a measure, or partial
  functions whose \<open>None\<close> is a run without end; that they return is proved (Streams, Matching, Waves,
  Aliases). The recursions of Allocation through repeat runs are partial functions; Projection shows
  that work lists made by \<open>lower_to_tiles\<close> refer only to earlier runs. The budgets of Search are the code's own.

  \<^bold>\<open>Not modelled.\<close> The front end, the search of the planner and the cost estimates (they choose a program
  and do not affect what it means), the mid-level rewrites and the expansion of copies, kernels as generated C++, the
  row-timing search of \<open>exchange/program/mod.rs\<close> and the ordering heuristics (\<open>greedy.rs\<close>, \<open>repair.rs\<close>,
  \<open>select.rs\<close>, which choose among orders that keep the dependencies), packages, profiles, the driver
  and runtime (file, register and DMA access), and the tests. Parameters of the model: the access
  requirements of kernel operands (fields of a run) and the receive-conflict test of a plan.
\<close>

end
